(* ===== verification/Okm_Prelude.thy ===== *)
theory Okm_Prelude
  imports Main "HOL-Library.Word" "HOL-Library.List_Lexorder" "HOL-Library.Sublist"
    "HOL-Library.Monad_Syntax"
begin

text \<open>
  Shared vocabulary of the development: byte strings, the big-endian codec of
  Rust's \<open>to_be_bytes\<close> / \<open>from_be_bytes\<close>, the lexicographic order of byte strings
  (the order every engine scan of the program answers in), and the lemma
  collections the component theories use.

  \<^item> \<open>byte_codec\<close> collects the equations of the fixed-width codecs;
  \<^item> \<open>byte_order\<close> collects the facts that relate byte order and value order.
\<close>

named_theorems byte_codec \<open>equations of the byte codecs\<close>
named_theorems byte_order \<open>byte order against value order\<close>

type_synonym byte = "8 word"
type_synonym bytes = "byte list"
type_synonym u16 = "16 word"
type_synonym u32 = "32 word"
type_synonym u64 = "64 word"

section \<open>Big-endian integers\<close>

text \<open>
  \<open>be_bytes n v\<close> is the \<open>n\<close>-byte big-endian image of \<open>v\<close> (higher bytes are cut off,
  as a narrowing cast before \<open>to_be_bytes\<close> would), \<open>be_val\<close> reads it back.
\<close>

fun be_bytes :: "nat \<Rightarrow> nat \<Rightarrow> bytes" where
  "be_bytes 0 v = []"
| "be_bytes (Suc n) v = of_nat (v div 256 ^ n) # be_bytes n v"

fun be_val :: "bytes \<Rightarrow> nat" where
  "be_val [] = 0"
| "be_val (b # bs) = unat b * 256 ^ length bs + be_val bs"

lemma unat_byte_less [simp]: "unat (b :: byte) < 256"
  using unsigned_less [of b, where ?'a = nat] by simp

lemma unat_byte_of_nat [simp]: "unat (of_nat v :: byte) = v mod 256"
  by (simp add: unat_of_nat)

lemma unat_byte_small: "v < 256 \<Longrightarrow> unat (of_nat v :: byte) = v"
  by (simp only: unat_byte_of_nat mod_less)

lemma byte_of_nat_eq_iff: "(of_nat a :: byte) = of_nat b \<longleftrightarrow> a mod 256 = b mod 256"
  by (metis unat_byte_of_nat word_unat_eq_iff)

lemma unat_drop_bit_div: "unat (drop_bit k (v :: 'a :: len word)) = unat v div 2 ^ k"
  by (simp only: drop_bit_eq_div [symmetric, where 'a = nat] unat_drop_bit_eq)

lemma unat_take_bit_mod: "unat (take_bit k (v :: 'a :: len word)) = unat v mod 2 ^ k"
  by (simp only: take_bit_eq_mod [symmetric, where 'a = nat] unsigned_take_bit_eq)

lemma length_be_bytes [simp]: "length (be_bytes n v) = n"
  by (induction n) auto

lemma be_bytes_eq_Nil [simp]: "be_bytes n v = [] \<longleftrightarrow> n = 0"
  by (cases n) auto

lemma be_val_less: "be_val bs < 256 ^ length bs"
proof (induction bs)
  case (Cons b bs)
  have "unat b * 256 ^ length bs + be_val bs < unat b * 256 ^ length bs + 256 ^ length bs"
    using Cons by simp
  also have "\<dots> = (unat b + 1) * 256 ^ length bs" by simp
  also have "\<dots> \<le> 256 * 256 ^ length bs"
    using unat_byte_less [of b] by (intro mult_right_mono) (auto simp: Suc_le_eq)
  finally show ?case by simp
qed simp

lemma be_val_be_bytes_mod [byte_codec]: "be_val (be_bytes n v) = v mod 256 ^ n"
proof (induction n)
  case (Suc n)
  have "v mod 256 ^ Suc n = (v div 256 ^ n mod 256) * 256 ^ n + v mod 256 ^ n"
    by (metis mod_mult2_eq mult.commute power_Suc2)
  then show ?case using Suc by simp
qed simp

lemma be_val_be_bytes [simp]: "v < 256 ^ n \<Longrightarrow> be_val (be_bytes n v) = v"
  by (simp add: be_val_be_bytes_mod)

lemma be_bytes_add_high [simp]: "be_bytes n (k * 256 ^ n + v) = be_bytes n v"
proof (induction n arbitrary: k)
  case (Suc n)
  have "be_bytes n (k * 256 ^ Suc n + v) = be_bytes n v"
    using Suc [of "k * 256"] by (simp add: mult.assoc)
  moreover have "(k * 256 ^ Suc n + v) div 256 ^ n = v div 256 ^ n + k * 256"
    by (simp add: mult.assoc [symmetric])
  moreover have "(of_nat (v div 256 ^ n + k * 256) :: byte) = of_nat (v div 256 ^ n)"
    by (subst byte_of_nat_eq_iff) simp
  ultimately show ?case by (simp only: be_bytes.simps)
qed simp

lemma be_bytes_mod: "be_bytes n (v mod 256 ^ n) = be_bytes n v"
  using be_bytes_add_high [of n "v div 256 ^ n" "v mod 256 ^ n"] div_mult_mod_eq [of v "256 ^ n"]
  by (simp del: be_bytes_add_high)

lemma be_bytes_be_val [simp]: "be_bytes (length bs) (be_val bs) = bs"
proof (induction bs)
  case (Cons b bs)
  have "(unat b * 256 ^ length bs + be_val bs) div 256 ^ length bs = unat b"
    using be_val_less [of bs] by simp
  then show ?case using Cons by simp
qed simp

lemma be_bytes_be_val_n: "length bs = n \<Longrightarrow> be_bytes n (be_val bs) = bs"
  using be_bytes_be_val by blast

lemma be_bytes_1: "be_bytes 1 v = [of_nat v]"
  by simp

lemma be_bytes_2: "be_bytes 2 v = [of_nat (v div 256), of_nat v]"
  by (simp add: numeral_2_eq_2)

lemma be_val_append: "be_val (xs @ ys) = be_val xs * 256 ^ length ys + be_val ys"
  by (induction xs) (auto simp: power_add algebra_simps)

lemma be_bytes_append: "be_bytes (m + n) v = be_bytes m (v div 256 ^ n) @ be_bytes n v"
  by (induction m) (auto simp: div_mult2_eq [symmetric] power_add mult.commute)

lemma be_bytes_inject: "a < 256 ^ n \<Longrightarrow> b < 256 ^ n \<Longrightarrow> be_bytes n a = be_bytes n b \<longleftrightarrow> a = b"
  by (metis be_val_be_bytes)

lemma drop_be_bytes [simp]: "drop k (be_bytes n v) = be_bytes (n - k) v"
proof (cases "k \<le> n")
  case True
  then have "be_bytes n v = be_bytes k (v div 256 ^ (n - k)) @ be_bytes (n - k) v"
    using be_bytes_append [of k "n - k" v] by simp
  then show ?thesis by simp
qed simp

section \<open>Byte order\<close>

lemma list_less_same_length_be_val [byte_order]:
  "length xs = length ys \<Longrightarrow> xs < ys \<longleftrightarrow> be_val xs < be_val ys"
proof (induction xs ys rule: list_induct2)
  case (Cons x xs y ys)
  have lx: "be_val xs < 256 ^ length xs" and ly: "be_val ys < 256 ^ length xs"
    using be_val_less [of xs] be_val_less [of ys] Cons.hyps by auto
  consider "unat x < unat y" | "unat x = unat y" | "unat y < unat x" by linarith
  then show ?case
  proof cases
    case 1
    have "unat x * 256 ^ length xs + be_val xs < (unat x + 1) * 256 ^ length xs"
      using lx by simp
    also have "\<dots> \<le> unat y * 256 ^ length xs" using 1 by (intro mult_right_mono) auto
    finally show ?thesis using 1 Cons.hyps by (simp add: word_less_nat_alt)
  next
    case 2
    then have "x = y" by (simp add: word_unat_eq_iff)
    then show ?thesis using Cons by simp
  next
    case 3
    have "unat y * 256 ^ length xs + be_val ys < (unat y + 1) * 256 ^ length xs"
      using ly by simp
    also have "\<dots> \<le> unat x * 256 ^ length xs" using 3 by (intro mult_right_mono) auto
    finally have "\<not> be_val (x # xs) < be_val (y # ys)" using Cons.hyps by simp
    moreover have "\<not> (x # xs < y # ys)" using 3 by (auto simp: word_less_nat_alt)
    ultimately show ?thesis by blast
  qed
qed simp

lemma be_bytes_less_iff [byte_order]:
  "a < 256 ^ n \<Longrightarrow> b < 256 ^ n \<Longrightarrow> be_bytes n a < be_bytes n b \<longleftrightarrow> a < b"
  by (simp add: list_less_same_length_be_val)

lemma append_less_cancel [simp]: "(xs @ ys < xs @ (zs :: 'a :: linorder list)) \<longleftrightarrow> ys < zs"
  by (induction xs) auto

lemma append_le_cancel [simp]: "(xs @ ys \<le> xs @ (zs :: 'a :: linorder list)) \<longleftrightarrow> ys \<le> zs"
  by (simp add: order.order_iff_strict)

lemma le_append [simp]: "xs \<le> xs @ (ys :: 'a :: linorder list)"
  using append_le_cancel [of xs "[]" ys] by simp

lemma same_length_less_append:
  "length xs = length ys \<Longrightarrow> xs < ys \<Longrightarrow> xs @ us < ys @ (vs :: 'a :: linorder list)"
  by (induction xs ys rule: list_induct2) auto

lemma same_length_append_less_iff:
  "length xs = length ys \<Longrightarrow>
    xs @ us < ys @ (vs :: 'a :: linorder list) \<longleftrightarrow> xs < ys \<or> xs = ys \<and> us < vs"
  by (induction xs ys rule: list_induct2) auto

lemma prefix_same_length: "length xs = length ys \<Longrightarrow> prefix xs ys \<longleftrightarrow> xs = ys"
  by (auto simp: prefix_def)

section \<open>Results\<close>

text \<open>
  A fallible operation answers \<open>'e + 'a\<close>: \<open>Inl\<close> is Rust's \<open>Err\<close>, \<open>Inr\<close> its \<open>Ok\<close>.
  \<open>rbind\<close> is the question-mark operator.
\<close>

definition rbind :: "'e + 'a \<Rightarrow> ('a \<Rightarrow> 'e + 'b) \<Rightarrow> 'e + 'b" where
  "rbind r f = (case r of Inl e \<Rightarrow> Inl e | Inr x \<Rightarrow> f x)"

lemma rbind_simps [simp]: "rbind (Inl e) f = Inl e" "rbind (Inr x) f = f x"
  by (simp_all add: rbind_def)

lemma rbind_eq_Inr [simp]: "rbind r f = Inr y \<longleftrightarrow> (\<exists>x. r = Inr x \<and> f x = Inr y)"
  by (cases r) auto

lemma rbind_split: "P (rbind r f) \<longleftrightarrow> (\<forall>e. r = Inl e \<longrightarrow> P (Inl e)) \<and> (\<forall>x. r = Inr x \<longrightarrow> P (f x))"
  by (cases r) auto

lemma rbind_cong [fundef_cong]:
  "r = r' \<Longrightarrow> (\<And>x. r' = Inr x \<Longrightarrow> f x = g x) \<Longrightarrow> rbind r f = rbind r' g"
  by (cases r') auto

section \<open>Readers\<close>

text \<open>
  A reader takes the bytes from its position on and answers a value and the bytes after
  it, \<open>None\<close> when the input is malformed: Rust's \<open>fn(frame, pos: &mut usize) -> Option<T>\<close>
  with \<open>frame[pos..]\<close> in place of the pair. \<open>rd_bind\<close> sequences two readers with the
  question mark in between, \<open>rd_n\<close> is a loop of \<open>count\<close> rounds.
\<close>

type_synonym 'a reader = "bytes \<Rightarrow> ('a \<times> bytes) option"

definition rd_ret :: "'a \<Rightarrow> 'a reader" where
  "rd_ret x b = Some (x, b)"

definition rd_bind :: "'a reader \<Rightarrow> ('a \<Rightarrow> 'b reader) \<Rightarrow> 'b reader" where
  "rd_bind g f b = (case g b of None \<Rightarrow> None | Some (x, r) \<Rightarrow> f x r)"

definition rd_take :: "nat \<Rightarrow> bytes reader" where
  "rd_take n b = (if n \<le> length b then Some (take n b, drop n b) else None)"

definition rd_byte :: "byte reader" where
  "rd_byte b = (case b of [] \<Rightarrow> None | x # r \<Rightarrow> Some (x, r))"

fun rd_n :: "'a reader \<Rightarrow> nat \<Rightarrow> 'a list reader" where
  "rd_n g 0 b = Some ([], b)"
| "rd_n g (Suc n) b = (case g b of None \<Rightarrow> None | Some (x, r) \<Rightarrow>
     (case rd_n g n r of None \<Rightarrow> None | Some (xs, r') \<Rightarrow> Some (x # xs, r')))"

lemma rd_bind_Some: "g b = Some (x, r) \<Longrightarrow> rd_bind g f b = f x r"
  by (simp add: rd_bind_def)

lemma rd_take_append [simp]: "length xs = n \<Longrightarrow> rd_take n (xs @ r) = Some (xs, r)"
  by (simp add: rd_take_def)

lemma rd_byte_Cons [simp]: "rd_byte (x # r) = Some (x, r)"
  by (simp add: rd_byte_def)

lemma rd_byte_Nil [simp]: "rd_byte [] = None"
  by (simp add: rd_byte_def)

text \<open>A local reader consumes a front part and does not look behind it.\<close>

definition rd_local :: "'a reader \<Rightarrow> bool" where
  "rd_local g \<longleftrightarrow> (\<forall>b x r. g b = Some (x, r) \<longrightarrow> (\<exists>u. b = u @ r \<and> (\<forall>t. g (u @ t) = Some (x, t))))"

lemma rd_localD: "rd_local g \<Longrightarrow> g b = Some (x, r) \<Longrightarrow> \<exists>u. b = u @ r \<and> (\<forall>t. g (u @ t) = Some (x, t))"
  by (simp add: rd_local_def)

lemma rd_local_ret [intro, simp]: "rd_local (rd_ret x)"
  by (simp add: rd_local_def rd_ret_def)

lemma rd_local_take [intro, simp]: "rd_local (rd_take n)"
  unfolding rd_local_def
proof (intro allI impI)
  fix b x r assume "rd_take n b = Some (x, r)"
  then have "b = take n b @ r" "length (take n b) = n" "x = take n b"
    by (auto simp: rd_take_def split: if_splits)
  then show "\<exists>u. b = u @ r \<and> (\<forall>t. rd_take n (u @ t) = Some (x, t))"
    by (metis rd_take_append)
qed

lemma rd_local_byte [intro, simp]: "rd_local rd_byte"
  unfolding rd_local_def
proof (intro allI impI)
  fix b x r assume "rd_byte b = Some (x, r)"
  then have "b = [x] @ r" by (cases b) auto
  then show "\<exists>u. b = u @ r \<and> (\<forall>t. rd_byte (u @ t) = Some (x, t))" by (intro exI [of _ "[x]"]) simp
qed

lemma rd_local_fail [intro, simp]: "rd_local (\<lambda>b. None)"
  by (simp add: rd_local_def)

lemma rd_local_bind [intro]:
  assumes "rd_local g" "\<And>x. rd_local (f x)"
  shows "rd_local (rd_bind g f)"
  unfolding rd_local_def
proof (intro allI impI)
  fix b y r assume "rd_bind g f b = Some (y, r)"
  then obtain x r1 where g: "g b = Some (x, r1)" and f: "f x r1 = Some (y, r)"
    by (auto simp: rd_bind_def split: option.splits)
  obtain u where u: "b = u @ r1" "\<And>t. g (u @ t) = Some (x, t)" using rd_localD [OF assms(1) g] by blast
  obtain v where v: "r1 = v @ r" "\<And>t. f x (v @ t) = Some (y, t)" using rd_localD [OF assms(2) f] by blast
  show "\<exists>w. b = w @ r \<and> (\<forall>t. rd_bind g f (w @ t) = Some (y, t))"
    using u v by (intro exI [of _ "u @ v"]) (simp add: rd_bind_def)
qed

lemma rd_n_Suc: "rd_n g (Suc n) = rd_bind g (\<lambda>x. rd_bind (rd_n g n) (\<lambda>xs. rd_ret (x # xs)))"
  by (rule ext) (simp add: rd_bind_def rd_ret_def split: option.splits)

lemma rd_local_n [intro]: "rd_local g \<Longrightarrow> rd_local (rd_n g n)"
proof (induction n)
  case 0
  have "rd_n g 0 = rd_ret []" by (rule ext) (simp add: rd_ret_def)
  then show ?case by simp
qed (auto simp only: rd_n_Suc intro: rd_local_bind rd_local_ret)

text \<open>The contract of an encoder and its reader, and what loops and whole frames get from it.\<close>

locale framed =
  fixes put :: "'a \<Rightarrow> bytes" and get :: "'a reader" and valid :: "'a \<Rightarrow> bool"
  assumes get_put: "valid x \<Longrightarrow> get (put x @ tail) = Some (x, tail)"
    and get_local: "rd_local get"
begin

lemma get_n_put: "list_all valid xs \<Longrightarrow> rd_n get (length xs) (concat (map put xs) @ tail) = Some (xs, tail)"
  by (induction xs) (simp_all add: get_put)

lemma get_truncated:
  assumes "valid x" "n < length (put x)"
  shows "get (take n (put x)) = None"
proof (rule ccontr)
  assume "get (take n (put x)) \<noteq> None"
  then obtain y r where "get (take n (put x)) = Some (y, r)" by (metis option.exhaust surj_pair)
  then obtain u where u: "take n (put x) = u @ r" "\<And>t. get (u @ t) = Some (y, t)"
    using rd_localD [OF get_local] by blast
  have "put x = u @ r @ drop n (put x)" using u(1) by (metis append.assoc append_take_drop_id)
  then have "get (put x) = Some (y, r @ drop n (put x))" using u(2) by metis
  moreover have "get (put x) = Some (x, [])" using get_put [OF assms(1), of "[]"] by simp
  ultimately show False using assms(2) by simp
qed

lemma put_inject: "valid x \<Longrightarrow> valid y \<Longrightarrow> put x @ s = put y @ t \<Longrightarrow> x = y \<and> s = t"
  by (metis get_put option.inject prod.inject)

end

section \<open>UTF-8\<close>

text \<open>
  A Rust \<open>String\<close> is its UTF-8 bytes; \<open>String::from_utf8\<close> accepts the well-formed sequences
  of the Unicode standard (no overlong forms, no surrogates, nothing above U+10FFFF).
\<close>

definition cont_byte :: "byte \<Rightarrow> bool" where
  "cont_byte b \<longleftrightarrow> 0x80 \<le> b \<and> b \<le> 0xBF"

fun utf8_valid :: "bytes \<Rightarrow> bool" where
  "utf8_valid [] = True"
| "utf8_valid (a # r) =
     (if a < 0x80 then utf8_valid r
      else case r of
        [] \<Rightarrow> False
      | b # r2 \<Rightarrow>
        if 0xC2 \<le> a \<and> a \<le> 0xDF then cont_byte b \<and> utf8_valid r2
        else case r2 of
          [] \<Rightarrow> False
        | c # r3 \<Rightarrow>
          if a = 0xE0 then 0xA0 \<le> b \<and> b \<le> 0xBF \<and> cont_byte c \<and> utf8_valid r3
          else if a = 0xED then 0x80 \<le> b \<and> b \<le> 0x9F \<and> cont_byte c \<and> utf8_valid r3
          else if 0xE1 \<le> a \<and> a \<le> 0xEF then cont_byte b \<and> cont_byte c \<and> utf8_valid r3
          else case r3 of
            [] \<Rightarrow> False
          | d # r4 \<Rightarrow>
            if a = 0xF0 then 0x90 \<le> b \<and> b \<le> 0xBF \<and> cont_byte c \<and> cont_byte d \<and> utf8_valid r4
            else if 0xF1 \<le> a \<and> a \<le> 0xF3 then cont_byte b \<and> cont_byte c \<and> cont_byte d \<and> utf8_valid r4
            else if a = 0xF4 then 0x80 \<le> b \<and> b \<le> 0x8F \<and> cont_byte c \<and> cont_byte d \<and> utf8_valid r4
            else False)"

definition from_utf8 :: "bytes \<Rightarrow> bytes option" where
  "from_utf8 b = (if utf8_valid b then Some b else None)"

declare utf8_valid.simps(2) [simp del]

lemma utf8_valid_Cons [simp]: "a < 0x80 \<Longrightarrow> utf8_valid (a # r) = utf8_valid r"
  by (subst utf8_valid.simps) simp

lemma utf8_valid_ascii: "list_all (\<lambda>b. b < 0x80) s \<Longrightarrow> utf8_valid s"
  by (induction s) auto

end
