(* ===== verification/Okm_Varint.thy ===== *)
theory Okm_Varint
  imports Okm_Prelude
begin

text \<open>
  The prefix-monotonic variable-length integer: \<open>okm-core/src/model/wrappers/wire.rs\<close>
  (frame-length prefixes) and \<open>varint.rs\<close> (the \<open>VarInt<T>\<close> field wrapper). Appending
  functions return the bytes they append. Machine arithmetic is that of a release
  build: a \<open>u8\<close> shifted by 8 or more is shifted by the amount modulo 8 (a debug build
  panics there instead). Lengths are \<open>usize\<close> of a 64-bit target.

  The lemmas show the closed form of the encoding, the round trip, that byte order is
  value order, and what happens to the eight-byte width.
\<close>

unbundle bit_operations_syntax

section \<open>The code\<close>

definition leading_ones :: "byte \<Rightarrow> nat" where
  "leading_ones b = length (takeWhile (bit b) [7, 6, 5, 4, 3, 2, 1, 0])"

definition prefix_width :: "byte \<Rightarrow> nat" where
  "prefix_width first = leading_ones first + 1"

definition prefix_byte :: "nat \<Rightarrow> byte" where
  "prefix_byte w =
     (if w \<ge> 9 then 0xFF else ucast (drop_bit 8 (NOT (drop_bit (w - 1) (0xFFFF :: u16)))))"

definition payload_bits :: "nat \<Rightarrow> nat" where
  "payload_bits w = (w - 1) * 8 + (8 - w)"

function width_loop :: "nat \<Rightarrow> u64 \<Rightarrow> nat" where
  "width_loop w v = (if unat v < 2 ^ payload_bits w then w else width_loop (w + 1) v)"
  by pat_completeness auto

lemma payload_bits_ge_64: "9 \<le> w \<Longrightarrow> 64 \<le> payload_bits w"
  by (simp add: payload_bits_def)

lemma u64_less: "unat (v :: u64) < 2 ^ 64"
  using unsigned_less [of v, where ?'a = nat] by simp

termination width_loop
proof (relation "measure (\<lambda>(w, v). 9 - w)")
  fix w and v :: u64
  assume nofit: "\<not> unat v < 2 ^ payload_bits w"
  have "\<not> 9 \<le> w"
  proof
    assume "9 \<le> w"
    then have "(2 :: nat) ^ 64 \<le> 2 ^ payload_bits w"
      by (intro power_increasing payload_bits_ge_64) auto
    then show False using nofit u64_less [of v] by linarith
  qed
  then show "((w + 1, v), (w, v)) \<in> measure (\<lambda>(w, v). 9 - w)" by simp
qed simp

declare width_loop.simps [simp del]

definition width_of :: "u64 \<Rightarrow> nat" where
  "width_of v = (if unat v \<ge> 2 ^ 56 then 9 else width_loop 1 v)"

text \<open>Rust's \<open>u8 >> n\<close> in a release build: the amount is taken modulo the width.\<close>

definition shr_u8 :: "byte \<Rightarrow> nat \<Rightarrow> byte" where
  "shr_u8 x n = drop_bit (n mod 8) x"

definition varint_encode :: "u64 \<Rightarrow> bytes" where
  "varint_encode v =
     (let w = width_of v in
      if w = 9 then 0xFF # be_bytes 8 (unat v)
      else (prefix_byte w OR (ucast (drop_bit ((w - 1) * 8) v) AND shr_u8 0xFF w))
           # drop (8 - (w - 1)) (be_bytes 8 (unat (v AND (push_bit ((w - 1) * 8) 1 - 1)))))"

definition varint_decode :: "bytes \<Rightarrow> (u64 \<times> nat) option" where
  "varint_decode b =
     (case b of [] \<Rightarrow> None
      | b0 # _ \<Rightarrow>
        let w = prefix_width b0 in
        if length b < w then None
        else
          let v = (if w = 9 then of_nat (be_val (take 8 (drop 1 b)))
                   else push_bit (payload_bits w - (8 - w)) (ucast (b0 AND shr_u8 0xFF w))
                        OR foldl (\<lambda>low byte. push_bit 8 low OR ucast byte) 0
                             (take (w - 1) (drop 1 b)))
          in Some (v, w))"

text \<open>The \<open>VarInt<T>\<close> wrapper at the narrower widths: widen, encode; decode, truncate.\<close>

definition VarInt_encode :: "'a :: len word \<Rightarrow> bytes" where
  "VarInt_encode x = varint_encode (ucast x)"

definition VarInt_decode :: "bytes \<Rightarrow> ('a :: len word \<times> nat) option" where
  "VarInt_decode b = map_option (\<lambda>(v, w). (ucast v, w)) (varint_decode b)"

text \<open>Frame lengths use the same layout through \<open>usize\<close>.\<close>

definition put_len :: "nat \<Rightarrow> bytes" where
  "put_len len =
     (let v = (of_nat len :: u64); w = width_of v in
      if w = 9 then 0xFF # be_bytes 8 (unat v)
      else (prefix_byte w OR (ucast (drop_bit ((w - 1) * 8) v) AND shr_u8 0xFF w))
           # drop (8 - (w - 1)) (be_bytes 8 (unat (v AND (push_bit ((w - 1) * 8) 1 - 1)))))"

definition take_len :: "bytes \<Rightarrow> (nat \<times> nat) option" where
  "take_len b =
     (case b of [] \<Rightarrow> None
      | b0 # _ \<Rightarrow>
        let w = prefix_width b0 in
        if length b < w then None
        else
          let v = (if w = 9 then of_nat (be_val (take 8 (drop 1 b))) :: u64
                   else push_bit (payload_bits w - (8 - w)) (ucast (b0 AND shr_u8 0xFF w))
                        OR foldl (\<lambda>low byte. push_bit 8 low OR ucast byte) 0
                             (take (w - 1) (drop 1 b)))
          in Some (unat v, w))"

section \<open>Widths and prefix bytes\<close>

lemma width_cases: "1 \<le> w \<Longrightarrow> w \<le> (8 :: nat) \<Longrightarrow>
    w = 1 \<or> w = 2 \<or> w = 3 \<or> w = 4 \<or> w = 5 \<or> w = 6 \<or> w = 7 \<or> w = 8"
  by linarith

lemma width_pow:
  assumes "1 \<le> w" "w \<le> 8"
  shows "(2 :: nat) ^ (8 - w) * 2 = 2 ^ (9 - w)" and "(2 :: nat) ^ (9 - w) \<le> 256"
    and "1 \<le> (2 :: nat) ^ (8 - w)"
  using width_cases [OF assms] by auto

lemma word_eq_of_nat: "unat (x :: 'a :: len word) = n \<Longrightarrow> x = of_nat n"
  by auto

lemma payload_bits_eq: "1 \<le> w \<Longrightarrow> w \<le> 8 \<Longrightarrow> payload_bits w = 7 * w"
  by (simp add: payload_bits_def)

lemma width_loop_spec:
  assumes "1 \<le> w" and "w \<le> 8" and "unat v < 2 ^ 56" and "w = 1 \<or> 2 ^ (7 * (w - 1)) \<le> unat v"
  shows "1 \<le> width_loop w v \<and> width_loop w v \<le> 8 \<and> unat v < 2 ^ (7 * width_loop w v)
    \<and> (width_loop w v = 1 \<or> 2 ^ (7 * (width_loop w v - 1)) \<le> unat v)"
  using assms
proof (induction w v rule: width_loop.induct)
  case (1 w v)
  show ?case
  proof (cases "unat v < 2 ^ payload_bits w")
    case True
    then show ?thesis using 1 by (auto simp: width_loop.simps [of w v] payload_bits_eq)
  next
    case False
    with 1 have "w \<noteq> 8" by (auto simp: payload_bits_eq)
    with False 1 show ?thesis
      by (auto simp: width_loop.simps [of w v] payload_bits_eq not_less)
  qed
qed

lemma width_of_spec:
  obtains (small) "1 \<le> width_of v" "width_of v \<le> 8" "unat v < 2 ^ (7 * width_of v)"
    "width_of v = 1 \<or> 2 ^ (7 * (width_of v - 1)) \<le> unat v"
  | (big) "width_of v = 9" "2 ^ 56 \<le> unat v"
proof (cases "2 ^ 56 \<le> unat v")
  case True
  then show thesis using that(2) by (simp add: width_of_def)
next
  case False
  then show thesis using that(1) width_loop_spec [of 1 v] by (simp add: width_of_def)
qed

lemma prefix_byte_eq: "1 \<le> w \<Longrightarrow> w \<le> 8 \<Longrightarrow> unat (prefix_byte w) = 256 - 2 ^ (9 - w)"
  by (drule (1) width_cases) (elim disjE; simp add: prefix_byte_def)

lemma shr_u8_mask: "1 \<le> w \<Longrightarrow> w \<le> 7 \<Longrightarrow> shr_u8 0xFF w = mask (8 - w)"
  by (drule width_cases, simp) (elim disjE; simp add: shr_u8_def mask_eq_exp_minus_1)

lemma take_bit_small: "unat (x :: 'a :: len word) < 2 ^ n \<Longrightarrow> take_bit n x = x"
  by (metis take_bit_nat_eq_self unsigned_take_bit_eq unsigned_word_eqI)

lemma bit_small_index: "unat (x :: 'a :: len word) < 2 ^ n \<Longrightarrow> bit x k \<Longrightarrow> k < n"
  by (metis bit_take_bit_iff take_bit_small)

lemma bit_prefix_byte: "w \<le> 8 \<Longrightarrow> bit (prefix_byte w) n \<Longrightarrow> 9 - w \<le> n"
proof -
  assume w: "w \<le> 8" and b: "bit (prefix_byte w) n"
  then have "n < 8" and "\<not> bit (0xFFFF :: u16) (w - 1 + (8 + n))"
    by (auto simp: prefix_byte_def bit_ucast_iff bit_drop_bit_eq bit_not_iff not_le)
  moreover have "(0xFFFF :: u16) = mask 16" by (simp add: mask_eq_exp_minus_1)
  ultimately show "9 - w \<le> n" by (auto simp: bit_mask_iff)
qed

lemma unat_or_disjoint:
  fixes x y :: "'a :: len word"
  assumes "\<And>n. \<not> bit x n \<or> \<not> bit y n" and "unat x + unat y < 2 ^ LENGTH('a)"
  shows "unat (x OR y) = unat x + unat y"
proof -
  have "x OR y = x + y" using disjunctive_add [of x y] assms(1) by simp
  then show ?thesis using assms(2) by (simp add: unat_word_ariths)
qed

lemma unat_or_prefix_byte:
  assumes "1 \<le> w" "w \<le> 8" "unat x < 2 ^ (8 - w)"
  shows "unat (prefix_byte w OR x) = 256 - 2 ^ (9 - w) + unat x"
proof -
  have "\<not> bit (prefix_byte w) n \<or> \<not> bit x n" for n
    using bit_prefix_byte [of w n] bit_small_index [OF assms(3), of n] assms(1,2) by linarith
  moreover have "256 - 2 ^ (9 - w) + unat x < 256"
    using width_pow [OF assms(1,2)] assms(3) by linarith
  ultimately show ?thesis
    using unat_or_disjoint [of "prefix_byte w" x] prefix_byte_eq [OF assms(1,2)] by simp
qed

lemma div_less_pow:
  assumes "1 \<le> w" "w \<le> 8" "v < 2 ^ (7 * w)"
  shows "(v :: nat) div 256 ^ (w - 1) < 2 ^ (8 - w)"
proof -
  have "(2 :: nat) ^ (7 * w) = 2 ^ (8 - w) * 256 ^ (w - 1)"
  proof -
    have "(256 :: nat) = 2 ^ 8" by simp
    then have "(2 :: nat) ^ (8 - w) * 256 ^ (w - 1) = 2 ^ (8 - w + 8 * (w - 1))"
      by (metis power_add power_mult)
    moreover have "8 - w + 8 * (w - 1) = 7 * w" using assms(1,2) by simp
    ultimately show ?thesis by simp
  qed
  then show ?thesis using assms(3) by (metis less_mult_imp_div_less)
qed

lemma pow_256: "(256 :: nat) ^ n = 2 ^ (8 * n)"
  by (simp add: power_mult)

lemma unat_high_byte:
  assumes "1 \<le> w" "w \<le> 8" "unat (v :: u64) < 2 ^ (7 * w)"
  shows "unat (ucast (drop_bit ((w - 1) * 8) v) AND shr_u8 0xFF w) = unat v div 256 ^ (w - 1)"
proof -
  let ?x = "ucast (drop_bit ((w - 1) * 8) v) :: byte"
  let ?d = "unat v div 256 ^ (w - 1)"
  have small: "?d < 2 ^ (8 - w)" using assms by (rule div_less_pow)
  have "(2 :: nat) ^ (8 - w) \<le> 2 ^ 7" using assms(1) by (intro power_increasing) auto
  then have "?d < 256" using small by simp
  moreover have "unat (drop_bit ((w - 1) * 8) v) = ?d"
    by (simp only: unat_drop_bit_div pow_256 mult.commute)
  ultimately have x: "unat ?x = ?d"
    by (simp only: unsigned_ucast_eq take_bit_eq_mod) simp
  show ?thesis
  proof (cases "w = 8")
    case True
    then have "?x = 0" using x small by (simp add: unat_eq_zero [symmetric] del: unat_eq_zero)
    then show ?thesis using x by simp
  next
    case False
    then have "?x AND shr_u8 0xFF w = take_bit (8 - w) ?x"
      using assms by (simp add: shr_u8_mask take_bit_eq_mask)
    then show ?thesis using take_bit_small [of ?x "8 - w"] x small by simp
  qed
qed

lemma unat_low_part:
  assumes "k < 64"
  shows "unat (v AND (push_bit k 1 - 1) :: u64) = unat v mod 2 ^ k"
proof -
  have "(push_bit k 1 - 1 :: u64) = mask k" by (simp add: mask_eq_exp_minus_1 push_bit_of_1)
  then have "v AND (push_bit k 1 - 1) = take_bit k v" by (simp add: take_bit_eq_mask)
  then show ?thesis by (simp only: unat_take_bit_mod)
qed

section \<open>The closed form of the encoding\<close>

text \<open>
  Every encoding is the big-endian image of one number: the value on top of its
  width's prefix. The widths and the order both follow from it.
\<close>

definition varint_image :: "nat \<Rightarrow> nat \<Rightarrow> bytes" where
  "varint_image w v = be_bytes w ((256 - 2 ^ (9 - w)) * 256 ^ (w - 1) + v)"

lemma varint_image_9: "varint_image 9 v = 0xFF # be_bytes 8 v" if "v < 256 ^ 8"
proof -
  have "(255 * 256 ^ 8 + v) div 256 ^ 8 = 255" using that by simp
  moreover have "be_bytes 8 (255 * 256 ^ 8 + v) = be_bytes 8 v" by (rule be_bytes_add_high)
  moreover have "varint_image 9 v = be_bytes (Suc 8) (255 * 256 ^ 8 + v)"
    by (simp add: varint_image_def del: be_bytes.simps)
  ultimately show ?thesis by (simp only: be_bytes.simps) simp
qed

lemma varint_image_small:
  assumes "1 \<le> w" "w \<le> 8" "v < 2 ^ (7 * w)"
  shows "varint_image w v
    = of_nat (256 - 2 ^ (9 - w) + v div 256 ^ (w - 1)) # be_bytes (w - 1) (v mod 256 ^ (w - 1))"
proof -
  obtain n where n: "w = Suc n" using assms(1) by (cases w) auto
  then show ?thesis by (simp add: varint_image_def be_bytes_mod)
qed

lemma varint_encode_image: "varint_encode v = varint_image (width_of v) (unat v)"
proof (cases v rule: width_of_spec)
  case small
  let ?w = "width_of v"
  have hi: "unat (ucast (drop_bit ((?w - 1) * 8) v) AND shr_u8 0xFF ?w :: byte)
      = unat v div 256 ^ (?w - 1)" using small(1-3) by (rule unat_high_byte)
  then have "unat (prefix_byte ?w OR (ucast (drop_bit ((?w - 1) * 8) v) AND shr_u8 0xFF ?w))
      = 256 - 2 ^ (9 - ?w) + unat v div 256 ^ (?w - 1)"
    using small div_less_pow [OF small(1-3)] by (simp add: unat_or_prefix_byte)
  then have b0: "prefix_byte ?w OR (ucast (drop_bit ((?w - 1) * 8) v) AND shr_u8 0xFF ?w)
      = of_nat (256 - 2 ^ (9 - ?w) + unat v div 256 ^ (?w - 1))"
    by (metis of_nat_unat ucast_id)
  have low: "unat (v AND (push_bit ((?w - 1) * 8) 1 - 1)) = unat v mod 256 ^ (?w - 1)"
    using small unat_low_part [of "(?w - 1) * 8" v] by (simp add: pow_256 mult.commute)
  have w9: "?w \<noteq> 9" and w8: "8 - (8 - (?w - 1)) = ?w - 1" using small by auto
  show ?thesis
    unfolding varint_encode_def Let_def if_not_P [OF w9] b0 low drop_be_bytes w8
    using varint_image_small [OF small(1-3)] by simp
next
  case big
  then show ?thesis using u64_less [of v] by (simp add: varint_encode_def varint_image_9)
qed

lemma put_len_varint: "put_len n = varint_encode (of_nat n)"
  by (simp add: put_len_def varint_encode_def Let_def)

lemma take_len_varint: "take_len b = map_option (map_prod unat id) (varint_decode b)"
  by (simp add: take_len_def varint_decode_def Let_def split: list.split)

section \<open>Decoding\<close>

fun width_of_first :: "nat \<Rightarrow> nat" where
  "width_of_first n =
     (if n < 128 then 1 else if n < 192 then 2 else if n < 224 then 3 else if n < 240 then 4
      else if n < 248 then 5 else if n < 252 then 6 else if n < 254 then 7 else if n < 255 then 8
      else 9)"

lemma prefix_width_table: "list_all (\<lambda>n. prefix_width (of_nat n) = width_of_first n) [0..<256]"
  by code_simp

lemma prefix_width_eq: "prefix_width b = width_of_first (unat b)"
proof -
  have "unat b \<in> set [0..<256]" by simp
  then have "prefix_width (of_nat (unat b)) = width_of_first (unat b)"
    using prefix_width_table by (simp only: list_all_iff)
  then show ?thesis by simp
qed

lemma width_of_first_prefix:
  assumes "1 \<le> w" "w \<le> 8" "x < 2 ^ (8 - w)"
  shows "width_of_first (256 - 2 ^ (9 - w) + x) = w"
  using width_cases [OF assms(1,2)] assms(3) by (elim disjE) auto

lemma bit_ucast_byte: "bit (ucast (b :: byte) :: u64) n \<Longrightarrow> n < 8"
  by (auto simp: bit_ucast_iff dest: bit_imp_le_length)

lemma push_or_byte: "push_bit 8 x OR (ucast (b :: byte) :: u64) = x * 256 + ucast b"
proof -
  have "\<not> bit (push_bit 8 x) n \<or> \<not> bit (ucast b :: u64) n" for n
    using bit_ucast_byte [of b n] by (auto simp: bit_push_bit_iff)
  then have "push_bit 8 x + ucast b = push_bit 8 x OR (ucast b :: u64)"
    by (rule disjunctive_add)
  then show ?thesis by (simp add: push_bit_eq_mult)
qed

lemma ucast_byte_of_nat: "(ucast (b :: byte) :: u64) = of_nat (unat b)"
proof -
  have "unat b < 2 ^ 64" by (rule less_trans [OF unat_byte_less]) simp
  then show ?thesis
    by (simp add: word_unat_eq_iff unat_of_nat unsigned_ucast_eq take_bit_nat_eq_self)
qed

lemma foldl_be_val:
  "foldl (\<lambda>low byte. push_bit 8 low OR ucast byte) (of_nat a :: u64) bs
    = of_nat (a * 256 ^ length bs + be_val bs)"
proof (induction bs arbitrary: a)
  case (Cons b bs)
  have "push_bit 8 (of_nat a) OR ucast b = (of_nat (a * 256 + unat b) :: u64)"
    by (simp only: push_or_byte ucast_byte_of_nat [symmetric] of_nat_add of_nat_mult of_nat_numeral)
  then have "foldl (\<lambda>low byte. push_bit 8 low OR ucast byte) (of_nat a :: u64) (b # bs)
      = of_nat ((a * 256 + unat b) * 256 ^ length bs + be_val bs)"
    using Cons [of "a * 256 + unat b"] by (simp only: foldl_Cons)
  moreover have "(a * 256 + unat b) * 256 ^ length bs + be_val bs
      = a * 256 ^ length (b # bs) + be_val (b # bs)" by (simp add: algebra_simps)
  ultimately show ?case by (simp only:)
qed simp

lemma foldl_be_val_0:
  "foldl (\<lambda>low byte. push_bit 8 low OR ucast byte) (0 :: u64) bs = of_nat (be_val bs)"
  using foldl_be_val [of 0 bs] by simp

lemma u64_join:
  assumes "n \<le> 7" "h < 256" "l < 256 ^ n"
  shows "unat (push_bit (8 * n) (of_nat h) OR of_nat l :: u64) = h * 256 ^ n + l"
proof -
  have "h * 256 ^ n + l < (h + 1) * 256 ^ n" using assms(3) by simp
  also have "\<dots> \<le> 256 * 256 ^ n" using assms(2) by (intro mult_right_mono) auto
  also have "\<dots> \<le> (256 :: nat) ^ 8" using assms(1) power_increasing [of "Suc n" 8 "256 :: nat"] by simp
  finally have bound: "h * 256 ^ n + l < 2 ^ 64" by simp
  then have hb: "h * 2 ^ (8 * n) < 2 ^ 64" and lb: "l < 2 ^ 64" by (simp_all add: pow_256)
  have u: "unat (push_bit (8 * n) (of_nat h) :: u64) = h * 256 ^ n"
  proof -
    have "push_bit (8 * n) (of_nat h) = (of_nat (h * 2 ^ (8 * n)) :: u64)"
      by (simp add: push_bit_eq_mult)
    then show ?thesis using hb by (simp only: unat_of_nat pow_256) simp
  qed
  have ul: "unat (of_nat l :: u64) = l" using lb by (simp add: unat_of_nat)
  have "\<not> bit (push_bit (8 * n) (of_nat h) :: u64) k \<or> \<not> bit (of_nat l :: u64) k" for k
    using bit_small_index [of "of_nat l :: u64" "8 * n" k] ul assms(3)
    by (auto simp: bit_push_bit_iff pow_256)
  then show ?thesis using unat_or_disjoint [of "push_bit (8 * n) (of_nat h) :: u64" "of_nat l"]
      bound u ul by simp
qed

lemma unat_u64_of_nat: "n < 2 ^ 64 \<Longrightarrow> unat (of_nat n :: u64) = n"
  by (simp add: unat_of_nat)

lemma varint_decode_Cons:
  assumes "prefix_width b0 = w" "1 \<le> w" "w \<le> 8" "length bs = w - 1"
  shows "varint_decode (b0 # bs @ rest)
    = Some (push_bit (8 * (w - 1)) (ucast (b0 AND shr_u8 0xFF w)) OR of_nat (be_val bs), w)"
proof -
  have "payload_bits w - (8 - w) = 8 * (w - 1)" by (simp add: payload_bits_def)
  then show ?thesis using assms by (auto simp: varint_decode_def Let_def foldl_be_val_0)
qed

text \<open>Decoding an image, width by width. Width 8 keeps the whole prefix byte as payload.\<close>

lemma varint_decode_small:
  assumes "1 \<le> w" "w \<le> 7" "v < 2 ^ (7 * w)"
  shows "varint_decode (varint_image w v @ rest) = Some (of_nat v, w)"
proof -
  have w8: "w \<le> 8" using assms(2) by simp
  let ?h = "v div 256 ^ (w - 1)" and ?l = "v mod 256 ^ (w - 1)"
  let ?b = "of_nat (256 - 2 ^ (9 - w) + ?h) :: byte"
  have h: "?h < 2 ^ (8 - w)" using assms(1) w8 assms(3) by (rule div_less_pow)
  note pw = width_pow [OF assms(1) w8]
  have "256 - 2 ^ (9 - w) + ?h < 256" using h pw by linarith
  then have ub: "unat ?b = 256 - 2 ^ (9 - w) + ?h" by (rule unat_byte_small)
  have wb: "prefix_width ?b = w"
    using width_of_first_prefix [OF assms(1) w8 h] by (simp only: prefix_width_eq ub)
  have "?b AND shr_u8 0xFF w = take_bit (8 - w) ?b"
    using assms by (simp add: shr_u8_mask take_bit_eq_mask)
  moreover have "(256 - 2 ^ (9 - w) + ?h) mod 2 ^ (8 - w) = ?h"
  proof -
    have "(256 :: nat) = 2 ^ (8 - w) * 2 ^ w" using w8 by (simp flip: power_add)
    then have "(256 :: nat) - 2 ^ (9 - w) = 2 ^ (8 - w) * (2 ^ w - 2)"
      using pw(1) diff_mult_distrib2 [of "2 ^ (8 - w)" "2 ^ w" "2 :: nat"] by linarith
    then show ?thesis using h by simp
  qed
  ultimately have hi: "unat (?b AND shr_u8 0xFF w) = ?h"
    using ub by (simp only: unat_take_bit_mod)
  have lt: "?l < 256 ^ (w - 1)" by simp
  have "w - 1 \<le> 7" and "?h < 256" using assms(2) h pw by linarith+
  from u64_join [OF this lt]
  have join: "unat (push_bit (8 * (w - 1)) (ucast (?b AND shr_u8 0xFF w)) OR of_nat ?l :: u64) = v"
    by (simp only: ucast_byte_of_nat hi div_mult_mod_eq)
  have img: "varint_image w v = ?b # be_bytes (w - 1) ?l"
    using assms(1) w8 assms(3) by (rule varint_image_small)
  have "length (be_bytes (w - 1) ?l) = w - 1" and "be_val (be_bytes (w - 1) ?l) = ?l"
    using lt by simp_all
  then have "varint_decode (varint_image w v @ rest)
      = Some (push_bit (8 * (w - 1)) (ucast (?b AND shr_u8 0xFF w)) OR of_nat ?l, w)"
    using varint_decode_Cons [OF wb assms(1) w8, of "be_bytes (w - 1) ?l" rest]
    by (simp only: img append_Cons)
  moreover have "push_bit (8 * (w - 1)) (ucast (?b AND shr_u8 0xFF w)) OR of_nat ?l
      = (of_nat v :: u64)"
    using join by (rule word_eq_of_nat)
  ultimately show ?thesis by simp
qed

lemma varint_image_8: "v < 2 ^ 56 \<Longrightarrow> varint_image 8 v = 0xFE # be_bytes 7 v"
proof -
  assume v: "v < 2 ^ 56"
  then have "v div 256 ^ 7 = 0" and "v mod 256 ^ 7 = v" by simp_all
  then show ?thesis using varint_image_small [of 8 v] v by simp
qed

lemma varint_decode_8:
  assumes "v < 2 ^ 56"
  shows "varint_decode (varint_image 8 v @ rest) = Some (of_nat (0xFE * 2 ^ 56 + v), 8)"
proof -
  have pw: "prefix_width 0xFE = 8" by (simp add: prefix_width_eq)
  have and_fe: "(0xFE :: byte) AND shr_u8 0xFF 8 = 0xFE" by (simp add: shr_u8_def)
  have "unat (push_bit (8 * 7) (of_nat 0xFE) OR of_nat v :: u64) = 0xFE * 256 ^ 7 + v"
    using assms by (intro u64_join) auto
  then have "push_bit 56 (of_nat 0xFE) OR of_nat v = (of_nat (0xFE * 2 ^ 56 + v) :: u64)"
    by (intro word_eq_of_nat) simp
  then show ?thesis
    using assms varint_decode_Cons [OF pw, of "be_bytes 7 v" rest] and_fe
    by (simp add: varint_image_8)
qed

lemma varint_decode_9:
  assumes "v < 2 ^ 64"
  shows "varint_decode (varint_image 9 v @ rest) = Some (of_nat v, 9)"
proof -
  have pw: "prefix_width 0xFF = 9" by (simp add: prefix_width_eq)
  have "v < 256 ^ 8" using assms by simp
  then show ?thesis by (simp add: varint_decode_def varint_image_9 pw Let_def)
qed

section \<open>Order\<close>

lemma varint_first_byte:
  assumes "1 \<le> w" "w \<le> 8" "v < 2 ^ (7 * w)"
  obtains b bs where "varint_image w v = b # bs"
    and "256 - 2 ^ (9 - w) \<le> unat b" and "unat b < 256 - 2 ^ (8 - w)"
proof -
  let ?h = "v div 256 ^ (w - 1)"
  have h: "?h < 2 ^ (8 - w)" using assms by (rule div_less_pow)
  have n: "256 - 2 ^ (9 - w) + ?h < 256 - 2 ^ (8 - w)"
    using h width_pow [OF assms(1,2)] by linarith
  then have "unat (of_nat (256 - 2 ^ (9 - w) + ?h) :: byte) = 256 - 2 ^ (9 - w) + ?h"
    by (intro unat_byte_small) linarith
  then show thesis using that [OF varint_image_small [OF assms]] n by simp
qed

lemma varint_image_width_less:
  assumes "1 \<le> w" "w < w'" "w' \<le> 9" "v < 2 ^ (7 * w)" "w' \<le> 8 \<Longrightarrow> v' < 2 ^ (7 * w')"
    "v' < 2 ^ 64"
  shows "varint_image w v < varint_image w' v'"
proof -
  have w8: "w \<le> 8" using assms by simp
  obtain b bs where b: "varint_image w v = b # bs" "unat b < 256 - 2 ^ (8 - w)"
    using assms(1) w8 assms(4) by (rule varint_first_byte)
  obtain b' bs' where b': "varint_image w' v' = b' # bs'" "256 - 2 ^ (8 - w) \<le> unat b'"
  proof (cases "w' = 9")
    case True
    have "v' < 256 ^ 8" using assms(6) by simp
    moreover have "256 - 2 ^ (8 - w) \<le> unat (0xFF :: byte)"
    proof -
      have "unat (0xFF :: byte) = 255" by simp
      then show ?thesis using width_pow(3) [OF assms(1) w8] by linarith
    qed
    ultimately show ?thesis using that True by (simp only: varint_image_9)
  next
    case False
    then have w': "1 \<le> w'" "w' \<le> 8" using assms by simp_all
    obtain c cs where c: "varint_image w' v' = c # cs" "256 - 2 ^ (9 - w') \<le> unat c"
      using w' assms(5) [OF w'(2)] by (rule varint_first_byte)
    have "(2 :: nat) ^ (9 - w') \<le> 2 ^ (8 - w)" using assms(2) by (intro power_increasing) auto
    then have "256 - 2 ^ (8 - w) \<le> unat c" using c(2) by linarith
    then show ?thesis using that c(1) by blast
  qed
  have "b < b'" using b b' by (simp add: word_less_nat_alt)
  then show ?thesis using b b' by simp
qed

lemma varint_image_same_width:
  assumes "1 \<le> w" "w \<le> 9" "w \<le> 8 \<Longrightarrow> v < 2 ^ (7 * w)" "w \<le> 8 \<Longrightarrow> v' < 2 ^ (7 * w)"
    "v < 2 ^ 64" "v' < 2 ^ 64"
  shows "varint_image w v < varint_image w v' \<longleftrightarrow> v < v'"
proof (cases "w = 9")
  case True
  then show ?thesis
    using assms be_bytes_less_iff [of v 8 v'] by (simp add: varint_image_9)
next
  case False
  then have w8: "w \<le> 8" using assms(2) by simp
  have img: "(256 - 2 ^ (9 - w)) * 256 ^ (w - 1) + x < 256 ^ w" if "x < 2 ^ (7 * w)" for x :: nat
  proof -
    have "x < 2 ^ (8 - w) * 256 ^ (w - 1)"
    proof -
      have "x div 256 ^ (w - 1) < 2 ^ (8 - w)" using assms(1) w8 that by (rule div_less_pow)
      then show ?thesis by (metis div_less_iff_less_mult zero_less_numeral zero_less_power)
    qed
    moreover have "(2 :: nat) ^ (8 - w) \<le> 2 ^ (9 - w)" by (rule power_increasing) auto
    ultimately have "(256 - 2 ^ (9 - w)) * 256 ^ (w - 1) + x
        < (256 - 2 ^ (9 - w)) * 256 ^ (w - 1) + 2 ^ (9 - w) * 256 ^ (w - 1)"
      by (meson add_strict_left_mono less_le_trans mult_le_mono1)
    also have "\<dots> = 256 * 256 ^ (w - 1)"
      using width_pow(2) [OF assms(1) w8] by (simp add: add_mult_distrib [symmetric])
    also have "\<dots> = 256 ^ w" using assms(1) by (simp add: power_eq_if)
    finally show ?thesis .
  qed
  show ?thesis
    unfolding varint_image_def
    by (subst be_bytes_less_iff) (use img assms w8 in simp_all)
qed

section \<open>Properties of the codec\<close>

lemma length_varint_encode: "length (varint_encode v) = width_of v"
  by (simp add: varint_encode_image varint_image_def)

lemma width_of_8_iff: "width_of v = 8 \<longleftrightarrow> 2 ^ 49 \<le> unat v \<and> unat v < 2 ^ 56"
proof (cases v rule: width_of_spec)
  case small
  show ?thesis
  proof
    assume "width_of v = 8"
    then show "2 ^ 49 \<le> unat v \<and> unat v < 2 ^ 56" using small by simp
  next
    assume v: "2 ^ 49 \<le> unat v \<and> unat v < 2 ^ 56"
    show "width_of v = 8"
    proof (rule ccontr)
      assume "width_of v \<noteq> 8"
      then have "(2 :: nat) ^ (7 * width_of v) \<le> 2 ^ 49"
        using small(2) by (intro power_increasing) auto
      then show False using small(3) v by simp
    qed
  qed
qed simp

lemma varint_decode_encode:
  assumes "unat v < 2 ^ 49 \<or> 2 ^ 56 \<le> unat v"
  shows "varint_decode (varint_encode v @ rest) = Some (v, width_of v)"
proof (cases v rule: width_of_spec)
  case small
  have "width_of v \<noteq> 8" using assms width_of_8_iff [of v] by auto
  then have "width_of v \<le> 7" using small by simp
  then show ?thesis using varint_decode_small [of "width_of v" "unat v" rest] small
    by (simp add: varint_encode_image)
next
  case big
  then show ?thesis using varint_decode_9 [OF u64_less, of v rest]
    by (simp add: varint_encode_image)
qed

lemma take_len_put:
  assumes "n < 2 ^ 49 \<or> 2 ^ 56 \<le> n" and "n < 2 ^ 64"
  shows "take_len (put_len n @ rest) = Some (n, length (put_len n))"
proof -
  have u: "unat (of_nat n :: u64) = n" using assms(2) by (rule unat_u64_of_nat)
  then have "varint_decode (varint_encode (of_nat n) @ rest)
      = Some (of_nat n, width_of (of_nat n))"
    using assms(1) by (intro varint_decode_encode) simp
  then show ?thesis
    by (simp only: take_len_varint put_len_varint length_varint_encode) (simp add: u)
qed

lemma take_len_width: "take_len b = Some (n, w) \<Longrightarrow> 1 \<le> w \<and> w \<le> length b"
  by (auto simp: take_len_def prefix_width_def Let_def split: list.splits if_splits)

lemma put_len_not_Nil [simp]: "put_len n \<noteq> []"
  by (simp add: put_len_def Let_def)

text \<open>
  C40: a frame length written by \<open>put_len\<close> is read back by \<open>take_len\<close> with exactly the
  bytes it took, whatever follows it, for every length below \<open>2^49\<close> and from \<open>2^56\<close> on.
\<close>

theorem take_len_put_len:
  assumes "n < 2 ^ 49 \<or> 2 ^ 56 \<le> n" and "n < 2 ^ 64"
  shows "take_len (put_len n @ rest) = Some (n, length (put_len n))"
  by (rule take_len_put) (fact assms)+

theorem take_len_put_len_witness:
  "(300 :: nat) < 2 ^ 49 \<and> take_len (put_len 300 @ [7]) = Some (300, length (put_len 300))"
  using take_len_put_len [of 300 "[7]"] by simp

lemma varint_encode_mono:
  assumes "a < b"
  shows "varint_encode a < varint_encode b"
proof -
  have ab: "unat a < unat b" using assms by (simp add: word_less_nat_alt)
  have fit: "unat v < 2 ^ (7 * width_of v)" if "width_of v \<le> 8" for v
    using that by (cases v rule: width_of_spec) auto
  have w: "1 \<le> width_of v" "width_of v \<le> 9" for v
    by (cases v rule: width_of_spec; simp)+
  have mono: "width_of a \<le> width_of b"
  proof (rule ccontr)
    assume "\<not> width_of a \<le> width_of b"
    then have lt: "width_of b \<le> width_of a - 1" and b8: "width_of b \<le> 8"
      using w(2) [of a] by auto
    have "2 ^ (7 * (width_of a - 1)) \<le> unat a"
      using lt w(1) [of b] by (cases a rule: width_of_spec) auto
    moreover have "(2 :: nat) ^ (7 * width_of b) \<le> 2 ^ (7 * (width_of a - 1))"
      using lt by (intro power_increasing) auto
    ultimately show False using fit [OF b8] ab by linarith
  qed
  show ?thesis
  proof (cases "width_of a = width_of b")
    case True
    then have "varint_image (width_of b) (unat a) < varint_image (width_of b) (unat b)"
      using varint_image_same_width [of "width_of b" "unat a" "unat b"]
        w [of b] fit [of a] fit [of b] u64_less [of a] u64_less [of b] ab by simp
    then show ?thesis using True by (simp add: varint_encode_image)
  next
    case False
    then have lt: "width_of a < width_of b" and a8: "width_of a \<le> 8"
      using mono w(2) [of b] by auto
    have "varint_image (width_of a) (unat a) < varint_image (width_of b) (unat b)"
      using w(1) lt w(2) fit [OF a8] fit u64_less by (rule varint_image_width_less)
    then show ?thesis by (simp add: varint_encode_image)
  qed
qed

lemma VarInt_decode_encode:
  assumes "LENGTH('a :: len) \<le> 49"
  shows "VarInt_decode (VarInt_encode (x :: 'a word) @ rest) = Some (x, length (VarInt_encode x))"
proof -
  have "unat x < 2 ^ LENGTH('a)" by (rule unsigned_less)
  also have "(2 :: nat) ^ LENGTH('a) \<le> 2 ^ 49" using assms by (intro power_increasing) auto
  finally have x: "unat x < 2 ^ 49" .
  have "unat (ucast x :: u64) = take_bit 64 (unat x)" by (simp add: unsigned_ucast_eq)
  also have "\<dots> = unat x" using x by (intro take_bit_nat_eq_self) simp
  finally have u: "unat (ucast x :: u64) = unat x" .
  then have "(ucast (ucast x :: u64) :: 'a word) = x"
    by (metis of_nat_unat ucast_id)
  then show ?thesis
    using varint_decode_encode [of "ucast x :: u64" rest] u x
    by (simp add: VarInt_decode_def VarInt_encode_def length_varint_encode)
qed

text \<open>
  byte order is value order. Of two \<open>VarInt\<close> encodings of \<open>u64\<close> values the
  lexicographically smaller one belongs to the smaller value, across all width boundaries,
  so a \<open>VarInt\<close> may lead an index segment.
\<close>

theorem varint_order: "varint_encode a < varint_encode b \<longleftrightarrow> a < b"
  using varint_encode_mono [of a b] varint_encode_mono [of b a] by (metis less_asym linorder_neqE)

text \<open>
  the eight-byte width is not read back. A length from \<open>2^49\<close> to \<open>2^56 - 1\<close> is written
  in eight bytes, and the reader's mask \<open>0xFF >> 8\<close> keeps the prefix byte \<open>0xFE\<close> as
  payload, so the answer is too large by \<open>0xFE * 2^56\<close>.
\<close>

theorem take_len_put_len_width8:
  assumes "2 ^ 49 \<le> n" and "n < 2 ^ 56"
  shows "take_len (put_len n @ rest) = Some (0xFE * 2 ^ 56 + n, 8)"
proof -
  have u: "unat (of_nat n :: u64) = n" using assms by (intro unat_u64_of_nat) simp
  then have w: "width_of (of_nat n) = 8" using assms by (simp add: width_of_8_iff)
  have "varint_decode (varint_encode (of_nat n) @ rest) = Some (of_nat (0xFE * 2 ^ 56 + n), 8)"
    using varint_decode_8 [OF assms(2), of rest] by (simp only: varint_encode_image w u)
  moreover have "unat (of_nat (0xFE * 2 ^ 56 + n) :: u64) = 0xFE * 2 ^ 56 + n"
    using assms by (intro unat_u64_of_nat) simp
  ultimately show ?thesis
    by (simp only: take_len_varint put_len_varint) simp
qed

theorem take_len_put_len_width8_witness:
  "take_len (put_len (2 ^ 50) @ []) = Some (0xFE * 2 ^ 56 + 2 ^ 50, 8)"
  by (rule take_len_put_len_width8) simp_all

text \<open>
  the \<open>VarInt\<close> field wrapper round-trips at its narrower widths: every \<open>u16\<close> and every
  \<open>u32\<close> is decoded to itself, with the number of bytes the encoding took.
\<close>

theorem VarInt_roundtrip:
  "VarInt_decode (VarInt_encode (x :: u16) @ rest) = Some (x, length (VarInt_encode x))
   \<and> VarInt_decode (VarInt_encode (y :: u32) @ rest) = Some (y, length (VarInt_encode y))"
  by (simp add: VarInt_decode_encode)

end
