(* ===== verification/Okm_Storage.thy ===== *)
theory Okm_Storage
  imports Okm_Prelude "HOL-Library.AList"
begin

text \<open>
  The engine contract: \<open>okm-core/src/error.rs\<close> and \<open>okm-core/src/engine/storage.rs\<close>.

  \<open>VirtualStorage\<close> is a record of its methods over an engine state \<open>'s\<close>; the engines
  themselves (fjall, redb, slatedb) are libraries, so every definition takes the record as
  a parameter. A mutating call answers a result and the state it leaves; a read is a
  function of the state. \<open>kv_point\<close> is the contract of the point operations and
  \<open>kv_scan\<close> adds the ordered scan; the batch view is shown to keep the former.
\<close>

named_theorems io_simps \<open>running an effectful step\<close>

section \<open>Errors and effects\<close>

datatype error =
    KindMismatch string string string
  | ValueOutOfRange string string string
  | VocabularyExhausted nat nat
  | VocabularyRequired string
  | LayoutMismatch "byte option" byte
  | EdgeAlreadyLive u64
  | EdgeNotFound u64
  | EdgeNotMember string u16 u16
  | Corrupt string
  | ScanThroughBatch
  | Engine string
  | Changelog string

type_synonym 'a result = "error + 'a"
type_synonym ('s, 'a) io = "'s \<Rightarrow> 'a result \<times> 's"

definition ioret :: "'a \<Rightarrow> ('s, 'a) io" where
  "ioret x s = (Inr x, s)"

definition iothrow :: "error \<Rightarrow> ('s, 'a) io" where
  "iothrow e s = (Inl e, s)"

definition iobind :: "('s, 'a) io \<Rightarrow> ('a \<Rightarrow> ('s, 'b) io) \<Rightarrow> ('s, 'b) io" where
  "iobind m f s = (case m s of (Inl e, s') \<Rightarrow> (Inl e, s') | (Inr x, s') \<Rightarrow> f x s')"

definition ioread :: "('s \<Rightarrow> 'a result) \<Rightarrow> ('s, 'a) io" where
  "ioread r s = (r s, s)"

lemma iobind_Ok [io_simps]: "m s = (Inr x, s') \<Longrightarrow> iobind m f s = f x s'"
  by (simp add: iobind_def)

lemma iobind_Err [io_simps]: "m s = (Inl e, s') \<Longrightarrow> iobind m f s = (Inl e, s')"
  by (simp add: iobind_def)

lemma iobind_eq_Inr:
  "iobind m f s = (Inr y, s2) \<longleftrightarrow> (\<exists>x s1. m s = (Inr x, s1) \<and> f x s1 = (Inr y, s2))"
  by (auto simp: iobind_def split: prod.splits sum.splits)

lemma ioret_run [simp]: "ioret x s = (Inr x, s)"
  by (simp add: ioret_def)

lemma iothrow_run [simp]: "iothrow e s = (Inl e, s)"
  by (simp add: iothrow_def)

lemma ioread_run [simp]: "ioread r s = (r s, s)"
  by (simp add: ioread_def)

section \<open>Batches and the storage trait\<close>

type_synonym batch = "(bytes \<times> bytes option) list"

definition batch_put :: "batch \<Rightarrow> bytes \<Rightarrow> bytes \<Rightarrow> batch" where
  "batch_put ops key val = ops @ [(key, Some val)]"

definition batch_del :: "batch \<Rightarrow> bytes \<Rightarrow> batch" where
  "batch_del ops key = ops @ [(key, None)]"

record 's storage =
  sput :: "bytes \<Rightarrow> bytes \<Rightarrow> ('s, unit) io"
  sget :: "'s \<Rightarrow> bytes \<Rightarrow> bytes option result"
  sdel :: "bytes \<Rightarrow> ('s, unit) io"
  sscan_suffix :: "'s \<Rightarrow> bytes \<Rightarrow> bytes list result"
  sscan_range :: "'s \<Rightarrow> bytes \<Rightarrow> bytes option \<Rightarrow> bytes list result"
  sscan_range_iter :: "'s \<Rightarrow> bytes \<Rightarrow> bytes option \<Rightarrow> (bytes \<times> bytes) result list"
  scommit_batch :: "batch \<Rightarrow> ('s, unit) io"

text \<open>
  \<open>prefix_end\<close>: the loop runs over the bytes from the last one, so it is a recursion on
  the reversed list; \<open>None\<close> when every byte was \<open>0xFF\<close>.
\<close>

fun prefix_end_rev :: "bytes \<Rightarrow> bytes option" where
  "prefix_end_rev [] = None"
| "prefix_end_rev (b # bs) =
     (if b < 0xFF then Some ((b + 1) # bs) else map_option (\<lambda>r. 0 # r) (prefix_end_rev bs))"

definition prefix_end :: "bytes \<Rightarrow> bytes option" where
  "prefix_end p = map_option rev (prefix_end_rev (rev p))"

text \<open>The provided methods of the trait, from the required ones.\<close>

definition default_scan_suffix ::
    "('s \<Rightarrow> bytes \<Rightarrow> bytes option \<Rightarrow> bytes list result) \<Rightarrow> 's \<Rightarrow> bytes \<Rightarrow> bytes list result" where
  "default_scan_suffix scan s p =
     rbind (scan s p (prefix_end p)) (\<lambda>keys. Inr (map (drop (length p)) keys))"

fun read_pairs :: "('s \<Rightarrow> bytes \<Rightarrow> bytes option result) \<Rightarrow> 's \<Rightarrow> bytes list
    \<Rightarrow> (bytes \<times> bytes) result list" where
  "read_pairs get s [] = []"
| "read_pairs get s (k # ks) =
     (case get s k of
        Inr (Some v) \<Rightarrow> Inr (k, v) # read_pairs get s ks
      | Inr None \<Rightarrow> read_pairs get s ks
      | Inl e \<Rightarrow> [Inl e])"

definition default_scan_range_iter ::
    "('s \<Rightarrow> bytes \<Rightarrow> bytes option \<Rightarrow> bytes list result) \<Rightarrow> ('s \<Rightarrow> bytes \<Rightarrow> bytes option result)
      \<Rightarrow> 's \<Rightarrow> bytes \<Rightarrow> bytes option \<Rightarrow> (bytes \<times> bytes) result list" where
  "default_scan_range_iter scan get s b e =
     (case scan s b e of Inr keys \<Rightarrow> read_pairs get s keys | Inl err \<Rightarrow> [Inl err])"

fun default_commit_batch ::
    "(bytes \<Rightarrow> bytes \<Rightarrow> ('s, unit) io) \<Rightarrow> (bytes \<Rightarrow> ('s, unit) io) \<Rightarrow> batch \<Rightarrow> ('s, unit) io" where
  "default_commit_batch put del [] = ioret ()"
| "default_commit_batch put del ((k, v) # ops) =
     iobind (case v of Some v \<Rightarrow> put k v | None \<Rightarrow> del k)
       (\<lambda>_. default_commit_batch put del ops)"

text \<open>An engine that implements the required methods only.\<close>

definition with_defaults ::
    "(bytes \<Rightarrow> bytes \<Rightarrow> ('s, unit) io) \<Rightarrow> ('s \<Rightarrow> bytes \<Rightarrow> bytes option result)
      \<Rightarrow> (bytes \<Rightarrow> ('s, unit) io) \<Rightarrow> ('s \<Rightarrow> bytes \<Rightarrow> bytes option \<Rightarrow> bytes list result)
      \<Rightarrow> 's storage" where
  "with_defaults put get del scan =
     \<lparr> sput = put, sget = get, sdel = del,
       sscan_suffix = default_scan_suffix scan,
       sscan_range = scan,
       sscan_range_iter = default_scan_range_iter scan get,
       scommit_batch = default_commit_batch put del \<rparr>"

text \<open>\<open>scan_suffix_kv\<close>: one pass over the iterator, the first error item ends it.\<close>

fun collect_items :: "nat \<Rightarrow> (bytes \<times> bytes) result list \<Rightarrow> (bytes \<times> bytes) list result" where
  "collect_items n [] = Inr []"
| "collect_items n (item # items) =
     rbind item (\<lambda>(full, v). rbind (collect_items n items) (\<lambda>out. Inr ((drop n full, v) # out)))"

definition scan_suffix_kv :: "'s storage \<Rightarrow> 's \<Rightarrow> bytes \<Rightarrow> (bytes \<times> bytes) list result" where
  "scan_suffix_kv S s p = collect_items (length p) (sscan_range_iter S s p (prefix_end p))"

section \<open>The batch view\<close>

text \<open>
  A \<open>BatchStore\<close> borrows a store and a batch: its state is the pair, it reads the pending
  operations newest first and then the store, and writes only to the batch.
\<close>

definition batch_pending :: "batch \<Rightarrow> bytes \<Rightarrow> bytes option option" where
  "batch_pending ops key = map_option snd (find (\<lambda>(k, _). k = key) (rev ops))"

definition BatchStore_put :: "bytes \<Rightarrow> bytes \<Rightarrow> ('s \<times> batch, unit) io" where
  "BatchStore_put key val = (\<lambda>(s, ops). (Inr (), (s, batch_put ops key val)))"

definition BatchStore_get :: "'s storage \<Rightarrow> 's \<times> batch \<Rightarrow> bytes \<Rightarrow> bytes option result" where
  "BatchStore_get S = (\<lambda>(s, ops) key.
     case batch_pending ops key of Some v \<Rightarrow> Inr v | None \<Rightarrow> sget S s key)"

definition BatchStore_del :: "bytes \<Rightarrow> ('s \<times> batch, unit) io" where
  "BatchStore_del key = (\<lambda>(s, ops). (Inr (), (s, batch_del ops key)))"

definition BatchStore_scan_range ::
    "'s \<times> batch \<Rightarrow> bytes \<Rightarrow> bytes option \<Rightarrow> bytes list result" where
  "BatchStore_scan_range sb b e = Inl ScanThroughBatch"

definition BatchStore :: "'s storage \<Rightarrow> ('s \<times> batch) storage" where
  "BatchStore S =
     with_defaults BatchStore_put (BatchStore_get S) BatchStore_del BatchStore_scan_range"

section \<open>The contract\<close>

text \<open>What a batch means on a key-value map: its operations in order.\<close>

fun apply_op :: "bytes \<times> bytes option \<Rightarrow> (bytes \<rightharpoonup> bytes) \<Rightarrow> (bytes \<rightharpoonup> bytes)" where
  "apply_op (k, v) m = m(k := v)"

definition apply_ops :: "batch \<Rightarrow> (bytes \<rightharpoonup> bytes) \<Rightarrow> (bytes \<rightharpoonup> bytes)" where
  "apply_ops ops m = fold apply_op ops m"

lemma apply_ops_simps [simp]:
  "apply_ops [] m = m"
  "apply_ops ((k, v) # ops) m = apply_ops ops (m(k := v))"
  "apply_ops (xs @ ys) m = apply_ops ys (apply_ops xs m)"
  by (simp_all add: apply_ops_def)

lemma apply_ops_batch [simp]:
  "apply_ops (batch_put ops k v) m = (apply_ops ops m)(k \<mapsto> v)"
  "apply_ops (batch_del ops k) m = (apply_ops ops m)(k := None)"
  by (simp_all add: batch_put_def batch_del_def)

lemma batch_pending_snoc:
  "batch_pending (ops @ [(k, v)]) key = (if k = key then Some v else batch_pending ops key)"
  by (simp add: batch_pending_def)

lemma apply_ops_pending:
  "apply_ops ops m key = (case batch_pending ops key of Some v \<Rightarrow> v | None \<Rightarrow> m key)"
proof (induction ops rule: rev_induct)
  case Nil
  then show ?case by (simp add: batch_pending_def)
next
  case (snoc op ops)
  then show ?case by (cases op) (auto simp: batch_pending_snoc)
qed

lemma apply_ops_finite: "finite (dom m) \<Longrightarrow> finite (dom (apply_ops ops m))"
proof (induction ops arbitrary: m)
  case (Cons op ops)
  then show ?case by (cases op; cases "snd op") auto
qed simp

text \<open>
  The keys of a map in an interval and under a prefix, in byte order. An engine that
  derives \<open>scan_suffix\<close> from \<open>scan_range\<close> answers an interval, so the two agree on
  \<open>prefix_safe\<close> keyspaces only.
\<close>

definition in_range :: "bytes \<Rightarrow> bytes option \<Rightarrow> bytes \<Rightarrow> bool" where
  "in_range b e k \<longleftrightarrow> b \<le> k \<and> (case e of None \<Rightarrow> True | Some end \<Rightarrow> k < end)"

definition keys_in :: "(bytes \<rightharpoonup> bytes) \<Rightarrow> bytes \<Rightarrow> bytes option \<Rightarrow> bytes list" where
  "keys_in m b e = sorted_list_of_set {k \<in> dom m. in_range b e k}"

definition keys_under :: "(bytes \<rightharpoonup> bytes) \<Rightarrow> bytes \<Rightarrow> bytes list" where
  "keys_under m p = sorted_list_of_set {k \<in> dom m. prefix p k}"

definition prefix_safe :: "bytes \<Rightarrow> (bytes \<rightharpoonup> bytes) \<Rightarrow> bool" where
  "prefix_safe p m \<longleftrightarrow> (\<forall>k \<in> dom m. in_range p (prefix_end p) k \<longrightarrow> prefix p k)"

text \<open>
  \<open>kv_point\<close>: a store that answers, seen as a map. A store that refuses an operation is
  the subject of the error properties.
\<close>

locale kv_point =
  fixes S :: "'s storage" and ok :: "'s \<Rightarrow> bool" and \<alpha> :: "'s \<Rightarrow> bytes \<rightharpoonup> bytes"
  assumes get_ok: "ok s \<Longrightarrow> sget S s k = Inr (\<alpha> s k)"
    and put_ok: "ok s \<Longrightarrow> \<exists>s'. sput S k v s = (Inr (), s') \<and> ok s' \<and> \<alpha> s' = (\<alpha> s)(k \<mapsto> v)"
    and del_ok: "ok s \<Longrightarrow> \<exists>s'. sdel S k s = (Inr (), s') \<and> ok s' \<and> \<alpha> s' = (\<alpha> s)(k := None)"
    and commit_ok:
      "ok s \<Longrightarrow> \<exists>s'. scommit_batch S ops s = (Inr (), s') \<and> ok s' \<and> \<alpha> s' = apply_ops ops (\<alpha> s)"

locale kv_scan = kv_point +
  assumes finite_dom: "ok s \<Longrightarrow> finite (dom (\<alpha> s))"
    and scan_range_ok: "ok s \<Longrightarrow> sscan_range S s b e = Inr (keys_in (\<alpha> s) b e)"
    and scan_iter_ok: "ok s \<Longrightarrow>
      sscan_range_iter S s b e = map (\<lambda>k. Inr (k, the (\<alpha> s k))) (keys_in (\<alpha> s) b e)"
    and scan_suffix_ok: "ok s \<Longrightarrow> prefix_safe p (\<alpha> s) \<Longrightarrow>
      sscan_suffix S s p = Inr (map (drop (length p)) (keys_under (\<alpha> s) p))"

section \<open>The prefix interval\<close>

lemma byte_less_FF: "b < (0xFF :: byte) \<longleftrightarrow> b \<noteq> 0xFF"
  using unsigned_less [of b, where ?'a = nat] by (auto simp: word_less_nat_alt word_unat_eq_iff simp del: unat_byte_less)

lemma byte_inc: "b < (0xFF :: byte) \<Longrightarrow> unat (b + 1) = unat b + 1"
  by (simp add: unat_word_ariths word_less_nat_alt)

lemma prefix_end_append:
  "prefix_end (p @ [b]) =
     (if b < 0xFF then Some (p @ [b + 1]) else map_option (\<lambda>e. e @ [0]) (prefix_end p))"
  by (simp add: prefix_end_def option.map_comp comp_def)

lemma prefix_end_Nil [simp]: "prefix_end [] = None"
  by (simp add: prefix_end_def)

lemma prefix_end_val:
  "case prefix_end p of
     Some e \<Rightarrow> length e = length p \<and> be_val e = be_val p + 1
   | None \<Rightarrow> be_val p + 1 = 256 ^ length p"
proof (induction p rule: rev_induct)
  case (snoc b p)
  show ?case
  proof (cases "b < 0xFF")
    case True
    then show ?thesis by (simp add: prefix_end_append be_val_append byte_inc)
  next
    case False
    then show ?thesis using snoc
      by (auto simp: prefix_end_append be_val_append byte_less_FF split: option.splits)
  qed
qed simp

lemma take_drop_less: "length p \<le> length k \<Longrightarrow> k < e \<longleftrightarrow> take (length p) k < e"
  if "length e = length p" for k p e :: bytes
  using same_length_append_less_iff [of "take (length p) k" e "drop (length p) k" "[]"] that by simp

lemma take_drop_le: "length p \<le> length k \<Longrightarrow> p \<le> k \<longleftrightarrow> p \<le> take (length p) k"
  for k p :: bytes
  using same_length_append_less_iff [of "take (length p) k" p "drop (length p) k" "[]"]
  by (simp add: linorder_not_less [symmetric])

lemma in_range_prefix_end:
  assumes len: "length p \<le> length k"
  shows "in_range p (prefix_end p) k \<longleftrightarrow> prefix p k"
proof -
  let ?t = "take (length p) k"
  have lt: "length ?t = length p" using len by simp
  have pre: "prefix p k \<longleftrightarrow> be_val ?t = be_val p"
    using be_bytes_be_val [of ?t] be_bytes_be_val [of p] lt
    by (metis append_eq_conv_conj append_take_drop_id prefix_def)
  have le: "p \<le> k \<longleftrightarrow> be_val p \<le> be_val ?t"
    using take_drop_le [OF len] list_less_same_length_be_val [OF lt] by (metis linorder_not_less)
  show ?thesis
  proof (cases "prefix_end p")
    case None
    then show ?thesis
      using prefix_end_val [of p] be_val_less [of ?t] lt le pre by (auto simp: in_range_def)
  next
    case (Some e)
    then have e: "length e = length p" "be_val e = be_val p + 1" using prefix_end_val [of p] by auto
    then have "k < e \<longleftrightarrow> be_val ?t < be_val e"
      using take_drop_less [OF e(1) len] list_less_same_length_be_val [of ?t e] lt by simp
    then show ?thesis using le pre e Some by (auto simp: in_range_def)
  qed
qed

lemma prefix_in_range: "prefix p k \<Longrightarrow> in_range p (prefix_end p) k"
  using in_range_prefix_end prefix_length_le by blast

lemma prefix_safe_long: "(\<forall>k \<in> dom m. length p \<le> length k) \<Longrightarrow> prefix_safe p m"
  by (auto simp: prefix_safe_def in_range_prefix_end)

text \<open>A prefix whose last byte does not carry is safe for every keyspace.\<close>

lemma between_prefix:
  "p @ [b] \<le> k \<Longrightarrow> k < p @ [b + 1] \<Longrightarrow> b < 0xFF \<Longrightarrow> prefix (p @ [b]) k" for b :: byte
proof (induction p arbitrary: k)
  case Nil
  then obtain c k' where k: "k = c # k'" by (cases k) auto
  have "unat b \<le> unat c" "unat c < unat b + 1"
    using Nil k byte_inc [of b] by (auto simp: word_le_nat_alt word_less_nat_alt)
  then have "c = b" by (simp add: word_unat_eq_iff)
  then show ?case using k by simp
next
  case (Cons a p)
  then show ?case by (cases k) auto
qed

lemma prefix_safe_last: "b < 0xFF \<Longrightarrow> prefix_safe (p @ [b]) m"
  by (auto simp: prefix_safe_def in_range_def prefix_end_append intro: between_prefix)

lemma prefix_safe_keys: "prefix_safe p m \<Longrightarrow> keys_in m p (prefix_end p) = keys_under m p"
  by (auto simp: keys_in_def keys_under_def prefix_safe_def prefix_in_range
      intro!: arg_cong [where f = sorted_list_of_set])

section \<open>The provided methods\<close>

lemma finite_keys [simp]: "finite (dom m) \<Longrightarrow> finite {k \<in> dom m. P k}"
  by simp

lemma set_keys_in [simp]: "finite (dom m) \<Longrightarrow> set (keys_in m b e) = {k \<in> dom m. in_range b e k}"
  by (simp add: keys_in_def)

lemma set_keys_under [simp]: "finite (dom m) \<Longrightarrow> set (keys_under m p) = {k \<in> dom m. prefix p k}"
  by (simp add: keys_under_def)

lemma read_pairs_ok:
  "\<forall>k \<in> set ks. k \<in> dom m \<Longrightarrow> (\<And>k. get s k = Inr (m k)) \<Longrightarrow>
    read_pairs get s ks = map (\<lambda>k. Inr (k, the (m k))) ks"
  by (induction ks) auto

lemma collect_items_ok:
  "collect_items n (map (\<lambda>k. Inr (k, f k)) ks) = Inr (map (\<lambda>k. (drop n k, f k)) ks)"
  by (induction ks) auto

lemma default_commit_ok:
  assumes put: "\<And>s k v. ok s \<Longrightarrow> \<exists>s'. put k v s = (Inr (), s') \<and> ok s' \<and> \<alpha> s' = (\<alpha> s)(k \<mapsto> v)"
    and del: "\<And>s k. ok s \<Longrightarrow> \<exists>s'. del k s = (Inr (), s') \<and> ok s' \<and> \<alpha> s' = (\<alpha> s)(k := None)"
    and s: "ok s"
  shows "\<exists>s'. default_commit_batch put del ops s = (Inr (), s') \<and> ok s' \<and> \<alpha> s' = apply_ops ops (\<alpha> s)"
  using s
proof (induction ops arbitrary: s)
  case (Cons op ops)
  obtain k v where op: "op = (k, v)" by (cases op)
  obtain s1 where s1: "(case v of Some v \<Rightarrow> put k v | None \<Rightarrow> del k) s = (Inr (), s1)" "ok s1"
    "\<alpha> s1 = (\<alpha> s)(k := v)"
    using put [OF Cons.prems] del [OF Cons.prems] by (cases v) (simp_all, blast+)
  then show ?case using Cons.IH [OF s1(2)] op by (simp add: iobind_def fun_upd_def)
qed simp

lemma with_defaults_point:
  assumes "\<And>s k. ok s \<Longrightarrow> get s k = Inr (\<alpha> s k)"
    and "\<And>s k v. ok s \<Longrightarrow> \<exists>s'. put k v s = (Inr (), s') \<and> ok s' \<and> \<alpha> s' = (\<alpha> s)(k \<mapsto> v)"
    and "\<And>s k. ok s \<Longrightarrow> \<exists>s'. del k s = (Inr (), s') \<and> ok s' \<and> \<alpha> s' = (\<alpha> s)(k := None)"
  shows "kv_point (with_defaults put get del scan) ok \<alpha>"
  using assms default_commit_ok [of ok put \<alpha> del]
  by unfold_locales (simp_all add: with_defaults_def)

lemma with_defaults_scan:
  assumes point: "kv_point (with_defaults put get del scan) ok \<alpha>"
    and fin: "\<And>s. ok s \<Longrightarrow> finite (dom (\<alpha> s))"
    and scan: "\<And>s b e. ok s \<Longrightarrow> scan s b e = Inr (keys_in (\<alpha> s) b e)"
  shows "kv_scan (with_defaults put get del scan) ok \<alpha>"
proof -
  have get: "get s k = Inr (\<alpha> s k)" if "ok s" for s k
    using kv_point.get_ok [OF point that] by (simp add: with_defaults_def)
  show ?thesis
    by (rule kv_scan.intro [OF point], unfold_locales)
      (simp_all add: with_defaults_def fin scan default_scan_range_iter_def
        default_scan_suffix_def prefix_safe_keys get read_pairs_ok)
qed

section \<open>Clients of the contract\<close>

context kv_point
begin

lemma batch_get: "ok s \<Longrightarrow> BatchStore_get S (s, ops) k = Inr (apply_ops ops (\<alpha> s) k)"
  by (simp add: BatchStore_get_def apply_ops_pending get_ok split: option.split)

lemma batch_view:
  "kv_point (BatchStore S) (\<lambda>(s, ops). ok s) (\<lambda>(s, ops). apply_ops ops (\<alpha> s))"
  unfolding BatchStore_def
  by (rule with_defaults_point) (auto simp: batch_get BatchStore_put_def BatchStore_del_def)

lemma batch_commit_get:
  assumes "ok s" "scommit_batch S ops s = (r, s')"
  shows "r = Inr ()" "sget S s' k = sget (BatchStore S) (s, ops) k"
proof -
  obtain s1 where s1: "scommit_batch S ops s = (Inr (), s1)" "ok s1" "\<alpha> s1 = apply_ops ops (\<alpha> s)"
    using commit_ok [OF assms(1)] by blast
  then show "r = Inr ()" using assms(2) by simp
  show "sget S s' k = sget (BatchStore S) (s, ops) k"
    using s1 assms by (auto simp: get_ok BatchStore_def with_defaults_def batch_get)
qed

end

context kv_scan
begin

lemma suffix_kv_ok:
  assumes "ok s" "prefix_safe p (\<alpha> s)"
  shows "scan_suffix_kv S s p =
    Inr (map (\<lambda>k. (drop (length p) k, the (\<alpha> s k))) (keys_under (\<alpha> s) p))"
  by (simp add: scan_suffix_kv_def scan_iter_ok assms prefix_safe_keys collect_items_ok)

lemma suffix_kv_suffix:
  assumes "ok s" "prefix_safe p (\<alpha> s)" "scan_suffix_kv S s p = Inr rows"
  shows "sscan_suffix S s p = Inr (map fst rows)"
  using assms by (auto simp: suffix_kv_ok scan_suffix_ok comp_def)

end

section \<open>A sorted in-memory engine\<close>

text \<open>
  The engine the repository's own tests run the executor on (\<open>TestEngine\<close> in
  \<open>nest.rs\<close>): a \<open>BTreeMap\<close> read through the required methods. The map is an
  association list with distinct keys, and iteration sorts it.
\<close>

type_synonym mem = "(bytes \<times> bytes) list"

definition mem_put :: "bytes \<Rightarrow> bytes \<Rightarrow> (mem, unit) io" where
  "mem_put k v m = (Inr (), AList.update k v m)"

definition mem_get :: "mem \<Rightarrow> bytes \<Rightarrow> bytes option result" where
  "mem_get m k = Inr (map_of m k)"

definition mem_del :: "bytes \<Rightarrow> (mem, unit) io" where
  "mem_del k m = (Inr (), AList.delete k m)"

definition mem_scan_range :: "mem \<Rightarrow> bytes \<Rightarrow> bytes option \<Rightarrow> bytes list result" where
  "mem_scan_range m b e = Inr (sort (filter (in_range b e) (map fst m)))"

definition mem_storage :: "mem storage" where
  "mem_storage = with_defaults mem_put mem_get mem_del mem_scan_range"

definition mem_inv :: "mem \<Rightarrow> bool" where
  "mem_inv m \<longleftrightarrow> distinct (map fst m)"

lemma keys_in_map_of:
  assumes "distinct (map fst m)"
  shows "keys_in (map_of m) b e = sort (filter (in_range b e) (map fst m))"
proof -
  have "{k \<in> dom (map_of m). in_range b e k} = set (filter (in_range b e) (map fst m))"
    by (auto simp: dom_map_of_conv_image_fst)
  then show ?thesis using assms
    by (simp only: keys_in_def sorted_list_of_set_sort_remdups distinct_remdups_id distinct_filter)
qed

lemma mem_storage_kv_scan: "kv_scan mem_storage mem_inv map_of"
  unfolding mem_storage_def
proof (rule with_defaults_scan [OF with_defaults_point])
  show "\<exists>s'. mem_put k v s = (Inr (), s') \<and> mem_inv s' \<and> map_of s' = (map_of s)(k \<mapsto> v)"
    if "mem_inv s" for s k v
    using that by (auto simp: mem_put_def mem_inv_def update_conv' distinct_update)
  show "\<exists>s'. mem_del k s = (Inr (), s') \<and> mem_inv s' \<and> map_of s' = (map_of s)(k := None)"
    if "mem_inv s" for s k
    using that by (auto simp: mem_del_def mem_inv_def delete_conv' distinct_delete)
qed (simp_all add: mem_get_def mem_scan_range_def keys_in_map_of mem_inv_def finite_dom_map_of)

interpretation mem: kv_scan mem_storage mem_inv map_of
  by (rule mem_storage_kv_scan)

section \<open>Properties\<close>

text \<open>
  For a key at least as long as the prefix, lying in the interval from the prefix to
  \<open>prefix_end\<close> is the same as carrying the prefix, also when the increment carries over
  \<open>0xFF\<close> bytes and when the prefix has no end.
\<close>

theorem prefix_end_interval:
  assumes "length p \<le> length k"
  shows "in_range p (prefix_end p) k \<longleftrightarrow> prefix p k"
  using assms by (rule in_range_prefix_end)

theorem prefix_end_interval_witness:
  "in_range [1, 0xFF] (prefix_end [1, 0xFF]) [1, 0xFF, 7] \<and>
   \<not> in_range [1, 0xFF] (prefix_end [1, 0xFF]) [2, 0]"
  using prefix_end_interval [of "[1, 0xFF]" "[1, 0xFF, 7]"] prefix_end_interval [of "[1, 0xFF]" "[2, 0]"]
  by simp

text \<open>
  The carry keeps a trailing zero byte instead of dropping it, so the interval of a
  prefix that ends in \<open>0xFF\<close> also holds a shorter key that does not carry the prefix.
\<close>

theorem prefix_end_overrun:
  assumes "b < 0xFF"
  shows "prefix_end (p @ [b, 0xFF]) = Some (p @ [b + 1, 0]) \<and>
    in_range (p @ [b, 0xFF]) (prefix_end (p @ [b, 0xFF])) (p @ [b + 1]) \<and>
    \<not> prefix (p @ [b, 0xFF]) (p @ [b + 1])"
proof -
  have "b < b + 1" using byte_inc [OF assms] by (simp add: word_less_nat_alt)
  moreover have "prefix_end (p @ [b, 0xFF]) = Some (p @ [b + 1, 0])"
    using prefix_end_append [of "p @ [b]" "0xFF"] assms by (simp add: prefix_end_append)
  ultimately show ?thesis by (auto simp: in_range_def order.order_iff_strict)
qed

theorem prefix_end_overrun_witness:
  "in_range ([0x10] @ [0x01, 0xFF]) (prefix_end ([0x10] @ [0x01, 0xFF])) ([0x10] @ [0x01 + 1])"
  using prefix_end_overrun [of "0x01" "[0x10]"] by auto

text \<open>
  C24: A read through a \<open>BatchStore\<close> answers what the store itself answers once the
  batch is committed, and the commit of an answering engine succeeds: later operations
  on a key win over earlier ones and deletions hide stored values.
\<close>

theorem BatchStore_reads_commit:
  assumes "kv_point S ok \<alpha>" "ok s"
  shows "\<exists>s'. scommit_batch S ops s = (Inr (), s') \<and>
    (\<forall>k. sget S s' k = sget (BatchStore S) (s, ops) k)"
proof -
  have "fst (scommit_batch S ops s) = Inr ()"
    using kv_point.batch_commit_get(1) [OF assms] by (metis prod.collapse)
  then show ?thesis using kv_point.batch_commit_get(2) [OF assms] by (metis prod.collapse)
qed

theorem BatchStore_reads_commit_witness:
  "\<exists>s'. scommit_batch mem_storage [([1], Some [2]), ([1], None)] [([1], [9])] = (Inr (), s') \<and>
    (\<forall>k. sget mem_storage s' k =
      sget (BatchStore mem_storage) ([([1], [9])], [([1], Some [2]), ([1], None)]) k)"
  by (rule BatchStore_reads_commit [OF mem.kv_point_axioms]) (simp add: mem_inv_def)

text \<open>
  Writes through a \<open>BatchStore\<close> never touch the store and always succeed; every
  scan through it is refused, in each of the three scan methods.
\<close>

theorem BatchStore_refuses_scans:
  "sput (BatchStore S) k v (s, ops) = (Inr (), (s, ops @ [(k, Some v)])) \<and>
   sdel (BatchStore S) k (s, ops) = (Inr (), (s, ops @ [(k, None)])) \<and>
   sscan_range (BatchStore S) sb b e = Inl ScanThroughBatch \<and>
   sscan_suffix (BatchStore S) sb p = Inl ScanThroughBatch \<and>
   sscan_range_iter (BatchStore S) sb b e = [Inl ScanThroughBatch] \<and>
   scan_suffix_kv (BatchStore S) sb p = Inl ScanThroughBatch"
  by (simp add: BatchStore_def with_defaults_def BatchStore_put_def BatchStore_del_def
      batch_put_def batch_del_def BatchStore_scan_range_def default_scan_suffix_def
      default_scan_range_iter_def scan_suffix_kv_def)

text \<open>
  An engine that implements the required methods correctly gets a correct engine
  from the provided ones: the replayed batch is the batch applied in order, the lazy scan
  is the pairs of the range in order, and the prefix scan the suffixes of the keys under
  the prefix.
\<close>

theorem provided_methods_ok:
  assumes "\<And>s k. ok s \<Longrightarrow> get s k = Inr (\<alpha> s k)"
    and "\<And>s k v. ok s \<Longrightarrow> \<exists>s'. put k v s = (Inr (), s') \<and> ok s' \<and> \<alpha> s' = (\<alpha> s)(k \<mapsto> v)"
    and "\<And>s k. ok s \<Longrightarrow> \<exists>s'. del k s = (Inr (), s') \<and> ok s' \<and> \<alpha> s' = (\<alpha> s)(k := None)"
    and "\<And>s. ok s \<Longrightarrow> finite (dom (\<alpha> s))"
    and "\<And>s b e. ok s \<Longrightarrow> scan s b e = Inr (keys_in (\<alpha> s) b e)"
  shows "kv_scan (with_defaults put get del scan) ok \<alpha>"
  by (rule with_defaults_scan [OF with_defaults_point]) (fact assms)+

theorem provided_methods_ok_witness:
  "kv_scan (with_defaults mem_put mem_get mem_del mem_scan_range) mem_inv map_of"
proof (rule provided_methods_ok)
  show "\<exists>s'. mem_put k v s = (Inr (), s') \<and> mem_inv s' \<and> map_of s' = (map_of s)(k \<mapsto> v)"
    if "mem_inv s" for s k v
    using mem.put_ok [OF that] by (simp add: mem_storage_def with_defaults_def)
  show "\<exists>s'. mem_del k s = (Inr (), s') \<and> mem_inv s' \<and> map_of s' = (map_of s)(k := None)"
    if "mem_inv s" for s k
    using mem.del_ok [OF that] by (simp add: mem_storage_def with_defaults_def)
qed (simp_all add: mem_get_def mem_scan_range_def keys_in_map_of mem_inv_def finite_dom_map_of)

text \<open>
  On a keyspace without keys that fall into the interval of the prefix by carry alone,
  \<open>scan_suffix_kv\<close> answers exactly the stored pairs under the prefix, in key order with
  the prefix removed, and \<open>scan_suffix\<close> answers its keys.
\<close>

theorem scan_suffix_kv_exact:
  assumes "kv_scan S ok \<alpha>" "ok s" "prefix_safe p (\<alpha> s)"
  shows "scan_suffix_kv S s p =
      Inr (map (\<lambda>k. (drop (length p) k, the (\<alpha> s k))) (keys_under (\<alpha> s) p)) \<and>
    sscan_suffix S s p = Inr (map (drop (length p)) (keys_under (\<alpha> s) p))"
  using kv_scan.suffix_kv_ok [OF assms] kv_scan.scan_suffix_ok [OF assms] by simp

theorem scan_suffix_kv_exact_witness:
  "scan_suffix_kv mem_storage [([1, 2], [5]), ([1, 1], [6]), ([2], [7])] [1] =
      Inr (map (\<lambda>k. (drop (length [1 :: byte]) k, the (map_of [([1, 2], [5]), ([1, 1], [6]), ([2], [7])] k)))
        (keys_under (map_of [([1, 2], [5]), ([1, 1], [6]), ([2], [7])]) [1]))"
  using scan_suffix_kv_exact [OF mem_storage_kv_scan, of "[([1, 2], [5]), ([1, 1], [6]), ([2], [7])]" "[1]"]
    prefix_safe_last [of 1 "[]"] by (simp add: mem_inv_def)

end
