(* ===== verification/Okm_Fields.thy ===== *)
theory Okm_Fields
  imports Okm_Prelude
begin

text \<open>
  The field codecs of \<open>okm-core/src/model\<close>: fixed-width big-endian integers, \<open>Reverse\<close>,
  \<open>Offset\<close>, the presence wrapper \<open>Option\<close>, \<open>Vector\<close>, \<open>Uuid4\<close> / \<open>Uuid7\<close>, \<open>Vocab\<close>
  ids and values, \<open>Refs\<close>, and the key side (\<open>key.rs\<close>: named segments of a key and the
  compile-time field checks). A panic of the source is the value \<open>None\<close>.
\<close>

unbundle bit_operations_syntax

section \<open>Fixed-width integers\<close>

definition to_be_bytes :: "'a :: len word \<Rightarrow> bytes" where
  "to_be_bytes v = be_bytes (LENGTH('a) div 8) (unat v)"

definition from_be_bytes :: "bytes \<Rightarrow> 'a :: len word option" where
  "from_be_bytes b = (if length b = LENGTH('a) div 8 then Some (of_nat (be_val b)) else None)"

section \<open>Reverse\<close>

definition rev_encode :: "'a :: len word \<Rightarrow> bytes" where
  "rev_encode v = to_be_bytes (NOT v)"

definition rev_decode :: "bytes \<Rightarrow> 'a :: len word option" where
  "rev_decode b = map_option (\<lambda>v. NOT v) (from_be_bytes b)"

definition sign_mask :: "'a :: len word" where
  "sign_mask = push_bit (LENGTH('a) - 1) 1"

definition rev_encode_signed :: "'a :: len word \<Rightarrow> bytes" where
  "rev_encode_signed v = to_be_bytes (NOT (v XOR sign_mask))"

definition rev_decode_signed :: "bytes \<Rightarrow> 'a :: len word option" where
  "rev_decode_signed b = map_option (\<lambda>v. NOT v XOR sign_mask) (from_be_bytes b)"

section \<open>Offset\<close>

text \<open>An \<open>i64\<close> is a 64-bit word read with \<open>sint\<close>.\<close>

definition checked_sub :: "u64 \<Rightarrow> u64 \<Rightarrow> int option" where
  "checked_sub a b =
     (let d = sint a - sint b in if - (2 ^ 63) \<le> d \<and> d < 2 ^ 63 then Some d else None)"

definition offset_encode :: "u64 \<Rightarrow> u64 \<Rightarrow> bytes option" where
  "offset_encode value base =
     (case checked_sub value base of
        Some d \<Rightarrow> if 0 \<le> d \<and> d \<le> 2 ^ 32 - 1 then Some (to_be_bytes (of_int d :: u32)) else None
      | None \<Rightarrow> None)"

definition offset_decode :: "bytes \<Rightarrow> u64 \<Rightarrow> u64 option" where
  "offset_decode b base = map_option (\<lambda>off :: u32. base + ucast off) (from_be_bytes b)"

section \<open>The presence wrapper\<close>

text \<open>
  \<open>WireWidth\<close> and \<open>OptionalEnc\<close> of a type: its width, its encoder, and its decoder from a
  presence byte and the wire bytes.
\<close>

record 'a optional_enc =
  wire_width :: nat
  enc_wire :: "'a \<Rightarrow> bytes"
  dec_wire :: "byte \<Rightarrow> bytes \<Rightarrow> 'a option"

definition prim_enc :: "'a :: len word optional_enc" where
  "prim_enc = \<lparr> wire_width = LENGTH('a) div 8, enc_wire = to_be_bytes,
                dec_wire = (\<lambda>present wire. from_be_bytes wire) \<rparr>"

definition array_enc :: "nat \<Rightarrow> bytes optional_enc" where
  "array_enc n = \<lparr> wire_width = n, enc_wire = (\<lambda>b. b),
                   dec_wire = (\<lambda>present wire. if length wire = n then Some wire else None) \<rparr>"

definition option_enc :: "'a optional_enc \<Rightarrow> 'a option optional_enc" where
  "option_enc T =
     \<lparr> wire_width = 1 + wire_width T,
       enc_wire = (\<lambda>v. case v of Some x \<Rightarrow> 1 # enc_wire T x
                             | None \<Rightarrow> 0 # replicate (wire_width T) 0),
       dec_wire = (\<lambda>present wire. if present = 0 then Some None
                                   else map_option Some (dec_wire T 1 wire)) \<rparr>"

section \<open>Vector\<close>

definition encode_le :: "'a :: len word \<Rightarrow> bytes" where
  "encode_le v = rev (to_be_bytes v)"

definition decode_le :: "bytes \<Rightarrow> 'a :: len word option" where
  "decode_le b = from_be_bytes (rev b)"

definition vector_encode_payload :: "'a :: len word list \<Rightarrow> bytes" where
  "vector_encode_payload elems =
     to_be_bytes (of_nat (length elems) :: u32) @ concat (map encode_le elems)"

fun vector_decode_elems :: "nat \<Rightarrow> bytes \<Rightarrow> 'a :: len word list option" where
  "vector_decode_elems 0 b = Some []"
| "vector_decode_elems (Suc n) b =
     (let w = LENGTH('a) div 8 in
      if length b < w then None
      else case decode_le (take w b) of
             None \<Rightarrow> None
           | Some e \<Rightarrow> map_option (\<lambda>es. e # es) (vector_decode_elems n (drop w b)))"

definition vector_decode_payload :: "bytes \<Rightarrow> 'a :: len word list option" where
  "vector_decode_payload payload =
     (if length payload < 4 then None
      else case from_be_bytes (take 4 payload) of
             None \<Rightarrow> None
           | Some (count :: u32) \<Rightarrow> vector_decode_elems (unat count) (drop 4 payload))"

section \<open>Uuids\<close>

text \<open>A text is a list of characters; one outside ASCII is no hex digit.\<close>

definition hex_nibble :: "char \<Rightarrow> byte option" where
  "hex_nibble c =
     (let n = (of_char c :: nat) in
      if 48 \<le> n \<and> n \<le> 57 then Some (of_nat (n - 48))
      else if 97 \<le> n \<and> n \<le> 102 then Some (of_nat (n - 97 + 10))
      else if 65 \<le> n \<and> n \<le> 70 then Some (of_nat (n - 65 + 10))
      else None)"

fun from_text_loop :: "bytes \<Rightarrow> byte option \<Rightarrow> string \<Rightarrow> bytes option" where
  "from_text_loop out hi [] = (if length out = 16 \<and> hi = None then Some out else None)"
| "from_text_loop out hi (c # cs) =
     (if c = CHR ''-'' then from_text_loop out hi cs
      else case hex_nibble c of
             None \<Rightarrow> None
           | Some v \<Rightarrow> (case hi of
                None \<Rightarrow> from_text_loop out (Some v) cs
              | Some h \<Rightarrow> if length out = 16 then None
                          else from_text_loop (out @ [push_bit 4 h OR v]) None cs))"

definition from_text :: "string \<Rightarrow> bytes option" where
  "from_text s = from_text_loop [] None s"

text \<open>\<open>{byte:02x}\<close>: two lower-case digits.\<close>

definition hex_digit :: "nat \<Rightarrow> char" where
  "hex_digit n = char_of (if n < 10 then 48 + n else 87 + n)"

definition hex2 :: "byte \<Rightarrow> string" where
  "hex2 b = [hex_digit (unat b div 16), hex_digit (unat b mod 16)]"

fun write_text_loop :: "nat \<Rightarrow> bytes \<Rightarrow> string" where
  "write_text_loop i [] = []"
| "write_text_loop i (b # bs) =
     (if i = 4 \<or> i = 6 \<or> i = 8 \<or> i = 10 then ''-'' else []) @ hex2 b @ write_text_loop (i + 1) bs"

definition write_text :: "bytes \<Rightarrow> string" where
  "write_text b = write_text_loop 0 b"

text \<open>\<open>fill\<close> is the OS source: the bytes it yields are an argument.\<close>

definition uuid4_new :: "bytes \<Rightarrow> bytes" where
  "uuid4_new rnd =
     (let b = rnd[6 := (rnd ! 6 AND 0x0f) OR 0x40] in b[8 := (b ! 8 AND 0x3f) OR 0x80])"

definition uuid7_with_millis :: "u64 \<Rightarrow> bytes \<Rightarrow> bytes" where
  "uuid7_with_millis ms rnd =
     (let b = drop 2 (to_be_bytes ms) @ rnd;
          b = b[6 := (b ! 6 AND 0x0f) OR 0x70]
      in b[8 := (b ! 8 AND 0x3f) OR 0x80])"

definition uuid7_millis :: "bytes \<Rightarrow> u64 option" where
  "uuid7_millis b = from_be_bytes ([0, 0] @ take 6 b)"

section \<open>Vocabulary ids and values\<close>

definition vocab_succ :: "'a :: len word \<Rightarrow> 'a word option" where
  "vocab_succ v = (if v = - 1 then None else Some (v + 1))"

definition be16 :: "'a :: len word \<Rightarrow> bytes" where
  "be16 v = replicate (16 - LENGTH('a) div 8) 0 @ to_be_bytes v"

record 'i vocab =
  vocab_name :: "string option"
  vocab_vid :: "'i option"

definition vocab_of :: "string \<Rightarrow> 'a :: len word vocab" where
  "vocab_of name = \<lparr> vocab_name = Some name, vocab_vid = None \<rparr>"

definition vocab_from_id :: "'a :: len word \<Rightarrow> 'a word vocab" where
  "vocab_from_id i = \<lparr> vocab_name = None, vocab_vid = Some i \<rparr>"

definition vocab_set_id :: "'a :: len word \<Rightarrow> 'a word vocab \<Rightarrow> 'a word vocab" where
  "vocab_set_id i v = v\<lparr> vocab_vid := Some i \<rparr>"

definition vocab_set_name :: "string \<Rightarrow> 'a :: len word vocab \<Rightarrow> 'a word vocab" where
  "vocab_set_name name v = (if vocab_name v = None then v\<lparr> vocab_name := Some name \<rparr> else v)"

definition vocab_wire16 :: "'a :: len word vocab \<Rightarrow> bytes option" where
  "vocab_wire16 v = map_option be16 (vocab_vid v)"

definition vocab_to_wire :: "'a :: len word vocab \<Rightarrow> bytes option" where
  "vocab_to_wire v = map_option (drop (16 - LENGTH('a) div 8)) (vocab_wire16 v)"

definition vocab_from_wire :: "bytes \<Rightarrow> 'a :: len word vocab option" where
  "vocab_from_wire b = map_option vocab_from_id (from_be_bytes b)"

definition vocab_eq :: "'a :: len word vocab \<Rightarrow> 'a word vocab \<Rightarrow> bool" where
  "vocab_eq a b =
     (case (vocab_name a, vocab_name b) of
        (Some x, Some y) \<Rightarrow> x = y
      | (None, None) \<Rightarrow> vocab_vid a = vocab_vid b
      | _ \<Rightarrow> False)"

section \<open>References\<close>

record ('k, 'd) refs =
  refs_keys :: "'k list"
  refs_values :: "'d option list"

definition refs_new :: "'k list \<Rightarrow> ('k, 'd) refs" where
  "refs_new keys = \<lparr> refs_keys = keys, refs_values = map (\<lambda>_. None) keys \<rparr>"

definition refs_own_all :: "'k list \<Rightarrow> 'd list \<Rightarrow> ('k, 'd) refs option" where
  "refs_own_all keys values =
     (if length keys = length values
      then Some \<lparr> refs_keys = keys, refs_values = map Some values \<rparr> else None)"

definition refs_from_pairs :: "('k \<times> 'd option) list \<Rightarrow> ('k, 'd) refs" where
  "refs_from_pairs pairs = \<lparr> refs_keys = map fst pairs, refs_values = map snd pairs \<rparr>"

section \<open>Keys\<close>

datatype field_type =
    FU8 | FU16 | FU32 | FU64 | FFixedBytes | FStr | FBytes | FVarInt | FQuant u32
  | FVocab u16 | FOffset u64 | FUuid4 | FUuid7 | FVector string

record field_desc =
  fd_name :: string
  fd_ty :: field_type
  fd_width :: nat

text \<open>The inner loop of \<open>encode_field_named\<close>: the first field of the name, at its offset.\<close>

fun field_segment :: "field_desc list \<Rightarrow> bytes \<Rightarrow> nat \<Rightarrow> string \<Rightarrow> bytes option" where
  "field_segment [] full off n = Some []"
| "field_segment (f # fs) full off n =
     (if fd_name f = n
      then if off + fd_width f \<le> length full then Some (take (fd_width f) (drop off full)) else None
      else field_segment fs full (off + fd_width f) n)"

fun encode_field_named ::
    "field_desc list \<Rightarrow> bytes \<Rightarrow> bytes \<Rightarrow> string list \<Rightarrow> (bytes \<times> nat) option" where
  "encode_field_named fs full buf [] = Some (buf, 0)"
| "encode_field_named fs full buf (n # ns) =
     (case field_segment fs full 0 n of
        None \<Rightarrow> None
      | Some seg \<Rightarrow> map_option (\<lambda>(b, w). (b, length seg + w))
          (encode_field_named fs full (buf @ seg) ns))"

fun named_width :: "field_desc list \<Rightarrow> string \<Rightarrow> nat" where
  "named_width [] n = 0"
| "named_width (f # fs) n = (if fd_name f = n then fd_width f else named_width fs n)"

definition field_width_named :: "field_desc list \<Rightarrow> string list \<Rightarrow> nat" where
  "field_width_named fs names = sum_list (map (named_width fs) names)"

definition kind_matches :: "field_type \<Rightarrow> field_type \<Rightarrow> bool" where
  "kind_matches a b =
     (case a of
        FU8 \<Rightarrow> b = FU8 | FU16 \<Rightarrow> b = FU16 | FU32 \<Rightarrow> b = FU32 | FU64 \<Rightarrow> b = FU64
      | FFixedBytes \<Rightarrow> b = FFixedBytes | FUuid4 \<Rightarrow> b = FUuid4 | FUuid7 \<Rightarrow> b = FUuid7
      | FVocab _ \<Rightarrow> (case b of FVocab _ \<Rightarrow> True | _ \<Rightarrow> False)
      | _ \<Rightarrow> False)"

fun str_eq_loop :: "string \<Rightarrow> string \<Rightarrow> nat \<Rightarrow> nat \<Rightarrow> bool" where
  "str_eq_loop a b i 0 = True"
| "str_eq_loop a b i (Suc fuel) = (if a ! i \<noteq> b ! i then False else str_eq_loop a b (i + 1) fuel)"

definition str_eq :: "string \<Rightarrow> string \<Rightarrow> bool" where
  "str_eq a b = (if length a \<noteq> length b then False else str_eq_loop a b 0 (length a))"

fun key_field_matches :: "field_desc list \<Rightarrow> string \<Rightarrow> field_type \<Rightarrow> nat \<Rightarrow> bool" where
  "key_field_matches [] name kind width = False"
| "key_field_matches (f # fs) name kind width =
     (if str_eq (fd_name f) name then kind_matches (fd_ty f) kind \<and> fd_width f = width
      else key_field_matches fs name kind width)"

fun key_field_exists :: "field_desc list \<Rightarrow> string \<Rightarrow> bool" where
  "key_field_exists [] name = False"
| "key_field_exists (f # fs) name = (if str_eq (fd_name f) name then True else key_field_exists fs name)"

section \<open>Fixed-width round trip and order\<close>

definition byte_sized :: "'a :: len itself \<Rightarrow> bool" where
  "byte_sized t \<longleftrightarrow> 8 dvd LENGTH('a)"

lemma byte_sized_simps [simp]:
  "byte_sized TYPE(8)" "byte_sized TYPE(16)" "byte_sized TYPE(32)" "byte_sized TYPE(64)"
  "byte_sized TYPE(128)"
  by (simp_all add: byte_sized_def)

lemma pow_256_div: "byte_sized TYPE('a :: len) \<Longrightarrow> (256 :: nat) ^ (LENGTH('a) div 8) = 2 ^ LENGTH('a)"
  by (auto simp: byte_sized_def dvd_def power_mult)

lemma unat_less_256:
  "byte_sized TYPE('a) \<Longrightarrow> unat (v :: 'a :: len word) < 256 ^ (LENGTH('a) div 8)"
  using unsigned_less [of v, where ?'a = nat] by (simp add: pow_256_div)

lemma length_to_be_bytes [simp]: "length (to_be_bytes (v :: 'a :: len word)) = LENGTH('a) div 8"
  by (simp add: to_be_bytes_def)

lemma from_to_be_bytes [simp]:
  "byte_sized TYPE('a) \<Longrightarrow> from_be_bytes (to_be_bytes v) = Some (v :: 'a :: len word)"
  by (simp add: from_be_bytes_def) (simp add: to_be_bytes_def unat_less_256)

lemma to_from_be_bytes:
  assumes "byte_sized TYPE('a)" "from_be_bytes b = Some (v :: 'a :: len word)"
  shows "to_be_bytes v = b"
proof -
  have len: "length b = LENGTH('a) div 8" and v: "v = of_nat (be_val b)"
    using assms by (auto simp: from_be_bytes_def split: if_splits)
  have "be_val b < 2 ^ LENGTH('a)"
    using be_val_less [of b] pow_256_div [OF assms(1)] len by simp
  then have "unat v = be_val b" using v by (simp add: unat_of_nat)
  then show ?thesis using be_bytes_be_val_n [OF len] by (simp add: to_be_bytes_def)
qed

lemma to_be_bytes_less [byte_order]:
  "byte_sized TYPE('a) \<Longrightarrow> to_be_bytes (a :: 'a :: len word) < to_be_bytes b \<longleftrightarrow> a < b"
  by (simp add: to_be_bytes_def be_bytes_less_iff unat_less_256 word_less_nat_alt)

lemma to_be_bytes_inject:
  "byte_sized TYPE('a) \<Longrightarrow> to_be_bytes (a :: 'a :: len word) = to_be_bytes b \<longleftrightarrow> a = b"
  by (metis from_to_be_bytes option.inject)

lemma not_less_not: "NOT a < NOT b \<longleftrightarrow> b < (a :: 'a :: len word)"
proof -
  have max: "x \<le> - 1" for x :: "'a word" by (rule word_order.extremum)
  have eq: "NOT x = - 1 - x" for x :: "'a word" by (simp add: not_eq_complement)
  have "unat (NOT x) = unat (- 1 :: 'a word) - unat x" for x :: "'a word"
    using unat_sub [OF max [of x]] by (simp only: eq)
  moreover have "unat x \<le> unat (- 1 :: 'a word)" for x :: "'a word"
    using max [of x] by (simp add: word_le_nat_alt)
  note this [of a] this [of b]
  ultimately show ?thesis by (simp only: word_less_nat_alt) linarith
qed

lemma xor_sign_mask: "v XOR sign_mask = v + (sign_mask :: 'a :: len word)"
proof -
  let ?m = "sign_mask :: 'a word"
  have low: "x XOR ?m = x + ?m" if "\<not> bit x (LENGTH('a) - 1)" for x :: "'a word"
  proof -
    have "x AND ?m = 0" using that 
      by (intro bit_word_eqI) (auto simp: sign_mask_def bit_simps)
    then show ?thesis by (simp add: disjunctive_add_eq_xor)
  qed
  show ?thesis
  proof (cases "bit v (LENGTH('a) - 1)")
    case True
    then have "\<not> bit (v XOR ?m) (LENGTH('a) - 1)" by (simp add: sign_mask_def bit_simps)
    then have "v = (v XOR ?m) + ?m" using low [of "v XOR ?m"] by (simp add: xor.assoc)
    moreover have "(2 :: 'a word) * 2 ^ (LENGTH('a) - 1) = 2 ^ LENGTH('a)"
      by (metis Suc_diff_1 len_gt_0 power_Suc)
    then have "?m + ?m = 0" by (simp add: sign_mask_def)
    ultimately show ?thesis by (metis add.assoc add.right_neutral)
  qed (rule low)
qed

lemma uint_add_sign_mask: "uint (v + sign_mask) = sint v + 2 ^ (LENGTH('a) - 1)" for v :: "'a :: len word"
proof -
  have "v + sign_mask = word_of_int (uint v + 2 ^ (LENGTH('a) - 1))" by (simp add: sign_mask_def)
  then have "uint (v + sign_mask) = take_bit LENGTH('a) (uint v + 2 ^ (LENGTH('a) - 1))"
    by (simp only: uint_word_of_int_eq)
  then show ?thesis by (simp add: sint_uint signed_take_bit_eq_take_bit_shift)
qed

lemma rev_encode_less [byte_order]:
  "byte_sized TYPE('a) \<Longrightarrow> rev_encode (a :: 'a :: len word) < rev_encode (b :: 'a word) \<longleftrightarrow> b < a"
  by (simp add: rev_encode_def to_be_bytes_less not_less_not)

lemma rev_encode_signed_less [byte_order]:
  "byte_sized TYPE('a) \<Longrightarrow> 
    rev_encode_signed (a :: 'a :: len word) < rev_encode_signed (b :: 'a word) \<longleftrightarrow> sint b < sint a"
  using uint_add_sign_mask [of a] uint_add_sign_mask [of b]
  by (simp add: rev_encode_signed_def to_be_bytes_less not_less_not xor_sign_mask)
    (simp add: word_less_alt)

lemma rev_decode_encode: "byte_sized TYPE('a) \<Longrightarrow> rev_decode (rev_encode v) = Some (v :: 'a :: len word)"
  by (simp add: rev_decode_def rev_encode_def)

lemma rev_decode_encode_signed:
  "byte_sized TYPE('a) \<Longrightarrow> rev_decode_signed (rev_encode_signed v) = Some (v :: 'a :: len word)"
  by (simp add: rev_decode_signed_def rev_encode_signed_def xor.assoc)

text \<open>
  \<open>Reverse\<close> stores a fixed-width integer, unsigned or signed, so that the byte order
  of the encodings is the descending order of the values, and decodes it back.
\<close>

theorem reverse_descending:
  assumes "byte_sized TYPE('a :: len)"
  shows "(rev_encode (a :: 'a word) < rev_encode (b :: 'a word) \<longleftrightarrow> b < a) \<and>
    (rev_encode_signed a < rev_encode_signed b \<longleftrightarrow> sint b < sint a) \<and>
    rev_decode (rev_encode a) = Some a \<and> rev_decode_signed (rev_encode_signed a) = Some a"
  using assms
  by (simp add: rev_encode_less rev_encode_signed_less rev_decode_encode rev_decode_encode_signed)

theorem reverse_descending_witness:
  "rev_encode_signed (- 3 :: 16 word) < rev_encode_signed (- 5 :: 16 word) \<and>
   rev_encode (5 :: 64 word) < rev_encode (3 :: 64 word)"
  using reverse_descending [where ?'a = 16, of "- 3" "- 5"] reverse_descending [where ?'a = 64, of 5 3]
  by simp

section \<open>Offset\<close>

lemma sint_bounds: "- (2 ^ 63) \<le> sint (v :: u64) \<and> sint v < 2 ^ 63"
  using sint_range_size [of v] by (simp add: size_word.rep_eq)

lemma offset_encode_eq:
  "offset_encode value base =
     (let d = sint value - sint base in
      if 0 \<le> d \<and> d < 2 ^ 32 then Some (be_bytes 4 (nat d)) else None)"
proof -
  have "unat (of_int d :: u32) = nat d" if "0 \<le> d" "d < 2 ^ 32" for d :: int
    using that by (simp add: unat_eq_nat_uint uint_word_of_int)
  moreover define d where "d = sint value - sint base"
  ultimately show ?thesis
    by (auto simp: offset_encode_def checked_sub_def Let_def to_be_bytes_def d_def [symmetric])
qed

lemma offset_decode_encode:
  assumes "offset_encode value base = Some b"
  shows "offset_decode b base = Some value"
proof -
  define d where "d = sint value - sint base"
  have d: "0 \<le> d" "d < 2 ^ 32" and b: "b = be_bytes 4 (nat d)"
    using assms by (auto simp: offset_encode_eq Let_def d_def [symmetric] split: if_splits)
  have nd: "nat d < 256 ^ 4" using d by simp
  have "from_be_bytes b = Some (of_nat (nat d) :: u32)"
    using b nd by (simp add: from_be_bytes_def)
  moreover have "(ucast (of_nat (nat d) :: u32) :: u64) = of_nat (nat d)"
    using nd by (simp add: unsigned_of_nat take_bit_nat_eq_self)
  moreover have "base + of_nat (nat d) = value"
  proof -
    have "base + of_int d = of_int (sint base + d)" by simp
    also have "\<dots> = value" by (simp add: d_def)
    finally show ?thesis using d(1) by simp
  qed
  ultimately show ?thesis by (simp add: offset_decode_def)
qed

text \<open>
  \<open>offset_encode\<close> accepts exactly the values within a \<open>u32\<close> above the base (no
  wrap-around at the ends of \<open>i64\<close>), decoding gives the value back, and the byte order of
  two encodings on one base is the signed order of the values.
\<close>

theorem offset_codec:
  "(offset_encode value base \<noteq> None \<longleftrightarrow> sint base \<le> sint value \<and> sint value - sint base < 2 ^ 32) \<and>
   (\<forall>b. offset_encode value base = Some b \<longrightarrow> offset_decode b base = Some value) \<and>
   (\<forall>b c. offset_encode value base = Some b \<longrightarrow> offset_encode value2 base = Some c \<longrightarrow>
      (b < c \<longleftrightarrow> sint value < sint value2))"
  using offset_decode_encode
  by (auto simp: offset_encode_eq Let_def be_bytes_less_iff split: if_splits)

theorem offset_codec_witness:
  "offset_decode (be_bytes 4 500) 1700000000 = Some 1700000500"
  using offset_codec [of 1700000500 1700000000 0] by (simp add: offset_encode_eq)

section \<open>Presence\<close>

text \<open>The contract the derive relies on: a fixed width and a decoder that inverts the encoder.\<close>

locale wire_codec =
  fixes T :: "'a optional_enc" and valid :: "'a \<Rightarrow> bool"
  assumes enc_length: "valid x \<Longrightarrow> length (enc_wire T x) = wire_width T"
    and dec_enc: "valid x \<Longrightarrow> dec_wire T 1 (enc_wire T x) = Some x"
begin

definition opt_valid :: "'a option \<Rightarrow> bool" where
  "opt_valid v \<longleftrightarrow> (\<forall>x. v = Some x \<longrightarrow> valid x)"

lemma option_length: "opt_valid v \<Longrightarrow> length (enc_wire (option_enc T) v) = 1 + wire_width T"
  by (cases v) (auto simp: option_enc_def opt_valid_def enc_length)

lemma option_split:
  assumes "opt_valid v"
  obtains p w where "enc_wire (option_enc T) v = p # w" "length w = wire_width T"
    "dec_wire (option_enc T) p w = Some v"
  using assms by (cases v) (auto simp: option_enc_def opt_valid_def enc_length dec_enc)

lemma option_inject:
  "opt_valid v \<Longrightarrow> opt_valid u \<Longrightarrow> enc_wire (option_enc T) v = enc_wire (option_enc T) u \<longleftrightarrow> v = u"
  by (metis option_split list.inject option.inject)

text \<open>The inner decoder is handed the presence byte of the outer value and all its bytes.\<close>

lemma option_nested:
  "valid x \<Longrightarrow> enc_wire (option_enc (option_enc T)) (Some (Some x)) = 1 # 1 # enc_wire T x \<and>
    dec_wire (option_enc (option_enc T)) 1 (1 # enc_wire T x) =
      map_option (\<lambda>y. Some (Some y)) (dec_wire T 1 (1 # enc_wire T x))"
  by (simp add: option_enc_def option.map_comp comp_def)

end

lemma prim_enc_codec:
  assumes "byte_sized TYPE('a :: len)"
  shows "wire_codec (prim_enc :: 'a word optional_enc) (\<lambda>_. True)"
  using assms by unfold_locales (simp_all add: prim_enc_def)

interpretation u8: wire_codec "prim_enc :: 8 word optional_enc" "\<lambda>_. True"
  by (rule prim_enc_codec) simp

interpretation u16: wire_codec "prim_enc :: 16 word optional_enc" "\<lambda>_. True"
  by (rule prim_enc_codec) simp

interpretation u32: wire_codec "prim_enc :: 32 word optional_enc" "\<lambda>_. True"
  by (rule prim_enc_codec) simp

interpretation u64: wire_codec "prim_enc :: 64 word optional_enc" "\<lambda>_. True"
  by (rule prim_enc_codec) simp

interpretation arr: wire_codec "array_enc n" "\<lambda>b. length b = n" for n
  by unfold_locales (simp_all add: array_enc_def)

text \<open>
  An optional field of any width-keeping codec is one byte wider than the value, is
  decoded back, and distinct values (in particular an absent value and a present zero)
  have distinct bytes.
\<close>

theorem option_roundtrip:
  assumes "wire_codec T valid" and "\<forall>x. v = Some x \<longrightarrow> valid x" and "\<forall>x. u = Some x \<longrightarrow> valid x"
  shows "length (enc_wire (option_enc T) v) = 1 + wire_width T \<and>
    (\<exists>p w. enc_wire (option_enc T) v = p # w \<and> dec_wire (option_enc T) p w = Some v) \<and>
    (enc_wire (option_enc T) v = enc_wire (option_enc T) u \<longleftrightarrow> v = u)"
  using wire_codec.option_length [OF assms(1), of v] wire_codec.option_inject [OF assms(1), of v u]
    wire_codec.option_split [OF assms(1), of v] assms(2,3)
  unfolding wire_codec.opt_valid_def [OF assms(1)] by metis

theorem option_roundtrip_witness:
  "enc_wire (option_enc (prim_enc :: 16 word optional_enc)) None \<noteq>
   enc_wire (option_enc (prim_enc :: 16 word optional_enc)) (Some 0)"
  using option_roundtrip [OF u16.wire_codec_axioms, of None "Some 0"] by simp

text \<open>
  A nested optional field does not decode: the outer decoder hands the inner one the
  presence byte 1 and all the remaining bytes, the inner presence byte included, so the
  fixed-width value is given one byte too many and the decoder panics.
\<close>

theorem option_nested_panics:
  "enc_wire (option_enc (option_enc (array_enc n))) (Some (Some x)) = 1 # 1 # x \<and>
   (length x = n \<longrightarrow> dec_wire (option_enc (option_enc (array_enc n))) 1 (1 # x) = None)"
  by (simp add: option_enc_def array_enc_def)

theorem option_nested_panics_witness:
  "dec_wire (option_enc (option_enc (array_enc 2))) 1 (1 # [7, 8]) = None"
  using option_nested_panics [of 2 "[7, 8]"] by simp

section \<open>Vector\<close>

lemma decode_le_encode: "byte_sized TYPE('a) \<Longrightarrow> decode_le (encode_le v) = Some (v :: 'a :: len word)"
  by (simp add: decode_le_def encode_le_def)

lemma length_encode_le [simp]: "length (encode_le (v :: 'a :: len word)) = LENGTH('a) div 8"
  by (simp add: encode_le_def)

lemma vector_elems_roundtrip:
  assumes "byte_sized TYPE('a :: len)"
  shows "vector_decode_elems (length es) (concat (map encode_le (es :: 'a word list)) @ tail) = Some es"
  using assms by (induction es) (simp_all add: Let_def decode_le_encode)

text \<open>
  A vector frame is read back, whatever follows it, as long as its count fits the
  \<open>u32\<close> prefix.
\<close>

theorem vector_roundtrip:
  assumes "byte_sized TYPE('a :: len)" "length es < 2 ^ 32"
  shows "vector_decode_payload (vector_encode_payload (es :: 'a word list) @ tail) = Some es"
proof -
  have "unat (of_nat (length es) :: u32) = length es"
    using assms(2) by (simp add: unat_of_nat)
  moreover have "from_be_bytes (to_be_bytes (of_nat (length es) :: u32)) = Some (of_nat (length es) :: u32)"
    by simp
  ultimately show ?thesis
    using vector_elems_roundtrip [OF assms(1)]
    by (simp add: vector_decode_payload_def vector_encode_payload_def del: from_to_be_bytes)
qed

theorem vector_roundtrip_witness:
  "vector_decode_payload (vector_encode_payload [1, 2, 0x01020304 :: 32 word] @ [9]) =
    Some [1, 2, 0x01020304 :: 32 word]"
  by (rule vector_roundtrip) simp_all

section \<open>Uuids\<close>

lemma hex_nibble_digit: "n < 16 \<Longrightarrow> hex_nibble (hex_digit n) = Some (of_nat n)"
  by (simp add: hex_nibble_def hex_digit_def)

lemma hex_digit_dash: "n < 16 \<Longrightarrow> hex_digit n \<noteq> CHR ''-''"
proof
  have "hex_nibble (CHR ''-'') = None" by code_simp
  moreover assume "n < 16" "hex_digit n = CHR ''-''"
  ultimately show False using hex_nibble_digit [of n] by simp
qed

lemma nibbles_join: "push_bit 4 (of_nat (unat b div 16)) OR of_nat (unat b mod 16) = (b :: byte)"
proof -
  let ?h = "of_nat (unat b div 16) :: byte" and ?l = "of_nat (unat b mod 16) :: byte"
  have l: "unat ?l < 2 ^ 4" by simp
  then have "take_bit 4 ?l = ?l"
    by (simp only: word_unat_eq_iff unsigned_take_bit_eq take_bit_nat_eq_self)
  moreover have "push_bit 4 x AND take_bit 4 y = 0" for x y :: byte
    by (intro bit_word_eqI) (auto simp: bit_simps)
  ultimately have "push_bit 4 ?h AND ?l = 0" by metis
  then have "push_bit 4 ?h OR ?l = push_bit 4 ?h + ?l" by (simp add: disjunctive_add_eq_or)
  also have "\<dots> = of_nat (unat b div 16 * 16 + unat b mod 16)"
    by (simp only: push_bit_eq_mult of_nat_add of_nat_mult) simp
  also have "\<dots> = b" by simp
  finally show ?thesis .
qed

lemma from_text_hex2:
  "length out < 16 \<Longrightarrow> from_text_loop out None (hex2 b @ cs) = from_text_loop (out @ [b]) None cs"
  by (simp add: hex2_def hex_digit_dash hex_nibble_digit less_mult_imp_div_less nibbles_join)

lemma from_text_write:
  "length out + length bs = 16 \<Longrightarrow> from_text_loop out None (write_text_loop i bs) = Some (out @ bs)"
  by (induction bs arbitrary: out i) (simp_all add: from_text_hex2)

text \<open>
  Every 16-byte uuid printed in its hyphenated form is parsed back, and so is its form
  without separators.
\<close>

theorem uuid_text_roundtrip:
  assumes "length b = 16"
  shows "from_text (write_text b) = Some b \<and> from_text (concat (map hex2 b)) = Some b"
proof -
  have "from_text_loop out None (concat (map hex2 bs)) = Some (out @ bs)"
    if "length out + length bs = 16" for out bs
    using that by (induction bs arbitrary: out) (simp_all add: from_text_hex2)
  then show ?thesis using assms from_text_write [of "[]" b] by (simp add: from_text_def write_text_def)
qed

theorem uuid_text_roundtrip_witness:
  "from_text (write_text (replicate 16 0xAB)) = Some (replicate 16 0xAB)"
  using uuid_text_roundtrip [of "replicate 16 0xAB"] by simp

lemma uuid7_split:
  assumes "length rnd = 10"
  obtains r where "uuid7_with_millis ms rnd = be_bytes 6 (unat ms) @ r" "length r = 10"
proof -
  let ?b = "be_bytes 6 (unat ms) @ rnd"
  obtain r0 rs where "rnd = r0 # rs" using assms by (cases rnd) auto
  moreover have "drop 2 (to_be_bytes ms) = be_bytes 6 (unat ms)" by (simp add: to_be_bytes_def)
  ultimately show ?thesis
    using assms that by (simp add: uuid7_with_millis_def Let_def list_update_append)
qed

text \<open>
  A version-7 uuid carries its millisecond clock: reading it gives the low 48 bits back,
  and for two clocks below \<open>2\<^sup>48\<close> an earlier one sorts first whatever the random bytes are.
\<close>

theorem uuid7_time_order:
  assumes "length rnd = 10" "length rnd' = 10"
  shows "uuid7_millis (uuid7_with_millis ms rnd) = Some (of_nat (unat ms mod 2 ^ 48)) \<and>
    (unat ms < unat ms' \<and> unat ms' < 2 ^ 48 \<longrightarrow>
      uuid7_with_millis ms rnd < uuid7_with_millis ms' rnd')"
proof -
  obtain r r' where r: "uuid7_with_millis ms rnd = be_bytes 6 (unat ms) @ r"
    "uuid7_with_millis ms' rnd' = be_bytes 6 (unat ms') @ r'"
    using uuid7_split [OF assms(1)] uuid7_split [OF assms(2)] by metis
  have "unat ms < unat ms' \<Longrightarrow> unat ms' < 2 ^ 48 \<Longrightarrow> be_bytes 6 (unat ms) < be_bytes 6 (unat ms')"
    by (simp add: be_bytes_less_iff)
  then show ?thesis
    by (simp add: r uuid7_millis_def from_be_bytes_def be_val_be_bytes_mod same_length_less_append)
qed

theorem uuid7_time_order_witness:
  "uuid7_with_millis 1 (replicate 10 0xFF) < uuid7_with_millis 2 (replicate 10 0)"
  using uuid7_time_order [of "replicate 10 0xFF" "replicate 10 0" 1 2] by simp

section \<open>Vocabulary values\<close>

lemma be16_suffix: "drop (16 - LENGTH('a) div 8) (be16 (v :: 'a :: len word)) = to_be_bytes v"
  by (simp add: be16_def)

lemma vocab_to_wire_eq: "vocab_to_wire v = map_option to_be_bytes (vocab_vid (v :: 'a :: len word vocab))"
  by (cases "vocab_vid v") (simp_all add: vocab_to_wire_def vocab_wire16_def be16_suffix)

lemma vocab_wire_roundtrip:
  "byte_sized TYPE('a) \<Longrightarrow>
    (case vocab_to_wire (vocab_set_id i (vocab_of name)) of
       Some b \<Rightarrow> map_option (vocab_set_name name) (vocab_from_wire b) | None \<Rightarrow> None) =
    Some (vocab_set_id (i :: 'a :: len word) (vocab_of name))"
  by (simp add: vocab_to_wire_eq vocab_set_id_def vocab_of_def vocab_from_wire_def
      vocab_from_id_def vocab_set_name_def)

lemma vocab_succ_order:
  "vocab_succ v = Some w \<Longrightarrow> byte_sized TYPE('a) \<Longrightarrow>
    unat w = unat v + 1 \<and> to_be_bytes v < to_be_bytes (w :: 'a :: len word)"
proof -
  assume "vocab_succ v = Some w" and sized: "byte_sized TYPE('a)"
  then have "w = v + 1" "v \<noteq> - 1" by (auto simp: vocab_succ_def split: if_splits)
  then have "unat w = unat v + 1" by (metis Suc_eq_plus1 add.commute unatSuc add.inverse_inverse add_eq_0_iff)
  then show ?thesis using to_be_bytes_less [OF sized] by (simp add: word_less_nat_alt)
qed

lemma refs_aligned:
  "length (refs_keys (refs_new ks)) = length (refs_values (refs_new ks))"
  "refs_own_all ks vs = Some r \<Longrightarrow> length (refs_keys r) = length (refs_values r)"
  "length (refs_keys (refs_from_pairs ps)) = length (refs_values (refs_from_pairs ps))"
  by (auto simp: refs_new_def refs_own_all_def refs_from_pairs_def split: if_splits)

section \<open>Key segments\<close>

lemma str_eq_loop_iff:
  "i + fuel \<le> length a \<Longrightarrow> length a = length b \<Longrightarrow>
    str_eq_loop a b i fuel \<longleftrightarrow> take fuel (drop i a) = take fuel (drop i b)"
  by (induction fuel arbitrary: i) (auto simp: Cons_nth_drop_Suc [symmetric])

lemma str_eq_iff [simp]: "str_eq a b \<longleftrightarrow> a = b"
  using str_eq_loop_iff [of 0 "length a" a b] by (auto simp: str_eq_def)

lemma key_field_exists_iff: "key_field_exists fs name \<longleftrightarrow> name \<in> fd_name ` set fs"
  by (induction fs) auto

lemma key_field_matches_width:
  "key_field_matches fs name kind width \<Longrightarrow> named_width fs name = width \<and> name \<in> fd_name ` set fs"
  by (induction fs) (auto split: if_splits)

definition part_of :: "field_desc list \<Rightarrow> bytes list \<Rightarrow> string \<Rightarrow> bytes" where
  "part_of fs parts n = (case map_of (zip (map fd_name fs) parts) n of Some p \<Rightarrow> p | None \<Rightarrow> [])"

lemma field_segment_part:
  "map length parts = map fd_width fs \<Longrightarrow>
    field_segment fs (pre @ concat parts) (length pre) n = Some (part_of fs parts n)"
proof (induction fs arbitrary: parts pre)
  case (Cons f fs)
  then obtain p ps where "parts = p # ps" "length p = fd_width f" "map length ps = map fd_width fs"
    by (cases parts) auto
  then show ?case using Cons.IH [of ps "pre @ p"] by (simp add: part_of_def)
qed (simp add: part_of_def)

lemma part_of_width: "map length parts = map fd_width fs \<Longrightarrow> length (part_of fs parts n) = named_width fs n"
proof (induction fs arbitrary: parts)
  case (Cons f fs)
  then show ?case by (cases parts) (auto simp: part_of_def)
qed (simp add: part_of_def)

lemma encode_field_named_parts:
  assumes "map length parts = map fd_width fs"
  shows "encode_field_named fs (concat parts) buf names =
    Some (buf @ concat (map (part_of fs parts) names), field_width_named fs names)"
proof (induction names arbitrary: buf)
  case (Cons n ns)
  then show ?case
    using field_segment_part [OF assms, of "[]" n] part_of_width [OF assms, of n]
    by (simp add: field_width_named_def)
qed (simp add: field_width_named_def)

text \<open>
  For a key that is the concatenation of its fields, \<open>encode_field_named\<close> appends the
  named fields' bytes in request order and reports \<open>field_width_named\<close>; a single field that
  passed the compile-time check contributes exactly the checked width.
\<close>

theorem encode_field_named_spec:
  assumes "map length parts = map fd_width fs"
  shows "encode_field_named fs (concat parts) buf names =
      Some (buf @ concat (map (part_of fs parts) names), field_width_named fs names) \<and>
    (key_field_matches fs n kind w \<longrightarrow> field_width_named fs [n] = w \<and> key_field_exists fs n)"
  using encode_field_named_parts [OF assms] key_field_matches_width [of fs n kind w]
  by (auto simp: field_width_named_def key_field_exists_iff)

theorem encode_field_named_spec_witness:
  "encode_field_named [\<lparr> fd_name = ''ch'', fd_ty = FU16, fd_width = 2 \<rparr>, \<lparr> fd_name = ''m'', fd_ty = FU8, fd_width = 1 \<rparr>]
     [1, 2, 3] [9] [''m'', ''ch''] = Some ([9, 3, 1, 2], 3)"
  using encode_field_named_spec [of "[[1, 2], [3]]"
    "[\<lparr> fd_name = ''ch'', fd_ty = FU16, fd_width = 2 \<rparr>, \<lparr> fd_name = ''m'', fd_ty = FU8, fd_width = 1 \<rparr>]"
    "[9]" "[''m'', ''ch'']"]
  by (simp add: part_of_def field_width_named_def)

end
