(* ===== verification/Okm_Index.thy ===== *)
theory Okm_Index
  imports Okm_Fields Okm_Storage Okm_Varint
begin

text \<open>
  Slots and secondary indexes: \<open>okm-core/src/model/index.rs\<close>.

  A slot is one byte (a fixed face) or two (a counting family). The key codec and the
  index declaration are generated by the derive macros, so they are records of the trait
  members here; the assembly of entry keys and values and the two index scans are the
  trait's own code. A failed assertion is \<open>None\<close>.
\<close>

section \<open>Slots\<close>

definition slot :: "u16 \<Rightarrow> u16 \<Rightarrow> u16 option" where
  "slot family counter =
     (if family \<le> 0x000F \<and> counter \<le> 0x0FFF then Some (push_bit 12 family OR counter) else None)"

definition FIXED_FACE_MAX :: u16 where
  "FIXED_FACE_MAX = 0x0F"

definition write_slot :: "bytes \<Rightarrow> u16 \<Rightarrow> bytes option" where
  "write_slot buf sl =
     (if sl \<le> FIXED_FACE_MAX then Some (buf @ [ucast sl])
      else if drop_bit 12 sl \<noteq> 0 then Some (buf @ to_be_bytes sl)
      else None)"

definition slot_len :: "u16 \<Rightarrow> nat" where
  "slot_len sl = (if sl \<le> FIXED_FACE_MAX then 1 else 2)"

definition VOCAB_LABEL :: u16 where "VOCAB_LABEL = 0x1"
definition VOCAB_ID :: u16 where "VOCAB_ID = 0x2"
definition INDEX :: u16 where "INDEX = 0x3"
definition REDUCE :: u16 where "REDUCE = 0x4"
definition LEAD :: u16 where "LEAD = 0x5"

definition PRIMARY_SLOT :: u16 where "PRIMARY_SLOT = 0x00"
definition DYNAMIC_SLOT :: u16 where "DYNAMIC_SLOT = 0x01"
definition FIELD_VOCAB_ID_SLOT :: u16 where "FIELD_VOCAB_ID_SLOT = 0x02"
definition FIELD_VOCAB_NAME_SLOT :: u16 where "FIELD_VOCAB_NAME_SLOT = 0x03"
definition PREDICATE_VOCAB_ID_SLOT :: u16 where "PREDICATE_VOCAB_ID_SLOT = 0x04"
definition PREDICATE_VOCAB_NAME_SLOT :: u16 where "PREDICATE_VOCAB_NAME_SLOT = 0x05"
definition META_SLOT :: u16 where "META_SLOT = 0x0F"

definition DECLARED_SLOT_BASE :: "u16 option" where "DECLARED_SLOT_BASE = slot INDEX 1"
definition REDUCE_SLOT_BASE :: "u16 option" where "REDUCE_SLOT_BASE = slot REDUCE 1"
definition LEAD_SLOT_BASE :: "u16 option" where "LEAD_SLOT_BASE = slot LEAD 1"

lemmas slot_consts = PRIMARY_SLOT_def DYNAMIC_SLOT_def FIELD_VOCAB_ID_SLOT_def
  FIELD_VOCAB_NAME_SLOT_def PREDICATE_VOCAB_ID_SLOT_def PREDICATE_VOCAB_NAME_SLOT_def META_SLOT_def

section \<open>Function-index results\<close>

definition encode_index_string :: "bytes \<Rightarrow> bytes \<Rightarrow> bytes" where
  "encode_index_string v buf = buf @ v"

definition encode_index_uint :: "'a :: len word \<Rightarrow> bytes \<Rightarrow> bytes" where
  "encode_index_uint v buf = buf @ to_be_bytes v"

definition result_segments :: "('v \<Rightarrow> bytes \<Rightarrow> bytes) \<Rightarrow> 'v list \<Rightarrow> bytes list" where
  "result_segments encode_index values = map (\<lambda>v. encode_index v []) values"

section \<open>The index traits\<close>

record 'k key_encode =
  key_len :: nat
  kencode :: "'k \<Rightarrow> bytes"
  kdecode :: "bytes \<Rightarrow> 'k"
  encode_prefix_named :: "'k \<Rightarrow> string list \<Rightarrow> bytes"
  kprefix_width :: "string list \<Rightarrow> nat"

record ('k, 'r) kv_index =
  ix_slot :: u16
  ix_fields :: "string list"
  ix_includes :: "string list"
  ix_key_prefix :: "string list"
  ix_encode_named :: "'k \<Rightarrow> 'r \<Rightarrow> string list \<Rightarrow> bytes"
  ix_admits :: "'r \<Rightarrow> bool"

definition fields_bytes :: "('k, 'r) kv_index \<Rightarrow> 'k \<Rightarrow> 'r \<Rightarrow> bytes" where
  "fields_bytes ix k r = ix_encode_named ix k r (ix_fields ix)"

definition key_prefix_width :: "'k key_encode \<Rightarrow> ('k, 'r) kv_index \<Rightarrow> nat" where
  "key_prefix_width K ix =
     (if ix_key_prefix ix = [] then key_len K else kprefix_width K (ix_key_prefix ix))"

definition write_key_prefix :: "'k key_encode \<Rightarrow> ('k, 'r) kv_index \<Rightarrow> 'k \<Rightarrow> bytes \<Rightarrow> bytes" where
  "write_key_prefix K ix k buf =
     buf @ (if ix_key_prefix ix = [] then kencode K k else encode_prefix_named K k (ix_key_prefix ix))"

definition key_prefix_bytes :: "'k key_encode \<Rightarrow> ('k, 'r) kv_index \<Rightarrow> 'k \<Rightarrow> bytes" where
  "key_prefix_bytes K ix k = write_key_prefix K ix k []"

definition entry_key_with ::
    "'k key_encode \<Rightarrow> ('k, 'r) kv_index \<Rightarrow> bytes \<Rightarrow> 'k \<Rightarrow> (bytes \<Rightarrow> bytes) \<Rightarrow> bytes option" where
  "entry_key_with K ix ns k write_segment =
     map_option (\<lambda>buf. write_key_prefix K ix k (write_segment buf)) (write_slot ns (ix_slot ix))"

definition entry_key ::
    "'k key_encode \<Rightarrow> ('k, 'r) kv_index \<Rightarrow> bytes \<Rightarrow> 'k \<Rightarrow> 'r \<Rightarrow> bytes option" where
  "entry_key K ix ns k r =
     entry_key_with K ix ns k (\<lambda>buf. buf @ ix_encode_named ix k r (ix_fields ix))"

definition entry_value :: "('k, 'r) kv_index \<Rightarrow> 'k \<Rightarrow> 'r \<Rightarrow> bytes" where
  "entry_value ix k r =
     (if ix_includes ix = [] then [] else ix_encode_named ix k r (ix_includes ix))"

definition entry_pairs ::
    "'k key_encode \<Rightarrow> ('k, 'r) kv_index \<Rightarrow> bytes \<Rightarrow> 'k \<Rightarrow> 'r \<Rightarrow> (bytes \<times> bytes) list option" where
  "entry_pairs K ix ns k r =
     (if \<not> ix_admits ix r then Some []
      else map_option (\<lambda>e. [(e, entry_value ix k r)]) (entry_key K ix ns k r))"

definition entry_prefix :: "('k, 'r) kv_index \<Rightarrow> bytes \<Rightarrow> bytes \<Rightarrow> bytes option" where
  "entry_prefix ix ns encoded = map_option (\<lambda>buf. buf @ encoded) (write_slot ns (ix_slot ix))"

section \<open>Index scans\<close>

record 'k prefix_key =
  pk_decoded :: 'k
  pk_taken :: nat

definition decode_tail :: "'k key_encode \<Rightarrow> nat \<Rightarrow> bytes \<Rightarrow> 'k" where
  "decode_tail K taken tail =
     (if taken = key_len K then kdecode K tail
      else kdecode K (tail @ replicate (key_len K - taken) 0))"

definition scan_index_filtered ::
    "'s storage \<Rightarrow> 'k key_encode \<Rightarrow> ('k, 'r) kv_index \<Rightarrow> 's \<Rightarrow> bytes \<Rightarrow> bytes \<Rightarrow> bool
      \<Rightarrow> 'k prefix_key list result option" where
  "scan_index_filtered S K ix s ns encoded exact =
     (case entry_prefix ix ns encoded of
        None \<Rightarrow> None
      | Some p \<Rightarrow>
          let taken = key_prefix_width K ix in
          Some (rbind (sscan_suffix S s p) (\<lambda>suffixes.
            Inr (List.map_filter (\<lambda>suffix.
              if (if exact then length suffix = taken else taken \<le> length suffix)
              then Some \<lparr> pk_decoded = decode_tail K taken (drop (length suffix - taken) suffix),
                          pk_taken = taken \<rparr>
              else None) suffixes))))"

definition scan_index ::
    "'s storage \<Rightarrow> 'k key_encode \<Rightarrow> ('k, 'r) kv_index \<Rightarrow> 's \<Rightarrow> bytes \<Rightarrow> bytes
      \<Rightarrow> 'k prefix_key list result option" where
  "scan_index S K ix s ns encoded = scan_index_filtered S K ix s ns encoded False"

definition scan_index_exact ::
    "'s storage \<Rightarrow> 'k key_encode \<Rightarrow> ('k, 'r) kv_index \<Rightarrow> 's \<Rightarrow> bytes \<Rightarrow> bytes
      \<Rightarrow> 'k prefix_key list result option" where
  "scan_index_exact S K ix s ns encoded = scan_index_filtered S K ix s ns encoded True"

section \<open>Slots are a prefix code\<close>

definition slot_valid :: "u16 \<Rightarrow> bool" where
  "slot_valid sl \<longleftrightarrow> unat sl \<le> 15 \<or> 4096 \<le> unat sl"

definition slot_image :: "u16 \<Rightarrow> bytes" where
  "slot_image sl = (if unat sl \<le> 15 then [of_nat (unat sl)] else be_bytes 2 (unat sl))"

lemma write_slot_image:
  "write_slot buf sl = (if slot_valid sl then Some (buf @ slot_image sl) else None)"
proof -
  have "(drop_bit 12 sl = 0) \<longleftrightarrow> unat sl < 4096"
    by (simp add: word_unat_eq_iff unat_drop_bit_div div_eq_0_iff)
  moreover have "(ucast sl :: byte) = of_nat (unat sl)" by (simp add: unsigned_ucast_eq)
  ultimately show ?thesis
    by (auto simp: write_slot_def slot_valid_def slot_image_def FIXED_FACE_MAX_def
        word_le_nat_alt to_be_bytes_def)
qed

lemma length_slot_image: "slot_valid sl \<Longrightarrow> length (slot_image sl) = slot_len sl"
  by (auto simp: slot_image_def slot_len_def FIXED_FACE_MAX_def word_le_nat_alt)

lemma slot_image_prefix_free:
  assumes "slot_valid a" "slot_valid b" "prefix (slot_image a) (slot_image b)"
  shows "a = b"
proof -
  have a: "unat a < 256 ^ 2" and b: "unat b < 256 ^ 2"
    using unsigned_less [of a, where ?'a = nat] unsigned_less [of b, where ?'a = nat] by simp_all
  have big: "of_nat (unat x div 256) \<noteq> (of_nat n :: byte)" if "4096 \<le> unat x" "n \<le> 15" "unat x < 256 ^ 2" for x :: u16 and n
  proof -
    have "16 \<le> unat x div 256" "unat x div 256 < 256" using that by simp_all
    then show ?thesis using that by (simp add: byte_of_nat_eq_iff)
  qed
  show ?thesis
  proof (cases "unat a \<le> 15"; cases "unat b \<le> 15")
    assume "unat a \<le> 15" "unat b \<le> 15"
    then have "be_bytes 1 (unat a) = be_bytes 1 (unat b)" "unat a < 256 ^ 1" "unat b < 256 ^ 1"
      using assms(3) by (simp_all add: slot_image_def)
    then show ?thesis using be_bytes_inject [of "unat a" 1 "unat b"] by (simp only: word_unat_eq_iff)
  next
    assume "unat a \<le> 15" "\<not> unat b \<le> 15"
    then show ?thesis using assms big [of b "unat a"] b
      by (auto simp: slot_image_def slot_valid_def be_bytes_2)
  next
    assume "\<not> unat a \<le> 15" "unat b \<le> 15"
    then show ?thesis using assms(3) prefix_length_le by (fastforce simp: slot_image_def)
  next
    assume "\<not> unat a \<le> 15" "\<not> unat b \<le> 15"
    then have "be_bytes 2 (unat a) = be_bytes 2 (unat b)"
      using assms(3) by (simp add: slot_image_def prefix_same_length)
    then show ?thesis using be_bytes_inject [OF a b] by (simp add: word_unat_eq_iff)
  qed
qed

lemma slot_unat:
  assumes "slot f c = Some sl"
  shows "unat sl = unat f * 4096 + unat c" "unat f \<le> 15" "unat c \<le> 4095"
proof -
  have f: "unat f \<le> 15" and c: "unat c \<le> 4095" and sl: "sl = push_bit 12 f OR c"
    using assms by (auto simp: slot_def word_le_nat_alt split: if_splits)
  have c12: "unat c < 2 ^ 12" using c by simp
  have shift: "unat (push_bit 12 f) = unat f * 4096"
    using f by (simp add: push_bit_eq_mult unat_word_ariths)
  have "push_bit 12 f AND c = 0"
    by (intro bit_word_eqI) (auto simp: bit_simps dest!: bit_small_index [OF c12])
  then have "unat sl = unat (push_bit 12 f) + unat c"
    using sl f c shift by (simp add: disjunctive_add_eq_or [symmetric] unat_word_ariths)
  then show "unat sl = unat f * 4096 + unat c" using shift by simp
qed (use assms in \<open>auto simp: slot_def word_le_nat_alt split: if_splits\<close>)

lemma slot_div:
  assumes "slot f c = Some sl"
  shows "unat sl div 4096 = unat f" "unat sl mod 4096 = unat c"
  using slot_unat [OF assms] by simp_all

text \<open>
  Slots form a prefix code: behind one header no slot's bytes are a prefix of another's,
  so a scan of one face never sees another one; the width is \<open>slot_len\<close>. A counting
  family's slot determines its family and its counter, and every family from 1 on can be
  written.
\<close>

theorem slot_prefix_code:
  "(write_slot ns a = Some x \<longrightarrow> length x = length ns + slot_len a) \<and>
   (write_slot ns a = Some x \<longrightarrow> write_slot ns b = Some y \<longrightarrow> prefix x y \<longrightarrow> a = b) \<and>
   (slot f c = Some sl \<longrightarrow> slot f' c' = Some sl \<longrightarrow> f = f' \<and> c = c') \<and>
   (slot f c = Some sl \<longrightarrow> f \<noteq> 0 \<longrightarrow> write_slot ns sl \<noteq> None)"
proof (intro conjI impI)
  show "length x = length ns + slot_len a" if "write_slot ns a = Some x"
    using that by (auto simp: write_slot_image length_slot_image split: if_splits)
  show "a = b" if "write_slot ns a = Some x" "write_slot ns b = Some y" "prefix x y"
    using that slot_image_prefix_free [of a b] by (auto simp: write_slot_image split: if_splits)
  have fc: "unat f = unat f'" "unat c = unat c'" if "slot f c = Some sl" "slot f' c' = Some sl"
    using slot_div [OF that(1)] slot_div [OF that(2)] by simp_all
  show "f = f'" "c = c'" if "slot f c = Some sl" "slot f' c' = Some sl"
    using fc [OF that] by (simp_all add: word_unat_eq_iff)
  show "write_slot ns sl \<noteq> None" if "slot f c = Some sl" "f \<noteq> 0"
    using slot_unat [OF that(1)] that(2)
    by (auto simp: write_slot_image slot_valid_def word_unat_eq_iff)
qed

theorem slot_prefix_code_witness:
  "length [0x00, 0x07, 0x30, 0x01 :: byte] = length [0x00, 0x07 :: byte] + slot_len 0x3001 \<and>
   write_slot [0x00, 0x07] 0x3001 = Some [0x00, 0x07, 0x30, 0x01]"
proof -
  have w: "write_slot [0x00, 0x07] 0x3001 = Some [0x00, 0x07, 0x30, 0x01]"
    by (simp add: write_slot_image slot_valid_def slot_image_def be_bytes_2)
  then show ?thesis
    using slot_prefix_code [of "[0x00, 0x07]" "0x3001" "[0x00, 0x07, 0x30, 0x01]" 0 "[]" 0 0 0 0 0] by simp
qed

section \<open>Index scans\<close>

definition entry_seg :: "bytes \<Rightarrow> nat \<Rightarrow> bytes \<Rightarrow> bytes" where
  "entry_seg hdr taken k = take (length k - length hdr - taken) (drop (length hdr) k)"

definition entry_tail :: "nat \<Rightarrow> bytes \<Rightarrow> bytes" where
  "entry_tail taken k = drop (length k - taken) k"

lemma entry_decompose:
  assumes "prefix hdr k" "length hdr + taken \<le> length k"
  shows "k = hdr @ entry_seg hdr taken k @ entry_tail taken k" "length (entry_tail taken k) = taken"
proof -
  obtain rest where k: "k = hdr @ rest" using assms(1) by (auto simp: prefix_def)
  then show "k = hdr @ entry_seg hdr taken k @ entry_tail taken k"
    using assms(2) by (simp add: entry_seg_def entry_tail_def)
  show "length (entry_tail taken k) = taken" using assms(2) by (simp add: entry_tail_def)
qed

lemma entry_parts:
  "length tail = taken \<Longrightarrow> entry_seg hdr taken (hdr @ seg @ tail) = seg"
  "length tail = taken \<Longrightarrow> entry_tail taken (hdr @ seg @ tail) = tail"
  by (simp_all add: entry_seg_def entry_tail_def)

lemma probe_covers:
  assumes "length tail = taken"
  shows "prefix e (seg @ tail) \<and> taken \<le> length (seg @ tail) - length e \<longleftrightarrow> prefix e seg"
    and "prefix e (seg @ tail) \<and> length (seg @ tail) - length e = taken \<longleftrightarrow> seg = e"
proof -
  have long: "length e \<le> length (seg @ tail)" if "prefix e (seg @ tail)"
    using that by (rule prefix_length_le)
  have short: "prefix e (seg @ tail) \<longleftrightarrow> prefix e seg" if "length e \<le> length seg"
    using that by (auto simp: prefix_append)
  show "prefix e (seg @ tail) \<and> taken \<le> length (seg @ tail) - length e \<longleftrightarrow> prefix e seg"
    using long short assms prefix_length_le [of e seg] by auto
  show "prefix e (seg @ tail) \<and> length (seg @ tail) - length e = taken \<longleftrightarrow> seg = e"
  proof
    assume a: "prefix e (seg @ tail) \<and> length (seg @ tail) - length e = taken"
    moreover have "length e \<le> length (seg @ tail)" using a long by blast
    ultimately have "length e = length seg" using assms by (simp, linarith)
    then show "seg = e" using a short by (simp add: prefix_same_length)
  qed (simp add: assms)
qed

definition probe_keys :: "(bytes \<rightharpoonup> bytes) \<Rightarrow> bytes \<Rightarrow> nat \<Rightarrow> (bytes \<Rightarrow> bool) \<Rightarrow> bytes set" where
  "probe_keys m hdr taken P = {k \<in> dom m. prefix hdr k \<and> P (entry_seg hdr taken k)}"

lemma set_map_filter: "set (List.map_filter f xs) = {y. \<exists>x \<in> set xs. f x = Some y}"
  by (force simp: List.map_filter_def)

lemma Collect_image: "{f y | y x. x \<in> A \<and> y = g x} = (\<lambda>x. f (g x)) ` A"
  by blast

lemma probe_suffix:
  assumes "prefix hdr k" "length hdr + taken \<le> length k"
  shows "prefix (hdr @ e) k \<and> taken \<le> length (drop (length (hdr @ e)) k)
      \<longleftrightarrow> prefix e (entry_seg hdr taken k)"
    and "prefix (hdr @ e) k \<and> length (drop (length (hdr @ e)) k) = taken \<longleftrightarrow> entry_seg hdr taken k = e"
proof -
  obtain seg tail where k: "k = hdr @ seg @ tail" "length tail = taken"
    using entry_decompose [OF assms] by metis
  have d: "length (drop (length (hdr @ e)) k) = length (seg @ tail) - length e" using k(1) by simp
  have p: "prefix (hdr @ e) k \<longleftrightarrow> prefix e (seg @ tail)" "entry_seg hdr taken k = seg"
    using k entry_parts(1) by simp_all
  show "prefix (hdr @ e) k \<and> taken \<le> length (drop (length (hdr @ e)) k)
      \<longleftrightarrow> prefix e (entry_seg hdr taken k)"
    "prefix (hdr @ e) k \<and> length (drop (length (hdr @ e)) k) = taken \<longleftrightarrow> entry_seg hdr taken k = e"
    unfolding d p by (rule probe_covers [OF k(2)])+
qed

lemma drop_tail: "taken \<le> length (drop n k) \<Longrightarrow> drop (length (drop n k) - taken) (drop n k) = entry_tail taken k"
  by (cases "n \<le> length k") (simp_all add: entry_tail_def)

context kv_scan
begin

lemma scan_index_filtered_ok:
  fixes K :: "'k key_encode" and ix :: "('k, 'r) kv_index"
  assumes taken: "taken = key_prefix_width K ix"
    and s: "ok s" and hdr: "write_slot ns (ix_slot ix) = Some hdr"
    and safe: "prefix_safe (hdr @ e) (\<alpha> s)"
    and long: "\<And>k. k \<in> dom (\<alpha> s) \<Longrightarrow> prefix hdr k \<Longrightarrow> length hdr + taken \<le> length k"
  shows "\<exists>pks. scan_index_filtered S K ix s ns e exact = Some (Inr pks) \<and>
    set (map pk_decoded pks) = (\<lambda>k. decode_tail K taken (entry_tail taken k)) `
      probe_keys (\<alpha> s) hdr taken (\<lambda>seg. if exact then seg = e else prefix e seg)"
proof -
  define f where "f = (\<lambda>suffix :: bytes. if (if exact then length suffix = taken else taken \<le> length suffix)
     then Some \<lparr> pk_decoded = decode_tail K taken (drop (length suffix - taken) suffix), pk_taken = taken \<rparr>
     else None)"
  define pks where "pks = List.map_filter f (map (drop (length (hdr @ e))) (keys_under (\<alpha> s) (hdr @ e)))"
  have run: "scan_index_filtered S K ix s ns e exact = Some (Inr pks)"
    by (simp add: scan_index_filtered_def entry_prefix_def hdr scan_suffix_ok [OF s safe] Let_def
        taken [symmetric] pks_def f_def)
  have keep: "prefix (hdr @ e) k \<and> f (drop (length (hdr @ e)) k) = Some pk \<longleftrightarrow>
      (if exact then entry_seg hdr taken k = e else prefix e (entry_seg hdr taken k)) \<and>
        pk = \<lparr> pk_decoded = decode_tail K taken (entry_tail taken k), pk_taken = taken \<rparr>"
    if k: "k \<in> dom (\<alpha> s)" "prefix hdr k" for k pk
  proof -
    define suf where "suf = drop (length (hdr @ e)) k"
    have "taken \<le> length suf \<Longrightarrow> drop (length suf - taken) suf = entry_tail taken k"
      using drop_tail by (simp add: suf_def)
    then show ?thesis
      using probe_suffix [OF k(2) long [OF k], of e, folded suf_def]
      unfolding f_def suf_def [symmetric] by (cases exact) auto
  qed
  then have keys: "k \<in> dom (\<alpha> s) \<and> prefix (hdr @ e) k \<and> f (drop (length (hdr @ e)) k) = Some pk \<longleftrightarrow>
      k \<in> probe_keys (\<alpha> s) hdr taken (\<lambda>seg. if exact then seg = e else prefix e seg) \<and>
        pk = \<lparr> pk_decoded = decode_tail K taken (entry_tail taken k), pk_taken = taken \<rparr>" for k pk
    by (cases "k \<in> dom (\<alpha> s) \<and> prefix hdr k") (auto simp only: probe_keys_def mem_Collect_eq dest: append_prefixD)
  have "set (map pk_decoded pks) =
      {pk_decoded pk | pk k. k \<in> dom (\<alpha> s) \<and> prefix (hdr @ e) k \<and> f (drop (length (hdr @ e)) k) = Some pk}"
    by (auto simp: pks_def set_map_filter finite_dom [OF s])
  also have "\<dots> = (\<lambda>k. decode_tail K taken (entry_tail taken k)) `
      probe_keys (\<alpha> s) hdr taken (\<lambda>seg. if exact then seg = e else prefix e seg)"
    by (simp only: keys Collect_image prefix_key.select_convs)
  finally show ?thesis using run by blast
qed

end

text \<open>
  Over an index whose entries are header, field segment and key tail, \<open>scan_index_exact\<close>
  answers exactly the key tails of the entries whose field segment is the probe, and
  \<open>scan_index\<close> those whose field segment starts with it: an entry whose tail bytes alone
  complete the probe is never answered.
\<close>

theorem scan_index_spec:
  assumes "kv_scan S ok \<alpha>" "ok s" "write_slot ns (ix_slot ix) = Some hdr"
    and "prefix_safe (hdr @ e) (\<alpha> s)"
    and "\<And>k. k \<in> dom (\<alpha> s) \<Longrightarrow> prefix hdr k \<Longrightarrow> length hdr + key_prefix_width K ix \<le> length k"
  shows "(\<exists>pks. scan_index_exact S K ix s ns e = Some (Inr pks) \<and>
      set (map pk_decoded pks) =
        (\<lambda>k. decode_tail K (key_prefix_width K ix) (entry_tail (key_prefix_width K ix) k)) `
          probe_keys (\<alpha> s) hdr (key_prefix_width K ix) (\<lambda>seg. seg = e)) \<and>
    (\<exists>pks. scan_index S K ix s ns e = Some (Inr pks) \<and>
      set (map pk_decoded pks) =
        (\<lambda>k. decode_tail K (key_prefix_width K ix) (entry_tail (key_prefix_width K ix) k)) `
          probe_keys (\<alpha> s) hdr (key_prefix_width K ix) (prefix e))"
  using kv_scan.scan_index_filtered_ok [OF assms(1) refl assms(2-5), of True]
    kv_scan.scan_index_filtered_ok [OF assms(1) refl assms(2-5), of False]
  by (simp add: scan_index_exact_def scan_index_def)

text \<open>A one-byte key and a text index over it, for the closed instance.\<close>

definition demo_key :: "byte key_encode" where
  "demo_key = \<lparr> key_len = 1, kencode = (\<lambda>k. [k]), kdecode = hd,
                encode_prefix_named = (\<lambda>k ns. []), kprefix_width = (\<lambda>ns. 0) \<rparr>"

definition demo_index :: "(byte, bytes) kv_index" where
  "demo_index = \<lparr> ix_slot = 0x3001, ix_fields = [''name''], ix_includes = [], ix_key_prefix = [],
                  ix_encode_named = (\<lambda>k r ns. if ns = [''name''] then r else []),
                  ix_admits = (\<lambda>r. True) \<rparr>"

lemma demo_slot: "write_slot [7] (ix_slot demo_index) = Some [7, 0x30, 1]"
  by (simp add: demo_index_def write_slot_image slot_valid_def slot_image_def be_bytes_2)

text \<open>The rows ''ad'' with key 49 and ''ad1'' with key 2: only the second one matches ''ad1''.\<close>

theorem scan_index_spec_witness:
  "\<exists>pks. scan_index_exact mem_storage demo_key demo_index
      [([7, 0x30, 1, 97, 100, 49], []), ([7, 0x30, 1, 97, 100, 49, 2], [])] [7] [97, 100, 49] = Some (Inr pks) \<and>
    set (map pk_decoded pks) = {2}"
proof -
  let ?m = "[([7, 0x30, 1, 97, 100, 49], []), ([7, 0x30, 1, 97, 100, 49, 2 :: byte], [] :: bytes)]"
  have w: "key_prefix_width demo_key demo_index = 1"
    by (simp add: key_prefix_width_def demo_key_def demo_index_def)
  have "prefix_safe ([7, 0x30, 1] @ [97, 100, 49]) (map_of ?m)"
    using prefix_safe_last [of 49 "[7, 0x30, 1, 97, 100]"] by simp
  moreover have "length [7, 0x30, 1 :: byte] + key_prefix_width demo_key demo_index \<le> length k"
    if "k \<in> dom (map_of ?m)" for k using that w by (auto split: if_splits)
  moreover have "probe_keys (map_of ?m) [7, 0x30, 1] 1 (\<lambda>seg. seg = [97, 100, 49]) = {[7, 0x30, 1, 97, 100, 49, 2]}"
    by (auto simp: probe_keys_def entry_seg_def split: if_splits)
  ultimately show ?thesis
    using scan_index_spec [OF mem_storage_kv_scan, of ?m "[7]" demo_index "[7, 0x30, 1]" "[97, 100, 49]" demo_key]
    by (simp add: demo_slot w mem_inv_def entry_tail_def decode_tail_def) (simp add: demo_key_def)
qed

end
