(* ===== verification/Okm_Frame.thy ===== *)
theory Okm_Frame
  imports Okm_Prelude
begin

text \<open>
  The wire frames of \<open>okm-wire/src/lib.rs\<close>: bucketed lengths, request frames (\<open>OpFrame\<close>)
  and answer frames (\<open>OpResponse\<close>) with their two grammars. \<open>pos\<close> into a frame is the
  remaining bytes; \<open>None\<close> rejects a malformed frame. A Rust \<open>String\<close> is its UTF-8 bytes.
\<close>

unbundle bit_operations_syntax

section \<open>Tags and lengths\<close>

definition OP_PUT :: byte where "OP_PUT = 0"
definition OP_DELETE :: byte where "OP_DELETE = 1"
definition OP_GET :: byte where "OP_GET = 2"
definition OP_SCAN :: byte where "OP_SCAN = 3"
definition OP_SCAN_STREAM :: byte where "OP_SCAN_STREAM = 4"
definition TAIL_MORE :: byte where "TAIL_MORE = 0"
definition TAIL_FINAL :: byte where "TAIL_FINAL = 1"
definition FAULT_CODE :: byte where "FAULT_CODE = 2"

lemmas op_tags = OP_PUT_def OP_DELETE_def OP_GET_def OP_SCAN_def OP_SCAN_STREAM_def

text \<open>The narrowing casts keep the low bytes, as \<open>of_nat\<close> and \<open>be_bytes\<close> do.\<close>

definition frame_put_len :: "nat \<Rightarrow> bytes" where
  "frame_put_len v =
     (if v < 2 ^ 6 then [push_bit 6 0 OR of_nat v]
      else if v < 2 ^ 14 then [push_bit 6 1 OR of_nat (v div 2 ^ 8), of_nat v]
      else if v < 2 ^ 22 then (push_bit 6 2 OR of_nat (v div 2 ^ 16)) # be_bytes 2 v
      else push_bit 6 3 # be_bytes 4 v)"

definition frame_get_len :: "nat reader" where
  "frame_get_len = rd_bind rd_byte (\<lambda>first.
     let selector = drop_bit 6 first; low = unat (first AND 0x3f) in
     if selector = 0 then rd_ret low
     else if selector = 1 then rd_bind rd_byte (\<lambda>rest. rd_ret (push_bit 8 low OR unat rest))
     else if selector = 2 then rd_bind (rd_take 2) (\<lambda>rest. rd_ret (push_bit 16 low OR be_val rest))
     else rd_bind (rd_take 4) (\<lambda>rest. rd_ret (be_val rest)))"

definition put_op_header :: "byte \<Rightarrow> nat \<Rightarrow> nat \<Rightarrow> bytes" where
  "put_op_header tag klen vlen = push_bit 4 tag # frame_put_len klen @ frame_put_len vlen"

definition get_op_header :: "(byte \<times> nat \<times> nat) reader" where
  "get_op_header = rd_bind rd_byte (\<lambda>b. rd_bind frame_get_len (\<lambda>klen.
     rd_bind frame_get_len (\<lambda>vlen. rd_ret (drop_bit 4 b, klen, vlen))))"

section \<open>Request frames\<close>

type_synonym wire_op = "byte \<times> bytes \<times> bytes"

definition write_batch :: "(bytes \<times> bytes option) list \<Rightarrow> wire_op list" where
  "write_batch ops =
     map (\<lambda>(k, v). case v of Some v \<Rightarrow> (OP_PUT, k, v) | None \<Rightarrow> (OP_DELETE, k, [])) ops"

definition put_op :: "wire_op \<Rightarrow> bytes" where
  "put_op = (\<lambda>(tag, key, val). put_op_header tag (length key) (length val) @ key @ val)"

definition get_op :: "wire_op reader" where
  "get_op = rd_bind get_op_header (\<lambda>(tag, klen, vlen).
     if tag > OP_SCAN_STREAM then (\<lambda>_. None)
     else rd_bind (rd_take klen) (\<lambda>key. rd_bind (rd_take vlen) (\<lambda>val. rd_ret (tag, key, val))))"

definition OpFrame_encode :: "wire_op list \<Rightarrow> bytes" where
  "OpFrame_encode ops = frame_put_len (length ops) @ concat (map put_op ops)"

definition OpFrame_read :: "wire_op list reader" where
  "OpFrame_read = rd_bind frame_get_len (\<lambda>count. rd_n get_op count)"

definition OpFrame_decode :: "bytes \<Rightarrow> wire_op list option" where
  "OpFrame_decode frame = map_option fst (OpFrame_read frame)"

section \<open>Answer frames\<close>

record op_response =
  resp_value :: "bytes option"
  resp_suffixes :: "bytes list"
  resp_hits :: "(bytes \<times> bytes) list"
  resp_tail :: "byte option"
  resp_fault :: "bytes option"

definition resp_default :: op_response where
  "resp_default = \<lparr> resp_value = None, resp_suffixes = [], resp_hits = [], resp_tail = None,
                    resp_fault = None \<rparr>"

definition put_blob :: "bytes \<Rightarrow> bytes" where
  "put_blob b = frame_put_len (length b) @ b"

definition get_blob :: "bytes reader" where
  "get_blob = rd_bind frame_get_len rd_take"

definition put_hit :: "bytes \<times> bytes \<Rightarrow> bytes" where
  "put_hit = (\<lambda>(k, v). put_blob k @ put_blob v)"

definition get_hit :: "(bytes \<times> bytes) reader" where
  "get_hit = rd_bind get_blob (\<lambda>k. rd_bind get_blob (\<lambda>v. rd_ret (k, v)))"

definition OpResponse_encode :: "op_response \<Rightarrow> bytes" where
  "OpResponse_encode r =
     (case resp_fault r of
        Some fault \<Rightarrow> FAULT_CODE # put_blob fault
      | None \<Rightarrow>
          (case resp_value r of Some v \<Rightarrow> 1 # put_blob v | None \<Rightarrow> [0]) @
          (case resp_tail r of
             Some tail \<Rightarrow> frame_put_len (length (resp_hits r)) @ concat (map put_hit (resp_hits r)) @ [tail]
           | None \<Rightarrow> frame_put_len (length (resp_suffixes r)) @ concat (map put_blob (resp_suffixes r))))"

text \<open>The fault branch and the value branch are shared by the two decoders.\<close>

definition decode_fault :: "bytes \<Rightarrow> op_response option" where
  "decode_fault b =
     (case get_blob b of
        Some (text, []) \<Rightarrow> map_option (\<lambda>t. resp_default\<lparr> resp_fault := Some t \<rparr>) (from_utf8 text)
      | _ \<Rightarrow> None)"

definition read_value :: "byte \<Rightarrow> bytes option reader" where
  "read_value code =
     (if code = 0 then rd_ret None
      else if code = 1 then rd_bind get_blob (\<lambda>v. rd_ret (Some v))
      else (\<lambda>_. None))"

definition OpResponse_decode :: "bytes \<Rightarrow> op_response option" where
  "OpResponse_decode frame =
     (case frame of
        [] \<Rightarrow> None
      | code # b \<Rightarrow>
          if code = FAULT_CODE then decode_fault b
          else case rd_bind (read_value code) (\<lambda>val. rd_bind frame_get_len (\<lambda>count.
                 rd_bind (rd_n get_blob count) (\<lambda>sfxs. rd_ret (val, sfxs)))) b of
                 Some ((val, sfxs), []) \<Rightarrow>
                   Some (resp_default\<lparr> resp_value := val, resp_suffixes := sfxs \<rparr>)
               | _ \<Rightarrow> None)"

definition OpResponse_decode_chunk :: "bytes \<Rightarrow> op_response option" where
  "OpResponse_decode_chunk frame =
     (case frame of
        [] \<Rightarrow> None
      | code # b \<Rightarrow>
          if code = FAULT_CODE then decode_fault b
          else case rd_bind (read_value code) (\<lambda>val. rd_bind frame_get_len (\<lambda>count.
                 rd_bind (rd_n get_hit count) (\<lambda>hits. rd_bind rd_byte (\<lambda>tail. rd_ret (val, hits, tail))))) b of
                 Some ((val, hits, tail), []) \<Rightarrow>
                   if tail = TAIL_MORE \<or> tail = TAIL_FINAL
                   then Some (resp_default\<lparr> resp_value := val, resp_hits := hits, resp_tail := Some tail \<rparr>)
                   else None
               | _ \<Rightarrow> None)"

section \<open>Lengths\<close>

lemma bucket_table:
  "list_all (\<lambda>n. \<forall>s \<in> {0, 1, 2}. drop_bit 6 (push_bit 6 s OR of_nat n :: byte) = s \<and>
     unat ((push_bit 6 s OR of_nat n :: byte) AND 0x3f) = n) [0..<64]"
  by code_simp

lemma bucket_byte:
  "n < 64 \<Longrightarrow> s = 0 \<or> s = 1 \<or> s = 2 \<Longrightarrow> drop_bit 6 (push_bit 6 s OR of_nat n :: byte) = s \<and>
    unat ((push_bit 6 s OR of_nat n :: byte) AND 0x3f) = n"
  using bucket_table by (fastforce simp: list_all_iff)

lemma shift_or: "m < 2 ^ k \<Longrightarrow> push_bit k n OR m = n * 2 ^ k + (m :: nat)"
proof -
  have "push_bit k n AND take_bit k m = 0" by (rule bit_eqI) (auto simp: bit_simps)
  moreover assume "m < 2 ^ k"
  then have "take_bit k m = m" by (simp add: take_bit_nat_eq_self)
  ultimately show ?thesis by (simp add: disjunctive_add_eq_or [symmetric] push_bit_eq_mult)
qed

lemma get_put_len: "v < 2 ^ 32 \<Longrightarrow> frame_get_len (frame_put_len v @ tail) = Some (v, tail)"
proof -
  assume v: "v < 2 ^ 32"
  consider "v < 2 ^ 6" | "2 ^ 6 \<le> v" "v < 2 ^ 14" | "2 ^ 14 \<le> v" "v < 2 ^ 22" | "2 ^ 22 \<le> v" by linarith
  then show ?thesis
  proof cases
    case 1
    then have "drop_bit 6 (of_nat v :: byte) = 0" "unat ((of_nat v :: byte) AND 0x3f) = v"
      using bucket_byte [of v 0] by simp_all
    then show ?thesis using 1 by (simp add: frame_put_len_def frame_get_len_def rd_bind_def rd_ret_def)
  next
    case 2
    then have "v div 2 ^ 8 < 64" by simp
    note bucket_byte [OF this, of 1]
    then show ?thesis using 2
      by (simp add: frame_put_len_def frame_get_len_def rd_bind_def rd_ret_def shift_or)
  next
    case 3
    then have "v div 2 ^ 16 < 64" by simp
    note bucket_byte [OF this, of 2]
    then show ?thesis using 3
      by (simp add: frame_put_len_def frame_get_len_def rd_bind_def rd_ret_def shift_or be_val_be_bytes_mod)
  next
    case 4
    then show ?thesis using v
      by (simp add: frame_put_len_def frame_get_len_def rd_bind_def rd_ret_def)
  qed
qed

lemma frame_get_len_local: "rd_local frame_get_len"
  by (auto simp: frame_get_len_def Let_def intro!: rd_local_bind)

interpretation len: framed frame_put_len frame_get_len "\<lambda>v. v < 2 ^ 32"
  by unfold_locales (simp_all add: get_put_len frame_get_len_local del: One_nat_def)

section \<open>Blobs, ops and hits\<close>

abbreviation fits :: "bytes \<Rightarrow> bool" where
  "fits b \<equiv> length b < 2 ^ 32"

lemma get_put_blob: "fits b \<Longrightarrow> get_blob (put_blob b @ tail) = Some (b, tail)"
  by (simp add: get_blob_def put_blob_def rd_bind_def get_put_len)

lemma get_blob_local [intro, simp]: "rd_local get_blob"
  by (auto simp: get_blob_def frame_get_len_local intro!: rd_local_bind)

interpretation blob: framed put_blob get_blob fits
  by unfold_locales (simp_all only: get_put_blob get_blob_local)

definition hit_fits :: "bytes \<times> bytes \<Rightarrow> bool" where
  "hit_fits = (\<lambda>(k, v). fits k \<and> fits v)"

interpretation hit: framed put_hit get_hit hit_fits
proof
  show "get_hit (put_hit x @ tail) = Some (x, tail)" if "hit_fits x" for x tail
    using that by (cases x) (simp add: put_hit_def get_hit_def hit_fits_def rd_bind_def rd_ret_def get_put_blob)
  show "rd_local get_hit" by (auto simp: get_hit_def intro!: rd_local_bind)
qed

definition op_valid :: "wire_op \<Rightarrow> bool" where
  "op_valid = (\<lambda>(tag, key, val). tag \<le> OP_SCAN_STREAM \<and> fits key \<and> fits val)"

lemma tag_nibble: "tag \<le> OP_SCAN_STREAM \<Longrightarrow> drop_bit 4 (push_bit 4 tag) = tag"
proof -
  assume "tag \<le> OP_SCAN_STREAM"
  then have t: "unat tag \<le> 4" by (simp add: op_tags word_le_nat_alt)
  then have "unat (push_bit 4 tag) = unat tag * 16" by (simp add: push_bit_eq_mult unat_word_ariths)
  then show ?thesis by (simp add: word_unat_eq_iff unat_drop_bit_div)
qed

lemma get_put_op: "op_valid x \<Longrightarrow> get_op (put_op x @ tail) = Some (x, tail)"
  by (cases x) (auto simp: op_valid_def get_op_def put_op_def put_op_header_def get_op_header_def
      rd_bind_def rd_ret_def get_put_len tag_nibble)

lemma get_op_local [intro, simp]: "rd_local get_op"
  by (auto simp: get_op_def get_op_header_def frame_get_len_local intro!: rd_local_bind)

interpretation op: framed put_op get_op op_valid
  by unfold_locales (simp_all only: get_put_op get_op_local)

definition ops_valid :: "wire_op list \<Rightarrow> bool" where
  "ops_valid ops \<longleftrightarrow> length ops < 2 ^ 32 \<and> list_all op_valid ops"

lemma OpFrame_get_put: "ops_valid ops \<Longrightarrow> OpFrame_read (OpFrame_encode ops @ tail) = Some (ops, tail)"
  by (simp add: OpFrame_read_def OpFrame_encode_def rd_bind_def get_put_len ops_valid_def op.get_n_put)

interpretation opframe: framed OpFrame_encode OpFrame_read ops_valid
proof
  show "rd_local OpFrame_read"
    by (auto simp: OpFrame_read_def frame_get_len_local intro!: rd_local_bind)
qed (rule OpFrame_get_put)

section \<open>Properties\<close>

text \<open>
  C29: A request frame whose tags are known and whose lengths fit 32 bits decodes to the
  operations it was made of, and every proper front part of it is rejected: a truncated
  frame is never executed as a shorter batch.
\<close>

theorem OpFrame_roundtrip:
  assumes "length ops < 2 ^ 32"
    and "\<forall>(tag, key, val) \<in> set ops. tag \<le> OP_SCAN_STREAM \<and> length key < 2 ^ 32 \<and> length val < 2 ^ 32"
  shows "OpFrame_decode (OpFrame_encode ops) = Some ops \<and>
    (\<forall>n < length (OpFrame_encode ops). OpFrame_decode (take n (OpFrame_encode ops)) = None)"
proof -
  have valid: "ops_valid ops" using assms by (auto simp: ops_valid_def list_all_iff op_valid_def)
  then show ?thesis
    using OpFrame_get_put [of ops "[]"] opframe.get_truncated [OF valid] by (simp add: OpFrame_decode_def)
qed

theorem OpFrame_roundtrip_witness:
  "OpFrame_decode (OpFrame_encode [(OP_PUT, [1, 2], [3]), (OP_GET, [1], [])]) =
     Some [(OP_PUT, [1, 2], [3]), (OP_GET, [1], [])] \<and>
   OpFrame_decode (take 4 (OpFrame_encode [(OP_PUT, [1, 2], [3]), (OP_GET, [1], [])])) = None"
proof -
  let ?ops = "[(OP_PUT, [1, 2], [3]), (OP_GET, [1], [])]"
  have "4 < length (OpFrame_encode ?ops)" by (simp add: OpFrame_encode_def put_op_def put_op_header_def)
  then show ?thesis using OpFrame_roundtrip [of ?ops] by (simp add: op_tags)
qed

definition resp_plain :: "op_response \<Rightarrow> bool" where
  "resp_plain r \<longleftrightarrow> resp_fault r = None \<and> resp_tail r = None \<and> resp_hits r = [] \<and>
     (\<forall>v. resp_value r = Some v \<longrightarrow> fits v) \<and> length (resp_suffixes r) < 2 ^ 32 \<and>
     list_all fits (resp_suffixes r)"

definition resp_chunk :: "op_response \<Rightarrow> bool" where
  "resp_chunk r \<longleftrightarrow> resp_fault r = None \<and> resp_tail r \<in> {Some TAIL_MORE, Some TAIL_FINAL} \<and>
     resp_suffixes r = [] \<and> (\<forall>v. resp_value r = Some v \<longrightarrow> fits v) \<and>
     length (resp_hits r) < 2 ^ 32 \<and> list_all hit_fits (resp_hits r)"

lemma read_value_put:
  "(\<forall>v. val = Some v \<longrightarrow> fits v) \<Longrightarrow>
    \<exists>code b. (case val of Some v \<Rightarrow> 1 # put_blob v | None \<Rightarrow> [0]) = code # b \<and> code \<noteq> FAULT_CODE \<and>
      (\<forall>t. read_value code (b @ t) = Some (val, t))"
  by (cases val) (auto simp: read_value_def rd_ret_def rd_bind_def get_put_blob FAULT_CODE_def)

lemma decode_plain: "resp_plain r \<Longrightarrow> OpResponse_decode (OpResponse_encode r) = Some r"
  using read_value_put [of "resp_value r"] blob.get_n_put [of "resp_suffixes r" "[]"]
  by (cases r) (auto simp: resp_plain_def OpResponse_decode_def OpResponse_encode_def rd_bind_def
      rd_ret_def get_put_len resp_default_def)

lemma decode_chunk: "resp_chunk r \<Longrightarrow> OpResponse_decode_chunk (OpResponse_encode r) = Some r"
  using read_value_put [of "resp_value r"] hit.get_n_put [of "resp_hits r"]
  by (cases r) (auto simp: resp_chunk_def OpResponse_decode_chunk_def OpResponse_encode_def rd_bind_def
      rd_ret_def get_put_len resp_default_def)

lemma decode_fault_put:
  "fits f \<Longrightarrow> utf8_valid f \<Longrightarrow> resp_fault r = Some f \<Longrightarrow>
    OpResponse_decode (OpResponse_encode r) = Some (resp_default\<lparr> resp_fault := Some f \<rparr>) \<and>
    OpResponse_decode_chunk (OpResponse_encode r) = Some (resp_default\<lparr> resp_fault := Some f \<rparr>)"
  using get_put_blob [of f "[]"]
  by (simp add: OpResponse_decode_def OpResponse_decode_chunk_def OpResponse_encode_def decode_fault_def
      from_utf8_def)

text \<open>
  An answer survives the wire in the grammar of its request: a plain answer under
  \<open>decode\<close>, a stream chunk under \<open>decode_chunk\<close>, and a receiver's fault under both, where
  it arrives as a fault and never as an absent row or an empty page.
\<close>

theorem OpResponse_roundtrip:
  "(resp_plain r \<longrightarrow> OpResponse_decode (OpResponse_encode r) = Some r) \<and>
   (resp_chunk r \<longrightarrow> OpResponse_decode_chunk (OpResponse_encode r) = Some r) \<and>
   (resp_fault r = Some f \<and> fits f \<and> utf8_valid f \<longrightarrow>
      OpResponse_decode (OpResponse_encode r) = Some (resp_default\<lparr> resp_fault := Some f \<rparr>) \<and>
      OpResponse_decode_chunk (OpResponse_encode r) = Some (resp_default\<lparr> resp_fault := Some f \<rparr>))"
  using decode_plain decode_chunk decode_fault_put by blast

theorem OpResponse_roundtrip_witness:
  "OpResponse_decode (OpResponse_encode (resp_default\<lparr> resp_value := Some [1], resp_suffixes := [[2], []] \<rparr>)) =
     Some (resp_default\<lparr> resp_value := Some [1], resp_suffixes := [[2], []] \<rparr>)"
  using OpResponse_roundtrip [of "resp_default\<lparr> resp_value := Some [1], resp_suffixes := [[2], []] \<rparr>" "[]"]
  by (simp add: resp_plain_def resp_default_def)

end
