(* ===== verification/Okm_Nest.thy ===== *)
theory Okm_Nest
  imports Okm_Frame Okm_Storage
begin

text \<open>
  The remote engine: \<open>okm-core/src/engine/nest.rs\<close>. The receiver (\<open>ExecCore\<close>) executes a
  request frame on an engine under its prefix; the sender (\<open>RemoteStore\<close>) is a
  \<open>VirtualStorage\<close> made of round trips, and \<open>RemoteScanIter\<close> its paged iterator.

  The mpsc transport hands a frame over and its answer back, so a round trip runs the
  receiver on the engine state; the engine and the rendering of its errors (\<open>disp\<close>) are
  parameters. \<open>Panicked\<close> is an unwinding receiver, which the pump answers with a fault.
\<close>

section \<open>Receiver\<close>

datatype answer = Answer op_response | NoAnswer | Panicked

definition hosted_key :: "bytes option \<Rightarrow> bytes \<Rightarrow> bytes" where
  "hosted_key pfx key = (case pfx of Some p \<Rightarrow> p @ key | None \<Rightarrow> key)"

definition prefix_len :: "bytes option \<Rightarrow> nat" where
  "prefix_len pfx = (case pfx of Some p \<Rightarrow> length p | None \<Rightarrow> 0)"

text \<open>\<open>flush_pending\<close>: the fault, if any, and the state; the batch is emptied in any case.\<close>

definition flush_pending ::
    "(error \<Rightarrow> bytes) \<Rightarrow> 's storage \<Rightarrow> batch \<Rightarrow> 's \<Rightarrow> bytes option \<times> 's" where
  "flush_pending disp S ops s =
     (if ops = [] then (None, s)
      else case scommit_batch S ops s of (Inl e, s') \<Rightarrow> (Some (disp e), s') | (Inr _, s') \<Rightarrow> (None, s'))"

text \<open>Stripping \<open>n\<close> bytes off every key; a shorter key panics.\<close>

definition strip_all :: "nat \<Rightarrow> bytes list \<Rightarrow> bytes list option" where
  "strip_all n ks = (if list_all (\<lambda>k. n \<le> length k) ks then Some (map (drop n) ks) else None)"

text \<open>The scan of one \<open>OP_SCAN\<close>: bounded, begin-only, or by prefix. \<open>None\<close> is a panic.\<close>

definition exec_scan ::
    "'s storage \<Rightarrow> bytes option \<Rightarrow> bytes \<Rightarrow> bytes \<Rightarrow> 's \<Rightarrow> bytes list result option" where
  "exec_scan S pfx key val s =
     (let hk = hosted_key pfx key;
          strip = (\<lambda>r. case r of Inl e \<Rightarrow> Some (Inl e)
                               | Inr ks \<Rightarrow> map_option Inr (strip_all (prefix_len pfx) ks)) in
      case val of
        [] \<Rightarrow> Some (sscan_suffix S s hk)
      | flag # end \<Rightarrow>
          if flag = 0x00 \<and> end = [] then strip (sscan_range S s hk None)
          else if flag = 0x01 then strip (sscan_range S s hk (Some (hosted_key pfx end)))
          else Some (sscan_suffix S s hk))"

text \<open>One page: keys relative to the prefix, up to \<open>want\<close> pairs, ended by an error item.\<close>

fun collect_page ::
    "(error \<Rightarrow> bytes) \<Rightarrow> nat \<Rightarrow> nat \<Rightarrow> (bytes \<times> bytes) list \<Rightarrow> (bytes \<times> bytes) result list
      \<Rightarrow> ((bytes \<times> bytes) list \<times> bytes option) option" where
  "collect_page disp plen want pairs [] = Some (pairs, None)"
| "collect_page disp plen want pairs (Inl e # items) = Some (pairs, Some (disp e))"
| "collect_page disp plen want pairs (Inr (k, v) # items) =
     (if length k < plen then None
      else if length pairs + 1 = want then Some (pairs @ [(drop plen k, v)], None)
      else collect_page disp plen want (pairs @ [(drop plen k, v)]) items)"

definition USIZE_MAX :: nat where "USIZE_MAX = 2 ^ 64 - 1"

definition page_want :: "byte \<Rightarrow> nat" where
  "page_want page = (if page = 0xFF then USIZE_MAX else if page = 0 then 256 else unat page)"

text \<open>The bounds of a stream request: end and exclusiveness; \<open>None\<close> a refused flag.\<close>

definition stream_bounds :: "bytes option \<Rightarrow> bytes \<Rightarrow> (bytes option \<times> bool) option" where
  "stream_bounds pfx val =
     (let flag = hd val; end = butlast (tl val) in
      if flag = 0x00 then Some (None, False)
      else if flag = 0x01 then Some (Some (hosted_key pfx end), False)
      else if flag = 0x02 then Some (Some (hosted_key pfx end), True)
      else if flag = 0x03 then Some (None, True)
      else None)"

text \<open>
  One \<open>OP_SCAN_STREAM\<close> on an engine state. \<open>Answer\<close> carries the response with this page.
  A request of the bounded flags without a page byte slices \<open>[1..0]\<close> and panics.
\<close>

definition exec_stream ::
    "(error \<Rightarrow> bytes) \<Rightarrow> 's storage \<Rightarrow> bytes option \<Rightarrow> bytes \<Rightarrow> bytes \<Rightarrow> op_response \<Rightarrow> 's \<Rightarrow> answer" where
  "exec_stream disp S pfx key val resp s =
     (if val = [] then NoAnswer
      else if (hd val = 0x01 \<or> hd val = 0x02) \<and> length val = 1 then Panicked
      else case stream_bounds pfx val of
        None \<Rightarrow> NoAnswer
      | Some (end, exclusive) \<Rightarrow>
          let hk = hosted_key pfx key;
              begin_key = (if exclusive then prefix_end hk else Some hk);
              want = page_want (last val) in
          (case begin_key of
             None \<Rightarrow> Panicked
           | Some b \<Rightarrow>
               (case collect_page disp (prefix_len pfx) want [] (sscan_range_iter S s b end) of
                  None \<Rightarrow> Panicked
                | Some (pairs, fault) \<Rightarrow>
                    Answer (resp\<lparr> resp_hits := pairs,
                                  resp_tail := Some (if length pairs = want \<and> want \<noteq> USIZE_MAX
                                                     then TAIL_MORE else TAIL_FINAL),
                                  resp_fault := (case fault of Some f \<Rightarrow> Some f | None \<Rightarrow> resp_fault resp) \<rparr>))))"

fun exec_ops ::
    "(error \<Rightarrow> bytes) \<Rightarrow> 's storage \<Rightarrow> bytes option \<Rightarrow> wire_op list \<Rightarrow> batch \<Rightarrow> op_response \<Rightarrow> 's
      \<Rightarrow> answer \<times> 's" where
  "exec_ops disp S pfx [] ops resp s =
     (case scommit_batch S ops s of
        (Inl e, s') \<Rightarrow> (Answer (resp\<lparr> resp_fault := Some (disp e) \<rparr>), s')
      | (Inr _, s') \<Rightarrow> (Answer resp, s'))"
| "exec_ops disp S pfx ((tag, key, val) # frame) ops resp s =
     (if tag = OP_PUT then
        exec_ops disp S pfx frame (batch_put ops (hosted_key pfx key) val) resp s
      else if tag = OP_DELETE then
        exec_ops disp S pfx frame (batch_del ops (hosted_key pfx key)) resp s
      else if tag = OP_GET then
        (case flush_pending disp S ops s of
           (Some fault, s') \<Rightarrow> (Answer (resp\<lparr> resp_fault := Some fault \<rparr>), s')
         | (None, s') \<Rightarrow>
             (case sget S s' (hosted_key pfx key) of
                Inr v \<Rightarrow> exec_ops disp S pfx frame [] (resp\<lparr> resp_value := v \<rparr>) s'
              | Inl e \<Rightarrow> exec_ops disp S pfx frame [] (resp\<lparr> resp_fault := Some (disp e) \<rparr>) s'))
      else if tag = OP_SCAN then
        (case flush_pending disp S ops s of
           (Some fault, s') \<Rightarrow> (Answer (resp\<lparr> resp_fault := Some fault \<rparr>), s')
         | (None, s') \<Rightarrow>
             (case exec_scan S pfx key val s' of
                None \<Rightarrow> (Panicked, s')
              | Some (Inr ks) \<Rightarrow> exec_ops disp S pfx frame [] (resp\<lparr> resp_suffixes := ks \<rparr>) s'
              | Some (Inl e) \<Rightarrow>
                  exec_ops disp S pfx frame []
                    (resp\<lparr> resp_fault := Some (disp e), resp_suffixes := [] \<rparr>) s'))
      else if tag = OP_SCAN_STREAM then
        (case flush_pending disp S ops s of
           (Some fault, s') \<Rightarrow> (Answer (resp\<lparr> resp_fault := Some fault \<rparr>), s')
         | (None, s') \<Rightarrow>
             (case exec_stream disp S pfx key val resp s' of
                Answer resp' \<Rightarrow> exec_ops disp S pfx frame [] resp' s'
              | a \<Rightarrow> (a, s')))
      else (NoAnswer, s))"

definition ExecCore_apply ::
    "(error \<Rightarrow> bytes) \<Rightarrow> 's storage \<Rightarrow> bytes option \<Rightarrow> bytes \<Rightarrow> 's \<Rightarrow> answer \<times> 's" where
  "ExecCore_apply disp S pfx frame s =
     (case OpFrame_decode frame of
        None \<Rightarrow> (NoAnswer, s)
      | Some ops \<Rightarrow> exec_ops disp S pfx ops [] resp_default s)"

section \<open>Sender\<close>

definition text_of :: "bytes \<Rightarrow> string" where
  "text_of b = map (\<lambda>x. char_of (unat x)) b"

definition PANIC_FAULT :: string where
  "PANIC_FAULT = ''nest: the host panicked while applying the frame''"

definition REPLY_MISSING :: string where
  "REPLY_MISSING = ''nest reply missing: receiving on a closed channel''"

definition round_trip ::
    "(error \<Rightarrow> bytes) \<Rightarrow> 's storage \<Rightarrow> bytes option \<Rightarrow> wire_op list \<Rightarrow> ('s, op_response) io" where
  "round_trip disp S pfx frame s =
     (case ExecCore_apply disp S pfx (OpFrame_encode frame) s of
        (NoAnswer, s') \<Rightarrow> (Inl (Engine REPLY_MISSING), s')
      | (Panicked, s') \<Rightarrow> (Inl (Engine PANIC_FAULT), s')
      | (Answer resp, s') \<Rightarrow>
          (case resp_fault resp of
             Some fault \<Rightarrow> (Inl (Engine (text_of fault)), s')
           | None \<Rightarrow> (Inr resp, s')))"

definition ack :: "('s, op_response) io \<Rightarrow> ('s, unit) io" where
  "ack m = iobind m (\<lambda>_. ioret ())"

definition RemoteStore_put where
  "RemoteStore_put disp S pfx key val = ack (round_trip disp S pfx [(OP_PUT, key, val)])"

definition RemoteStore_get where
  "RemoteStore_get disp S pfx s key =
     rbind (fst (round_trip disp S pfx [(OP_GET, key, [])] s)) (\<lambda>resp. Inr (resp_value resp))"

definition RemoteStore_del where
  "RemoteStore_del disp S pfx key = ack (round_trip disp S pfx [(OP_DELETE, key, [])])"

definition RemoteStore_scan_suffix where
  "RemoteStore_scan_suffix disp S pfx s p =
     rbind (fst (round_trip disp S pfx [(OP_SCAN, p, [])] s)) (\<lambda>resp. Inr (resp_suffixes resp))"

definition range_value :: "bytes option \<Rightarrow> bytes" where
  "range_value end = (case end of Some e \<Rightarrow> 1 # e | None \<Rightarrow> [0])"

definition RemoteStore_scan_range where
  "RemoteStore_scan_range disp S pfx s b end =
     rbind (fst (round_trip disp S pfx [(OP_SCAN, b, range_value end)] s))
       (\<lambda>resp. Inr (resp_suffixes resp))"

definition RemoteStore_commit_batch where
  "RemoteStore_commit_batch disp S pfx ops = ack (round_trip disp S pfx (write_batch ops))"

section \<open>The paged iterator\<close>

definition stream_value :: "bytes option \<Rightarrow> bool \<Rightarrow> byte \<Rightarrow> bytes" where
  "stream_value end exclusive page =
     (case (exclusive, end) of
        (True, Some e) \<Rightarrow> 2 # e | (True, None) \<Rightarrow> [3] | (False, Some e) \<Rightarrow> 1 # e | (False, None) \<Rightarrow> [0])
     @ [page]"

definition stream_page where
  "stream_page disp S pfx b end exclusive page s =
     fst (round_trip disp S pfx [(OP_SCAN_STREAM, b, stream_value end exclusive page)] s)"

record remote_iter =
  ri_begin :: bytes
  ri_end :: "bytes option"
  ri_page :: byte
  ri_buf :: "(bytes \<times> bytes) list"
  ri_cursor :: "bytes option"
  ri_done :: bool

definition RemoteStore_scan_range_iter :: "bytes \<Rightarrow> bytes option \<Rightarrow> remote_iter" where
  "RemoteStore_scan_range_iter b end =
     \<lparr> ri_begin = b, ri_end = end, ri_page = 0, ri_buf = [], ri_cursor = None, ri_done = False \<rparr>"

definition refill where
  "refill disp S pfx s it =
     (if ri_done it then (Inr (), it)
      else
        let (exclusive, b) = (case ri_cursor it of Some l \<Rightarrow> (True, l) | None \<Rightarrow> (False, ri_begin it));
            it' = (case ri_cursor it of Some _ \<Rightarrow> it\<lparr> ri_cursor := None \<rparr> | None \<Rightarrow> it\<lparr> ri_begin := [] \<rparr>) in
        (case stream_page disp S pfx b (ri_end it) exclusive (ri_page it) s of
           Inl e \<Rightarrow> (Inl e, it')
         | Inr resp \<Rightarrow>
             (Inr (), it'\<lparr> ri_done := resp_tail resp \<noteq> Some TAIL_MORE,
                           ri_buf := ri_buf it' @ resp_hits resp \<rparr>)))"

definition consume_front :: "remote_iter \<Rightarrow> (bytes \<times> bytes) option \<times> remote_iter" where
  "consume_front it =
     (case ri_buf it of
        [] \<Rightarrow> (None, it)
      | x # xs \<Rightarrow> (Some x, it\<lparr> ri_buf := xs, ri_cursor := Some (fst x) \<rparr>))"

text \<open>
  \<open>next\<close>: the loop refills until there is an item or the walk is done. A page answers items
  or ends the walk, so two rounds of fuel are enough (\<open>refill_progress\<close>).
\<close>

fun fill_loop where
  "fill_loop disp S pfx s 0 it = (Inr (), it)"
| "fill_loop disp S pfx s (Suc fuel) it =
     (if ri_buf it = [] \<and> \<not> ri_done it then
        (case refill disp S pfx s it of
           (Inl e, it') \<Rightarrow> (Inl e, it'\<lparr> ri_done := True \<rparr>)
         | (Inr _, it') \<Rightarrow> fill_loop disp S pfx s fuel it')
      else (Inr (), it))"

definition remote_next where
  "remote_next disp S pfx s it =
     (case fill_loop disp S pfx s 2 it of
        (Inl e, it') \<Rightarrow> (Some (Inl e), it')
      | (Inr _, it') \<Rightarrow> map_prod (map_option Inr) id (consume_front it'))"

definition consume_back :: "remote_iter \<Rightarrow> (bytes \<times> bytes) option \<times> remote_iter" where
  "consume_back it =
     (if ri_buf it = [] then (None, it)
      else (Some (last (ri_buf it)),
            it\<lparr> ri_buf := butlast (ri_buf it), ri_cursor := Some (fst (last (ri_buf it))) \<rparr>))"

definition remote_next_back where
  "remote_next_back disp S pfx s it =
     (case fill_loop disp S pfx s 2 it of
        (Inl e, it') \<Rightarrow> (Some (Inl e), it')
      | (Inr _, it') \<Rightarrow> map_prod (map_option Inr) id (consume_back it'))"

section \<open>Frames of point operations\<close>

text \<open>What a frame of puts, deletes and gets means on a map: the map after it, the last answer.\<close>

fun spec_ops ::
    "bytes option \<Rightarrow> wire_op list \<Rightarrow> (bytes \<rightharpoonup> bytes) \<Rightarrow> bytes option \<Rightarrow> (bytes \<rightharpoonup> bytes) \<times> bytes option" where
  "spec_ops pfx [] m v = (m, v)"
| "spec_ops pfx ((tag, key, val) # frame) m v =
     (if tag = OP_PUT then spec_ops pfx frame (m(hosted_key pfx key \<mapsto> val)) v
      else if tag = OP_DELETE then spec_ops pfx frame (m(hosted_key pfx key := None)) v
      else spec_ops pfx frame m (m (hosted_key pfx key)))"

definition point_op :: "wire_op \<Rightarrow> bool" where
  "point_op op \<longleftrightarrow> fst op \<in> {OP_PUT, OP_DELETE, OP_GET}"

lemma hosted_key_inject [simp]: "hosted_key pfx a = hosted_key pfx b \<longleftrightarrow> a = b"
  by (cases pfx) (simp_all add: hosted_key_def)

lemma resp_value_same [simp]: "r\<lparr> resp_value := resp_value r \<rparr> = r"
  by simp

context kv_point
begin

lemma flush_ok:
  assumes "ok s"
  shows "\<exists>s'. flush_pending disp S ops s = (None, s') \<and> ok s' \<and> \<alpha> s' = apply_ops ops (\<alpha> s)"
  using assms commit_ok [OF assms, of ops] by (auto simp: flush_pending_def)

lemma exec_ops_point:
  assumes "ok s" "list_all point_op frame"
  shows "\<exists>s'. exec_ops disp S pfx frame ops resp s =
      (Answer (resp\<lparr> resp_value := snd (spec_ops pfx frame (apply_ops ops (\<alpha> s)) (resp_value resp)) \<rparr>), s') \<and>
    ok s' \<and> \<alpha> s' = fst (spec_ops pfx frame (apply_ops ops (\<alpha> s)) (resp_value resp))"
  using assms
proof (induction frame arbitrary: ops resp s)
  case Nil
  then show ?case using commit_ok [OF Nil(1), of ops] by auto
next
  case (Cons op frame)
  obtain tag key val where op: "op = (tag, key, val)" by (cases op) auto
  have rest: "list_all point_op frame" using Cons.prems by simp
  consider "tag = OP_PUT" | "tag = OP_DELETE" | "tag = OP_GET" "tag \<noteq> OP_PUT" "tag \<noteq> OP_DELETE"
    using Cons.prems op by (auto simp: point_op_def op_tags)
  then show ?case
  proof cases
    case 1
    then show ?thesis using Cons.IH [OF Cons.prems(1) rest, of "batch_put ops (hosted_key pfx key) val" resp] op
      by (simp add: fun_upd_def)
  next
    case 2
    then show ?thesis using Cons.IH [OF Cons.prems(1) rest, of "batch_del ops (hosted_key pfx key)" resp] op
      by (simp add: op_tags fun_upd_def)
  next
    case 3
    obtain s1 where s1: "flush_pending disp S ops s = (None, s1)" "ok s1" "\<alpha> s1 = apply_ops ops (\<alpha> s)"
      using flush_ok [OF Cons.prems(1)] by blast
    then show ?thesis
      using Cons.IH [OF s1(2) rest, of "[]" "resp\<lparr> resp_value := \<alpha> s1 (hosted_key pfx key) \<rparr>"] 3 op
      by (simp add: get_ok)
  qed
qed

lemma apply_point:
  assumes "ok s" "list_all point_op frame" "ops_valid frame"
  shows "\<exists>s'. ExecCore_apply disp S pfx (OpFrame_encode frame) s =
      (Answer (resp_default\<lparr> resp_value := snd (spec_ops pfx frame (\<alpha> s) None) \<rparr>), s') \<and>
    ok s' \<and> \<alpha> s' = fst (spec_ops pfx frame (\<alpha> s) None)"
  using exec_ops_point [OF assms(1,2), of disp pfx "[]" resp_default] OpFrame_get_put [OF assms(3), of "[]"]
  by (simp add: ExecCore_apply_def OpFrame_decode_def resp_default_def)

lemma round_trip_point:
  assumes "ok s" "list_all point_op frame" "ops_valid frame"
  shows "\<exists>s'. round_trip disp S pfx frame s =
      (Inr (resp_default\<lparr> resp_value := snd (spec_ops pfx frame (\<alpha> s) None) \<rparr>), s') \<and>
    ok s' \<and> \<alpha> s' = fst (spec_ops pfx frame (\<alpha> s) None)"
  using apply_point [OF assms, of disp pfx] by (auto simp: round_trip_def resp_default_def)

end

lemma spec_write_batch:
  "fst (spec_ops pfx (write_batch ops) m v) = apply_ops (map (\<lambda>(k, v). (hosted_key pfx k, v)) ops) m"
proof (induction ops arbitrary: m)
  case (Cons op ops)
  then show ?case by (cases op; cases "snd op") (auto simp: write_batch_def op_tags)
qed (simp add: write_batch_def)

definition batch_fits :: "batch \<Rightarrow> bool" where
  "batch_fits ops \<longleftrightarrow> length ops < 2 ^ 32 \<and>
     (\<forall>(k, v) \<in> set ops. length k < 2 ^ 32 \<and> (\<forall>b. v = Some b \<longrightarrow> length b < 2 ^ 32))"

lemma write_batch_valid: "batch_fits ops \<Longrightarrow> ops_valid (write_batch ops) \<and> list_all point_op (write_batch ops)"
  by (auto simp: batch_fits_def ops_valid_def write_batch_def list_all_iff op_valid_def point_op_def op_tags
      split: option.splits)

lemma apply_ops_map_inj:
  "inj f \<Longrightarrow> apply_ops (map (\<lambda>(k, v). (f k, v)) ops) m (f k) = apply_ops ops (\<lambda>k. m (f k)) k"
proof (induction ops arbitrary: m)
  case (Cons op ops)
  obtain k0 v where op: "op = (k0, v)" by (cases op)
  have "(\<lambda>x. (m(f k0 := v)) (f x)) = (\<lambda>x. m (f x))(k0 := v)"
    using Cons.prems by (auto simp: inj_def fun_eq_iff)
  then show ?case using Cons.IH [OF Cons.prems, of "m(f k0 := v)"] op by (simp add: fun_upd_def)
qed simp

lemma apply_ops_other: "k \<notin> fst ` set ops \<Longrightarrow> apply_ops ops m k = m k"
  by (induction ops arbitrary: m) auto

lemma inj_hosted_key: "inj (hosted_key pfx)"
  by (simp add: inj_def)

section \<open>Properties\<close>

text \<open>
  C25: One frame of puts, deletes and gets on an answering engine answers exactly once,
  without a fault, and means its operations in order under the host's prefix: a get sees
  the frame's own earlier writes, and the engine ends in the state the writes lead to.
\<close>

theorem apply_frame_spec:
  assumes "kv_point S ok \<alpha>" "ok s" "length frame < 2 ^ 32"
    and "\<forall>(tag, key, val) \<in> set frame. tag \<in> {OP_PUT, OP_DELETE, OP_GET} \<and> length key < 2 ^ 32 \<and> length val < 2 ^ 32"
  shows "\<exists>s'. ExecCore_apply disp S pfx (OpFrame_encode frame) s =
      (Answer (resp_default\<lparr> resp_value := snd (spec_ops pfx frame (\<alpha> s) None) \<rparr>), s') \<and>
    ok s' \<and> \<alpha> s' = fst (spec_ops pfx frame (\<alpha> s) None)"
proof (rule kv_point.apply_point [OF assms(1,2)])
  show "list_all point_op frame" using assms(4) by (auto simp: list_all_iff point_op_def)
  show "ops_valid frame" using assms(3,4) by (fastforce simp: ops_valid_def list_all_iff op_valid_def op_tags)
qed

theorem apply_frame_spec_witness:
  "\<exists>s'. ExecCore_apply (\<lambda>e. []) mem_storage (Some [7])
      (OpFrame_encode [(OP_PUT, [1], [5]), (OP_DELETE, [1], []), (OP_PUT, [1], [6]), (OP_GET, [1], [])]) [] =
      (Answer (resp_default\<lparr> resp_value := Some [6] \<rparr>), s') \<and>
    mem_inv s' \<and> map_of s' = [[7, 1] \<mapsto> [6]]"
  using apply_frame_spec [OF mem.kv_point_axioms, of "[]"
      "[(OP_PUT, [1], [5]), (OP_DELETE, [1], []), (OP_PUT, [1], [6]), (OP_GET, [1], [])]" "\<lambda>e. []" "Some [7]"]
  by (simp add: mem_inv_def hosted_key_def op_tags)

text \<open>
  C26: The batches and the point reads of \<open>RemoteStore\<close> are those of the hosted engine seen through its
  prefix: for a batch of fewer than 2^32 operations on keys and values shorter than 2^32 bytes, the
  commit and a \<open>get\<close> behind it behave as on a map of the sender's keys, and no key outside the prefix
  changes. (Scans are not covered: \<open>hosted_scan_escapes\<close> shows one that leaves the prefix.)
\<close>

theorem remote_store_refines:
  assumes "kv_point S ok \<alpha>" "ok s" "batch_fits ops"
  shows "\<exists>s'. RemoteStore_commit_batch disp S pfx ops s = (Inr (), s') \<and> ok s' \<and>
      (\<forall>k. \<alpha> s' (hosted_key pfx k) = apply_ops ops (\<lambda>k. \<alpha> s (hosted_key pfx k)) k) \<and>
      (\<forall>k. k \<notin> range (hosted_key pfx) \<longrightarrow> \<alpha> s' k = \<alpha> s k) \<and>
      (\<forall>k. length k < 2 ^ 32 \<longrightarrow> RemoteStore_get disp S pfx s' k = Inr (\<alpha> s' (hosted_key pfx k)))"
proof -
  have v: "ops_valid (write_batch ops)" "list_all point_op (write_batch ops)"
    using write_batch_valid [OF assms(3)] by auto
  obtain s1 r where s1: "round_trip disp S pfx (write_batch ops) s = (Inr r, s1)" "ok s1"
    "\<alpha> s1 = apply_ops (map (\<lambda>(k, v). (hosted_key pfx k, v)) ops) (\<alpha> s)"
    using kv_point.round_trip_point [OF assms(1,2) v(2,1), of disp pfx] by (auto simp: spec_write_batch)
  have get: "RemoteStore_get disp S pfx s1 k = Inr (\<alpha> s1 (hosted_key pfx k))" if "length k < 2 ^ 32" for k
  proof -
    have k: "list_all point_op [(OP_GET, k, [])]" "ops_valid [(OP_GET, k, [])]"
      using that by (simp_all add: ops_valid_def op_valid_def op_tags point_op_def)
    have "snd (spec_ops pfx [(OP_GET, k, [])] (\<alpha> s1) None) = \<alpha> s1 (hosted_key pfx k)" by (simp add: op_tags)
    then show ?thesis
      using kv_point.round_trip_point [OF assms(1) s1(2) k, of disp pfx] by (auto simp: RemoteStore_get_def)
  qed
  have "\<alpha> s1 k = \<alpha> s k" if "k \<notin> range (hosted_key pfx)" for k
    unfolding s1(3) by (rule apply_ops_other) (use that in auto)
  then show ?thesis
    using s1 get by (intro exI [of _ s1])
      (simp add: RemoteStore_commit_batch_def ack_def iobind_def apply_ops_map_inj [OF inj_hosted_key])
qed

theorem remote_store_refines_witness:
  "\<exists>s'. RemoteStore_commit_batch (\<lambda>e. []) mem_storage (Some [7]) [([1], Some [5])] [([9], [8])] = (Inr (), s') \<and>
     map_of s' [7, 1] = Some [5] \<and> map_of s' [9] = Some [8]"
proof -
  obtain s' where s': "RemoteStore_commit_batch (\<lambda>e. []) mem_storage (Some [7]) [([1], Some [5])] [([9], [8])] = (Inr (), s')"
    "\<And>k. map_of s' (hosted_key (Some [7]) k) =
      apply_ops [([1], Some [5])] (\<lambda>k. map_of [([9], [8])] (hosted_key (Some [7]) k)) k"
    "\<And>k. k \<notin> range (hosted_key (Some [7])) \<Longrightarrow> map_of s' k = map_of [([9], [8])] k"
    using remote_store_refines [OF mem.kv_point_axioms, of "[([9], [8])]" "[([1], Some [5])]" "\<lambda>e. []" "Some [7]"]
    by (auto simp: mem_inv_def batch_fits_def)
  have "[9] \<notin> range (hosted_key (Some [7]))" by (auto simp: hosted_key_def)
  then show ?thesis using s'(1) s'(2) [of "[1]"] s'(3) [of "[9]"] by (simp add: hosted_key_def)
qed

lemma exec_writes:
  "exec_ops disp S pfx (write_batch ops) b resp s =
    exec_ops disp S pfx [] (b @ map (\<lambda>(k, v). (hosted_key pfx k, v)) ops) resp s"
proof (induction ops arbitrary: b)
  case (Cons op ops)
  obtain k v where op: "op = (k, v)" by (cases op)
  have w: "write_batch (op # ops) = (case v of Some x \<Rightarrow> (OP_PUT, k, x) | None \<Rightarrow> (OP_DELETE, k, [])) # write_batch ops"
    by (simp add: write_batch_def op)
  show ?case unfolding w
    by (cases v) (simp_all add: op op_tags batch_put_def batch_del_def Cons [unfolded exec_ops.simps(1)])
qed (simp add: write_batch_def)

text \<open>
  A frame of writes alone makes exactly one engine write, of the whole batch under the
  prefix, on any engine; when the engine refuses it the sender's commit reports that error
  as its own and never as success.
\<close>

theorem write_frame_one_commit:
  assumes "batch_fits ops"
  shows "RemoteStore_commit_batch disp S pfx ops s =
    (case scommit_batch S (map (\<lambda>(k, v). (hosted_key pfx k, v)) ops) s of
       (Inl e, s') \<Rightarrow> (Inl (Engine (text_of (disp e))), s')
     | (Inr _, s') \<Rightarrow> (Inr (), s'))"
proof -
  have "OpFrame_decode (OpFrame_encode (write_batch ops)) = Some (write_batch ops)"
    using write_batch_valid [OF assms] OpFrame_get_put [of "write_batch ops" "[]"] by (simp add: OpFrame_decode_def)
  then show ?thesis
    by (auto simp: RemoteStore_commit_batch_def ack_def iobind_def round_trip_def ExecCore_apply_def
        exec_writes resp_default_def split: sum.splits prod.splits)
qed

theorem write_frame_one_commit_witness:
  "RemoteStore_commit_batch (\<lambda>e. []) (mem_storage\<lparr> scommit_batch := (\<lambda>ops s. (Inl ScanThroughBatch, s)) \<rparr>)
     None [([1], Some [2])] [] = (Inl (Engine []), [])"
  using write_frame_one_commit [of "[([1], Some [2])]" "\<lambda>e. []"
      "mem_storage\<lparr> scommit_batch := (\<lambda>ops s. (Inl ScanThroughBatch, s)) \<rparr>" None "[]"]
  by (simp add: batch_fits_def text_of_def)

section \<open>Pages\<close>

lemma collect_page_ok:
  "length pairs < want \<Longrightarrow> \<forall>k \<in> set ks. plen \<le> length k \<Longrightarrow>
    collect_page disp plen want pairs (map (\<lambda>k. Inr (k, f k)) ks) =
      Some (pairs @ map (\<lambda>k. (drop plen k, f k)) (take (want - length pairs) ks), None)"
proof (induction ks arbitrary: pairs)
  case (Cons k ks)
  show ?case
  proof (cases "length pairs + 1 = want")
    case True
    then have "want - length pairs = 1" by simp
    then show ?thesis using True Cons.prems by (simp add: not_less)
  next
    case False
    then have "want - length pairs = Suc (want - length (pairs @ [(drop plen k, f k)]))"
      using Cons.prems(1) by simp
    then show ?thesis using False Cons by (simp add: not_less)
  qed
qed simp

lemma page_want_pos: "0 < page_want page"
  by (auto simp: page_want_def USIZE_MAX_def unat_gt_0)

context kv_scan
begin

lemma exec_stream_ok:
  assumes "ok s" "val \<noteq> []" "\<not> ((hd val = 0x01 \<or> hd val = 0x02) \<and> length val = 1)"
    and "stream_bounds pfx val = Some (e, exclusive)"
    and "(if exclusive then prefix_end (hosted_key pfx key) else Some (hosted_key pfx key)) = Some b"
    and "\<forall>k \<in> set (keys_in (\<alpha> s) b e). prefix_len pfx \<le> length k"
  shows "exec_stream disp S pfx key val resp s =
    Answer (resp\<lparr> resp_hits := map (\<lambda>k. (drop (prefix_len pfx) k, the (\<alpha> s k)))
                     (take (page_want (last val)) (keys_in (\<alpha> s) b e)),
       resp_tail := Some (if page_want (last val) \<le> length (keys_in (\<alpha> s) b e) \<and> page_want (last val) \<noteq> USIZE_MAX
                          then TAIL_MORE else TAIL_FINAL) \<rparr>)"
proof -
  have "collect_page disp (prefix_len pfx) (page_want (last val)) [] (sscan_range_iter S s b e) =
    Some (map (\<lambda>k. (drop (prefix_len pfx) k, the (\<alpha> s k))) (take (page_want (last val)) (keys_in (\<alpha> s) b e)), None)"
    using collect_page_ok [of "[]" "page_want (last val)" "keys_in (\<alpha> s) b e" "prefix_len pfx" disp "\<lambda>k. the (\<alpha> s k)"]
      assms(6) page_want_pos by (simp add: scan_iter_ok [OF assms(1)])
  then show ?thesis using assms(2-5)
    by (auto simp: exec_stream_def Let_def min_def)
qed

lemma resume_key_bound:
  assumes "ok s" "prefix_end c = Some b" "k \<in> set (keys_in (\<alpha> s) b e)"
  shows "\<not> prefix c k"
proof
  assume "prefix c k"
  then have "k < b" using prefix_in_range [of c k] assms(2) by (simp add: in_range_def)
  then show False using assms(3) finite_dom [OF assms(1)] by (auto simp: in_range_def)
qed

end

lemma exec_stream_more:
  "exec_stream disp S pfx key val resp s = Answer r \<Longrightarrow> resp_tail r = Some TAIL_MORE \<Longrightarrow> resp_hits r \<noteq> []"
  using page_want_pos [of "last val"]
  by (auto simp: exec_stream_def Let_def TAIL_MORE_def TAIL_FINAL_def split: if_splits option.splits)

lemma stream_page_more:
  assumes "stream_page disp S pfx b e exclusive page s = Inr r" "fits b" "\<forall>x. e = Some x \<longrightarrow> length x + 2 < 2 ^ 32"
    and "resp_tail r = Some TAIL_MORE"
  shows "resp_hits r \<noteq> []"
proof -
  have "fits (stream_value e exclusive page)"
    using assms(3) by (auto simp: stream_value_def split: option.splits bool.splits)
  then have "ops_valid [(OP_SCAN_STREAM, b, stream_value e exclusive page)]"
    using assms(2) by (simp add: ops_valid_def op_valid_def)
  from OpFrame_get_put [OF this, of "[]"]
  have "OpFrame_decode (OpFrame_encode [(OP_SCAN_STREAM, b, stream_value e exclusive page)]) =
    Some [(OP_SCAN_STREAM, b, stream_value e exclusive page)]" by (simp add: OpFrame_decode_def)
  then show ?thesis using assms(1,4) exec_stream_more [of disp S pfx b "stream_value e exclusive page" resp_default s]
    by (auto simp: stream_page_def round_trip_def ExecCore_apply_def op_tags flush_pending_def
        split: answer.splits sum.splits prod.splits option.splits)
qed

definition iter_fits :: "remote_iter \<Rightarrow> bool" where
  "iter_fits it \<longleftrightarrow> fits (ri_begin it) \<and> (\<forall>x. ri_end it = Some x \<longrightarrow> length x + 2 < 2 ^ 32) \<and>
     (\<forall>x. ri_cursor it = Some x \<longrightarrow> fits x)"

lemma refill_progress:
  assumes "refill disp S pfx s it = (Inr (), it')" "iter_fits it"
  shows "ri_done it' \<or> ri_buf it' \<noteq> []"
proof (cases "ri_cursor it")
  case None
  then show ?thesis using assms stream_page_more [of disp S pfx "ri_begin it" "ri_end it" False "ri_page it" s]
    by (auto simp: refill_def iter_fits_def Let_def split: if_splits sum.splits)
next
  case (Some l)
  then show ?thesis using assms stream_page_more [of disp S pfx l "ri_end it" True "ri_page it" s]
    by (auto simp: refill_def iter_fits_def Let_def split: if_splits sum.splits)
qed

lemma fill_loop_enough:
  assumes "fill_loop disp S pfx s 2 it = (Inr (), it')" "iter_fits it"
  shows "ri_buf it' \<noteq> [] \<or> ri_done it'"
  using assms refill_progress [of disp S pfx s it]
  by (auto simp: numeral_2_eq_2 split: if_splits prod.splits sum.splits)

text \<open>
  A page request answers the first \<open>want\<close> pairs of its range in key order, relative to
  the prefix, and says that more follow exactly when the page is full.
\<close>

theorem stream_first_page:
  assumes "kv_scan S ok \<alpha>" "ok s"
    and "\<forall>k \<in> set (keys_in (\<alpha> s) (hosted_key pfx key) (Some (hosted_key pfx e))). prefix_len pfx \<le> length k"
  shows "exec_stream disp S pfx key (stream_value (Some e) False page) resp s =
    Answer (resp\<lparr> resp_hits := map (\<lambda>k. (drop (prefix_len pfx) k, the (\<alpha> s k)))
        (take (page_want page) (keys_in (\<alpha> s) (hosted_key pfx key) (Some (hosted_key pfx e)))),
       resp_tail := Some (if page_want page \<le> length (keys_in (\<alpha> s) (hosted_key pfx key) (Some (hosted_key pfx e)))
          \<and> page_want page \<noteq> USIZE_MAX then TAIL_MORE else TAIL_FINAL) \<rparr>)"
proof -
  have "stream_bounds pfx (stream_value (Some e) False page) = Some (Some (hosted_key pfx e), False)"
    by (simp add: stream_bounds_def stream_value_def butlast_append)
  then show ?thesis
    using kv_scan.exec_stream_ok [OF assms(1,2) _ _ _ _ assms(3), where exclusive = False
        and val = "stream_value (Some e) False page" and disp = disp and resp = resp]
    by (simp add: stream_value_def)
qed

theorem stream_first_page_witness:
  "exec_stream (\<lambda>e. []) mem_storage (Some [7]) [1] (stream_value (Some [9]) False 1) resp_default
     [([7, 1], [10]), ([7, 2], [20])] =
   Answer (resp_default\<lparr> resp_hits := [([1], [10])], resp_tail := Some TAIL_MORE \<rparr>)"
proof -
  have "keys_in (map_of [([7, 1], [10]), ([7, 2], [20])]) [7, 1] (Some [7, 9]) = [[7, 1], [7, 2]]"
    by (subst keys_in_map_of) (simp_all add: in_range_def)
  then show ?thesis
    using stream_first_page [OF mem_storage_kv_scan, of "[([7, 1], [10]), ([7, 2], [20])]" "Some [7]" "[1]" "[9]" "\<lambda>e. []" 1 resp_default]
    by (simp add: mem_inv_def hosted_key_def prefix_len_def page_want_def USIZE_MAX_def)
qed

text \<open>
  The resume of a paged scan increments the cursor as \<open>prefix_end\<close> does, so it jumps
  over every key that extends the cursor: such keys never appear on the following page.
\<close>

theorem stream_resume_skips:
  assumes "kv_scan S ok \<alpha>" "ok s" "prefix_end c = Some b"
  shows "\<exists>r. exec_stream disp S None c (stream_value None True page) resp s = Answer r \<and>
    resp_hits r = map (\<lambda>k. (k, the (\<alpha> s k))) (take (page_want page) (keys_in (\<alpha> s) b None)) \<and>
    (\<forall>(k, v) \<in> set (resp_hits r). \<not> prefix c k)"
proof -
  have "stream_bounds None (stream_value None True page) = Some (None, True)"
    by (simp add: stream_bounds_def stream_value_def)
  then have "exec_stream disp S None c (stream_value None True page) resp s =
    Answer (resp\<lparr> resp_hits := map (\<lambda>k. (k, the (\<alpha> s k))) (take (page_want page) (keys_in (\<alpha> s) b None)),
       resp_tail := Some (if page_want page \<le> length (keys_in (\<alpha> s) b None) \<and> page_want page \<noteq> USIZE_MAX
                          then TAIL_MORE else TAIL_FINAL) \<rparr>)"
    using kv_scan.exec_stream_ok [OF assms(1,2), of "stream_value None True page" None None True c b disp resp] assms(3)
    by (simp add: stream_value_def hosted_key_def prefix_len_def)
  then show ?thesis
    using kv_scan.resume_key_bound [OF assms, of _ None] by (auto dest: in_set_takeD)
qed

theorem stream_resume_skips_witness:
  "\<exists>r. exec_stream (\<lambda>e. []) mem_storage None [1] (stream_value None True 1) resp_default
     [([1], [10]), ([1, 5], [15]), ([2], [20])] = Answer r \<and> resp_hits r = [([2], [20])]"
proof -
  have "keys_in (map_of [([1], [10]), ([1, 5], [15]), ([2], [20])]) [2] None = [[2]]"
    by (subst keys_in_map_of) (simp_all add: in_range_def)
  moreover have "prefix_end [1] = Some [2]" by (simp add: prefix_end_def)
  ultimately show ?thesis
    using stream_resume_skips [OF mem_storage_kv_scan, of "[([1], [10]), ([1, 5], [15]), ([2], [20])]" "[1]" "[2]" "\<lambda>e. []" 1 resp_default]
    by (auto simp: mem_inv_def page_want_def)
qed

text \<open>
  A begin-only scan on a hosted engine is not confined to the host's prefix: it answers
  every key from the begin on, another tenant's included, with its first bytes cut off.
\<close>

theorem hosted_scan_escapes:
  assumes "kv_scan S ok \<alpha>" "ok s" "k \<in> dom (\<alpha> s)" "p @ key \<le> k"
    and "\<forall>k \<in> dom (\<alpha> s). length p \<le> length k"
  shows "\<exists>ks. exec_scan S (Some p) key (range_value None) s = Some (Inr ks) \<and> drop (length p) k \<in> set ks"
  using assms kv_scan.scan_range_ok [OF assms(1,2), of "p @ key" None] kv_scan.finite_dom [OF assms(1,2)]
  by (auto simp: exec_scan_def range_value_def hosted_key_def prefix_len_def strip_all_def list_all_iff in_range_def)

theorem hosted_scan_escapes_witness:
  "\<exists>ks. exec_scan mem_storage (Some [0, 1]) [] (range_value None) [([0, 1, 5], []), ([0, 2, 6], [])] = Some (Inr ks) \<and>
     [6] \<in> set ks \<and> \<not> prefix [0, 1] [0, 2, 6 :: byte]"
  using hosted_scan_escapes [OF mem_storage_kv_scan, of "[([0, 1, 5], []), ([0, 2, 6], [])]" "[0, 2, 6]" "[0, 1]" "[]"]
  by (auto simp: mem_inv_def split: if_splits)

end
