(* ===== verification/Okm_Nest_Iter.thy ===== *)
theory Okm_Nest_Iter
  imports Okm_Nest
begin

text \<open>
  The paged iterator of a remote store (\<open>RemoteScanIter\<close> of \<open>okm-core/src/engine/nest.rs\<close>) over its
  whole life: drained forwards it answers its range, page by page; drained backwards it does not.
\<close>

section \<open>One page over the wire\<close>

abbreviation hosted_end :: "bytes option \<Rightarrow> bytes option \<Rightarrow> bytes option" where
  "hosted_end pfx e \<equiv> map_option (hosted_key pfx) e"

definition served :: "bytes option \<Rightarrow> (bytes \<rightharpoonup> bytes) \<Rightarrow> bytes \<Rightarrow> bytes \<times> bytes" where
  "served pfx m k = (drop (prefix_len pfx) k, the (m k))"

lemma stream_value_bounds:
  "stream_bounds pfx (stream_value e exclusive page) = Some (hosted_end pfx e, exclusive)"
  "stream_value e exclusive page \<noteq> []" "last (stream_value e exclusive page) = page"
  "\<not> ((hd (stream_value e exclusive page) = 0x01 \<or> hd (stream_value e exclusive page) = 0x02) \<and> length (stream_value e exclusive page) = 1)"
  by (auto simp: stream_bounds_def stream_value_def butlast_append split: option.splits bool.splits)

lemma stream_page_ok:
  assumes kv: "kv_scan S ok \<alpha>" and s: "ok s" and b: "fits b" and e: "\<forall>x. e = Some x \<longrightarrow> length x + 2 < 2 ^ 32"
    and lower: "(if exclusive then prefix_end (hosted_key pfx b) else Some (hosted_key pfx b)) = Some bb"
    and K: "keys_in (\<alpha> s) bb (hosted_end pfx e) = K" "\<forall>k \<in> set K. prefix_len pfx \<le> length k"
  shows "stream_page disp S pfx b e exclusive page s =
    Inr (resp_default\<lparr> resp_hits := map (served pfx (\<alpha> s)) (take (page_want page) K),
      resp_tail := Some (if page_want page \<le> length K \<and> page_want page \<noteq> USIZE_MAX then TAIL_MORE else TAIL_FINAL) \<rparr>)"
proof -
  let ?val = "stream_value e exclusive page"
  have "fits ?val" using e by (auto simp: stream_value_def split: option.splits bool.splits)
  then have "ops_valid [(OP_SCAN_STREAM, b, ?val)]" using b by (simp add: ops_valid_def op_valid_def)
  from OpFrame_get_put [OF this, of "[]"]
  have frame: "OpFrame_decode (OpFrame_encode [(OP_SCAN_STREAM, b, ?val)]) = Some [(OP_SCAN_STREAM, b, ?val)]"
    by (simp add: OpFrame_decode_def)
  define r where "r = resp_default\<lparr> resp_hits := map (served pfx (\<alpha> s)) (take (page_want page) K),
      resp_tail := Some (if page_want page \<le> length K \<and> page_want page \<noteq> USIZE_MAX then TAIL_MORE else TAIL_FINAL) \<rparr>"
  have page: "exec_stream disp S pfx b ?val resp_default s = Answer r"
    using kv_scan.exec_stream_ok [OF kv s stream_value_bounds(2,4,1) lower, where disp = disp and resp = resp_default] K
    by (simp add: stream_value_bounds(3) served_def [abs_def] r_def)
  obtain s' where "scommit_batch S [] s = (Inr (), s')" using kv_point.commit_ok [OF kv_scan.axioms(1) [OF kv] s, of "[]"] by blast
  then have "exec_ops disp S pfx [(OP_SCAN_STREAM, b, ?val)] [] resp_default s = (Answer r, s')"
    by (simp add: flush_pending_def page) (simp add: op_tags)
  moreover have "resp_fault r = None" by (simp add: r_def resp_default_def)
  ultimately show ?thesis by (simp add: stream_page_def round_trip_def ExecCore_apply_def frame r_def [symmetric])
qed

text \<open>A resume behind the last key of a page meets the rest, where all keys have one length.\<close>

lemma resume_range:
  assumes fin: "finite (dom m)" and K: "keys_in m b e = pre @ rest" and c: "pre \<noteq> []" "prefix_end (last pre) = Some bb"
    and same: "\<forall>k \<in> set (pre @ rest). length k = n"
  shows "keys_in m bb e = rest"
proof -
  let ?c = "last pre"
  have sorted: "sorted (pre @ rest)" "distinct (pre @ rest)" unfolding K [symmetric] by (simp_all add: keys_in_def)
  have mem: "k \<in> set (pre @ rest) \<longleftrightarrow> k \<in> dom m \<and> in_range b e k" for k
    unfolding K [symmetric] using fin by (simp add: keys_in_def)
  have cm: "?c \<in> set pre" using c(1) by simp
  have lt: "?c < bb" using prefix_in_range [of ?c ?c] c(2) by (simp add: in_range_def)
  have up: "bb \<le> k \<longleftrightarrow> ?c < k" if "k \<in> set (pre @ rest)" for k
  proof
    assume "?c < k"
    have len: "length ?c = length k" using same that cm by simp
    then have "\<not> prefix ?c k" using \<open>?c < k\<close> by (auto simp: prefix_def)
    then have "\<not> in_range ?c (Some bb) k" using in_range_prefix_end [of ?c k] len c(2) by simp
    then show "bb \<le> k" using less_imp_le [OF \<open>?c < k\<close>] by (simp add: in_range_def not_less)
  qed (use lt in simp)
  have part: "set rest = {k \<in> set (pre @ rest). ?c < k}"
  proof -
    have "?c < k" if "k \<in> set rest" for k
      using sorted that cm by (auto simp: sorted_append intro: le_neq_trans)
    moreover have "\<not> ?c < k" if "k \<in> set pre" for k
    proof -
      have "pre = butlast pre @ [?c]" using c(1) by simp
      then have "sorted (butlast pre @ [?c])" "k \<in> set (butlast pre @ [?c])" using sorted(1) that by (simp_all add: sorted_append)
      then show ?thesis by (auto simp: sorted_append not_less)
    qed
    ultimately show ?thesis by auto
  qed
  have "{k \<in> dom m. in_range bb e k} = set rest"
  proof (intro set_eqI iffI)
    fix k assume k: "k \<in> {k \<in> dom m. in_range bb e k}"
    have "b \<le> ?c" using mem [of ?c] cm by (simp add: in_range_def)
    then have "in_range b e k" using k lt by (auto simp: in_range_def)
    then have "k \<in> set (pre @ rest)" using mem k by simp
    moreover have "bb \<le> k" using k by (simp add: in_range_def)
    ultimately show "k \<in> set rest" using up part by blast
  next
    fix k assume k: "k \<in> set rest"
    then have "k \<in> set (pre @ rest)" "?c < k" using part by blast+
    then have "bb \<le> k" "k \<in> dom m" "in_range b e k" using up [of k] mem [of k] by blast+
    then show "k \<in> {k \<in> dom m. in_range bb e k}" by (simp add: in_range_def)
  qed
  then show ?thesis using sorted unfolding keys_in_def by (simp add: sorted_append sorted_list_of_set.idem_if_sorted_distinct)
qed

section \<open>Draining\<close>

text \<open>The range of an iterator, all keys of one length, under the prefix, and none at the end of the key space.\<close>

definition range_ok :: "bytes option \<Rightarrow> bytes list \<Rightarrow> bytes \<Rightarrow> bytes option \<Rightarrow> bool" where
  "range_ok pfx K b e \<longleftrightarrow> fits b \<and> (\<forall>x. e = Some x \<longrightarrow> length x + 2 < 2 ^ 32) \<and>
     (\<exists>n. \<forall>k \<in> set K. length k = n) \<and>
     (\<forall>k \<in> set K. \<exists>x. k = hosted_key pfx x \<and> fits x \<and> prefix_end k \<noteq> None)"

text \<open>What is left to serve of \<open>K\<close>.\<close>

definition serves :: "bytes option \<Rightarrow> (bytes \<rightharpoonup> bytes) \<Rightarrow> bytes list \<Rightarrow> bytes \<Rightarrow> bytes option \<Rightarrow> bytes list \<Rightarrow> remote_iter \<Rightarrow> bool" where
  "serves pfx m K b e rest it \<longleftrightarrow> ri_end it = e \<and> ri_page it = 0 \<and> (\<exists>pre j. K = pre @ rest \<and> ri_buf it = map (served pfx m) (take j rest) \<and>
     (ri_done it \<longrightarrow> take j rest = rest) \<and>
     (\<not> ri_done it \<and> ri_buf it = [] \<longrightarrow>
        (if pre = [] then ri_cursor it = None \<and> ri_begin it = b else ri_cursor it = Some (drop (prefix_len pfx) (last pre)))))"

lemma hosted_back: "drop (prefix_len pfx) (hosted_key pfx x) = x" "prefix_len pfx \<le> length (hosted_key pfx x)"
  by (simp_all add: hosted_key_def prefix_len_def split: option.split)

lemma fill_step:
  assumes kv: "kv_scan S ok \<alpha>" and s: "ok s" and K: "keys_in (\<alpha> s) (hosted_key pfx b) (hosted_end pfx e) = K"
    and ok: "range_ok pfx K b e" and it: "serves pfx (\<alpha> s) K b e rest it"
  shows "\<exists>it'. fill_loop disp S pfx s 2 it = (Inr (), it') \<and> serves pfx (\<alpha> s) K b e rest it' \<and>
    (ri_buf it' = [] \<longleftrightarrow> rest = []) \<and> (rest = [] \<longrightarrow> ri_done it') \<and>
    (ri_buf it = [] \<and> \<not> ri_done it \<longrightarrow> ri_buf it' = map (served pfx (\<alpha> s)) (take 256 rest) \<and> (ri_done it' \<longleftrightarrow> length rest < 256))"
proof (cases "ri_buf it = [] \<and> \<not> ri_done it")
  case False
  then have "fill_loop disp S pfx s 2 it = (Inr (), it)" by (auto simp: numeral_2_eq_2)
  then show ?thesis using it False by (auto simp: serves_def)
next
  case True
  obtain pre where K': "K = pre @ rest" and e: "ri_end it = e" "ri_page it = 0"
    and cur: "if pre = [] then ri_cursor it = None \<and> ri_begin it = b else ri_cursor it = Some (drop (prefix_len pfx) (last pre))"
    using it True by (auto simp: serves_def)
  obtain n where n: "\<forall>k \<in> set K. length k = n" using ok by (auto simp: range_ok_def)
  have under: "\<forall>k \<in> set rest. prefix_len pfx \<le> length k"
  proof
    fix k assume "k \<in> set rest"
    then have "k \<in> set K" by (simp add: K')
    then obtain x where "k = hosted_key pfx x" using ok unfolding range_ok_def by blast
    then show "prefix_len pfx \<le> length k" by (simp add: hosted_back(2))
  qed
  define more where "more \<longleftrightarrow> 256 \<le> length rest"
  have want: "page_want 0 = 256" "256 \<noteq> USIZE_MAX" by (simp_all add: page_want_def USIZE_MAX_def)
  define resp where "resp = resp_default\<lparr> resp_hits := map (served pfx (\<alpha> s)) (take 256 rest),
      resp_tail := Some (if more then TAIL_MORE else TAIL_FINAL) \<rparr>"
  define it1 where "it1 = (if pre = [] then it\<lparr> ri_begin := [] \<rparr> else it\<lparr> ri_cursor := None \<rparr>)
      \<lparr> ri_done := \<not> more, ri_buf := map (served pfx (\<alpha> s)) (take 256 rest) \<rparr>"
  note page = stream_page_ok [OF kv s, where disp = disp and page = 0, unfolded want(1)]
  have run: "refill disp S pfx s it = (Inr (), it1)"
  proof (cases "pre = []")
    case fresh: True
    have "stream_page disp S pfx b e False 0 s = Inr resp"
      unfolding resp_def more_def using page [where bb = "hosted_key pfx b" and exclusive = False and K = rest] ok K under fresh K' want(2)
      by (simp add: range_ok_def)
    then show ?thesis using True cur fresh e
      by (auto simp: refill_def it1_def resp_def TAIL_MORE_def TAIL_FINAL_def)
  next
    case behind: False
    then have c: "last pre \<in> set K" unfolding K' by simp
    then obtain x bb where x: "last pre = hosted_key pfx x" "fits x" "prefix_end (last pre) = Some bb"
      using ok unfolding range_ok_def by blast
    have "keys_in (\<alpha> s) bb (hosted_end pfx e) = rest"
      by (rule resume_range [OF kv_scan.finite_dom [OF kv s] K [unfolded K'] behind x(3) n [unfolded K']])
    then have "stream_page disp S pfx x e True 0 s = Inr resp"
      unfolding resp_def more_def using page [where bb = bb and exclusive = True and K = rest] ok x under want(2)
      by (simp add: range_ok_def)
    then show ?thesis using True cur behind e x(1)
      by (auto simp: refill_def it1_def resp_def TAIL_MORE_def TAIL_FINAL_def hosted_back)
  qed
  have buf: "ri_buf it1 = map (served pfx (\<alpha> s)) (take 256 rest)" "ri_done it1 \<longleftrightarrow> \<not> more" "ri_end it1 = e" "ri_page it1 = 0"
    using e by (simp_all add: it1_def)
  have empty: "ri_buf it1 = [] \<longleftrightarrow> rest = []" "rest = [] \<Longrightarrow> ri_done it1" by (auto simp: buf more_def)
  have "serves pfx (\<alpha> s) K b e rest it1"
    unfolding serves_def using buf K' empty by (auto simp: more_def not_le intro!: exI [of _ pre] exI [of _ 256])
  moreover have "fill_loop disp S pfx s 2 it = (Inr (), it1)"
    using True run empty by (auto simp: numeral_2_eq_2)
  ultimately show ?thesis using empty buf(1,2) by (intro exI [of _ it1]) (auto simp: more_def)
qed

text \<open>A consumer that calls an iterator \<open>n\<close> times.\<close>

fun drain :: "('i \<Rightarrow> 'r \<times> 'i) \<Rightarrow> nat \<Rightarrow> 'i \<Rightarrow> 'r list \<times> 'i" where
  "drain f 0 it = ([], it)"
| "drain f (Suc n) it = (case f it of (r, it) \<Rightarrow> map_prod (\<lambda>rs. r # rs) id (drain f n it))"

lemma drain_add: "drain f (m + n) it = (case drain f m it of (xs, it) \<Rightarrow> map_prod (\<lambda>ys. xs @ ys) id (drain f n it))"
  by (induction m arbitrary: it) (simp_all add: case_prod_beta map_prod_def)

lemma next_step:
  assumes kv: "kv_scan S ok \<alpha>" and s: "ok s" and K: "keys_in (\<alpha> s) (hosted_key pfx b) (hosted_end pfx e) = K"
    and ok: "range_ok pfx K b e" and it: "serves pfx (\<alpha> s) K b e rest it"
  shows "\<exists>it'. remote_next disp S pfx s it = (case rest of [] \<Rightarrow> None | k # _ \<Rightarrow> Some (Inr (served pfx (\<alpha> s) k)), it') \<and>
    serves pfx (\<alpha> s) K b e (tl rest) it'"
proof -
  obtain it1 where 1: "fill_loop disp S pfx s 2 it = (Inr (), it1)" "serves pfx (\<alpha> s) K b e rest it1"
    "ri_buf it1 = [] \<longleftrightarrow> rest = []" "rest = [] \<longrightarrow> ri_done it1"
    using fill_step [OF assms, of disp] by blast
  show ?thesis
  proof (cases rest)
    case Nil
    then have "remote_next disp S pfx s it = (None, it1)" using 1 by (simp add: remote_next_def consume_front_def)
    then show ?thesis using 1(2) Nil by simp
  next
    case (Cons k ks)
    obtain pre j where j: "K = pre @ rest" "ri_buf it1 = map (served pfx (\<alpha> s)) (take j rest)"
      "ri_done it1 \<longrightarrow> take j rest = rest" "ri_end it1 = e" "ri_page it1 = 0" using 1(2) by (auto simp: serves_def)
    then obtain i where i: "j = Suc i" using 1(3) Cons by (cases j) simp_all
    define it2 where "it2 = it1\<lparr> ri_buf := map (served pfx (\<alpha> s)) (take i ks), ri_cursor := Some (drop (prefix_len pfx) k) \<rparr>"
    have "remote_next disp S pfx s it = (Some (Inr (served pfx (\<alpha> s) k)), it2)"
      using 1(1) j(2) by (simp add: remote_next_def consume_front_def Cons i it2_def served_def)
    moreover have "serves pfx (\<alpha> s) K b e ks it2"
      unfolding serves_def using j by (auto simp: it2_def Cons i intro!: exI [of _ "pre @ [k]"] exI [of _ i])
    ultimately show ?thesis by (simp add: Cons)
  qed
qed

lemma drain_forward:
  assumes kv: "kv_scan S ok \<alpha>" and s: "ok s" and K: "keys_in (\<alpha> s) (hosted_key pfx b) (hosted_end pfx e) = K"
    and ok: "range_ok pfx K b e" and it: "serves pfx (\<alpha> s) K b e rest it"
  shows "fst (drain (remote_next disp S pfx s) (length rest + n) it) = map (\<lambda>k. Some (Inr (served pfx (\<alpha> s) k))) rest @ replicate n None"
  using it
proof (induction rest arbitrary: it)
  case Nil
  then show ?case
  proof (induction n arbitrary: it)
    case (Suc n)
    obtain it' where "remote_next disp S pfx s it = (None, it')" "serves pfx (\<alpha> s) K b e [] it'"
      using next_step [OF kv s K ok Suc.prems, of disp] by auto
    then show ?case using Suc.IH by (simp add: map_prod_def case_prod_beta)
  qed simp
next
  case (Cons k rest)
  obtain it' where "remote_next disp S pfx s it = (Some (Inr (served pfx (\<alpha> s) k)), it')" "serves pfx (\<alpha> s) K b e rest it'"
    using next_step [OF kv s K ok Cons.prems, of disp] by auto
  then show ?case using Cons.IH by (simp add: map_prod_def case_prod_beta)
qed

lemma fresh_serves: "serves pfx m K b e K (RemoteStore_scan_range_iter b e)"
  unfolding serves_def RemoteStore_scan_range_iter_def by (auto intro!: exI [of _ "[]"] exI [of _ 0])

section \<open>Backwards\<close>

lemma drain_buffer:
  "ri_buf it = map (served pfx m) xs \<Longrightarrow>
    drain (remote_next_back disp S pfx s) (length xs) it =
      (map (\<lambda>k. Some (Inr (served pfx m k))) (rev xs),
       it\<lparr> ri_buf := [], ri_cursor := (if xs = [] then ri_cursor it else Some (drop (prefix_len pfx) (hd xs))) \<rparr>)"
proof (induction xs arbitrary: it rule: rev_induct)
  case (snoc x xs)
  let ?it = "it\<lparr> ri_buf := map (served pfx m) xs, ri_cursor := Some (drop (prefix_len pfx) x) \<rparr>"
  have "fill_loop disp S pfx s 2 it = (Inr (), it)" using snoc.prems by (simp add: numeral_2_eq_2)
  then have "remote_next_back disp S pfx s it = (Some (Inr (served pfx m x)), ?it)"
    using snoc.prems by (simp add: remote_next_back_def consume_back_def served_def)
  moreover have "drain (remote_next_back disp S pfx s) (length xs) ?it =
      (map (\<lambda>k. Some (Inr (served pfx m k))) (rev xs),
       ?it\<lparr> ri_buf := [], ri_cursor := (if xs = [] then ri_cursor ?it else Some (drop (prefix_len pfx) (hd xs))) \<rparr>)"
    by (rule snoc.IH) simp
  ultimately show ?case by simp
qed simp

lemma length_drain: "length (fst (drain f n it)) = n"
  by (induction n arbitrary: it) (simp_all add: case_prod_beta)

lemma drain_take: "fst (drain f m it) = take m (fst (drain f (m + n) it))"
  unfolding drain_add by (simp add: case_prod_beta length_drain)

lemma fill_done: "ri_buf it \<noteq> [] \<or> ri_done it \<Longrightarrow> fill_loop disp S pfx s 2 it = (Inr (), it)"
  by (auto simp: numeral_2_eq_2)

text \<open>The first call behind an empty buffer sees the filled one.\<close>

lemma back_filled:
  assumes "fill_loop disp S pfx s 2 it = (Inr (), it1)" "ri_buf it1 \<noteq> []"
  shows "drain (remote_next_back disp S pfx s) (Suc n) it = drain (remote_next_back disp S pfx s) (Suc n) it1"
  using assms fill_done [of it1 disp S pfx s] by (simp add: remote_next_back_def)

lemma back_page:
  assumes kv: "kv_scan S ok \<alpha>" and s: "ok s" and K: "keys_in (\<alpha> s) (hosted_key pfx b) (hosted_end pfx e) = K"
    and ok: "range_ok pfx K b e" and it: "serves pfx (\<alpha> s) K b e rest it" "ri_buf it = []" "\<not> ri_done it" and len: "256 \<le> length rest"
  shows "\<exists>it'. drain (remote_next_back disp S pfx s) 256 it = (map (\<lambda>k. Some (Inr (served pfx (\<alpha> s) k))) (rev (take 256 rest)), it') \<and>
    ri_buf it' = [] \<and> \<not> ri_done it' \<and> ri_end it' = e \<and> ri_page it' = 0 \<and> ri_cursor it' = Some (drop (prefix_len pfx) (hd rest))"
proof -
  obtain it1 where 1: "fill_loop disp S pfx s 2 it = (Inr (), it1)" "serves pfx (\<alpha> s) K b e rest it1"
    "ri_buf it1 = map (served pfx (\<alpha> s)) (take 256 rest)" "\<not> ri_done it1"
    using fill_step [OF kv s K ok it(1), of disp] it(2,3) len by auto
  have ne: "take 256 rest \<noteq> []" "hd (take 256 rest) = hd rest" "length (take 256 rest) = 256" using len by (cases rest; simp)+
  have "ri_buf it1 \<noteq> []" using 1(3) ne(1) by simp
  from back_filled [OF 1(1) this, of 255]
  have "drain (remote_next_back disp S pfx s) 256 it = drain (remote_next_back disp S pfx s) (length (take 256 rest)) it1"
    using ne(3) by simp
  then show ?thesis using drain_buffer [OF 1(3), of disp S s] ne 1(2,4) by (simp add: serves_def)
qed

section \<open>Properties\<close>

text \<open>
  C27: A remote scan drained forwards ends and is complete on a range in which all stored keys have one
  length and lie under the sender's prefix, no key is empty or all 0xff bytes (the scan resumes behind
  \<open>prefix_end\<close> of the last key) and keys and bounds fit a frame (\<open>range_ok\<close>): it answers every pair of
  the range once, in key order, across any number of pages, and then nothing for ever. (With a key
  that extends another one the scan skips it, \<open>stream_resume_skips\<close>.)
\<close>

theorem remote_scan_complete:
  assumes "kv_scan S ok \<alpha>" "ok s" "keys_in (\<alpha> s) (hosted_key pfx b) (hosted_end pfx e) = K" "range_ok pfx K b e"
  shows "fst (drain (remote_next disp S pfx s) (length K + n) (RemoteStore_scan_range_iter b e)) =
    map (\<lambda>k. Some (Inr (served pfx (\<alpha> s) k))) K @ replicate n None"
  by (rule drain_forward [OF assms fresh_serves])

theorem remote_scan_complete_witness:
  "fst (drain (remote_next (\<lambda>e. []) mem_storage (Some [7]) [([7, 2], [20]), ([7, 1], [10]), ([8, 0], [])]) 3
     (RemoteStore_scan_range_iter [] (Some [9]))) = [Some (Inr ([1], [10])), Some (Inr ([2], [20])), None]"
proof -
  let ?s = "[([7, 2], [20]), ([7, 1], [10]), ([8, 0], [])] :: mem"
  have K: "keys_in (map_of ?s) (hosted_key (Some [7]) []) (hosted_end (Some [7]) (Some [9])) = [[7, 1], [7, 2]]"
    by (subst keys_in_map_of) (simp_all add: in_range_def hosted_key_def)
  have "range_ok (Some [7]) [[7, 1], [7, 2]] [] (Some [9])"
    by (auto simp: range_ok_def hosted_key_def prefix_end_def)
  from remote_scan_complete [OF mem_storage_kv_scan _ K this, where n = 1 and disp = "\<lambda>e. []"] show ?thesis
    by (simp add: mem_inv_def served_def prefix_len_def numeral_3_eq_3)
qed

text \<open>
  C28: Drained backwards it does not answer its range from the end: with more than a page in the
  range the first answer is the last pair of the first page, and once that page is used up the
  walk resumes behind the first key and answers pairs a second time.
\<close>

theorem remote_back_repeats:
  assumes "kv_scan S ok \<alpha>" "ok s" "keys_in (\<alpha> s) (hosted_key pfx b) (hosted_end pfx e) = K" "range_ok pfx K b e" "256 < length K"
  shows "fst (drain (remote_next_back disp S pfx s) 258 (RemoteStore_scan_range_iter b e)) =
    map (\<lambda>k. Some (Inr (served pfx (\<alpha> s) k))) (rev (take 256 K) @ [K ! 256, K ! 255])"
proof -
  let ?next = "remote_next_back disp S pfx s"
  obtain it where 1: "drain ?next 256 (RemoteStore_scan_range_iter b e) = (map (\<lambda>k. Some (Inr (served pfx (\<alpha> s) k))) (rev (take 256 K)), it)"
    "ri_buf it = []" "\<not> ri_done it" "ri_end it = e" "ri_page it = 0" "ri_cursor it = Some (drop (prefix_len pfx) (hd K))"
    using back_page [OF assms(1-4) fresh_serves, of disp] assms(5) by (auto simp: RemoteStore_scan_range_iter_def)
  obtain k ks where K: "K = k # ks" using assms(5) by (cases K) auto
  have "serves pfx (\<alpha> s) K b e ks it"
    using 1 by (auto simp: serves_def K intro!: exI [of _ "[k]"] exI [of _ 0])
  then obtain it2 where "drain ?next 256 it = (map (\<lambda>k. Some (Inr (served pfx (\<alpha> s) k))) (rev (take 256 ks)), it2)"
    using back_page [OF assms(1-4) _ 1(2,3), of ks disp] assms(5) K by auto
  then have two: "fst (drain ?next 2 it) = take 2 (map (\<lambda>k. Some (Inr (served pfx (\<alpha> s) k))) (rev (take 256 ks)))"
    using drain_take [of ?next 2 it 254] by simp
  have tk: "take 256 ks = take 254 ks @ [ks ! 254, ks ! 255]"
    using assms(5) take_Suc_conv_app_nth [of 254 ks] take_Suc_conv_app_nth [of 255 ks] by (simp add: K)
  have "fst (drain ?next (256 + 2) (RemoteStore_scan_range_iter b e)) =
      map (\<lambda>k. Some (Inr (served pfx (\<alpha> s) k))) (rev (take 256 K)) @ fst (drain ?next 2 it)"
    unfolding drain_add 1(1) by (simp add: case_prod_beta)
  also have "fst (drain ?next 2 it) = map (\<lambda>k. Some (Inr (served pfx (\<alpha> s) k))) [K ! 256, K ! 255]"
    unfolding two tk by (simp add: K)
  finally show ?thesis by simp
qed

definition crowd :: mem where
  "crowd = map (\<lambda>i. (be_bytes 2 i, [])) [0 ..< 257]"

lemma crowd_keys: "distinct (map fst crowd)" "set (map fst crowd) = be_bytes 2 ` {0 ..< 257}"
proof -
  have "inj_on (be_bytes 2) {0 ..< 257}" by (rule inj_on_inverseI [where g = be_val]) simp
  then show "distinct (map fst crowd)" by (simp add: crowd_def comp_def distinct_map)
  show "set (map fst crowd) = be_bytes 2 ` {0 ..< 257}" by (simp add: crowd_def comp_def)
qed

theorem remote_back_repeats_witness:
  "\<exists>K. length K = 257 \<and> distinct K \<and>
     fst (drain (remote_next_back (\<lambda>e. []) mem_storage None crowd) 258 (RemoteStore_scan_range_iter [] None)) =
       map (\<lambda>k. Some (Inr (served None (map_of crowd) k))) (rev (take 256 K) @ [K ! 256, K ! 255])"
proof -
  define K where "K = keys_in (map_of crowd) (hosted_key None []) (hosted_end None None)"
  have sorted: "K = sort (map fst crowd)"
    unfolding K_def by (subst keys_in_map_of [OF crowd_keys(1)]) (simp add: in_range_def hosted_key_def)
  have key: "\<exists>i < 257. k = be_bytes 2 i" if "k \<in> set K" for k
    using that unfolding sorted set_sort crowd_keys(2) by auto
  have "prefix_end k \<noteq> None \<and> length k = 2" if mem: "k \<in> set K" for k
  proof -
    obtain i where "i < 257" "k = be_bytes 2 i" using key [OF mem] by blast
    then show ?thesis using prefix_end_val [of k] by (auto split: option.splits)
  qed
  then have "range_ok None K [] None" by (auto simp: range_ok_def hosted_key_def)
  moreover have "length K = 257" "distinct K" using crowd_keys(1) by (simp_all add: sorted crowd_def comp_def)
  moreover have "mem_inv crowd" using crowd_keys(1) by (simp add: mem_inv_def)
  ultimately show ?thesis
    using remote_back_repeats [OF mem_storage_kv_scan _ K_def [symmetric], where disp = "\<lambda>e. []"] by (intro exI [of _ K]) simp
qed

end
