(* ===== verification/Okm_Vocab.thy ===== *)
theory Okm_Vocab
  imports Okm_Index
begin

text \<open>
  Name vocabularies: \<open>okm-core/src/model/obj_vocab.rs\<close>. A vocabulary is two faces of a
  namespace, label to id and id to label, and an allocation cursor at the bare prefix of
  the id face. The store is the engine contract of \<open>Okm_Storage\<close>; the cache is a record.

  The abstract view of a vocabulary is the list of its labels in the order of allocation
  (\<open>vocab_repr\<close>): the id of a label is its position. A label is a Rust \<open>String\<close>, its UTF-8
  bytes. A face slot is always a fixed face or a counting-family slot, so \<open>write_slot\<close>
  does not panic here (\<open>face_key_write_slot\<close>).
\<close>

section \<open>Faces\<close>

record vocab_faces =
  id_slot :: u16
  name_slot :: u16

definition data_vocab :: "u16 \<Rightarrow> vocab_faces option" where
  "data_vocab field_index =
     (let counter = 1 + field_index in
      case (slot VOCAB_ID counter, slot VOCAB_LABEL counter) of
        (Some i, Some n) \<Rightarrow> Some \<lparr> id_slot = i, name_slot = n \<rparr> | _ \<Rightarrow> None)"

definition from_id_slot :: "u16 \<Rightarrow> vocab_faces option" where
  "from_id_slot i =
     map_option (\<lambda>n. \<lparr> id_slot = i, name_slot = n \<rparr>) (slot VOCAB_LABEL (and i 0x0FFF))"

definition FIELD_VOCAB :: vocab_faces where
  "FIELD_VOCAB = \<lparr> id_slot = FIELD_VOCAB_ID_SLOT, name_slot = FIELD_VOCAB_NAME_SLOT \<rparr>"

definition PREDICATE_VOCAB :: vocab_faces where
  "PREDICATE_VOCAB = \<lparr> id_slot = PREDICATE_VOCAB_ID_SLOT, name_slot = PREDICATE_VOCAB_NAME_SLOT \<rparr>"

definition face_key :: "bytes \<Rightarrow> u16 \<Rightarrow> bytes" where
  "face_key header sl = header @ slot_image sl"

lemma face_key_write_slot: "slot_valid sl \<Longrightarrow> write_slot header sl = Some (face_key header sl)"
  by (simp add: write_slot_image face_key_def)

definition cursor_key :: "bytes \<Rightarrow> vocab_faces \<Rightarrow> bytes" where
  "cursor_key header faces = face_key header (id_slot faces)"

definition vocab_label ::
    "'s storage \<Rightarrow> 's \<Rightarrow> bytes \<Rightarrow> vocab_faces \<Rightarrow> bytes \<Rightarrow> bytes option result" where
  "vocab_label S s header faces id_be =
     rbind (sget S s (face_key header (id_slot faces) @ id_be))
       (\<lambda>raw. Inr (Option.bind raw from_utf8))"

section \<open>The cache\<close>

record 'i vocab_cache =
  vc_faces :: vocab_faces
  vc_by_id :: "'i \<rightharpoonup> bytes"
  vc_by_name :: "bytes \<rightharpoonup> 'i"
  vc_next_id :: "'i option"

definition VocabCache_new :: "vocab_faces \<Rightarrow> 'i vocab_cache" where
  "VocabCache_new faces =
     \<lparr> vc_faces = faces, vc_by_id = Map.empty, vc_by_name = Map.empty, vc_next_id = None \<rparr>"

definition name_key :: "'i vocab_cache \<Rightarrow> bytes \<Rightarrow> bytes \<Rightarrow> bytes" where
  "name_key c header label = face_key header (name_slot (vc_faces c)) @ label"

definition id_key :: "'i :: len word vocab_cache \<Rightarrow> bytes \<Rightarrow> 'i word \<Rightarrow> bytes" where
  "id_key c header i = face_key header (id_slot (vc_faces c)) @ to_be_bytes i"

definition remember :: "'i \<Rightarrow> bytes \<Rightarrow> 'i vocab_cache \<Rightarrow> 'i vocab_cache" where
  "remember i label c =
     c\<lparr> vc_by_id := (vc_by_id c)(i \<mapsto> label), vc_by_name := (vc_by_name c)(label \<mapsto> i) \<rparr>"

definition max_after :: "(bytes \<times> bytes) list \<Rightarrow> 'i :: len word" where
  "max_after rows = fold (\<lambda>(suffix, _) next.
     case from_be_bytes suffix of
       Some i \<Rightarrow> (case vocab_succ i of Some after \<Rightarrow> max next after | None \<Rightarrow> next)
     | None \<Rightarrow> next) rows 0"

definition scan_max_plus_one ::
    "'s storage \<Rightarrow> 's \<Rightarrow> bytes \<Rightarrow> 'i :: len word vocab_cache \<Rightarrow> 'i word result" where
  "scan_max_plus_one S s header c =
     rbind (scan_suffix_kv S s (face_key header (id_slot (vc_faces c)))) (\<lambda>rows. Inr (max_after rows))"

definition take_next ::
    "'s storage \<Rightarrow> 's \<Rightarrow> bytes \<Rightarrow> 'i :: len word vocab_cache \<Rightarrow> 'i word result \<times> 'i word vocab_cache" where
  "take_next S s header c =
     (case vc_next_id c of
        Some next \<Rightarrow> (Inr next, c)
      | None \<Rightarrow>
          (case rbind (sget S s (cursor_key header (vc_faces c))) (\<lambda>raw.
             case Option.bind raw from_be_bytes of
               Some cursor \<Rightarrow> Inr cursor
             | None \<Rightarrow> rbind (sget S s (id_key c header 0)) (\<lambda>zero.
                 if zero = None then Inr 0 else scan_max_plus_one S s header c)) of
             Inl e \<Rightarrow> (Inl e, c)
           | Inr next \<Rightarrow> (Inr next, c\<lparr> vc_next_id := Some next \<rparr>)))"

definition id_for ::
    "'s storage \<Rightarrow> bytes \<Rightarrow> bytes \<Rightarrow> ('s \<times> 'i :: len word vocab_cache, 'i word) io" where
  "id_for S header label = (\<lambda>(s, c).
     case sget S s (name_key c header label) of
       Inl e \<Rightarrow> (Inl e, (s, c))
     | Inr raw \<Rightarrow>
         (case Option.bind raw from_be_bytes of
            Some i \<Rightarrow> (Inr i, (s, remember i label c))
          | None \<Rightarrow>
              (case take_next S s header c of
                 (Inl e, c') \<Rightarrow> (Inl e, (s, c'))
               | (Inr i, c') \<Rightarrow>
                   (case vocab_succ i of
                      None \<Rightarrow> (Inl (VocabularyExhausted (LENGTH('i) div 8) (unat i + 1)), (s, c'))
                    | Some next \<Rightarrow>
                        (case scommit_batch S
                           (batch_put (batch_put (batch_put []
                              (name_key c' header label) (to_be_bytes i))
                              (id_key c' header i) label)
                              (cursor_key header (vc_faces c')) (to_be_bytes next)) s of
                           (Inl e, s') \<Rightarrow> (Inl e, (s', c'))
                         | (Inr _, s') \<Rightarrow>
                             (Inr i, (s', remember i label (c'\<lparr> vc_next_id := Some next \<rparr>))))))))"

definition name_for ::
    "'s storage \<Rightarrow> 's \<Rightarrow> bytes \<Rightarrow> 'i :: len word \<Rightarrow> 'i word vocab_cache
      \<Rightarrow> bytes option result \<times> 'i word vocab_cache" where
  "name_for S s header i c =
     (case vc_by_id c i of
        Some name \<Rightarrow> (Inr (Some name), c)
      | None \<Rightarrow>
          (case sget S s (id_key c header i) of
             Inl e \<Rightarrow> (Inl e, c)
           | Inr None \<Rightarrow> (Inr None, c)
           | Inr (Some raw) \<Rightarrow>
               (case from_utf8 raw of
                  None \<Rightarrow> (Inr None, c)
                | Some name \<Rightarrow> (Inr (Some name), remember i name c))))"

definition id_get ::
    "'s storage \<Rightarrow> 's \<Rightarrow> bytes \<Rightarrow> bytes \<Rightarrow> 'i :: len word vocab_cache
      \<Rightarrow> 'i word option result \<times> 'i word vocab_cache" where
  "id_get S s header label c =
     (case vc_by_name c label of
        Some i \<Rightarrow> (Inr (Some i), c)
      | None \<Rightarrow>
          (case sget S s (name_key c header label) of
             Inl e \<Rightarrow> (Inl e, c)
           | Inr None \<Rightarrow> (Inr None, c)
           | Inr (Some raw) \<Rightarrow>
               (case from_be_bytes raw of
                  None \<Rightarrow> (Inr None, c)
                | Some i \<Rightarrow> (Inr (Some i), remember i label c))))"

text \<open>\<open>vocab_id\<close>: a fresh cache of the declared width per call; the id's wire bytes.\<close>

definition intern_fresh ::
    "'s storage \<Rightarrow> bytes \<Rightarrow> vocab_faces \<Rightarrow> bytes \<Rightarrow> 's \<Rightarrow> 'i :: len word result \<times> 's" where
  "intern_fresh S header faces label s =
     map_prod id fst (id_for S header label (s, VocabCache_new faces))"

definition vocab_id ::
    "'s storage \<Rightarrow> bytes \<Rightarrow> vocab_faces \<Rightarrow> nat \<Rightarrow> bytes \<Rightarrow> ('s, bytes option) io" where
  "vocab_id S header faces width label s =
     (if width = 1 then map_prod (map_sum id (\<lambda>i :: 8 word. Some (to_be_bytes i))) id
        (intern_fresh S header faces label s)
      else if width = 2 then map_prod (map_sum id (\<lambda>i :: 16 word. Some (to_be_bytes i))) id
        (intern_fresh S header faces label s)
      else if width = 4 then map_prod (map_sum id (\<lambda>i :: 32 word. Some (to_be_bytes i))) id
        (intern_fresh S header faces label s)
      else if width = 8 then map_prod (map_sum id (\<lambda>i :: 64 word. Some (to_be_bytes i))) id
        (intern_fresh S header faces label s)
      else if width = 16 then map_prod (map_sum id (\<lambda>i :: 128 word. Some (to_be_bytes i))) id
        (intern_fresh S header faces label s)
      else (Inr None, s))"

section \<open>Face keys are disjoint\<close>

definition faces_ok :: "vocab_faces \<Rightarrow> bool" where
  "faces_ok f \<longleftrightarrow> slot_valid (id_slot f) \<and> slot_valid (name_slot f) \<and> id_slot f \<noteq> name_slot f"

lemma face_key_disjoint:
  assumes "slot_valid a" "slot_valid b" "face_key h a @ x = face_key h b @ y"
  shows "a = b \<and> x = y"
proof -
  have eq: "slot_image a @ x = slot_image b @ y" using assms(3) by (simp add: face_key_def)
  then have "prefix (slot_image a) (slot_image b) \<or> prefix (slot_image b) (slot_image a)"
    by (metis prefix_same_cases prefixI)
  then have "a = b" using slot_image_prefix_free assms(1,2) by metis
  then show ?thesis using eq by simp
qed

lemma faces_ok_fixed [simp]: "faces_ok FIELD_VOCAB" "faces_ok PREDICATE_VOCAB"
  by (simp_all add: faces_ok_def FIELD_VOCAB_def PREDICATE_VOCAB_def slot_consts slot_valid_def)

lemma slot_family_valid: "slot f c = Some sl \<Longrightarrow> f \<noteq> 0 \<Longrightarrow> slot_valid sl"
  using slot_unat [of f c sl] by (auto simp: slot_valid_def word_unat_eq_iff)

lemma data_vocab_ok:
  assumes "data_vocab i = Some f"
  shows "faces_ok f"
proof -
  from assms obtain a b where s: "slot VOCAB_ID (1 + i) = Some a" "slot VOCAB_LABEL (1 + i) = Some b"
    and f: "f = \<lparr> id_slot = a, name_slot = b \<rparr>"
    by (auto simp: data_vocab_def Let_def split: option.splits)
  have "a \<noteq> b" using slot_unat(1) [OF s(1)] slot_unat(1) [OF s(2)] by (auto simp: VOCAB_ID_def VOCAB_LABEL_def)
  then show ?thesis
    using s f by (auto simp: faces_ok_def VOCAB_ID_def VOCAB_LABEL_def intro: slot_family_valid)
qed

section \<open>The abstract view\<close>

text \<open>
  \<open>vocab_repr TYPE('i) h f m ls\<close>: the map \<open>m\<close> holds the vocabulary with the labels \<open>ls\<close>, in
  allocation order, on the faces \<open>f\<close> behind the header \<open>h\<close>; nothing else is on the faces.
\<close>

definition idb :: "'i :: len itself \<Rightarrow> nat \<Rightarrow> bytes" where
  "idb t i = to_be_bytes (of_nat i :: 'i word)"

definition vocab_repr ::
    "'i :: len itself \<Rightarrow> bytes \<Rightarrow> vocab_faces \<Rightarrow> (bytes \<rightharpoonup> bytes) \<Rightarrow> bytes list \<Rightarrow> bool" where
  "vocab_repr t h f m ls \<longleftrightarrow>
     distinct ls \<and> length ls < 2 ^ LENGTH('i) \<and>
     (\<forall>l. m (face_key h (name_slot f) @ l) =
        (if l \<in> set ls then Some (idb t (LEAST i. i < length ls \<and> ls ! i = l)) else None)) \<and>
     (\<forall>i < 2 ^ LENGTH('i). m (face_key h (id_slot f) @ idb t i) = (if i < length ls then Some (ls ! i) else None)) \<and>
     (m (face_key h (id_slot f)) = Some (idb t (length ls)) \<or> ls = [] \<and> m (face_key h (id_slot f)) = None)"

definition index_of :: "bytes list \<Rightarrow> bytes \<Rightarrow> nat" where
  "index_of ls l = (LEAST i. i < length ls \<and> ls ! i = l)"

lemma index_of_mem: "l \<in> set ls \<Longrightarrow> index_of ls l < length ls \<and> ls ! index_of ls l = l"
  unfolding index_of_def by (rule LeastI_ex) (auto simp: in_set_conv_nth)

lemma index_of_nth: "distinct ls \<Longrightarrow> i < length ls \<Longrightarrow> index_of ls (ls ! i) = i"
  using index_of_mem [of "ls ! i" ls] nth_eq_iff_index_eq by fastforce

lemma index_of_append: "l \<in> set ls \<Longrightarrow> distinct (ls @ xs) \<Longrightarrow> index_of (ls @ xs) l = index_of ls l"
  using index_of_mem [of l ls] index_of_nth [of "ls @ xs" "index_of ls l"] by (simp add: nth_append)

lemma index_of_last: "l \<notin> set ls \<Longrightarrow> distinct ls \<Longrightarrow> index_of (ls @ [l]) l = length ls"
  using index_of_nth [of "ls @ [l]" "length ls"] by (simp add: nth_append)

lemmas vocab_repr_alt = vocab_repr_def [folded index_of_def]

text \<open>What a cache may remember about a vocabulary.\<close>

definition cache_ok :: "'i :: len word vocab_cache \<Rightarrow> bytes list \<Rightarrow> bool" where
  "cache_ok c ls \<longleftrightarrow>
     (\<forall>i l. vc_by_id c i = Some l \<longrightarrow> unat i < length ls \<and> ls ! unat i = l) \<and>
     (\<forall>l i. vc_by_name c l = Some i \<longrightarrow> unat i < length ls \<and> ls ! unat i = l) \<and>
     (vc_next_id c = None \<or> vc_next_id c = Some (of_nat (length ls)))"

lemma cache_new [simp]: "cache_ok (VocabCache_new f) ls"
  by (simp add: cache_ok_def VocabCache_new_def)

lemma cache_remember:
  "cache_ok c ls \<Longrightarrow> unat i < length ls \<Longrightarrow> ls ! unat i = l \<Longrightarrow> cache_ok (remember i l c) ls"
  by (auto simp: cache_ok_def remember_def)

lemma cache_snoc:
  "cache_ok c ls \<Longrightarrow> cache_ok (c\<lparr> vc_next_id := Some (of_nat (Suc (length ls))) \<rparr>) (ls @ [l])"
  by (auto simp: cache_ok_def nth_append less_Suc_eq)

lemma cache_next: "cache_ok c ls \<Longrightarrow> cache_ok (c\<lparr> vc_next_id := Some (of_nat (length ls)) \<rparr>) ls"
  by (simp add: cache_ok_def)

lemma idb_decode [simp]: "byte_sized TYPE('i :: len) \<Longrightarrow> from_be_bytes (idb TYPE('i) i) = Some (of_nat i :: 'i word)"
  by (simp add: idb_def)

lemma unat_of_nat_small: "i < 2 ^ LENGTH('i) \<Longrightarrow> unat (of_nat i :: 'i :: len word) = i"
  by (simp add: unat_of_nat)

lemma idb_inject:
  "byte_sized TYPE('i :: len) \<Longrightarrow> i < 2 ^ LENGTH('i) \<Longrightarrow> j < 2 ^ LENGTH('i) \<Longrightarrow> idb TYPE('i) i = idb TYPE('i) j \<longleftrightarrow> i = j"
  by (metis idb_decode option.inject unat_of_nat_small)

lemma idb_not_Nil [simp]: "byte_sized TYPE('i :: len) \<Longrightarrow> idb TYPE('i) i \<noteq> []"
proof -
  assume "byte_sized TYPE('i)"
  then obtain k where "LENGTH('i) = 8 * k" by (auto simp: byte_sized_def dvd_def)
  moreover from this have "k \<noteq> 0" using len_gt_0 [where ?'a = 'i] by (intro notI) simp
  ultimately have "length (idb TYPE('i) i) \<noteq> 0" by (simp add: idb_def)
  then show ?thesis by auto
qed

lemma to_be_bytes_idb: "to_be_bytes (v :: 'i :: len word) = idb TYPE('i) (unat v)"
  by (simp add: idb_def)

section \<open>Allocation\<close>

text \<open>The map after one allocation.\<close>

definition alloc :: "'i :: len itself \<Rightarrow> bytes \<Rightarrow> vocab_faces \<Rightarrow> nat \<Rightarrow> bytes \<Rightarrow> (bytes \<rightharpoonup> bytes) \<Rightarrow> (bytes \<rightharpoonup> bytes)" where
  "alloc t h f n l m = m(face_key h (name_slot f) @ l \<mapsto> idb t n, face_key h (id_slot f) @ idb t n \<mapsto> l,
     face_key h (id_slot f) \<mapsto> idb t (Suc n))"

lemma vocab_repr_alloc:
  assumes sized: "byte_sized TYPE('i :: len)" and f: "faces_ok f"
    and repr: "vocab_repr TYPE('i) h f m ls" and new: "l \<notin> set ls" and room: "Suc (length ls) < 2 ^ LENGTH('i)"
  shows "vocab_repr TYPE('i) h f (alloc TYPE('i) h f (length ls) l m) (ls @ [l])"
proof -
  let ?n = "length ls" and ?m = "alloc TYPE('i) h f (length ls) l m"
  let ?N = "face_key h (name_slot f)" and ?I = "face_key h (id_slot f)"
  have d: "?N @ x \<noteq> ?I @ y" "?I @ y \<noteq> ?N @ x" "?N @ x \<noteq> ?I" "?I \<noteq> ?N @ x" for x y
    using face_key_disjoint [of "name_slot f" "id_slot f" h x y] f
      face_key_disjoint [of "name_slot f" "id_slot f" h x "[]"] by (auto simp: faces_ok_def)
  have dist: "distinct (ls @ [l])" using repr new by (auto simp: vocab_repr_def)
  have names: "?m (?N @ x) = (if x \<in> set (ls @ [l]) then Some (idb TYPE('i) (index_of (ls @ [l]) x)) else None)" for x
  proof (cases "x = l")
    case True
    then show ?thesis using new dist d index_of_last [of l ls] by (simp add: alloc_def)
  next
    case False
    then show ?thesis using repr d index_of_append [of x ls "[l]"] dist
      by (auto simp: alloc_def vocab_repr_alt)
  qed
  have ids: "?m (?I @ idb TYPE('i) i) = (if i < length (ls @ [l]) then Some ((ls @ [l]) ! i) else None)"
    if "i < 2 ^ LENGTH('i)" for i
    using that repr d idb_inject [OF sized that, of ?n] room sized
    by (auto simp: alloc_def vocab_repr_def nth_append less_Suc_eq)
  have "?m ?I = Some (idb TYPE('i) (length (ls @ [l])))" by (simp add: alloc_def)
  then show ?thesis using dist room names ids by (simp add: vocab_repr_alt)
qed

context kv_point
begin

lemma take_next_ok:
  assumes sized: "byte_sized TYPE('i :: len)" and s: "ok s"
    and repr: "vocab_repr TYPE('i) h (vc_faces c) (\<alpha> s) ls" and c: "cache_ok (c :: 'i word vocab_cache) ls"
  shows "take_next S s h c = (Inr (of_nat (length ls)), c\<lparr> vc_next_id := Some (of_nat (length ls)) \<rparr>)"
proof (cases "vc_next_id c")
  case (Some n)
  then have "n = of_nat (length ls)" using c by (simp add: cache_ok_def)
  then show ?thesis using Some by (cases c) (simp add: take_next_def)
next
  case None
  have zero: "id_key c h 0 = face_key h (id_slot (vc_faces c)) @ idb TYPE('i) 0"
    by (simp add: id_key_def to_be_bytes_idb)
  have "\<alpha> s (id_key c h 0) = None" if "ls = []"
    using repr that unfolding zero vocab_repr_def by force
  then show ?thesis
    using None repr sized by (auto simp: take_next_def cursor_key_def get_ok [OF s] vocab_repr_def)
qed

lemma id_for_known:
  assumes sized: "byte_sized TYPE('i :: len)" and s: "ok s"
    and repr: "vocab_repr TYPE('i) h (vc_faces c) (\<alpha> s) ls" and l: "l \<in> set ls"
  shows "id_for S h l (s, c :: 'i word vocab_cache) =
    (Inr (of_nat (index_of ls l)), (s, remember (of_nat (index_of ls l)) l c))"
proof -
  have "sget S s (name_key c h l) = Inr (Some (idb TYPE('i) (index_of ls l)))"
    using repr l by (simp add: get_ok [OF s] name_key_def vocab_repr_alt)
  then show ?thesis using sized by (simp add: id_for_def)
qed

lemma id_for_new:
  assumes sized: "byte_sized TYPE('i :: len)" and s: "ok s" and f: "faces_ok (vc_faces c)"
    and repr: "vocab_repr TYPE('i) h (vc_faces c) (\<alpha> s) ls" and c: "cache_ok (c :: 'i word vocab_cache) ls"
    and l: "l \<notin> set ls"
  shows "if Suc (length ls) < 2 ^ LENGTH('i)
    then \<exists>s'. id_for S h l (s, c) = (Inr (of_nat (length ls)),
        (s', remember (of_nat (length ls)) l (c\<lparr> vc_next_id := Some (of_nat (Suc (length ls))) \<rparr>))) \<and> ok s' \<and>
      \<alpha> s' = alloc TYPE('i) h (vc_faces c) (length ls) l (\<alpha> s)
    else id_for S h l (s, c) = (Inl (VocabularyExhausted (LENGTH('i) div 8) (2 ^ LENGTH('i))),
      (s, c\<lparr> vc_next_id := Some (of_nat (length ls)) \<rparr>))"
proof -
  let ?n = "of_nat (length ls) :: 'i word"
  have n: "length ls < 2 ^ LENGTH('i)" using repr by (simp add: vocab_repr_def)
  have un: "unat ?n = length ls" using n by (rule unat_of_nat_small)
  have get: "sget S s (name_key c h l) = Inr None"
    using repr l by (simp add: get_ok [OF s] name_key_def vocab_repr_def)
  have next_n: "take_next S s h c = (Inr ?n, c\<lparr> vc_next_id := Some ?n \<rparr>)"
    by (rule take_next_ok [OF sized s repr c])
  have max: "unat (- 1 :: 'i word) = 2 ^ LENGTH('i) - 1" by (simp add: unsigned_minus_1_eq_mask mask_eq_exp_minus_1)
  show ?thesis
  proof (cases "Suc (length ls) < 2 ^ LENGTH('i)")
    case True
    then have "?n \<noteq> - 1" using un max by (metis Suc_diff_1 nat_neq_iff zero_less_numeral zero_less_power)
    then have succ: "vocab_succ ?n = Some (1 + ?n)" by (simp add: vocab_succ_def add.commute)
    define ops where "ops = batch_put (batch_put (batch_put [] (name_key c h l) (to_be_bytes ?n)) (id_key c h ?n) l)
      (cursor_key h (vc_faces c)) (to_be_bytes (1 + ?n))"
    obtain s' where s': "scommit_batch S ops s = (Inr (), s')" "ok s'" "\<alpha> s' = apply_ops ops (\<alpha> s)"
      using commit_ok [OF s] by blast
    have "apply_ops ops (\<alpha> s) = alloc TYPE('i) h (vc_faces c) (length ls) l (\<alpha> s)"
      unfolding ops_def apply_ops_batch alloc_def name_key_def id_key_def cursor_key_def idb_def by simp
    moreover have "name_key (c\<lparr> vc_next_id := x \<rparr>) h l = name_key c h l" "id_key (c\<lparr> vc_next_id := x \<rparr>) h y = id_key c h y" for x y
      by (simp_all add: name_key_def id_key_def)
    ultimately show ?thesis
      using True s' by (simp add: id_for_def get next_n succ ops_def [symmetric])
  next
    case False
    then have len: "Suc (length ls) = 2 ^ LENGTH('i)" using n by simp
    then have "?n = - 1" using un max by (simp add: word_unat_eq_iff)
    then have "vocab_succ ?n = None" by (simp add: vocab_succ_def)
    then show ?thesis using False un len by (simp add: id_for_def get next_n)
  qed
qed

end

lemma alloc_other:
  "faces_ok f \<Longrightarrow> slot_valid sl \<Longrightarrow> sl \<noteq> id_slot f \<Longrightarrow> sl \<noteq> name_slot f \<Longrightarrow>
    alloc t h f n l m (face_key h sl @ x) = m (face_key h sl @ x)"
  using face_key_disjoint [of sl "id_slot f" h x] face_key_disjoint [of sl "name_slot f" h x]
    face_key_disjoint [of sl "id_slot f" h x "[]"]
  by (auto simp: alloc_def faces_ok_def)

context kv_point
begin

lemma name_for_ok:
  assumes sized: "byte_sized TYPE('i :: len)" and s: "ok s"
    and repr: "vocab_repr TYPE('i) h (vc_faces c) (\<alpha> s) ls" and c: "cache_ok (c :: 'i word vocab_cache) ls"
    and utf8: "list_all utf8_valid ls"
  shows "fst (name_for S s h i c) = Inr (if unat i < length ls then Some (ls ! unat i) else None)"
proof (cases "vc_by_id c i")
  case None
  have "i = of_nat (unat i)" by simp
  then have "\<alpha> s (id_key c h i) = (if unat i < length ls then Some (ls ! unat i) else None)"
    using repr unsigned_less [of i, where ?'a = nat] by (simp add: vocab_repr_def id_key_def to_be_bytes_idb)
  then show ?thesis using None utf8
    by (auto simp: name_for_def get_ok [OF s] from_utf8_def list_all_length)
next
  case (Some l)
  then show ?thesis using c by (auto simp: name_for_def cache_ok_def)
qed

lemma id_get_ok:
  assumes sized: "byte_sized TYPE('i :: len)" and s: "ok s"
    and repr: "vocab_repr TYPE('i) h (vc_faces c) (\<alpha> s) ls" and c: "cache_ok (c :: 'i word vocab_cache) ls"
  shows "fst (id_get S s h l c) = Inr (if l \<in> set ls then Some (of_nat (index_of ls l)) else None)"
proof (cases "vc_by_name c l")
  case None
  then show ?thesis using repr sized
    by (auto simp: id_get_def get_ok [OF s] name_key_def vocab_repr_alt)
next
  case (Some i)
  then have i: "unat i < length ls" "ls ! unat i = l" using c by (auto simp: cache_ok_def)
  then have "index_of ls l = unat i" using repr index_of_nth [of ls "unat i"] by (simp add: vocab_repr_def)
  then show ?thesis using Some i by (auto simp: id_get_def)
qed

end

text \<open>One interning, on every branch.\<close>

lemma id_for_step:
  assumes "kv_point S ok \<alpha>" "ok s" "byte_sized TYPE('i :: len)" "faces_ok (vc_faces c)"
    and "vocab_repr TYPE('i) h (vc_faces c) (\<alpha> s) ls" "cache_ok (c :: 'i word vocab_cache) ls"
  shows "\<exists>r s' c'. id_for S h l (s, c) = (r, (s', c')) \<and> ok s' \<and> vc_faces c' = vc_faces c \<and>
    (if l \<in> set ls then r = Inr (of_nat (index_of ls l)) \<and> s' = s \<and> cache_ok c' ls
     else if Suc (length ls) < 2 ^ LENGTH('i) then
       r = Inr (of_nat (length ls)) \<and> cache_ok c' (ls @ [l]) \<and>
       vocab_repr TYPE('i) h (vc_faces c) (\<alpha> s') (ls @ [l]) \<and>
       (\<forall>sl x. slot_valid sl \<and> sl \<noteq> id_slot (vc_faces c) \<and> sl \<noteq> name_slot (vc_faces c) \<longrightarrow>
          \<alpha> s' (face_key h sl @ x) = \<alpha> s (face_key h sl @ x))
     else r = Inl (VocabularyExhausted (LENGTH('i) div 8) (2 ^ LENGTH('i))) \<and> s' = s \<and> cache_ok c' ls)"
proof (cases "l \<in> set ls")
  case True
  note i = index_of_mem [OF True]
  have "length ls < 2 ^ LENGTH('i)" using assms(5) by (simp add: vocab_repr_def)
  then have "unat (of_nat (index_of ls l) :: 'i word) = index_of ls l"
    using i by (intro unat_of_nat_small) simp
  then show ?thesis
    using True i kv_point.id_for_known [OF assms(1,3,2,5) True] cache_remember [OF assms(6)] assms(2) by (simp add: remember_def)
next
  case False
  note new = kv_point.id_for_new [OF assms(1,3,2,4-6) False]
  show ?thesis
  proof (cases "Suc (length ls) < 2 ^ LENGTH('i)")
    case True
    then obtain s' where s': "id_for S h l (s, c) = (Inr (of_nat (length ls)),
        (s', remember (of_nat (length ls)) l (c\<lparr> vc_next_id := Some (of_nat (Suc (length ls))) \<rparr>)))"
      "ok s'" "\<alpha> s' = alloc TYPE('i) h (vc_faces c) (length ls) l (\<alpha> s)"
      using new by auto
    have un: "unat (of_nat (length ls) :: 'i word) = length ls" using True by (intro unat_of_nat_small) simp
    have "cache_ok (remember (of_nat (length ls)) l (c\<lparr> vc_next_id := Some (of_nat (Suc (length ls))) \<rparr>)) (ls @ [l])"
      by (rule cache_remember [OF cache_snoc [OF assms(6)]]) (simp_all add: un)
    then show ?thesis
      using s' False True vocab_repr_alloc [OF assms(3-5) False True]
        alloc_other [OF assms(4), where t = "TYPE('i)"] by (simp add: remember_def)
  next
    case full: False
    then show ?thesis using new False assms(2) cache_next [OF assms(6)] by simp
  qed
qed

section \<open>Properties\<close>

text \<open>
  C30: Interning a label answers its position in the vocabulary: a known label keeps its id and
  nothing is written; a new label claims the next id, which no label had before, and all
  other faces of the namespace stay as they are; when the id width has one id left the
  allocation is refused without a write. A vocabulary of width \<open>w\<close> thus holds \<open>2 ^ w - 1\<close>
  labels, one less than its ids.
\<close>

theorem id_for_spec:
  assumes "kv_point S ok \<alpha>" "ok s" "byte_sized TYPE('i :: len)" "faces_ok (vc_faces c)"
    and "vocab_repr TYPE('i) h (vc_faces c) (\<alpha> s) ls" "cache_ok (c :: 'i word vocab_cache) ls"
  shows "\<exists>r s' c'. id_for S h l (s, c) = (r, (s', c')) \<and> ok s' \<and>
    (if l \<in> set ls then r = Inr (of_nat (index_of ls l)) \<and> s' = s \<and> cache_ok c' ls
     else if Suc (length ls) < 2 ^ LENGTH('i) then
       r = Inr (of_nat (length ls)) \<and> cache_ok c' (ls @ [l]) \<and>
       vocab_repr TYPE('i) h (vc_faces c) (\<alpha> s') (ls @ [l]) \<and>
       (\<forall>sl x. slot_valid sl \<and> sl \<noteq> id_slot (vc_faces c) \<and> sl \<noteq> name_slot (vc_faces c) \<longrightarrow>
          \<alpha> s' (face_key h sl @ x) = \<alpha> s (face_key h sl @ x))
     else r = Inl (VocabularyExhausted (LENGTH('i) div 8) (2 ^ LENGTH('i))) \<and> s' = s \<and> cache_ok c' ls)"
  using id_for_step [OF assms, of l] by blast

lemma empty_repr: "vocab_repr TYPE('i :: len) h f Map.empty []"
  by (simp add: vocab_repr_def)

theorem id_for_spec_witness:
  "\<exists>s' c'. id_for mem_storage [0, 9] [97] ([], VocabCache_new FIELD_VOCAB :: 16 word vocab_cache) = (Inr 0, (s', c')) \<and>
     vocab_repr TYPE(16) [0, 9] FIELD_VOCAB (map_of s') [[97]]"
  using id_for_spec [OF mem.kv_point_axioms, of "[]" "VocabCache_new FIELD_VOCAB :: 16 word vocab_cache" "[0, 9]" "[]" "[97]"]
    empty_repr [where ?'i = 16, of "[0, 9]" FIELD_VOCAB]
  by (auto simp: mem_inv_def VocabCache_new_def cache_ok_def)

text \<open>
  The two directions of a vocabulary are inverse: an id below the number of labels
  resolves to its label, another id to none, and a label resolves to the id that names it,
  through any cache that agrees with the store.
\<close>

theorem vocab_bidirectional:
  assumes "kv_point S ok \<alpha>" "ok s" "byte_sized TYPE('i :: len)"
    and "vocab_repr TYPE('i) h (vc_faces c) (\<alpha> s) ls" "cache_ok (c :: 'i word vocab_cache) ls"
    and "list_all utf8_valid ls"
  shows "fst (name_for S s h i c) = Inr (if unat i < length ls then Some (ls ! unat i) else None) \<and>
    fst (id_get S s h l c) = Inr (if l \<in> set ls then Some (of_nat (index_of ls l)) else None) \<and>
    (unat i < length ls \<longrightarrow> fst (id_get S s h (ls ! unat i) c) = Inr (Some i))"
proof -
  have "index_of ls (ls ! unat i) = unat i" if "unat i < length ls"
    using that assms(4) index_of_nth by (auto simp: vocab_repr_def)
  then show ?thesis
    using kv_point.name_for_ok [OF assms(1,3,2,4-6), of i] kv_point.id_get_ok [OF assms(1,3,2,4,5)] by simp
qed

theorem vocab_bidirectional_witness:
  "fst (name_for mem_storage [] [0, 9] 3 (VocabCache_new FIELD_VOCAB :: 16 word vocab_cache)) = Inr None"
  using vocab_bidirectional [OF mem.kv_point_axioms, of "[]" "[0, 9]" "VocabCache_new FIELD_VOCAB :: 16 word vocab_cache" "[]" 3]
    empty_repr [where ?'i = 16, of "[0, 9]" FIELD_VOCAB]
  by (simp add: mem_inv_def VocabCache_new_def cache_ok_def)

end
