(* ===== verification/Okm_Dynamic.thy ===== *)
theory Okm_Dynamic
  imports Okm_Varint Okm_Vocab
begin

text \<open>
  Dynamic values and their frames: \<open>okm-core/src/model/obj_dynamic.rs\<close> and
  \<open>wrappers/obj_value.rs\<close>. A value is encoded against a name resolver, which may allocate
  ids (an effectful call), and decoded against the id to name direction.

  An \<open>f64\<close> is its 64 bits, an \<open>i64\<close> a 64-bit word read with \<open>sint\<close>, a \<open>String\<close> its UTF-8
  bytes, a \<open>BTreeMap\<close> a list sorted by key. Offsets into a body are the remaining bytes;
  frame lengths are unbounded naturals, so the wrap-around of \<open>off + n\<close> for lengths near
  \<open>2\<^sup>6\<^sup>4\<close> is not modelled.
\<close>

section \<open>Values and tags\<close>

datatype obj_value_type = VUInt | VF64 | VStr | VBytes | VBool | VNull | VArray | VObj | VInt

definition type_from_byte :: "byte \<Rightarrow> obj_value_type option" where
  "type_from_byte b =
     (if b = 0 then Some VUInt else if b = 1 then Some VF64 else if b = 2 then Some VStr
      else if b = 3 then Some VBytes else if b = 4 then Some VBool else if b = 5 then Some VNull
      else if b = 6 then Some VArray else if b = 7 then Some VObj else if b = 8 then Some VInt
      else None)"

definition type_to_byte :: "obj_value_type \<Rightarrow> byte" where
  "type_to_byte t =
     (case t of VUInt \<Rightarrow> 0 | VF64 \<Rightarrow> 1 | VStr \<Rightarrow> 2 | VBytes \<Rightarrow> 3 | VBool \<Rightarrow> 4 | VNull \<Rightarrow> 5
      | VArray \<Rightarrow> 6 | VObj \<Rightarrow> 7 | VInt \<Rightarrow> 8)"

datatype dynamic_value =
    DUInt u64
  | DInt u64
  | DF64 u64
  | DStr bytes
  | DBytes bytes
  | DBool bool
  | DNull
  | DArray "dynamic_value list"
  | DObj "(bytes \<times> dynamic_value) list"

definition dyn_kind :: "dynamic_value \<Rightarrow> string" where
  "dyn_kind v =
     (case v of DUInt _ \<Rightarrow> ''UInt'' | DInt _ \<Rightarrow> ''Int'' | DF64 _ \<Rightarrow> ''F64'' | DStr _ \<Rightarrow> ''Str''
      | DBytes _ \<Rightarrow> ''Bytes'' | DBool _ \<Rightarrow> ''Bool'' | DNull \<Rightarrow> ''Null'' | DArray _ \<Rightarrow> ''Array''
      | DObj _ \<Rightarrow> ''Obj'')"

definition vocab_id_from_u64 :: "u64 \<Rightarrow> 'i :: len word option" where
  "vocab_id_from_u64 v =
     (let w = LENGTH('i) div 8; img = replicate 8 0 @ to_be_bytes v in
      if list_ex (\<lambda>b. b \<noteq> 0) (take (16 - w) img) then None else from_be_bytes (drop (16 - w) img))"

text \<open>\<open>BTreeMap::insert\<close>.\<close>

fun bt_insert :: "bytes \<Rightarrow> 'v \<Rightarrow> (bytes \<times> 'v) list \<Rightarrow> (bytes \<times> 'v) list" where
  "bt_insert k v [] = [(k, v)]"
| "bt_insert k v ((k', v') # m) =
     (if k < k' then (k, v) # (k', v') # m
      else if k = k' then (k, v) # m
      else (k', v') # bt_insert k v m)"

text \<open>\<open>Iterator::position\<close>.\<close>

primrec position :: "('a \<Rightarrow> bool) \<Rightarrow> 'a list \<Rightarrow> nat option" where
  "position P [] = None"
| "position P (x # xs) = (if P x then Some 0 else map_option Suc (position P xs))"

section \<open>Encoding\<close>

definition put_id :: "u16 \<Rightarrow> bytes" where
  "put_id i = (if i < 0xFF then [ucast i] else 0xFF # to_be_bytes i)"

definition encode_int :: "u64 \<Rightarrow> bytes" where
  "encode_int v =
     (let be = to_be_bytes v;
          fill = (if sint v < 0 then 0xFF else 0x00);
          first = (case position (\<lambda>b. b \<noteq> fill) be of Some i \<Rightarrow> i | None \<Rightarrow> 7);
          start = (if sint v < 0 \<and> first > 0 then first - 1 else first)
      in drop start be)"

definition encode_uint :: "u64 \<Rightarrow> bytes" where
  "encode_uint v =
     (let be = to_be_bytes v;
          first = (case position (\<lambda>b. b \<noteq> 0) be of Some i \<Rightarrow> i | None \<Rightarrow> 7)
      in drop first be)"

type_synonym 's resolver = "bytes \<Rightarrow> ('s, u16) io"

text \<open>
  \<open>encode_value\<close> with the loops over array items and object fields. The object arm of
  \<open>put_frame_named_inner\<close> builds the same type and body as the one here.
\<close>

fun encode_value :: "'s resolver \<Rightarrow> dynamic_value \<Rightarrow> ('s, obj_value_type \<times> bytes) io"
  and encode_items :: "'s resolver \<Rightarrow> dynamic_value list \<Rightarrow> ('s, bytes) io"
  and encode_fields :: "'s resolver \<Rightarrow> (bytes \<times> dynamic_value) list \<Rightarrow> ('s, bytes) io" where
  "encode_value R (DInt v) = ioret (VInt, encode_int v)"
| "encode_value R (DUInt v) = ioret (VUInt, encode_uint v)"
| "encode_value R (DF64 v) = ioret (VF64, to_be_bytes v)"
| "encode_value R (DStr s) = ioret (VStr, s)"
| "encode_value R (DBytes b) = ioret (VBytes, b)"
| "encode_value R (DBool b) = ioret (VBool, [if b then 1 else 0])"
| "encode_value R DNull = ioret (VNull, [])"
| "encode_value R (DArray items) =
     iobind (encode_items R items) (\<lambda>body. ioret (VArray, put_len (length items) @ body))"
| "encode_value R (DObj m) = iobind (encode_fields R m) (\<lambda>body. ioret (VObj, body))"
| "encode_items R [] = ioret []"
| "encode_items R (item # items) =
     iobind (encode_value R item) (\<lambda>(ty, b). iobind (encode_items R items) (\<lambda>rest.
       ioret (type_to_byte ty # put_len (length b) @ b @ rest)))"
| "encode_fields R [] = ioret []"
| "encode_fields R ((k, v) # m) =
     iobind (R k) (\<lambda>i. iobind (encode_value R v) (\<lambda>(ty, b). iobind (encode_fields R m) (\<lambda>rest.
       ioret (put_id i @ type_to_byte ty # put_len (length b) @ b @ rest))))"

definition put_frame_named :: "'s resolver \<Rightarrow> bytes \<Rightarrow> bytes \<Rightarrow> dynamic_value \<Rightarrow> ('s, bytes) io" where
  "put_frame_named R buf name v =
     iobind (R name) (\<lambda>i. iobind (encode_value R v) (\<lambda>(ty, b).
       ioret (buf @ put_id i @ type_to_byte ty # put_len (length b) @ b)))"

definition no_vocab :: "'s resolver" where
  "no_vocab name = iothrow (VocabularyRequired (map (\<lambda>x. char_of (unat x)) name))"

definition put_frame :: "bytes \<Rightarrow> u16 \<Rightarrow> dynamic_value \<Rightarrow> bytes result" where
  "put_frame buf i v =
     (case encode_value (no_vocab :: unit resolver) v () of
        (Inl e, _) \<Rightarrow> Inl e
      | (Inr (ty, b), _) \<Rightarrow> Inr (buf @ put_id i @ type_to_byte ty # put_len (length b) @ b))"

section \<open>Decoding\<close>

fun dec_digits :: "nat \<Rightarrow> bytes" where
  "dec_digits n = (if n < 10 then [of_nat (48 + n)] else dec_digits (n div 10) @ [of_nat (48 + n mod 10)])"

definition decode_id :: "u16 reader" where
  "decode_id = rd_bind rd_byte (\<lambda>first.
     if first = 0xFF then rd_bind (rd_take 2) (\<lambda>b. rd_ret (of_nat (be_val b)))
     else rd_ret (ucast first))"

text \<open>The length of \<open>take_len\<close> and the body behind it.\<close>

definition read_body :: "bytes reader" where
  "read_body b =
     (case take_len b of None \<Rightarrow> None | Some (n, w) \<Rightarrow> rd_take n (drop w b))"

definition read_frame :: "(u16 \<times> byte \<times> bytes) reader" where
  "read_frame = rd_bind decode_id (\<lambda>i. rd_bind rd_byte (\<lambda>ty. rd_bind read_body (\<lambda>body.
     rd_ret (i, ty, body))))"

definition read_item :: "(byte \<times> bytes) reader" where
  "read_item = rd_bind rd_byte (\<lambda>ty. rd_bind read_body (\<lambda>body. rd_ret (ty, body)))"

definition decode_uint :: "bytes \<Rightarrow> u64 option" where
  "decode_uint body = (if length body > 8 then None else from_be_bytes (replicate (8 - length body) 0 @ body))"

definition decode_int :: "bytes \<Rightarrow> u64 option" where
  "decode_int body =
     (if body = [] \<or> length body > 8 then None
      else let fill = (if and (hd body) 0x80 \<noteq> 0 then 0xFF else 0x00) in
        from_be_bytes (replicate (8 - length body) fill @ body))"

definition field_name :: "(u16 \<Rightarrow> bytes option) \<Rightarrow> u16 \<Rightarrow> bytes" where
  "field_name name_of i = (case name_of i of Some n \<Rightarrow> n | None \<Rightarrow> dec_digits (unat i))"

lemma rd_byte_shorter: "rd_byte b = Some (x, r) \<Longrightarrow> length b = Suc (length r)"
  by (cases b) auto

lemma rd_take_shorter: "rd_take n b = Some (x, r) \<Longrightarrow> length b = length x + length r"
  by (auto simp: rd_take_def split: if_splits)

lemma read_body_shorter: "read_body b = Some (body, r) \<Longrightarrow> length body + length r < length b"
  by (auto simp: read_body_def split: option.splits dest!: rd_take_shorter take_len_width)

lemma read_item_shorter: "read_item b = Some ((ty, body), r) \<Longrightarrow> length body + length r < length b"
  by (auto simp: read_item_def rd_bind_def rd_ret_def split: option.splits
      dest!: rd_byte_shorter read_body_shorter)

lemma decode_id_shorter: "decode_id b = Some (i, r) \<Longrightarrow> length r < length b"
  by (auto simp: decode_id_def rd_bind_def rd_ret_def split: option.splits if_splits
      dest!: rd_byte_shorter rd_take_shorter)

lemma read_frame_shorter: "read_frame b = Some ((i, ty, body), r) \<Longrightarrow> length body + length r < length b"
  by (auto simp: read_frame_def rd_bind_def rd_ret_def split: option.splits
      dest!: decode_id_shorter rd_byte_shorter read_body_shorter)

function (sequential) decode_value ::
    "(u16 \<Rightarrow> bytes option) \<Rightarrow> obj_value_type \<Rightarrow> bytes \<Rightarrow> dynamic_value option"
  and decode_items :: "(u16 \<Rightarrow> bytes option) \<Rightarrow> nat \<Rightarrow> bytes \<Rightarrow> dynamic_value list option"
  and decode_fields :: "(u16 \<Rightarrow> bytes option) \<Rightarrow> bytes \<Rightarrow> (bytes \<times> dynamic_value) list
        \<Rightarrow> (bytes \<times> dynamic_value) list option" where
  "decode_value nm VUInt body = map_option DUInt (decode_uint body)"
| "decode_value nm VInt body = map_option DInt (decode_int body)"
| "decode_value nm VF64 body = (if length body \<noteq> 8 then None else map_option DF64 (from_be_bytes body))"
| "decode_value nm VStr body = map_option DStr (from_utf8 body)"
| "decode_value nm VBytes body = Some (DBytes body)"
| "decode_value nm VBool body = (if length body \<noteq> 1 then None else Some (DBool (hd body \<noteq> 0)))"
| "decode_value nm VNull body = (if body \<noteq> [] then None else Some DNull)"
| "decode_value nm VArray body =
     (case take_len body of
        None \<Rightarrow> None
      | Some (count, w) \<Rightarrow> map_option DArray (decode_items nm count (drop w body)))"
| "decode_value nm VObj body = map_option DObj (decode_fields nm body [])"
| "decode_items nm 0 b = Some []"
| "decode_items nm (Suc n) b =
     (case read_item b of
        None \<Rightarrow> None
      | Some ((ty, body), rest) \<Rightarrow>
          (case type_from_byte ty of
             None \<Rightarrow> None
           | Some t \<Rightarrow>
               (case decode_value nm t body of
                  None \<Rightarrow> None
                | Some v \<Rightarrow> map_option (\<lambda>vs. v # vs) (decode_items nm n rest))))"
| "decode_fields nm b acc =
     (if b = [] then Some acc
      else case read_frame b of
        None \<Rightarrow> None
      | Some ((i, ty, body), rest) \<Rightarrow>
          (case type_from_byte ty of
             None \<Rightarrow> None
           | Some t \<Rightarrow>
               (case decode_value nm t body of
                  None \<Rightarrow> None
                | Some v \<Rightarrow> decode_fields nm rest (bt_insert (field_name nm i) v acc))))"
  by pat_completeness auto

termination
proof (relation "measure (\<lambda>x. case x of
    Inl (nm, ty, body) \<Rightarrow> 2 * length body + 1
  | Inr (Inl (nm, n, b)) \<Rightarrow> 2 * length b
  | Inr (Inr (nm, b, acc)) \<Rightarrow> 2 * length b)")
qed (auto dest!: take_len_width read_item_shorter read_frame_shorter)

datatype frame_result = FMalformed | FUnknown bytes | FField u16 dynamic_value bytes

definition decode_frame_named :: "(u16 \<Rightarrow> bytes option) \<Rightarrow> bytes \<Rightarrow> frame_result" where
  "decode_frame_named nm b =
     (case read_frame b of
        None \<Rightarrow> FMalformed
      | Some ((i, ty, body), rest) \<Rightarrow>
          (case type_from_byte ty of
             None \<Rightarrow> FUnknown rest
           | Some t \<Rightarrow> (case decode_value nm t body of None \<Rightarrow> FMalformed | Some v \<Rightarrow> FField i v rest)))"

lemma decode_frame_shorter:
  "decode_frame_named nm b = FUnknown rest \<Longrightarrow> length rest < length b"
  "decode_frame_named nm b = FField i v rest \<Longrightarrow> length rest < length b"
  by (auto simp: decode_frame_named_def split: option.splits dest!: read_frame_shorter)

function decode_named :: "(u16 \<Rightarrow> bytes option) \<Rightarrow> bytes \<Rightarrow> (u16 \<times> dynamic_value) list" where
  "decode_named nm b =
     (if b = [] then []
      else case decode_frame_named nm b of
        FMalformed \<Rightarrow> []
      | FUnknown rest \<Rightarrow> decode_named nm rest
      | FField i v rest \<Rightarrow> (i, v) # decode_named nm rest)"
  by pat_completeness auto

termination
  by (relation "measure (\<lambda>(nm, b). length b)") (auto dest: decode_frame_shorter)

definition decode_variants :: "bytes \<Rightarrow> (u16 \<times> dynamic_value) list" where
  "decode_variants b = decode_named (\<lambda>_. None) b"

declare decode_fields.simps [simp del] decode_named.simps [simp del] dec_digits.simps [simp del]

section \<open>Scalars\<close>

lemma be_bytes_numeral:
  "be_bytes (numeral k) v = of_nat (v div 256 ^ pred_numeral k) # be_bytes (pred_numeral k) v"
  by (simp add: numeral_eq_Suc)

lemma position_drop:
  assumes "first = (case position (\<lambda>b. b \<noteq> fill) be of Some i \<Rightarrow> i | None \<Rightarrow> n)" "length be = Suc n"
  shows "first \<le> n" "be = replicate first fill @ drop first be"
proof -
  have pos: "case position (\<lambda>b. b \<noteq> fill) xs of
      Some i \<Rightarrow> i < length xs \<and> take i xs = replicate i fill \<and> xs ! i \<noteq> fill
    | None \<Rightarrow> xs = replicate (length xs) fill" for xs
    by (induction xs) (auto split: option.splits)
  show "first \<le> n" using pos [of be] assms by (auto split: option.splits)
  show "be = replicate first fill @ drop first be"
  proof (cases "position (\<lambda>b. b \<noteq> fill) be")
    case None
    then have "be = replicate (Suc n) fill" "first = n" using pos [of be] assms by auto
    then show ?thesis by (metis append_take_drop_id take_replicate min.absorb1 le_SucI order_refl)
  next
    case (Some i)
    then have "take first be = replicate first fill" using pos [of be] assms by auto
    then show ?thesis by (metis append_take_drop_id)
  qed
qed

lemma decode_encode_uint: "decode_uint (encode_uint v) = Some v"
proof -
  let ?be = "to_be_bytes v"
  define first where "first = (case position (\<lambda>b. b \<noteq> 0) ?be of Some i \<Rightarrow> i | None \<Rightarrow> 7)"
  have f: "first \<le> 7" "?be = replicate first 0 @ drop first ?be"
    using position_drop [where fill = 0 and be = ?be and n = 7] by (simp_all add: first_def)
  have "encode_uint v = drop first ?be" by (simp add: encode_uint_def first_def Let_def)
  moreover have "8 - length (drop first ?be) = first" using f(1) by simp
  ultimately show ?thesis using f by (simp add: decode_uint_def)
qed

text \<open>The leading byte that is kept carries the sign.\<close>

definition int_safe :: "u64 \<Rightarrow> bool" where
  "int_safe v \<longleftrightarrow> sint v < 0 \<or> hd (encode_int v) < 0x80"

lemma and_0x80_table: "list_all (\<lambda>n. (and (of_nat n :: byte) 0x80 \<noteq> 0) = (128 \<le> n)) [0..<256]"
  by code_simp

lemma and_0x80: "and b 0x80 \<noteq> 0 \<longleftrightarrow> 128 \<le> unat (b :: byte)"
proof -
  have "unat b \<in> set [0..<256]" by simp
  from and_0x80_table [unfolded list_all_iff, rule_format, OF this] show ?thesis by simp
qed

lemma sint_neg_iff: "sint (v :: u64) < 0 \<longleftrightarrow> 2 ^ 63 \<le> unat v"
proof -
  have "sint v < 0 \<longleftrightarrow> bit v 63" using bit_last_iff [of v] by simp
  also have "\<dots> \<longleftrightarrow> bit (unat v) 63" by (simp add: bit_unsigned_iff)
  also have "\<dots> \<longleftrightarrow> odd (unat v div 2 ^ 63)" by (simp only: bit_iff_odd)
  also have "\<dots> \<longleftrightarrow> 2 ^ 63 \<le> unat v"
  proof -
    have "unat v < 2 * 2 ^ 63" using unsigned_less [of v, where ?'a = nat] by simp
    then have "unat v div 2 ^ 63 < 2" by (simp add: less_mult_imp_div_less)
    then have "odd (unat v div 2 ^ 63) \<longleftrightarrow> unat v div 2 ^ 63 \<noteq> 0" by (cases "unat v div 2 ^ 63") auto
    then show ?thesis by (simp add: div_eq_0_iff linorder_not_less)
  qed
  finally show ?thesis .
qed

lemma sign_byte: "sint v < 0 \<longleftrightarrow> 128 \<le> unat (hd (to_be_bytes (v :: u64)))"
proof -
  have "to_be_bytes v = of_nat (unat v div 256 ^ 7) # be_bytes 7 (unat v)"
    using be_bytes.simps(2) [of 7 "unat v"] by (simp add: to_be_bytes_def del: be_bytes.simps)
  then have "hd (to_be_bytes v) = of_nat (unat v div 256 ^ 7)" by simp
  moreover have "unat v < 256 * 256 ^ 7" using unsigned_less [of v, where ?'a = nat] by simp
  then have "unat v div 256 ^ 7 < 256" by (simp add: less_mult_imp_div_less)
  moreover have "128 \<le> unat v div 256 ^ 7 \<longleftrightarrow> 128 * 256 ^ 7 \<le> unat v"
    by (rule less_eq_div_iff_mult_less_eq) simp
  ultimately show ?thesis by (simp add: sint_neg_iff unat_byte_small)
qed

lemma encode_int_split:
  obtains fill start where "fill = (if sint v < 0 then 0xFF else 0x00 :: byte)" "start \<le> 7"
    "to_be_bytes v = replicate start fill @ encode_int v" "length (encode_int v) = 8 - start"
    "sint v < 0 \<Longrightarrow> 128 \<le> unat (hd (encode_int v))"
proof -
  let ?be = "to_be_bytes v"
  define fill :: byte where "fill = (if sint v < 0 then 0xFF else 0x00)"
  define first where "first = (case position (\<lambda>b. b \<noteq> fill) ?be of Some i \<Rightarrow> i | None \<Rightarrow> 7)"
  define start where "start = (if sint v < 0 \<and> first > 0 then first - 1 else first)"
  have f: "first \<le> 7" "?be = replicate first fill @ drop first ?be"
    using position_drop [where fill = fill and be = ?be and n = 7] by (simp_all add: first_def)
  have enc: "encode_int v = drop start ?be"
    by (simp add: encode_int_def Let_def start_def first_def fill_def)
  have "take first ?be = replicate first fill" using f by (metis append_eq_conv_conj length_replicate)
  moreover have "start \<le> first" by (simp add: start_def)
  ultimately have t: "take start ?be = replicate start fill"
    by (metis min.absorb1 take_replicate take_take)
  have hd_neg: "128 \<le> unat (hd (encode_int v))" if neg: "sint v < 0"
  proof (cases "start = 0")
    case True
    then show ?thesis using neg sign_byte [of v] by (simp add: enc)
  next
    case False
    then have s: "first = Suc start" using neg by (auto simp: start_def split: if_splits)
    have "hd (drop start ?be) = ?be ! start" using f(1) s by (simp add: hd_drop_conv_nth)
    also have "\<dots> = take first ?be ! start" using s by simp
    also have "\<dots> = fill" unfolding \<open>take first ?be = replicate first fill\<close> by (rule nth_replicate) (simp add: s)
    finally show ?thesis using neg by (simp add: enc fill_def)
  qed
  show ?thesis
    using that [of fill start] f(1) t hd_neg \<open>start \<le> first\<close>
    by (simp add: fill_def [symmetric] enc) (metis append_take_drop_id fill_def)
qed

lemma decode_int_fill:
  assumes "bs \<noteq> []" "length bs \<le> 8"
  shows "decode_int bs = from_be_bytes (replicate (8 - length bs) (if 128 \<le> unat (hd bs) then 0xFF else 0x00) @ bs)"
  using assms by (simp add: decode_int_def and_0x80 Let_def)

lemma decode_encode_int: "int_safe v \<Longrightarrow> decode_int (encode_int v) = Some v"
proof -
  assume safe: "int_safe v"
  obtain fill start where e: "fill = (if sint v < 0 then 0xFF else 0x00 :: byte)" "start \<le> 7"
    "to_be_bytes v = replicate start fill @ encode_int v" "length (encode_int v) = 8 - start"
    "sint v < 0 \<Longrightarrow> 128 \<le> unat (hd (encode_int v))"
    using encode_int_split by blast
  have ne: "encode_int v \<noteq> []" "length (encode_int v) \<le> 8" using e(2,4) by auto
  have "fill = (if 128 \<le> unat (hd (encode_int v)) then 0xFF else 0x00)"
    using safe e(1,5) by (auto simp: int_safe_def word_less_nat_alt)
  moreover have "8 - length (encode_int v) = start" using e(2,4) by simp
  ultimately have "decode_int (encode_int v) = from_be_bytes (to_be_bytes v)"
    using decode_int_fill [OF ne] by (simp only: e(3))
  then show ?thesis by simp
qed

text \<open>A value without its sign byte comes back negative.\<close>

lemma decode_encode_int_unsafe:
  assumes "\<not> int_safe v"
  shows "\<exists>w. decode_int (encode_int v) = Some w \<and> sint w < 0 \<and> 0 \<le> sint v"
proof -
  obtain start where e: "start \<le> 7" "length (encode_int v) = 8 - start"
    using encode_int_split by blast
  have hd: "128 \<le> unat (hd (encode_int v))" using assms by (simp add: int_safe_def word_less_nat_alt)
  have ne: "encode_int v \<noteq> []" "length (encode_int v) \<le> 8" using e by auto
  let ?b = "replicate start 0xFF @ encode_int v"
  have "decode_int (encode_int v) = from_be_bytes ?b"
    using e hd by (simp add: decode_int_fill [OF ne])
  moreover obtain w where w: "from_be_bytes ?b = Some (w :: u64)"
    using e by (simp add: from_be_bytes_def)
  moreover have "to_be_bytes w = ?b" by (rule to_from_be_bytes [OF _ w]) simp
  then have "128 \<le> unat (hd (to_be_bytes w))" using hd by (cases start) simp_all
  ultimately show ?thesis using sign_byte [of w] assms by (auto simp: int_safe_def)
qed

section \<open>Frames\<close>

lemma type_byte [simp]: "type_from_byte (type_to_byte t) = Some t"
  by (cases t) (simp_all add: type_from_byte_def type_to_byte_def)

lemma put_len_small: "n < 128 \<Longrightarrow> put_len n = [of_nat n]"
proof -
  assume n: "n < 128"
  then have u: "unat (of_nat n :: u64) = n" by (intro unat_u64_of_nat) simp
  have "width_of (of_nat n :: u64) = 1"
  proof (cases "of_nat n :: u64" rule: width_of_spec)
    case small
    show ?thesis
    proof (rule ccontr)
      assume "width_of (of_nat n :: u64) \<noteq> 1"
      then have "7 * 1 \<le> 7 * (width_of (of_nat n :: u64) - 1)" using small(1) by (intro mult_le_mono2) simp
      then have "(2 :: nat) ^ (7 * 1) \<le> 2 ^ (7 * (width_of (of_nat n :: u64) - 1))" by (rule power_increasing) simp
      then show False using small u n by simp
    qed
  next
    case big
    then show ?thesis using u n by simp
  qed
  then show ?thesis using n u by (simp add: put_len_varint varint_encode_image varint_image_def be_bytes_1 [simplified])
qed

lemma read_body_put: "length b < 2 ^ 49 \<Longrightarrow> read_body (put_len (length b) @ b @ r) = Some (b, r)"
  by (simp add: read_body_def take_len_put)

lemma decode_id_put: "decode_id (put_id i @ r) = Some (i, r)"
proof (cases "i < 0xFF")
  case True
  then have i: "unat i < 255" by (simp add: word_less_nat_alt)
  have b: "(ucast i :: byte) = of_nat (unat i)" by simp
  have u: "unat (ucast i :: byte) = unat i" unfolding b using i by (intro unat_byte_small) simp
  then have ne: "(ucast i :: byte) \<noteq> 0xFF" using i by (auto simp: word_unat_eq_iff)
  have "(ucast (ucast i :: byte) :: u16) = of_nat (unat (ucast i :: byte))" by simp
  then have "ucast (ucast i :: byte) = i" unfolding u by simp
  with ne show ?thesis using True by (simp add: put_id_def decode_id_def rd_bind_def rd_ret_def)
next
  case False
  have "unat i < 256 ^ 2" using unsigned_less [of i, where ?'a = nat] by simp
  then have "of_nat (be_val (to_be_bytes i)) = i" by (simp add: to_be_bytes_def)
  then show ?thesis using False
    by (simp add: put_id_def decode_id_def rd_bind_def rd_ret_def)
qed

lemma read_frame_put:
  "length b < 2 ^ 49 \<Longrightarrow> read_frame (put_id i @ ty # put_len (length b) @ b @ r) = Some ((i, ty, b), r)"
  by (simp add: read_frame_def rd_bind_def rd_ret_def decode_id_put read_body_put)

lemma read_item_put:
  "length b < 2 ^ 49 \<Longrightarrow> read_item (ty # put_len (length b) @ b @ r) = Some ((ty, b), r)"
  by (simp add: read_item_def rd_bind_def rd_ret_def read_body_put)

lemma put_id_not_Nil [simp]: "put_id i \<noteq> []"
  by (simp add: put_id_def)

lemma bt_insert_last: "\<forall>k' \<in> fst ` set m. k' < k \<Longrightarrow> bt_insert k v m = m @ [(k, v)]"
  by (induction m) auto

section \<open>Name vocabularies as an interface\<close>

text \<open>
  What the codec needs of a vocabulary: resolving a name answers an id that names it, and
  ids keep their names.
\<close>

locale name_vocab =
  fixes R :: "'s resolver" and okv :: "'s \<Rightarrow> bool" and names :: "'s \<Rightarrow> u16 \<Rightarrow> bytes option"
  assumes resolve_ok: "okv s \<Longrightarrow> utf8_valid n \<Longrightarrow> R n s = (Inr i, s') \<Longrightarrow>
      okv s' \<and> names s' i = Some n \<and> names s \<subseteq>\<^sub>m names s'"

text \<open>Values a decoder can give back: text is UTF-8, keys are sorted, integers keep their sign.\<close>

fun dyn_ok :: "dynamic_value \<Rightarrow> bool" where
  "dyn_ok (DInt v) = int_safe v"
| "dyn_ok (DStr s) = utf8_valid s"
| "dyn_ok (DArray items) = (\<forall>v \<in> set items. dyn_ok v)"
| "dyn_ok (DObj m) = (sorted_wrt (<) (map fst m) \<and> (\<forall>p \<in> set m. utf8_valid (fst p) \<and> dyn_ok (snd p)))"
| "dyn_ok v = True"

context name_vocab
begin

lemma encode_items_length: "encode_items R items s = (Inr b, s') \<Longrightarrow> length items \<le> length b"
  by (induction items arbitrary: b s s') (auto simp: iobind_eq_Inr split: prod.splits, fastforce)

lemma map_le_trans2: "names a \<subseteq>\<^sub>m names b \<Longrightarrow> names b \<subseteq>\<^sub>m m \<Longrightarrow> names a \<subseteq>\<^sub>m m"
  by (rule map_le_trans)

lemma roundtrip:
  "R' = R \<longrightarrow> (\<forall>s s' t b. okv s \<longrightarrow> dyn_ok v \<longrightarrow> encode_value R' v s = (Inr (t, b), s') \<longrightarrow> length b < 2 ^ 49 \<longrightarrow>
      okv s' \<and> names s \<subseteq>\<^sub>m names s' \<and> (\<forall>nm. names s' \<subseteq>\<^sub>m nm \<longrightarrow> decode_value nm t b = Some v))"
  "R' = R \<longrightarrow> (\<forall>s s' b. okv s \<longrightarrow> (\<forall>v \<in> set items. dyn_ok v) \<longrightarrow> encode_items R' items s = (Inr b, s') \<longrightarrow> length b < 2 ^ 49 \<longrightarrow>
      okv s' \<and> names s \<subseteq>\<^sub>m names s' \<and>
      (\<forall>nm r. names s' \<subseteq>\<^sub>m nm \<longrightarrow> decode_items nm (length items) (b @ r) = Some items))"
  "R' = R \<longrightarrow> (\<forall>s s' b acc. okv s \<longrightarrow> dyn_ok (DObj m) \<longrightarrow> (\<forall>k \<in> fst ` set acc. \<forall>k' \<in> fst ` set m. k < k') \<longrightarrow>
      encode_fields R' m s = (Inr b, s') \<longrightarrow> length b < 2 ^ 49 \<longrightarrow>
      okv s' \<and> names s \<subseteq>\<^sub>m names s' \<and> (\<forall>nm. names s' \<subseteq>\<^sub>m nm \<longrightarrow> decode_fields nm b acc = Some (acc @ m)))"
proof (induction R' v and R' items and R' m rule: encode_value_encode_items_encode_fields.induct)
  case (8 R' items)
  show ?case
  proof (intro impI allI)
    fix s s' t b
    assume R': "R' = R" and s: "okv s" and dyn: "dyn_ok (DArray items)"
      and enc: "encode_value R' (DArray items) s = (Inr (t, b), s')" and len: "length b < 2 ^ 49"
    obtain body where e: "encode_items R items s = (Inr body, s')"
      and tb: "t = VArray" "b = put_len (length items) @ body"
      using enc R' by (auto simp: iobind_eq_Inr)
    have "length items < 2 ^ 49" using encode_items_length [OF e] len tb by simp
    then have "take_len b = Some (length items, length (put_len (length items)))"
      using tb take_len_put [of "length items" body] by simp
    moreover have "okv s' \<and> names s \<subseteq>\<^sub>m names s' \<and>
      (\<forall>nm. names s' \<subseteq>\<^sub>m nm \<longrightarrow> decode_items nm (length items) (body @ []) = Some items)"
      using 8 R' s dyn e len tb by (simp del: append_Nil2)
    ultimately show "okv s' \<and> names s \<subseteq>\<^sub>m names s' \<and> (\<forall>nm. names s' \<subseteq>\<^sub>m nm \<longrightarrow> decode_value nm t b = Some (DArray items))"
      using tb by simp
  qed
next
  case (9 R' m)
  show ?case
  proof (intro impI allI)
    fix s s' t b
    assume R': "R' = R" and s: "okv s" and dyn: "dyn_ok (DObj m)"
      and enc: "encode_value R' (DObj m) s = (Inr (t, b), s')" and len: "length b < 2 ^ 49"
    have e: "encode_fields R m s = (Inr b, s')" and t: "t = VObj"
      using enc R' by (auto simp: iobind_eq_Inr)
    have "okv s' \<and> names s \<subseteq>\<^sub>m names s' \<and> (\<forall>nm. names s' \<subseteq>\<^sub>m nm \<longrightarrow> decode_fields nm b [] = Some ([] @ m))"
      using mp [OF 9 R', THEN spec [of _ s], THEN spec [of _ s'], THEN spec [of _ b], THEN spec [of _ "[]"]]
        R' s dyn e len by simp
    then show "okv s' \<and> names s \<subseteq>\<^sub>m names s' \<and> (\<forall>nm. names s' \<subseteq>\<^sub>m nm \<longrightarrow> decode_value nm t b = Some (DObj m))"
      using t by simp
  qed
next
  case (11 R' item items)
  show ?case
  proof (intro impI allI)
    fix s s' b
    assume R': "R' = R" and s: "okv s" and dyn: "\<forall>v \<in> set (item # items). dyn_ok v"
      and enc: "encode_items R' (item # items) s = (Inr b, s')" and len: "length b < 2 ^ 49"
    obtain ty ib rest s1 where e1: "encode_value R item s = (Inr (ty, ib), s1)"
      and e2: "encode_items R items s1 = (Inr rest, s')"
      and b: "b = type_to_byte ty # put_len (length ib) @ ib @ rest"
      using enc R' by (auto simp: iobind_eq_Inr split: prod.splits)
    have l: "length ib < 2 ^ 49" "length rest < 2 ^ 49" using b len by auto
    have 1: "okv s1" "names s \<subseteq>\<^sub>m names s1" "\<And>nm. names s1 \<subseteq>\<^sub>m nm \<Longrightarrow> decode_value nm ty ib = Some item"
      using 11(1) R' s dyn e1 l(1) by auto
    have 2: "okv s'" "names s1 \<subseteq>\<^sub>m names s'"
      "\<And>nm r. names s' \<subseteq>\<^sub>m nm \<Longrightarrow> decode_items nm (length items) (rest @ r) = Some items"
      using 11(2) R' 1(1) dyn e2 l(2) by auto
    have "read_item (b @ r) = Some ((type_to_byte ty, ib), rest @ r)" for r
      using read_item_put [OF l(1), of "type_to_byte ty" "rest @ r"] b by simp
    then show "okv s' \<and> names s \<subseteq>\<^sub>m names s' \<and>
      (\<forall>nm r. names s' \<subseteq>\<^sub>m nm \<longrightarrow> decode_items nm (length (item # items)) (b @ r) = Some (item # items))"
      using 1(1,2) 2(1,2) 1(3) [OF map_le_trans [OF 2(2)]] 2(3) by (simp add: map_le_trans [OF 1(2) 2(2)])
  qed
next
  case (13 R' k v m)
  show ?case
  proof (intro impI allI)
    fix s s' b and acc :: "(bytes \<times> dynamic_value) list"
    assume R': "R' = R" and s: "okv s" and dyn: "dyn_ok (DObj ((k, v) # m))"
      and acc: "\<forall>x \<in> fst ` set acc. \<forall>k' \<in> fst ` set ((k, v) # m). x < k'"
      and enc: "encode_fields R' ((k, v) # m) s = (Inr b, s')" and len: "length b < 2 ^ 49"
    obtain i s0 ty ib s1 rest where e0: "R k s = (Inr i, s0)" and e1: "encode_value R v s0 = (Inr (ty, ib), s1)"
      and e2: "encode_fields R m s1 = (Inr rest, s')"
      and b: "b = put_id i @ type_to_byte ty # put_len (length ib) @ ib @ rest"
      using enc R' by (auto simp: iobind_eq_Inr split: prod.splits)
    have l: "length ib < 2 ^ 49" "length rest < 2 ^ 49" using b len by auto
    have 0: "okv s0" "names s0 i = Some k" "names s \<subseteq>\<^sub>m names s0"
      using resolve_ok [OF s _ e0] dyn by auto
    have 1: "okv s1" "names s0 \<subseteq>\<^sub>m names s1" "\<And>nm. names s1 \<subseteq>\<^sub>m nm \<Longrightarrow> decode_value nm ty ib = Some v"
      using 13(1) R' 0(1) dyn e1 l(1) by auto
    let ?acc = "acc @ [(k, v)]"
    have "dyn_ok (DObj m)" "\<forall>x \<in> fst ` set ?acc. \<forall>k' \<in> fst ` set m. x < k'" using dyn acc by auto
    then have 2: "okv s'" "names s1 \<subseteq>\<^sub>m names s'"
      "\<And>nm. names s' \<subseteq>\<^sub>m nm \<Longrightarrow> decode_fields nm rest ?acc = Some (?acc @ m)"
      using 13(2) R' 1(1) e2 l(2) by blast+
    have rd: "read_frame b = Some ((i, type_to_byte ty, ib), rest)"
      using read_frame_put [OF l(1), of i "type_to_byte ty" rest] b by simp
    have ins: "bt_insert k v acc = ?acc" using acc by (intro bt_insert_last) auto
    have "decode_fields nm b acc = Some (acc @ (k, v) # m)" if nm: "names s' \<subseteq>\<^sub>m nm" for nm
    proof -
      have le: "names s1 \<subseteq>\<^sub>m nm" "names s0 \<subseteq>\<^sub>m nm" using nm 1(2) 2(2) map_le_trans by blast+
      then have "field_name nm i = k" using 0(2) by (auto simp: field_name_def map_le_def dom_def)
      then show ?thesis
        using decode_fields.simps [of nm b acc] rd b 1(3) [OF le(1)] 2(3) [OF nm] ins by simp
    qed
    then show "okv s' \<and> names s \<subseteq>\<^sub>m names s' \<and>
      (\<forall>nm. names s' \<subseteq>\<^sub>m nm \<longrightarrow> decode_fields nm b acc = Some (acc @ (k, v) # m))"
      using 0 1 2 map_le_trans by blast
  qed
qed (auto simp: decode_encode_int decode_encode_uint from_utf8_def decode_fields.simps)

end

text \<open>Encoding succeeds as long as the vocabulary has room for the names of the value.\<close>

fun name_count :: "dynamic_value \<Rightarrow> nat" where
  "name_count (DArray items) = sum_list (map name_count items)"
| "name_count (DObj m) = sum_list (map (\<lambda>p. Suc (name_count (snd p))) m)"
| "name_count v = 0"

locale name_room = name_vocab +
  fixes room :: "'s \<Rightarrow> nat"
  assumes resolve_room: "okv s \<Longrightarrow> utf8_valid n \<Longrightarrow> 0 < room s \<Longrightarrow>
      \<exists>i s'. R n s = (Inr i, s') \<and> room s \<le> Suc (room s')"
begin

lemma resolve_step: "okv s \<Longrightarrow> utf8_valid n \<Longrightarrow> 0 < room s \<Longrightarrow>
    \<exists>i s'. R n s = (Inr i, s') \<and> okv s' \<and> room s \<le> Suc (room s')"
  using resolve_room resolve_ok by blast

lemma encode_total:
  "R' = R \<longrightarrow> (\<forall>s. okv s \<longrightarrow> dyn_ok v \<longrightarrow> name_count v \<le> room s \<longrightarrow>
      (\<exists>t b s'. encode_value R' v s = (Inr (t, b), s') \<and> okv s' \<and> room s \<le> name_count v + room s'))"
  "R' = R \<longrightarrow> (\<forall>s. okv s \<longrightarrow> (\<forall>v \<in> set items. dyn_ok v) \<longrightarrow> name_count (DArray items) \<le> room s \<longrightarrow>
      (\<exists>b s'. encode_items R' items s = (Inr b, s') \<and> okv s' \<and> room s \<le> name_count (DArray items) + room s'))"
  "R' = R \<longrightarrow> (\<forall>s. okv s \<longrightarrow> (\<forall>p \<in> set m. utf8_valid (fst p) \<and> dyn_ok (snd p)) \<longrightarrow> name_count (DObj m) \<le> room s \<longrightarrow>
      (\<exists>b s'. encode_fields R' m s = (Inr b, s') \<and> okv s' \<and> room s \<le> name_count (DObj m) + room s'))"
proof (induction R' v and R' items and R' m rule: encode_value_encode_items_encode_fields.induct)
  case (8 R' items)
  then show ?case by (auto simp: iobind_def ioret_def)
next
  case (9 R' m)
  then show ?case by (auto simp: iobind_def ioret_def)
next
  case (11 R' item items)
  show ?case
  proof (intro impI allI)
    fix s
    assume a: "R' = R" "okv s" "\<forall>v \<in> set (item # items). dyn_ok v" "name_count (DArray (item # items)) \<le> room s"
    obtain t b s1 where 1: "encode_value R item s = (Inr (t, b), s1)" "okv s1" "room s \<le> name_count item + room s1"
      using 11(1) a by auto
    obtain rest s2 where 2: "encode_items R items s1 = (Inr rest, s2)" "okv s2"
      "room s1 \<le> name_count (DArray items) + room s2"
      using 11(2) a 1 by auto
    show "\<exists>b s'. encode_items R' (item # items) s = (Inr b, s') \<and> okv s' \<and>
      room s \<le> name_count (DArray (item # items)) + room s'"
      using a(1) 1 2 by (simp add: iobind_def ioret_def)
  qed
next
  case (13 R' k v m)
  show ?case
  proof (intro impI allI)
    fix s
    assume a: "R' = R" "okv s" "\<forall>p \<in> set ((k, v) # m). utf8_valid (fst p) \<and> dyn_ok (snd p)"
      "name_count (DObj ((k, v) # m)) \<le> room s"
    obtain i s0 where 0: "R k s = (Inr i, s0)" "okv s0" "room s \<le> Suc (room s0)"
      using resolve_step [of s k] a by auto
    obtain t b s1 where 1: "encode_value R v s0 = (Inr (t, b), s1)" "okv s1" "room s0 \<le> name_count v + room s1"
      using 13(1) a 0 by auto
    obtain rest s2 where 2: "encode_fields R m s1 = (Inr rest, s2)" "okv s2"
      "room s1 \<le> name_count (DObj m) + room s2"
      using 13(2) a 0 1 by auto
    show "\<exists>b s'. encode_fields R' ((k, v) # m) s = (Inr b, s') \<and> okv s' \<and>
      room s \<le> name_count (DObj ((k, v) # m)) + room s'"
      using a(1) 0 1 2 by (simp add: iobind_def ioret_def)
  qed
qed (auto simp: ioret_def)

end

section \<open>The vocabulary of a namespace\<close>

definition vocab_state ::
    "('s \<Rightarrow> bool) \<Rightarrow> ('s \<Rightarrow> bytes \<rightharpoonup> bytes) \<Rightarrow> bytes \<Rightarrow> vocab_faces \<Rightarrow> 's \<times> u16 vocab_cache \<Rightarrow> bool" where
  "vocab_state ok \<alpha> h f = (\<lambda>(s, c). ok s \<and> vc_faces c = f \<and>
     (\<exists>ls. vocab_repr TYPE(16) h f (\<alpha> s) ls \<and> cache_ok c ls \<and> list_all utf8_valid ls))"

definition vocab_names ::
    "('s \<Rightarrow> bytes \<rightharpoonup> bytes) \<Rightarrow> bytes \<Rightarrow> vocab_faces \<Rightarrow> 's \<times> u16 vocab_cache \<Rightarrow> u16 \<Rightarrow> bytes option" where
  "vocab_names \<alpha> h f = (\<lambda>(s, c) i. Option.bind (\<alpha> s (face_key h (id_slot f) @ to_be_bytes i)) from_utf8)"

definition vocab_room ::
    "('s \<Rightarrow> bytes \<rightharpoonup> bytes) \<Rightarrow> bytes \<Rightarrow> vocab_faces \<Rightarrow> 's \<times> u16 vocab_cache \<Rightarrow> nat" where
  "vocab_room \<alpha> h f = (\<lambda>(s, c). 2 ^ 16 - 1 - card {l. \<alpha> s (face_key h (name_slot f) @ l) \<noteq> None})"

lemma vocab_names_repr:
  assumes "vocab_repr TYPE(16) h f (\<alpha> s) ls" "list_all utf8_valid ls"
  shows "vocab_names \<alpha> h f (s, c) i = (if unat i < length ls then Some (ls ! unat i) else None)"
proof -
  have "\<alpha> s (face_key h (id_slot f) @ to_be_bytes i) = (if unat i < length ls then Some (ls ! unat i) else None)"
    using assms(1) unsigned_less [of i, where ?'a = nat] by (simp add: vocab_repr_def to_be_bytes_idb)
  then show ?thesis using assms(2) by (auto simp: vocab_names_def from_utf8_def list_all_length)
qed

lemma vocab_room_repr:
  assumes "vocab_repr TYPE(16) h f (\<alpha> s) ls"
  shows "vocab_room \<alpha> h f (s, c) = 2 ^ 16 - 1 - length ls"
proof -
  have "{l. \<alpha> s (face_key h (name_slot f) @ l) \<noteq> None} = set ls" using assms by (auto simp: vocab_repr_def)
  then show ?thesis using assms by (simp add: vocab_room_def vocab_repr_def distinct_card)
qed

lemma remember_faces [simp]: "vc_faces (remember i l c) = vc_faces c"
  by (simp add: remember_def)

lemma vocab_name_room:
  assumes kv: "kv_point S ok \<alpha>" and f: "faces_ok f"
  shows "name_room (id_for S h) (vocab_state ok \<alpha> h f) (vocab_names \<alpha> h f) (vocab_room \<alpha> h f)"
proof -
  have step: "case id_for S h n sc of
      (Inr i, sc') \<Rightarrow> vocab_state ok \<alpha> h f sc' \<and> vocab_names \<alpha> h f sc' i = Some n \<and>
        vocab_names \<alpha> h f sc \<subseteq>\<^sub>m vocab_names \<alpha> h f sc' \<and> vocab_room \<alpha> h f sc \<le> Suc (vocab_room \<alpha> h f sc')
    | (Inl _, _) \<Rightarrow> vocab_room \<alpha> h f sc = 0"
    if st: "vocab_state ok \<alpha> h f sc" and n: "utf8_valid n" for sc n
  proof -
    obtain s c where sc: "sc = (s, c)" by (cases sc)
    obtain ls where s: "ok s" and vf: "vc_faces c = f" and repr: "vocab_repr TYPE(16) h f (\<alpha> s) ls"
      and c: "cache_ok c ls" and utf8: "list_all utf8_valid ls"
      using st by (auto simp: vocab_state_def sc)
    have sized: "byte_sized TYPE(16)" by (simp add: byte_sized_def)
    note sides = vocab_room_repr [where \<alpha> = \<alpha> and s = s, OF repr] vocab_names_repr [where \<alpha> = \<alpha> and s = s, OF repr utf8]
    show ?thesis
    proof (cases "n \<in> set ls")
      case True
      note i = index_of_mem [OF True]
      have "length ls < 2 ^ 16" using repr by (simp add: vocab_repr_def)
      then have u: "unat (of_nat (index_of ls n) :: u16) = index_of ls n" using i unat_of_nat_small [where ?'i = 16] by simp
      have "id_for S h n (s, c) = (Inr (of_nat (index_of ls n)), (s, remember (of_nat (index_of ls n)) n c))"
        by (rule kv_point.id_for_known [OF kv sized s _ True]) (simp add: vf repr)
      moreover have "cache_ok (remember (of_nat (index_of ls n)) n c) ls"
        by (rule cache_remember [OF c]) (simp_all add: u i)
      ultimately show ?thesis using s vf repr utf8 i u by (auto simp: sc vocab_state_def sides map_le_def)
    next
      case False
      note new = kv_point.id_for_new [OF kv sized s, of c h ls n, unfolded vf, OF f repr c False]
      show ?thesis
      proof (cases "Suc (length ls) < 2 ^ 16")
        case True
        then have u: "unat (of_nat (length ls) :: u16) = length ls" using unat_of_nat_small [where ?'i = 16] by simp
        obtain s' where s': "id_for S h n (s, c) = (Inr (of_nat (length ls)),
            (s', remember (of_nat (length ls)) n (c\<lparr> vc_next_id := Some (of_nat (Suc (length ls))) \<rparr>)))"
          "ok s'" "\<alpha> s' = alloc TYPE(16) h f (length ls) n (\<alpha> s)"
          using new True by auto
        have repr': "vocab_repr TYPE(16) h f (\<alpha> s') (ls @ [n])"
          unfolding s'(3) by (rule vocab_repr_alloc [OF sized f repr False]) (use True in simp)
        have utf8': "list_all utf8_valid (ls @ [n])" using utf8 n by simp
        have c': "cache_ok (remember (of_nat (length ls)) n (c\<lparr> vc_next_id := Some (of_nat (Suc (length ls))) \<rparr>)) (ls @ [n])"
          by (rule cache_remember [OF cache_snoc [OF c]]) (simp_all add: u)
        note sides' = vocab_room_repr [where \<alpha> = \<alpha> and s = s', OF repr'] vocab_names_repr [where \<alpha> = \<alpha> and s = s', OF repr' utf8']
        have st': "vocab_state ok \<alpha> h f (s', remember (of_nat (length ls)) n (c\<lparr> vc_next_id := Some (of_nat (Suc (length ls))) \<rparr>))"
          using s'(2) vf repr' utf8' c' by (auto simp: vocab_state_def)
        show ?thesis using st' u by (auto simp: sc s'(1) sides sides' map_le_def nth_append split: if_splits)
      next
        case full: False
        then have "id_for S h n (s, c) = (Inl (VocabularyExhausted 2 (2 ^ 16)), (s, c\<lparr> vc_next_id := Some (of_nat (length ls)) \<rparr>))"
          using new by simp
        then show ?thesis using full by (simp add: sc sides)
      qed
    qed
  qed
  show ?thesis
  proof
    show "vocab_state ok \<alpha> h f s' \<and> vocab_names \<alpha> h f s' i = Some n \<and> vocab_names \<alpha> h f s \<subseteq>\<^sub>m vocab_names \<alpha> h f s'"
      if "vocab_state ok \<alpha> h f s" "utf8_valid n" "id_for S h n s = (Inr i, s')" for s n i s'
      using step [OF that(1,2)] that(3) by simp
    show "\<exists>i s'. id_for S h n s = (Inr i, s') \<and> vocab_room \<alpha> h f s \<le> Suc (vocab_room \<alpha> h f s')"
      if "vocab_state ok \<alpha> h f s" "utf8_valid n" "0 < vocab_room \<alpha> h f s" for s n
      using step [OF that(1,2)] that(3) by (cases "id_for S h n s"; cases "fst (id_for S h n s)") auto
  qed
qed

interpretation mem_fields: name_room "id_for mem_storage h" "vocab_state mem_inv map_of h FIELD_VOCAB"
    "vocab_names map_of h FIELD_VOCAB" "vocab_room map_of h FIELD_VOCAB" for h
  by (rule vocab_name_room [OF mem.kv_point_axioms]) simp

section \<open>Properties\<close>

lemma decode_frame_put:
  "length b < 2 ^ 49 \<Longrightarrow> decode_value nm t b = Some v \<Longrightarrow>
    decode_frame_named nm (put_id i @ type_to_byte t # put_len (length b) @ b @ rest) = FField i v rest"
  by (simp add: decode_frame_named_def read_frame_put)

lemma decode_named_put:
  "length b < 2 ^ 49 \<Longrightarrow> decode_value nm t b = Some v \<Longrightarrow>
    decode_named nm (put_id i @ type_to_byte t # put_len (length b) @ b @ rest) = (i, v) # decode_named nm rest"
  by (simp add: decode_named.simps [of nm "put_id i @ _"] decode_frame_put)

text \<open>
  C32: A named field written through a vocabulary reads back through it, for every well-formed value
  (\<open>dyn_ok\<close> at every depth: names and strings are UTF-8, objects are in the order of their names, and no
  nonnegative signed integer has a shortest form that starts at 0x80 or above): if the vocabulary has
  room for the name and all names of the value, the frame is written and the vocabulary keeps the
  names it had; if the encoded value is shorter than 2^49 bytes, the frame decodes to the field under
  an id that names it, whatever follows it in the body.
\<close>

theorem named_field_roundtrip:
  assumes "kv_point S ok \<alpha>" "faces_ok f" "vocab_state ok \<alpha> h f sc"
    and "utf8_valid n" "dyn_ok v" "name_count v < vocab_room \<alpha> h f sc"
  shows "\<exists>i t b sc'. put_frame_named (id_for S h) buf n v sc =
      (Inr (buf @ put_id i @ type_to_byte t # put_len (length b) @ b), sc') \<and>
    vocab_state ok \<alpha> h f sc' \<and>
    (length b < 2 ^ 49 \<longrightarrow>
       vocab_names \<alpha> h f sc \<subseteq>\<^sub>m vocab_names \<alpha> h f sc' \<and> vocab_names \<alpha> h f sc' i = Some n \<and>
       (\<forall>rest. decode_named (vocab_names \<alpha> h f sc') (put_id i @ type_to_byte t # put_len (length b) @ b @ rest) =
          (i, v) # decode_named (vocab_names \<alpha> h f sc') rest))"
proof -
  note room = vocab_name_room [OF assms(1,2), of h]
  note voc = name_room.axioms(1) [OF room]
  have "0 < vocab_room \<alpha> h f sc" using assms(6) by simp
  then obtain i s0 where 0: "id_for S h n sc = (Inr i, s0)" "vocab_state ok \<alpha> h f s0"
      "vocab_room \<alpha> h f sc \<le> Suc (vocab_room \<alpha> h f s0)"
    using name_room.resolve_step [OF room assms(3,4)] by blast
  note n0 = name_vocab.resolve_ok [OF voc assms(3,4) 0(1)]
  have "name_count v \<le> vocab_room \<alpha> h f s0" using 0(3) assms(6) by simp
  then obtain t b sc' where 1: "encode_value (id_for S h) v s0 = (Inr (t, b), sc')" "vocab_state ok \<alpha> h f sc'"
    using name_room.encode_total(1) [OF room] 0(2) assms(5) by blast
  have 2: "vocab_names \<alpha> h f s0 \<subseteq>\<^sub>m vocab_names \<alpha> h f sc'"
      "decode_value (vocab_names \<alpha> h f sc') t b = Some v" if "length b < 2 ^ 49"
    using name_vocab.roundtrip(1) [OF voc, THEN mp, OF refl, rule_format, OF 0(2) assms(5) 1(1) that] by auto
  have "put_frame_named (id_for S h) buf n v sc = (Inr (buf @ put_id i @ type_to_byte t # put_len (length b) @ b), sc')"
    using 0(1) 1(1) by (simp add: put_frame_named_def iobind_def ioret_def)
  moreover have "vocab_names \<alpha> h f sc' i = Some n" if "length b < 2 ^ 49"
    using 2(1) [OF that] n0 by (auto simp: map_le_def dom_def)
  ultimately show ?thesis
    using 1(2) 2 n0 map_le_trans decode_named_put by blast
qed

theorem named_field_roundtrip_witness:
  "\<exists>i t b sc'. put_frame_named (id_for mem_storage [7]) [] [97] (DArray [DBool True]) ([], VocabCache_new FIELD_VOCAB) =
      (Inr ([] @ put_id i @ type_to_byte t # put_len (length b) @ b), sc')"
proof -
  have st: "vocab_state mem_inv map_of [7] FIELD_VOCAB ([], VocabCache_new FIELD_VOCAB)"
    using empty_repr [where ?'i = 16] by (force simp: vocab_state_def mem_inv_def VocabCache_new_def cache_ok_def)
  have room: "vocab_room map_of [7] FIELD_VOCAB ([], VocabCache_new FIELD_VOCAB) = 65535"
    by (simp add: vocab_room_def)
  show ?thesis
    using named_field_roundtrip [OF mem.kv_point_axioms _ st, of "[97]" "DArray [DBool True]" "[]"] room by fastforce
qed

text \<open>
  C35: A nonnegative signed integer whose shortest form starts with a byte from 0x80 up loses
  its sign byte on encoding and comes back negative.
\<close>

theorem int_sign_lost:
  assumes "\<not> int_safe v"
  shows "\<exists>w fr. put_frame [] i (DInt v) = Inr fr \<and> decode_variants fr = [(i, DInt w)] \<and> 0 \<le> sint v \<and> sint w < 0"
proof -
  obtain w where w: "decode_int (encode_int v) = Some w" "sint w < 0" "0 \<le> sint v"
    using decode_encode_int_unsafe [OF assms] by blast
  have len: "length (encode_int v) < 2 ^ 49"
    by (rule encode_int_split [of v]) simp
  have "decode_value (\<lambda>_. None) VInt (encode_int v) = Some (DInt w)" using w by simp
  from decode_named_put [OF len this, of i "[]"] show ?thesis
    using w by (simp add: put_frame_def ioret_def decode_variants_def decode_named.simps)
qed

theorem int_sign_lost_witness:
  "\<exists>w fr. put_frame [] 1 (DInt 128) = Inr fr \<and> decode_variants fr = [(1, DInt w)] \<and> 0 \<le> sint (128 :: u64) \<and> sint w < 0"
proof (rule int_sign_lost)
  have be: "to_be_bytes (128 :: u64) = [0, 0, 0, 0, 0, 0, 0, 128]"
    by (simp add: to_be_bytes_def be_bytes_numeral)
  show "\<not> int_safe 128" by (simp add: int_safe_def encode_int_def be sint_neg_iff Let_def)
qed

text \<open>
  A frame of an unknown type is skipped at the top of a body and the frames after it are
  read; inside an object the same frame makes the whole rest of the body unreadable.
\<close>

theorem unknown_type_skipped:
  assumes "type_from_byte ty = None" "length b < 2 ^ 48" "inner = put_id j @ ty # put_len (length b) @ b"
    and "length inner < 2 ^ 49"
  shows "decode_named nm (inner @ rest) = decode_named nm rest \<and>
    decode_named nm (put_id i @ type_to_byte VObj # put_len (length inner) @ inner @ rest) = []"
proof -
  have len: "length b < 2 ^ 49" using assms(2) by simp
  note rd = read_frame_put [OF len, of j ty]
  have "decode_frame_named nm (inner @ rest) = FUnknown rest"
    using rd [of rest] assms(1) by (simp add: decode_frame_named_def assms(3))
  moreover have ne: "inner \<noteq> []" by (simp add: assms(3))
  moreover have "decode_fields nm inner [] = None"
    using rd [of "[]"] assms(1) ne by (simp add: decode_fields.simps assms(3))
  then have "decode_frame_named nm (put_id i @ type_to_byte VObj # put_len (length inner) @ inner @ rest) = FMalformed"
    using read_frame_put [OF assms(4), of i "type_to_byte VObj" rest] by (simp add: decode_frame_named_def)
  ultimately show ?thesis by (simp add: decode_named.simps [of nm "inner @ rest"] decode_named.simps [of nm "put_id i @ _"])
qed

theorem unknown_type_skipped_witness:
  "decode_named (\<lambda>_. None) ([3, 9, 1, 5] @ [4, 4, 0x01, 1]) = decode_named (\<lambda>_. None) [4, 4, 0x01, 1]"
proof -
  have one: "put_len (Suc 0) = [1]" by (simp add: put_len_small)
  show ?thesis
    using unknown_type_skipped [of 9 "[5]" "[3, 9, 1, 5]" 3 "\<lambda>_. None" "[4, 4, 0x01, 1]"]
    by (simp add: type_from_byte_def put_id_def one)
qed

end
