(* ===== verification/Okm_Meta.thy ===== *)
theory Okm_Meta
  imports Okm_Dynamic
begin

unbundle bit_operations_syntax

text \<open>
  The description of a table: its meta row (\<open>okm-core/src/model/meta.rs\<close>) and the fingerprint
  of its declared faces (\<open>okm-core/src/model/faces.rs\<close>).

  A \<open>BTreeMap\<close> is a list sorted by key (\<open>bt_insert\<close> of \<open>Okm_Dynamic\<close>), a \<open>String\<close> its UTF-8
  bytes. \<open>TableMeta::decode\<close> aborts on bytes it cannot have written; an abort is \<open>None\<close>, and
  the operations that decode are partial in the same way.
\<close>

section \<open>Fingerprints\<close>

record index_decl =
  id_name :: bytes
  id_slot_no :: u16
  id_fields :: "bytes list"
  id_includes :: "bytes list"
  id_func :: bytes
  id_deprecated :: bool

record face_spec =
  fs_name :: bytes
  fs_slot :: u16
  fs_fields :: "bytes list"
  fs_includes :: "bytes list"
  fs_func :: bytes
  fs_deprecated :: bool

datatype face_kind = FIndex | FLead

definition face_kind_of :: "u16 \<Rightarrow> face_kind option" where
  "face_kind_of sl =
     (if Some (sl AND 0xf000) = map_option (\<lambda>x. x AND 0xf000) DECLARED_SLOT_BASE then Some FIndex
      else if Some (sl AND 0xf000) = map_option (\<lambda>x. x AND 0xf000) LEAD_SLOT_BASE then Some FLead
      else None)"

definition LANE_A :: u64 where "LANE_A = 0xcbf29ce484222325"
definition LANE_B :: u64 where "LANE_B = 0x9e3779b97f4a7c15"
definition PRIME :: u64 where "PRIME = 0x00000100000001b3"

definition mix :: "u64 \<Rightarrow> byte \<Rightarrow> u64" where
  "mix h b = (h XOR ucast b) * PRIME"

definition mix_str :: "u64 \<Rightarrow> bytes \<Rightarrow> u64" where
  "mix_str h s =
     (let n = of_nat (length s) :: u32;
          h = mix h (ucast (drop_bit 24 n));
          h = mix h (ucast (drop_bit 16 n));
          h = mix h (ucast (drop_bit 8 n));
          h = mix h (ucast n)
      in foldl mix h s)"

definition mix_names :: "u64 \<Rightarrow> bytes list \<Rightarrow> u64" where
  "mix_names h names =
     (let n = of_nat (length names) :: u64;
          h = mix h (ucast (drop_bit 8 n));
          h = mix h (ucast n)
      in foldl mix_str h names)"

definition mix_decl :: "u64 \<times> u64 \<Rightarrow> face_spec \<Rightarrow> u64 \<times> u64" where
  "mix_decl = (\<lambda>(a, b) d.
     let a = mix a (ucast (drop_bit 8 (fs_slot d)));
         a = mix a (ucast (fs_slot d));
         b = mix b (ucast (drop_bit 8 (fs_slot d)));
         b = mix b (ucast (fs_slot d));
         a = mix a (if fs_deprecated d then 1 else 0);
         b = mix b (if fs_deprecated d then 1 else 0);
         a = mix_str a (fs_name d);
         b = mix_str b (fs_name d);
         a = mix_names a (fs_fields d);
         b = mix_names b (fs_fields d);
         a = mix_names a (fs_includes d);
         b = mix_names b (fs_includes d);
         a = mix_str a (fs_func d);
         b = mix_str b (fs_func d)
     in (a, b))"

text \<open>The text \<open>okm.faces.v1\<close>.\<close>

definition seed_text :: bytes where
  "seed_text = [111, 107, 109, 46, 102, 97, 99, 101, 115, 46, 118, 49]"

definition seed :: "u64 \<times> u64" where
  "seed = (mix_str LANE_A seed_text, mix_str LANE_B seed_text)"

definition count_decls :: "u64 \<times> u64 \<Rightarrow> nat \<Rightarrow> u64 \<times> u64" where
  "count_decls = (\<lambda>(a, b) n.
     let n = of_nat n :: u64 in
     (mix (mix a (ucast (drop_bit 8 n))) (ucast n), mix (mix b (ucast (drop_bit 8 n))) (ucast n)))"

definition finish :: "u64 \<times> u64 \<Rightarrow> bytes" where
  "finish = (\<lambda>(a, b). map (\<lambda>k. ucast (drop_bit (56 - 8 * k) a)) [0..<8]
     @ map (\<lambda>k. ucast (drop_bit (56 - 8 * k) b)) [0..<8])"

definition spec_of_decl :: "index_decl \<Rightarrow> face_spec" where
  "spec_of_decl d =
     \<lparr> fs_name = id_name d, fs_slot = id_slot_no d, fs_fields = id_fields d,
       fs_includes = id_includes d, fs_func = id_func d, fs_deprecated = id_deprecated d \<rparr>"

definition fingerprint :: "index_decl list \<Rightarrow> bytes" where
  "fingerprint decls =
     finish (foldl (\<lambda>ab d. mix_decl ab (spec_of_decl d)) (count_decls seed (length decls)) decls)"

definition fingerprint_specs :: "face_spec list \<Rightarrow> bytes" where
  "fingerprint_specs specs = finish (foldl mix_decl (count_decls seed (length specs)) specs)"

section \<open>The meta row\<close>

text \<open>The names \<open>version\<close> and \<open>faces\<close>.\<close>

definition VERSION :: bytes where "VERSION = [118, 101, 114, 115, 105, 111, 110]"
definition FACES :: bytes where "FACES = [102, 97, 99, 101, 115]"

datatype face_status = FMatch | FStale bytes bytes | FUnknownFaces bytes

type_synonym table_meta = "(bytes \<times> bytes) list"

definition meta_get :: "table_meta \<Rightarrow> bytes \<Rightarrow> bytes option" where
  "meta_get = map_of"

definition meta_set :: "bytes \<Rightarrow> bytes \<Rightarrow> table_meta \<Rightarrow> table_meta" where
  "meta_set = bt_insert"

definition meta_stamped :: "byte \<Rightarrow> table_meta" where
  "meta_stamped v = meta_set VERSION [v] []"

definition meta_remove :: "bytes \<Rightarrow> table_meta \<Rightarrow> bytes option \<times> table_meta" where
  "meta_remove name m = (map_of m name, AList.delete name m)"

definition meta_version :: "table_meta \<Rightarrow> byte option" where
  "meta_version m = Option.bind (meta_get m VERSION) (\<lambda>v. case v of [] \<Rightarrow> None | b # _ \<Rightarrow> Some b)"

definition meta_faces :: "table_meta \<Rightarrow> bytes option" where
  "meta_faces m = Option.bind (meta_get m FACES) (\<lambda>b. if length b = 16 then Some b else None)"

definition face_status_of :: "table_meta \<Rightarrow> bytes \<Rightarrow> face_status" where
  "face_status_of m current =
     (case meta_faces m of
        Some stored \<Rightarrow> if stored = current then FMatch else FStale stored current
      | None \<Rightarrow> FUnknownFaces current)"

definition meta_encode :: "table_meta \<Rightarrow> bytes" where
  "meta_encode m = to_be_bytes (of_nat (length m) :: u16)
     @ concat (map (\<lambda>(name, val). put_len (length name) @ name @ put_len (length val) @ val) m)"

text \<open>The loop of \<open>decode\<close> on the remaining bytes.\<close>

fun meta_entries :: "nat \<Rightarrow> bytes \<Rightarrow> table_meta \<Rightarrow> (table_meta \<times> bytes) option" where
  "meta_entries 0 b m = Some (m, b)"
| "meta_entries (Suc n) b m =
     (case read_body b of
        None \<Rightarrow> None
      | Some (raw, b1) \<Rightarrow>
          (case from_utf8 raw of
             None \<Rightarrow> None
           | Some name \<Rightarrow>
               (case read_body b1 of
                  None \<Rightarrow> None
                | Some (val, b2) \<Rightarrow>
                    (if map_of m name \<noteq> None then None
                     else meta_entries n b2 (bt_insert name val m)))))"

definition meta_decode :: "bytes \<Rightarrow> table_meta option" where
  "meta_decode b =
     (if length b < 2 then None
      else case meta_entries (be_val (take 2 b)) (drop 2 b) [] of
        Some (m, []) \<Rightarrow> Some m | _ \<Rightarrow> None)"

definition meta_key :: "bytes \<Rightarrow> bytes" where
  "meta_key header = face_key header META_SLOT"

definition meta_read :: "'s storage \<Rightarrow> 's \<Rightarrow> bytes \<Rightarrow> table_meta option result option" where
  "meta_read S s header =
     (case sget S s (meta_key header) of
        Inl e \<Rightarrow> Some (Inl e)
      | Inr None \<Rightarrow> Some (Inr None)
      | Inr (Some b) \<Rightarrow> map_option (\<lambda>m. Inr (Some m)) (meta_decode b))"

definition meta_ensure ::
    "'s storage \<Rightarrow> bytes \<Rightarrow> byte \<Rightarrow> bytes option \<Rightarrow> 's \<Rightarrow> (table_meta result \<times> 's) option" where
  "meta_ensure S header current faces s =
     (case sget S s (meta_key header) of
        Inl e \<Rightarrow> Some (Inl e, s)
      | Inr (Some b) \<Rightarrow>
          (case meta_decode b of
             None \<Rightarrow> None
           | Some m \<Rightarrow>
               Some (if meta_version m = Some current then Inr m
                     else Inl (LayoutMismatch (meta_version m) current), s))
      | Inr None \<Rightarrow>
          (let m = meta_stamped current;
               m = (case faces of Some f \<Rightarrow> meta_set FACES f m | None \<Rightarrow> m)
           in Some (iobind (sput S (meta_key header) (meta_encode m)) (\<lambda>_. ioret m) s)))"

definition meta_write :: "'s storage \<Rightarrow> bytes \<Rightarrow> table_meta \<Rightarrow> ('s, unit) io" where
  "meta_write S header m = sput S (meta_key header) (meta_encode m)"

definition stamp_faces ::
    "'s storage \<Rightarrow> bytes \<Rightarrow> byte \<Rightarrow> bytes \<Rightarrow> 's \<Rightarrow> (table_meta result \<times> 's) option" where
  "stamp_faces S header version faces s =
     (case sget S s (meta_key header) of
        Inl e \<Rightarrow> Some (Inl e, s)
      | Inr raw \<Rightarrow>
          (case (case raw of Some b \<Rightarrow> meta_decode b | None \<Rightarrow> Some (meta_stamped version)) of
             None \<Rightarrow> None
           | Some m \<Rightarrow>
               (let m = meta_set FACES faces m in
                Some (iobind (sput S (meta_key header) (meta_encode m)) (\<lambda>_. ioret m) s))))"

section \<open>The bytes of a fingerprint\<close>

text \<open>Both lanes run over the same canonical bytes of the declarations.\<close>

definition str_bytes :: "bytes \<Rightarrow> bytes" where
  "str_bytes s = be_bytes 4 (length s) @ s"

definition names_bytes :: "bytes list \<Rightarrow> bytes" where
  "names_bytes names = be_bytes 2 (length names) @ concat (map str_bytes names)"

definition decl_bytes :: "face_spec \<Rightarrow> bytes" where
  "decl_bytes d = to_be_bytes (fs_slot d) @ [if fs_deprecated d then 1 else 0] @ str_bytes (fs_name d)
     @ names_bytes (fs_fields d) @ names_bytes (fs_includes d) @ str_bytes (fs_func d)"

definition spec_bytes :: "face_spec list \<Rightarrow> bytes" where
  "spec_bytes specs = str_bytes seed_text @ be_bytes 2 (length specs) @ concat (map decl_bytes specs)"

lemma byte_of_shift: "ucast (drop_bit k (of_nat n :: 'w :: len word)) = (of_nat (n div 2 ^ k) :: byte)"
  if "k + 8 \<le> LENGTH('w)"
proof (rule bit_eqI)
  fix i assume "possible_bit TYPE(byte) i"
  then have "i < 8" by simp
  then show "bit (ucast (drop_bit k (of_nat n :: 'w word)) :: byte) i = bit (of_nat (n div 2 ^ k) :: byte) i"
    using that by (simp add: bit_simps bit_of_nat_iff add.commute flip: drop_bit_eq_div)
qed

lemma mix_str_bytes: "mix_str h s = foldl mix h (str_bytes s)"
proof -
  have "be_bytes 4 n = [of_nat (n div 2 ^ 24), of_nat (n div 2 ^ 16), of_nat (n div 2 ^ 8), of_nat n]" for n
    by (simp add: be_bytes_numeral)
  moreover have "(ucast (of_nat n :: u32) :: byte) = of_nat n" for n
    using byte_of_shift [of 0, where 'w = 32, of n] by simp
  ultimately show ?thesis
    by (simp add: mix_str_def Let_def str_bytes_def byte_of_shift [where 'w = 32])
qed

lemma mix_names_bytes: "mix_names h names = foldl mix h (names_bytes names)"
proof -
  have "(ucast (of_nat n :: u64) :: byte) = of_nat n" for n
    using byte_of_shift [of 0, where 'w = 64, of n] by simp
  moreover have "foldl mix_str h names = foldl mix h (concat (map str_bytes names))" for h
    by (induction names arbitrary: h) (simp_all add: mix_str_bytes)
  ultimately show ?thesis
    by (simp add: mix_names_def Let_def names_bytes_def be_bytes_2 byte_of_shift [where 'w = 64])
qed

lemma slot_bytes: "to_be_bytes (v :: u16) = [ucast (drop_bit 8 v), ucast v]"
proof -
  have "(ucast (drop_bit 8 (of_nat (unat v) :: u16)) :: byte) = of_nat (unat v div 2 ^ 8)"
    by (rule byte_of_shift) simp
  then show ?thesis by (simp add: to_be_bytes_def be_bytes_2)
qed

lemma mix_decl_bytes: "mix_decl (a, b) d = (foldl mix a (decl_bytes d), foldl mix b (decl_bytes d))"
  by (simp add: mix_decl_def Let_def decl_bytes_def slot_bytes mix_str_bytes mix_names_bytes)

lemma fingerprint_bytes:
  "fingerprint_specs specs =
     finish (foldl mix LANE_A (spec_bytes specs), foldl mix LANE_B (spec_bytes specs))"
proof -
  have fold: "foldl mix_decl (a, b) ds = (foldl mix a (concat (map decl_bytes ds)), foldl mix b (concat (map decl_bytes ds)))"
    for a b ds by (induction ds arbitrary: a b) (simp_all add: mix_decl_bytes)
  have "(ucast (of_nat n :: u64) :: byte) = of_nat n" for n
    using byte_of_shift [of 0, where 'w = 64, of n] by simp
  then show ?thesis
    by (simp add: fingerprint_specs_def seed_def count_decls_def Let_def mix_str_bytes spec_bytes_def fold
        be_bytes_2 byte_of_shift [where 'w = 64])
qed

lemma fingerprint_agree: "fingerprint decls = fingerprint_specs (map spec_of_decl decls)"
proof -
  have "foldl (\<lambda>ab d. mix_decl ab (spec_of_decl d)) x ds = foldl mix_decl x (map spec_of_decl ds)" for x ds
    by (induction ds arbitrary: x) simp_all
  then show ?thesis by (simp add: fingerprint_def fingerprint_specs_def)
qed

section \<open>What moves a fingerprint\<close>

text \<open>The multiplier is odd, so a step loses nothing of either argument.\<close>

lemma PRIME_inverse: "PRIME * 0xce965057aff6957b = 1"
  by code_simp

lemma PRIME_cancel: "x * PRIME = y * PRIME \<longleftrightarrow> x = y"
proof
  assume "x * PRIME = y * PRIME"
  then have "x * PRIME * 0xce965057aff6957b = y * PRIME * 0xce965057aff6957b" by simp
  then show "x = y" by (simp only: mult.assoc PRIME_inverse mult_1_right)
qed simp

lemma xor_cancel: "(x XOR z = y XOR z) = (x = y)" for x y z :: u64
proof
  assume "x XOR z = y XOR z"
  from arg_cong [OF this, of "\<lambda>u. u XOR z"] have "(x XOR z) XOR z = (y XOR z) XOR z" .
  then show "x = y" by (simp only: xor.assoc xor_self_eq xor.right_neutral)
qed simp

lemma mix_inject_left: "mix h b = mix h' b \<longleftrightarrow> h = h'"
  by (simp add: mix_def PRIME_cancel xor_cancel)

lemma mix_inject_right: "mix h b = mix h b' \<longleftrightarrow> b = b'"
proof
  assume "mix h b = mix h b'"
  then have "ucast b XOR h = ucast b' XOR h" by (simp only: mix_def PRIME_cancel xor.commute)
  then have "(ucast b :: u64) = ucast b'" by (simp only: xor_cancel)
  then have "(ucast (ucast b :: u64) :: byte) = ucast (ucast b' :: u64)" by simp
  moreover have "(ucast (ucast x :: u64) :: byte) = x" for x
    by (rule bit_eqI) (simp add: bit_simps)
  ultimately show "b = b'" by simp
qed simp

lemma foldl_mix_inject: "foldl mix h xs = foldl mix h' xs \<longleftrightarrow> h = h'"
  by (induction xs arbitrary: h h') (simp_all add: mix_inject_left)

lemma foldl_mix_one_byte: "x \<noteq> y \<Longrightarrow> foldl mix h (p @ x # s) \<noteq> foldl mix h (p @ y # s)"
  by (simp add: foldl_mix_inject mix_inject_right)

lemma finish_inject: "finish (a, b) = finish (a', b') \<longleftrightarrow> a = a' \<and> b = b'"
proof -
  have bytes: "map (\<lambda>k. ucast (drop_bit (56 - 8 * k) v) :: byte) [0..<8] = to_be_bytes v" for v :: u64
  proof -
    have "(ucast (drop_bit k (of_nat (unat v) :: u64)) :: byte) = of_nat (unat v div 2 ^ k)" if "k \<le> 56" for k
      using that by (intro byte_of_shift) simp
    then show ?thesis by (simp add: to_be_bytes_def be_bytes_numeral upt_rec)
  qed
  show ?thesis by (simp add: finish_def bytes to_be_bytes_inject)
qed

lemma one_byte_moves:
  "spec_bytes a = p @ x # s \<Longrightarrow> spec_bytes b = p @ y # s \<Longrightarrow> x \<noteq> y \<Longrightarrow>
     fingerprint_specs a \<noteq> fingerprint_specs b"
  using foldl_mix_one_byte [of x y LANE_A p s] by (simp add: fingerprint_bytes finish_inject)

section \<open>Canonical bytes\<close>

definition str_small :: "bytes \<Rightarrow> bool" where
  "str_small s \<longleftrightarrow> length s < 2 ^ 32"

definition names_small :: "bytes list \<Rightarrow> bool" where
  "names_small ns \<longleftrightarrow> length ns < 2 ^ 16 \<and> list_all str_small ns"

definition spec_small :: "face_spec \<Rightarrow> bool" where
  "spec_small d \<longleftrightarrow> str_small (fs_name d) \<and> names_small (fs_fields d) \<and> names_small (fs_includes d) \<and> str_small (fs_func d)"

lemma str_bytes_inject:
  assumes "str_small s" "str_small t"
  shows "str_bytes s @ x = str_bytes t @ y \<longleftrightarrow> s = t \<and> x = y"
proof -
  have "be_bytes 4 (length s) = be_bytes 4 (length t) \<longleftrightarrow> length s = length t"
    using assms by (intro be_bytes_inject) (simp_all add: str_small_def)
  then show ?thesis by (auto simp: str_bytes_def)
qed

lemma concat_bytes_inject:
  assumes f: "\<And>a b x y. P a \<Longrightarrow> P b \<Longrightarrow> f a @ x = f b @ y \<longleftrightarrow> a = b \<and> x = y"
  shows "length xs = length ys \<Longrightarrow> list_all P xs \<Longrightarrow> list_all P ys \<Longrightarrow>
    concat (map f xs) @ u = concat (map f ys) @ v \<longleftrightarrow> xs = ys \<and> u = v"
  by (induction xs ys rule: list_induct2) (auto simp: f)

lemma names_bytes_inject:
  assumes "names_small s" "names_small t"
  shows "names_bytes s @ x = names_bytes t @ y \<longleftrightarrow> s = t \<and> x = y"
proof -
  have "be_bytes 2 (length s) = be_bytes 2 (length t) \<longleftrightarrow> length s = length t"
    using assms by (intro be_bytes_inject) (simp_all add: names_small_def)
  then show ?thesis
    using assms concat_bytes_inject [where P = str_small and f = str_bytes, OF str_bytes_inject, of s t x y]
    by (auto simp: names_bytes_def names_small_def)
qed

lemma decl_bytes_inject:
  "spec_small d \<Longrightarrow> spec_small e \<Longrightarrow> decl_bytes d @ x = decl_bytes e @ y \<longleftrightarrow> d = e \<and> x = y"
  by (cases d; cases e)
    (auto simp: decl_bytes_def spec_small_def to_be_bytes_inject byte_sized_def
      str_bytes_inject names_bytes_inject split: if_splits)

lemma spec_bytes_inject:
  assumes "list_all spec_small a" "list_all spec_small b" "length a < 2 ^ 16" "length b < 2 ^ 16"
  shows "spec_bytes a = spec_bytes b \<longleftrightarrow> a = b"
proof -
  have "be_bytes 2 (length a) = be_bytes 2 (length b) \<longleftrightarrow> length a = length b"
    using assms(3,4) by (intro be_bytes_inject) simp_all
  then show ?thesis
    using concat_bytes_inject [where P = spec_small and f = decl_bytes, OF decl_bytes_inject, of a b "[]" "[]"] assms(1,2)
    by (auto simp: spec_bytes_def)
qed

section \<open>The payload of the meta row\<close>

definition meta_ok :: "table_meta \<Rightarrow> bool" where
  "meta_ok m \<longleftrightarrow> sorted_wrt (<) (map fst m) \<and>
     (\<forall>(n, v) \<in> set m. utf8_valid n \<and> length n < 2 ^ 49 \<and> length v < 2 ^ 49)"

lemma meta_entries_encode:
  assumes "meta_ok (acc @ m)"
  shows "meta_entries (length m) (concat (map (\<lambda>(name, val). put_len (length name) @ name @ put_len (length val) @ val) m) @ r) acc
    = Some (acc @ m, r)"
  using assms
proof (induction m arbitrary: acc)
  case (Cons p m)
  obtain n v where p: "p = (n, v)" by (cases p)
  have nv: "utf8_valid n" "length n < 2 ^ 49" "length v < 2 ^ 49" using Cons.prems by (auto simp: meta_ok_def p)
  have less: "\<forall>k \<in> fst ` set acc. k < n" using Cons.prems by (auto simp: meta_ok_def p sorted_wrt_append)
  then have "map_of acc n = None" by (auto simp: map_of_eq_None_iff)
  moreover have "bt_insert n v acc = acc @ [(n, v)]" using less by (rule bt_insert_last)
  moreover have "meta_entries (length m) (concat (map (\<lambda>(name, val). put_len (length name) @ name @ put_len (length val) @ val) m) @ r) (acc @ [(n, v)])
      = Some ((acc @ [(n, v)]) @ m, r)"
    by (rule Cons.IH) (use Cons.prems p in simp)
  ultimately show ?case
    using nv by (simp add: p read_body_put from_utf8_def)
qed simp

lemma meta_decode_encode:
  assumes "meta_ok m" "length m < 2 ^ 16"
  shows "meta_decode (meta_encode m) = Some m"
proof -
  have "unat (of_nat (length m) :: u16) = length m" using assms(2) by (simp add: unat_of_nat)
  then show ?thesis
    using meta_entries_encode [of "[]" m "[]"] assms
    by (simp add: meta_decode_def meta_encode_def to_be_bytes_def be_val_append)
qed

lemma meta_entries_short:
  assumes "meta_ok m" "n < length m"
  shows "\<exists>acc r. meta_entries n (concat (map (\<lambda>(name, val). put_len (length name) @ name @ put_len (length val) @ val) m)) []
    = Some (acc, r) \<and> r \<noteq> []"
proof -
  let ?b = "\<lambda>m. concat (map (\<lambda>(name, val). put_len (length name) @ name @ put_len (length val) @ val) m)"
  have "meta_ok ([] @ take n m)" using assms(1)
    by (auto simp: meta_ok_def dest: in_set_takeD intro: sorted_wrt_take simp flip: take_map)
  from meta_entries_encode [OF this, of "?b (drop n m)"] assms(2)
  have "meta_entries n (?b (take n m) @ ?b (drop n m)) [] = Some (take n m, ?b (drop n m))" by simp
  moreover have "?b (take n m) @ ?b (drop n m) = ?b m"
    by (simp only: concat_append [symmetric] map_append [symmetric] append_take_drop_id)
  moreover have "?b (drop n m) \<noteq> []" using assms(2) by (cases "drop n m") (auto split: prod.splits)
  ultimately have "meta_entries n (?b m) [] = Some (take n m, ?b (drop n m)) \<and> ?b (drop n m) \<noteq> []"
    by (simp only: HOL.simp_thms)
  then show ?thesis by blast
qed

lemma bt_insert_set: "set (bt_insert k v m) \<subseteq> insert (k, v) (set m)"
  by (induction m) (auto split: if_splits)

lemma bt_insert_sorted: "sorted_wrt (<) (map fst m) \<Longrightarrow> sorted_wrt (<) (map fst (bt_insert k v m))"
proof (induction m)
  case (Cons p m)
  obtain k' v' where p: "p = (k', v')" by (cases p)
  have "x \<in> insert k (fst ` set m)" if "x \<in> set (map fst (bt_insert k v m))" for x
    using that bt_insert_set [of k v m] by auto
  then show ?case using Cons by (fastforce simp: p)
qed simp

lemma bt_insert_map: "sorted_wrt (<) (map fst m) \<Longrightarrow> map_of (bt_insert k v m) = (map_of m)(k \<mapsto> v)"
  by (induction m) (auto simp: fun_eq_iff)

lemma bt_insert_length: "length (bt_insert k v m) \<le> Suc (length m)"
  by (induction m) auto

lemma meta_ok_set:
  "meta_ok m \<Longrightarrow> utf8_valid n \<Longrightarrow> length n < 2 ^ 49 \<Longrightarrow> length v < 2 ^ 49 \<Longrightarrow> meta_ok (meta_set n v m)"
  using bt_insert_set [of n v m] by (auto simp: meta_ok_def meta_set_def bt_insert_sorted)

lemma meta_get_set: "meta_ok m \<Longrightarrow> meta_get (meta_set n v m) x = (if x = n then Some v else meta_get m x)"
  by (simp add: meta_get_def meta_set_def bt_insert_map meta_ok_def)

lemma names_ok: "utf8_valid VERSION" "utf8_valid FACES" "length VERSION = 7" "length FACES = 5" "VERSION \<noteq> FACES"
  by (simp_all add: VERSION_def FACES_def utf8_valid.simps)

lemma meta_stamped_ok: "meta_ok (meta_stamped v)" "length (meta_stamped v) = 1" "meta_get (meta_stamped v) x = (if x = VERSION then Some [v] else None)"
  using names_ok by (auto simp: meta_ok_def meta_stamped_def meta_set_def meta_get_def)

lemma meta_entries_abort:
  assumes "meta_ok m" "2 ^ 16 \<le> length m"
  shows "meta_decode (meta_encode m) = None"
proof -
  have n: "unat (of_nat (length m) :: u16) = length m mod 2 ^ 16" by (simp add: unat_of_nat)
  have "length m mod 2 ^ 16 < (2 :: nat) ^ 16" by (rule mod_less_divisor) simp
  then have "length m mod 2 ^ 16 < length m" using assms(2) by (rule less_le_trans)
  from meta_entries_short [OF assms(1) this] show ?thesis
    by (auto simp: meta_decode_def meta_encode_def to_be_bytes_def be_val_append n split: list.splits)
qed

lemma stamp_faces_run:
  assumes "kv_point S ok \<alpha>" "ok s"
    and "case \<alpha> s (meta_key h) of None \<Rightarrow> m = meta_stamped v | Some b \<Rightarrow> b = meta_encode m"
    and "meta_ok m" "length m < 2 ^ 16 - 1" "length f = 16"
  shows "\<exists>s'. stamp_faces S h v f s = Some (Inr (meta_set FACES f m), s') \<and> ok s' \<and>
    \<alpha> s' = (\<alpha> s)(meta_key h \<mapsto> meta_encode (meta_set FACES f m)) \<and>
    meta_read S s' h = Some (Inr (Some (meta_set FACES f m))) \<and>
    face_status_of (meta_set FACES f m) f = FMatch"
proof -
  let ?m = "meta_set FACES f m"
  have ok: "meta_ok ?m" "length ?m < 2 ^ 16"
    using meta_ok_set [OF assms(4)] names_ok assms(5,6) bt_insert_length [of FACES f m]
    by (simp_all add: meta_set_def)
  obtain s' where s': "sput S (meta_key h) (meta_encode ?m) s = (Inr (), s')" "ok s'"
    "\<alpha> s' = (\<alpha> s)(meta_key h \<mapsto> meta_encode ?m)"
    using kv_point.put_ok [OF assms(1,2)] by blast
  have get: "sget S s (meta_key h) = Inr (\<alpha> s (meta_key h))" "sget S s' (meta_key h) = Inr (Some (meta_encode ?m))"
    using kv_point.get_ok [OF assms(1)] assms(2) s'(2,3) by simp_all
  have "meta_decode (meta_encode m) = Some m" using meta_decode_encode [OF assms(4)] assms(5) by simp
  then have "stamp_faces S h v f s = Some (Inr ?m, s')"
    using get(1) s'(1) assms(3) by (auto simp: stamp_faces_def iobind_def Let_def split: option.splits)
  moreover have "meta_read S s' h = Some (Inr (Some ?m))"
    using get(2) meta_decode_encode [OF ok] by (simp add: meta_read_def)
  moreover have "face_status_of ?m f = FMatch"
    using names_ok assms(6) by (simp add: face_status_of_def meta_faces_def meta_get_set [OF assms(4)])
  ultimately show ?thesis using s'(2,3) by auto
qed

section \<open>Properties\<close>

text \<open>
  C36: The meta row reads back as long as it has fewer than 65536 names; from there on its
  own decoder aborts on what was written.
\<close>

theorem meta_row_roundtrip:
  assumes "meta_ok m"
  shows "meta_decode (meta_encode m) = (if length m < 2 ^ 16 then Some m else None)"
  using meta_decode_encode [OF assms] meta_entries_abort [OF assms] by (simp del: power_numeral)

theorem meta_row_roundtrip_witness:
  "meta_decode (meta_encode [([97], [1, 2]), ([98], [])]) = Some [([97], [1, 2]), ([98], [])]"
  using meta_row_roundtrip [of "[([97], [1, 2]), ([98], [])]"] by (simp add: meta_ok_def utf8_valid.simps)

text \<open>
  First touch of a table: a fresh store is stamped with the version and the faces of the
  declaration and nothing else changes. From then on the row reads back, every later touch
  with the same version answers it without a write, another version is refused, and the face
  status is a match exactly for the stamped faces.
\<close>

theorem meta_first_touch:
  assumes "kv_point S ok \<alpha>" "ok s" "\<alpha> s (meta_key h) = None"
    and "\<forall>f \<in> set_option faces. length f = 16"
  shows "\<exists>m s'. meta_ensure S h cur faces s = Some (Inr m, s') \<and> ok s' \<and>
    \<alpha> s' = (\<alpha> s)(meta_key h \<mapsto> meta_encode m) \<and> meta_read S s' h = Some (Inr (Some m)) \<and>
    (\<forall>c f. meta_ensure S h c f s' = Some (if c = cur then Inr m else Inl (LayoutMismatch (Some cur) c), s')) \<and>
    (\<forall>f. face_status_of m f =
       (case faces of None \<Rightarrow> FUnknownFaces f | Some g \<Rightarrow> if g = f then FMatch else FStale g f))"
proof -
  define m where "m = (case faces of Some f \<Rightarrow> meta_set FACES f (meta_stamped cur) | None \<Rightarrow> meta_stamped cur)"
  have ok: "meta_ok m" "length m < 2 ^ 16"
  proof -
    have "length (meta_set FACES g (meta_stamped cur)) < 2 ^ 16" for g
      using bt_insert_length [of FACES g "meta_stamped cur"] by (simp add: meta_set_def meta_stamped_ok)
    then show "meta_ok m" "length m < 2 ^ 16"
      using meta_ok_set [OF meta_stamped_ok(1)] assms(4) names_ok
      by (auto simp: m_def meta_stamped_ok split: option.split)
  qed
  have v: "meta_version m = Some cur"
    using names_ok by (auto simp: m_def meta_version_def meta_get_set meta_stamped_ok split: option.split)
  have f: "meta_faces m = faces"
    using names_ok assms(4) by (auto simp: m_def meta_faces_def meta_get_set meta_stamped_ok split: option.split)
  obtain s' where s': "sput S (meta_key h) (meta_encode m) s = (Inr (), s')" "ok s'"
    "\<alpha> s' = (\<alpha> s)(meta_key h \<mapsto> meta_encode m)"
    using kv_point.put_ok [OF assms(1,2)] by blast
  have get: "sget S s (meta_key h) = Inr None" "sget S s' (meta_key h) = Inr (Some (meta_encode m))"
    using kv_point.get_ok [OF assms(1)] assms(2,3) s'(2,3) by simp_all
  have "meta_ensure S h cur faces s = Some (Inr m, s')"
    using get(1) s'(1) by (simp add: meta_ensure_def m_def iobind_def Let_def)
  moreover have "meta_read S s' h = Some (Inr (Some m))"
    using get(2) meta_decode_encode [OF ok] by (simp add: meta_read_def)
  moreover have "meta_ensure S h c g s' = Some (if c = cur then Inr m else Inl (LayoutMismatch (Some cur) c), s')" for c g
    using get(2) meta_decode_encode [OF ok] v by (auto simp: meta_ensure_def)
  moreover have "face_status_of m g = (case faces of None \<Rightarrow> FUnknownFaces g | Some x \<Rightarrow> if x = g then FMatch else FStale x g)" for g
    by (simp add: face_status_of_def f)
  ultimately show ?thesis using s'(2,3) by blast
qed

theorem meta_first_touch_witness:
  "\<exists>m s'. meta_ensure mem_storage [7] 3 None [] = Some (Inr m, s') \<and>
     meta_ensure mem_storage [7] 4 None s' = Some (Inl (LayoutMismatch (Some 3) 4), s')"
  using meta_first_touch [OF mem.kv_point_axioms, of "[]" "[7]" None 3] by (fastforce simp: mem_inv_def)

text \<open>
  Stamping the faces of a described table makes them current and moves nothing else: the
  version and every other name of the row stay, and other keys are untouched.
\<close>

theorem stamp_faces_spec:
  assumes "kv_point S ok \<alpha>" "ok s" "\<alpha> s (meta_key h) = Some (meta_encode m)"
    and "meta_ok m" "length m < 2 ^ 16 - 1" "length f = 16"
  shows "\<exists>m' s'. stamp_faces S h v f s = Some (Inr m', s') \<and> ok s' \<and>
    \<alpha> s' = (\<alpha> s)(meta_key h \<mapsto> meta_encode m') \<and> meta_read S s' h = Some (Inr (Some m')) \<and>
    face_status_of m' f = FMatch \<and> meta_version m' = meta_version m \<and>
    (\<forall>n. n \<noteq> FACES \<longrightarrow> meta_get m' n = meta_get m n)"
proof -
  have "meta_version (meta_set FACES f m) = meta_version m"
    using names_ok by (simp add: meta_version_def meta_get_set [OF assms(4)])
  then show ?thesis
    using stamp_faces_run [where h = h and v = v, OF assms(1,2) _ assms(4-6)] assms(3) meta_get_set [OF assms(4)] by fastforce
qed

theorem stamp_faces_spec_witness:
  "\<exists>m' s'. stamp_faces mem_storage [7] 1 (replicate 16 5) [(meta_key [7], meta_encode [])] = Some (Inr m', s') \<and>
     face_status_of m' (replicate 16 5) = FMatch"
  using stamp_faces_spec [OF mem.kv_point_axioms, of "[(meta_key [7], meta_encode [])]" "[7]" "[]" "replicate 16 5" 1]
  by (fastforce simp: mem_inv_def meta_ok_def)

text \<open>
  The fingerprint is a function of the canonical bytes of the declarations, which tell
  any two declaration lists apart, and the two entry points agree. Changing the deprecation
  of one face, or its counter within a family block, always moves the fingerprint.
\<close>

theorem fingerprint_moves:
  "fingerprint decls = fingerprint_specs (map spec_of_decl decls) \<and>
   fingerprint_specs (xs @ d # ys) \<noteq> fingerprint_specs (xs @ d\<lparr> fs_deprecated := \<not> fs_deprecated d \<rparr> # ys) \<and>
   (drop_bit 8 (fs_slot d) = drop_bit 8 sl \<and> fs_slot d \<noteq> sl \<longrightarrow>
     fingerprint_specs (xs @ d # ys) \<noteq> fingerprint_specs (xs @ d\<lparr> fs_slot := sl \<rparr> # ys))"
proof -
  let ?pre = "str_bytes seed_text @ be_bytes 2 (length xs + Suc (length ys)) @ concat (map decl_bytes xs)"
  let ?tail = "\<lambda>d. str_bytes (fs_name d) @ names_bytes (fs_fields d) @ names_bytes (fs_includes d) @ str_bytes (fs_func d)
    @ concat (map decl_bytes ys)"
  have bytes: "spec_bytes (xs @ e # ys) =
      ?pre @ ucast (drop_bit 8 (fs_slot e)) # ucast (fs_slot e) # (if fs_deprecated e then 1 else 0) # ?tail e" for e
    by (simp add: spec_bytes_def decl_bytes_def slot_bytes)
  have dep: "spec_bytes (xs @ d\<lparr> fs_deprecated := x \<rparr> # ys) =
      (?pre @ [ucast (drop_bit 8 (fs_slot d)), ucast (fs_slot d)]) @ (if x then 1 else 0) # ?tail d" for x
    using bytes [of "d\<lparr> fs_deprecated := x \<rparr>"] by simp
  have "fingerprint_specs (xs @ d\<lparr> fs_deprecated := fs_deprecated d \<rparr> # ys) \<noteq>
      fingerprint_specs (xs @ d\<lparr> fs_deprecated := \<not> fs_deprecated d \<rparr> # ys)"
    by (rule one_byte_moves [OF dep dep]) simp
  moreover have "fingerprint_specs (xs @ d # ys) \<noteq> fingerprint_specs (xs @ d\<lparr> fs_slot := sl \<rparr> # ys)"
    if sl: "drop_bit 8 (fs_slot d) = drop_bit 8 sl" "fs_slot d \<noteq> sl"
  proof -
    have slot: "spec_bytes (xs @ d\<lparr> fs_slot := x \<rparr> # ys) =
        (?pre @ [ucast (drop_bit 8 x)]) @ ucast x # (if fs_deprecated d then 1 else 0) # ?tail d" for x
      using bytes [of "d\<lparr> fs_slot := x \<rparr>"] by simp
    have "to_be_bytes (fs_slot d) \<noteq> to_be_bytes sl" using sl(2) by (simp add: to_be_bytes_inject byte_sized_def)
    then have "(ucast (fs_slot d) :: byte) \<noteq> ucast sl" using sl(1) by (simp add: slot_bytes)
    then have "fingerprint_specs (xs @ d\<lparr> fs_slot := fs_slot d \<rparr> # ys) \<noteq> fingerprint_specs (xs @ d\<lparr> fs_slot := sl \<rparr> # ys)"
      by (rule one_byte_moves [OF slot [of "fs_slot d", unfolded sl(1)] slot])
    then show ?thesis by simp
  qed
  ultimately show ?thesis by (simp add: fingerprint_agree)
qed

theorem fingerprint_moves_witness:
  "fingerprint_specs [\<lparr> fs_name = [97], fs_slot = 0x3001, fs_fields = [], fs_includes = [], fs_func = [], fs_deprecated = False \<rparr>]
   \<noteq> fingerprint_specs [\<lparr> fs_name = [97], fs_slot = 0x3002, fs_fields = [], fs_includes = [], fs_func = [], fs_deprecated = False \<rparr>]"
proof -
  have "drop_bit 8 (0x3001 :: u16) = drop_bit 8 0x3002" by simp
  then show ?thesis
    using fingerprint_moves [where decls = "[]" and xs = "[]" and ys = "[]" and sl = "0x3002" and d = "\<lparr> fs_name = [97], fs_slot = 0x3001, fs_fields = [], fs_includes = [], fs_func = [], fs_deprecated = False \<rparr>"]
    by simp
qed

text \<open>
  Distinct declaration lists have distinct canonical bytes, so a fingerprint can collide
  only in the two hash lanes.
\<close>

theorem fingerprint_canonical:
  assumes "list_all spec_small a" "list_all spec_small b" "length a < 2 ^ 16" "length b < 2 ^ 16"
  shows "(spec_bytes a = spec_bytes b \<longleftrightarrow> a = b) \<and>
    fingerprint_specs a = finish (foldl mix LANE_A (spec_bytes a), foldl mix LANE_B (spec_bytes a))"
  using spec_bytes_inject [OF assms] fingerprint_bytes by simp

theorem fingerprint_canonical_witness:
  "spec_bytes [\<lparr> fs_name = [97], fs_slot = 0x3001, fs_fields = [[98]], fs_includes = [], fs_func = [], fs_deprecated = False \<rparr>]
   \<noteq> spec_bytes [\<lparr> fs_name = [97], fs_slot = 0x3001, fs_fields = [], fs_includes = [[98]], fs_func = [], fs_deprecated = False \<rparr>]"
  using fingerprint_canonical [of
    "[\<lparr> fs_name = [97], fs_slot = 0x3001, fs_fields = [[98]], fs_includes = [], fs_func = [], fs_deprecated = False \<rparr>]"
    "[\<lparr> fs_name = [97], fs_slot = 0x3001, fs_fields = [], fs_includes = [[98]], fs_func = [], fs_deprecated = False \<rparr>]"]
  by (simp add: spec_small_def str_small_def names_small_def)

end
