(* ===== verification/Okm_Dynamic_Types.thy ===== *)
theory Okm_Dynamic_Types
  imports Okm_Meta
begin

text \<open>
  Types and sizes on the wire: what a decoder can produce from any bytes at all, how long an encoded
  value is at most, and how many bytes a length takes.
\<close>

section \<open>Kinds\<close>

fun dyn_type :: "dynamic_value \<Rightarrow> obj_value_type" where
  "dyn_type (DUInt _) = VUInt"
| "dyn_type (DInt _) = VInt"
| "dyn_type (DF64 _) = VF64"
| "dyn_type (DStr _) = VStr"
| "dyn_type (DBytes _) = VBytes"
| "dyn_type (DBool _) = VBool"
| "dyn_type DNull = VNull"
| "dyn_type (DArray _) = VArray"
| "dyn_type (DObj _) = VObj"

text \<open>Text is UTF-8, and the fields of an object are named and strictly ordered, at every depth.\<close>

fun dyn_typed :: "dynamic_value \<Rightarrow> bool" where
  "dyn_typed (DStr s) = utf8_valid s"
| "dyn_typed (DArray items) = (\<forall>v \<in> set items. dyn_typed v)"
| "dyn_typed (DObj m) = (sorted_wrt (<) (map fst m) \<and> (\<forall>p \<in> set m. utf8_valid (fst p) \<and> dyn_typed (snd p)))"
| "dyn_typed v = True"

lemma dec_digits_ascii: "list_all (\<lambda>b. b < 0x80) (dec_digits n)"
proof (induction n rule: dec_digits.induct)
  case (1 n)
  have "(of_nat (48 + d) :: byte) < 0x80" if "d < 10" for d
    using unat_byte_small [of "48 + d"] that by (simp add: word_less_nat_alt)
  then show ?case using 1 by (subst dec_digits.simps) simp
qed

lemma field_name_utf8: "(\<And>i n. nm i = Some n \<Longrightarrow> utf8_valid n) \<Longrightarrow> utf8_valid (field_name nm i)"
  by (auto simp: field_name_def utf8_valid_ascii dec_digits_ascii split: option.splits)

lemma typed_insert:
  "dyn_typed (DObj m) \<Longrightarrow> utf8_valid k \<Longrightarrow> dyn_typed v \<Longrightarrow> dyn_typed (DObj (bt_insert k v m))"
  using bt_insert_set [of k v m] by (auto simp: bt_insert_sorted)

lemma decode_typed:
  assumes nm: "\<And>i n. nm i = Some n \<Longrightarrow> utf8_valid n"
  shows "nm' = nm \<Longrightarrow> decode_value nm' t b = Some v \<Longrightarrow> dyn_type v = t \<and> dyn_typed v"
    and "nm' = nm \<Longrightarrow> decode_items nm' n b = Some vs \<Longrightarrow> length vs = n \<and> (\<forall>v \<in> set vs. dyn_typed v)"
    and "nm' = nm \<Longrightarrow> decode_fields nm' b acc = Some m \<Longrightarrow> dyn_typed (DObj acc) \<Longrightarrow> dyn_typed (DObj m)"
proof (induction nm' t b and nm' n b and nm' b acc arbitrary: v and vs and m
    rule: decode_value_decode_items_decode_fields.induct)
  case (12 nm' b acc)
  show ?case
  proof (cases "b = []")
    case True
    then show ?thesis using 12 by (simp add: decode_fields.simps)
  next
    case False
    then obtain i ty body rest t v where f: "read_frame b = Some ((i, ty, body), rest)" "type_from_byte ty = Some t"
      "decode_value nm' t body = Some v" "decode_fields nm' rest (bt_insert (field_name nm' i) v acc) = Some m"
      using 12(4) by (subst (asm) decode_fields.simps) (auto split: option.splits prod.splits)
    have "dyn_typed v" using 12(1) [OF False f(1) refl refl refl f(2) 12(3) f(3)] by blast
    then have "dyn_typed (DObj (bt_insert (field_name nm' i) v acc))"
      using typed_insert [OF 12(5)] field_name_utf8 [of nm i] nm 12(3) by blast
    then show ?thesis by (rule 12(2) [OF False f(1) refl refl refl f(2,3) 12(3) f(4)])
  qed
next
  case (11 nm' n b)
  obtain ty body rest t v vs' where f: "read_item b = Some ((ty, body), rest)" "type_from_byte ty = Some t"
    "decode_value nm' t body = Some v" "decode_items nm' n rest = Some vs'" "vs = v # vs'"
    using 11(4) by (auto split: option.splits prod.splits)
  show ?case using 11(1) [OF f(1) refl refl f(2) 11(3) f(3)] 11(2) [OF f(1) refl refl f(2,3) 11(3) f(4)] f(5) by simp
next
  case (8 nm' body)
  then show ?case by (auto split: option.splits prod.splits)
next
  case (9 nm' body)
  then obtain m where "decode_fields nm' body [] = Some m" "v = DObj m" by auto
  then show ?case using 9(1) [OF 9(2)] by simp
qed (auto simp: from_utf8_def split: if_splits)

section \<open>Sizes\<close>

fun size_bound :: "dynamic_value \<Rightarrow> nat" where
  "size_bound (DStr s) = length s"
| "size_bound (DBytes b) = length b"
| "size_bound (DBool _) = 1"
| "size_bound DNull = 0"
| "size_bound (DArray items) = 9 + sum_list (map (\<lambda>v. 10 + size_bound v) items)"
| "size_bound (DObj m) = sum_list (map (\<lambda>p. 13 + size_bound (snd p)) m)"
| "size_bound v = 8"

lemma length_put_len: "1 \<le> length (put_len n) \<and> length (put_len n) \<le> 9"
  unfolding put_len_varint length_varint_encode by (cases "of_nat n :: u64" rule: width_of_spec) simp_all

lemma length_put_id: "length (put_id i) \<le> 3"
  by (simp add: put_id_def byte_sized_def)

lemma length_trimmed: "length (encode_int v) \<le> 8" "length (encode_uint v) \<le> 8"
  by (simp_all add: encode_int_def encode_uint_def Let_def)

lemma encode_bound:
  "encode_value R v s = (Inr (t, b), s') \<Longrightarrow> t = dyn_type v \<and> length b \<le> size_bound v"
  "encode_items R items s = (Inr b, s') \<Longrightarrow> length b \<le> sum_list (map (\<lambda>v. 10 + size_bound v) items)"
  "encode_fields R m s = (Inr b, s') \<Longrightarrow> length b \<le> sum_list (map (\<lambda>p. 13 + size_bound (snd p)) m)"
proof (induction R v and R items and R m arbitrary: s t b s' and s b s' and s b s'
    rule: encode_value_encode_items_encode_fields.induct)
  case (8 R items)
  then obtain body where "encode_items R items s = (Inr body, s')" "t = VArray" "b = put_len (length items) @ body"
    by (auto simp: iobind_eq_Inr)
  then show ?case using 8(1) [of s body s'] length_put_len [of "length items"] by simp
next
  case (9 R m)
  then show ?case by (auto simp: iobind_eq_Inr)
next
  case (11 R item items)
  then obtain ty ib s1 rest where "encode_value R item s = (Inr (ty, ib), s1)" "encode_items R items s1 = (Inr rest, s')"
    "b = type_to_byte ty # put_len (length ib) @ ib @ rest"
    by (auto simp: iobind_eq_Inr split: prod.splits)
  note e = this
  show ?case using 11(1) [OF e(1)] 11(2) [OF e(2)] length_put_len [of "length ib"] e(3) by simp
next
  case (13 R k v m)
  then obtain i s0 ty ib s1 rest where "R k s = (Inr i, s0)" "encode_value R v s0 = (Inr (ty, ib), s1)" "encode_fields R m s1 = (Inr rest, s')"
    "b = put_id i @ type_to_byte ty # put_len (length ib) @ ib @ rest"
    by (auto simp: iobind_eq_Inr split: prod.splits)
  note e = this
  show ?case using 13(1) [OF e(2)] 13(2) [OF e(3)] length_put_len [of "length ib"] length_put_id [of i] e(4) by simp
qed (simp_all add: length_trimmed byte_sized_def)

section \<open>Properties\<close>

text \<open>
  C33: Whatever bytes a body holds, a value decoded under a tag has that tag's type and is well formed
  at every depth: its text is UTF-8, its objects have valid names in strict order; and a value that
  was encoded carries the tag of its own type.
\<close>

theorem decoded_values_typed:
  assumes "\<And>i n. nm i = Some n \<Longrightarrow> utf8_valid n" "decode_value nm t b = Some v"
  shows "dyn_type v = t \<and> dyn_typed v \<and> (\<forall>R s t' b' s'. encode_value R v s = (Inr (t', b'), s') \<longrightarrow> t' = t)"
proof -
  have "dyn_type v = t \<and> dyn_typed v" by (rule decode_typed(1) [where nm = nm, OF assms(1) refl assms(2)])
  then show ?thesis by (auto dest: encode_bound(1))
qed

definition demo_body :: bytes where
  "demo_body = [1, 2, 1, 66, 0, 4, 1, 1]"

theorem decoded_values_typed_witness:
  "dyn_typed (DObj [([48], DBool True), ([97], DStr [66])])"
proof -
  have "decode_value [1 \<mapsto> [97 :: byte]] VObj demo_body = Some (DObj [([48], DBool True), ([97], DStr [66])])"
    by code_simp
  from decoded_values_typed [OF _ this] show ?thesis by (simp split: if_splits)
qed

text \<open>
  C34: Bounds of the wire: a varint takes at most \<open>w\<close> bytes exactly when its value fits the \<open>7 * w\<close>
  payload bits of that width or nine bytes are allowed, and a frame adds at most its name, tag and
  length (thirteen bytes) to the size of its value.
\<close>

theorem wire_bounds:
  "(length (varint_encode x) \<le> Suc k \<longleftrightarrow> unat x < 2 ^ (7 * Suc k) \<or> 8 \<le> k) \<and>
   (put_frame_named R buf name v s = (Inr out, s') \<longrightarrow> length out \<le> length buf + 13 + size_bound v)"
proof (intro conjI impI)
  show "length (varint_encode x) \<le> Suc k \<longleftrightarrow> unat x < 2 ^ (7 * Suc k) \<or> 8 \<le> k"
  proof (cases x rule: width_of_spec)
    case small
    have mono: "(2 :: nat) ^ a \<le> 2 ^ b" if "a \<le> b" for a b using that by (rule power_increasing) simp
    show ?thesis
    proof (cases "width_of x \<le> Suc k")
      case True
      then have "(2 :: nat) ^ (7 * width_of x) \<le> 2 ^ (7 * Suc k)" by (intro mono) simp
      then have "unat x < 2 ^ (7 * Suc k)" using small(3) by (rule less_le_trans [rotated])
      then show ?thesis using True by (simp add: length_varint_encode)
    next
      case False
      then have "(2 :: nat) ^ (7 * Suc k) \<le> 2 ^ (7 * (width_of x - 1))" by (intro mono) simp
      then have "\<not> unat x < 2 ^ (7 * Suc k)" using small(4) False by linarith
      then show ?thesis using False small(2) by (simp add: length_varint_encode)
    qed
  next
    case big
    show ?thesis
    proof (cases "k < 8")
      case True
      then have "(2 :: nat) ^ (7 * Suc k) \<le> 2 ^ 56" by (intro power_increasing) simp_all
      then have "\<not> unat x < 2 ^ (7 * Suc k)" using big(2) by linarith
      then show ?thesis using big(1) True by (simp add: length_varint_encode)
    qed (simp add: length_varint_encode big(1))
  qed
next
  assume run: "put_frame_named R buf name v s = (Inr out, s')"
  obtain i s0 t b where "encode_value R v s0 = (Inr (t, b), s')" "out = buf @ put_id i @ type_to_byte t # put_len (length b) @ b"
    using run by (auto simp: put_frame_named_def iobind_eq_Inr split: prod.splits)
  then show "length out \<le> length buf + 13 + size_bound v"
    using encode_bound(1) [of R v s0 t b s'] length_put_len [of "length b"] length_put_id [of i] by simp
qed

definition demo_resolver :: "unit resolver" where
  "demo_resolver name = ioret 300"

theorem wire_bounds_witness:
  "length (varint_encode 127) \<le> Suc 0 \<and> \<not> length (varint_encode 128) \<le> Suc 0 \<and>
   (\<exists>out. fst (put_frame_named demo_resolver [9] [97] (DStr [66, 67]) ()) = Inr out \<and> length out \<le> 16)"
proof -
  obtain out s' where run: "put_frame_named demo_resolver [9] [97] (DStr [66, 67]) () = (Inr out, s')"
    by (simp add: put_frame_named_def iobind_def ioret_def demo_resolver_def)
  show ?thesis
    using wire_bounds [of 127 0 demo_resolver "[9]" "[97]" "DStr [66, 67]" "()" out s'] wire_bounds [of 128 0 demo_resolver "[9]" "[97]" "DStr [66, 67]" "()" out s'] run
    by simp
qed

end
