(* ===== verification/Okm_LocalStorage.thy ===== *)
theory Okm_LocalStorage
  imports Okm_Storage
begin

unbundle bit_operations_syntax

text \<open>
  The browser engine: \<open>okm-core/src/engine/localstorage_backend.rs\<close>. Keys and values cross
  into the container as base64; scans enumerate every item, decode, filter and sort.

  The container itself (\<open>web_sys::Storage\<close>) is a parameter: a record of its calls, with the
  behaviour the code relies on stated as \<open>web_ok\<close>. A text is its bytes; base64 text is
  ASCII, so it has the same length in every encoding. A JS error is its printed form.
\<close>

section \<open>Base64\<close>

definition B64 :: bytes where
  "B64 = [65, 66, 67, 68, 69, 70, 71, 72, 73, 74, 75, 76, 77, 78, 79, 80, 81, 82, 83, 84, 85, 86, 87, 88,
     89, 90, 97, 98, 99, 100, 101, 102, 103, 104, 105, 106, 107, 108, 109, 110, 111, 112, 113, 114, 115,
     116, 117, 118, 119, 120, 121, 122, 48, 49, 50, 51, 52, 53, 54, 55, 56, 57, 43, 47]"

definition b64_char :: "u32 \<Rightarrow> byte" where
  "b64_char n = B64 ! unat (n AND 63)"

text \<open>The three bytes of a chunk, missing ones as zero, in 24 bits.\<close>

definition b64_word :: "byte \<Rightarrow> byte \<Rightarrow> byte \<Rightarrow> u32" where
  "b64_word b0 b1 b2 = push_bit 16 (ucast b0) OR push_bit 8 (ucast b1) OR ucast b2"

fun b64_encode :: "bytes \<Rightarrow> bytes" where
  "b64_encode [] = []"
| "b64_encode [b0] =
     (let n = b64_word b0 0 0 in [b64_char (drop_bit 18 n), b64_char (drop_bit 12 n), 61, 61])"
| "b64_encode [b0, b1] =
     (let n = b64_word b0 b1 0 in
        [b64_char (drop_bit 18 n), b64_char (drop_bit 12 n), b64_char (drop_bit 6 n), 61])"
| "b64_encode (b0 # b1 # b2 # bs) =
     (let n = b64_word b0 b1 b2 in
        [b64_char (drop_bit 18 n), b64_char (drop_bit 12 n), b64_char (drop_bit 6 n), b64_char n])
     @ b64_encode bs"

definition b64_val :: "byte \<Rightarrow> u32 option" where
  "b64_val c =
     (if 65 \<le> c \<and> c \<le> 90 then Some (ucast (c - 65))
      else if 97 \<le> c \<and> c \<le> 122 then Some (ucast (c - 97) + 26)
      else if 48 \<le> c \<and> c \<le> 57 then Some (ucast (c - 48) + 52)
      else if c = 43 then Some 62
      else if c = 47 then Some 63
      else None)"

text \<open>The bits of the value characters of a group, most significant first.\<close>

fun b64_bits :: "u32 \<Rightarrow> bytes \<Rightarrow> u32 option" where
  "b64_bits n [] = Some n"
| "b64_bits n (c # cs) =
     (case b64_val c of None \<Rightarrow> None | Some v \<Rightarrow> b64_bits (push_bit 6 n OR v) cs)"

definition b64_group :: "byte \<Rightarrow> byte \<Rightarrow> byte \<Rightarrow> byte \<Rightarrow> bytes option" where
  "b64_group c0 c1 c2 c3 =
     (let pad = (if c3 = 61 then 1 else 0) + (if c2 = 61 then 1 else 0);
          expect = (if c2 = 61 \<and> c3 = 61 then 2 else 1) in
      if pad > 0 \<and> (c3 \<noteq> 61 \<or> pad \<noteq> expect) then None
      else case b64_bits 0 (take (4 - pad) [c0, c1, c2, c3]) of
        None \<Rightarrow> None
      | Some n \<Rightarrow>
          (let m = push_bit (6 * pad) n in
           Some (map (\<lambda>i. ucast (drop_bit (16 - 8 * i) m)) [0..<3 - pad])))"

fun b64_decode_groups :: "bytes \<Rightarrow> bytes option" where
  "b64_decode_groups (c0 # c1 # c2 # c3 # cs) =
     (case b64_group c0 c1 c2 c3 of
        None \<Rightarrow> None
      | Some out \<Rightarrow> map_option (\<lambda>rest. out @ rest) (b64_decode_groups cs))"
| "b64_decode_groups _ = Some []"

definition b64_decode :: "bytes \<Rightarrow> bytes option" where
  "b64_decode t = (if length t mod 4 \<noteq> 0 then None else b64_decode_groups t)"

section \<open>The engine\<close>

record 'w web_storage =
  wlength :: "'w \<Rightarrow> string + nat"
  wkey :: "'w \<Rightarrow> nat \<Rightarrow> string + bytes option"
  wget_item :: "'w \<Rightarrow> bytes \<Rightarrow> string + bytes option"
  wset_item :: "bytes \<Rightarrow> bytes \<Rightarrow> 'w \<Rightarrow> (string + unit) \<times> 'w"
  wremove_item :: "bytes \<Rightarrow> 'w \<Rightarrow> (string + unit) \<times> 'w"

definition ls_row :: "'w web_storage \<Rightarrow> 'w \<Rightarrow> nat \<Rightarrow> (bytes \<times> bytes) option" where
  "ls_row W w i =
     (case wkey W w i of
        Inr (Some k) \<Rightarrow>
          (case b64_decode k of
             None \<Rightarrow> None
           | Some key \<Rightarrow>
               (case wget_item W w k of
                  Inr (Some v) \<Rightarrow> map_option (\<lambda>val. (key, val)) (b64_decode v)
                | _ \<Rightarrow> None))
      | _ \<Rightarrow> None)"

definition ls_count :: "'w web_storage \<Rightarrow> 'w \<Rightarrow> nat" where
  "ls_count W w = (case wlength W w of Inr n \<Rightarrow> n | Inl _ \<Rightarrow> 0)"

definition ls_rows :: "'w web_storage \<Rightarrow> 'w \<Rightarrow> (bytes \<times> bytes) list" where
  "ls_rows W w = List.map_filter (ls_row W w) [0..<ls_count W w]"

definition ls_rows_sorted :: "'w web_storage \<Rightarrow> 'w \<Rightarrow> bytes list" where
  "ls_rows_sorted W w = sort (map fst (ls_rows W w))"

definition ls_put :: "'w web_storage \<Rightarrow> bytes \<Rightarrow> bytes \<Rightarrow> ('w, unit) io" where
  "ls_put W key val w =
     map_prod (map_sum (\<lambda>e. Engine (''localStorage set_item: '' @ e)) id) id
       (wset_item W (b64_encode key) (b64_encode val) w)"

definition ls_get :: "'w web_storage \<Rightarrow> 'w \<Rightarrow> bytes \<Rightarrow> bytes option result" where
  "ls_get W w key =
     (case wget_item W w (b64_encode key) of
        Inr (Some text) \<Rightarrow> Inr (b64_decode text)
      | Inr None \<Rightarrow> Inr None
      | Inl e \<Rightarrow> Inl (Engine (''localStorage get_item: '' @ e)))"

definition ls_del :: "'w web_storage \<Rightarrow> bytes \<Rightarrow> ('w, unit) io" where
  "ls_del W key w =
     map_prod (map_sum (\<lambda>e. Engine (''localStorage remove_item: '' @ e)) id) id
       (wremove_item W (b64_encode key) w)"

text \<open>\<open>filter_map\<close> over \<open>strip_prefix\<close>.\<close>

definition ls_scan_suffix :: "'w web_storage \<Rightarrow> 'w \<Rightarrow> bytes \<Rightarrow> bytes list result" where
  "ls_scan_suffix W w p = Inr (map (drop (length p)) (filter (prefix p) (ls_rows_sorted W w)))"

definition ls_scan_range :: "'w web_storage \<Rightarrow> 'w \<Rightarrow> bytes \<Rightarrow> bytes option \<Rightarrow> bytes list result" where
  "ls_scan_range W w b e =
     (case e of
        Some e' \<Rightarrow>
          (if e' \<le> b then Inr [] else Inr (filter (\<lambda>k. b \<le> k \<and> k < e') (ls_rows_sorted W w)))
      | None \<Rightarrow> Inr (filter (\<lambda>k. b \<le> k) (ls_rows_sorted W w)))"

definition ls_scan_range_iter ::
    "'w web_storage \<Rightarrow> 'w \<Rightarrow> bytes \<Rightarrow> bytes option \<Rightarrow> (bytes \<times> bytes) result list" where
  "ls_scan_range_iter W w b e =
     (if (case e of Some e' \<Rightarrow> e' \<le> b | None \<Rightarrow> False) then []
      else map Inr (sort_key fst
        (filter (\<lambda>(k, _). b \<le> k \<and> (case e of None \<Rightarrow> True | Some e' \<Rightarrow> k < e')) (ls_rows W w))))"

definition local_storage :: "'w web_storage \<Rightarrow> 'w storage" where
  "local_storage W =
     \<lparr> sput = ls_put W, sget = ls_get W, sdel = ls_del W, sscan_suffix = ls_scan_suffix W,
       sscan_range = ls_scan_range W, sscan_range_iter = ls_scan_range_iter W,
       scommit_batch = default_commit_batch (ls_put W) (ls_del W) \<rparr>"

section \<open>The codec\<close>

lemma b64_table:
  "list_all (\<lambda>i. b64_val (B64 ! i) = Some (of_nat i) \<and> B64 ! i \<noteq> 61) [0..<64]"
  by code_simp

lemma mask_63: "(63 :: u32) = mask 6"
  by (simp add: mask_eq_exp_minus_1)

lemma b64_val_char [simp]: "b64_val (b64_char n) = Some (take_bit 6 n)"
  and b64_char_pad [simp]: "b64_char n \<noteq> 61"
proof -
  have n: "n AND 63 = take_bit 6 n" by (simp only: mask_63 take_bit_eq_mask)
  have "unat (take_bit 6 n) = take_bit 6 (unat n)" by (simp only: unsigned_take_bit_eq)
  also have "\<dots> < 2 ^ 6" by (rule take_bit_nat_less_exp)
  finally have "unat (take_bit 6 n) \<in> set [0..<64]" by simp
  from b64_table [unfolded list_all_iff, rule_format, OF this]
  show "b64_val (b64_char n) = Some (take_bit 6 n)" "b64_char n \<noteq> 61"
    by (simp_all add: b64_char_def n)
qed

lemma byte_bit: "bit (b :: byte) n \<Longrightarrow> n < 8"
  using bit_imp_le_length [of b n] by simp

lemma glue_bits:
  "push_bit 6 (take_bit j (drop_bit (k + 6) n)) OR take_bit 6 (drop_bit k n) = take_bit (6 + j) (drop_bit k (n :: u32))"
proof (rule bit_eqI)
  fix i assume "possible_bit TYPE(u32) i"
  then have i: "i < 32" by simp
  show "bit (push_bit 6 (take_bit j (drop_bit (k + 6) n)) OR take_bit 6 (drop_bit k n)) i =
      bit (take_bit (6 + j) (drop_bit k n)) i"
    using i by (cases "i < 6") (auto simp: bit_simps)
qed

lemma clear_bits: "take_bit k n = 0 \<Longrightarrow> push_bit k (drop_bit k n) = (n :: u32)"
  by (metis add.right_neutral bits_ident)

lemma b64_glue:
  fixes n :: u32
  shows "push_bit 6 (take_bit 6 (drop_bit 18 n)) OR take_bit 6 (drop_bit 12 n) = take_bit 12 (drop_bit 12 n)"
    and "push_bit 6 (take_bit 12 (drop_bit 12 n)) OR take_bit 6 (drop_bit 6 n) = take_bit 18 (drop_bit 6 n)"
    and "push_bit 6 (take_bit 18 (drop_bit 6 n)) OR take_bit 6 n = take_bit 24 n"
  using glue_bits [of 6 12 n] glue_bits [of 12 6 n] glue_bits [of 18 0 n] by simp_all

lemma take_drop_24: "take_bit 24 (n :: u32) = n \<Longrightarrow> k \<le> 24 \<Longrightarrow> take_bit (24 - k) (drop_bit k n) = drop_bit k n"
  by (metis drop_bit_take_bit)

lemma b64_word_bytes:
  "ucast (drop_bit 16 (b64_word b0 b1 b2)) = b0"
  "ucast (drop_bit 8 (b64_word b0 b1 b2)) = b1"
  "ucast (b64_word b0 b1 b2) = b2"
  subgoal by (rule bit_eqI) (auto simp: b64_word_def bit_simps dest: byte_bit)
  subgoal by (rule bit_eqI) (auto simp: b64_word_def bit_simps dest: byte_bit)
  subgoal by (rule bit_eqI) (auto simp: b64_word_def bit_simps dest: byte_bit)
  done

lemma b64_word_bits:
  "take_bit 24 (b64_word b0 b1 b2) = b64_word b0 b1 b2"
  "take_bit 6 (b64_word b0 b1 0) = 0"
  "take_bit 12 (b64_word b0 0 0) = 0"
  subgoal by (rule bit_eqI) (auto simp: b64_word_def bit_simps dest: byte_bit)
  subgoal by (rule bit_eqI) (auto simp: b64_word_def bit_simps dest!: byte_bit)
  subgoal by (rule bit_eqI) (auto simp: b64_word_def bit_simps dest!: byte_bit)
  done

lemma b64_group_3:
  "b64_group (b64_char (drop_bit 18 n)) (b64_char (drop_bit 12 n)) (b64_char (drop_bit 6 n)) (b64_char n) =
     Some [b0, b1, b2]" if n: "n = b64_word b0 b1 b2"
  using b64_word_bits(1) [of b0 b1 b2] b64_word_bytes [of b0 b1 b2]
  by (simp add: b64_group_def Let_def b64_glue n upt_rec)

lemma b64_group_2:
  "b64_group (b64_char (drop_bit 18 n)) (b64_char (drop_bit 12 n)) (b64_char (drop_bit 6 n)) 61 =
     Some [b0, b1]" if n: "n = b64_word b0 b1 0"
  using take_drop_24 [OF b64_word_bits(1), of 6 b0 b1 0] clear_bits [OF b64_word_bits(2), of b0 b1]
    b64_word_bytes [of b0 b1 0]
  by (simp add: b64_group_def Let_def b64_glue n upt_rec)

lemma b64_group_1:
  "b64_group (b64_char (drop_bit 18 n)) (b64_char (drop_bit 12 n)) 61 61 = Some [b0]" if n: "n = b64_word b0 0 0"
  using take_drop_24 [OF b64_word_bits(1), of 12 b0 0 0] clear_bits [OF b64_word_bits(3), of b0]
    b64_word_bytes [of b0 0 0]
  by (simp add: b64_group_def Let_def b64_glue n upt_rec)

lemma b64_encode_length: "length (b64_encode bs) mod 4 = 0"
  by (induction bs rule: b64_encode.induct) (simp_all add: Let_def)

lemma b64_decode_encode [simp]: "b64_decode (b64_encode bs) = Some bs"
proof -
  have "b64_decode_groups (b64_encode bs) = Some bs"
    by (induction bs rule: b64_encode.induct)
      (simp_all add: Let_def b64_group_1 b64_group_2 b64_group_3)
  then show ?thesis by (simp add: b64_decode_def b64_encode_length)
qed

lemma b64_encode_inject: "b64_encode a = b64_encode b \<longleftrightarrow> a = b"
  by (metis b64_decode_encode option.inject)

declare b64_encode.simps [simp del]

section \<open>The container's behaviour\<close>

text \<open>
  \<open>web_ok W okw items\<close>: the documented behaviour of a storage area while it answers. The
  indexes below \<open>length\<close> enumerate the keys of the stored items in some order, items are a
  map from texts to texts, and no call is refused.
\<close>

definition web_ok :: "'w web_storage \<Rightarrow> ('w \<Rightarrow> bool) \<Rightarrow> ('w \<Rightarrow> bytes \<rightharpoonup> bytes) \<Rightarrow> bool" where
  "web_ok W okw items \<longleftrightarrow>
     (\<forall>w. okw w \<longrightarrow>
        (\<exists>ks. distinct ks \<and> set ks = dom (items w) \<and> wlength W w = Inr (length ks) \<and>
           (\<forall>i < length ks. wkey W w i = Inr (Some (ks ! i)))) \<and>
        (\<forall>t. wget_item W w t = Inr (items w t)) \<and>
        (\<forall>t v. \<exists>w'. wset_item W t v w = (Inr (), w') \<and> okw w' \<and> items w' = (items w)(t \<mapsto> v)) \<and>
        (\<forall>t. \<exists>w'. wremove_item W t w = (Inr (), w') \<and> okw w' \<and> items w' = (items w)(t := None)))"

text \<open>No item has a key text that decodes without being the encoding of what it decodes to.\<close>

definition canonical :: "(bytes \<rightharpoonup> bytes) \<Rightarrow> bool" where
  "canonical m \<longleftrightarrow> (\<forall>t \<in> dom m. \<forall>k. b64_decode t = Some k \<longrightarrow> t = b64_encode k)"

text \<open>The map of the engine.\<close>

definition ls_map :: "(bytes \<rightharpoonup> bytes) \<Rightarrow> bytes \<rightharpoonup> bytes" where
  "ls_map m k = Option.bind (m (b64_encode k)) b64_decode"

lemma web_okD:
  assumes "web_ok W okw items" "okw w"
  shows "wget_item W w t = Inr (items w t)"
    and "\<exists>w'. wset_item W t v w = (Inr (), w') \<and> okw w' \<and> items w' = (items w)(t \<mapsto> v)"
    and "\<exists>w'. wremove_item W t w = (Inr (), w') \<and> okw w' \<and> items w' = (items w)(t := None)"
  using assms by (auto simp: web_ok_def)

lemma ls_map_upd [simp]:
  "ls_map (m(b64_encode k \<mapsto> b64_encode v)) = (ls_map m)(k \<mapsto> v)"
  "ls_map (m(b64_encode k := None)) = (ls_map m)(k := None)"
  by (auto simp: ls_map_def fun_eq_iff b64_encode_inject)

lemma canonical_upd [simp]:
  "canonical m \<Longrightarrow> canonical (m(b64_encode k \<mapsto> v))"
  "canonical m \<Longrightarrow> canonical (m(b64_encode k := None))"
  by (auto simp: canonical_def split: if_splits)

section \<open>Rows\<close>

lemma map_filter_nth: "List.map_filter (\<lambda>i. f (xs ! i)) [0..<length xs] = List.map_filter f xs"
proof -
  have "List.map_filter (\<lambda>i. f (xs ! i)) [0..<length xs] = List.map_filter f (map ((!) xs) [0..<length xs])"
    by (simp only: map_filter_def filter_map comp_def map_map)
  then show ?thesis by (simp only: map_nth)
qed

lemma map_filter_cong': "(\<And>x. x \<in> set xs \<Longrightarrow> f x = g x) \<Longrightarrow> List.map_filter f xs = List.map_filter g xs"
  by (induction xs) (simp_all add: List.map_filter_def)

definition row_of :: "(bytes \<rightharpoonup> bytes) \<Rightarrow> bytes \<Rightarrow> (bytes \<times> bytes) option" where
  "row_of m t = Option.bind (b64_decode t) (\<lambda>k. Option.bind (m t) (\<lambda>v. map_option (Pair k) (b64_decode v)))"

lemma ls_rows_items:
  assumes "web_ok W okw items" "okw w"
  obtains ks where "distinct ks" "set ks = dom (items w)" "ls_rows W w = List.map_filter (row_of (items w)) ks"
proof -
  obtain ks where ks: "distinct ks" "set ks = dom (items w)" "wlength W w = Inr (length ks)"
    "\<forall>i < length ks. wkey W w i = Inr (Some (ks ! i))"
    using assms by (auto simp: web_ok_def)
  have row: "ls_row W w i = row_of (items w) (ks ! i)" if "i < length ks" for i
    using that ks(4) web_okD(1) [OF assms] by (auto simp: ls_row_def row_of_def split: option.splits)
  have "ls_rows W w = List.map_filter (\<lambda>i. row_of (items w) (ks ! i)) [0..<length ks]"
    unfolding ls_rows_def ls_count_def ks(3) sum.case by (rule map_filter_cong') (simp add: row)
  then show thesis using that [OF ks(1,2)] by (simp add: map_filter_nth)
qed

lemma rows_keys:
  assumes "canonical m" "distinct ks" "set ks \<subseteq> dom m"
  shows "distinct (map fst (List.map_filter (row_of m) ks))" (is ?d)
    and "List.map_filter (row_of m) ks = map (\<lambda>k. (k, the (ls_map m k))) (map fst (List.map_filter (row_of m) ks))" (is ?r)
    and "fst ` set (List.map_filter (row_of m) ks) = {k \<in> dom (ls_map m). b64_encode k \<in> set ks}" (is ?s)
proof -
  have row: "row_of m t = Some (k, v) \<longleftrightarrow> t = b64_encode k \<and> ls_map m k = Some v" if t: "t \<in> dom m" for t k v
  proof -
    have "b64_decode t = Some k \<longleftrightarrow> t = b64_encode k" using assms(1) t by (auto simp: canonical_def)
    then show ?thesis by (auto simp: row_of_def ls_map_def bind_eq_Some_conv)
  qed
  have in_row: "(k, v) \<in> set (List.map_filter (row_of m) xs) \<longleftrightarrow> (\<exists>t \<in> set xs. row_of m t = Some (k, v))" for k v xs
    by (induction xs) (auto simp: List.map_filter_def split: option.splits)
  have mem: "(k, v) \<in> set (List.map_filter (row_of m) ks) \<longleftrightarrow> b64_encode k \<in> set ks \<and> ls_map m k = Some v" for k v
  proof -
    have "(\<exists>t \<in> set ks. row_of m t = Some (k, v)) \<longleftrightarrow> (\<exists>t \<in> set ks. t = b64_encode k \<and> ls_map m k = Some v)"
      using assms(3) row by (intro bex_cong refl) blast
    then show ?thesis by (auto simp: in_row)
  qed
  show ?s
  proof (intro set_eqI iffI)
    fix k assume "k \<in> {k \<in> dom (ls_map m). b64_encode k \<in> set ks}"
    then obtain v where "(k, v) \<in> set (List.map_filter (row_of m) ks)" using mem by auto
    then show "k \<in> fst ` set (List.map_filter (row_of m) ks)" by (rule image_eqI [rotated]) simp
  qed (auto simp: mem)
  show ?d using assms(2,3)
  proof (induction ks)
    case (Cons t ks)
    show ?case
    proof (cases "row_of m t")
      case (Some kv)
      then obtain k v where kv: "row_of m t = Some (k, v)" by (cases kv) simp
      then have "t = b64_encode k" using row Cons.prems by simp
      then have "k \<notin> fst ` set (List.map_filter (row_of m) ks)" using Cons.prems by (auto simp: in_row row subset_iff)
      then show ?thesis using Cons kv by (simp add: List.map_filter_simps)
    qed (use Cons in \<open>simp add: List.map_filter_simps\<close>)
  qed (simp add: List.map_filter_simps)
  show ?r unfolding map_map by (rule map_idI [symmetric]) (auto simp: mem)
qed

lemma sort_key_fst: "(\<And>k. fst (f k) = k) \<Longrightarrow> sort_key fst (map f ks) = map f (sort ks)"
proof -
  assume f: "\<And>k. fst (f k) = k"
  have "insort_key fst (f k) (map f xs) = map f (insort k xs)" for k xs by (induction xs) (simp_all add: f)
  then show ?thesis by (induction ks) simp_all
qed

section \<open>The engine is an engine\<close>

lemma local_storage_scan:
  assumes W: "web_ok W okw items"
  shows "kv_scan (local_storage W) (\<lambda>w. okw w \<and> canonical (items w)) (\<lambda>w. ls_map (items w))"
proof -
  have keys: "\<exists>ks. distinct ks \<and> set ks = dom (ls_map (items w)) \<and>
      ls_rows W w = map (\<lambda>k. (k, the (ls_map (items w) k))) ks" if w: "okw w" "canonical (items w)" for w
  proof -
    obtain ts where ts: "distinct ts" "set ts = dom (items w)" "ls_rows W w = List.map_filter (row_of (items w)) ts"
      using ls_rows_items [OF W w(1)] .
    note rows = rows_keys [OF w(2) ts(1) eq_refl [OF ts(2)], folded ts(3)]
    have "dom (ls_map (items w)) = {k \<in> dom (ls_map (items w)). b64_encode k \<in> set ts}"
      by (auto simp: ls_map_def ts(2) bind_eq_Some_conv)
    then show ?thesis using rows by (intro exI [of _ "map fst (ls_rows W w)"]) auto
  qed
  have sorted: "ls_rows_sorted W w = sorted_list_of_set (dom (ls_map (items w)))"
    and finite: "finite (dom (ls_map (items w)))" if w: "okw w" "canonical (items w)" for w
  proof -
    obtain ks where ks: "distinct ks" "set ks = dom (ls_map (items w))"
      "ls_rows W w = map (\<lambda>k. (k, the (ls_map (items w) k))) ks" using keys [OF w] by blast
    show "finite (dom (ls_map (items w)))" unfolding ks(2) [symmetric] by simp
    have "map fst (ls_rows W w) = ks" by (simp add: ks(3) comp_def)
    then show "ls_rows_sorted W w = sorted_list_of_set (dom (ls_map (items w)))"
      using ks(1) by (simp add: ls_rows_sorted_def ks(2) [symmetric] sorted_list_of_set_sort_remdups distinct_remdups_id)
  qed
  have filt: "filter P (sorted_list_of_set A) = sorted_list_of_set {k \<in> A. P k}" if "finite A" for A and P :: "bytes \<Rightarrow> bool"
    using that by (intro sorted_distinct_set_unique) (simp_all add: sorted_wrt_filter)
  have none: "{k \<in> A. b \<le> k \<and> k < x} = {}" if "x \<le> b" for A and b x :: bytes
    using that by auto
  have get: "sget (local_storage W) w k = Inr (ls_map (items w) k)" if "okw w" for w k
    by (simp add: local_storage_def ls_get_def ls_map_def web_okD(1) [OF W that] split: option.split)
  have put: "\<exists>w'. ls_put W k v w = (Inr (), w') \<and> (okw w' \<and> canonical (items w')) \<and> ls_map (items w') = (ls_map (items w))(k \<mapsto> v)"
    if "okw w \<and> canonical (items w)" for w k v
    using web_okD(2) [OF W, of w "b64_encode k" "b64_encode v"] that by (auto simp: ls_put_def)
  have del: "\<exists>w'. ls_del W k w = (Inr (), w') \<and> (okw w' \<and> canonical (items w')) \<and> ls_map (items w') = (ls_map (items w))(k := None)"
    if "okw w \<and> canonical (items w)" for w k
    using web_okD(3) [OF W, of w "b64_encode k"] that by (auto simp: ls_del_def)
  show ?thesis
  proof
    fix w k v assume w: "okw w \<and> canonical (items w)"
    show "sget (local_storage W) w k = Inr (ls_map (items w) k)" using get w by simp
    show "\<exists>w'. sput (local_storage W) k v w = (Inr (), w') \<and> (okw w' \<and> canonical (items w')) \<and>
        ls_map (items w') = (ls_map (items w))(k \<mapsto> v)" using put [OF w] by (simp add: local_storage_def)
    show "\<exists>w'. sdel (local_storage W) k w = (Inr (), w') \<and> (okw w' \<and> canonical (items w')) \<and>
        ls_map (items w') = (ls_map (items w))(k := None)" using del [OF w] by (simp add: local_storage_def)
    show "\<exists>w'. scommit_batch (local_storage W) ops w = (Inr (), w') \<and> (okw w' \<and> canonical (items w')) \<and>
        ls_map (items w') = apply_ops ops (ls_map (items w))" for ops
      using default_commit_ok [of "\<lambda>w. okw w \<and> canonical (items w)" "ls_put W" "\<lambda>w. ls_map (items w)" "ls_del W" w ops] put del w
      by (simp add: local_storage_def)
    show "finite (dom (ls_map (items w)))" using finite w by simp
    show "sscan_range (local_storage W) w b e = Inr (keys_in (ls_map (items w)) b e)" for b e
      using w finite by (auto simp: local_storage_def ls_scan_range_def sorted filt keys_in_def in_range_def none
          intro!: arg_cong [where f = sorted_list_of_set] split: option.split)
    show "sscan_suffix (local_storage W) w p = Inr (map (drop (length p)) (keys_under (ls_map (items w)) p))" for p
      using w finite by (simp add: local_storage_def ls_scan_suffix_def sorted filt keys_under_def)
    show "sscan_range_iter (local_storage W) w b e =
        map (\<lambda>k. Inr (k, the (ls_map (items w) k))) (keys_in (ls_map (items w)) b e)" for b e
    proof -
      obtain ks where ks: "distinct ks" "set ks = dom (ls_map (items w))"
        "ls_rows W w = map (\<lambda>k. (k, the (ls_map (items w) k))) ks" using keys w by blast
      have "{k \<in> dom (ls_map (items w)). in_range b e k} = set (filter (in_range b e) ks)"
        by (simp add: ks(2))
      then have "sort (filter (in_range b e) ks) = keys_in (ls_map (items w)) b e"
        using ks(1) by (simp only: keys_in_def sorted_list_of_set_sort_remdups distinct_remdups_id distinct_filter)
      moreover have "keys_in (ls_map (items w)) b e = []" if "e = Some e'" "e' \<le> b" for e'
        using that by (simp add: keys_in_def in_range_def none)
      ultimately show ?thesis
        by (auto simp: local_storage_def ls_scan_range_iter_def ks(3) filter_map comp_def sort_key_fst
            in_range_def [abs_def] split: option.splits)
    qed
  qed
qed

text \<open>A container whose items are an association list, enumerated in list order.\<close>

definition list_container :: "(bytes \<times> bytes) list web_storage" where
  "list_container =
     \<lparr> wlength = (\<lambda>w. Inr (length w)),
       wkey = (\<lambda>w i. Inr (if i < length w then Some (fst (w ! i)) else None)),
       wget_item = (\<lambda>w t. Inr (map_of w t)),
       wset_item = (\<lambda>t v w. (Inr (), AList.update t v w)),
       wremove_item = (\<lambda>t w. (Inr (), AList.delete t w)) \<rparr>"

lemma list_container_ok: "web_ok list_container (\<lambda>w. distinct (map fst w)) map_of"
proof -
  have "\<exists>ks. distinct ks \<and> set ks = dom (map_of w) \<and> wlength list_container w = Inr (length ks) \<and>
      (\<forall>i < length ks. wkey list_container w i = Inr (Some (ks ! i)))" if "distinct (map fst w)" for w
    using that by (intro exI [of _ "map fst w"]) (simp add: list_container_def dom_map_of_conv_image_fst)
  then show ?thesis
    by (simp add: web_ok_def) (simp add: list_container_def update_conv' delete_conv' distinct_update distinct_delete)
qed

interpretation local: kv_scan "local_storage list_container" "\<lambda>w. distinct (map fst w) \<and> canonical (map_of w)"
    "\<lambda>w. ls_map (map_of w)"
  by (rule local_storage_scan [OF list_container_ok])

section \<open>Properties\<close>

text \<open>
  Base64 is lossless on every byte string, so no two keys share an item, and its text
  comes in whole groups of four.
\<close>

theorem b64_roundtrip:
  "b64_decode (b64_encode bs) = Some bs \<and> (b64_encode a = b64_encode b \<longrightarrow> a = b) \<and> length (b64_encode bs) mod 4 = 0"
  by (simp add: b64_encode_inject b64_encode_length)

theorem b64_roundtrip_witness:
  "b64_decode [47, 119, 61, 61] = Some [255] \<and> b64_encode [255] = [47, 119, 61, 61]"
proof -
  have "b64_encode [255] = [47, 119, 61, 61]"
    by (simp add: b64_encode.simps Let_def b64_char_def b64_word_def B64_def)
  then show ?thesis using b64_roundtrip [of "[255]"] by simp
qed

text \<open>
  C39: Over a container that answers, the browser engine is an engine: point operations,
  batches and all three scans mean a map from keys to values, in key order, whatever order
  the container enumerates, and foreign items on the same origin are invisible as long as no
  foreign key is a base64 text other than the one the engine writes.
\<close>

theorem local_storage_refines:
  assumes "web_ok W okw items"
  shows "kv_scan (local_storage W) (\<lambda>w. okw w \<and> canonical (items w)) (\<lambda>w. ls_map (items w))"
  by (rule local_storage_scan [OF assms])

theorem local_storage_refines_witness:
  "sscan_range (local_storage list_container) [(b64_encode [255], b64_encode [0]), ([33], [1])] [] None = Inr [[255]]"
proof -
  let ?w = "[(b64_encode [255], b64_encode [0]), ([33], [1])] :: (bytes \<times> bytes) list"
  have ne: "b64_encode k \<noteq> [33]" for k using b64_encode_length [of k] by auto
  have "canonical [[33] \<mapsto> [1]]" by (simp add: canonical_def b64_decode_def)
  then have can: "canonical (map_of ?w)" by simp
  have "ls_map [[33] \<mapsto> [1]] = Map.empty" by (simp add: ls_map_def fun_eq_iff ne)
  then have m: "ls_map (map_of ?w) = [[255] \<mapsto> [0]]" by simp
  have dist: "distinct (map fst ?w)" using ne [of "[255]"] by simp
  have "keys_in [[255] \<mapsto> [0]] [] None = [[255]]" by (simp add: keys_in_def in_range_def)
  then show ?thesis
    using kv_scan.scan_range_ok [OF local_storage_refines [OF list_container_ok], of ?w "[]" None] can dist m
    by simp
qed

text \<open>
  A foreign item under a base64 text that is not the engine's own encoding of a key shows
  up in the scans as that key while a read of the key answers nothing.
\<close>

theorem foreign_key_listed_not_found:
  assumes "web_ok W okw items" "okw w"
    and "items w t = Some v" "b64_decode t = Some k" "b64_decode v = Some x" "items w (b64_encode k) = None"
  shows "k \<in> set (ls_rows_sorted W w) \<and> ls_get W w k = Inr None"
proof -
  obtain ks where ks: "set ks = dom (items w)" "ls_rows W w = List.map_filter (row_of (items w)) ks"
    using ls_rows_items [OF assms(1,2)] by metis
  have "t \<in> set ks" using assms(3) ks(1) by auto
  moreover have "row_of (items w) t = Some (k, x)" using assms(3-5) by (simp add: row_of_def)
  ultimately have "(k, x) \<in> set (ls_rows W w)"
    unfolding ks(2) by (induction ks) (auto simp: List.map_filter_simps split: option.splits)
  then show ?thesis
    using web_okD(1) [OF assms(1,2)] assms(6) by (force simp: ls_rows_sorted_def ls_get_def)
qed

theorem foreign_key_listed_not_found_witness:
  "[0] \<in> set (ls_rows_sorted list_container [([65, 66, 61, 61], [])]) \<and>
     ls_get list_container [([65, 66, 61, 61], [])] [0] = Inr None"
proof (rule foreign_key_listed_not_found [OF list_container_ok])
  show "b64_decode [65, 66, 61, 61] = Some [0]" by code_simp
  show "map_of [([65, 66, 61, 61], [])] (b64_encode [0]) = None"
    by (simp add: b64_encode.simps Let_def b64_char_def b64_word_def B64_def)
  show "b64_decode [] = Some []" by (simp add: b64_decode_def)
qed simp_all

end
