(* ===== verification/Okm_Collection.thy ===== *)
theory Okm_Collection
  imports Okm_Meta
begin

text \<open>
  The document assembly point: the typed half of \<open>okm-core/src/model/document.rs\<close> (rows, faces,
  batches, the meta verbs and the rebuild of the faces).

  What \<open>#[derive(DocumentEncode)]\<close> generates for a document type is the record \<open>document\<close>:
  its codec, its face entries and its hooks are parameters. A read hook gets the point read of
  the store it is handed; a write hook runs on the batch view, whose state is the store and the
  operations collected so far. Decoders are total here: their aborts on payloads no writer
  produced are not modelled. The change log is not attached; events are a list.

  \<open>scan_range_iter\<close> is the list of the pairs at the time of the call, so a rebuild sees the
  store as it was when each walk began.
\<close>

section \<open>Documents and collections\<close>

type_synonym read_view = "bytes \<Rightarrow> bytes option result"

record ('k, 'r, 's) document =
  d_key :: "'k key_encode"
  d_partition :: bytes
  d_ns :: bytes
  d_layout_version :: byte
  d_index_decls :: "index_decl list"
  d_has_vocab :: bool
  d_encode :: "'r \<Rightarrow> bytes"
  d_decode :: "bytes \<Rightarrow> 'r"
  d_key_entries :: "'k \<Rightarrow> bytes \<Rightarrow> (bytes \<times> bytes) list"
  d_index_entries :: "'k \<Rightarrow> 'r \<Rightarrow> bytes \<Rightarrow> (bytes \<times> bytes) list"
  d_embed_entries :: "'r \<Rightarrow> (bytes \<times> bytes) list"
  d_embed_keys :: "'r \<Rightarrow> bytes list"
  d_embed_deref :: "read_view \<Rightarrow> 'r \<Rightarrow> 'r result"
  d_deref_vocab :: "read_view \<Rightarrow> 'r \<Rightarrow> 'r result"
  d_intern :: "bytes \<Rightarrow> 'r \<Rightarrow> ('s \<times> batch, 'r) io"
  d_apply_reduces :: "'k \<Rightarrow> 'r \<Rightarrow> bytes \<Rightarrow> bool \<Rightarrow> ('s \<times> batch, unit) io"

datatype sub_op = EvPut | EvDelete

record ('k, 'r, 's) collection =
  c_store :: 's
  c_epoch :: u64
  c_events :: "(sub_op \<times> u64 \<times> 'k \<times> 'r) list"

definition collection_new :: "'s \<Rightarrow> ('k, 'r, 's) collection" where
  "collection_new s = \<lparr> c_store = s, c_epoch = 0, c_events = [] \<rparr>"

definition header :: "('k, 'r, 's) document \<Rightarrow> bytes" where
  "header D = d_partition D @ d_ns D"

definition d_faces :: "('k, 'r, 's) document \<Rightarrow> bytes" where
  "d_faces D = fingerprint (d_index_decls D)"

definition coll_meta :: "('k, 'r, 's) document \<Rightarrow> 's storage \<Rightarrow> 's \<Rightarrow> table_meta option result option" where
  "coll_meta D S s = meta_read S s (header D)"

definition ensure_layout ::
    "('k, 'r, 's) document \<Rightarrow> 's storage \<Rightarrow> 's \<Rightarrow> (table_meta result \<times> 's) option" where
  "ensure_layout D S = meta_ensure S (header D) (d_layout_version D) (Some (d_faces D))"

definition faces_status ::
    "('k, 'r, 's) document \<Rightarrow> 's storage \<Rightarrow> 's \<Rightarrow> face_status result option" where
  "faces_status D S s =
     map_option (\<lambda>r. rbind r (\<lambda>m. Inr (case m of
        Some meta \<Rightarrow> face_status_of meta (d_faces D)
      | None \<Rightarrow> FUnknownFaces (d_faces D)))) (meta_read S s (header D))"

definition set_meta ::
    "('k, 'r, 's) document \<Rightarrow> 's storage \<Rightarrow> bytes \<Rightarrow> bytes \<Rightarrow> 's \<Rightarrow> (table_meta result \<times> 's) option" where
  "set_meta D S name val s =
     (case meta_ensure S (header D) (d_layout_version D) (Some (d_faces D)) s of
        None \<Rightarrow> None
      | Some (Inl e, s1) \<Rightarrow> Some (Inl e, s1)
      | Some (Inr m, s1) \<Rightarrow>
          (let m = meta_set VERSION [d_layout_version D] (meta_set name val m) in
           Some (iobind (meta_write S (header D) m) (\<lambda>_. ioret m) s1)))"

definition primary_key :: "('k, 'r, 's) document \<Rightarrow> 'k \<Rightarrow> bytes" where
  "primary_key D k = face_key (header D) PRIMARY_SLOT @ kencode (d_key D) k"

definition fields_key :: "('k, 'r, 's) document \<Rightarrow> 'k \<Rightarrow> bytes" where
  "fields_key D k = face_key (header D) DYNAMIC_SLOT @ kencode (d_key D) k"

section \<open>The write set of a document\<close>

primrec put_all :: "'t storage \<Rightarrow> (bytes \<times> bytes) list \<Rightarrow> ('t, unit) io" where
  "put_all T [] = ioret ()"
| "put_all T (p # ps) = iobind (sput T (fst p) (snd p)) (\<lambda>_. put_all T ps)"

primrec del_all :: "'t storage \<Rightarrow> bytes list \<Rightarrow> ('t, unit) io" where
  "del_all T [] = ioret ()"
| "del_all T (k # ks) = iobind (sdel T k) (\<lambda>_. del_all T ks)"

definition release_embedded ::
    "('k, 'r, 's) document \<Rightarrow> 's storage \<Rightarrow> 'r option \<Rightarrow> 'r \<Rightarrow> ('s \<times> batch, unit) io" where
  "release_embedded D S prev doc =
     (case prev of
        None \<Rightarrow> ioret ()
      | Some old \<Rightarrow> del_all (BatchStore S)
          (filter (\<lambda>k. k \<notin> set (d_embed_keys D doc)) (d_embed_keys D old)))"

definition unfold_prev ::
    "('k, 'r, 's) document \<Rightarrow> 'k \<Rightarrow> 'r option \<Rightarrow> ('s \<times> batch, unit) io" where
  "unfold_prev D k prev =
     (case prev of None \<Rightarrow> ioret () | Some old \<Rightarrow> d_apply_reduces D k old (header D) False)"

definition intern_doc :: "('k, 'r, 's) document \<Rightarrow> 'r \<Rightarrow> ('s \<times> batch, 'r) io" where
  "intern_doc D doc = (if d_has_vocab D then d_intern D (header D) doc else ioret doc)"

text \<open>The batch of \<open>put\<close>; the result is the document the event carries.\<close>

definition put_writes ::
    "('k, 'r, 's) document \<Rightarrow> 's storage \<Rightarrow> 'k \<Rightarrow> 'r \<Rightarrow> ('s \<times> batch, 'r) io" where
  "put_writes D S k document =
     iobind (intern_doc D document) (\<lambda>doc.
     iobind (ioread (\<lambda>t. sget (BatchStore S) t (primary_key D k))) (\<lambda>raw.
     let prev = map_option (d_decode D) raw in
     iobind (unfold_prev D k prev) (\<lambda>_.
     iobind (sput (BatchStore S) (primary_key D k) (d_encode D doc)) (\<lambda>_.
     iobind (put_all (BatchStore S) (d_index_entries D k doc (header D))) (\<lambda>_.
     iobind (put_all (BatchStore S) (d_embed_entries D doc)) (\<lambda>_.
     iobind (release_embedded D S prev doc) (\<lambda>_.
     iobind (d_apply_reduces D k doc (header D) True) (\<lambda>_.
     ioret doc))))))))"

definition save_with_prev_into ::
    "('k, 'r, 's) document \<Rightarrow> 's storage \<Rightarrow> 'k \<Rightarrow> 'r \<Rightarrow> 'r option \<Rightarrow> ('s \<times> batch, unit) io" where
  "save_with_prev_into D S k document prev =
     iobind (case prev of
        Some old \<Rightarrow> ioret (Some old)
      | None \<Rightarrow> ioread (\<lambda>(s, ops).
          rbind (sget (BatchStore S) (s, ops) (primary_key D k)) (\<lambda>raw.
            case raw of
              None \<Rightarrow> Inr None
            | Some v \<Rightarrow> rbind (d_deref_vocab D (sget S s) (d_decode D v)) (\<lambda>old. Inr (Some old))))) (\<lambda>prev.
     iobind (intern_doc D document) (\<lambda>doc.
     iobind (unfold_prev D k prev) (\<lambda>_.
     iobind (sput (BatchStore S) (primary_key D k) (d_encode D doc)) (\<lambda>_.
     let new_faces = d_index_entries D k doc (header D) in
     iobind (case prev of
        None \<Rightarrow> ioret ()
      | Some old \<Rightarrow> del_all (BatchStore S)
          (filter (\<lambda>ek. ek \<notin> fst ` set new_faces) (map fst (d_index_entries D k old (header D))))) (\<lambda>_.
     iobind (put_all (BatchStore S) new_faces) (\<lambda>_.
     iobind (put_all (BatchStore S) (d_embed_entries D doc)) (\<lambda>_.
     iobind (release_embedded D S prev doc) (\<lambda>_.
     d_apply_reduces D k doc (header D) True))))))))"

definition delete_into ::
    "('k, 'r, 's) document \<Rightarrow> 's storage \<Rightarrow> 'k \<Rightarrow> 'r \<Rightarrow> ('s \<times> batch, unit) io" where
  "delete_into D S k doc =
     iobind (sdel (BatchStore S) (primary_key D k)) (\<lambda>_.
     iobind (del_all (BatchStore S) (map fst (d_index_entries D k doc (header D)))) (\<lambda>_.
     d_apply_reduces D k doc (header D) False))"

section \<open>Reads\<close>

definition load_row :: "('k, 'r, 's) document \<Rightarrow> read_view \<Rightarrow> 'k \<Rightarrow> 'r option result" where
  "load_row D get k =
     rbind (get (primary_key D k)) (\<lambda>v. case v of
        None \<Rightarrow> Inr None
      | Some raw \<Rightarrow> rbind (d_embed_deref D get (d_decode D raw)) (\<lambda>doc.
          rbind (d_deref_vocab D get doc) (\<lambda>doc. Inr (Some doc))))"

definition coll_get :: "('k, 'r, 's) document \<Rightarrow> 's storage \<Rightarrow> 's \<Rightarrow> 'k \<Rightarrow> 'r option result" where
  "coll_get D S s k = load_row D (sget S s) k"

definition removal_reads :: "('k, 'r, 's) document \<Rightarrow> read_view \<Rightarrow> 'k \<Rightarrow> ('r option \<times> bool) result" where
  "removal_reads D get k =
     rbind (load_row D get k) (\<lambda>doc. rbind (get (fields_key D k)) (\<lambda>seg. Inr (doc, seg \<noteq> None)))"

primrec fetch_back ::
    "('k, 'r, 's) document \<Rightarrow> 's storage \<Rightarrow> 's \<Rightarrow> 'k prefix_key list \<Rightarrow> ('k prefix_key \<times> 'r option) list result" where
  "fetch_back D S s [] = Inr []"
| "fetch_back D S s (pk # pks) =
     rbind (if pk_taken pk = key_len (d_key D) then coll_get D S s (pk_decoded pk) else Inr None) (\<lambda>doc.
     rbind (fetch_back D S s pks) (\<lambda>rest. Inr ((pk, doc) # rest)))"

definition coll_scan ::
    "('k, 'r, 's) document \<Rightarrow> 's storage \<Rightarrow> ('k, 'r) kv_index \<Rightarrow> 's \<Rightarrow> bytes
      \<Rightarrow> ('k prefix_key \<times> 'r option) list result option" where
  "coll_scan D S ix s encoded =
     map_option (\<lambda>r. rbind r (fetch_back D S s)) (scan_index S (d_key D) ix s (header D) encoded)"

definition coll_scan_exact ::
    "('k, 'r, 's) document \<Rightarrow> 's storage \<Rightarrow> ('k, 'r) kv_index \<Rightarrow> 's \<Rightarrow> bytes
      \<Rightarrow> ('k prefix_key \<times> 'r option) list result option" where
  "coll_scan_exact D S ix s encoded =
     map_option (\<lambda>r. rbind r (fetch_back D S s)) (scan_index_exact S (d_key D) ix s (header D) encoded)"

section \<open>Writes\<close>

definition commit :: "'s storage \<Rightarrow> batch \<Rightarrow> (('k, 'r, 's) collection, unit) io" where
  "commit S ops c =
     (case scommit_batch S ops (c_store c) of
        (Inl e, s) \<Rightarrow> (Inl e, c\<lparr> c_store := s \<rparr>)
      | (Inr _, s) \<Rightarrow> (Inr (), c\<lparr> c_store := s, c_epoch := c_epoch c + 1 \<rparr>))"

definition emit_event :: "sub_op \<Rightarrow> 'k \<Rightarrow> 'r \<Rightarrow> (('k, 'r, 's) collection, unit) io" where
  "emit_event op k doc c = (Inr (), c\<lparr> c_events := c_events c @ [(op, c_epoch c, k, doc)] \<rparr>)"

text \<open>Building a batch writes nothing: the store of the batch view is the collection's.\<close>

definition with_batch ::
    "('s \<times> batch, 'x) io \<Rightarrow> ('x \<Rightarrow> batch \<Rightarrow> (('k, 'r, 's) collection, 'y) io) \<Rightarrow> (('k, 'r, 's) collection, 'y) io" where
  "with_batch body k c =
     (case body (c_store c, []) of
        (Inl e, (s, _)) \<Rightarrow> (Inl e, c\<lparr> c_store := s \<rparr>)
      | (Inr x, (s, ops)) \<Rightarrow> k x ops (c\<lparr> c_store := s \<rparr>))"

definition coll_put ::
    "('k, 'r, 's) document \<Rightarrow> 's storage \<Rightarrow> 'k \<Rightarrow> 'r \<Rightarrow> (('k, 'r, 's) collection, unit) io" where
  "coll_put D S k document =
     with_batch (put_writes D S k document) (\<lambda>doc ops.
       iobind (commit S ops) (\<lambda>_. emit_event EvPut k doc))"

definition upsert_with ::
    "('k, 'r, 's) document \<Rightarrow> 's storage \<Rightarrow> 'k \<Rightarrow> ('r option \<Rightarrow> 'r) \<Rightarrow> (('k, 'r, 's) collection, 'r) io" where
  "upsert_with D S k f =
     iobind (ioread (\<lambda>c. coll_get D S (c_store c) k)) (\<lambda>old.
     iobind (coll_put D S k (f old)) (\<lambda>_. ioret (f old)))"

definition purge :: "('k, 'r, 's) document \<Rightarrow> 's storage \<Rightarrow> 'k \<Rightarrow> (('k, 'r, 's) collection, bool) io" where
  "purge D S k =
     iobind (ioread (\<lambda>c. removal_reads D (sget S (c_store c)) k)) (\<lambda>(prev, has_segment).
     if prev = None \<and> \<not> has_segment then ioret False
     else with_batch
       (iobind (case prev of None \<Rightarrow> ioret () | Some doc \<Rightarrow> delete_into D S k doc) (\<lambda>_.
        if has_segment then sdel (BatchStore S) (fields_key D k) else ioret ()))
       (\<lambda>_ ops. iobind (commit S ops) (\<lambda>_.
          iobind (case prev of None \<Rightarrow> ioret () | Some doc \<Rightarrow> emit_event EvDelete k doc) (\<lambda>_.
          ioret True))))"

definition purge_into :: "('k, 'r, 's) document \<Rightarrow> 's storage \<Rightarrow> 'k \<Rightarrow> ('s \<times> batch, bool) io" where
  "purge_into D S k =
     iobind (ioread (\<lambda>t. removal_reads D (sget (BatchStore S) t) k)) (\<lambda>(prev, has_segment).
     if prev = None \<and> \<not> has_segment then ioret False
     else
       iobind (case prev of None \<Rightarrow> ioret () | Some doc \<Rightarrow> delete_into D S k doc) (\<lambda>_.
       iobind (if has_segment then sdel (BatchStore S) (fields_key D k) else ioret ()) (\<lambda>_.
       ioret True)))"

section \<open>Rebuilding the faces\<close>

record rebuild_report =
  rp_faces_swept :: nat
  rp_entries_deleted :: nat
  rp_documents :: nat
  rp_entries_written :: nat
  rp_chunks :: nat

text \<open>The batch collected so far and the report.\<close>

type_synonym 's rebuild = "('s, batch \<times> rebuild_report) io"

definition commit_chunk :: "'s storage \<Rightarrow> bool \<Rightarrow> batch \<times> rebuild_report \<Rightarrow> 's rebuild" where
  "commit_chunk S full = (\<lambda>(ops, rp).
     if full then iobind (scommit_batch S ops) (\<lambda>_. ioret ([], rp\<lparr> rp_chunks := rp_chunks rp + 1 \<rparr>))
     else ioret (ops, rp))"

fun sweep_items :: "'s storage \<Rightarrow> nat \<Rightarrow> (bytes \<times> bytes) result list \<Rightarrow> batch \<times> rebuild_report \<Rightarrow> 's rebuild" where
  "sweep_items S chunk [] acc = ioret acc"
| "sweep_items S chunk (Inl e # items) acc = iothrow e"
| "sweep_items S chunk (Inr (key, _) # items) (ops, rp) =
     (let ops = batch_del ops key; rp = rp\<lparr> rp_entries_deleted := rp_entries_deleted rp + 1 \<rparr> in
      iobind (commit_chunk S (chunk \<le> length ops) (ops, rp)) (sweep_items S chunk items))"

fun sweep_faces :: "'s storage \<Rightarrow> nat \<Rightarrow> bytes \<Rightarrow> u16 list \<Rightarrow> batch \<times> rebuild_report \<Rightarrow> 's rebuild" where
  "sweep_faces S chunk h [] acc = ioret acc"
| "sweep_faces S chunk h (sl # slots) acc =
     (\<lambda>s. let p = face_key h sl in
       iobind (sweep_items S chunk (sscan_range_iter S s p (prefix_end p)) acc) (\<lambda>(ops, rp).
         sweep_faces S chunk h slots (ops, rp\<lparr> rp_faces_swept := rp_faces_swept rp + 1 \<rparr>)) s)"

text \<open>The faces this declaration derives; \<open>write_slot\<close> does not abort on declared slots.\<close>

definition live_slots :: "('k, 'r, 's) document \<Rightarrow> u16 list" where
  "live_slots D = map id_slot_no (filter (\<lambda>d. \<not> id_deprecated d) (d_index_decls D))"

definition needs_payload :: "('k, 'r, 's) document \<Rightarrow> bool" where
  "needs_payload D = list_ex (\<lambda>d. \<not> id_deprecated d \<and> face_kind_of (id_slot_no d) = Some FIndex) (d_index_decls D)"

definition put_entries :: "(bytes \<times> bytes) list \<Rightarrow> batch \<times> rebuild_report \<Rightarrow> batch \<times> rebuild_report" where
  "put_entries es = (\<lambda>(ops, rp).
     (foldl (\<lambda>ops (ek, ev). batch_put ops ek ev) ops es,
      rp\<lparr> rp_entries_written := rp_entries_written rp + length es, rp_documents := rp_documents rp + 1 \<rparr>))"

definition row_entries :: "('k, 'r, 's) document \<Rightarrow> bytes \<Rightarrow> bytes \<Rightarrow> (bytes \<times> bytes) list" where
  "row_entries D suf value =
     (let k = kdecode (d_key D) (drop (length suf - key_len (d_key D)) suf) in
      if needs_payload D then d_index_entries D k (d_decode D value) (header D)
      else d_key_entries D k (header D))"

fun derive_rows ::
    "('k, 'r, 's) document \<Rightarrow> 's storage \<Rightarrow> nat \<Rightarrow> (bytes \<times> bytes) result list \<Rightarrow> batch \<times> rebuild_report \<Rightarrow> 's rebuild" where
  "derive_rows D S chunk [] acc = ioret acc"
| "derive_rows D S chunk (Inl e # items) acc = iothrow e"
| "derive_rows D S chunk (Inr (key, value) # items) acc =
     (let suf = drop (length (face_key (header D) PRIMARY_SLOT)) key in
      if length suf < key_len (d_key D) then iothrow (Corrupt ''a primary entry is shorter than the key'')
      else
        let acc = put_entries (row_entries D suf value) acc in
        iobind (commit_chunk S (chunk \<le> length (fst acc)) acc) (derive_rows D S chunk items))"

text \<open>A batch that is not empty is committed at the end of each phase.\<close>

definition commit_rest :: "'s storage \<Rightarrow> batch \<times> rebuild_report \<Rightarrow> 's rebuild" where
  "commit_rest S acc = commit_chunk S (fst acc \<noteq> []) acc"

definition rebuild_phases :: "('k, 'r, 's) document \<Rightarrow> 's storage \<Rightarrow> nat \<Rightarrow> 's rebuild" where
  "rebuild_phases D S chunk =
     iobind (sweep_faces S (max chunk 1) (header D) (live_slots D)
       ([], \<lparr> rp_faces_swept = 0, rp_entries_deleted = 0, rp_documents = 0, rp_entries_written = 0, rp_chunks = 0 \<rparr>)) (\<lambda>acc.
     iobind (commit_rest S acc) (\<lambda>(ops, rp).
     (\<lambda>s. let p = face_key (header D) PRIMARY_SLOT in
       iobind (derive_rows D S (max chunk 1) (sscan_range_iter S s p (prefix_end p)) ([], rp)) (commit_rest S) s)))"

definition rebuild_faces ::
    "('k, 'r, 's) document \<Rightarrow> 's storage \<Rightarrow> nat \<Rightarrow> 's \<Rightarrow> (rebuild_report result \<times> 's) option" where
  "rebuild_faces D S chunk s =
     (case rebuild_phases D S chunk s of
        (Inl e, s1) \<Rightarrow> Some (Inl e, s1)
      | (Inr (_, rp), s1) \<Rightarrow>
          (case stamp_faces S (header D) (d_layout_version D) (d_faces D) s1 of
             None \<Rightarrow> None
           | Some (Inl e, s2) \<Rightarrow> Some (Inl e, s2)
           | Some (Inr _, s2) \<Rightarrow> Some (Inr rp, s2)))"

section \<open>Batches as maps\<close>

lemma BatchStore_put_run [simp]: "sput (BatchStore S) k v (s, ops) = (Inr (), (s, ops @ [(k, Some v)]))"
  by (simp add: BatchStore_def with_defaults_def BatchStore_put_def batch_put_def)

lemma BatchStore_del_run [simp]: "sdel (BatchStore S) k (s, ops) = (Inr (), (s, ops @ [(k, None)]))"
  by (simp add: BatchStore_def with_defaults_def BatchStore_del_def batch_del_def)

definition puts :: "(bytes \<times> bytes) list \<Rightarrow> batch" where
  "puts kvs = map (\<lambda>p. (fst p, Some (snd p))) kvs"

definition dels :: "bytes list \<Rightarrow> batch" where
  "dels ks = map (\<lambda>k. (k, None)) ks"

lemma puts_simps [simp]: "puts [] = []" "puts (p # ps) = (fst p, Some (snd p)) # puts ps" "puts (ps @ qs) = puts ps @ puts qs"
  by (simp_all add: puts_def)

lemma dels_simps [simp]: "dels [] = []" "dels (k # ks) = (k, None) # dels ks"
  by (simp_all add: dels_def)

lemma put_all_run [simp]:
  "put_all (BatchStore S) ps (s, ops) = (Inr (), (s, ops @ puts ps))"
  by (induction ps arbitrary: ops) (simp_all add: iobind_def)

lemma del_all_run [simp]:
  "del_all (BatchStore S) ks (s, ops) = (Inr (), (s, ops @ dels ks))"
  by (induction ks arbitrary: ops) (simp_all add: iobind_def)

lemma BatchStore_get_run:
  "kv_point S ok \<alpha> \<Longrightarrow> ok s \<Longrightarrow> sget (BatchStore S) (s, ops) k = Inr (apply_ops ops (\<alpha> s) k)"
  by (simp add: BatchStore_def with_defaults_def kv_point.batch_get)

lemma apply_dels: "apply_ops (dels ks) m x = (if x \<in> set ks then None else m x)"
  by (induction ks arbitrary: m) (auto simp: fun_upd_def)

lemma apply_puts:
  assumes "\<And>k v w. (k, v) \<in> set kvs \<Longrightarrow> (k, w) \<in> set kvs \<Longrightarrow> v = w"
  shows "apply_ops (puts kvs) m x = Some v \<longleftrightarrow>
    (x, v) \<in> set kvs \<or> x \<notin> fst ` set kvs \<and> m x = Some v"
  using assms
proof (induction kvs rule: rev_induct)
  case (snoc p kvs)
  obtain k w where p: "p = (k, w)" by (cases p)
  have IH: "apply_ops (puts kvs) m x = Some v \<longleftrightarrow>
      (x, v) \<in> set kvs \<or> x \<notin> fst ` set kvs \<and> m x = Some v"
    by (rule snoc.IH) (use snoc.prems in \<open>metis UnI1 set_append\<close>)
  have "w = v" if "(k, v) \<in> set kvs" for v using snoc.prems [of k w v] that p by simp
  then show ?case using IH by (cases "x = k") (auto simp: p)
qed simp

lemma apply_puts_other: "x \<notin> fst ` set kvs \<Longrightarrow> apply_ops (puts kvs) m x = m x"
  by (induction kvs arbitrary: m) (auto simp: fun_upd_def)

section \<open>Documents with full-key faces\<close>

text \<open>
  \<open>face_document\<close>: what the derive guarantees of a document without generated hooks, every
  access method carrying the whole key: the payload and the key decode back, every entry lies
  in the face of a live declaration, and an entry key names its row and its value.
\<close>

locale face_document =
  fixes D :: "('k, 'r, 's) document"
  assumes payload_codec [simp]: "d_decode D (d_encode D r) = r"
    and key_codec [simp]: "kdecode (d_key D) (kencode (d_key D) k) = k"
    and key_width [simp]: "length (kencode (d_key D) k) = key_len (d_key D)"
    and no_hooks [simp]: "\<not> d_has_vocab D" "d_apply_reduces D k r h add = ioret ()" "d_embed_entries D r = []"
      "d_embed_keys D r = []" "d_embed_deref D g r = Inr r" "d_deref_vocab D g r = Inr r"
    and decl_slots: "d \<in> set (d_index_decls D) \<Longrightarrow> 4096 \<le> unat (id_slot_no d)"
    and entry_face: "(ek, ev) \<in> set (d_index_entries D k r (header D)) \<Longrightarrow>
      \<exists>sl \<in> set (live_slots D). prefix (face_key (header D) sl) ek"
    and entry_row: "(ek, ev) \<in> set (d_index_entries D k r (header D)) \<Longrightarrow>
      (ek, ev') \<in> set (d_index_entries D k' r' (header D)) \<Longrightarrow> k = k'"
    and entry_value: "(ek, ev) \<in> set (d_index_entries D k r (header D)) \<Longrightarrow>
      (ek, ev') \<in> set (d_index_entries D k r (header D)) \<Longrightarrow> ev = ev'"
    and key_faces: "\<not> needs_payload D \<Longrightarrow> d_index_entries D k r (header D) = d_key_entries D k (header D)"

text \<open>The rows of a keyspace, its face region, and faces that are those of the rows.\<close>

definition rows :: "('k, 'r, 's) document \<Rightarrow> (bytes \<rightharpoonup> bytes) \<Rightarrow> 'k \<rightharpoonup> 'r" where
  "rows D m k = map_option (d_decode D) (m (primary_key D k))"

definition in_face :: "('k, 'r, 's) document \<Rightarrow> bytes \<Rightarrow> bool" where
  "in_face D x \<longleftrightarrow> (\<exists>sl \<in> set (live_slots D). prefix (face_key (header D) sl) x)"

definition faces_current :: "('k, 'r, 's) document \<Rightarrow> (bytes \<rightharpoonup> bytes) \<Rightarrow> bool" where
  "faces_current D m \<longleftrightarrow> (\<forall>x v. in_face D x \<longrightarrow>
     (m x = Some v \<longleftrightarrow> (\<exists>k r. rows D m k = Some r \<and> (x, v) \<in> set (d_index_entries D k r (header D)))))"

context face_document
begin

abbreviation E :: "'k \<Rightarrow> 'r \<Rightarrow> (bytes \<times> bytes) list" where
  "E k r \<equiv> d_index_entries D k r (header D)"

lemma live_valid: "sl \<in> set (live_slots D) \<Longrightarrow> slot_valid sl \<and> 4096 \<le> unat sl"
  using decl_slots by (auto simp: live_slots_def slot_valid_def)

lemma fixed_valid: "slot_valid PRIMARY_SLOT" "slot_valid DYNAMIC_SLOT" "slot_valid META_SLOT"
  by (simp_all add: slot_consts slot_valid_def)

lemma key_face_disjoint: "sl \<in> set (live_slots D) \<Longrightarrow> slot_valid fx \<Longrightarrow> unat fx < 4096 \<Longrightarrow>
    \<not> prefix (face_key (header D) sl) (face_key (header D) fx @ x)"
  using live_valid [of sl] face_key_disjoint [of sl fx "header D" _ x] by (auto simp: prefix_def)

lemma primary_not_face: "\<not> in_face D (primary_key D k)" "\<not> in_face D (fields_key D k)"
    "\<not> in_face D (meta_key (header D))"
  using key_face_disjoint [OF _ fixed_valid(1)] key_face_disjoint [OF _ fixed_valid(2)]
    key_face_disjoint [OF _ fixed_valid(3), of _ "[]"]
  by (auto simp: in_face_def primary_key_def fields_key_def meta_key_def slot_consts)

lemma entry_in_face: "(x, v) \<in> set (E k r) \<Longrightarrow> in_face D x"
  using entry_face by (auto simp: in_face_def)

lemma primary_not_entry [simp]: "primary_key D k \<notin> fst ` set (E k' r)" "fields_key D k \<notin> fst ` set (E k' r)"
  using entry_in_face primary_not_face by force+

lemma primary_inject [simp]: "primary_key D k = primary_key D k' \<longleftrightarrow> k = k'"
  by (metis primary_key_def append_same_eq key_codec same_append_eq)

lemma fields_ne [simp]: "fields_key D k' \<noteq> primary_key D k" "primary_key D k \<noteq> fields_key D k'"
    "meta_key (header D) \<noteq> primary_key D k"
  using face_key_disjoint [OF fixed_valid(2,1), of "header D"] face_key_disjoint [OF fixed_valid(3,1), of "header D" "[]"]
  by (auto simp: primary_key_def fields_key_def meta_key_def slot_consts)

lemma coll_get_rows: "kv_point S ok \<alpha> \<Longrightarrow> ok s \<Longrightarrow> coll_get D S s k = Inr (rows D (\<alpha> s) k)"
  by (simp add: coll_get_def load_row_def kv_point.get_ok rows_def split: option.split)

text \<open>What the verbs add to a batch.\<close>

definition put_ops :: "'k \<Rightarrow> 'r \<Rightarrow> batch" where
  "put_ops k r = (primary_key D k, Some (d_encode D r)) # puts (E k r)"

definition leftovers :: "'k \<Rightarrow> 'r option \<Rightarrow> 'r \<Rightarrow> bytes list" where
  "leftovers k old r = (case old of None \<Rightarrow> [] | Some d \<Rightarrow>
     filter (\<lambda>ek. ek \<notin> fst ` set (E k r)) (map fst (E k d)))"

definition save_ops :: "'k \<Rightarrow> 'r option \<Rightarrow> 'r \<Rightarrow> batch" where
  "save_ops k old r = (primary_key D k, Some (d_encode D r)) # dels (leftovers k old r) @ puts (E k r)"

definition purge_ops :: "'k \<Rightarrow> 'r option \<Rightarrow> bool \<Rightarrow> batch" where
  "purge_ops k old seg = (case old of None \<Rightarrow> [] | Some d \<Rightarrow> (primary_key D k, None) # dels (map fst (E k d)))
     @ (if seg then [(fields_key D k, None)] else [])"

lemma put_writes_run:
  "kv_point S ok \<alpha> \<Longrightarrow> ok s \<Longrightarrow> put_writes D S k r (s, ops) = (Inr r, (s, ops @ put_ops k r))"
  by (auto simp: put_writes_def intern_doc_def iobind_def BatchStore_get_run unfold_prev_def release_embedded_def
      Let_def put_ops_def dels_def split: option.split)

lemma save_run:
  assumes "kv_point S ok \<alpha>" "ok s" "prev = None \<or> prev = rows D (apply_ops ops (\<alpha> s)) k"
  shows "save_with_prev_into D S k r prev (s, ops) =
    (Inr (), (s, ops @ save_ops k (rows D (apply_ops ops (\<alpha> s)) k) r))"
proof (cases prev)
  case None
  then show ?thesis
    using assms(1,2)
    by (cases "apply_ops ops (\<alpha> s) (primary_key D k)")
      (simp_all add: save_with_prev_into_def BatchStore_get_run rows_def intern_doc_def iobind_def unfold_prev_def
        release_embedded_def Let_def save_ops_def leftovers_def)
next
  case (Some old)
  then have "rows D (apply_ops ops (\<alpha> s)) k = Some old" using assms(3) by simp
  then show ?thesis
    by (simp add: Some save_with_prev_into_def intern_doc_def iobind_def unfold_prev_def
        release_embedded_def Let_def save_ops_def leftovers_def)
qed

lemma delete_run: "delete_into D S k r (s, ops) = (Inr (), (s, ops @ (primary_key D k, None) # dels (map fst (E k r))))"
  by (simp add: delete_into_def iobind_def)

lemma removal_run:
  "kv_point S ok \<alpha> \<Longrightarrow> ok s \<Longrightarrow> removal_reads D (sget (BatchStore S) (s, ops)) k =
    Inr (rows D (apply_ops ops (\<alpha> s)) k, apply_ops ops (\<alpha> s) (fields_key D k) \<noteq> None)"
  by (simp add: removal_reads_def load_row_def BatchStore_get_run rows_def split: option.split)

lemma removal_run_store:
  "kv_point S ok \<alpha> \<Longrightarrow> ok s \<Longrightarrow> removal_reads D (sget S s) k = Inr (rows D (\<alpha> s) k, \<alpha> s (fields_key D k) \<noteq> None)"
  by (simp add: removal_reads_def load_row_def kv_point.get_ok rows_def split: option.split)

text \<open>What they mean for rows and faces.\<close>

lemma entry_puts: "apply_ops (puts (E k r)) m x = Some v \<longleftrightarrow>
    (x, v) \<in> set (E k r) \<or> x \<notin> fst ` set (E k r) \<and> m x = Some v"
  by (rule apply_puts) (rule entry_value)

lemma leftovers_face: "x \<in> set (leftovers k old r) \<Longrightarrow> in_face D x"
  using entry_in_face by (auto simp: leftovers_def split: option.splits)

lemma rows_put: "rows D (apply_ops (put_ops k r) m) = (rows D m)(k \<mapsto> r)"
  by (simp add: rows_def fun_eq_iff put_ops_def apply_puts_other fun_upd_def)

lemma rows_save: "rows D (apply_ops (save_ops k old r) m) = (rows D m)(k \<mapsto> r)"
proof -
  have "primary_key D k' \<notin> set (leftovers k old r)" for k' using leftovers_face primary_not_face by blast
  then show ?thesis by (simp add: rows_def fun_eq_iff save_ops_def apply_puts_other apply_dels fun_upd_def)
qed

lemma rows_purge: "rows D m k = None \<longleftrightarrow> old = None \<Longrightarrow> rows D (apply_ops (purge_ops k old seg) m) = (rows D m)(k := None)"
proof -
  assume "rows D m k = None \<longleftrightarrow> old = None"
  moreover have "primary_key D k' \<notin> set (map fst (E k d))" for k' d by simp
  ultimately show ?thesis
    by (auto simp: rows_def fun_eq_iff purge_ops_def apply_dels fun_upd_def simp del: set_map split: option.split)
qed

lemma save_elsewhere: "x \<noteq> primary_key D k \<Longrightarrow> \<not> in_face D x \<Longrightarrow> apply_ops (save_ops k old r) m x = m x"
proof -
  assume x: "x \<noteq> primary_key D k" "\<not> in_face D x"
  then have "x \<notin> set (leftovers k old r)" "x \<notin> fst ` set (E k r)" using leftovers_face entry_in_face by auto
  then show ?thesis using x(1) by (simp add: save_ops_def apply_puts_other apply_dels)
qed

lemma faces_save:
  assumes "faces_current D m"
  shows "faces_current D (apply_ops (save_ops k (rows D m k) r) m)"
proof -
  have "apply_ops (save_ops k (rows D m k) r) m x = Some v \<longleftrightarrow>
      (\<exists>k' r'. rows D (apply_ops (save_ops k (rows D m k) r) m) k' = Some r' \<and> (x, v) \<in> set (E k' r'))"
    if x: "in_face D x" for x v
  proof -
    have ne: "x \<noteq> primary_key D k" using x primary_not_face by auto
    have old: "x \<in> set (leftovers k (rows D m k) r) \<longleftrightarrow>
        x \<notin> fst ` set (E k r) \<and> (\<exists>d. rows D m k = Some d \<and> x \<in> fst ` set (E k d))"
      by (cases "rows D m k") (auto simp: leftovers_def)
    have cur: "m x = Some v \<longleftrightarrow> (\<exists>k' r'. rows D m k' = Some r' \<and> (x, v) \<in> set (E k' r'))"
      using assms x by (simp add: faces_current_def)
    have "apply_ops (save_ops k (rows D m k) r) m x = Some v \<longleftrightarrow> (x, v) \<in> set (E k r) \<or>
        x \<notin> fst ` set (E k r) \<and> \<not> (\<exists>d. rows D m k = Some d \<and> x \<in> fst ` set (E k d)) \<and> m x = Some v"
      using ne old by (auto simp: save_ops_def entry_puts apply_dels fun_upd_def)
    also have "\<dots> \<longleftrightarrow> (\<exists>k' r'. ((rows D m)(k \<mapsto> r)) k' = Some r' \<and> (x, v) \<in> set (E k' r'))"
      unfolding cur using entry_row by (force split: if_splits)
    finally show ?thesis by (simp only: rows_save)
  qed
  then show ?thesis by (simp add: faces_current_def)
qed

lemma faces_put:
  assumes "faces_current D m"
  shows "faces_current D (apply_ops (put_ops k r) m) \<longleftrightarrow>
    (\<forall>d. rows D m k = Some d \<longrightarrow> fst ` set (E k d) \<subseteq> fst ` set (E k r))"
proof -
  let ?m = "apply_ops (put_ops k r) m"
  have new: "?m x = Some v \<longleftrightarrow> (x, v) \<in> set (E k r) \<or> x \<notin> fst ` set (E k r) \<and>
      (\<exists>k' r'. rows D m k' = Some r' \<and> (x, v) \<in> set (E k' r'))" if x: "in_face D x" for x v
  proof -
    have "x \<noteq> primary_key D k" using x primary_not_face by auto
    then show ?thesis using assms x by (simp add: put_ops_def entry_puts faces_current_def)
  qed
  have want: "(\<exists>k' r'. rows D ?m k' = Some r' \<and> (x, v) \<in> set (E k' r')) \<longleftrightarrow>
      (x, v) \<in> set (E k r) \<or> (\<exists>k' r'. k' \<noteq> k \<and> rows D m k' = Some r' \<and> (x, v) \<in> set (E k' r'))" for x v
    by (auto simp: rows_put split: if_splits)
  have "faces_current D ?m \<longleftrightarrow> (\<forall>x v. in_face D x \<longrightarrow> (x \<notin> fst ` set (E k r) \<longrightarrow>
      (\<exists>r'. rows D m k = Some r' \<and> (x, v) \<in> set (E k r')) \<longrightarrow> False))"
    unfolding faces_current_def
  proof (intro all_cong1 imp_cong refl)
    fix x v assume x: "in_face D x"
    show "(?m x = Some v \<longleftrightarrow> (\<exists>k' r'. rows D ?m k' = Some r' \<and> (x, v) \<in> set (E k' r'))) \<longleftrightarrow>
      (x \<notin> fst ` set (E k r) \<longrightarrow> (\<exists>r'. rows D m k = Some r' \<and> (x, v) \<in> set (E k r')) \<longrightarrow> False)"
      unfolding new [OF x] want using entry_row by (force split: if_splits)
  qed
  then show ?thesis using entry_in_face by (auto simp: image_iff subset_iff) force+
qed

lemma faces_purge:
  assumes "faces_current D m"
  shows "faces_current D (apply_ops (purge_ops k (rows D m k) seg) m)"
proof -
  let ?m = "apply_ops (purge_ops k (rows D m k) seg) m"
  have "?m x = Some v \<longleftrightarrow> (\<exists>k' r'. rows D ?m k' = Some r' \<and> (x, v) \<in> set (E k' r'))" if x: "in_face D x" for x v
  proof -
    have ne: "x \<noteq> primary_key D k" "x \<noteq> fields_key D k" using x primary_not_face by auto
    have cur: "m x = Some v \<longleftrightarrow> (\<exists>k' r'. rows D m k' = Some r' \<and> (x, v) \<in> set (E k' r'))"
      using assms x by (simp add: faces_current_def)
    have "?m x = Some v \<longleftrightarrow> \<not> (\<exists>d. rows D m k = Some d \<and> x \<in> fst ` set (E k d)) \<and> m x = Some v"
      using ne by (cases "rows D m k") (simp_all add: purge_ops_def apply_dels)
    also have "\<dots> \<longleftrightarrow> (\<exists>k' r'. ((rows D m)(k := None)) k' = Some r' \<and> (x, v) \<in> set (E k' r'))"
      unfolding cur using entry_row by (force split: if_splits)
    finally show ?thesis by (simp only: rows_purge [OF refl])
  qed
  then show ?thesis by (simp add: faces_current_def)
qed

end

section \<open>Chunked commits\<close>

context kv_scan
begin

lemma commit_chunk_ok:
  assumes "ok s"
  shows "\<exists>ops' rp' s'. commit_chunk S full (ops, rp) s = (Inr (ops', rp'), s') \<and> ok s' \<and>
    apply_ops ops' (\<alpha> s') = apply_ops ops (\<alpha> s) \<and> (\<alpha> s' = \<alpha> s \<or> \<alpha> s' = apply_ops ops (\<alpha> s)) \<and>
    (full \<longrightarrow> ops' = [])"
proof (cases full)
  case True
  obtain s' where "scommit_batch S ops s = (Inr (), s')" "ok s'" "\<alpha> s' = apply_ops ops (\<alpha> s)"
    using commit_ok [OF assms] by blast
  then show ?thesis using True by (simp add: commit_chunk_def iobind_def)
qed (simp add: commit_chunk_def assms)

lemma sweep_items_ok:
  assumes "ok s" "apply_ops ops (\<alpha> s) \<subseteq>\<^sub>m \<alpha> s"
  shows "\<exists>ops' rp' s'. sweep_items S chunk (map (\<lambda>k. Inr (k, f k)) ks) (ops, rp) s = (Inr (ops', rp'), s') \<and> ok s' \<and>
    apply_ops ops' (\<alpha> s') = apply_ops (dels ks) (apply_ops ops (\<alpha> s)) \<and> apply_ops ops' (\<alpha> s') \<subseteq>\<^sub>m \<alpha> s' \<and>
    \<alpha> s' \<subseteq>\<^sub>m \<alpha> s"
  using assms
proof (induction ks arbitrary: s ops rp)
  case (Cons k ks)
  let ?ops = "batch_del ops k" and ?rp = "rp\<lparr> rp_entries_deleted := rp_entries_deleted rp + 1 \<rparr>"
  obtain ops1 rp1 s1 where c: "commit_chunk S (chunk \<le> length ?ops) (?ops, ?rp) s = (Inr (ops1, rp1), s1)" "ok s1"
    "apply_ops ops1 (\<alpha> s1) = apply_ops ?ops (\<alpha> s)" "\<alpha> s1 = \<alpha> s \<or> \<alpha> s1 = apply_ops ?ops (\<alpha> s)"
    using commit_chunk_ok [OF Cons.prems(1)] by metis
  have le: "apply_ops ?ops (\<alpha> s) \<subseteq>\<^sub>m \<alpha> s" using Cons.prems(2) by (auto simp: map_le_def)
  then have s1: "\<alpha> s1 \<subseteq>\<^sub>m \<alpha> s" "apply_ops ops1 (\<alpha> s1) \<subseteq>\<^sub>m \<alpha> s1" using c(3,4) by auto
  obtain ops2 rp2 s2 where "sweep_items S chunk (map (\<lambda>k. Inr (k, f k)) ks) (ops1, rp1) s1 = (Inr (ops2, rp2), s2)" "ok s2"
    "apply_ops ops2 (\<alpha> s2) = apply_ops (dels ks) (apply_ops ops1 (\<alpha> s1))" "apply_ops ops2 (\<alpha> s2) \<subseteq>\<^sub>m \<alpha> s2" "\<alpha> s2 \<subseteq>\<^sub>m \<alpha> s1"
    using Cons.IH [OF c(2) s1(2)] by blast
  then show ?case using c(1,3) s1(1) by (auto simp: iobind_def Let_def intro: map_le_trans)
qed simp

lemma prefix_safe_mono: "m \<subseteq>\<^sub>m m' \<Longrightarrow> prefix_safe p m' \<Longrightarrow> prefix_safe p m"
  by (auto simp: prefix_safe_def map_le_def dom_def)

lemma sweep_faces_ok:
  assumes "ok s" "apply_ops ops (\<alpha> s) \<subseteq>\<^sub>m \<alpha> s" "\<forall>sl \<in> set slots. prefix_safe (face_key h sl) (\<alpha> s)"
  shows "\<exists>ops' rp' s'. sweep_faces S chunk h slots (ops, rp) s = (Inr (ops', rp'), s') \<and> ok s' \<and>
    (\<forall>x. apply_ops ops' (\<alpha> s') x = (if \<exists>sl \<in> set slots. prefix (face_key h sl) x then None else apply_ops ops (\<alpha> s) x))"
  using assms
proof (induction slots arbitrary: s ops rp)
  case (Cons sl slots)
  let ?p = "face_key h sl"
  have items: "sscan_range_iter S s ?p (prefix_end ?p) = map (\<lambda>k. Inr (k, the (\<alpha> s k))) (keys_under (\<alpha> s) ?p)"
    using Cons.prems(1,3) by (simp add: scan_iter_ok prefix_safe_keys)
  obtain ops1 rp1 s1 where 1: "sweep_items S chunk (map (\<lambda>k. Inr (k, the (\<alpha> s k))) (keys_under (\<alpha> s) ?p)) (ops, rp) s
      = (Inr (ops1, rp1), s1)" "ok s1"
    "apply_ops ops1 (\<alpha> s1) = apply_ops (dels (keys_under (\<alpha> s) ?p)) (apply_ops ops (\<alpha> s))"
    "apply_ops ops1 (\<alpha> s1) \<subseteq>\<^sub>m \<alpha> s1" "\<alpha> s1 \<subseteq>\<^sub>m \<alpha> s"
    using sweep_items_ok [OF Cons.prems(1,2), where f = "\<lambda>k. the (\<alpha> s k)" and ks = "keys_under (\<alpha> s) ?p"] by blast
  have "set (keys_under (\<alpha> s) ?p) = {k \<in> dom (\<alpha> s). prefix ?p k}"
    using finite_dom [OF Cons.prems(1)] by (simp add: keys_under_def)
  then have m1: "apply_ops ops1 (\<alpha> s1) x = (if prefix ?p x then None else apply_ops ops (\<alpha> s) x)" for x
    using Cons.prems(2) unfolding 1(3) apply_dels by (cases "apply_ops ops (\<alpha> s) x") (auto simp: map_le_def dom_def)
  have "\<forall>sl \<in> set slots. prefix_safe (face_key h sl) (\<alpha> s1)"
    using Cons.prems(3) prefix_safe_mono [OF 1(5)] by simp
  from Cons.IH [OF 1(2,4) this]
  obtain ops2 rp2 s2 where "sweep_faces S chunk h slots (ops1, rp1\<lparr> rp_faces_swept := rp_faces_swept rp1 + 1 \<rparr>) s1 = (Inr (ops2, rp2), s2)"
    "ok s2" "\<forall>x. apply_ops ops2 (\<alpha> s2) x = (if \<exists>sl \<in> set slots. prefix (face_key h sl) x then None else apply_ops ops1 (\<alpha> s1) x)"
    by blast
  then show ?case using 1(1) m1 by (simp add: iobind_def items Let_def)
qed simp

lemma commit_rest_ok:
  assumes "ok s"
  shows "\<exists>rp' s'. commit_rest S (ops, rp) s = (Inr ([], rp'), s') \<and> ok s' \<and> \<alpha> s' = apply_ops ops (\<alpha> s)"
proof (cases "ops = []")
  case False
  obtain ops' rp' s' where "commit_chunk S (ops \<noteq> []) (ops, rp) s = (Inr (ops', rp'), s')" "ok s'"
    "apply_ops ops' (\<alpha> s') = apply_ops ops (\<alpha> s)" "ops' = []"
    using commit_chunk_ok [OF assms, of "ops \<noteq> []" ops rp] False by blast
  then show ?thesis by (simp add: commit_rest_def)
qed (simp add: commit_rest_def commit_chunk_def assms)

lemma put_entries_ops: "put_entries es (ops, rp) = (ops @ puts es, snd (put_entries es (ops, rp)))"
proof -
  have "foldl (\<lambda>ops (ek, ev). batch_put ops ek ev) ops es = ops @ puts es"
    by (induction es arbitrary: ops) (auto simp: batch_put_def)
  then show ?thesis by (simp add: put_entries_def)
qed

lemma derive_rows_ok:
  assumes "ok s" "\<forall>k \<in> set ks. key_len (d_key D) \<le> length (drop (length (face_key (header D) PRIMARY_SLOT)) k)"
  shows "\<exists>ops' rp' s'. derive_rows D S chunk (map (\<lambda>k. Inr (k, f k)) ks) (ops, rp) s = (Inr (ops', rp'), s') \<and> ok s' \<and>
    apply_ops ops' (\<alpha> s') = apply_ops (puts (concat (map (\<lambda>k.
      row_entries D (drop (length (face_key (header D) PRIMARY_SLOT)) k) (f k)) ks))) (apply_ops ops (\<alpha> s))"
  using assms
proof (induction ks arbitrary: s ops rp)
  case (Cons k ks)
  let ?suf = "drop (length (face_key (header D) PRIMARY_SLOT)) k"
  let ?acc = "put_entries (row_entries D ?suf (f k)) (ops, rp)"
  obtain ops0 rp0 where acc: "?acc = (ops0, rp0)" and ops0: "ops0 = ops @ puts (row_entries D ?suf (f k))"
    using put_entries_ops [of "row_entries D ?suf (f k)" ops rp] by (cases ?acc) simp
  obtain ops1 rp1 s1 where 1: "commit_chunk S (chunk \<le> length ops0) (ops0, rp0) s = (Inr (ops1, rp1), s1)" "ok s1"
    "apply_ops ops1 (\<alpha> s1) = apply_ops ops0 (\<alpha> s)"
    using commit_chunk_ok [OF Cons.prems(1)] by metis
  have rest: "\<forall>k \<in> set ks. key_len (d_key D) \<le> length (drop (length (face_key (header D) PRIMARY_SLOT)) k)"
    using Cons.prems(2) by simp
  obtain ops2 rp2 s2 where "derive_rows D S chunk (map (\<lambda>k. Inr (k, f k)) ks) (ops1, rp1) s1 = (Inr (ops2, rp2), s2)" "ok s2"
    "apply_ops ops2 (\<alpha> s2) = apply_ops (puts (concat (map (\<lambda>k.
      row_entries D (drop (length (face_key (header D) PRIMARY_SLOT)) k) (f k)) ks))) (apply_ops ops1 (\<alpha> s1))"
    using Cons.IH [OF 1(2) rest] by blast
  then show ?case
    using Cons.prems(2) acc 1 ops0 by (simp add: iobind_def Let_def linorder_not_less del: length_drop)
qed simp

end

end
