(* ===== verification/Okm_Table.thy ===== *)
theory Okm_Table
  imports Okm_Collection
begin

text \<open>
  Tables: what the collection promises of a document whose entries are those of its declared
  indexes (\<open>Document::index_entries\<close> as the derive of \<open>okm-derive/src/document_encode.rs\<close>
  expands it), over any engine that satisfies the contract of \<open>Okm_Storage\<close>. The rows of a
  keyspace are the abstract view; \<open>faces_current\<close> ties the index entries to them.
\<close>

section \<open>Documents from index declarations\<close>

definition index_entries_of ::
    "'k key_encode \<Rightarrow> ('k, 'r) kv_index list \<Rightarrow> 'k \<Rightarrow> 'r \<Rightarrow> bytes \<Rightarrow> (bytes \<times> bytes) list" where
  "index_entries_of K ixs k r ns =
     concat (map (\<lambda>ix. case entry_pairs K ix ns k r of Some ps \<Rightarrow> ps | None \<Rightarrow> []) ixs)"

definition plain_document ::
    "'k key_encode \<Rightarrow> bytes \<Rightarrow> byte \<Rightarrow> (index_decl \<times> ('k, 'r) kv_index) list \<Rightarrow> ('r \<Rightarrow> bytes) \<Rightarrow> (bytes \<Rightarrow> 'r)
      \<Rightarrow> ('k, 'r, 's) document" where
  "plain_document K ns version ixs enc dec =
     \<lparr> d_key = K, d_partition = [], d_ns = ns, d_layout_version = version, d_index_decls = map fst ixs,
       d_has_vocab = False, d_encode = enc, d_decode = dec, d_key_entries = (\<lambda>k h. []),
       d_index_entries = index_entries_of K (map snd (filter (\<lambda>p. \<not> id_deprecated (fst p)) ixs)),
       d_embed_entries = (\<lambda>r. []), d_embed_keys = (\<lambda>r. []), d_embed_deref = (\<lambda>g r. Inr r),
       d_deref_vocab = (\<lambda>g r. Inr r), d_intern = (\<lambda>h. ioret), d_apply_reduces = (\<lambda>k r h add. ioret ()) \<rparr>"

text \<open>
  A declaration list as the derive numbers it: the slots are distinct ones of the index
  family, and every entry carries the whole key. The codecs decode back.
\<close>

definition table_ok ::
    "'k key_encode \<Rightarrow> (index_decl \<times> ('k, 'r) kv_index) list \<Rightarrow> ('r \<Rightarrow> bytes) \<Rightarrow> (bytes \<Rightarrow> 'r) \<Rightarrow> bool" where
  "table_ok K ixs enc dec \<longleftrightarrow>
     (\<forall>r. dec (enc r) = r) \<and> (\<forall>k. kdecode K (kencode K k) = k \<and> length (kencode K k) = key_len K) \<and>
     distinct (map (ix_slot \<circ> snd) ixs) \<and>
     (\<forall>(d, ix) \<in> set ixs. id_slot_no d = ix_slot ix \<and> ix_key_prefix ix = [] \<and>
        4096 \<le> unat (ix_slot ix) \<and> face_kind_of (ix_slot ix) = Some FIndex)"

lemma entry_pairs_full:
  assumes "4096 \<le> unat (ix_slot ix)" "ix_key_prefix ix = []"
  shows "entry_pairs K ix ns k r = Some (if ix_admits ix r
    then [(face_key ns (ix_slot ix) @ fields_bytes ix k r @ kencode K k, entry_value ix k r)] else [])"
  using assms
  by (simp add: entry_pairs_def entry_key_def entry_key_with_def write_slot_image slot_valid_def face_key_def
      write_key_prefix_def fields_bytes_def)

lemma index_entries_mem:
  assumes "\<forall>ix \<in> set ixs. 4096 \<le> unat (ix_slot ix) \<and> ix_key_prefix ix = []"
  shows "(x, v) \<in> set (index_entries_of K ixs k r ns) \<longleftrightarrow>
    (\<exists>ix \<in> set ixs. ix_admits ix r \<and> x = face_key ns (ix_slot ix) @ fields_bytes ix k r @ kencode K k \<and>
       v = entry_value ix k r)"
proof -
  have "set (index_entries_of K ixs k r ns) = (\<Union>ix \<in> set ixs. set (if ix_admits ix r
    then [(face_key ns (ix_slot ix) @ fields_bytes ix k r @ kencode K k, entry_value ix k r)] else []))"
    using assms by (auto simp: index_entries_of_def entry_pairs_full split: if_splits)
  then show ?thesis by (auto split: if_splits)
qed

lemma plain_document_laws:
  assumes "table_ok K ixs enc dec"
  shows "face_document (plain_document K ns version ixs enc dec)"
proof -
  let ?live = "filter (\<lambda>p. \<not> id_deprecated (fst p)) ixs"
  let ?D = "plain_document K ns version ixs enc dec :: ('a, 'b, 'c) document"
  have ix: "4096 \<le> unat (ix_slot ix) \<and> ix_key_prefix ix = []" if "ix \<in> snd ` set ?live" for ix
    using assms that by (fastforce simp: table_ok_def)
  have slots: "live_slots ?D = map (ix_slot \<circ> snd) ?live"
    using assms by (auto simp: live_slots_def plain_document_def table_ok_def filter_map comp_def)
  have mem: "(x, v) \<in> set (d_index_entries ?D k r (header ?D)) \<longleftrightarrow> (\<exists>ix \<in> snd ` set ?live. ix_admits ix r \<and>
      x = face_key ns (ix_slot ix) @ fields_bytes ix k r @ kencode K k \<and> v = entry_value ix k r)" for x v k r
    using index_entries_mem [of "map snd ?live" x v K k r ns] ix by (simp add: plain_document_def header_def)
  have codec: "kdecode K (kencode K k) = k" "length (kencode K k) = key_len K" for k
    using assms by (simp_all add: table_ok_def)
  have valid: "slot_valid (ix_slot ix)" if "ix \<in> snd ` set ?live" for ix using ix [OF that] by (simp add: slot_valid_def)
  have one: "ix = ix'" if "ix \<in> snd ` set ?live" "ix' \<in> snd ` set ?live" "ix_slot ix = ix_slot ix'" for ix ix'
  proof -
    have "inj_on (ix_slot \<circ> snd) (set ixs)" using assms by (simp add: table_ok_def distinct_map)
    then show ?thesis using that by (fastforce simp: inj_on_def)
  qed
  show ?thesis
  proof
    fix k r ek ev
    assume e: "(ek, ev) \<in> set (d_index_entries ?D k r (header ?D))"
    show "\<exists>sl \<in> set (live_slots ?D). prefix (face_key (header ?D) sl) ek"
      using e unfolding mem slots by (fastforce simp: plain_document_def header_def)
    fix k' r' ev'
    assume e': "(ek, ev') \<in> set (d_index_entries ?D k' r' (header ?D))"
    obtain ix ix' where i: "ix \<in> snd ` set ?live" "ix' \<in> snd ` set ?live"
        "ek = face_key ns (ix_slot ix) @ fields_bytes ix k r @ kencode K k"
        "ek = face_key ns (ix_slot ix') @ fields_bytes ix' k' r' @ kencode K k'"
      using e e' unfolding mem by blast
    have "(face_key ns (ix_slot ix) @ fields_bytes ix k r) @ kencode K k =
        (face_key ns (ix_slot ix') @ fields_bytes ix' k' r') @ kencode K k'" using i(3,4) by simp
    moreover have "length (kencode K k) = length (kencode K k')" by (simp only: codec(2))
    ultimately have "kencode K k = kencode K k'" using append_eq_append_conv by blast
    then show "k = k'" using codec(1) by metis
  next
    fix k r ek ev ev'
    assume "(ek, ev) \<in> set (d_index_entries ?D k r (header ?D))" "(ek, ev') \<in> set (d_index_entries ?D k r (header ?D))"
    then obtain ix ix' where i: "ix \<in> snd ` set ?live" "ix' \<in> snd ` set ?live"
        "ek = face_key ns (ix_slot ix) @ fields_bytes ix k r @ kencode K k" "ev = entry_value ix k r"
        "ek = face_key ns (ix_slot ix') @ fields_bytes ix' k r @ kencode K k" "ev' = entry_value ix' k r"
      unfolding mem by blast
    then have "face_key ns (ix_slot ix) @ (fields_bytes ix k r @ kencode K k) =
        face_key ns (ix_slot ix') @ (fields_bytes ix' k r @ kencode K k)" by metis
    then have "ix_slot ix = ix_slot ix'"
      using face_key_disjoint [OF valid [OF i(1)] valid [OF i(2)]] by blast
    then show "ev = ev'" using one i by metis
  next
    fix k r
    assume "\<not> needs_payload ?D"
    then have "?live = []" using assms
      by (force simp: needs_payload_def plain_document_def table_ok_def list_ex_iff filter_empty_conv)
    then show "d_index_entries ?D k r (header ?D) = d_key_entries ?D k (header ?D)"
      by (simp add: plain_document_def index_entries_of_def)
  qed (use assms codec in \<open>auto simp: plain_document_def table_ok_def\<close>)
qed

text \<open>Tables as a contract that gives the one of \<open>Okm_Collection\<close>.\<close>

locale indexed_table =
  fixes K :: "'k key_encode" and ns :: bytes and version :: byte
    and ixs :: "(index_decl \<times> ('k, 'r) kv_index) list" and enc :: "'r \<Rightarrow> bytes" and dec :: "bytes \<Rightarrow> 'r"
  assumes laws: "table_ok K ixs enc dec"

sublocale indexed_table \<subseteq> face_document "plain_document K ns version ixs enc dec"
  by (rule plain_document_laws [OF laws])

definition demo_decl :: index_decl where
  "demo_decl = \<lparr> id_name = [110], id_slot_no = 0x3001, id_fields = [[110]], id_includes = [], id_func = [], id_deprecated = False \<rparr>"

definition demo_table :: "(byte, bytes, mem) document" where
  "demo_table = plain_document demo_key [7] 1 [(demo_decl, demo_index)] id id"

lemma demo_table_ok: "table_ok demo_key [(demo_decl, demo_index)] id id"
proof -
  have "face_kind_of 0x3001 = Some FIndex"
    by (simp add: face_kind_of_def DECLARED_SLOT_BASE_def slot_def INDEX_def)
  then show ?thesis by (simp add: table_ok_def demo_key_def demo_decl_def demo_index_def)
qed

interpretation demo: indexed_table demo_key "[7]" 1 "[(demo_decl, demo_index)]" id id
  by unfold_locales (rule demo_table_ok)

lemma demo_laws: "face_document demo_table"
  unfolding demo_table_def by (rule plain_document_laws [OF demo_table_ok])

section \<open>Scans of a table with current faces\<close>

lemma scan_taken:
  assumes "scan_index_filtered S K ix s ns e exact = Some (Inr pks)" "pk \<in> set pks"
  shows "pk_taken pk = key_prefix_width K ix"
proof -
  obtain p where p: "entry_prefix ix ns e = Some p" using assms(1) by (auto simp: scan_index_filtered_def split: option.splits)
  obtain sufs where sufs: "sscan_suffix S s p = Inr sufs"
    using assms(1) by (cases "sscan_suffix S s p") (simp_all add: scan_index_filtered_def p Let_def)
  define f where "f = (\<lambda>suffix :: bytes. if (if exact then length suffix = key_prefix_width K ix else key_prefix_width K ix \<le> length suffix)
     then Some \<lparr> pk_decoded = decode_tail K (key_prefix_width K ix) (drop (length suffix - key_prefix_width K ix) suffix),
                 pk_taken = key_prefix_width K ix \<rparr> else None)"
  have "pks = List.map_filter f sufs"
    using assms(1) by (simp add: scan_index_filtered_def p sufs Let_def f_def)
  then obtain x where "f x = Some pk" using assms(2) by (auto simp: set_map_filter)
  then show ?thesis by (auto simp: f_def split: if_splits)
qed

lemma image_pairs:
  assumes "\<And>k r. f (g k r) = k"
  shows "f ` {g k r | k r. Q k r} = {k. \<exists>r. Q k r}"
proof (intro set_eqI iffI)
  fix k assume "k \<in> {k. \<exists>r. Q k r}"
  then obtain r where "Q k r" by blast
  then show "k \<in> f ` {g k r | k r. Q k r}" using assms by (intro image_eqI [of _ _ "g k r"]) auto
qed (auto simp: assms)

context face_document
begin

lemma fetch_back_ok:
  assumes "kv_point S ok \<alpha>" "ok s" "\<forall>pk \<in> set pks. pk_taken pk = key_len (d_key D)"
  shows "fetch_back D S s pks = Inr (map (\<lambda>pk. (pk, rows D (\<alpha> s) (pk_decoded pk))) pks)"
  using assms(3) by (induction pks) (simp_all add: coll_get_rows [OF assms(1,2)])

end

lemma index_region:
  fixes D :: "('k, 'r, 's) document"
  assumes tab: "table_ok K ixs enc dec" and D: "D = plain_document K ns version ixs enc dec"
    and ix: "(d, ix) \<in> set ixs" "\<not> id_deprecated d" and cur: "faces_current D m"
    and x: "prefix (face_key ns (ix_slot ix)) x"
  shows "m x = Some v \<longleftrightarrow> (\<exists>k r. rows D m k = Some r \<and> ix_admits ix r \<and>
    x = face_key ns (ix_slot ix) @ fields_bytes ix k r @ kencode K k \<and> v = entry_value ix k r)"
proof -
  let ?hdr = "face_key ns (ix_slot ix)"
  let ?live = "filter (\<lambda>p. \<not> id_deprecated (fst p)) ixs"
  have valid: "slot_valid (ix_slot i)" if "i \<in> snd ` set ?live" for i
    using tab that by (fastforce simp: table_ok_def slot_valid_def)
  have self: "ix \<in> snd ` set ?live" using ix by (intro image_eqI [of _ _ "(d, ix)"]) simp_all
  have one: "i = ix" if "i \<in> snd ` set ?live" "ix_slot i = ix_slot ix" for i
  proof -
    have "inj_on (ix_slot \<circ> snd) (set ixs)" using tab by (simp add: table_ok_def distinct_map)
    then show ?thesis using that ix(1) by (fastforce simp: inj_on_def)
  qed
  have mem: "(x, v) \<in> set (d_index_entries D k r (header D)) \<longleftrightarrow> (\<exists>i \<in> snd ` set ?live. ix_admits i r \<and>
      x = face_key ns (ix_slot i) @ fields_bytes i k r @ kencode K k \<and> v = entry_value i k r)" for x v k r
  proof -
    have "\<forall>i \<in> set (map snd ?live). 4096 \<le> unat (ix_slot i) \<and> ix_key_prefix i = []"
      using tab by (fastforce simp: table_ok_def)
    from index_entries_mem [OF this, of x v K k r ns] show ?thesis by (simp add: D plain_document_def header_def)
  qed
  have only: "i = ix" if i: "i \<in> snd ` set ?live" "x = face_key ns (ix_slot i) @ y" for i y
  proof -
    obtain z where z: "x = ?hdr @ z" using x by (auto simp: prefix_def)
    have "ix_slot i = ix_slot ix"
      using face_key_disjoint [OF valid [OF i(1)] valid [OF self], of ns y z] i(2) z by simp
    then show ?thesis using one i(1) by simp
  qed
  have "ix_slot ix \<in> set (live_slots D)"
    using tab ix by (force simp: live_slots_def D plain_document_def table_ok_def)
  then have "in_face D x" using x by (auto simp: in_face_def D plain_document_def header_def)
  then have "m x = Some v \<longleftrightarrow> (\<exists>k r. rows D m k = Some r \<and> (x, v) \<in> set (d_index_entries D k r (header D)))"
    using cur by (simp add: faces_current_def)
  moreover have "(x, v) \<in> set (d_index_entries D k r (header D)) \<longleftrightarrow>
      ix_admits ix r \<and> x = ?hdr @ fields_bytes ix k r @ kencode K k \<and> v = entry_value ix k r" for k r
  proof
    assume "(x, v) \<in> set (d_index_entries D k r (header D))"
    then obtain i where i: "i \<in> snd ` set ?live" "ix_admits i r"
        "x = face_key ns (ix_slot i) @ fields_bytes i k r @ kencode K k" "v = entry_value i k r"
      unfolding mem by blast
    then show "ix_admits ix r \<and> x = ?hdr @ fields_bytes ix k r @ kencode K k \<and> v = entry_value ix k r"
      using only [OF i(1,3)] by simp
  next
    assume "ix_admits ix r \<and> x = ?hdr @ fields_bytes ix k r @ kencode K k \<and> v = entry_value ix k r"
    then show "(x, v) \<in> set (d_index_entries D k r (header D))"
      unfolding mem using self by (intro bexI [of _ ix]) simp_all
  qed
  ultimately show ?thesis by blast
qed

lemma scan_filtered_rows:
  fixes D :: "('k, 'r, 's) document"
  assumes tab: "table_ok K ixs enc dec" and D: "D = plain_document K ns version ixs enc dec"
    and ix: "(d, ix) \<in> set ixs" "\<not> id_deprecated d"
    and kv: "kv_scan S ok \<alpha>" and s: "ok s" and cur: "faces_current D (\<alpha> s)"
    and safe: "prefix_safe (face_key ns (ix_slot ix) @ e) (\<alpha> s)"
  shows "\<exists>pks. scan_index_filtered S K ix s ns e exact = Some (Inr pks) \<and>
    (\<forall>pk \<in> set pks. pk_taken pk = key_len K) \<and>
    set (map pk_decoded pks) = {k. \<exists>r. rows D (\<alpha> s) k = Some r \<and> ix_admits ix r \<and>
      (if exact then fields_bytes ix k r = e else prefix e (fields_bytes ix k r))}"
proof -
  let ?hdr = "face_key ns (ix_slot ix)"
  have ixp: "4096 \<le> unat (ix_slot ix)" "ix_key_prefix ix = []" using tab ix by (auto simp: table_ok_def)
  then have hdr: "write_slot ns (ix_slot ix) = Some ?hdr" and w: "key_prefix_width K ix = key_len K"
    by (simp_all add: face_key_write_slot slot_valid_def key_prefix_width_def)
  have codec: "kdecode K (kencode K k) = k" "length (kencode K k) = key_len K" for k
    using tab by (simp_all add: table_ok_def)
  have entries: "\<alpha> s x \<noteq> None \<longleftrightarrow> (\<exists>k r. rows D (\<alpha> s) k = Some r \<and> ix_admits ix r \<and> x = ?hdr @ fields_bytes ix k r @ kencode K k)"
    if "prefix ?hdr x" for x
    using index_region [OF tab D ix cur that] by blast
  have long: "length ?hdr + key_prefix_width K ix \<le> length x" if "x \<in> dom (\<alpha> s)" "prefix ?hdr x" for x
    using entries [OF that(2)] that(1) codec(2) w by (auto simp: dom_def)
  obtain pks where run: "scan_index_filtered S K ix s ns e exact = Some (Inr pks)"
    and set: "set (map pk_decoded pks) = (\<lambda>k. decode_tail K (key_prefix_width K ix) (entry_tail (key_prefix_width K ix) k)) `
      probe_keys (\<alpha> s) ?hdr (key_prefix_width K ix) (\<lambda>seg. if exact then seg = e else prefix e seg)"
    using kv_scan.scan_index_filtered_ok [OF kv refl s hdr safe long, of exact] by blast
  have parts: "entry_seg ?hdr (key_len K) (?hdr @ f @ kencode K k) = f" "entry_tail (key_len K) (?hdr @ f @ kencode K k) = kencode K k" for f k
    using entry_parts codec(2) by metis+
  have "set (map pk_decoded pks) = {k. \<exists>r. rows D (\<alpha> s) k = Some r \<and> ix_admits ix r \<and>
      (if exact then fields_bytes ix k r = e else prefix e (fields_bytes ix k r))}"
  proof -
    have keys: "probe_keys (\<alpha> s) ?hdr (key_len K) P = {?hdr @ fields_bytes ix k r @ kencode K k | k r.
        rows D (\<alpha> s) k = Some r \<and> ix_admits ix r \<and> P (fields_bytes ix k r)}" for P
    proof (rule set_eqI)
      fix x
      show "x \<in> probe_keys (\<alpha> s) ?hdr (key_len K) P \<longleftrightarrow> x \<in> {?hdr @ fields_bytes ix k r @ kencode K k | k r.
          rows D (\<alpha> s) k = Some r \<and> ix_admits ix r \<and> P (fields_bytes ix k r)}"
      proof (cases "prefix ?hdr x")
        case True
        then show ?thesis using entries [OF True] parts by (fastforce simp: probe_keys_def domIff)
      qed (auto simp: probe_keys_def)
    qed
    have img: "decode_tail K (key_len K) (entry_tail (key_len K) (?hdr @ f @ kencode K k)) = k" for f k
      by (simp add: parts decode_tail_def codec)
    show ?thesis unfolding set w keys by (rule image_pairs) (rule img)
  qed
  moreover have "\<forall>pk \<in> set pks. pk_taken pk = key_len K" using scan_taken [OF run] w by simp
  ultimately show ?thesis using run by (intro exI [of _ pks] conjI)
qed

section \<open>The verbs on the rows\<close>

text \<open>Running a batch program of a document without hooks and committing it.\<close>

context face_document
begin

lemma purge_fields:
  "apply_ops (purge_ops k old (m (fields_key D k) \<noteq> None)) m (fields_key D k) = None"
proof -
  have "fields_key D k \<notin> set (map fst (E k d))" for d by simp
  then show ?thesis by (auto simp: purge_ops_def apply_dels simp del: set_map split: option.split)
qed

lemma save_commit:
  assumes "kv_point S ok \<alpha>" "ok (c_store c)" "prev = None \<or> prev = rows D (\<alpha> (c_store c)) k"
  shows "\<exists>c'. with_batch (save_with_prev_into D S k r prev) (\<lambda>_ ops. commit S ops) c = (Inr (), c') \<and>
    ok (c_store c') \<and> \<alpha> (c_store c') = apply_ops (save_ops k (rows D (\<alpha> (c_store c)) k) r) (\<alpha> (c_store c)) \<and>
    c_epoch c' = c_epoch c + 1 \<and> c_events c' = c_events c"
proof -
  let ?ops = "save_ops k (rows D (\<alpha> (c_store c)) k) r"
  obtain s' where "scommit_batch S ?ops (c_store c) = (Inr (), s')" "ok s'" "\<alpha> s' = apply_ops ?ops (\<alpha> (c_store c))"
    using kv_point.commit_ok [OF assms(1,2)] by blast
  then show ?thesis
    using save_run [OF assms(1,2), of prev "[]" k r] assms(3) by (simp add: with_batch_def commit_def)
qed

lemma put_commit:
  assumes "kv_point S ok \<alpha>" "ok (c_store c)"
  shows "\<exists>c'. coll_put D S k r c = (Inr (), c') \<and> ok (c_store c') \<and>
    \<alpha> (c_store c') = apply_ops (put_ops k r) (\<alpha> (c_store c)) \<and> c_epoch c' = c_epoch c + 1 \<and>
    c_events c' = c_events c @ [(EvPut, c_epoch c + 1, k, r)]"
proof -
  obtain s' where "scommit_batch S (put_ops k r) (c_store c) = (Inr (), s')" "ok s'"
    "\<alpha> s' = apply_ops (put_ops k r) (\<alpha> (c_store c))"
    using kv_point.commit_ok [OF assms] by blast
  then show ?thesis
    using put_writes_run [OF assms, of k r "[]"]
    by (simp add: coll_put_def with_batch_def commit_def iobind_def emit_event_def)
qed

lemma purge_commit:
  fixes k :: 'k
  assumes "kv_point S ok \<alpha>" "ok (c_store c)"
  defines "old \<equiv> rows D (\<alpha> (c_store c)) k" and "seg \<equiv> \<alpha> (c_store c) (fields_key D k) \<noteq> None"
  shows "\<exists>c'. purge D S k c = (Inr (old \<noteq> None \<or> seg), c') \<and> ok (c_store c') \<and>
    \<alpha> (c_store c') = apply_ops (purge_ops k old seg) (\<alpha> (c_store c)) \<and>
    c_epoch c' = c_epoch c + (if old \<noteq> None \<or> seg then 1 else 0) \<and>
    c_events c' = c_events c @ (case old of None \<Rightarrow> [] | Some r \<Rightarrow> [(EvDelete, c_epoch c + 1, k, r)])"
proof (cases "old = None \<and> \<not> seg")
  case True
  then show ?thesis
    using removal_run_store [OF assms(1,2), of k] assms(2)
    by (simp add: purge_def iobind_def old_def seg_def purge_ops_def)
next
  case False
  obtain s' where s': "scommit_batch S (purge_ops k old seg) (c_store c) = (Inr (), s')" "ok s'"
    "\<alpha> s' = apply_ops (purge_ops k old seg) (\<alpha> (c_store c))"
    using kv_point.commit_ok [OF assms(1,2)] by blast
  have "iobind (case old of None \<Rightarrow> ioret () | Some doc \<Rightarrow> delete_into D S k doc) (\<lambda>_.
      if seg then sdel (BatchStore S) (fields_key D k) else ioret ()) (c_store c, []) = (Inr (), (c_store c, purge_ops k old seg))"
    by (cases old; cases seg) (simp_all add: iobind_def delete_run purge_ops_def)
  then show ?thesis
    using removal_run_store [OF assms(1,2), of k, folded old_def seg_def] False s'
    by (cases old) (simp_all add: purge_def iobind_def with_batch_def commit_def emit_event_def)
qed

text \<open>The entries of all rows, as the derive phase writes them.\<close>

lemma row_entries_primary:
  "row_entries D (drop (length (face_key (header D) PRIMARY_SLOT)) (primary_key D k)) v = E k (d_decode D v)"
  by (simp add: primary_key_def row_entries_def key_faces)

lemma derived_entries:
  assumes "finite (dom m)" "\<forall>x \<in> dom m. prefix (face_key (header D) PRIMARY_SLOT) x \<longrightarrow> (\<exists>k. x = primary_key D k)"
  shows "set (concat (map (\<lambda>x. row_entries D (drop (length (face_key (header D) PRIMARY_SLOT)) x) (the (m x)))
      (keys_under m (face_key (header D) PRIMARY_SLOT)))) = {(x, v). \<exists>k r. rows D m k = Some r \<and> (x, v) \<in> set (E k r)}"
proof -
  let ?P = "face_key (header D) PRIMARY_SLOT"
  let ?f = "\<lambda>x. set (row_entries D (drop (length ?P) x) (the (m x)))"
  have "{x \<in> dom m. prefix ?P x} = {primary_key D k | k. rows D m k \<noteq> None}"
    using assms(2) by (fastforce simp: rows_def dom_def primary_key_def)
  then have "set (concat (map (\<lambda>x. row_entries D (drop (length ?P) x) (the (m x))) (keys_under m ?P))) =
      (\<Union>x \<in> {primary_key D k | k. rows D m k \<noteq> None}. ?f x)"
    using assms(1) by simp
  also have "\<dots> = (\<Union>k \<in> {k. rows D m k \<noteq> None}. ?f (primary_key D k))" by blast
  also have "\<dots> = {(x, v). \<exists>k r. rows D m k = Some r \<and> (x, v) \<in> set (E k r)}"
    by (auto simp: row_entries_primary rows_def) blast
  finally show ?thesis .
qed

lemma faces_current_cong:
  "rows D m' = rows D m \<Longrightarrow> (\<And>x. in_face D x \<Longrightarrow> m' x = m x) \<Longrightarrow> faces_current D m' = faces_current D m"
  by (simp add: faces_current_def)

lemma rebuild_ok:
  assumes kv: "kv_scan S ok \<alpha>" and s: "ok s"
    and safe: "\<forall>sl \<in> insert PRIMARY_SLOT (set (live_slots D)). prefix_safe (face_key (header D) sl) (\<alpha> s)"
    and prim: "\<forall>x \<in> dom (\<alpha> s). prefix (face_key (header D) PRIMARY_SLOT) x \<longrightarrow> (\<exists>k. x = primary_key D k)"
    and meta: "case \<alpha> s (meta_key (header D)) of None \<Rightarrow> True
      | Some b \<Rightarrow> \<exists>m. b = meta_encode m \<and> meta_ok m \<and> length m < 2 ^ 16 - 1"
  shows "\<exists>rp s'. rebuild_faces D S chunk s = Some (Inr rp, s') \<and> ok s' \<and> rows D (\<alpha> s') = rows D (\<alpha> s) \<and>
    faces_current D (\<alpha> s') \<and> faces_status D S s' = Some (Inr FMatch) \<and>
    (\<forall>x. \<not> in_face D x \<and> x \<noteq> meta_key (header D) \<longrightarrow> \<alpha> s' x = \<alpha> s x)"
proof -
  let ?P = "face_key (header D) PRIMARY_SLOT" and ?h = "header D" and ?mk = "meta_key (header D)"
  let ?rp = "\<lparr> rp_faces_swept = 0, rp_entries_deleted = 0, rp_documents = 0, rp_entries_written = 0, rp_chunks = 0 \<rparr>"
  note point = kv_scan.axioms(1) [OF kv]
  obtain ops1 rp1 s1 where 1: "sweep_faces S (max chunk 1) ?h (live_slots D) ([], ?rp) s = (Inr (ops1, rp1), s1)" "ok s1"
    "\<forall>x. apply_ops ops1 (\<alpha> s1) x = (if in_face D x then None else \<alpha> s x)"
    using kv_scan.sweep_faces_ok [OF kv s, of "[]" "live_slots D" ?h "max chunk 1" ?rp] safe
    by (auto simp: in_face_def)
  obtain rp2 s2 where 2: "commit_rest S (ops1, rp1) s1 = (Inr ([], rp2), s2)" "ok s2" "\<alpha> s2 = apply_ops ops1 (\<alpha> s1)"
    using kv_scan.commit_rest_ok [OF kv 1(2)] by blast
  have m2: "\<alpha> s2 x = (if in_face D x then None else \<alpha> s x)" for x using 1(3) 2(3) by simp
  then have le: "\<alpha> s2 \<subseteq>\<^sub>m \<alpha> s" by (auto simp: map_le_def dom_def split: if_splits)
  have rows2: "rows D (\<alpha> s2) = rows D (\<alpha> s)" using primary_not_face by (simp add: fun_eq_iff rows_def m2)
  have prim2: "\<forall>x \<in> dom (\<alpha> s2). prefix ?P x \<longrightarrow> (\<exists>k. x = primary_key D k)"
    using prim le by (auto simp: map_le_def dom_def)
  have fin: "finite (dom (\<alpha> s2))" by (rule kv_scan.finite_dom [OF kv 2(2)])
  have "prefix_safe ?P (\<alpha> s2)" using safe kv_scan.prefix_safe_mono [OF kv le] by simp
  then have items: "sscan_range_iter S s2 ?P (prefix_end ?P) = map (\<lambda>k. Inr (k, the (\<alpha> s2 k))) (keys_under (\<alpha> s2) ?P)"
    using 2(2) by (simp add: kv_scan.scan_iter_ok [OF kv] prefix_safe_keys)
  let ?es = "concat (map (\<lambda>x. row_entries D (drop (length ?P) x) (the (\<alpha> s2 x))) (keys_under (\<alpha> s2) ?P))"
  note es = derived_entries [OF fin prim2, unfolded rows2]
  have "\<forall>k \<in> set (keys_under (\<alpha> s2) ?P). key_len (d_key D) \<le> length (drop (length ?P) k)"
    using prim2 fin by (auto simp: primary_key_def)
  from kv_scan.derive_rows_ok [OF kv 2(2) this, of "max chunk 1" "\<lambda>k. the (\<alpha> s2 k)" "[]" rp2]
  obtain ops3 rp3 s3 where 3: "derive_rows D S (max chunk 1) (map (\<lambda>k. Inr (k, the (\<alpha> s2 k))) (keys_under (\<alpha> s2) ?P)) ([], rp2) s2
      = (Inr (ops3, rp3), s3)" "ok s3" "apply_ops ops3 (\<alpha> s3) = apply_ops (puts ?es) (\<alpha> s2)"
    by auto
  obtain rp4 s4 where 4: "commit_rest S (ops3, rp3) s3 = (Inr ([], rp4), s4)" "ok s4" "\<alpha> s4 = apply_ops ops3 (\<alpha> s3)"
    using kv_scan.commit_rest_ok [OF kv 3(2)] by blast
  have phases: "rebuild_phases D S chunk s = (Inr ([], rp4), s4)"
    using 1(1) 2(1) 3(1) 4(1) by (simp add: rebuild_phases_def iobind_def items Let_def)
  have uniq: "v = w" if "(x, v) \<in> set ?es" "(x, w) \<in> set ?es" for x v w
  proof -
    obtain k r k' r' where a: "rows D (\<alpha> s) k = Some r" "(x, v) \<in> set (E k r)"
      "rows D (\<alpha> s) k' = Some r'" "(x, w) \<in> set (E k' r')"
      using \<open>(x, v) \<in> set ?es\<close> \<open>(x, w) \<in> set ?es\<close> unfolding es by blast
    then have "k = k'" using entry_row by blast
    then show ?thesis using a entry_value by auto
  qed
  have m4: "\<alpha> s4 x = Some v \<longleftrightarrow> (x, v) \<in> set ?es \<or> x \<notin> fst ` set ?es \<and> \<alpha> s2 x = Some v" for x v
    unfolding 4(3) 3(3) by (rule apply_puts) (rule uniq)
  have face_es: "in_face D x" if "x \<in> fst ` set ?es" for x
    using that entry_in_face unfolding es by fastforce
  have same: "\<alpha> s4 x = \<alpha> s x" if "\<not> in_face D x" for x
  proof -
    have "\<alpha> s4 x = \<alpha> s2 x" unfolding 4(3) 3(3) using that face_es by (intro apply_puts_other) blast
    then show ?thesis using that m2 by simp
  qed
  have rows4: "rows D (\<alpha> s4) = rows D (\<alpha> s)" using same primary_not_face by (simp add: fun_eq_iff rows_def)
  have cur4: "faces_current D (\<alpha> s4)"
    unfolding faces_current_def
  proof (intro allI impI)
    fix x v assume "in_face D x"
    then have "\<alpha> s2 x = None" using m2 by simp
    then have "\<alpha> s4 x = Some v \<longleftrightarrow> (x, v) \<in> set ?es" using m4 [of x v] by (simp only: option.distinct simp_thms)
    also have "\<dots> \<longleftrightarrow> (\<exists>k r. rows D (\<alpha> s4) k = Some r \<and> (x, v) \<in> set (E k r))"
      unfolding es rows4 by blast
    finally show "\<alpha> s4 x = Some v \<longleftrightarrow> (\<exists>k r. rows D (\<alpha> s4) k = Some r \<and> (x, v) \<in> set (E k r))" .
  qed
  let ?f = "d_faces D"
  obtain m where m: "case \<alpha> s4 ?mk of None \<Rightarrow> m = meta_stamped (d_layout_version D) | Some b \<Rightarrow> b = meta_encode m"
      "meta_ok m" "length m < 2 ^ 16 - 1"
    using meta same [of ?mk] primary_not_face(3) meta_stamped_ok(1,2) [of "d_layout_version D"]
    by (cases "\<alpha> s ?mk") fastforce+
  have "length ?f = 16" by (simp add: d_faces_def fingerprint_def finish_def split: prod.split)
  from stamp_faces_run [OF point 4(2) m this]
  obtain s5 where 5: "stamp_faces S ?h (d_layout_version D) ?f s4 = Some (Inr (meta_set FACES ?f m), s5)" "ok s5"
    "\<alpha> s5 = (\<alpha> s4)(?mk \<mapsto> meta_encode (meta_set FACES ?f m))"
    "meta_read S s5 ?h = Some (Inr (Some (meta_set FACES ?f m)))" "face_status_of (meta_set FACES ?f m) ?f = FMatch"
    by blast
  have rows5: "rows D (\<alpha> s5) = rows D (\<alpha> s)" 
    using fields_ne(3) [symmetric] by (simp add: fun_eq_iff rows_def 5(3) rows4 [unfolded rows_def fun_eq_iff])
  have "faces_current D (\<alpha> s5)"
  proof (subst faces_current_cong [where m = "\<alpha> s4"])
    show "\<alpha> s5 x = \<alpha> s4 x" if "in_face D x" for x
    proof -
      have "x \<noteq> ?mk" using that primary_not_face(3) by auto
      then show ?thesis by (simp add: 5(3))
    qed
  qed (simp_all add: rows4 rows5 cur4)
  moreover have "rebuild_faces D S chunk s = Some (Inr rp4, s5)" by (simp add: rebuild_faces_def phases 5(1))
  moreover have "faces_status D S s5 = Some (Inr FMatch)" by (simp add: faces_status_def 5(4,5))
  ultimately show ?thesis using 5(2,3) rows5 same by (auto simp: fun_upd_def)
qed

end

section \<open>Save, put, purge\<close>

text \<open>
  C15: \<open>save\<close> on a table whose faces are current: the row is the saved one and reads back, every
  other row stays, the faces are those of the new rows (entries of the old row are gone, none
  is stale), one batch is committed, and no key outside the row and the faces moves.
\<close>

theorem save_refines:
  assumes "face_document D" "kv_point S ok \<alpha>" "ok (c_store c)" "faces_current D (\<alpha> (c_store c))"
    and "prev = None \<or> prev = rows D (\<alpha> (c_store c)) k"
  shows "\<exists>c'. with_batch (save_with_prev_into D S k r prev) (\<lambda>_ ops. commit S ops) c = (Inr (), c') \<and>
    ok (c_store c') \<and> rows D (\<alpha> (c_store c')) = (rows D (\<alpha> (c_store c)))(k \<mapsto> r) \<and>
    faces_current D (\<alpha> (c_store c')) \<and> c_epoch c' = c_epoch c + 1 \<and>
    (\<forall>k'. coll_get D S (c_store c') k' = Inr (if k' = k then Some r else rows D (\<alpha> (c_store c)) k')) \<and>
    (\<forall>x. x \<noteq> primary_key D k \<and> \<not> in_face D x \<longrightarrow> \<alpha> (c_store c') x = \<alpha> (c_store c) x)"
proof -
  note D = assms(1)
  obtain c' where c': "with_batch (save_with_prev_into D S k r prev) (\<lambda>_ ops. commit S ops) c = (Inr (), c')"
    "ok (c_store c')" "c_epoch c' = c_epoch c + 1"
    "\<alpha> (c_store c') = apply_ops (face_document.save_ops D k (rows D (\<alpha> (c_store c)) k) r) (\<alpha> (c_store c))"
    using face_document.save_commit [OF D assms(2,3,5)] by blast
  have rows: "rows D (\<alpha> (c_store c')) = (rows D (\<alpha> (c_store c)))(k \<mapsto> r)"
    by (simp only: c'(4) face_document.rows_save [OF D])
  then show ?thesis
    using c'(1-3) face_document.faces_save [OF D assms(4), folded c'(4)] face_document.save_elsewhere [OF D]
      face_document.coll_get_rows [OF D assms(2) c'(2)]
    by (intro exI [of _ c']) (simp add: c'(4))
qed

abbreviation demo_fresh :: "(byte, bytes, mem) collection" where
  "demo_fresh \<equiv> collection_new []"

lemma demo_empty: "faces_current demo_table (map_of (c_store demo_fresh))"
    "mem_inv (c_store demo_fresh)" "rows demo_table (map_of (c_store demo_fresh)) k = None"
  by (simp_all add: faces_current_def rows_def mem_inv_def collection_new_def)

theorem save_refines_witness:
  "\<exists>c'. with_batch (save_with_prev_into demo_table mem_storage 5 [1, 2] None) (\<lambda>_ ops. commit mem_storage ops)
      demo_fresh = (Inr (), c') \<and> coll_get demo_table mem_storage (c_store c') 5 = Inr (Some [1, 2])"
proof -
  obtain c' where "with_batch (save_with_prev_into demo_table mem_storage 5 [1, 2] None) (\<lambda>_ ops. commit mem_storage ops)
      demo_fresh = (Inr (), c')"
    "\<forall>k'. coll_get demo_table mem_storage (c_store c') k' =
      Inr (if k' = 5 then Some [1, 2] else rows demo_table (map_of (c_store demo_fresh)) k')"
    using save_refines [OF demo_laws mem.kv_point_axioms demo_empty(2,1), of None 5 "[1, 2]"] by blast
  then show ?thesis by (intro exI [of _ c']) simp
qed

text \<open>
  \<open>put\<close> always stores the row and tells its subscribers with the new epoch, but it deletes
  no entry: current faces stay current exactly when every entry key of the row it overwrites
  is an entry key of the new row.
\<close>

theorem put_faces:
  assumes "face_document D" "kv_point S ok \<alpha>" "ok (c_store c)" "faces_current D (\<alpha> (c_store c))"
  shows "\<exists>c'. coll_put D S k r c = (Inr (), c') \<and> ok (c_store c') \<and>
    rows D (\<alpha> (c_store c')) = (rows D (\<alpha> (c_store c)))(k \<mapsto> r) \<and>
    c_events c' = c_events c @ [(EvPut, c_epoch c + 1, k, r)] \<and>
    (faces_current D (\<alpha> (c_store c')) \<longleftrightarrow> (\<forall>old. rows D (\<alpha> (c_store c)) k = Some old \<longrightarrow>
      fst ` set (d_index_entries D k old (header D)) \<subseteq> fst ` set (d_index_entries D k r (header D))))"
proof -
  note D = assms(1)
  obtain c' where c': "coll_put D S k r c = (Inr (), c')" "ok (c_store c')"
    "\<alpha> (c_store c') = apply_ops (face_document.put_ops D k r) (\<alpha> (c_store c))"
    "c_events c' = c_events c @ [(EvPut, c_epoch c + 1, k, r)]"
    using face_document.put_commit [OF D assms(2,3)] by blast
  then show ?thesis
    using face_document.faces_put [OF D assms(4), folded c'(3)]
    by (intro exI [of _ c']) (simp add: c'(3) face_document.rows_put [OF D])
qed

theorem put_faces_witness:
  "\<exists>c'. coll_put demo_table mem_storage 5 [1, 2] demo_fresh = (Inr (), c') \<and>
     faces_current demo_table (map_of (c_store c'))"
  using put_faces [OF demo_laws mem.kv_point_axioms demo_empty(2,1), of 5 "[1, 2]"] demo_empty(3) [of 5]
  by auto

text \<open>
  C16: \<open>purge\<close> answers whether the key had a row or a dynamic segment, takes both away, keeps
  the faces current and every other row, commits nothing when there was nothing, and emits
  the delete event with the document it removed.
\<close>

theorem purge_refines:
  assumes "face_document D" "kv_point S ok \<alpha>" "ok (c_store c)" "faces_current D (\<alpha> (c_store c))"
  shows "\<exists>c'. purge D S k c =
      (Inr (rows D (\<alpha> (c_store c)) k \<noteq> None \<or> \<alpha> (c_store c) (fields_key D k) \<noteq> None), c') \<and> ok (c_store c') \<and>
    rows D (\<alpha> (c_store c')) = (rows D (\<alpha> (c_store c)))(k := None) \<and>
    \<alpha> (c_store c') (fields_key D k) = None \<and> faces_current D (\<alpha> (c_store c')) \<and>
    c_epoch c' = c_epoch c + (if rows D (\<alpha> (c_store c)) k \<noteq> None \<or> \<alpha> (c_store c) (fields_key D k) \<noteq> None then 1 else 0) \<and>
    c_events c' = c_events c @
      (case rows D (\<alpha> (c_store c)) k of None \<Rightarrow> [] | Some old \<Rightarrow> [(EvDelete, c_epoch c + 1, k, old)])"
proof -
  note D = assms(1)
  let ?old = "rows D (\<alpha> (c_store c)) k" and ?seg = "\<alpha> (c_store c) (fields_key D k) \<noteq> None"
  obtain c' where c': "purge D S k c = (Inr (?old \<noteq> None \<or> ?seg), c')" "ok (c_store c')"
    "\<alpha> (c_store c') = apply_ops (face_document.purge_ops D k ?old ?seg) (\<alpha> (c_store c))"
    "c_epoch c' = c_epoch c + (if ?old \<noteq> None \<or> ?seg then 1 else 0)"
    "c_events c' = c_events c @ (case ?old of None \<Rightarrow> [] | Some r \<Rightarrow> [(EvDelete, c_epoch c + 1, k, r)])"
    using face_document.purge_commit [OF D assms(2,3), of k] by blast
  have "rows D (\<alpha> (c_store c')) = (rows D (\<alpha> (c_store c)))(k := None)"
    unfolding c'(3) by (rule face_document.rows_purge [OF D]) simp
  moreover have "\<alpha> (c_store c') (fields_key D k) = None"
    unfolding c'(3) by (rule face_document.purge_fields [OF D])
  ultimately show ?thesis
    using c' face_document.faces_purge [OF D assms(4), folded c'(3)] by (intro exI [of _ c']) simp
qed

theorem purge_refines_witness:
  "\<exists>c'. purge demo_table mem_storage 5 (collection_new [(fields_key demo_table 5, [9])]) = (Inr True, c') \<and>
     map_of (c_store c') (fields_key demo_table 5) = None"
proof -
  let ?c = "collection_new [(fields_key demo_table 5, [9])] :: (byte, bytes, mem) collection"
  have cur: "faces_current demo_table (map_of (c_store ?c))"
    using face_document.primary_not_face(2) [OF demo_laws] face_document.fields_ne(2) [OF demo_laws]
    by (auto simp: faces_current_def rows_def collection_new_def)
  show ?thesis
    using purge_refines [OF demo_laws mem.kv_point_axioms _ cur, of 5] by (fastforce simp: mem_inv_def collection_new_def)
qed

section \<open>Rebuild and scans\<close>

text \<open>
  C14: \<open>rebuild_faces\<close> repairs any store of the table, whatever stale, missing or foreign
  entries its declared faces hold and whatever the chunk size: afterwards the faces are
  exactly those of the rows, the rows are the ones before, the face status is a match, and
  no key outside the faces and the meta row moves.
\<close>

theorem rebuild_faces_repairs:
  assumes "face_document D" "kv_scan S ok \<alpha>" "ok s"
    and "\<forall>sl \<in> insert PRIMARY_SLOT (set (live_slots D)). prefix_safe (face_key (header D) sl) (\<alpha> s)"
    and "\<forall>x \<in> dom (\<alpha> s). prefix (face_key (header D) PRIMARY_SLOT) x \<longrightarrow> (\<exists>k. x = primary_key D k)"
    and "case \<alpha> s (meta_key (header D)) of None \<Rightarrow> True
      | Some b \<Rightarrow> \<exists>m. b = meta_encode m \<and> meta_ok m \<and> length m < 2 ^ 16 - 1"
  shows "\<exists>rp s'. rebuild_faces D S chunk s = Some (Inr rp, s') \<and> ok s' \<and> rows D (\<alpha> s') = rows D (\<alpha> s) \<and>
    faces_current D (\<alpha> s') \<and> faces_status D S s' = Some (Inr FMatch) \<and>
    (\<forall>x. \<not> in_face D x \<and> x \<noteq> meta_key (header D) \<longrightarrow> \<alpha> s' x = \<alpha> s x)"
  using assms by (rule face_document.rebuild_ok)

definition demo_stale :: mem where
  "demo_stale = [(primary_key demo_table 5, [1, 2]), (face_key [7] 0x3001 @ [9, 5], [])]"

theorem rebuild_faces_repairs_witness:
  "\<exists>rp s'. rebuild_faces demo_table mem_storage 1 demo_stale = Some (Inr rp, s') \<and>
     rows demo_table (map_of s') 5 = Some [1, 2] \<and> faces_current demo_table (map_of s') \<and>
     faces_status demo_table mem_storage s' = Some (Inr FMatch)"
proof -
  let ?m = "map_of demo_stale"
  have h: "header demo_table = [7]" by (simp add: header_def demo_table_def plain_document_def)
  have keys: "primary_key demo_table k = face_key [7] PRIMARY_SLOT @ [k]" for k
    unfolding primary_key_def h by (simp add: demo_table_def plain_document_def demo_key_def)
  have imgs: "face_key [7] PRIMARY_SLOT = [7, 0]" "face_key [7] 0x3001 = [7, 0x30, 1]" "meta_key [7] = [7, 15]"
    by (simp_all add: meta_key_def face_key_def slot_image_def slot_consts be_bytes_2)
  have dom: "dom ?m = {[7, 0, 5], [7, 0x30, 1, 9, 5]}"
    by (auto simp: demo_stale_def keys imgs)
  have live: "live_slots demo_table = [0x3001]"
    by (simp add: live_slots_def demo_table_def plain_document_def demo_decl_def)
  have "\<forall>sl \<in> insert PRIMARY_SLOT (set (live_slots demo_table)). prefix_safe (face_key (header demo_table) sl) ?m"
    by (simp add: prefix_safe_def dom h live imgs prefix_end_def in_range_def)
  moreover have "\<forall>x \<in> dom ?m. prefix (face_key (header demo_table) PRIMARY_SLOT) x \<longrightarrow> (\<exists>k. x = primary_key demo_table k)"
    by (simp add: dom h keys imgs)
  moreover have "?m (meta_key (header demo_table)) = None" by (simp add: h imgs keys demo_stale_def)
  moreover have "mem_inv demo_stale" by (simp add: mem_inv_def demo_stale_def keys imgs)
  moreover have "rows demo_table ?m 5 = Some [1, 2]"
    by (simp add: rows_def demo_stale_def) (simp add: demo_table_def plain_document_def)
  ultimately show ?thesis
    using rebuild_faces_repairs [OF demo_laws mem_storage_kv_scan, of demo_stale 1] by auto
qed

text \<open>
  C13: An index of a table with current faces answers a probe: the exact scan returns the keys of
  precisely the rows that the index admits and whose indexed fields encode to the probed bytes, the
  plain scan is a prefix match and returns those whose encoding starts with them, each with its row
  (in a store where no foreign key lies inside the probe's scan interval, \<open>prefix_safe\<close>).
\<close>

theorem scan_answers_rows:
  fixes D :: "('k, 'r, 's) document"
  assumes "table_ok K ixs enc dec" "D = plain_document K ns version ixs enc dec"
    and "(d, ix) \<in> set ixs" "\<not> id_deprecated d"
    and "kv_scan S ok \<alpha>" "ok s" "faces_current D (\<alpha> s)" "prefix_safe (face_key ns (ix_slot ix) @ e) (\<alpha> s)"
  shows "\<exists>exact_hits prefix_hits. coll_scan_exact D S ix s e = Some (Inr exact_hits) \<and>
    coll_scan D S ix s e = Some (Inr prefix_hits) \<and>
    set (map pk_decoded (map fst exact_hits)) =
      {k. \<exists>r. rows D (\<alpha> s) k = Some r \<and> ix_admits ix r \<and> fields_bytes ix k r = e} \<and>
    set (map pk_decoded (map fst prefix_hits)) =
      {k. \<exists>r. rows D (\<alpha> s) k = Some r \<and> ix_admits ix r \<and> prefix e (fields_bytes ix k r)} \<and>
    (\<forall>(pk, doc) \<in> set (exact_hits @ prefix_hits). doc = rows D (\<alpha> s) (pk_decoded pk))"
proof -
  note run = scan_filtered_rows [OF assms]
  have D: "face_document D" and K: "d_key D = K" "header D = ns"
    using plain_document_laws [OF assms(1)] assms(2) by (simp_all add: plain_document_def header_def)
  note fetch = face_document.fetch_back_ok [OF D kv_scan.axioms(1) [OF assms(5)] assms(6), unfolded K]
  obtain xs where xs: "scan_index_filtered S K ix s ns e True = Some (Inr xs)" "\<forall>pk \<in> set xs. pk_taken pk = key_len K"
    "set (map pk_decoded xs) = {k. \<exists>r. rows D (\<alpha> s) k = Some r \<and> ix_admits ix r \<and> fields_bytes ix k r = e}"
    using run [of True] by auto
  obtain ys where ys: "scan_index_filtered S K ix s ns e False = Some (Inr ys)" "\<forall>pk \<in> set ys. pk_taken pk = key_len K"
    "set (map pk_decoded ys) = {k. \<exists>r. rows D (\<alpha> s) k = Some r \<and> ix_admits ix r \<and> prefix e (fields_bytes ix k r)}"
    using run [of False] by auto
  let ?docs = "map (\<lambda>pk. (pk, rows D (\<alpha> s) (pk_decoded pk)))"
  have "coll_scan_exact D S ix s e = Some (Inr (?docs xs))" "coll_scan D S ix s e = Some (Inr (?docs ys))"
    using xs(1) ys(1) fetch [OF xs(2)] fetch [OF ys(2)]
    by (simp_all add: coll_scan_exact_def coll_scan_def K scan_index_exact_def scan_index_def)
  moreover have "map fst (?docs zs) = zs" for zs by (simp add: comp_def)
  ultimately show ?thesis using xs(3) ys(3) by (intro exI [of _ "?docs xs"] exI [of _ "?docs ys"]) auto
qed

text \<open>The store behind the first save of a row.\<close>

lemma demo_row:
  "\<exists>s. mem_inv s \<and> map_of s = apply_ops (face_document.save_ops demo_table 5 None [1, 2]) (map_of []) \<and>
     rows demo_table (map_of s) = [5 \<mapsto> [1, 2]] \<and> faces_current demo_table (map_of s)"
proof -
  let ?ops = "face_document.save_ops demo_table 5 None [1, 2]"
  obtain s where s: "mem_inv s" "map_of s = apply_ops ?ops (map_of [])"
    using mem.commit_ok [of "[]" ?ops] by (auto simp: mem_inv_def)
  have "rows demo_table (map_of s) = [5 \<mapsto> [1, 2]]"
    unfolding s(2) face_document.rows_save [OF demo_laws] by (simp add: rows_def fun_eq_iff)
  moreover have none: "rows demo_table (map_of ([] :: mem)) 5 = None" by (simp add: rows_def)
  have "faces_current demo_table (map_of s)"
    unfolding s(2) using face_document.faces_save [OF demo_laws, of "map_of []" 5 "[1, 2]", unfolded none] demo_empty(1)
    by (simp add: collection_new_def)
  ultimately show ?thesis using s by blast
qed

theorem scan_answers_rows_witness:
  "\<exists>s exact_hits. rows demo_table (map_of s) = [5 \<mapsto> [1, 2]] \<and>
     coll_scan_exact demo_table mem_storage demo_index s [1, 2] = Some (Inr exact_hits) \<and>
     set (map pk_decoded (map fst exact_hits)) = {5}"
proof -
  obtain s where s: "mem_inv s" "map_of s = apply_ops (face_document.save_ops demo_table 5 None [1, 2]) (map_of [])"
    and rows: "rows demo_table (map_of s) = [5 \<mapsto> [1, 2]]" and cur: "faces_current demo_table (map_of s)"
    using demo_row by blast
  have h: "header demo_table = [7]" by (simp add: header_def demo_table_def plain_document_def)
  have imgs: "face_key [7] PRIMARY_SLOT = [7, 0]" "face_key [7] 0x3001 = [7, 0x30, 1]"
    by (simp_all add: face_key_def slot_image_def slot_consts be_bytes_2)
  have pk: "primary_key demo_table 5 = [7, 0, 5]"
    unfolding primary_key_def h by (simp add: imgs demo_table_def plain_document_def demo_key_def)
  have entries: "set (d_index_entries demo_table 5 [1, 2] (header demo_table)) = {([7, 0x30, 1, 1, 2, 5], [])}"
    unfolding h by (auto simp: demo_table_def plain_document_def demo_decl_def index_entries_mem demo_index_def
        demo_key_def imgs fields_bytes_def entry_value_def)
  have absent: "map_of s x = None" if x: "x \<noteq> [7, 0, 5]" "x \<noteq> [7, 0x30, 1, 1, 2, 5]" for x
  proof (cases "in_face demo_table x")
    case True
    show ?thesis
    proof (rule ccontr)
      assume "map_of s x \<noteq> None"
      then obtain k r v where "[5 \<mapsto> [1, 2]] k = Some r" "(x, v) \<in> set (d_index_entries demo_table k r (header demo_table))"
        using cur True unfolding faces_current_def rows by blast
      then show False using entries x(2) by (cases "k = 5") auto
    qed
  next
    case False
    then show ?thesis
      unfolding s(2) using face_document.save_elsewhere [OF demo_laws, of x 5 None "[1, 2]" "map_of []"] x(1) pk by simp
  qed
  have "prefix [7, 0x30, 1, 1, 2] x"
    if "map_of s x \<noteq> None" "in_range [7, 0x30, 1, 1, 2] (Some [7, 0x30, 1, 1, 3]) x" for x
  proof (cases "x = [7, 0, 5]")
    case False
    then have "x = [7, 0x30, 1, 1, 2, 5]" using absent [OF False] that(1) by (rule_tac ccontr) simp
    then show ?thesis by simp
  qed (use that(2) in \<open>simp add: in_range_def\<close>)
  then have "prefix_safe (face_key [7] (ix_slot demo_index) @ [1, 2]) (map_of s)"
    by (simp add: prefix_safe_def demo_index_def imgs prefix_end_def dom_def)
  moreover have "{k. \<exists>r. [5 \<mapsto> [1, 2]] k = Some r \<and> ix_admits demo_index r \<and> fields_bytes demo_index k r = [1, 2]} = {5}"
    by (auto simp: demo_index_def fields_bytes_def split: if_splits)
  ultimately show ?thesis
    using scan_answers_rows [OF demo_table_ok demo_table_def _ _ mem_storage_kv_scan s(1) cur, of demo_decl demo_index "[1, 2]"] rows
    by (fastforce simp: demo_decl_def)
qed

end
