(* ===== verification/Okm_History.thy ===== *)
theory Okm_History
  imports Okm_Table
begin

text \<open>
  Histories of a table: the verbs of \<open>okm-core/src/model/document.rs\<close> as the steps of a state
  machine over the collection, the map of rows they implement, and the invariants of the faces
  in every state a history reaches.
\<close>

section \<open>Verbs as steps\<close>

datatype ('k, 'r) verb = Save 'k 'r | Put 'k 'r | Purge 'k | Touch

inductive table_step ::
    "('k, 'r, 's) document \<Rightarrow> 's storage \<Rightarrow> ('k, 'r) verb
      \<Rightarrow> ('k, 'r, 's) collection \<Rightarrow> ('k, 'r, 's) collection \<Rightarrow> bool"
  for D S where
  save: "with_batch (save_with_prev_into D S k r None) (\<lambda>_ ops. commit S ops) c = (res, c')
      \<Longrightarrow> table_step D S (Save k r) c c'"
| put: "coll_put D S k r c = (res, c') \<Longrightarrow> table_step D S (Put k r) c c'"
| upsert: "upsert_with D S k f c = (Inr r, c') \<Longrightarrow> table_step D S (Put k r) c c'"
| purge: "purge D S k c = (res, c') \<Longrightarrow> table_step D S (Purge k) c c'"
| touch: "ensure_layout D S (c_store c) = Some (res, s') \<Longrightarrow> table_step D S Touch c (c\<lparr> c_store := s' \<rparr>)"

inductive table_history ::
    "('k, 'r, 's) document \<Rightarrow> 's storage \<Rightarrow> ('k, 'r, 's) collection
      \<Rightarrow> ('k, 'r) verb list \<Rightarrow> ('k, 'r, 's) collection \<Rightarrow> bool"
  for D S c\<^sub>0 where
  start: "table_history D S c\<^sub>0 [] c\<^sub>0"
| verb: "table_history D S c\<^sub>0 vs c \<Longrightarrow> table_step D S v c c' \<Longrightarrow> table_history D S c\<^sub>0 (vs @ [v]) c'"

text \<open>The abstract table: a map of rows, and the puts of a history that overwrite a row.\<close>

primrec verb_rows :: "('k, 'r) verb \<Rightarrow> ('k \<rightharpoonup> 'r) \<Rightarrow> ('k \<rightharpoonup> 'r)" where
  "verb_rows (Save k r) m = m(k \<mapsto> r)"
| "verb_rows (Put k r) m = m(k \<mapsto> r)"
| "verb_rows (Purge k) m = m(k := None)"
| "verb_rows Touch m = m"

definition history_rows :: "('k, 'r) verb list \<Rightarrow> ('k \<rightharpoonup> 'r)" where
  "history_rows vs = fold verb_rows vs Map.empty"

primrec fresh_put :: "('k \<rightharpoonup> 'r) \<Rightarrow> ('k, 'r) verb \<Rightarrow> bool" where
  "fresh_put m (Save k r) \<longleftrightarrow> True"
| "fresh_put m (Put k r) \<longleftrightarrow> m k = None"
| "fresh_put m (Purge k) \<longleftrightarrow> True"
| "fresh_put m Touch \<longleftrightarrow> True"

definition fresh_puts :: "('k, 'r) verb list \<Rightarrow> bool" where
  "fresh_puts vs \<longleftrightarrow> (\<forall>i < length vs. fresh_put (history_rows (take i vs)) (vs ! i))"

lemma fresh_puts_simps [simp]: "fresh_puts []" "fresh_puts (vs @ [v]) \<longleftrightarrow> fresh_puts vs \<and> fresh_put (history_rows vs) v"
  by (auto simp: fresh_puts_def nth_append less_Suc_eq)

lemma history_rows_simps [simp]: "history_rows [] = Map.empty" "history_rows (vs @ [v]) = verb_rows v (history_rows vs)"
  by (simp_all add: history_rows_def)

text \<open>
  What every state keeps: the faces hold every entry of every row, and the primary family
  holds nothing but rows.
\<close>

definition faces_complete :: "('k, 'r, 's) document \<Rightarrow> (bytes \<rightharpoonup> bytes) \<Rightarrow> bool" where
  "faces_complete D m \<longleftrightarrow> (\<forall>k r x v. rows D m k = Some r \<longrightarrow> (x, v) \<in> set (d_index_entries D k r (header D))
     \<longrightarrow> m x = Some v)"

definition primary_only_rows :: "('k, 'r, 's) document \<Rightarrow> (bytes \<rightharpoonup> bytes) \<Rightarrow> bool" where
  "primary_only_rows D m \<longleftrightarrow>
     (\<forall>x \<in> dom m. prefix (face_key (header D) PRIMARY_SLOT) x \<longrightarrow> (\<exists>k. x = primary_key D k))"

definition table_inv :: "('k, 'r, 's) document \<Rightarrow> (bytes \<rightharpoonup> bytes) \<Rightarrow> bool" where
  "table_inv D m \<longleftrightarrow> faces_complete D m \<and> primary_only_rows D m"

lemma apply_ops_from: "apply_ops ops m x = Some v \<Longrightarrow> m x = Some v \<or> (x, Some v) \<in> set ops"
proof (induction ops arbitrary: m)
  case (Cons op ops)
  obtain k w where op: "op = (k, w)" by (cases op)
  have "apply_ops ops (m(k := w)) x = Some v" using Cons.prems op by simp
  from Cons.IH [OF this] show ?case by (auto simp: op split: if_splits)
qed simp

context face_document
begin

lemma primary_family: "in_face D x \<Longrightarrow> \<not> prefix (face_key (header D) PRIMARY_SLOT) x"
proof
  assume "in_face D x" "prefix (face_key (header D) PRIMARY_SLOT) x"
  then obtain sl y where "sl \<in> set (live_slots D)" "prefix (face_key (header D) sl) (face_key (header D) PRIMARY_SLOT @ y)"
    by (auto simp: in_face_def prefix_def)
  then show False using key_face_disjoint [OF _ fixed_valid(1), of sl y] by (simp add: slot_consts)
qed

lemma primary_only_ops:
  assumes "primary_only_rows D m" "\<And>x v. (x, Some v) \<in> set ops \<Longrightarrow> in_face D x \<or> (\<exists>k. x = primary_key D k)"
  shows "primary_only_rows D (apply_ops ops m)"
  using assms primary_family apply_ops_from [of ops m] unfolding primary_only_rows_def by (fastforce simp: dom_def)

lemma ops_written:
  "(x, Some v) \<in> set (put_ops k r) \<Longrightarrow> in_face D x \<or> (\<exists>k. x = primary_key D k)"
  "(x, Some v) \<in> set (save_ops k old r) \<Longrightarrow> in_face D x \<or> (\<exists>k. x = primary_key D k)"
  "(x, Some v) \<notin> set (purge_ops k old seg)"
  using entry_in_face by (auto simp: put_ops_def save_ops_def purge_ops_def puts_def dels_def split: option.splits)

lemma entry_of_other:
  "(x, v) \<in> set (E k' r') \<Longrightarrow> k' \<noteq> k \<Longrightarrow> x \<notin> fst ` set (E k r) \<and> x \<notin> set (leftovers k old r) \<and>
     x \<noteq> primary_key D k \<and> x \<noteq> fields_key D k"
  using entry_row entry_in_face primary_not_face by (fastforce simp: leftovers_def split: option.splits)

lemma complete_put: "faces_complete D m \<Longrightarrow> faces_complete D (apply_ops (put_ops k r) m)"
  unfolding faces_complete_def rows_put
  using entry_of_other [of _ _ _ _ k r] by (auto simp: put_ops_def entry_puts split: if_splits)

lemma complete_save: "faces_complete D m \<Longrightarrow> faces_complete D (apply_ops (save_ops k old r) m)"
  unfolding faces_complete_def rows_save
  using entry_of_other [of _ _ _ _ k r old] by (auto simp: save_ops_def entry_puts apply_dels split: if_splits)

lemma complete_purge:
  assumes "faces_complete D m"
  shows "faces_complete D (apply_ops (purge_ops k (rows D m k) seg) m)"
  unfolding faces_complete_def rows_purge [OF refl]
proof (intro allI impI)
  fix k' r x v
  assume r: "((rows D m)(k := None)) k' = Some r" and e: "(x, v) \<in> set (E k' r)"
  have k': "k' \<noteq> k" "rows D m k' = Some r" using r by (auto split: if_splits)
  have "x \<noteq> primary_key D k" "x \<noteq> fields_key D k" "x \<notin> set (map fst (E k d))" for d
    using entry_of_other [OF e k'(1)] by auto
  moreover have "m x = Some v" using assms k'(2) e by (auto simp: faces_complete_def)
  ultimately show "apply_ops (purge_ops k (rows D m k) seg) m x = Some v"
    by (auto simp: purge_ops_def apply_dels simp del: set_map split: option.split)
qed

lemma meta_key_apart: "\<not> prefix (face_key (header D) PRIMARY_SLOT) (meta_key (header D))"
  using face_key_disjoint [OF fixed_valid(3,1), of "header D" "[]"] by (auto simp: meta_key_def prefix_def slot_consts)

lemma upd_meta:
  "rows D (m(meta_key (header D) := w)) = rows D m"
  "faces_current D (m(meta_key (header D) := w)) = faces_current D m"
  "table_inv D m \<Longrightarrow> table_inv D (m(meta_key (header D) := w))"
proof -
  show r: "rows D (m(meta_key (header D) := w)) = rows D m"
    using fields_ne(3) [symmetric] by (simp add: fun_eq_iff rows_def)
  have "(m(meta_key (header D) := w)) x = m x" if "in_face D x" for x using that primary_not_face(3) by auto
  then show "faces_current D (m(meta_key (header D) := w)) = faces_current D m" by (intro faces_current_cong r)
  have "x \<noteq> meta_key (header D)" if "(x, v) \<in> set (E k r)" for x v k r using entry_in_face [OF that] primary_not_face(3) by auto
  then show "table_inv D m \<Longrightarrow> table_inv D (m(meta_key (header D) := w))"
    unfolding table_inv_def faces_complete_def primary_only_rows_def r using meta_key_apart by (auto split: if_splits)
qed

end

lemma meta_ensure_store:
  assumes "kv_point S ok \<alpha>" "ok s" "meta_ensure S h cur faces s = Some (res, s')"
  shows "ok s' \<and> (\<exists>w. \<alpha> s' = (\<alpha> s)(meta_key h := w))"
proof (cases "\<alpha> s (meta_key h)")
  case None
  let ?b = "meta_encode (case faces of Some f \<Rightarrow> meta_set FACES f (meta_stamped cur) | None \<Rightarrow> meta_stamped cur)"
  obtain s1 where s1: "sput S (meta_key h) ?b s = (Inr (), s1)" "ok s1" "\<alpha> s1 = (\<alpha> s)(meta_key h \<mapsto> ?b)"
    using kv_point.put_ok [OF assms(1,2)] by blast
  then have "s' = s1"
    using assms(3) None by (simp add: meta_ensure_def kv_point.get_ok [OF assms(1,2)] iobind_def Let_def)
  then show ?thesis using s1(2,3) by blast
next
  case (Some b)
  then have "s' = s"
    using assms(3) by (auto simp: meta_ensure_def kv_point.get_ok [OF assms(1,2)] split: option.splits)
  then show ?thesis using assms(2) Some by (intro conjI exI [of _ "Some b"]) (auto simp: fun_upd_idem)
qed


section \<open>Every history refines the map of rows\<close>

definition steps_to ::
    "('k, 'r, 's) document \<Rightarrow> (bytes \<rightharpoonup> bytes) \<Rightarrow> ('k, 'r) verb \<Rightarrow> (bytes \<rightharpoonup> bytes) \<Rightarrow> bool" where
  "steps_to D m v m' \<longleftrightarrow> rows D m' = verb_rows v (rows D m) \<and> (table_inv D m \<longrightarrow> table_inv D m') \<and>
     (fresh_put (rows D m) v \<longrightarrow> faces_current D m \<longrightarrow> faces_current D m')"

context face_document
begin

lemma steps_save: "steps_to D m (Save k r) (apply_ops (save_ops k (rows D m k) r) m)"
  using complete_save faces_save rows_save primary_only_ops [OF _ ops_written(2), of m]
  by (auto simp: steps_to_def table_inv_def)

lemma steps_put: "steps_to D m (Put k r) (apply_ops (put_ops k r) m)"
  using complete_put faces_put rows_put primary_only_ops [OF _ ops_written(1), of m]
  by (auto simp: steps_to_def table_inv_def)

lemma steps_purge: "steps_to D m (Purge k) (apply_ops (purge_ops k (rows D m k) seg) m)"
proof -
  have "primary_only_rows D m \<Longrightarrow> primary_only_rows D (apply_ops (purge_ops k (rows D m k) seg) m)"
    by (rule primary_only_ops) (use ops_written(3) in blast)+
  then show ?thesis
    using complete_purge faces_purge rows_purge [OF refl, where m = m and k = k and seg = seg]
    by (auto simp: steps_to_def table_inv_def)
qed

lemma steps_touch: "steps_to D m Touch (m(meta_key (header D) := w))"
  using upd_meta by (simp add: steps_to_def)

lemma step_steps:
  assumes "kv_point S ok \<alpha>" "table_step D S v c c'" "ok (c_store c)"
  shows "ok (c_store c') \<and> steps_to D (\<alpha> (c_store c)) v (\<alpha> (c_store c'))"
  using assms(2)
proof (cases rule: table_step.cases)
  case (save k r res)
  then show ?thesis using save_commit [OF assms(1,3), of None k r] steps_save by auto
next
  case (put k r res)
  then show ?thesis using put_commit [OF assms(1,3), of k r] steps_put by auto
next
  case (upsert k f r)
  then show ?thesis
    using put_commit [OF assms(1,3), of k "f (rows D (\<alpha> (c_store c)) k)"] steps_put
    by (auto simp: upsert_with_def iobind_def coll_get_rows [OF assms(1,3)])
next
  case (purge k res)
  then show ?thesis using purge_commit [OF assms(1,3), of k] steps_purge by auto
next
  case (touch res s')
  then show ?thesis
    using meta_ensure_store [OF assms(1,3)] steps_touch by (fastforce simp: ensure_layout_def)
qed

lemma history_steps:
  assumes "kv_point S ok \<alpha>" "table_history D S c\<^sub>0 vs c" "ok (c_store c\<^sub>0)" "\<alpha> (c_store c\<^sub>0) = Map.empty"
  shows "ok (c_store c) \<and> rows D (\<alpha> (c_store c)) = history_rows vs \<and> table_inv D (\<alpha> (c_store c)) \<and>
    (fresh_puts vs \<longrightarrow> faces_current D (\<alpha> (c_store c)))"
  using assms(2)
proof (induction rule: table_history.induct)
  case start
  have "rows D Map.empty = Map.empty" by (simp add: rows_def fun_eq_iff)
  then show ?case
    using assms(3,4) by (simp add: table_inv_def faces_complete_def primary_only_rows_def faces_current_def)
next
  case (verb vs c v c')
  then show ?case using step_steps [OF assms(1) verb.hyps(2)] by (auto simp: steps_to_def)
qed

end

text \<open>
  C11: Every history of a table that starts on an empty store refines the map of its rows: after
  any sequence of saves, puts, upserts, purges and layout checks the stored rows are the ones
  the sequence leaves in a plain map, each reads back through \<open>get\<close>, and at no point does an
  index miss an entry of a stored row.
\<close>

theorem table_refines_map:
  assumes "face_document D" "kv_point S ok \<alpha>" "ok s" "\<alpha> s = Map.empty"
    and "table_history D S (collection_new s) vs c"
  shows "ok (c_store c) \<and> rows D (\<alpha> (c_store c)) = history_rows vs \<and>
    (\<forall>k. coll_get D S (c_store c) k = Inr (history_rows vs k)) \<and> table_inv D (\<alpha> (c_store c))"
  using face_document.history_steps [OF assms(1,2,5)] assms(3,4)
    face_document.coll_get_rows [OF assms(1,2)]
  by (simp add: collection_new_def)

text \<open>
  C12: In every history whose puts hit keys without a row, the faces are current in every state
  that is reached: no index entry is stale and none is missing. Saves and purges need no such
  condition.
\<close>

theorem history_faces_current:
  assumes "face_document D" "kv_point S ok \<alpha>" "ok s" "\<alpha> s = Map.empty"
    and "table_history D S (collection_new s) vs c" "fresh_puts vs"
  shows "faces_current D (\<alpha> (c_store c))"
  using face_document.history_steps [OF assms(1,2,5)] assms(3,4,6) by (simp add: collection_new_def)

text \<open>A put, a save over it and the purge of another key.\<close>

definition demo_verbs :: "(byte, bytes) verb list" where
  "demo_verbs = [Put 5 [1], Save 5 [2], Purge 6]"

lemma demo_history: "\<exists>c. table_history demo_table mem_storage demo_fresh demo_verbs c"
proof -
  obtain c1 where 1: "coll_put demo_table mem_storage 5 [1] demo_fresh = (Inr (), c1)"
    using face_document.put_commit [OF demo_laws mem.kv_point_axioms demo_empty(2)] by blast
  obtain r2 c2 where 2: "with_batch (save_with_prev_into demo_table mem_storage 5 [2] None) (\<lambda>_ ops. commit mem_storage ops) c1 = (r2, c2)"
    by fastforce
  obtain r3 c3 where 3: "purge demo_table mem_storage 6 c2 = (r3, c3)" by fastforce
  show ?thesis
    using table_history.verb [OF table_history.verb [OF table_history.verb [OF table_history.start table_step.put [OF 1]]
      table_step.save [OF 2]] table_step.purge [OF 3]]
    by (auto simp: demo_verbs_def)
qed

theorem table_refines_map_witness:
  "\<exists>c. table_history demo_table mem_storage demo_fresh demo_verbs c \<and>
     coll_get demo_table mem_storage (c_store c) 5 = Inr (Some [2]) \<and> table_inv demo_table (map_of (c_store c))"
proof -
  obtain c where c: "table_history demo_table mem_storage demo_fresh demo_verbs c" using demo_history by blast
  have "history_rows demo_verbs 5 = Some [2]" by (simp add: demo_verbs_def history_rows_def)
  with table_refines_map [OF demo_laws mem.kv_point_axioms _ _ c] c show ?thesis
    by (intro exI [of _ c]) (simp add: mem_inv_def)
qed

theorem history_faces_current_witness:
  "\<exists>c. table_history demo_table mem_storage demo_fresh demo_verbs c \<and> faces_current demo_table (map_of (c_store c))"
proof -
  obtain c where c: "table_history demo_table mem_storage demo_fresh demo_verbs c" using demo_history by blast
  have "fresh_puts demo_verbs"
    by (simp add: fresh_puts_def demo_verbs_def history_rows_def less_Suc_eq)
  with history_faces_current [OF demo_laws mem.kv_point_axioms _ _ c] c show ?thesis
    by (auto simp: mem_inv_def)
qed

end
