(* ===== verification/Okm_Scans.thy ===== *)
theory Okm_Scans
  imports Okm_Table
begin

text \<open>
  The scans of a collection (\<open>okm-core/src/model/document.rs\<close>): range scans over an index, eager
  and lazy, covered scans, the key scans of the two document modes, the raw documents and the
  pruning of deprecated slots.

  A lazy scan is the list of what its \<open>next\<close> answers, over the store at the time of the call;
  the element \<open>None\<close> is a panic, which ends the list. Error texts are abbreviated.
\<close>

section \<open>Range scans\<close>

definition index_key :: "('k, 'r, 's) document \<Rightarrow> ('k, 'r) kv_index \<Rightarrow> 'k \<Rightarrow> 'r \<Rightarrow> bytes option" where
  "index_key D ix k doc = entry_key (d_key D) ix (header D) k doc"

text \<open>An entry that reaches past the bound: its key tail, and the row when the tail is a key.\<close>

definition tail_hit :: "'k key_encode \<Rightarrow> nat \<Rightarrow> bytes \<Rightarrow> 'k prefix_key" where
  "tail_hit K taken rest =
     \<lparr> pk_decoded = decode_tail K taken (drop (length rest - taken) rest), pk_taken = taken \<rparr>"

definition fetch_hit ::
    "('k, 'r, 's) document \<Rightarrow> 's storage \<Rightarrow> 's \<Rightarrow> nat \<Rightarrow> bytes \<Rightarrow> ('k prefix_key \<times> 'r option) result" where
  "fetch_hit D S s taken rest =
     (let pk = tail_hit (d_key D) taken rest in
      rbind (if taken = key_len (d_key D) then coll_get D S s (pk_decoded pk) else Inr None) (\<lambda>doc. Inr (pk, doc)))"

fun range_rows ::
    "('k, 'r, 's) document \<Rightarrow> 's storage \<Rightarrow> 's \<Rightarrow> nat \<Rightarrow> bytes \<Rightarrow> bytes list
      \<Rightarrow> ('k prefix_key \<times> 'r option) list result option" where
  "range_rows D S s taken b [] = Some (Inr [])"
| "range_rows D S s taken b (full # keys) =
     (if length full < length b then None
      else let rest = drop (length b) full in
        if length rest < taken then range_rows D S s taken b keys
        else (case fetch_hit D S s taken rest of
            Inl e \<Rightarrow> Some (Inl e)
          | Inr hit \<Rightarrow> map_option (\<lambda>r. rbind r (\<lambda>out. Inr (hit # out))) (range_rows D S s taken b keys)))"

definition coll_scan_range ::
    "('k, 'r, 's) document \<Rightarrow> 's storage \<Rightarrow> ('k, 'r) kv_index \<Rightarrow> 's \<Rightarrow> bytes \<Rightarrow> bytes option
      \<Rightarrow> ('k prefix_key \<times> 'r option) list result option" where
  "coll_scan_range D S ix s lo hi =
     (case entry_prefix ix (header D) [] of
        None \<Rightarrow> None
      | Some p \<Rightarrow>
          (case sscan_range S s (p @ lo) (map_option (\<lambda>e. p @ e) hi) of
             Inl e \<Rightarrow> Some (Inl e)
           | Inr keys \<Rightarrow> range_rows D S s (key_prefix_width (d_key D) ix) (p @ lo) keys))"

section \<open>Lazy scans\<close>

fun entry_items ::
    "('k, 'r, 's) document \<Rightarrow> 's storage \<Rightarrow> 's \<Rightarrow> nat \<Rightarrow> bytes \<Rightarrow> (bytes \<times> bytes) result list
      \<Rightarrow> ('k prefix_key \<times> 'r option) result option list" where
  "entry_items D S s taken b [] = []"
| "entry_items D S s taken b (Inl e # items) = Some (Inl e) # entry_items D S s taken b items"
| "entry_items D S s taken b (Inr (full, _) # items) =
     (if length full < length b then [None]
      else let rest = drop (length b) full in
        if length rest < taken then entry_items D S s taken b items
        else Some (fetch_hit D S s taken rest) # entry_items D S s taken b items)"

definition entry_iter ::
    "('k, 'r, 's) document \<Rightarrow> 's storage \<Rightarrow> ('k, 'r) kv_index \<Rightarrow> 's \<Rightarrow> bytes \<Rightarrow> bytes option
      \<Rightarrow> ('k prefix_key \<times> 'r option) result option list" where
  "entry_iter D S ix s b e = entry_items D S s (key_prefix_width (d_key D) ix) b (sscan_range_iter S s b e)"

definition coll_scan_range_iter ::
    "('k, 'r, 's) document \<Rightarrow> 's storage \<Rightarrow> ('k, 'r) kv_index \<Rightarrow> 's \<Rightarrow> bytes \<Rightarrow> bytes option
      \<Rightarrow> ('k prefix_key \<times> 'r option) result option list option" where
  "coll_scan_range_iter D S ix s lo hi =
     map_option (\<lambda>p. entry_iter D S ix s (p @ lo) (map_option (\<lambda>e. p @ e) hi)) (entry_prefix ix (header D) [])"

definition scan_prefix_iter ::
    "('k, 'r, 's) document \<Rightarrow> 's storage \<Rightarrow> ('k, 'r) kv_index \<Rightarrow> 's \<Rightarrow> bytes
      \<Rightarrow> ('k prefix_key \<times> 'r option) result option list option" where
  "scan_prefix_iter D S ix s probe =
     map_option (\<lambda>p. let b = p @ probe in entry_iter D S ix s b (prefix_end b)) (entry_prefix ix (header D) [])"

text \<open>\<open>collect::<Result<Vec<_>>>()\<close> on such an iterator.\<close>

fun collect_pulled :: "'x result option list \<Rightarrow> 'x list result option" where
  "collect_pulled [] = Some (Inr [])"
| "collect_pulled (None # items) = None"
| "collect_pulled (Some (Inl e) # items) = Some (Inl e)"
| "collect_pulled (Some (Inr x) # items) = map_option (\<lambda>r. rbind r (\<lambda>xs. Inr (x # xs))) (collect_pulled items)"

section \<open>Covered scans\<close>

text \<open>\<open>decode_covered\<close> of the index is generated code: a parameter.\<close>

definition scan_covered ::
    "('k, 'r, 's) document \<Rightarrow> 's storage \<Rightarrow> ('k, 'r) kv_index \<Rightarrow> (bytes \<Rightarrow> 'c) \<Rightarrow> 's \<Rightarrow> bytes
      \<Rightarrow> ('k prefix_key \<times> 'c) list result option" where
  "scan_covered D S ix decode_covered s encoded =
     (case entry_prefix ix (header D) encoded of
        None \<Rightarrow> None
      | Some p \<Rightarrow>
          let taken = key_prefix_width (d_key D) ix in
          Some (rbind (scan_suffix_kv S s p) (\<lambda>pairs.
            Inr (List.map_filter (\<lambda>(rest, v).
              if length rest < taken then None else Some (tail_hit (d_key D) taken rest, decode_covered v)) pairs))))"

section \<open>Documents and keys\<close>

fun merge_raw :: "(bytes \<times> bytes) list \<Rightarrow> bytes list \<Rightarrow> (bytes \<times> bytes option) list" where
  "merge_raw [] [] = []"
| "merge_raw ((r, v) # rs) [] = (r, Some v) # merge_raw rs []"
| "merge_raw [] (sg # segs) = (sg, None) # merge_raw [] segs"
| "merge_raw ((r, v) # rs) (sg # segs) =
     (if r \<le> sg then (r, Some v) # merge_raw rs (if sg = r then segs else sg # segs)
      else (sg, None) # merge_raw ((r, v) # rs) segs)"

definition scan_documents_raw ::
    "('k, 'r, 's) document \<Rightarrow> 's storage \<Rightarrow> 's \<Rightarrow> (bytes \<times> bytes option) list result" where
  "scan_documents_raw D S s =
     rbind (scan_suffix_kv S s (face_key (header D) PRIMARY_SLOT)) (\<lambda>rs.
     rbind (sscan_suffix S s (face_key (header D) DYNAMIC_SLOT)) (\<lambda>segs. Inr (merge_raw rs segs)))"

text \<open>
  A key probe is the bytes of the leading key fields. A probe longer than a key, which the
  builder does not produce, underflows the remaining width: a panic.
\<close>

definition scan_keys :: "('k, 'r, 's) document \<Rightarrow> 's storage \<Rightarrow> 's \<Rightarrow> bytes \<Rightarrow> 'k result option list" where
  "scan_keys D S s probe =
     (let lo = face_key (header D) PRIMARY_SLOT @ probe; taken = length probe; n = key_len (d_key D) in
      map (\<lambda>item. case item of
          Inl e \<Rightarrow> Some (Inl e)
        | Inr (full, _) \<Rightarrow>
            if n < taken then None
            else if length full \<noteq> length lo + (n - taken)
              then Some (Inl (Corrupt ''a primary entry under a key prefix has another length''))
            else Some (Inr (kdecode (d_key D) (drop (length full - n) full))))
        (sscan_range_iter S s lo (prefix_end lo)))"

definition decode_suffix :: "('k, 'r, 's) document \<Rightarrow> bytes \<Rightarrow> bytes \<Rightarrow> 'k result" where
  "decode_suffix D probe rest =
     (if length probe + length rest \<noteq> key_len (d_key D)
      then Inl (Corrupt ''a document entry under a key prefix has another length'')
      else Inr (kdecode (d_key D) (probe @ rest)))"

fun merge_keys :: "(bytes \<Rightarrow> 'k result) \<Rightarrow> bytes list \<Rightarrow> bytes list \<Rightarrow> 'k list result" where
  "merge_keys dec [] [] = Inr []"
| "merge_keys dec (r # rs) [] = rbind (dec r) (\<lambda>k. rbind (merge_keys dec rs []) (\<lambda>out. Inr (k # out)))"
| "merge_keys dec [] (sg # segs) = rbind (dec sg) (\<lambda>k. rbind (merge_keys dec [] segs) (\<lambda>out. Inr (k # out)))"
| "merge_keys dec (r # rs) (sg # segs) =
     (if r \<le> sg then rbind (dec r) (\<lambda>k.
        rbind (merge_keys dec rs (if sg = r then segs else sg # segs)) (\<lambda>out. Inr (k # out)))
      else rbind (dec sg) (\<lambda>k. rbind (merge_keys dec (r # rs) segs) (\<lambda>out. Inr (k # out))))"

definition scan_document_keys :: "('k, 'r, 's) document \<Rightarrow> 's storage \<Rightarrow> 's \<Rightarrow> bytes \<Rightarrow> 'k list result" where
  "scan_document_keys D S s probe =
     rbind (sscan_suffix S s (face_key (header D) PRIMARY_SLOT @ probe)) (\<lambda>rs.
     rbind (sscan_suffix S s (face_key (header D) DYNAMIC_SLOT @ probe)) (\<lambda>segs.
     merge_keys (decode_suffix D probe) rs segs))"

section \<open>Pruning deprecated slots\<close>

text \<open>\<open>DEPRECATED_SLOTS\<close> is the list argument.\<close>

primrec prune_batch ::
    "('k, 'r, 's) document \<Rightarrow> 's storage \<Rightarrow> 's \<Rightarrow> u16 list \<Rightarrow> batch \<times> nat \<Rightarrow> (batch \<times> nat) result" where
  "prune_batch D S s [] acc = Inr acc"
| "prune_batch D S s (sl # slots) acc =
     (let p = face_key (header D) sl in
      rbind (sscan_suffix S s p) (\<lambda>sfxs.
      prune_batch D S s slots (foldl (\<lambda>(ops, removed) sfx. (batch_del ops (p @ sfx), removed + 1)) acc sfxs)))"

definition prune_deprecated_slots ::
    "('k, 'r, 's) document \<Rightarrow> 's storage \<Rightarrow> u16 list \<Rightarrow> (('k, 'r, 's) collection, nat) io" where
  "prune_deprecated_slots D S slots =
     iobind (ioread (\<lambda>c. prune_batch D S (c_store c) slots ([], 0))) (\<lambda>(ops, removed).
     iobind (if 0 < removed then commit S ops else ioret ()) (\<lambda>_. ioret removed))"

section \<open>Lazy and eager scans agree\<close>

lemma collect_entry_items:
  "collect_pulled (entry_items D S s taken b (map (\<lambda>k. Inr (k, f k)) ks)) = range_rows D S s taken b ks"
  by (induction ks) (simp_all add: Let_def split: sum.split)

lemma range_rows_fetch_back:
  assumes "\<forall>k \<in> set ks. length b \<le> length k" "taken = key_prefix_width (d_key D) ix"
  shows "range_rows D S s taken b ks = Some (fetch_back D S s (List.map_filter (\<lambda>sfx.
      if taken \<le> length sfx then Some (tail_hit (d_key D) taken sfx) else None) (map (drop (length b)) ks)))"
  using assms(1)
proof (induction ks)
  case (Cons full ks)
  let ?sfx = "drop (length b) full"
  let ?pk = "tail_hit (d_key D) taken ?sfx"
  have len: "length b \<le> length full" and IH: "range_rows D S s taken b ks = Some (fetch_back D S s (List.map_filter
      (\<lambda>sfx. if taken \<le> length sfx then Some (tail_hit (d_key D) taken sfx) else None) (map (drop (length b)) ks)))"
    using Cons by simp_all
  have pk: "pk_taken ?pk = taken" by (simp add: tail_hit_def)
  show ?case
  proof (cases "taken \<le> length ?sfx")
    case True
    then show ?thesis
      using len IH pk
      by (cases "if taken = key_len (d_key D) then coll_get D S s (pk_decoded ?pk) else Inr None")
        (simp_all add: fetch_hit_def Let_def linorder_not_less del: length_drop)
  next
    case False
    then show ?thesis using len IH by (simp add: Let_def linorder_not_le del: length_drop)
  qed
qed simp

section \<open>What the scans of a table answer\<close>

context face_document
begin

lemma range_rows_ok:
  assumes "kv_point S ok \<alpha>" "ok s" "\<forall>k \<in> set ks. length b \<le> length k"
  shows "range_rows D S s (key_len (d_key D)) b ks = Some (Inr (map (\<lambda>k.
      let pk = tail_hit (d_key D) (key_len (d_key D)) (drop (length b) k) in (pk, rows D (\<alpha> s) (pk_decoded pk)))
      (filter (\<lambda>k. length b + key_len (d_key D) \<le> length k) ks)))"
  using assms(3)
  by (induction ks) (auto simp: Let_def fetch_hit_def coll_get_rows [OF assms(1,2)])

end

lemma range_prefix: "in_range (p @ lo) (Some (p @ hi)) x \<Longrightarrow> prefix p x"
proof (induction p arbitrary: x)
  case (Cons b p)
  then obtain y where "x = b # y" "in_range (p @ lo) (Some (p @ hi)) y"
    by (cases x) (auto simp: in_range_def)
  then show ?case using Cons.IH by simp
qed simp

lemma range_under: "in_range (p @ lo) (Some (p @ hi)) (p @ x) \<longleftrightarrow> in_range lo (Some hi) x"
  by (induction p) (auto simp: in_range_def)

lemma merge_keys_ok:
  assumes "sorted_wrt (<) rs" "sorted_wrt (<) segs" "\<forall>x \<in> set rs \<union> set segs. dec x = Inr (g x)"
  shows "\<exists>ms. merge_keys dec rs segs = Inr (map g ms) \<and> sorted_wrt (<) ms \<and> set ms = set rs \<union> set segs"
  using assms
proof (induction dec rs segs rule: merge_keys.induct)
  case (2 dec r rs)
  then obtain ms where "merge_keys dec rs [] = Inr (map g ms)" "sorted_wrt (<) ms" "set ms = set rs" by auto
  then show ?case using 2 by (intro exI [of _ "r # ms"]) auto
next
  case (3 dec sg segs)
  then obtain ms where "merge_keys dec [] segs = Inr (map g ms)" "sorted_wrt (<) ms" "set ms = set segs" by auto
  then show ?case using 3 by (intro exI [of _ "sg # ms"]) auto
next
  case (4 dec r rs sg segs)
  show ?case
  proof (cases "r \<le> sg")
    case True
    let ?segs = "if sg = r then segs else sg # segs"
    obtain ms where "merge_keys dec rs ?segs = Inr (map g ms)" "sorted_wrt (<) ms" "set ms = set rs \<union> set ?segs"
    proof -
      have "dec r = Inr (g r)" "sorted_wrt (<) rs" "sorted_wrt (<) ?segs" "\<forall>x \<in> set rs \<union> set ?segs. dec x = Inr (g x)"
        using "4.prems" by (auto split: if_splits)
      from "4.IH"(1) [OF True this] show ?thesis using that by blast
    qed
    then show ?thesis using "4.prems" True by (intro exI [of _ "r # ms"]) (auto split: if_splits)
  next
    case False
    obtain ms where "merge_keys dec (r # rs) segs = Inr (map g ms)" "sorted_wrt (<) ms" "set ms = set (r # rs) \<union> set segs"
      using 4 False by auto
    then show ?thesis using 4 False by (intro exI [of _ "sg # ms"]) auto
  qed
qed simp

text \<open>
  Every lazy scan of a collection, collected, is the eager scan with the same bounds, errors
  and panics included; the lazy prefix scan is \<open>scan\<close>.
\<close>

theorem lazy_scans_agree:
  assumes "kv_scan S ok \<alpha>" "ok s"
  shows "Option.bind (coll_scan_range_iter D S ix s lo hi) collect_pulled = coll_scan_range D S ix s lo hi \<and>
    ((\<forall>p. entry_prefix ix (header D) e = Some p \<longrightarrow> prefix_safe p (\<alpha> s)) \<longrightarrow>
      Option.bind (scan_prefix_iter D S ix s e) collect_pulled = coll_scan D S ix s e)"
proof (intro conjI impI)
  show "Option.bind (coll_scan_range_iter D S ix s lo hi) collect_pulled = coll_scan_range D S ix s lo hi"
    by (simp add: coll_scan_range_iter_def coll_scan_range_def entry_iter_def kv_scan.scan_iter_ok [OF assms]
        kv_scan.scan_range_ok [OF assms] collect_entry_items split: option.split)
  assume safe: "\<forall>p. entry_prefix ix (header D) e = Some p \<longrightarrow> prefix_safe p (\<alpha> s)"
  show "Option.bind (scan_prefix_iter D S ix s e) collect_pulled = coll_scan D S ix s e"
  proof (cases "write_slot (header D) (ix_slot ix)")
    case None
    then show ?thesis
      by (simp add: scan_prefix_iter_def entry_prefix_def coll_scan_def scan_index_def scan_index_filtered_def)
  next
    case (Some p)
    let ?ks = "keys_under (\<alpha> s) (p @ e)"
    have sp: "prefix_safe (p @ e) (\<alpha> s)" using safe Some by (simp add: entry_prefix_def)
    have "\<forall>k \<in> set ?ks. length (p @ e) \<le> length k"
      using kv_scan.finite_dom [OF assms] by (auto simp: keys_under_def dest: prefix_length_le)
    from range_rows_fetch_back [where ix = ix and D = D and S = S and s = s, OF this refl, unfolded tail_hit_def] show ?thesis
      by (simp add: scan_prefix_iter_def coll_scan_def scan_index_def scan_index_filtered_def entry_prefix_def Some Let_def
          entry_iter_def kv_scan.scan_iter_ok [OF assms] prefix_safe_keys [OF sp] collect_entry_items
          kv_scan.scan_suffix_ok [OF assms sp] tail_hit_def)
  qed
qed

theorem lazy_scans_agree_witness:
  "Option.bind (coll_scan_range_iter demo_table mem_storage demo_index [([7, 0x30, 1, 9, 5], [])] [1] (Some [10])) collect_pulled =
     coll_scan_range demo_table mem_storage demo_index [([7, 0x30, 1, 9, 5], [])] [1] (Some [10])"
  using lazy_scans_agree [OF mem_storage_kv_scan, of "[([7, 0x30, 1, 9, 5], [])]" demo_table demo_index "[1]" "Some [10]" "[]"]
  by (simp add: mem_inv_def)

text \<open>
  C19: A bounded range scan over an index of a table with current faces, in which no row the index
  admits has field bytes shorter than the lower bound: it answers exactly the rows whose field
  bytes, followed by the key, lie in the interval, each with its document. (A shorter entry inside
  the interval makes the scan panic or cut the key at the wrong place, hence the condition.)
\<close>

theorem range_scan_answers_rows:
  fixes D :: "('k, 'r, 's) document"
  assumes "table_ok K ixs enc dec" "D = plain_document K ns version ixs enc dec"
    and "(d, ix) \<in> set ixs" "\<not> id_deprecated d"
    and "kv_scan S ok \<alpha>" "ok s" "faces_current D (\<alpha> s)"
    and "\<forall>k r. rows D (\<alpha> s) k = Some r \<longrightarrow> ix_admits ix r \<longrightarrow> length lo \<le> length (fields_bytes ix k r)"
  shows "\<exists>hits. coll_scan_range D S ix s lo (Some hi) = Some (Inr hits) \<and>
    set (map pk_decoded (map fst hits)) = {k. \<exists>r. rows D (\<alpha> s) k = Some r \<and> ix_admits ix r \<and>
      in_range lo (Some hi) (fields_bytes ix k r @ kencode K k)} \<and>
    (\<forall>(pk, doc) \<in> set hits. doc = rows D (\<alpha> s) (pk_decoded pk))"
proof -
  let ?p = "face_key ns (ix_slot ix)"
  let ?lo = "?p @ lo" and ?n = "key_len K"
  let ?keys = "keys_in (\<alpha> s) ?lo (Some (?p @ hi))"
  let ?R = "{k. \<exists>r. rows D (\<alpha> s) k = Some r \<and> ix_admits ix r \<and> in_range lo (Some hi) (fields_bytes ix k r @ kencode K k)}"
  let ?dec = "\<lambda>x. pk_decoded (tail_hit K ?n (drop (length ?lo) x))"
  have D: "face_document D" and K: "d_key D = K" "header D = ns"
    using plain_document_laws [OF assms(1)] assms(2) by (simp_all add: plain_document_def header_def)
  have ixp: "4096 \<le> unat (ix_slot ix)" "ix_key_prefix ix = []" using assms(1,3) by (auto simp: table_ok_def)
  then have w: "key_prefix_width K ix = ?n" and p: "entry_prefix ix (header D) [] = Some ?p"
    by (simp_all add: key_prefix_width_def entry_prefix_def face_key_write_slot slot_valid_def K)
  have codec: "kdecode K (kencode K k) = k" "length (kencode K k) = ?n" for k
    using assms(1) by (simp_all add: table_ok_def)
  note region = index_region [OF assms(1-4) assms(7)]
  have keys: "set ?keys = {?p @ fields_bytes ix k r @ kencode K k | k r. rows D (\<alpha> s) k = Some r \<and> ix_admits ix r \<and>
      in_range lo (Some hi) (fields_bytes ix k r @ kencode K k)}"
  proof -
    have "set ?keys = {x. \<exists>v. \<alpha> s x = Some v \<and> in_range ?lo (Some (?p @ hi)) x}"
      using kv_scan.finite_dom [OF assms(5,6)] by (auto simp: keys_in_def)
    also have "\<dots> = {?p @ fields_bytes ix k r @ kencode K k | k r. rows D (\<alpha> s) k = Some r \<and> ix_admits ix r \<and>
        in_range ?lo (Some (?p @ hi)) (?p @ fields_bytes ix k r @ kencode K k)}"
    proof (intro set_eqI iffI)
      fix x
      assume "x \<in> {x. \<exists>v. \<alpha> s x = Some v \<and> in_range ?lo (Some (?p @ hi)) x}"
      then obtain v where "\<alpha> s x = Some v" "in_range ?lo (Some (?p @ hi)) x" by blast
      then show "x \<in> {?p @ fields_bytes ix k r @ kencode K k | k r. rows D (\<alpha> s) k = Some r \<and> ix_admits ix r \<and>
          in_range ?lo (Some (?p @ hi)) (?p @ fields_bytes ix k r @ kencode K k)}"
        using region [OF range_prefix] by blast
    next
      fix x
      assume "x \<in> {?p @ fields_bytes ix k r @ kencode K k | k r. rows D (\<alpha> s) k = Some r \<and> ix_admits ix r \<and>
          in_range ?lo (Some (?p @ hi)) (?p @ fields_bytes ix k r @ kencode K k)}"
      then obtain k r where x: "x = ?p @ fields_bytes ix k r @ kencode K k" "rows D (\<alpha> s) k = Some r" "ix_admits ix r"
        "in_range ?lo (Some (?p @ hi)) x" by blast
      then have "\<alpha> s x = Some (entry_value ix k r)" using region [of x "entry_value ix k r"] by auto
      then show "x \<in> {x. \<exists>v. \<alpha> s x = Some v \<and> in_range ?lo (Some (?p @ hi)) x}" using x(4) by blast
    qed
    finally show ?thesis by (simp only: range_under)
  qed
  have reach: "length ?lo + ?n \<le> length x" if "x \<in> set ?keys" for x
    using that assms(8) codec(2) unfolding keys by fastforce
  have short: "\<forall>x \<in> set ?keys. length ?lo \<le> length x" using reach by fastforce
  have all: "filter (\<lambda>x. length ?lo + ?n \<le> length x) ?keys = ?keys" using reach by (simp add: filter_id_conv)
  let ?hits = "map (\<lambda>x. (tail_hit K ?n (drop (length ?lo) x), rows D (\<alpha> s) (?dec x))) ?keys"
  have "range_rows D S s ?n ?lo ?keys = Some (Inr ?hits)"
    using face_document.range_rows_ok [OF D kv_scan.axioms(1) [OF assms(5)] assms(6) short] by (simp only: K all Let_def)
  then have "coll_scan_range D S ix s lo (Some hi) = Some (Inr ?hits)"
    by (simp add: coll_scan_range_def p [unfolded K] kv_scan.scan_range_ok [OF assms(5,6)] K w)
  moreover have "?dec (?p @ fields_bytes ix k r @ kencode K k) = k" if "length lo \<le> length (fields_bytes ix k r)" for k r
    using that codec by (simp add: tail_hit_def decode_tail_def)
  then have "?dec ` set ?keys = ?R" unfolding keys using assms(8) by (force simp: image_iff)
  then have "set (map pk_decoded (map fst ?hits)) = ?R" by (simp add: image_image)
  ultimately show ?thesis by (intro exI [of _ ?hits]) auto
qed

theorem range_scan_answers_rows_witness:
  "\<exists>s hits. rows demo_table (map_of s) = [5 \<mapsto> [1, 2]] \<and>
     coll_scan_range demo_table mem_storage demo_index s [1] (Some [1, 3]) = Some (Inr hits) \<and>
     set (map pk_decoded (map fst hits)) = {5} \<and> hits \<noteq> [] \<and> (\<forall>(pk, doc) \<in> set hits. doc = Some [1, 2])"
proof -
  obtain s where s: "mem_inv s" "rows demo_table (map_of s) = [5 \<mapsto> [1, 2]]" "faces_current demo_table (map_of s)"
    using demo_row by blast
  have bytes: "fields_bytes demo_index 5 [1, 2] = [1, 2]" "ix_admits demo_index [1, 2]" "kencode demo_key 5 = [5]"
    by (simp_all add: demo_index_def fields_bytes_def demo_key_def)
  have hit: "{k. \<exists>r. rows demo_table (map_of s) k = Some r \<and> ix_admits demo_index r \<and>
      in_range [1] (Some [1, 3]) (fields_bytes demo_index k r @ kencode demo_key k)} = {5}"
    using bytes by (auto simp: s(2) in_range_def split: if_splits)
  have long: "\<forall>k r. rows demo_table (map_of s) k = Some r \<longrightarrow> ix_admits demo_index r \<longrightarrow>
      length [1 :: byte] \<le> length (fields_bytes demo_index k r)"
    using bytes(1) by (auto simp: s(2) split: if_splits)
  have mem: "(demo_decl, demo_index) \<in> set [(demo_decl, demo_index)]" "\<not> id_deprecated demo_decl" by (simp_all add: demo_decl_def)
  obtain hits where h: "coll_scan_range demo_table mem_storage demo_index s [1] (Some [1, 3]) = Some (Inr hits)"
    "set (map pk_decoded (map fst hits)) = {5}" "\<forall>(pk, doc) \<in> set hits. doc = rows demo_table (map_of s) (pk_decoded pk)"
    using range_scan_answers_rows [OF demo_table_ok demo_table_def mem mem_storage_kv_scan s(1,3) long, of "[1, 3]"] unfolding hit by blast
  then have "hits \<noteq> []" "pk_decoded pk = 5" if "(pk, doc) \<in> set hits" for pk doc using that by force+
  then show ?thesis using h s(2) by (intro exI [of _ s] exI [of _ hits]) (auto simp del: set_map)
qed

text \<open>
  A range scan without an upper bound does not stop at the end of its index: any longer key
  behind the lower bound, of another index, table or namespace, is answered as a hit of this
  one. And an entry in the interval that is shorter than the lower bound makes it panic.
\<close>

theorem open_range_escapes:
  assumes "face_document D" "kv_scan S ok \<alpha>" "ok s" "entry_prefix ix (header D) [] = Some p"
    and "key_prefix_width (d_key D) ix = key_len (d_key D)"
    and "x \<in> dom (\<alpha> s)" "p @ lo \<le> x"
  shows "((\<forall>y \<in> dom (\<alpha> s). p @ lo \<le> y \<longrightarrow> length (p @ lo) + key_len (d_key D) \<le> length y) \<longrightarrow>
      (\<exists>hits. coll_scan_range D S ix s lo None = Some (Inr hits) \<and>
        tail_hit (d_key D) (key_len (d_key D)) (drop (length (p @ lo)) x) \<in> fst ` set hits)) \<and>
    (length x < length (p @ lo) \<longrightarrow> coll_scan_range D S ix s lo None = None)"
proof (intro conjI impI)
  let ?keys = "keys_in (\<alpha> s) (p @ lo) None"
  have keys: "set ?keys = {y \<in> dom (\<alpha> s). p @ lo \<le> y}"
    using kv_scan.finite_dom [OF assms(2,3)] by (simp add: keys_in_def in_range_def)
  have run: "coll_scan_range D S ix s lo None = range_rows D S s (key_len (d_key D)) (p @ lo) ?keys"
    by (simp add: coll_scan_range_def assms(4,5) kv_scan.scan_range_ok [OF assms(2,3)])
  {
    assume long: "\<forall>y \<in> dom (\<alpha> s). p @ lo \<le> y \<longrightarrow> length (p @ lo) + key_len (d_key D) \<le> length y"
    then have "\<forall>y \<in> set ?keys. length (p @ lo) \<le> length y" unfolding keys by fastforce
    from face_document.range_rows_ok [OF assms(1) kv_scan.axioms(1) [OF assms(2)] assms(3) this]
    show "\<exists>hits. coll_scan_range D S ix s lo None = Some (Inr hits) \<and>
        tail_hit (d_key D) (key_len (d_key D)) (drop (length (p @ lo)) x) \<in> fst ` set hits"
      using assms(6,7) long keys unfolding run by (simp add: image_image Let_def)
  next
    assume short: "length x < length (p @ lo)"
    have "range_rows D S s n b ks = None" if "x \<in> set ks" "length x < length b" for n b ks
      using that
    proof (induction ks)
      case (Cons k ks)
      then show ?case
        using face_document.coll_get_rows [OF assms(1) kv_scan.axioms(1) [OF assms(2)] assms(3)]
        by (auto simp: Let_def fetch_hit_def)
    qed simp
    then show "coll_scan_range D S ix s lo None = None"
      unfolding run using short keys assms(6,7) by blast
  }
qed

theorem open_range_escapes_witness:
  "\<exists>hits. coll_scan_range demo_table mem_storage demo_index [([9, 0, 5, 6], [])] [] None = Some (Inr hits) \<and> hits \<noteq> []"
proof -
  have h: "header demo_table = [7]" by (simp add: header_def demo_table_def plain_document_def)
  have p: "entry_prefix demo_index (header demo_table) [] = Some [7, 0x30, 1]"
    by (simp add: h entry_prefix_def write_slot_image slot_valid_def demo_index_def slot_image_def be_bytes_2)
  have w: "key_prefix_width (d_key demo_table) demo_index = key_len (d_key demo_table)"
    by (simp add: key_prefix_width_def demo_index_def demo_table_def plain_document_def)
  have "key_len (d_key demo_table) = 1" by (simp add: demo_table_def plain_document_def demo_key_def)
  then have "\<forall>y \<in> dom (map_of [([9, 0, 5, 6], [])]). [7, 0x30, 1] @ [] \<le> y \<longrightarrow>
      length ([7, 0x30, 1 :: byte] @ []) + key_len (d_key demo_table) \<le> length y" by simp
  moreover have "mem_inv [([9, 0, 5, 6], [])]" "[9, 0, 5, 6] \<in> dom (map_of [([9, 0, 5, 6 :: byte], [] :: bytes)])"
    "[7, 0x30, 1] @ [] \<le> [9, 0, 5, 6 :: byte]" by (simp_all add: mem_inv_def)
  ultimately obtain hits where hits: "coll_scan_range demo_table mem_storage demo_index [([9, 0, 5, 6], [])] [] None = Some (Inr hits)"
    "tail_hit (d_key demo_table) (key_len (d_key demo_table)) (drop (length ([7, 0x30, 1 :: byte] @ [])) [9, 0, 5, 6]) \<in> fst ` set hits"
    using open_range_escapes [OF demo_laws mem_storage_kv_scan _ p w, of "[([9, 0, 5, 6], [])]" "[9, 0, 5, 6]" "[]"] by blast
  then show ?thesis by (intro exI [of _ hits]) auto
qed

section \<open>Keys of documents\<close>

definition doc_keys :: "('k, 'r, 's) document \<Rightarrow> (bytes \<rightharpoonup> bytes) \<Rightarrow> bytes \<Rightarrow> 'k set" where
  "doc_keys D m probe =
     {k. prefix probe (kencode (d_key D) k) \<and> (m (primary_key D k) \<noteq> None \<or> m (fields_key D k) \<noteq> None)}"

definition family_of_keys :: "('k, 'r, 's) document \<Rightarrow> (bytes \<rightharpoonup> bytes) \<Rightarrow> u16 \<Rightarrow> bool" where
  "family_of_keys D m sl \<longleftrightarrow>
     (\<forall>x \<in> dom m. prefix (face_key (header D) sl) x \<longrightarrow> (\<exists>k. x = face_key (header D) sl @ kencode (d_key D) k))"

context kv_scan
begin

lemma suffixes_sorted:
  assumes "ok s"
  shows "sorted_wrt (<) (map (drop (length p)) (keys_under (\<alpha> s) p))"
    and "set (map (drop (length p)) (keys_under (\<alpha> s) p)) = {y. \<alpha> s (p @ y) \<noteq> None}"
proof -
  have set: "set (keys_under (\<alpha> s) p) = {k \<in> dom (\<alpha> s). prefix p k}"
    using finite_dom [OF assms] by (simp add: keys_under_def)
  have "sorted_wrt (<) (keys_under (\<alpha> s) p)" by (simp add: keys_under_def)
  then show "sorted_wrt (<) (map (drop (length p)) (keys_under (\<alpha> s) p))"
    unfolding sorted_wrt_map
  proof (rule sorted_wrt_mono_rel [rotated])
    fix x y assume "x \<in> set (keys_under (\<alpha> s) p)" "y \<in> set (keys_under (\<alpha> s) p)" "x < y"
    then obtain x' y' where "x = p @ x'" "y = p @ y'" unfolding set by (auto simp: prefix_def)
    moreover have "p @ x' < p @ y' \<longleftrightarrow> x' < y'" by (induction p) simp_all
    ultimately show "drop (length p) x < drop (length p) y" using \<open>x < y\<close> by simp
  qed
  show "set (map (drop (length p)) (keys_under (\<alpha> s) p)) = {y. \<alpha> s (p @ y) \<noteq> None}"
    unfolding set_map set by (force simp: prefix_def image_iff)
qed

end

text \<open>
  C18: The key scan of the whole-document mode answers every document under the probe once, in
  the order of the encoded keys, rows and documents that are only a dynamic segment alike.
\<close>

theorem document_keys_exact:
  assumes "face_document D" "kv_scan S ok \<alpha>" "ok s"
    and "family_of_keys D (\<alpha> s) PRIMARY_SLOT" "family_of_keys D (\<alpha> s) DYNAMIC_SLOT"
    and "\<forall>sl \<in> {PRIMARY_SLOT, DYNAMIC_SLOT}. prefix_safe (face_key (header D) sl @ probe) (\<alpha> s)"
  shows "\<exists>ks. scan_document_keys D S s probe = Inr ks \<and> set ks = doc_keys D (\<alpha> s) probe \<and>
    sorted_wrt (<) (map (kencode (d_key D)) ks)"
proof -
  let ?sfx = "\<lambda>sl. map (drop (length (face_key (header D) sl @ probe))) (keys_under (\<alpha> s) (face_key (header D) sl @ probe))"
  let ?dec = "\<lambda>y. kdecode (d_key D) (probe @ y)"
  note D = assms(1)
  have keys: "\<exists>k. probe @ y = kencode (d_key D) k"
    if "y \<in> set (?sfx sl)" "sl \<in> {PRIMARY_SLOT, DYNAMIC_SLOT}" for y sl
  proof -
    have "\<alpha> s (face_key (header D) sl @ probe @ y) \<noteq> None"
      using that(1) unfolding kv_scan.suffixes_sorted(2) [OF assms(2,3)] by simp
    moreover have "family_of_keys D (\<alpha> s) sl" using that(2) assms(4,5) by auto
    ultimately have "\<exists>k. face_key (header D) sl @ probe @ y = face_key (header D) sl @ kencode (d_key D) k"
      unfolding family_of_keys_def by (metis domIff prefixI)
    then show ?thesis by simp
  qed
  have dec: "\<forall>y \<in> set (?sfx PRIMARY_SLOT) \<union> set (?sfx DYNAMIC_SLOT). decode_suffix D probe y = Inr (?dec y)"
  proof
    fix y assume "y \<in> set (?sfx PRIMARY_SLOT) \<union> set (?sfx DYNAMIC_SLOT)"
    then obtain k where "probe @ y = kencode (d_key D) k" using keys by blast
    then have "length probe + length y = key_len (d_key D)"
      using face_document.key_width [OF D, of k] by (metis length_append)
    then show "decode_suffix D probe y = Inr (?dec y)" by (simp add: decode_suffix_def)
  qed
  obtain ms where ms: "merge_keys (decode_suffix D probe) (?sfx PRIMARY_SLOT) (?sfx DYNAMIC_SLOT) = Inr (map ?dec ms)"
    "sorted_wrt (<) ms" "set ms = set (?sfx PRIMARY_SLOT) \<union> set (?sfx DYNAMIC_SLOT)"
    using merge_keys_ok [OF kv_scan.suffixes_sorted(1) [OF assms(2,3)] kv_scan.suffixes_sorted(1) [OF assms(2,3)] dec] by blast
  have run: "scan_document_keys D S s probe = Inr (map ?dec ms)"
    using ms(1) assms(6) by (simp add: scan_document_keys_def kv_scan.scan_suffix_ok [OF assms(2,3)])
  have enc: "kencode (d_key D) (?dec y) = probe @ y" if "y \<in> set ms" for y
    using that keys [of y] face_document.key_codec [OF D] unfolding ms(3) by fastforce
  have img: "map (kencode (d_key D)) (map ?dec ms) = map (\<lambda>y. probe @ y) ms" using enc by simp
  have "sorted_wrt (<) (map (\<lambda>y. probe @ y) ms)"
  proof -
    have "probe @ x < probe @ y \<longleftrightarrow> x < y" for x y by (induction probe) simp_all
    then show ?thesis using ms(2) by (simp add: sorted_wrt_map)
  qed
  moreover have "set (map ?dec ms) = doc_keys D (\<alpha> s) probe"
  proof (intro set_eqI iffI)
    fix k assume "k \<in> set (map ?dec ms)"
    then obtain y where y: "y \<in> set ms" "k = ?dec y" by auto
    have "kencode (d_key D) k = probe @ y" using enc [OF y(1)] y(2) by simp
    then show "k \<in> doc_keys D (\<alpha> s) probe"
      using y(1) unfolding ms(3) kv_scan.suffixes_sorted(2) [OF assms(2,3)]
      by (auto simp: doc_keys_def primary_key_def fields_key_def)
  next
    fix k assume k: "k \<in> doc_keys D (\<alpha> s) probe"
    then obtain y where y: "kencode (d_key D) k = probe @ y" by (auto simp: doc_keys_def prefix_def)
    then have "y \<in> set ms" using k unfolding ms(3) kv_scan.suffixes_sorted(2) [OF assms(2,3)]
      by (auto simp: doc_keys_def primary_key_def fields_key_def)
    moreover have "k = ?dec y" using face_document.key_codec [OF D, of k] y by simp
    ultimately show "k \<in> set (map ?dec ms)" by auto
  qed
  ultimately show ?thesis using run unfolding img [symmetric] by (intro exI conjI)
qed

theorem document_keys_exact_witness:
  "\<exists>ks. scan_document_keys demo_table mem_storage [([7, 0, 5], [1]), ([7, 1, 6], [])] [] = Inr ks \<and> set ks = {5, 6}"
proof -
  let ?s = "[([7, 0, 5], [1]), ([7, 1, 6], [])] :: mem"
  have h: "header demo_table = [7]" by (simp add: header_def demo_table_def plain_document_def)
  have K: "d_key demo_table = demo_key" by (simp add: demo_table_def plain_document_def)
  have imgs: "face_key [7] PRIMARY_SLOT = [7, 0]" "face_key [7] DYNAMIC_SLOT = [7, 1]"
    by (simp_all add: face_key_def slot_image_def slot_consts)
  have "family_of_keys demo_table (map_of ?s) PRIMARY_SLOT" "family_of_keys demo_table (map_of ?s) DYNAMIC_SLOT"
    by (auto simp: family_of_keys_def h K imgs demo_key_def)
  moreover have "\<forall>sl \<in> {PRIMARY_SLOT, DYNAMIC_SLOT}. prefix_safe (face_key (header demo_table) sl @ []) (map_of ?s)"
    by (simp add: prefix_safe_def h imgs prefix_end_def in_range_def)
  moreover have "mem_inv ?s" by (simp add: mem_inv_def)
  moreover have "doc_keys demo_table (map_of ?s) [] = {5, 6}"
    unfolding doc_keys_def primary_key_def fields_key_def h imgs K by (auto simp: demo_key_def)
  ultimately show ?thesis
    using document_keys_exact [OF demo_laws mem_storage_kv_scan, of ?s "[]"] by metis
qed

section \<open>Pruning\<close>

lemma distinct_concat_map:
  "distinct xs \<Longrightarrow> \<forall>x \<in> set xs. distinct (f x) \<Longrightarrow>
     \<forall>x \<in> set xs. \<forall>y \<in> set xs. x \<noteq> y \<longrightarrow> set (f x) \<inter> set (f y) = {} \<Longrightarrow> distinct (concat (map f xs))"
  by (induction xs) auto

lemma prune_fold: "foldl (\<lambda>(ops, removed) sfx. (batch_del ops (p @ sfx), removed + 1)) (ops, n) sfxs =
    (ops @ dels (map (\<lambda>sfx. p @ sfx) sfxs), n + length sfxs)"
  by (induction sfxs arbitrary: ops n) (simp_all add: batch_del_def dels_def)

lemma prune_batch_run:
  assumes "kv_scan S ok \<alpha>" "ok s" "\<forall>sl \<in> set slots. prefix_safe (face_key (header D) sl) (\<alpha> s)"
  shows "prune_batch D S s slots (ops, n) = Inr
    (ops @ dels (concat (map (\<lambda>sl. keys_under (\<alpha> s) (face_key (header D) sl)) slots)),
     n + length (concat (map (\<lambda>sl. keys_under (\<alpha> s) (face_key (header D) sl)) slots)))"
  using assms(3)
proof (induction slots arbitrary: ops n)
  case (Cons sl slots)
  let ?p = "face_key (header D) sl"
  have "set (keys_under (\<alpha> s) ?p) = {k \<in> dom (\<alpha> s). prefix ?p k}"
    using kv_scan.finite_dom [OF assms(1,2)] by (simp add: keys_under_def)
  then have "map (\<lambda>sfx. ?p @ sfx) (map (drop (length ?p)) (keys_under (\<alpha> s) ?p)) = keys_under (\<alpha> s) ?p"
    by (auto simp: prefix_def intro!: map_idI)
  then have "prune_batch D S s (sl # slots) (ops, n) =
      prune_batch D S s slots (ops @ dels (keys_under (\<alpha> s) ?p), n + length (keys_under (\<alpha> s) ?p))"
    using Cons.prems by (simp only: prune_batch.simps Let_def kv_scan.scan_suffix_ok [OF assms(1,2)] rbind_simps
        prune_fold length_map list.set ball_simps)
  then show ?case using Cons by (simp add: dels_def)
qed (simp add: dels_def)

text \<open>
  Pruning removes exactly the keys under the deprecated slots, in one commit, answers their
  number when the slots are distinct, and a second call removes nothing and commits nothing.
\<close>

theorem prune_removes_exactly:
  fixes c :: "('k, 'r, 's) collection"
  assumes "kv_scan S ok \<alpha>" "ok (c_store c)" "distinct slots" "\<forall>sl \<in> set slots. slot_valid sl"
    and "\<forall>sl \<in> set slots. prefix_safe (face_key (header D) sl) (\<alpha> (c_store c))"
  defines "stale \<equiv> {x \<in> dom (\<alpha> (c_store c)). \<exists>sl \<in> set slots. prefix (face_key (header D) sl) x}"
  shows "\<exists>c'. prune_deprecated_slots D S slots c = (Inr (card stale), c') \<and> ok (c_store c') \<and>
    (\<forall>x. \<alpha> (c_store c') x = (if x \<in> stale then None else \<alpha> (c_store c) x)) \<and>
    c_epoch c' = c_epoch c + (if stale = {} then 0 else 1) \<and>
    prune_deprecated_slots D S slots c' = (Inr 0, c')"
proof -
  let ?m = "\<alpha> (c_store c)"
  let ?ks = "\<lambda>m. concat (map (\<lambda>sl. keys_under m (face_key (header D) sl)) slots)"
  have under: "set (keys_under m (face_key (header D) sl)) = {k \<in> dom m. prefix (face_key (header D) sl) k}"
    if "finite (dom m)" for m sl using that by (simp add: keys_under_def)
  have fin: "finite (dom ?m)" by (rule kv_scan.finite_dom [OF assms(1,2)])
  have set: "set (?ks ?m) = stale" using under [OF fin] by (auto simp: stale_def)
  have "distinct (?ks ?m)"
  proof (rule distinct_concat_map [OF assms(3)])
    show "\<forall>sl \<in> set slots. distinct (keys_under ?m (face_key (header D) sl))" by (simp add: keys_under_def)
    have "a = b" if ab: "a \<in> set slots" "b \<in> set slots" "x \<in> set (keys_under ?m (face_key (header D) a))"
      "x \<in> set (keys_under ?m (face_key (header D) b))" for a b x
    proof -
      obtain y z where "face_key (header D) a @ y = x" "face_key (header D) b @ z = x"
        using ab(3,4) under [OF fin] by (auto simp: prefix_def)
      then show ?thesis using face_key_disjoint assms(4) ab(1,2) by metis
    qed
    then show "\<forall>a \<in> set slots. \<forall>b \<in> set slots. a \<noteq> b \<longrightarrow>
        set (keys_under ?m (face_key (header D) a)) \<inter> set (keys_under ?m (face_key (header D) b)) = {}" by blast
  qed
  then have n: "length (?ks ?m) = card stale" using distinct_card set by metis
  have run: "prune_batch D S (c_store c) slots ([], 0) = Inr (dels (?ks ?m), card stale)"
    using prune_batch_run [OF assms(1,2,5), of "[]" 0] n by simp
  have idle: "prune_deprecated_slots D S slots c0 = (Inr 0, c0)"
    if "ok (c_store c0)" "\<alpha> (c_store c0) \<subseteq>\<^sub>m ?m" "\<forall>sl \<in> set slots. \<forall>x \<in> dom (\<alpha> (c_store c0)). \<not> prefix (face_key (header D) sl) x"
    for c0 :: "('k, 'r, 's) collection"
  proof -
    have "\<forall>sl \<in> set slots. prefix_safe (face_key (header D) sl) (\<alpha> (c_store c0))"
      using assms(5) kv_scan.prefix_safe_mono [OF assms(1) that(2)] by blast
    moreover have "set (?ks (\<alpha> (c_store c0))) = {}"
      using that(3) under [OF kv_scan.finite_dom [OF assms(1) that(1)]] by auto
    then have "?ks (\<alpha> (c_store c0)) = []" by (simp only: set_empty)
    ultimately show ?thesis
      using prune_batch_run [OF assms(1) that(1), of slots D "[]" 0]
      by (simp add: prune_deprecated_slots_def iobind_def dels_def del: concat_eq_Nil_conv)
  qed
  show ?thesis
  proof (cases "stale = {}")
    case True
    then have "\<forall>sl \<in> set slots. \<forall>x \<in> dom (\<alpha> (c_store c)). \<not> prefix (face_key (header D) sl) x"
      by (auto simp: stale_def)
    then have "prune_deprecated_slots D S slots c = (Inr 0, c)" by (rule idle [OF assms(2) map_le_refl])
    then show ?thesis using True assms(2) by simp
  next
    case False
    moreover have "finite stale" using fin by (simp add: stale_def)
    ultimately have pos: "0 < card stale" by (simp add: card_gt_0_iff)
    obtain s' where s': "scommit_batch S (dels (?ks ?m)) (c_store c) = (Inr (), s')" "ok s'"
      "\<alpha> s' = apply_ops (dels (?ks ?m)) ?m"
      using kv_point.commit_ok [OF kv_scan.axioms(1) [OF assms(1)] assms(2)] by blast
    let ?c = "c\<lparr> c_store := s', c_epoch := c_epoch c + 1 \<rparr>"
    have m': "\<alpha> s' x = (if x \<in> stale then None else ?m x)" for x by (simp only: s'(3) apply_dels set)
    have "prune_deprecated_slots D S slots c = (Inr (card stale), ?c)"
      using run s'(1) pos by (simp add: prune_deprecated_slots_def iobind_def commit_def)
    moreover have "prune_deprecated_slots D S slots ?c = (Inr 0, ?c)"
      by (rule idle) (auto simp: s'(2) m' map_le_def stale_def dom_def split: if_splits)
    ultimately show ?thesis using s'(2) m' False by (intro exI [of _ ?c]) simp
  qed
qed

theorem prune_removes_exactly_witness:
  "\<exists>c'. prune_deprecated_slots demo_table mem_storage [0x3002]
      (collection_new [([7, 0x30, 2, 1, 5], []), ([7, 0, 5], [1])]) = (Inr 1, c') \<and> map_of (c_store c') [7, 0, 5] = Some [1]"
proof -
  let ?s = "[([7, 0x30, 2, 1, 5], []), ([7, 0, 5], [1])] :: mem"
  let ?c = "collection_new ?s :: (byte, bytes, mem) collection"
  have h: "header demo_table = [7]" by (simp add: header_def demo_table_def plain_document_def)
  have img: "face_key [7] 0x3002 = [7, 0x30, 2]" by (simp add: face_key_def slot_image_def be_bytes_2)
  have c: "c_store ?c = ?s" by (simp add: collection_new_def)
  have safe: "\<forall>sl \<in> set [0x3002]. prefix_safe (face_key (header demo_table) sl) (map_of (c_store ?c))"
    by (simp add: prefix_safe_def h c img prefix_end_def in_range_def)
  have stale: "{x \<in> dom (map_of (c_store ?c)). \<exists>sl \<in> set [0x3002]. prefix (face_key (header demo_table) sl) x} = {[7, 0x30, 2, 1, 5]}"
    by (auto simp: h c img)
  obtain c' where "prune_deprecated_slots demo_table mem_storage [0x3002] ?c = (Inr (card {[7, 0x30, 2, 1, 5 :: byte]}), c')"
    "\<forall>x. map_of (c_store c') x = (if x \<in> {[7, 0x30, 2, 1, 5]} then None else map_of (c_store ?c) x)"
    using prune_removes_exactly [OF mem_storage_kv_scan _ _ _ safe, unfolded stale]
    by (auto simp: c mem_inv_def slot_valid_def)
  then show ?thesis by (intro exI [of _ c']) (simp add: c)
qed

section \<open>Raw documents and covered scans\<close>

text \<open>The raw documents are those of the key scan, in the same order.\<close>

lemma merge_raw_keys: "merge_keys Inr (map fst rs) segs = Inr (map fst (merge_raw rs segs))"
  by (induction rs segs rule: merge_raw.induct) auto

lemma raw_documents_keys:
  assumes "kv_scan S ok \<alpha>" "ok s"
    and "\<forall>sl \<in> {PRIMARY_SLOT, DYNAMIC_SLOT}. prefix_safe (face_key (header D) sl) (\<alpha> s)"
  shows "\<exists>docs. scan_documents_raw D S s = Inr docs \<and> sorted_wrt (<) (map fst docs) \<and>
    set (map fst docs) = {y. \<exists>sl \<in> {PRIMARY_SLOT, DYNAMIC_SLOT}. \<alpha> s (face_key (header D) sl @ y) \<noteq> None}"
proof -
  let ?p = "face_key (header D) PRIMARY_SLOT" and ?q = "face_key (header D) DYNAMIC_SLOT"
  let ?rs = "map (\<lambda>k. (drop (length ?p) k, the (\<alpha> s k))) (keys_under (\<alpha> s) ?p)"
  let ?segs = "map (drop (length ?q)) (keys_under (\<alpha> s) ?q)"
  have fst: "map fst ?rs = map (drop (length ?p)) (keys_under (\<alpha> s) ?p)" by simp
  have run: "scan_documents_raw D S s = Inr (merge_raw ?rs ?segs)"
    using assms(3) by (simp add: scan_documents_raw_def kv_scan.suffix_kv_ok [OF assms(1,2)] kv_scan.scan_suffix_ok [OF assms(1,2)])
  have all: "\<forall>x \<in> set (map fst ?rs) \<union> set ?segs. Inr x = Inr (id x)" by simp
  obtain ms where ms: "merge_keys Inr (map fst ?rs) ?segs = Inr (map id ms)" "sorted_wrt (<) ms"
    "set ms = set (map fst ?rs) \<union> set ?segs"
    using merge_keys_ok [OF _ kv_scan.suffixes_sorted(1) [OF assms(1,2)] all] kv_scan.suffixes_sorted(1) [OF assms(1,2)]
    unfolding fst by blast
  have keys: "map fst (merge_raw ?rs ?segs) = ms" using ms(1) merge_raw_keys [of ?rs ?segs] by simp
  have "set ms = {y. \<exists>sl \<in> {PRIMARY_SLOT, DYNAMIC_SLOT}. \<alpha> s (face_key (header D) sl @ y) \<noteq> None}"
    unfolding ms(3) fst kv_scan.suffixes_sorted(2) [OF assms(1,2)] by blast
  then show ?thesis using run ms(2) unfolding keys [symmetric] by (intro exI conjI)
qed

lemma covered_scan_rows:
  fixes D :: "('k, 'r, 's) document"
  assumes "table_ok K ixs enc dec" "D = plain_document K ns version ixs enc dec"
    and "(d, ix) \<in> set ixs" "\<not> id_deprecated d"
    and "kv_scan S ok \<alpha>" "ok s" "faces_current D (\<alpha> s)" "prefix_safe (face_key ns (ix_slot ix) @ e) (\<alpha> s)"
  shows "\<exists>hits. scan_covered D S ix decode_covered s e = Some (Inr hits) \<and>
    set (map (\<lambda>(pk, v). (pk_decoded pk, v)) hits) = {(k, decode_covered (entry_value ix k r)) | k r.
      rows D (\<alpha> s) k = Some r \<and> ix_admits ix r \<and> prefix e (fields_bytes ix k r)}"
proof -
  let ?h = "face_key ns (ix_slot ix)" and ?n = "key_len K"
  let ?p = "?h @ e"
  let ?f = "\<lambda>(sfx, v). if length sfx < ?n then None else Some (tail_hit K ?n sfx, decode_covered v)"
  have K: "d_key D = K" "header D = ns" using assms(2) by (simp_all add: plain_document_def header_def)
  have ixp: "4096 \<le> unat (ix_slot ix)" "ix_key_prefix ix = []" using assms(1,3) by (auto simp: table_ok_def)
  then have w: "key_prefix_width K ix = ?n" and p: "entry_prefix ix (header D) e = Some ?p"
    by (simp_all add: key_prefix_width_def entry_prefix_def face_key_write_slot slot_valid_def K)
  have codec: "kdecode K (kencode K k) = k" "length (kencode K k) = ?n" for k
    using assms(1) by (simp_all add: table_ok_def)
  note region = index_region [OF assms(1-4) assms(7)]
  let ?pairs = "map (\<lambda>k. (drop (length ?p) k, the (\<alpha> s k))) (keys_under (\<alpha> s) ?p)"
  have run: "scan_covered D S ix decode_covered s e = Some (Inr (List.map_filter ?f ?pairs))"
    unfolding scan_covered_def K w p [unfolded K] by (simp add: Let_def kv_scan.suffix_kv_ok [OF assms(5,6,8)])
  have pairs: "set ?pairs = {(sfx, v). \<alpha> s (?p @ sfx) = Some v}"
    using kv_scan.finite_dom [OF assms(5,6)] by (force simp: keys_under_def prefix_def image_iff)
  have stored: "\<alpha> s (?p @ sfx) = Some v \<longleftrightarrow> (\<exists>k r. rows D (\<alpha> s) k = Some r \<and> ix_admits ix r \<and>
      e @ sfx = fields_bytes ix k r @ kencode K k \<and> v = entry_value ix k r)" for sfx v
    using region [of "?p @ sfx" v] by simp
  have hit: "(if length sfx < ?n then \<not> prefix e (fields_bytes ix k r)
      else prefix e (fields_bytes ix k r) \<and> pk_decoded (tail_hit K ?n sfx) = k)"
    if es: "e @ sfx = fields_bytes ix k r @ kencode K k" for sfx k r
  proof -
    have "length e + length sfx = length (fields_bytes ix k r) + ?n" using arg_cong [OF es, of length] codec(2) by simp
    then have "length e \<le> length (fields_bytes ix k r) \<longleftrightarrow> ?n \<le> length sfx" by linarith
    moreover have "prefix e (fields_bytes ix k r @ kencode K k)" using es [symmetric] by simp
    ultimately have pre: "prefix e (fields_bytes ix k r) \<longleftrightarrow> ?n \<le> length sfx"
      using prefix_length_le [of e "fields_bytes ix k r"]
        prefix_length_prefix [of e "fields_bytes ix k r @ kencode K k" "fields_bytes ix k r"] by auto
    moreover have "drop (length sfx - ?n) sfx = kencode K k" if "?n \<le> length sfx"
    proof -
      obtain z where "fields_bytes ix k r = e @ z" using pre \<open>?n \<le> length sfx\<close> by (auto simp: prefix_def)
      then show ?thesis using es codec(2) by simp
    qed
    ultimately show ?thesis by (simp add: tail_hit_def decode_tail_def codec linorder_not_le)
  qed
  let ?R = "{(k, decode_covered (entry_value ix k r)) | k r.
      rows D (\<alpha> s) k = Some r \<and> ix_admits ix r \<and> prefix e (fields_bytes ix k r)}"
  have "(k, w) \<in> (\<lambda>(pk, v). (pk_decoded pk, v)) ` set (List.map_filter ?f ?pairs) \<longleftrightarrow> (k, w) \<in> ?R" for k w
  proof
    assume "(k, w) \<in> (\<lambda>(pk, v). (pk_decoded pk, v)) ` set (List.map_filter ?f ?pairs)"
    then obtain sfx v where v: "\<alpha> s (?p @ sfx) = Some v" "\<not> length sfx < ?n" "k = pk_decoded (tail_hit K ?n sfx)" "w = decode_covered v"
      unfolding set_map_filter pairs by (auto split: if_splits)
    then obtain k' r where "rows D (\<alpha> s) k' = Some r" "ix_admits ix r" "e @ sfx = fields_bytes ix k' r @ kencode K k'"
      "v = entry_value ix k' r" unfolding stored by blast
    then show "(k, w) \<in> ?R" using hit [of sfx k' r] v by auto
  next
    assume "(k, w) \<in> ?R"
    then obtain r where r: "rows D (\<alpha> s) k = Some r" "ix_admits ix r" "prefix e (fields_bytes ix k r)"
      "w = decode_covered (entry_value ix k r)" by blast
    then obtain sfx where es: "e @ sfx = fields_bytes ix k r @ kencode K k" by (auto simp: prefix_def)
    then have "\<alpha> s (?p @ sfx) = Some (entry_value ix k r)" unfolding stored using r by blast
    moreover have "\<not> length sfx < ?n" "pk_decoded (tail_hit K ?n sfx) = k" using hit [OF es] r(3) by (auto split: if_splits)
    ultimately have "(tail_hit K ?n sfx, w) \<in> set (List.map_filter ?f ?pairs)"
      unfolding set_map_filter pairs using r(4) by (force split: if_splits)
    then show "(k, w) \<in> (\<lambda>(pk, v). (pk_decoded pk, v)) ` set (List.map_filter ?f ?pairs)"
      using \<open>pk_decoded (tail_hit K ?n sfx) = k\<close> by (intro image_eqI) simp_all
  qed
  note pointwise = this
  have "set (map (\<lambda>(pk, v). (pk_decoded pk, v)) (List.map_filter ?f ?pairs)) = ?R" unfolding set_map 
    by (rule set_eqI, subst (1 2) surjective_pairing) (rule pointwise)
  then show ?thesis using run by (intro exI conjI)
qed

end
