(* ===== verification/Okm_Object.thy ===== *)
theory Okm_Object
  imports Okm_Table Okm_Dynamic
begin

text \<open>
  The whole-document surface of a collection (\<open>okm-core/src/model/document.rs\<close>): a document is
  the pair of its row (slot 0) and its dynamic segment (slot 1), read and written as a
  name-keyed map.

  A map is an association list in strictly ascending key order (\<open>BTreeMap\<close>). The part of a
  document type that the derive generates for this surface is the record \<open>object_shape\<close>, a
  parameter.
\<close>

section \<open>Decoding with a stateful resolver\<close>

text \<open>
  The decoder of \<open>Okm_Dynamic\<close> with the resolver as the code has it, a closure with a state: the
  vocabulary cache and the first parked error.
\<close>

type_synonym 't name_resolver = "u16 \<Rightarrow> 't \<Rightarrow> bytes option \<times> 't"

function (sequential) decode_value_st ::
    "'t name_resolver \<Rightarrow> obj_value_type \<Rightarrow> bytes \<Rightarrow> 't \<Rightarrow> dynamic_value option \<times> 't"
  and decode_items_st :: "'t name_resolver \<Rightarrow> nat \<Rightarrow> bytes \<Rightarrow> 't \<Rightarrow> dynamic_value list option \<times> 't"
  and decode_fields_st :: "'t name_resolver \<Rightarrow> bytes \<Rightarrow> (bytes \<times> dynamic_value) list \<Rightarrow> 't
        \<Rightarrow> (bytes \<times> dynamic_value) list option \<times> 't" where
  "decode_value_st nm VArray body t =
     (case take_len body of
        None \<Rightarrow> (None, t)
      | Some (count, w) \<Rightarrow> map_prod (map_option DArray) id (decode_items_st nm count (drop w body) t))"
| "decode_value_st nm VObj body t = map_prod (map_option DObj) id (decode_fields_st nm body [] t)"
| "decode_value_st nm ty body t = (decode_value (\<lambda>_. None) ty body, t)"
| "decode_items_st nm 0 b t = (Some [], t)"
| "decode_items_st nm (Suc n) b t =
     (case read_item b of
        None \<Rightarrow> (None, t)
      | Some ((ty, body), rest) \<Rightarrow>
          (case type_from_byte ty of
             None \<Rightarrow> (None, t)
           | Some ty \<Rightarrow>
               (case decode_value_st nm ty body t of
                  (None, t) \<Rightarrow> (None, t)
                | (Some v, t) \<Rightarrow> map_prod (map_option (\<lambda>vs. v # vs)) id (decode_items_st nm n rest t))))"
| "decode_fields_st nm b acc t =
     (if b = [] then (Some acc, t)
      else case read_frame b of
        None \<Rightarrow> (None, t)
      | Some ((i, ty, body), rest) \<Rightarrow>
          (case type_from_byte ty of
             None \<Rightarrow> (None, t)
           | Some ty \<Rightarrow>
               (case decode_value_st nm ty body t of
                  (None, t) \<Rightarrow> (None, t)
                | (Some v, t) \<Rightarrow>
                    (case nm i t of (name, t) \<Rightarrow>
                       decode_fields_st nm rest (bt_insert (case name of Some n \<Rightarrow> n | None \<Rightarrow> dec_digits (unat i)) v acc) t))))"
  by pat_completeness auto

termination
proof (relation "measure (\<lambda>x. case x of
    Inl (nm, ty, body, t) \<Rightarrow> 2 * length body + 1
  | Inr (Inl (nm, n, b, t)) \<Rightarrow> 2 * length b
  | Inr (Inr (nm, b, acc, t)) \<Rightarrow> 2 * length b)")
qed (auto dest!: take_len_width read_item_shorter read_frame_shorter)

function decode_named_st :: "'t name_resolver \<Rightarrow> bytes \<Rightarrow> 't \<Rightarrow> (u16 \<times> dynamic_value) list \<times> 't" where
  "decode_named_st nm b t =
     (if b = [] then ([], t)
      else case read_frame b of
        None \<Rightarrow> ([], t)
      | Some ((i, ty, body), rest) \<Rightarrow>
          (case type_from_byte ty of
             None \<Rightarrow> decode_named_st nm rest t
           | Some ty \<Rightarrow>
               (case decode_value_st nm ty body t of
                  (None, t) \<Rightarrow> ([], t)
                | (Some v, t) \<Rightarrow> map_prod (\<lambda>fs. (i, v) # fs) id (decode_named_st nm rest t))))"
  by pat_completeness auto

termination
  by (relation "measure (\<lambda>(nm, b, t). length b)") (auto dest: read_frame_shorter)

declare decode_fields_st.simps [simp del] decode_named_st.simps [simp del]

text \<open>A resolver that answers like a function, on an invariant, decodes like the function.\<close>

locale pure_resolver =
  fixes R :: "'t name_resolver" and nm :: "u16 \<Rightarrow> bytes option" and inv_t :: "'t \<Rightarrow> bool"
  assumes resolves: "inv_t t \<Longrightarrow> fst (R i t) = nm i \<and> inv_t (snd (R i t))"
begin

lemma decode_st:
  "R' = R \<longrightarrow> inv_t t \<longrightarrow> fst (decode_value_st R' ty body t) = decode_value nm ty body \<and> inv_t (snd (decode_value_st R' ty body t))"
  "R' = R \<longrightarrow> inv_t t \<longrightarrow> fst (decode_items_st R' n b t) = decode_items nm n b \<and> inv_t (snd (decode_items_st R' n b t))"
  "R' = R \<longrightarrow> inv_t t \<longrightarrow> fst (decode_fields_st R' b acc t) = decode_fields nm b acc \<and> inv_t (snd (decode_fields_st R' b acc t))"
proof (induction R' ty body t and R' n b t and R' b acc t rule: decode_value_st_decode_items_st_decode_fields_st.induct)
  case (1 R' body t)
  then show ?case by (auto split: option.split)
next
  case (5 R' n b t)
  show ?case
  proof (cases "\<exists>ty body rest. read_item b = Some ((ty, body), rest)")
    case True
    then obtain ty body rest where b: "read_item b = Some ((ty, body), rest)" by blast
    show ?thesis
    proof (cases "type_from_byte ty")
      case (Some t')
      obtain o1 t1 where 1: "decode_value_st R' t' body t = (o1, t1)" by (cases "decode_value_st R' t' body t")
      note v = "5.IH"(1) [OF b refl refl Some]
      show ?thesis
      proof (cases o1)
        case None
        then show ?thesis using v b Some 1 by (metis (no_types, lifting) decode_items.simps(2) decode_items_st.simps(2) fst_conv
            option.simps(4,5) prod.case snd_conv)
      next
        case o: (Some w)
        note rest = "5.IH"(2) [OF b refl refl Some 1 [unfolded o, symmetric] refl]
        show ?thesis
        proof (intro impI)
          assume a: "R' = R" "inv_t t"
          then have "decode_value nm t' body = Some w" "inv_t t1" using v 1 o by auto
          then show "fst (decode_items_st R' (Suc n) b t) = decode_items nm (Suc n) b \<and> inv_t (snd (decode_items_st R' (Suc n) b t))"
            using rest a(1) b Some 1 o by simp
        qed
      qed
    qed (simp add: b)
  qed (auto split: option.split)
next
  case (6 R' b acc t)
  show ?case
  proof (cases "b = [] \<or> read_frame b = None")
    case True
    then show ?thesis by (auto simp: decode_fields_st.simps [of _ b] decode_fields.simps [of nm b])
  next
    case False
    then obtain i ty body rest where b: "b \<noteq> []" "read_frame b = Some ((i, ty, body), rest)" by auto
    show ?thesis
    proof (cases "type_from_byte ty")
      case None
      then show ?thesis using b by (simp add: decode_fields_st.simps [of _ b] decode_fields.simps [of nm b])
    next
      case (Some t')
      obtain o1 t1 where 1: "decode_value_st R' t' body t = (o1, t1)" by (cases "decode_value_st R' t' body t")
      obtain o2 t2 where 2: "R i t1 = (o2, t2)" by (cases "R i t1")
      note v = "6.IH"(1) [OF b refl refl refl Some]
      show ?thesis
      proof (intro impI)
        assume a: "R' = R" "inv_t t"
        then have d: "o1 = decode_value nm t' body" "inv_t t1" using v 1 by auto
        have r: "o2 = nm i" "inv_t t2" using resolves [OF d(2), of i] 2 by auto
        note step = decode_fields_st.simps [of _ b acc t] decode_fields.simps [of nm b acc]
        show "fst (decode_fields_st R' b acc t) = decode_fields nm b acc \<and> inv_t (snd (decode_fields_st R' b acc t))"
        proof (cases "decode_value nm t' body")
          case None
          then show ?thesis using b Some 1 d by (simp add: step)
        next
          case o: (Some w)
          note rest = "6.IH"(2) [OF b refl refl refl Some 1 [unfolded d(1) o, symmetric] refl, unfolded a(1), OF 2 [symmetric]]
          show ?thesis using rest b Some 1 2 d r o a(1) by (simp add: step field_name_def)
        qed
      qed
    qed
  qed
qed simp_all

lemma decode_named_st_pure:
  "inv_t t \<Longrightarrow> fst (decode_named_st R b t) = decode_named nm b \<and> inv_t (snd (decode_named_st R b t))"
proof (induction b arbitrary: t rule: measure_induct_rule [where f = length])
  case (less b)
  show ?case
  proof (cases "b = [] \<or> read_frame b = None")
    case True
    then show ?thesis using less.prems
      by (auto simp: decode_named_st.simps [of R b] decode_named.simps [of nm b] decode_frame_named_def)
  next
    case False
    then obtain i ty body rest where b: "b \<noteq> []" "read_frame b = Some ((i, ty, body), rest)" by auto
    then have len: "length rest < length b" using read_frame_shorter by fastforce
    show ?thesis
    proof (cases "type_from_byte ty")
      case None
      then show ?thesis using b less.IH [OF len less.prems]
        by (simp add: decode_named_st.simps [of R b] decode_named.simps [of nm b] decode_frame_named_def)
    next
      case (Some t')
      obtain o1 t1 where 1: "decode_value_st R t' body t = (o1, t1)" by (cases "decode_value_st R t' body t")
      then have 2: "o1 = decode_value nm t' body" "inv_t t1"
        using decode_st(1) [of R t t' body] less.prems by auto
      show ?thesis using b Some 1 2 less.IH [OF len 2(2)]
        by (cases "decode_value nm t' body")
          (simp_all add: decode_named_st.simps [of R b] decode_named.simps [of nm b] decode_frame_named_def)
    qed
  qed
qed

end

section \<open>Documents as maps\<close>

type_synonym object = "(bytes \<times> dynamic_value) list"

text \<open>\<open>R::FIELDS\<close> names, \<open>to_map\<close> and \<open>try_from_map\<close> of a document type.\<close>

record 'r object_shape =
  o_fields :: "bytes list"
  o_to_map :: "'r \<Rightarrow> object"
  o_try_from_map :: "object \<Rightarrow> 'r result"

definition btree_extend :: "object \<Rightarrow> object \<Rightarrow> object" where
  "btree_extend m xs = foldl (\<lambda>m (n, v). bt_insert n v m) m xs"

definition split_names :: "'r object_shape \<Rightarrow> object \<Rightarrow> object \<times> object" where
  "split_names F object = (filter (\<lambda>p. fst p \<in> set (o_fields F)) object, filter (\<lambda>p. fst p \<notin> set (o_fields F)) object)"

section \<open>The dynamic segment\<close>

text \<open>The closure of \<open>slot1_map\<close>: the cache and the parked error.\<close>

definition park_name ::
    "'s storage \<Rightarrow> 's \<Rightarrow> bytes \<Rightarrow> (u16 vocab_cache \<times> error option) name_resolver" where
  "park_name S s h i = (\<lambda>(c, failed). case name_for S s h i c of
     (Inr name, c) \<Rightarrow> (name, (c, failed))
   | (Inl e, c) \<Rightarrow> (None, (c, Some e)))"

fun name_frames ::
    "'s storage \<Rightarrow> 's \<Rightarrow> bytes \<Rightarrow> (u16 \<times> dynamic_value) list \<Rightarrow> u16 vocab_cache \<Rightarrow> object \<Rightarrow> object result" where
  "name_frames S s h [] c out = Inr out"
| "name_frames S s h ((i, v) # frames) c out =
     (case name_for S s h i c of
        (Inl e, c) \<Rightarrow> Inl e
      | (Inr None, c) \<Rightarrow> name_frames S s h frames c out
      | (Inr (Some name), c) \<Rightarrow> name_frames S s h frames c (bt_insert name v out))"

definition slot1_map :: "('k, 'r, 's) document \<Rightarrow> 's storage \<Rightarrow> 's \<Rightarrow> 'k \<Rightarrow> object option result" where
  "slot1_map D S s k =
     rbind (sget S s (fields_key D k)) (\<lambda>stored. case stored of
        None \<Rightarrow> Inr None
      | Some raw \<Rightarrow>
          (case decode_named_st (park_name S s (header D)) raw (VocabCache_new FIELD_VOCAB, None) of
             (frames, (c, failed)) \<Rightarrow>
               (case failed of
                  Some e \<Rightarrow> Inl e
                | None \<Rightarrow>
                    if frames = [] then Inr None
                    else rbind (name_frames S s (header D) frames c []) (\<lambda>out. Inr (Some out)))))"

primrec put_frames :: "'t resolver \<Rightarrow> object \<Rightarrow> bytes \<Rightarrow> ('t, bytes) io" where
  "put_frames R [] body = ioret body"
| "put_frames R (p # ps) body = iobind (put_frame_named R body (fst p) (snd p)) (put_frames R ps)"

definition slot1_into :: "('k, 'r, 's) document \<Rightarrow> 's storage \<Rightarrow> 'k \<Rightarrow> object \<Rightarrow> ('s \<times> batch, unit) io" where
  "slot1_into D S k variants t =
     (case put_frames (id_for (BatchStore S) (header D)) variants [] (t, VocabCache_new FIELD_VOCAB) of
        (Inl e, (t, _)) \<Rightarrow> (Inl e, t)
      | (Inr body, (t, _)) \<Rightarrow>
          if body = [] then sdel (BatchStore S) (fields_key D k) t
          else sput (BatchStore S) (fields_key D k) body t)"

section \<open>The verbs\<close>

definition fetch ::
    "('k, 'r, 's) document \<Rightarrow> 'r object_shape \<Rightarrow> 's storage \<Rightarrow> 's \<Rightarrow> 'k \<Rightarrow> object option result" where
  "fetch D F S s k =
     rbind (coll_get D S s k) (\<lambda>row.
     rbind (slot1_map D S s k) (\<lambda>stored.
       if row = None \<and> stored = None then Inr None
       else
         let out = (case row of Some r \<Rightarrow> o_to_map F r | None \<Rightarrow> []) in
         Inr (Some (case stored of Some segment \<Rightarrow> btree_extend out segment | None \<Rightarrow> out))))"

text \<open>The batch of \<open>merge\<close> and \<open>replace\<close>; reads go to the store, which the batch does not change.\<close>

definition merge_writes ::
    "('k, 'r, 's) document \<Rightarrow> 'r object_shape \<Rightarrow> 's storage \<Rightarrow> 'k \<Rightarrow> object \<Rightarrow> ('s \<times> batch, unit) io" where
  "merge_writes D F S k object =
     (case split_names F object of (typed, dynamic) \<Rightarrow>
        iobind (if typed \<noteq> [] then
          iobind (ioread (\<lambda>(s, ops). coll_get D S s k)) (\<lambda>prev.
          iobind (ioread (\<lambda>_. o_try_from_map F (btree_extend (case prev of Some r \<Rightarrow> o_to_map F r | None \<Rightarrow> []) typed))) (\<lambda>doc.
          save_with_prev_into D S k doc prev)) else ioret ()) (\<lambda>_.
        if dynamic \<noteq> [] then
          iobind (ioread (\<lambda>(s, ops). slot1_map D S s k)) (\<lambda>stored.
          slot1_into D S k (btree_extend (case stored of Some m \<Rightarrow> m | None \<Rightarrow> []) dynamic))
        else ioret ()))"

definition coll_merge ::
    "('k, 'r, 's) document \<Rightarrow> 'r object_shape \<Rightarrow> 's storage \<Rightarrow> 'k \<Rightarrow> object \<Rightarrow> (('k, 'r, 's) collection, unit) io" where
  "coll_merge D F S k object = with_batch (merge_writes D F S k object) (\<lambda>_ ops. commit S ops)"

definition replace_writes ::
    "('k, 'r, 's) document \<Rightarrow> 'r object_shape \<Rightarrow> 's storage \<Rightarrow> 'k \<Rightarrow> object \<Rightarrow> ('s \<times> batch, unit) io" where
  "replace_writes D F S k object =
     (case split_names F object of (typed, dynamic) \<Rightarrow>
        iobind (ioread (\<lambda>(s, ops). coll_get D S s k)) (\<lambda>prev.
        iobind (if typed = [] then (case prev of None \<Rightarrow> ioret () | Some doc \<Rightarrow> delete_into D S k doc)
          else iobind (ioread (\<lambda>_. o_try_from_map F typed)) (\<lambda>doc. save_with_prev_into D S k doc prev)) (\<lambda>_.
        slot1_into D S k dynamic)))"

definition coll_replace ::
    "('k, 'r, 's) document \<Rightarrow> 'r object_shape \<Rightarrow> 's storage \<Rightarrow> 'k \<Rightarrow> object \<Rightarrow> (('k, 'r, 's) collection, unit) io" where
  "coll_replace D F S k object = with_batch (replace_writes D F S k object) (\<lambda>_ ops. commit S ops)"

section \<open>Reading and writing a segment\<close>

lemma put_frames_encode:
  "put_frames R m buf s = (case encode_fields R m s of (Inl e, s') \<Rightarrow> (Inl e, s') | (Inr b, s') \<Rightarrow> (Inr (buf @ b), s'))"
proof (induction m arbitrary: buf s)
  case (Cons p m)
  obtain n v where p: "p = (n, v)" by (cases p)
  obtain r0 s0 where 0: "R n s = (r0, s0)" by (cases "R n s")
  show ?case
  proof (cases r0)
    case (Inr i)
    obtain r1 s1 where 1: "encode_value R v s0 = (r1, s1)" by (cases "encode_value R v s0")
    show ?thesis
    proof (cases r1)
      case r1: (Inr tb)
      obtain r2 s2 where 2: "encode_fields R m s1 = (r2, s2)" by (cases "encode_fields R m s1")
      show ?thesis using Cons.IH [of _ s1] 0 Inr 1 r1 2
        by (cases tb; cases r2) (simp_all add: p put_frame_named_def iobind_def ioret_def)
    qed (use 0 Inr 1 in \<open>simp add: p put_frame_named_def iobind_def\<close>)
  qed (use 0 in \<open>simp add: p put_frame_named_def iobind_def\<close>)
qed (simp add: ioret_def)

context name_vocab
begin

lemma fields_frames:
  "okv s \<Longrightarrow> dyn_ok (DObj m) \<Longrightarrow> encode_fields R m s = (Inr b, s') \<Longrightarrow> length b < 2 ^ 49 \<Longrightarrow>
     okv s' \<and> names s \<subseteq>\<^sub>m names s' \<and>
     (\<forall>nm. names s' \<subseteq>\<^sub>m nm \<longrightarrow> (\<exists>ids. decode_named nm b = zip ids (map snd m) \<and>
        list_all2 (\<lambda>i p. nm i = Some (fst p)) ids m))"
proof (induction m arbitrary: s b)
  case Nil
  then show ?case by (simp add: ioret_def decode_named.simps)
next
  case (Cons p m)
  obtain n v where p: "p = (n, v)" by (cases p)
  obtain i s0 ty ib s1 rest where e0: "R n s = (Inr i, s0)" and e1: "encode_value R v s0 = (Inr (ty, ib), s1)"
    and e2: "encode_fields R m s1 = (Inr rest, s')"
    and b: "b = put_id i @ type_to_byte ty # put_len (length ib) @ ib @ rest"
    using Cons.prems(3) by (auto simp: p iobind_eq_Inr split: prod.splits)
  have l: "length ib < 2 ^ 49" "length rest < 2 ^ 49" using b Cons.prems(4) by auto
  have 0: "okv s0" "names s0 i = Some n" "names s \<subseteq>\<^sub>m names s0"
    using resolve_ok [OF Cons.prems(1) _ e0] Cons.prems(2) by (auto simp: p)
  have "dyn_ok v" using Cons.prems(2) by (simp add: p)
  then have 1: "okv s1" "names s0 \<subseteq>\<^sub>m names s1" "\<And>nm. names s1 \<subseteq>\<^sub>m nm \<Longrightarrow> decode_value nm ty ib = Some v"
    using roundtrip(1) [THEN mp, OF refl, rule_format, OF 0(1) _ e1 l(1)] by auto
  have "dyn_ok (DObj m)" using Cons.prems(2) by simp
  note 2 = Cons.IH [OF 1(1) this e2 l(2)]
  have "\<exists>ids. decode_named nm b = zip ids (map snd (p # m)) \<and> list_all2 (\<lambda>i p. nm i = Some (fst p)) ids (p # m)"
    if nm: "names s' \<subseteq>\<^sub>m nm" for nm
  proof -
    have le: "names s1 \<subseteq>\<^sub>m nm" "names s0 \<subseteq>\<^sub>m nm" using nm 1(2) 2 map_le_trans by blast+
    obtain ids where ids: "decode_named nm rest = zip ids (map snd m)" "list_all2 (\<lambda>i p. nm i = Some (fst p)) ids m"
      using 2 nm by blast
    have "nm i = Some n" using 0(2) le(2) by (auto simp: map_le_def dom_def)
    then show ?thesis
      using decode_named_put [OF l(1) 1(3) [OF le(1)], of i rest] ids b p by (intro exI [of _ "i # ids"]) simp
  qed
  then show ?case using 2 0(3) 1(2) map_le_trans by blast
qed

end

text \<open>Reading names of a vocabulary changes the cache only.\<close>

lemma name_for_names:
  assumes "kv_point S ok \<alpha>" "vocab_state ok \<alpha> h f (s, c)"
  shows "\<exists>c'. name_for S s h i c = (Inr (vocab_names \<alpha> h f (s, c) i), c') \<and> vocab_state ok \<alpha> h f (s, c')"
proof -
  obtain ls where s: "ok s" "vc_faces c = f" "vocab_repr TYPE(16) h f (\<alpha> s) ls" "cache_ok c ls" "list_all utf8_valid ls"
    using assms(2) by (auto simp: vocab_state_def)
  have sized: "byte_sized TYPE(16)" by (simp add: byte_sized_def)
  note names = vocab_names_repr [where \<alpha> = \<alpha>, OF s(3,5)]
  have ans: "fst (name_for S s h i c) = Inr (vocab_names \<alpha> h f (s, c) i)"
    unfolding names by (rule kv_point.name_for_ok [OF assms(1) sized s(1) _ s(4,5)]) (simp add: s(2,3))
  obtain r c' where run: "name_for S s h i c = (r, c')" by (cases "name_for S s h i c")
  have "c' = c \<or> (\<exists>l. vocab_names \<alpha> h f (s, c) i = Some l \<and> c' = remember i l c)"
    using run ans by (auto simp: name_for_def split: option.splits sum.splits dest!: sym [of "Some _"])
  then have "cache_ok c' ls \<and> vc_faces c' = f"
    using s(2,4) cache_remember [OF s(4)] unfolding names by (auto split: if_splits)
  then show ?thesis using run ans s by (auto simp: vocab_state_def)
qed

lemma park_name_pure:
  assumes "kv_point S ok \<alpha>"
  shows "pure_resolver (park_name S s h) (vocab_names \<alpha> h f (s, c\<^sub>0)) (\<lambda>(c, failed :: error option). vocab_state ok \<alpha> h f (s, c) \<and> failed = None)"
proof
  fix t :: "u16 vocab_cache \<times> error option" and i
  assume t: "case t of (c, failed) \<Rightarrow> vocab_state ok \<alpha> h f (s, c) \<and> failed = None"
  obtain c where c: "t = (c, None)" "vocab_state ok \<alpha> h f (s, c)" using t by auto
  have same: "vocab_names \<alpha> h f (s, c) = vocab_names \<alpha> h f (s, c\<^sub>0)" by (simp add: vocab_names_def fun_eq_iff)
  show "fst (park_name S s h i t) = vocab_names \<alpha> h f (s, c\<^sub>0) i \<and>
      (case snd (park_name S s h i t) of (c, failed) \<Rightarrow> vocab_state ok \<alpha> h f (s, c) \<and> failed = None)"
    using name_for_names [OF assms c(2), of i] by (auto simp: park_name_def c(1) same)
qed

interpretation mem_park: pure_resolver "park_name mem_storage s h" "vocab_names map_of h f (s, c\<^sub>0)"
    "\<lambda>(c, failed :: error option). vocab_state mem_inv map_of h f (s, c) \<and> failed = None" for s h f c\<^sub>0
  by (rule park_name_pure [OF mem.kv_point_axioms])

definition vocab_key :: "bytes \<Rightarrow> vocab_faces \<Rightarrow> bytes \<Rightarrow> bool" where
  "vocab_key h f x \<longleftrightarrow> prefix (face_key h (id_slot f)) x \<or> prefix (face_key h (name_slot f)) x"

lemma face_not_vocab:
  assumes "faces_ok f" "slot_valid sl" "sl \<noteq> id_slot f" "sl \<noteq> name_slot f"
  shows "\<not> vocab_key h f (face_key h sl @ x)"
proof
  assume "vocab_key h f (face_key h sl @ x)"
  then obtain sl' z where "sl' = id_slot f \<or> sl' = name_slot f" "face_key h sl @ x = face_key h sl' @ z"
    unfolding vocab_key_def prefix_def by metis
  then show False using face_key_disjoint [OF assms(2), of sl' h x z] assms by (auto simp: faces_ok_def)
qed

lemma vocab_repr_cong:
  assumes "\<And>x. vocab_key h f x \<Longrightarrow> m' x = m x"
  shows "vocab_repr t h f m' ls \<longleftrightarrow> vocab_repr t h f m ls"
proof -
  have "m' (face_key h (id_slot f) @ x) = m (face_key h (id_slot f) @ x)" "m' (face_key h (name_slot f) @ x) = m (face_key h (name_slot f) @ x)" for x
    by (rule assms, simp add: vocab_key_def)+
  moreover have "m' (face_key h (id_slot f)) = m (face_key h (id_slot f))" by (rule assms) (simp add: vocab_key_def)
  ultimately show ?thesis by (simp add: vocab_repr_def)
qed

lemma id_for_frame:
  assumes "kv_point S ok \<alpha>" "faces_ok f" "vocab_state ok \<alpha> h f sc" "id_for S h n sc = (r, sc')" "\<not> vocab_key h f x"
  shows "\<alpha> (fst sc') x = \<alpha> (fst sc) x"
proof -
  obtain s c where sc: "sc = (s, c)" by (cases sc)
  obtain ls where s: "ok s" "vc_faces c = f" "vocab_repr TYPE(16) h f (\<alpha> s) ls" "cache_ok c ls"
    using assms(3) by (auto simp: vocab_state_def sc)
  have sized: "byte_sized TYPE(16)" by (simp add: byte_sized_def)
  show ?thesis
  proof (cases "n \<in> set ls")
    case True
    then show ?thesis
      using kv_point.id_for_known [OF assms(1) sized s(1), of h c ls n] s(2,3) assms(4) by (auto simp: sc)
  next
    case False
    have "alloc TYPE(16) h f (length ls) n (\<alpha> s) x = \<alpha> s x"
      using assms(5) by (auto simp: alloc_def vocab_key_def)
    then show ?thesis
      using kv_point.id_for_new [OF assms(1) sized s(1), of c h ls n] s assms(2,4) False by (auto simp: sc split: if_splits)
  qed
qed

text \<open>A vocabulary with room, together with everything outside it as it was.\<close>

lemma vocab_room_frame:
  assumes "kv_point S ok \<alpha>" "faces_ok f"
  shows "name_room (id_for S h) (\<lambda>sc. vocab_state ok \<alpha> h f sc \<and> (\<forall>x. \<not> vocab_key h f x \<longrightarrow> \<alpha> (fst sc) x = m\<^sub>0 x))
    (vocab_names \<alpha> h f) (vocab_room \<alpha> h f)"
proof -
  note base = vocab_name_room [OF assms, of h]
  show ?thesis
  proof
    fix sc n i sc'
    assume sc: "vocab_state ok \<alpha> h f sc \<and> (\<forall>x. \<not> vocab_key h f x \<longrightarrow> \<alpha> (fst sc) x = m\<^sub>0 x)" and n: "utf8_valid n"
    show "(vocab_state ok \<alpha> h f sc' \<and> (\<forall>x. \<not> vocab_key h f x \<longrightarrow> \<alpha> (fst sc') x = m\<^sub>0 x)) \<and>
        vocab_names \<alpha> h f sc' i = Some n \<and> vocab_names \<alpha> h f sc \<subseteq>\<^sub>m vocab_names \<alpha> h f sc'"
      if run: "id_for S h n sc = (Inr i, sc')"
      using name_vocab.resolve_ok [OF name_room.axioms(1) [OF base] _ n run] id_for_frame [OF assms _ run] sc by simp
    show "\<exists>i sc'. id_for S h n sc = (Inr i, sc') \<and> vocab_room \<alpha> h f sc \<le> Suc (vocab_room \<alpha> h f sc')"
      if "0 < vocab_room \<alpha> h f sc"
      using name_room.resolve_room [OF base _ n that] sc by blast
  qed
qed

section \<open>What a segment holds\<close>

definition label_at :: "bytes list \<Rightarrow> u16 \<Rightarrow> bytes option" where
  "label_at ls i = (if unat i < length ls then Some (ls ! unat i) else None)"

definition field_vocab :: "('k, 'r, 's) document \<Rightarrow> (bytes \<rightharpoonup> bytes) \<Rightarrow> bytes list \<Rightarrow> bool" where
  "field_vocab D m ls \<longleftrightarrow> vocab_repr TYPE(16) (header D) FIELD_VOCAB m ls \<and> list_all utf8_valid ls"

definition holds_segment :: "('k, 'r, 's) document \<Rightarrow> (bytes \<rightharpoonup> bytes) \<Rightarrow> bytes list \<Rightarrow> 'k \<Rightarrow> object \<Rightarrow> bool" where
  "holds_segment D m ls k x \<longleftrightarrow> sorted_wrt (<) (map fst x) \<and>
     (if x = [] then m (fields_key D k) = None
      else \<exists>b ids. m (fields_key D k) = Some b \<and> decode_named (label_at ls) b = zip ids (map snd x) \<and>
        list_all2 (\<lambda>i p. label_at ls i = Some (fst p)) ids x)"

lemma label_at_names:
  "vocab_repr TYPE(16) h f (\<alpha> s) ls \<Longrightarrow> list_all utf8_valid ls \<Longrightarrow> vocab_names \<alpha> h f (s, c) = label_at ls"
  by (simp add: fun_eq_iff label_at_def vocab_names_repr)

lemma field_state:
  "field_vocab D (\<alpha> s) ls \<Longrightarrow> ok s \<Longrightarrow> vocab_state ok \<alpha> (header D) FIELD_VOCAB (s, VocabCache_new FIELD_VOCAB)"
  by (auto simp: field_vocab_def vocab_state_def VocabCache_new_def cache_ok_def)

lemma name_frames_ok:
  assumes "kv_point S ok \<alpha>" "vocab_repr TYPE(16) h f (\<alpha> s) ls" "list_all utf8_valid ls"
    and "vocab_state ok \<alpha> h f (s, c)" "list_all2 (\<lambda>i p. label_at ls i = Some (fst p)) ids x"
    and "sorted_wrt (<) (map fst x)" "\<forall>a \<in> fst ` set acc. \<forall>b \<in> fst ` set x. a < b"
  shows "name_frames S s h (zip ids (map snd x)) c acc = Inr (acc @ x)"
  using assms(4-7)
proof (induction x arbitrary: ids c acc)
  case (Cons p x)
  obtain i ids' where ids: "ids = i # ids'" "label_at ls i = Some (fst p)" "list_all2 (\<lambda>i p. label_at ls i = Some (fst p)) ids' x"
    using Cons.prems(2) by (auto simp: list_all2_Cons2)
  obtain c' where c': "name_for S s h i c = (Inr (Some (fst p)), c')" "vocab_state ok \<alpha> h f (s, c')"
    using name_for_names [OF assms(1) Cons.prems(1), of i] label_at_names [where \<alpha> = \<alpha>, OF assms(2,3)] ids(2) by auto
  have ins: "bt_insert (fst p) (snd p) acc = acc @ [p]"
    using bt_insert_last [of acc "fst p" "snd p"] Cons.prems(4) by simp
  have "\<forall>a \<in> fst ` set (acc @ [p]). \<forall>b \<in> fst ` set x. a < b" using Cons.prems(3,4) by auto
  from Cons.IH [OF c'(2) ids(3) _ this] show ?case using c'(1) ins Cons.prems(3) by (simp add: ids(1))
qed simp

lemma slot1_read:
  assumes "kv_point S ok \<alpha>" "ok s" "field_vocab D (\<alpha> s) ls" "holds_segment D (\<alpha> s) ls k x"
  shows "slot1_map D S s k = Inr (if x = [] then None else Some x)"
proof (cases "x = []")
  case True
  then show ?thesis using assms(4) by (simp add: slot1_map_def holds_segment_def kv_point.get_ok [OF assms(1,2)])
next
  case False
  let ?h = "header D" and ?c = "VocabCache_new FIELD_VOCAB :: u16 vocab_cache"
  obtain b ids where b: "\<alpha> s (fields_key D k) = Some b" "decode_named (label_at ls) b = zip ids (map snd x)"
    "list_all2 (\<lambda>i p. label_at ls i = Some (fst p)) ids x" and sorted: "sorted_wrt (<) (map fst x)"
    using assms(4) False by (auto simp: holds_segment_def)
  have repr: "vocab_repr TYPE(16) ?h FIELD_VOCAB (\<alpha> s) ls" "list_all utf8_valid ls"
    using assms(3) by (simp_all add: field_vocab_def)
  note st = field_state [where ok = ok and \<alpha> = \<alpha>, OF assms(3,2)]
  obtain fr c failed where run: "decode_named_st (park_name S s ?h) b (?c, None) = (fr, (c, failed))" by (metis prod.exhaust)
  have dec: "fr = zip ids (map snd x)" "vocab_state ok \<alpha> ?h FIELD_VOCAB (s, c)" "failed = None"
    using pure_resolver.decode_named_st_pure [OF park_name_pure [OF assms(1), where h = ?h and s = s and f = FIELD_VOCAB and c\<^sub>0 = ?c],
        where t = "(?c, None)" and b = b]
      st run b(2) label_at_names [where \<alpha> = \<alpha>, OF repr] by auto
  have "length ids = length x" using b(3) by (rule list_all2_lengthD)
  then have "zip ids (map snd x) \<noteq> []" using False by (cases ids; cases x) simp_all
  moreover have "name_frames S s ?h (zip ids (map snd x)) c [] = Inr x"
    using name_frames_ok [OF assms(1) repr dec(2) b(3) sorted, of "[]"] by simp
  ultimately show ?thesis
    using False run dec b(1) by (simp add: slot1_map_def kv_point.get_ok [OF assms(1,2)])
qed

lemma encode_fields_empty: "encode_fields R m s = (Inr [], s') \<Longrightarrow> m = []"
  by (cases m) (auto simp: iobind_eq_Inr split: prod.splits)

lemma slot1_write:
  assumes "kv_point S ok \<alpha>" "ok s" "field_vocab D (apply_ops ops (\<alpha> s)) ls"
    and "dyn_ok (DObj x)" "name_count (DObj x) + length ls < 2 ^ 16"
  shows "\<exists>s' ops' ls' b. slot1_into D S k x (s, ops) = (Inr (), (s', ops')) \<and> ok s' \<and>
    field_vocab D (apply_ops ops' (\<alpha> s')) ls' \<and>
    (\<forall>y. y \<noteq> fields_key D k \<and> \<not> vocab_key (header D) FIELD_VOCAB y \<longrightarrow> apply_ops ops' (\<alpha> s') y = apply_ops ops (\<alpha> s) y) \<and>
    apply_ops ops' (\<alpha> s') (fields_key D k) = (if x = [] then None else Some b) \<and>
    (length b < 2 ^ 49 \<longrightarrow> holds_segment D (apply_ops ops' (\<alpha> s')) ls' k x)"
proof -
  let ?h = "header D" and ?c = "VocabCache_new FIELD_VOCAB :: u16 vocab_cache" and ?M = "apply_ops ops (\<alpha> s)"
  let ?T = "BatchStore S" and ?ok = "\<lambda>(s, ops). ok s" and ?a = "\<lambda>(s, ops). apply_ops ops (\<alpha> s)"
  note T = kv_point.batch_view [OF assms(1)]
  let ?okv = "\<lambda>sc. vocab_state ?ok ?a ?h FIELD_VOCAB sc \<and> (\<forall>x. \<not> vocab_key ?h FIELD_VOCAB x \<longrightarrow> ?a (fst sc) x = ?M x)"
  note room = vocab_room_frame [OF T faces_ok_fixed(1), of ?h ?M]
  note voc = name_room.axioms(1) [OF room]
  have repr: "vocab_repr TYPE(16) ?h FIELD_VOCAB (?a (s, ops)) ls" "list_all utf8_valid ls"
    using assms(3) by (simp_all add: field_vocab_def)
  have st: "?okv ((s, ops), ?c)"
    using field_state [where ok = ?ok and \<alpha> = ?a and s = "(s, ops)" and D = D and ls = ls] assms(2,3) by simp
  have "vocab_room ?a ?h FIELD_VOCAB ((s, ops), ?c) = 2 ^ 16 - 1 - length ls"
    by (rule vocab_room_repr [where \<alpha> = ?a, OF repr(1)])
  then have "name_count (DObj x) \<le> vocab_room ?a ?h FIELD_VOCAB ((s, ops), ?c)" using assms(5) by simp
  moreover have "\<forall>p \<in> set x. utf8_valid (fst p) \<and> dyn_ok (snd p)" using assms(4) by simp
  ultimately obtain b sc' where enc: "encode_fields (id_for ?T ?h) x ((s, ops), ?c) = (Inr b, sc')" and st': "?okv sc'"
    using name_room.encode_total(3) [OF room, THEN mp, OF refl, rule_format, OF st] by blast
  obtain s1 ops1 c1 where sc': "sc' = ((s1, ops1), c1)" by (cases sc') auto
  let ?M1 = "apply_ops ops1 (\<alpha> s1)"
  obtain ls' where ls': "ok s1" "vocab_repr TYPE(16) ?h FIELD_VOCAB ?M1 ls'" "list_all utf8_valid ls'"
    using st' by (auto simp: vocab_state_def sc')
  have frame: "\<not> vocab_key ?h FIELD_VOCAB y \<Longrightarrow> ?M1 y = ?M y" for y using st' by (simp add: sc')
  have names: "vocab_names ?a ?h FIELD_VOCAB sc' = label_at ls'"
    unfolding sc' using label_at_names [where \<alpha> = ?a and s = "(s1, ops1)", OF _ ls'(3)] ls'(2) by simp
  have fk: "\<not> vocab_key ?h FIELD_VOCAB (fields_key D k)"
    unfolding fields_key_def by (rule face_not_vocab [OF faces_ok_fixed(1)]) (simp_all add: FIELD_VOCAB_def slot_consts slot_valid_def)
  define w where "w = (if x = [] then None else Some b)"
  have empty: "b = [] \<longleftrightarrow> x = []" using enc encode_fields_empty by (auto simp: ioret_def)
  have run: "slot1_into D S k x (s, ops) = (Inr (), (s1, ops1 @ [(fields_key D k, w)]))"
    using enc empty by (simp add: slot1_into_def put_frames_encode sc' w_def BatchStore_def with_defaults_def
        BatchStore_del_def BatchStore_put_def batch_del_def batch_put_def)
  let ?M2 = "apply_ops (ops1 @ [(fields_key D k, w)]) (\<alpha> s1)"
  have M2: "?M2 = ?M1(fields_key D k := w)" by simp
  have vocab2: "field_vocab D ?M2 ls'"
  proof -
    have "vocab_repr TYPE(16) ?h FIELD_VOCAB ?M2 ls'"
      by (subst vocab_repr_cong [where m = ?M1]) (use fk ls'(2) in auto)
    then show ?thesis using ls'(3) by (simp add: field_vocab_def)
  qed
  have "holds_segment D ?M2 ls' k x" if "length b < 2 ^ 49"
  proof -
    have "\<exists>ids. decode_named (label_at ls') b = zip ids (map snd x) \<and> list_all2 (\<lambda>i p. label_at ls' i = Some (fst p)) ids x"
      using name_vocab.fields_frames [OF voc st assms(4) enc that] names map_le_refl by metis
    then show ?thesis using assms(4) by (auto simp: holds_segment_def w_def)
  qed
  moreover have "?M2 y = ?M y" if "y \<noteq> fields_key D k" "\<not> vocab_key ?h FIELD_VOCAB y" for y
    using frame [OF that(2)] that(1) by simp
  ultimately show ?thesis
    using run ls'(1) vocab2 by (intro exI [of _ s1] exI [of _ "ops1 @ [(fields_key D k, w)]"] exI [of _ ls'] exI [of _ b]) (simp add: w_def)
qed

section \<open>The batch of a whole-document verb\<close>

lemma batch_commits:
  assumes "kv_point S ok \<alpha>" "body (c_store c, []) = (Inr (), (s', ops'))" "ok s'"
  shows "\<exists>c'. with_batch body (\<lambda>_ ops. commit S ops) c = (Inr (), c') \<and> ok (c_store c') \<and>
    \<alpha> (c_store c') = apply_ops ops' (\<alpha> s') \<and> c_epoch c' = c_epoch c + 1 \<and> c_events c' = c_events c"
proof -
  obtain s'' where "scommit_batch S ops' s' = (Inr (), s'')" "ok s''" "\<alpha> s'' = apply_ops ops' (\<alpha> s')"
    using kv_point.commit_ok [OF assms(1,3)] by blast
  then show ?thesis using assms(2) by (simp add: with_batch_def commit_def)
qed

context face_document
begin

lemma vocab_apart:
  assumes "vocab_key (header D) FIELD_VOCAB y"
  shows "y \<noteq> primary_key D k" "y \<noteq> fields_key D k" "\<not> in_face D y"
proof -
  have fixed: "\<not> vocab_key (header D) FIELD_VOCAB (face_key (header D) sl @ x)"
    if "slot_valid sl" "sl \<noteq> FIELD_VOCAB_ID_SLOT" "sl \<noteq> FIELD_VOCAB_NAME_SLOT" for sl x
    by (rule face_not_vocab [OF faces_ok_fixed(1)]) (use that in \<open>simp_all add: FIELD_VOCAB_def\<close>)
  show "y \<noteq> primary_key D k"
    using assms fixed [of PRIMARY_SLOT] by (auto simp: primary_key_def slot_consts slot_valid_def)
  show "y \<noteq> fields_key D k"
    using assms fixed [of DYNAMIC_SLOT] by (auto simp: fields_key_def slot_consts slot_valid_def)
  show "\<not> in_face D y"
  proof
    assume "in_face D y"
    then obtain sl x where sl: "sl \<in> set (live_slots D)" "y = face_key (header D) sl @ x"
      by (auto simp: in_face_def prefix_def)
    then have "sl \<noteq> FIELD_VOCAB_ID_SLOT" "sl \<noteq> FIELD_VOCAB_NAME_SLOT" "slot_valid sl"
      using live_valid [OF sl(1)] by (auto simp: slot_consts)
    then show False using fixed assms sl(2) by blast
  qed
qed

lemma field_vocab_cong:
  "(\<And>y. vocab_key (header D) FIELD_VOCAB y \<Longrightarrow> m' y = m y) \<Longrightarrow> field_vocab D m' ls = field_vocab D m ls"
  unfolding field_vocab_def by (subst vocab_repr_cong [of "header D" FIELD_VOCAB m' m]) simp_all

lemma rows_cong: "(\<And>k. m' (primary_key D k) = m (primary_key D k)) \<Longrightarrow> rows D m' = rows D m"
  by (simp add: rows_def fun_eq_iff)

lemma segment_write:
  fixes x :: object
  assumes "kv_point S ok \<alpha>" "ok s" "field_vocab D (apply_ops ops (\<alpha> s)) ls" "faces_current D (apply_ops ops (\<alpha> s))"
    and "dyn_ok (DObj x)" "name_count (DObj x) + length ls < 2 ^ 16"
  shows "\<exists>s' ops' ls'. slot1_into D S k x (s, ops) = (Inr (), (s', ops')) \<and> ok s' \<and>
    rows D (apply_ops ops' (\<alpha> s')) = rows D (apply_ops ops (\<alpha> s)) \<and> faces_current D (apply_ops ops' (\<alpha> s')) \<and>
    field_vocab D (apply_ops ops' (\<alpha> s')) ls' \<and>
    ((\<forall>b. apply_ops ops' (\<alpha> s') (fields_key D k) = Some b \<longrightarrow> length b < 2 ^ 49) \<longrightarrow>
      holds_segment D (apply_ops ops' (\<alpha> s')) ls' k x)"
proof -
  let ?M = "apply_ops ops (\<alpha> s)"
  obtain s' ops' ls' b where w: "slot1_into D S k x (s, ops) = (Inr (), (s', ops'))" "ok s'"
    "field_vocab D (apply_ops ops' (\<alpha> s')) ls'"
    "\<And>y. y \<noteq> fields_key D k \<Longrightarrow> \<not> vocab_key (header D) FIELD_VOCAB y \<Longrightarrow> apply_ops ops' (\<alpha> s') y = ?M y"
    "apply_ops ops' (\<alpha> s') (fields_key D k) = (if x = [] then None else Some b)"
    "length b < 2 ^ 49 \<Longrightarrow> holds_segment D (apply_ops ops' (\<alpha> s')) ls' k x"
    using slot1_write [OF assms(1-3,5,6), of k] by blast
  have "apply_ops ops' (\<alpha> s') (primary_key D k') = ?M (primary_key D k')" for k'
    using vocab_apart(1) by (intro w(4)) auto
  then have r: "rows D (apply_ops ops' (\<alpha> s')) = rows D ?M" by (rule rows_cong)
  have "apply_ops ops' (\<alpha> s') y = ?M y" if "in_face D y" for y
    using that vocab_apart(3) primary_not_face(2) by (intro w(4)) auto
  then have "faces_current D (apply_ops ops' (\<alpha> s'))" using faces_current_cong [OF r] assms(4) by simp
  moreover have "holds_segment D (apply_ops ops' (\<alpha> s')) ls' k x"
    if len: "\<forall>b. apply_ops ops' (\<alpha> s') (fields_key D k) = Some b \<longrightarrow> length b < 2 ^ 49"
  proof (cases "x = []")
    case True
    then show ?thesis using w(5) by (simp add: holds_segment_def)
  next
    case False
    then show ?thesis using w(5,6) len by simp
  qed
  ultimately show ?thesis using w(1-3) r by blast
qed

text \<open>The row part of the two verbs.\<close>

lemma row_part_save:
  assumes "faces_current D m" "field_vocab D m ls"
  shows "rows D (apply_ops (save_ops k (rows D m k) r) m) = (rows D m)(k \<mapsto> r)"
    and "faces_current D (apply_ops (save_ops k (rows D m k) r) m)"
    and "field_vocab D (apply_ops (save_ops k (rows D m k) r) m) ls"
    and "apply_ops (save_ops k (rows D m k) r) m (fields_key D k') = m (fields_key D k')"
proof -
  show "rows D (apply_ops (save_ops k (rows D m k) r) m) = (rows D m)(k \<mapsto> r)" by (rule rows_save)
  show "faces_current D (apply_ops (save_ops k (rows D m k) r) m)" by (rule faces_save [OF assms(1)])
  have "apply_ops (save_ops k (rows D m k) r) m y = m y" if "vocab_key (header D) FIELD_VOCAB y" for y
    by (rule save_elsewhere) (rule vocab_apart [OF that])+
  then show "field_vocab D (apply_ops (save_ops k (rows D m k) r) m) ls"
    using field_vocab_cong [of "apply_ops (save_ops k (rows D m k) r) m" m ls] assms(2) by blast
  show "apply_ops (save_ops k (rows D m k) r) m (fields_key D k') = m (fields_key D k')"
    by (rule save_elsewhere) (simp_all add: primary_not_face(2))
qed

lemma row_part_delete:
  fixes k :: 'k
  assumes "faces_current D m" "field_vocab D m ls"
  defines "m' \<equiv> apply_ops (purge_ops k (rows D m k) False) m"
  shows "rows D m' = (rows D m)(k := None)" "faces_current D m'" "field_vocab D m' ls"
proof -
  show "rows D m' = (rows D m)(k := None)" unfolding m'_def by (rule rows_purge) simp
  show "faces_current D m'" unfolding m'_def by (rule faces_purge [OF assms(1)])
  have "m' y = m y" if y: "vocab_key (header D) FIELD_VOCAB y" for y
  proof -
    have "y \<notin> set (map fst (E k d))" for d using vocab_apart(3) [OF y] entry_in_face by auto
    then show ?thesis using vocab_apart(1) [OF y, of k]
      by (auto simp: m'_def purge_ops_def apply_dels simp del: set_map split: option.split)
  qed
  then show "field_vocab D m' ls" using assms(2) field_vocab_cong [of m' m ls] by blast
qed

end

lemma holds_segment_cong: "m' (fields_key D k) = m (fields_key D k) \<Longrightarrow> holds_segment D m' ls k x = holds_segment D m ls k x"
  by (simp add: holds_segment_def)

section \<open>Properties\<close>

text \<open>The rows of the demonstration table as objects with one declared name.\<close>

definition demo_shape :: "bytes object_shape" where
  "demo_shape = \<lparr> o_fields = [[110]], o_to_map = (\<lambda>r. [([110], DBytes r)]),
     o_try_from_map = (\<lambda>m. case map_of m [110] of Some (DBytes b) \<Rightarrow> Inr b
       | _ \<Rightarrow> Inl (KindMismatch ''n'' ''Bytes'' ''other'')) \<rparr>"

lemma demo_vocab: "field_vocab demo_table (map_of (c_store demo_fresh)) []"
    "holds_segment demo_table (map_of (c_store demo_fresh)) [] k []"
proof -
  have "(\<lambda>x. None) = Map.empty" by simp
  then show "field_vocab demo_table (map_of (c_store demo_fresh)) []"
    using empty_repr [where ?'i = 16] by (simp add: field_vocab_def collection_new_def)
  show "holds_segment demo_table (map_of (c_store demo_fresh)) [] k []" by (simp add: holds_segment_def collection_new_def)
qed

text \<open>
  C17: \<open>merge\<close> in one commit: a declared name is a read-modify-write of the row that keeps every
  face current, any other name overwrites that name of the dynamic segment and leaves the
  others. A map without declared names leaves the row, one without dynamic names the segment.
  This holds while the field vocabulary has room for every name of the new segment and the segment
  is well formed (\<open>dyn_ok\<close>: names and strings are UTF-8, objects are in the order of their names, and
  no nonnegative signed integer has a shortest form that starts at 0x80 or above, since such an
  integer loses its sign). Under these conditions, and if the stored segment is shorter than 2^49
  bytes, it reads back, its names resolved through the vocabulary it grew.
\<close>

theorem merge_spec:
  fixes c :: "('k, 'r, 's) collection"
  assumes "face_document D" "kv_point S ok \<alpha>" "ok (c_store c)"
    and "faces_current D (\<alpha> (c_store c))" "field_vocab D (\<alpha> (c_store c)) ls" "holds_segment D (\<alpha> (c_store c)) ls k old"
    and "split_names F object = (typed, dynamic)"
    and "typed \<noteq> [] \<longrightarrow>
      o_try_from_map F (btree_extend (case rows D (\<alpha> (c_store c)) k of Some r \<Rightarrow> o_to_map F r | None \<Rightarrow> []) typed) = Inr doc"
    and "dyn_ok (DObj (btree_extend old dynamic))" "name_count (DObj (btree_extend old dynamic)) + length ls < 2 ^ 16"
  shows "\<exists>c'. coll_merge D F S k object c = (Inr (), c') \<and> ok (c_store c') \<and> c_epoch c' = c_epoch c + 1 \<and>
    rows D (\<alpha> (c_store c')) = (if typed = [] then rows D (\<alpha> (c_store c)) else (rows D (\<alpha> (c_store c)))(k \<mapsto> doc)) \<and>
    faces_current D (\<alpha> (c_store c')) \<and>
    ((\<forall>b. \<alpha> (c_store c') (fields_key D k) = Some b \<longrightarrow> length b < 2 ^ 49) \<longrightarrow>
      slot1_map D S (c_store c') k = Inr (let x = btree_extend old dynamic in if x = [] then None else Some x))"
proof -
  note D = assms(1)
  let ?s = "c_store c"
  let ?m = "\<alpha> ?s"
  define ops where "ops = (if typed = [] then [] else face_document.save_ops D k (rows D ?m k) doc)"
  let ?M = "apply_ops ops ?m" and ?new = "btree_extend old dynamic"
  have read: "slot1_map D S ?s k = Inr (if old = [] then None else Some old)"
    by (rule slot1_read [OF assms(2,3,5,6)])
  have M: "rows D ?M = (if typed = [] then rows D ?m else (rows D ?m)(k \<mapsto> doc))" "faces_current D ?M"
    "field_vocab D ?M ls" "?M (fields_key D k) = ?m (fields_key D k)"
    using face_document.row_part_save [OF D assms(4,5), of k doc] assms(4,5) by (simp_all add: ops_def)
  have row_part: "(if typed \<noteq> [] then
      iobind (ioread (\<lambda>(s, ops). coll_get D S s k)) (\<lambda>prev.
      iobind (ioread (\<lambda>_. o_try_from_map F (btree_extend (case prev of Some r \<Rightarrow> o_to_map F r | None \<Rightarrow> []) typed))) (\<lambda>doc.
      save_with_prev_into D S k doc prev)) else ioret ()) (?s, []) = (Inr (), (?s, ops))"
    using assms(8) face_document.save_run [OF D assms(2,3), where ops = "[]" and k = k and r = doc and prev = "rows D ?m k"]
    by (auto simp: ops_def iobind_def ioread_def ioret_def face_document.coll_get_rows [OF D assms(2,3)])
  obtain s' ops' ls' where w: "merge_writes D F S k object (?s, []) = (Inr (), (s', ops'))" "ok s'"
    "rows D (apply_ops ops' (\<alpha> s')) = rows D ?M" "faces_current D (apply_ops ops' (\<alpha> s'))"
    "field_vocab D (apply_ops ops' (\<alpha> s')) ls'"
    "(\<forall>b. apply_ops ops' (\<alpha> s') (fields_key D k) = Some b \<longrightarrow> length b < 2 ^ 49) \<longrightarrow>
      holds_segment D (apply_ops ops' (\<alpha> s')) ls' k ?new"
  proof (cases "dynamic = []")
    case True
    then have "merge_writes D F S k object (?s, []) = (Inr (), (?s, ops))"
      unfolding merge_writes_def assms(7) prod.case by (subst iobind_def) (simp add: row_part ioret_def)
    moreover have "holds_segment D ?M ls k ?new" using assms(6) holds_segment_cong [where m' = ?M and m = ?m, OF M(4)] True by (simp add: btree_extend_def)
    ultimately show ?thesis using that assms(3) M by blast
  next
    case False
    obtain s' ops' ls' where w: "slot1_into D S k ?new (?s, ops) = (Inr (), (s', ops'))" "ok s'"
      "rows D (apply_ops ops' (\<alpha> s')) = rows D ?M" "faces_current D (apply_ops ops' (\<alpha> s'))"
      "field_vocab D (apply_ops ops' (\<alpha> s')) ls'"
      "(\<forall>b. apply_ops ops' (\<alpha> s') (fields_key D k) = Some b \<longrightarrow> length b < 2 ^ 49) \<longrightarrow>
        holds_segment D (apply_ops ops' (\<alpha> s')) ls' k ?new"
      using face_document.segment_write [OF D assms(2,3) M(3,2) assms(9,10), of k] by blast
    have "(case (if old = [] then None else Some old) of Some m \<Rightarrow> m | None \<Rightarrow> []) = old" by simp
    then have "merge_writes D F S k object (?s, []) = slot1_into D S k ?new (?s, ops)"
      unfolding merge_writes_def assms(7) prod.case
      by (subst iobind_def) (simp add: row_part False iobind_def ioread_def read)
    then show ?thesis using that w by simp
  qed
  obtain c' where c': "coll_merge D F S k object c = (Inr (), c')" "ok (c_store c')"
    "\<alpha> (c_store c') = apply_ops ops' (\<alpha> s')" "c_epoch c' = c_epoch c + 1"
    using batch_commits [where c = c and body = "merge_writes D F S k object", OF assms(2) w(1,2)]
    unfolding coll_merge_def by blast
  have "slot1_map D S (c_store c') k = Inr (if ?new = [] then None else Some ?new)"
    if "\<forall>b. \<alpha> (c_store c') (fields_key D k) = Some b \<longrightarrow> length b < 2 ^ 49"
    by (rule slot1_read [OF assms(2) c'(2), where ls = ls']) (use that w(5,6) in \<open>simp_all add: c'(3)\<close>)
  then show ?thesis using c' w(3,4) M(1) by (intro exI [of _ c']) (simp add: Let_def)
qed

theorem merge_spec_witness:
  "\<exists>c'. coll_merge demo_table demo_shape mem_storage 5 [([110], DBytes [1, 2]), ([120], DBool True)] demo_fresh = (Inr (), c') \<and>
     rows demo_table (map_of (c_store c')) = [5 \<mapsto> [1, 2]] \<and> faces_current demo_table (map_of (c_store c'))"
proof -
  let ?x = "[([110], DBytes [1, 2]), ([120], DBool True)]"
  have split: "split_names demo_shape ?x = ([([110], DBytes [1, 2])], [([120], DBool True)])"
    by (simp add: split_names_def demo_shape_def)
  have new: "btree_extend [] [([120], DBool True)] = [([120], DBool True)]" by (simp add: btree_extend_def)
  have typed: "o_try_from_map demo_shape (btree_extend (case rows demo_table (map_of (c_store demo_fresh)) 5 of
      Some r \<Rightarrow> o_to_map demo_shape r | None \<Rightarrow> []) [([110], DBytes [1, 2])]) = Inr [1, 2]"
    by (simp add: demo_empty(3) demo_shape_def btree_extend_def)
  have utf8: "utf8_valid [120]" by code_simp
  have "rows demo_table (map_of (c_store demo_fresh)) = Map.empty" using demo_empty(3) by (simp add: fun_eq_iff)
  then show ?thesis
    using merge_spec [OF demo_laws mem.kv_point_axioms demo_empty(2,1) demo_vocab(1,2) split, where doc = "[1, 2]" and k = 5] typed utf8
    by (simp add: new) blast
qed

text \<open>
  \<open>replace\<close> makes the map the whole document in one commit: the declared names rebuild the row
  or, when there are none, its removal takes the faces along; the other names are exactly the
  dynamic segment. Replacing by the empty map leaves neither row nor segment.
\<close>

theorem replace_spec:
  fixes c :: "('k, 'r, 's) collection"
  assumes "face_document D" "kv_point S ok \<alpha>" "ok (c_store c)"
    and "faces_current D (\<alpha> (c_store c))" "field_vocab D (\<alpha> (c_store c)) ls"
    and "split_names F object = (typed, dynamic)" "typed \<noteq> [] \<longrightarrow> o_try_from_map F typed = Inr doc"
    and "dyn_ok (DObj dynamic)" "name_count (DObj dynamic) + length ls < 2 ^ 16"
  shows "\<exists>c'. coll_replace D F S k object c = (Inr (), c') \<and> ok (c_store c') \<and> c_epoch c' = c_epoch c + 1 \<and>
    rows D (\<alpha> (c_store c')) = (rows D (\<alpha> (c_store c)))(k := if typed = [] then None else Some doc) \<and>
    faces_current D (\<alpha> (c_store c')) \<and>
    ((\<forall>b. \<alpha> (c_store c') (fields_key D k) = Some b \<longrightarrow> length b < 2 ^ 49) \<longrightarrow>
      slot1_map D S (c_store c') k = Inr (if dynamic = [] then None else Some dynamic))"
proof -
  note D = assms(1)
  let ?s = "c_store c"
  let ?m = "\<alpha> ?s"
  let ?prev = "rows D ?m k"
  define ops where "ops = (if typed = [] then face_document.purge_ops D k ?prev False else face_document.save_ops D k ?prev doc)"
  let ?M = "apply_ops ops ?m"
  have M: "rows D ?M = (rows D ?m)(k := if typed = [] then None else Some doc)" "faces_current D ?M" "field_vocab D ?M ls"
    using face_document.row_part_save [OF D assms(4,5), of k doc] face_document.row_part_delete [OF D assms(4,5), of k]
    by (auto simp: ops_def)
  have row_part: "(if typed = [] then (case ?prev of None \<Rightarrow> ioret () | Some doc \<Rightarrow> delete_into D S k doc)
      else iobind (ioread (\<lambda>_. o_try_from_map F typed)) (\<lambda>doc. save_with_prev_into D S k doc ?prev)) (?s, []) = (Inr (), (?s, ops))"
    using assms(7) face_document.save_run [OF D assms(2,3), where ops = "[]" and k = k and r = doc and prev = ?prev]
    by (auto simp: ops_def iobind_def ioread_def ioret_def face_document.purge_ops_def [OF D] face_document.delete_run [OF D]
        split: option.split)
  obtain s' ops' ls' where w: "slot1_into D S k dynamic (?s, ops) = (Inr (), (s', ops'))" "ok s'"
    "rows D (apply_ops ops' (\<alpha> s')) = rows D ?M" "faces_current D (apply_ops ops' (\<alpha> s'))"
    "field_vocab D (apply_ops ops' (\<alpha> s')) ls'"
    "(\<forall>b. apply_ops ops' (\<alpha> s') (fields_key D k) = Some b \<longrightarrow> length b < 2 ^ 49) \<longrightarrow>
      holds_segment D (apply_ops ops' (\<alpha> s')) ls' k dynamic"
    using face_document.segment_write [OF D assms(2,3) M(3,2) assms(8,9), of k] by blast
  have run: "replace_writes D F S k object (?s, []) = (Inr (), (s', ops'))"
    unfolding replace_writes_def assms(6) prod.case
    by (subst iobind_def, subst ioread_def, simp only: prod.case face_document.coll_get_rows [OF D assms(2,3)] sum.case)
      (subst iobind_def, simp only: row_part prod.case sum.case w(1))
  obtain c' where c': "coll_replace D F S k object c = (Inr (), c')" "ok (c_store c')"
    "\<alpha> (c_store c') = apply_ops ops' (\<alpha> s')" "c_epoch c' = c_epoch c + 1"
    using batch_commits [where c = c and body = "replace_writes D F S k object", OF assms(2) run w(2)]
    unfolding coll_replace_def by blast
  have "slot1_map D S (c_store c') k = Inr (if dynamic = [] then None else Some dynamic)"
    if "\<forall>b. \<alpha> (c_store c') (fields_key D k) = Some b \<longrightarrow> length b < 2 ^ 49"
    by (rule slot1_read [OF assms(2) c'(2), where ls = ls']) (use that w(5,6) in \<open>simp_all add: c'(3)\<close>)
  then show ?thesis using c' w(3,4) M(1) by (intro exI [of _ c']) simp
qed

theorem replace_spec_witness:
  "\<exists>c'. coll_replace demo_table demo_shape mem_storage 5 [] demo_fresh = (Inr (), c') \<and>
     rows demo_table (map_of (c_store c')) 5 = None \<and> c_epoch c' = 1"
proof -
  have split: "split_names demo_shape [] = ([], [])" by (simp add: split_names_def)
  have "c_epoch demo_fresh = 0" by (simp add: collection_new_def)
  then show ?thesis
    using replace_spec [OF demo_laws mem.kv_point_axioms demo_empty(2,1) demo_vocab(1) split, where doc = "[]" and k = 5] by auto
qed

text \<open>
  \<open>fetch\<close> answers nothing exactly when neither slot holds anything, the declared half when there
  is no segment, and otherwise the declared half overwritten by the segment: a name that is
  declared and also stored in the segment comes from the segment.
\<close>

theorem fetch_spec:
  assumes "face_document D" "kv_point S ok \<alpha>" "ok s" "field_vocab D (\<alpha> s) ls" "holds_segment D (\<alpha> s) ls k x"
  shows "fetch D F S s k = Inr (if rows D (\<alpha> s) k = None \<and> x = [] then None
      else Some (btree_extend (case rows D (\<alpha> s) k of Some r \<Rightarrow> o_to_map F r | None \<Rightarrow> []) x)) \<and>
    (\<forall>m n v. (n, v) \<in> set x \<longrightarrow> sorted_wrt (<) (map fst m) \<longrightarrow> map_of (btree_extend m x) n = Some v)"
proof -
  have "map_of (btree_extend m y) n = (map_of m ++ map_of (rev y)) n \<and> sorted_wrt (<) (map fst (btree_extend m y))"
    if "sorted_wrt (<) (map fst m)" for m y n
    using that
  proof (induction y arbitrary: m)
    case (Cons p y)
    obtain a v where p: "p = (a, v)" by (cases p)
    show ?case
      using Cons.IH [of "bt_insert a v m"] bt_insert_sorted [OF Cons.prems, of a v] bt_insert_map [OF Cons.prems, of a v]
      by (simp add: btree_extend_def p map_add_def split: option.split)
  qed (simp add: btree_extend_def)
  moreover have "map_of (rev x) n = Some v" if "(n, v) \<in> set x" for n v
  proof -
    have "distinct (map fst x)" using assms(5) by (auto simp: holds_segment_def strict_sorted_iff)
    then show ?thesis using that by (simp add: rev_map [symmetric])
  qed
  ultimately show ?thesis
    using slot1_read [OF assms(2-5)] face_document.coll_get_rows [OF assms(1-3)]
    by (auto simp: fetch_def Let_def btree_extend_def map_add_def split: option.split)
qed

theorem fetch_spec_witness:
  "fetch demo_table demo_shape mem_storage [([7, 0, 5], [1, 2])] 5 = Inr (Some [([110], DBytes [1, 2])])"
proof -
  define s where "s = ([([7, 0, 5], [1, 2])] :: mem)"
  have h: "header demo_table = [7]" by (simp add: header_def demo_table_def plain_document_def)
  have imgs: "face_key [7] PRIMARY_SLOT = [7, 0]" "face_key [7] DYNAMIC_SLOT = [7, 1]"
      "face_key [7] FIELD_VOCAB_ID_SLOT = [7, 2]" "face_key [7] FIELD_VOCAB_NAME_SLOT = [7, 3]"
    by (simp_all add: face_key_def slot_image_def slot_consts)
  have pk: "primary_key demo_table 5 = [7, 0, 5]" "fields_key demo_table 5 = [7, 1, 5]"
    unfolding primary_key_def fields_key_def h imgs by (simp_all add: demo_table_def plain_document_def demo_key_def)
  have row: "rows demo_table (map_of s) 5 = Some [1, 2]"
    unfolding rows_def pk s_def by (simp add: demo_table_def plain_document_def)
  have "vocab_repr TYPE(16) [7] FIELD_VOCAB (map_of s) [] = vocab_repr TYPE(16) [7] FIELD_VOCAB Map.empty []"
    by (rule vocab_repr_cong) (auto simp: vocab_key_def FIELD_VOCAB_def imgs s_def)
  then have voc: "field_vocab demo_table (map_of s) []"
    using empty_repr [where ?'i = 16] by (simp add: field_vocab_def h)
  have seg: "holds_segment demo_table (map_of s) [] 5 []" by (simp add: holds_segment_def pk s_def)
  have "mem_inv s" by (simp add: mem_inv_def s_def)
  from fetch_spec [OF demo_laws mem.kv_point_axioms this voc seg, of demo_shape] show ?thesis
    unfolding s_def [symmetric] by (simp add: row demo_shape_def btree_extend_def)
qed

end
