(* ===== verification/Okm_Changelog.thy ===== *)
theory Okm_Changelog
  imports Okm_Frame Okm_Vocab "HOL-Library.AList"
begin

text \<open>
  The change log: \<open>okm-core/src/changelog.rs\<close> and its hooks in \<open>model/document.rs\<close>. A log writes one
  frame per committed batch to numbered segment files.

  The directory is an association list from (number, sealed) to the bytes of a file. Every system
  call takes its outcome from \<open>w_outcomes\<close> (all succeed once the list is used up); a write that
  fails may have written some bytes. The clock is \<open>w_now\<close>, in seconds. Counters and sizes are
  natural numbers: the code's saturating additions only meet thresholds below the saturation.
\<close>

section \<open>What a log carries\<close>

definition strip_header :: "bytes \<Rightarrow> bytes \<Rightarrow> bytes option" where
  "strip_header header key = (if take (length header) key = header then Some (drop (length header) key) else None)"

definition truth_slot :: "u16 \<Rightarrow> bool" where
  "truth_slot sl =
     (if sl \<le> FIXED_FACE_MAX
      then sl \<in> {PRIMARY_SLOT, DYNAMIC_SLOT, FIELD_VOCAB_ID_SLOT, FIELD_VOCAB_NAME_SLOT, PREDICATE_VOCAB_ID_SLOT, PREDICATE_VOCAB_NAME_SLOT}
      else drop_bit 12 sl = VOCAB_LABEL \<or> drop_bit 12 sl = VOCAB_ID)"

definition carried :: "bytes \<Rightarrow> bytes \<Rightarrow> bool" where
  "carried header key =
     (case strip_header header key of
        None \<Rightarrow> False
      | Some [] \<Rightarrow> False
      | Some (first # rest) \<Rightarrow>
          if ucast first \<le> FIXED_FACE_MAX then rest \<noteq> [] \<and> truth_slot (ucast first)
          else (case rest of
                  [] \<Rightarrow> False
                | second # rest \<Rightarrow> rest \<noteq> [] \<and> truth_slot (of_nat (be_val [first, second]))))"

section \<open>Segments\<close>

record changelog_config =
  lc_segment_bytes :: nat
  lc_segment_seconds :: nat
  lc_buffer_bytes :: nat
  lc_sync :: bool

definition changelog_config_new :: changelog_config where
  "changelog_config_new = \<lparr> lc_segment_bytes = 64 * 1024 * 1024, lc_segment_seconds = 300, lc_buffer_bytes = 1024 * 1024, lc_sync = False \<rparr>"

record changelog =
  cl_dir :: string
  cl_header :: bytes
  cl_cfg :: changelog_config
  cl_file :: bool
  cl_segment :: nat
  cl_written :: nat
  cl_opened :: nat
  cl_pending :: bytes
  cl_staged :: bytes
  cl_dropped :: nat
  cl_last_error :: "string option"

datatype outcome = Done | Fails nat string

type_synonym segment_file = "nat \<times> bool"

record log_world =
  w_files :: "(segment_file \<times> bytes) list"
  w_outcomes :: "outcome list"
  w_now :: nat

type_synonym 'a log_io = "(changelog \<times> log_world, 'a) io"

definition syscall :: "log_world \<Rightarrow> outcome \<times> log_world" where
  "syscall w = (case w_outcomes w of [] \<Rightarrow> (Done, w) | o1 # os \<Rightarrow> (o1, w\<lparr> w_outcomes := os \<rparr>))"

fun dec_string :: "nat \<Rightarrow> string" where
  "dec_string n = (if n < 10 then [char_of (48 + n)] else dec_string (n div 10) @ [char_of (48 + n mod 10)])"

declare dec_string.simps [simp del]

definition segment_name :: "nat \<Rightarrow> string \<Rightarrow> string" where
  "segment_name n ext = replicate (8 - length (dec_string n)) (CHR ''0'') @ dec_string n @ ''.'' @ ext"

definition partial_path :: "changelog \<Rightarrow> string" where
  "partial_path l = cl_dir l @ ''/'' @ segment_name (cl_segment l) ''partial''"

definition io_err :: "string \<Rightarrow> string \<Rightarrow> error" where
  "io_err path e = Changelog (path @ '': '' @ e)"

text \<open>\<open>create_new\<close> refuses an existing file; the texts of the operating system are opaque.\<close>

definition OS_EXISTS :: string where "OS_EXISTS = ''file exists''"
definition OS_MISSING :: string where "OS_MISSING = ''no such file''"

definition create_segment :: "changelog \<Rightarrow> log_world \<Rightarrow> unit result \<times> log_world" where
  "create_segment l w =
     (case syscall w of
        (Fails _ e, w) \<Rightarrow> (Inl (io_err (partial_path l) e), w)
      | (Done, w) \<Rightarrow>
          if map_of (w_files w) (cl_segment l, False) \<noteq> None then (Inl (io_err (partial_path l) OS_EXISTS), w)
          else (Inr (), w\<lparr> w_files := AList.update (cl_segment l, False) [] (w_files w) \<rparr>))"

definition rename_segment :: "changelog \<Rightarrow> log_world \<Rightarrow> unit result \<times> log_world" where
  "rename_segment l w =
     (case syscall w of
        (Fails _ e, w) \<Rightarrow> (Inl (io_err (partial_path l) e), w)
      | (Done, w) \<Rightarrow>
          (case map_of (w_files w) (cl_segment l, False) of
             None \<Rightarrow> (Inl (io_err (partial_path l) OS_MISSING), w)
           | Some b \<Rightarrow> (Inr (), w\<lparr> w_files := AList.update (cl_segment l, True) b (AList.delete (cl_segment l, False) (w_files w)) \<rparr>)))"

text \<open>The number behind the highest name in the directory.\<close>

definition next_segment :: "log_world \<Rightarrow> nat" where
  "next_segment w = foldl (\<lambda>m ((n, _), _). max m (n + 1)) 0 (w_files w)"

definition Changelog_open :: "string \<Rightarrow> changelog_config \<Rightarrow> bytes \<Rightarrow> log_world \<Rightarrow> changelog result \<times> log_world" where
  "Changelog_open dir cfg header w =
     (case syscall w of
        (Fails _ e, w) \<Rightarrow> (Inl (io_err dir e), w)
      | (Done, w) \<Rightarrow>
          (case syscall w of
             (Fails _ e, w) \<Rightarrow> (Inl (io_err dir e), w)
           | (Done, w) \<Rightarrow>
               let l = \<lparr> cl_dir = dir, cl_header = header, cl_cfg = cfg, cl_file = True, cl_segment = next_segment w, cl_written = 0,
                 cl_opened = w_now w, cl_pending = [], cl_staged = [], cl_dropped = 0, cl_last_error = None \<rparr>
               in (case create_segment l w of (Inl e, w) \<Rightarrow> (Inl e, w) | (Inr _, w) \<Rightarrow> (Inr l, w))))"

section \<open>Staging\<close>

definition stage :: "batch \<Rightarrow> changelog \<Rightarrow> nat \<times> changelog" where
  "stage ops l =
     (let ops = filter (\<lambda>(key, _). carried (cl_header l) key) ops; count = length ops in
      if count = 0 then (0, l\<lparr> cl_staged := [] \<rparr>)
      else
        let body = frame_put_len count @ concat (map (\<lambda>(key, value). case value of
              Some value \<Rightarrow> put_op_header OP_PUT (length key) (length value) @ key @ value
            | None \<Rightarrow> put_op_header OP_DELETE (length key) 0 @ key) ops)
        in if length body < 2 ^ 32 then (count, l\<lparr> cl_staged := be_bytes 4 (length body) @ body \<rparr>)
           else (0, l\<lparr> cl_staged := [] \<rparr>))"

section \<open>Writing\<close>

definition first_record_end :: "bytes \<Rightarrow> nat option" where
  "first_record_end b =
     (if length b < 4 then None
      else let end = 4 + be_val (take 4 b) in if end \<le> length b then Some end else None)"

lemma first_record_end_pos: "first_record_end b = Some e \<Longrightarrow> 4 \<le> e \<and> e \<le> length b"
  by (auto simp: first_record_end_def Let_def split: if_splits)

function trim_loop :: "nat \<Rightarrow> nat \<Rightarrow> bytes \<Rightarrow> nat \<times> bytes" where
  "trim_loop cap dropped pending =
     (if cap < length pending then
        (case first_record_end pending of
           None \<Rightarrow> (dropped + 1, [])
         | Some end \<Rightarrow> trim_loop cap (dropped + 1) (drop end pending))
      else (dropped, pending))"
  by pat_completeness auto

termination
  by (relation "measure (\<lambda>(_, _, p). length p)") (auto dest: first_record_end_pos)

declare trim_loop.simps [simp del]

definition trim_to_cap :: "changelog \<Rightarrow> nat \<times> changelog" where
  "trim_to_cap l = map_prod id (\<lambda>p. l\<lparr> cl_pending := p \<rparr>) (trim_loop (max (lc_buffer_bytes (cl_cfg l) * 8) 1) 0 (cl_pending l))"

definition append_file :: "segment_file \<Rightarrow> bytes \<Rightarrow> log_world \<Rightarrow> log_world" where
  "append_file f b w = w\<lparr> w_files := AList.update f ((case map_of (w_files w) f of Some a \<Rightarrow> a | None \<Rightarrow> []) @ b) (w_files w) \<rparr>"

text \<open>A failure is recorded in the status.\<close>

definition note_failure :: "string \<Rightarrow> 'a log_io" where
  "note_failure what = (\<lambda>(l, w). (Inl (Changelog what), (l\<lparr> cl_last_error := Some what \<rparr>, w)))"

definition sync_data :: "unit log_io" where
  "sync_data = (\<lambda>(l, w).
     if lc_sync (cl_cfg l)
     then (case syscall w of
             (Done, w) \<Rightarrow> (Inr (), (l, w))
           | (Fails _ e, w) \<Rightarrow> note_failure (partial_path l @ '': '' @ e) (l, w))
     else (Inr (), (l, w)))"

definition write_pending :: "unit log_io" where
  "write_pending = (\<lambda>(l, w).
     if cl_pending l = [] then (Inr (), (l, w))
     else if \<not> cl_file l then note_failure (partial_path l @ '': segment handle is closed'') (l, w)
     else case syscall w of
       (Done, w) \<Rightarrow>
         sync_data (l\<lparr> cl_written := cl_written l + length (cl_pending l), cl_pending := [] \<rparr>,
           append_file (cl_segment l, False) (cl_pending l) w)
     | (Fails n e, w) \<Rightarrow>
         (case trim_to_cap l of
            (d, l') \<Rightarrow> note_failure (partial_path l @ '': '' @ e)
              (l'\<lparr> cl_dropped := cl_dropped l + d \<rparr>, append_file (cl_segment l, False) (take n (cl_pending l)) w)))"

definition on_world :: "(changelog \<Rightarrow> log_world \<Rightarrow> unit result \<times> log_world) \<Rightarrow> unit log_io" where
  "on_world f = (\<lambda>(l, w). case f l w of (r, w) \<Rightarrow> (r, (l, w)))"

definition modify_log :: "(changelog \<Rightarrow> changelog) \<Rightarrow> unit log_io" where
  "modify_log f = (\<lambda>(l, w). (Inr (), (f l, w)))"

definition seal :: "unit log_io" where
  "seal =
     iobind write_pending (\<lambda>_.
     iobind (modify_log (\<lambda>l. l\<lparr> cl_file := False \<rparr>)) (\<lambda>_.
     iobind (on_world rename_segment) (\<lambda>_. (\<lambda>(l, w).
     iobind (modify_log (\<lambda>l. l\<lparr> cl_segment := cl_segment l + 1, cl_written := 0, cl_opened := w_now w \<rparr>)) (\<lambda>_.
     iobind (on_world create_segment) (\<lambda>_.
       modify_log (\<lambda>l. l\<lparr> cl_file := True \<rparr>))) (l, w)))))"

definition maybe_rotate :: "unit log_io" where
  "maybe_rotate = (\<lambda>(l, w).
     let total = cl_written l + length (cl_pending l);
         by_bytes = lc_segment_bytes (cl_cfg l) \<le> total;
         by_age = lc_segment_seconds (cl_cfg l) \<le> w_now w - cl_opened l in
     if \<not> (by_bytes \<or> by_age) \<or> total = 0 then (Inr (), (l, w)) else seal (l, w))"

definition commit_staged :: "unit log_io" where
  "commit_staged = (\<lambda>(l, w).
     if cl_staged l = [] then (Inr (), (l, w))
     else
       let l = l\<lparr> cl_pending := cl_pending l @ cl_staged l, cl_staged := [] \<rparr>;
           buffered = cl_written l + length (cl_pending l) in
       iobind (if lc_buffer_bytes (cl_cfg l) \<le> length (cl_pending l) \<or> lc_segment_bytes (cl_cfg l) \<le> buffered
               then write_pending else ioret ()) (\<lambda>_. maybe_rotate) (l, w))"

text \<open>\<open>Drop\<close>: the failures have nobody to report to.\<close>

definition Changelog_drop :: "changelog \<times> log_world \<Rightarrow> log_world" where
  "Changelog_drop = (\<lambda>s.
     case snd (write_pending s) of (l, w) \<Rightarrow> if 0 < cl_written l then snd (rename_segment l w) else w)"

record changelog_status =
  st_segment :: nat
  st_segment_written :: nat
  st_pending_bytes :: nat
  st_records_dropped :: nat
  st_last_error :: "string option"

definition Changelog_status :: "changelog \<Rightarrow> changelog_status" where
  "Changelog_status l = \<lparr> st_segment = cl_segment l, st_segment_written = cl_written l, st_pending_bytes = length (cl_pending l),
     st_records_dropped = cl_dropped l, st_last_error = cl_last_error l \<rparr>"

section \<open>The hook of a collection\<close>

text \<open>\<open>Collection::commit\<close> with a log: staged before the engine's commit, appended behind it.\<close>

definition commit_logged :: "'s storage \<Rightarrow> batch \<Rightarrow> ('s \<times> changelog \<times> log_world, unit) io" where
  "commit_logged S ops = (\<lambda>(s, l, w).
     let l = snd (stage ops l) in
     case scommit_batch S ops s of
       (Inl e, s) \<Rightarrow> (Inl e, (s, l, w))
     | (Inr _, s) \<Rightarrow> (Inr (), (s, snd (commit_staged (l, w)))))"

section \<open>Reading\<close>

text \<open>In name order, which is the order of the numbers below ten to the eighth.\<close>

definition sealed_segments :: "log_world \<Rightarrow> nat list" where
  "sealed_segments w = sort (map fst (filter snd (map fst (w_files w))))"

function frames_loop :: "string \<Rightarrow> bool \<Rightarrow> bytes \<Rightarrow> wire_op list list \<Rightarrow> wire_op list list result" where
  "frames_loop path strict b out =
     (if length b < 4
      then (if b \<noteq> [] \<and> strict then Inl (Changelog (path @ '': trailing bytes without a length prefix'')) else Inr out)
      else
        let len = be_val (take 4 b) in
        if length b < 4 + len
        then (if strict then Inl (Changelog (path @ '': record length runs past the end of the file'')) else Inr out)
        else (case OpFrame_decode (take len (drop 4 b)) of
                None \<Rightarrow> Inl (Changelog (path @ '': record body is not a valid op frame''))
              | Some frame \<Rightarrow> frames_loop path strict (drop (4 + len) b) (out @ [frame])))"
  by pat_completeness auto

termination
  by (relation "measure (\<lambda>(_, _, b, _). length b)") auto

declare frames_loop.simps [simp del]

definition frames_of :: "string \<Rightarrow> bool \<Rightarrow> bytes \<Rightarrow> wire_op list list result" where
  "frames_of path strict b = frames_loop path strict b []"

definition read_sealed :: "string \<Rightarrow> bytes \<Rightarrow> wire_op list list result" where
  "read_sealed path b = frames_of path True b"

definition read_open_tail :: "string \<Rightarrow> bytes \<Rightarrow> wire_op list list result" where
  "read_open_tail path b = frames_of path False b"

section \<open>Records\<close>

definition record_of :: "wire_op list \<Rightarrow> bytes" where
  "record_of f = be_bytes 4 (length (OpFrame_encode f)) @ OpFrame_encode f"

abbreviation records :: "wire_op list list \<Rightarrow> bytes" where
  "records fs \<equiv> concat (map record_of fs)"

definition frame_ok :: "wire_op list \<Rightarrow> bool" where
  "frame_ok f \<longleftrightarrow> ops_valid f \<and> length (OpFrame_encode f) < 2 ^ 32"

text \<open>The frame of a batch: its carried half, unless that is empty or too long for its prefix.\<close>

definition frame_of :: "bytes \<Rightarrow> batch \<Rightarrow> wire_op list option" where
  "frame_of header ops =
     (let f = write_batch (filter (\<lambda>(key, _). carried header key) ops) in
      if f = [] \<or> 2 ^ 32 \<le> length (OpFrame_encode f) then None else Some f)"

lemma stage_frame:
  "snd (stage ops l) = l\<lparr> cl_staged := (case frame_of (cl_header l) ops of None \<Rightarrow> [] | Some f \<Rightarrow> record_of f) \<rparr>"
proof -
  have eq: "(\<lambda>(key, value). case value of
        Some value \<Rightarrow> put_op_header OP_PUT (length key) (length value) @ key @ value
      | None \<Rightarrow> put_op_header OP_DELETE (length key) 0 @ key) =
    put_op \<circ> (\<lambda>(k, v). case v of Some v \<Rightarrow> (OP_PUT, k, v) | None \<Rightarrow> (OP_DELETE, k, []))"
    by (auto simp: fun_eq_iff put_op_def split: option.splits)
  have "concat (map (\<lambda>(key, value). case value of
        Some value \<Rightarrow> put_op_header OP_PUT (length key) (length value) @ key @ value
      | None \<Rightarrow> put_op_header OP_DELETE (length key) 0 @ key) cs) = concat (map put_op (write_batch cs))" for cs
    unfolding eq by (simp add: write_batch_def)
  then show ?thesis
    by (simp add: stage_def frame_of_def Let_def record_of_def OpFrame_encode_def write_batch_def [of "filter _ _", symmetric])
       (auto simp: write_batch_def OpFrame_encode_def)
qed

lemma frame_of_ok: "frame_of header ops = Some f \<Longrightarrow> ops_valid (write_batch ops) \<Longrightarrow> frame_ok f"
proof -
  assume f: "frame_of header ops = Some f" and v: "ops_valid (write_batch ops)"
  have "f = write_batch (filter (\<lambda>(key, _). carried header key) ops)" "length (OpFrame_encode f) < 2 ^ 32"
    using f by (auto simp: frame_of_def Let_def not_le split: if_splits)
  then show ?thesis using v le_less_trans [OF length_filter_le]
    by (auto simp: frame_ok_def ops_valid_def write_batch_def list_all_iff)
qed

lemma record_pos: "4 \<le> length (record_of f)"
  by (simp add: record_of_def)

lemma records_Nil [simp]: "records fs = [] \<longleftrightarrow> fs = []"
  using record_pos by (cases fs) (auto simp: record_of_def simp del: be_bytes.simps)

lemma record_prefix: "frame_ok f \<Longrightarrow> be_val (take 4 (record_of f @ r)) = length (OpFrame_encode f)"
  by (simp add: record_of_def frame_ok_def)

lemma loop_record:
  assumes "frame_ok f"
  shows "frames_loop path strict (record_of f @ r) out = frames_loop path strict r (out @ [f])"
proof -
  have "OpFrame_decode (OpFrame_encode f) = Some f" "length (OpFrame_encode f) < 256 ^ 4"
    using assms OpFrame_get_put [of f "[]"] by (simp_all add: frame_ok_def OpFrame_decode_def)
  then show ?thesis by (subst frames_loop.simps) (simp add: record_of_def Let_def)
qed

lemma frames_loop_records:
  "\<forall>f \<in> set fs. frame_ok f \<Longrightarrow> frames_loop path strict (records fs @ r) out = frames_loop path strict r (out @ fs)"
  by (induction fs arbitrary: out) (simp_all add: loop_record)

lemma read_records: "\<forall>f \<in> set fs. frame_ok f \<Longrightarrow> frames_of path strict (records fs) = Inr fs"
  using frames_loop_records [of fs path strict "[]" "[]"] by (simp add: frames_of_def frames_loop.simps [of _ _ "[]"])

text \<open>A cut leaves whole records and a piece of the next one.\<close>

lemma cut_records:
  "k \<le> length (records fs) \<Longrightarrow> \<exists>j p. j \<le> length fs \<and> take k (records fs) = records (take j fs) @ p \<and>
     (p = [] \<or> j < length fs \<and> p = take (length p) (record_of (fs ! j)) \<and> length p < length (record_of (fs ! j)))"
proof (induction fs arbitrary: k)
  case (Cons f fs)
  show ?case
  proof (cases "k < length (record_of f)")
    case True
    then have "take k (records (f # fs)) = take k (record_of f)" by simp
    then show ?thesis using True by (intro exI [of _ 0] exI [of _ "take k (record_of f)"]) auto
  next
    case False
    have "k - length (record_of f) \<le> length (records fs)" using Cons.prems by simp
    from Cons.IH [OF this] obtain j p where "j \<le> length fs" "take (k - length (record_of f)) (records fs) = records (take j fs) @ p"
      "p = [] \<or> j < length fs \<and> p = take (length p) (record_of (fs ! j)) \<and> length p < length (record_of (fs ! j))"
      by blast
    then show ?thesis using False by (intro exI [of _ "Suc j"] exI [of _ p]) auto
  qed
qed simp

lemma frames_loop_torn:
  assumes "frame_ok f" "p = take (length p) (record_of f)" "length p < length (record_of f)"
  shows "frames_loop path False p out = Inr out"
proof (cases "length p < 4")
  case False
  have "take 4 p = take 4 (record_of f)" using assms(2) False by (metis min.absorb1 not_less take_take)
  then have "be_val (take 4 p) = length (OpFrame_encode f)" using record_prefix [OF assms(1), of "[]"] by simp
  moreover have "length p < 4 + length (OpFrame_encode f)" using assms(3) by (simp add: record_of_def)
  ultimately show ?thesis using False by (subst frames_loop.simps) (simp add: Let_def)
qed (subst frames_loop.simps, simp)

lemma trim_records:
  "\<forall>f \<in> set fs. frame_ok f \<Longrightarrow> \<exists>j \<le> length fs. trim_loop cap d (records fs) = (d + j, records (drop j fs)) \<and>
     length (records (drop j fs)) \<le> cap"
proof (induction fs arbitrary: d)
  case (Cons f fs)
  show ?case
  proof (cases "cap < length (records (f # fs))")
    case True
    have "first_record_end (records (f # fs)) = Some (length (record_of f))"
      using record_prefix [of f "records fs"] Cons.prems by (simp add: first_record_end_def Let_def record_of_def)
    then have "trim_loop cap d (records (f # fs)) = trim_loop cap (d + 1) (records fs)"
      using True by (subst trim_loop.simps) simp
    moreover obtain j where "j \<le> length fs" "trim_loop cap (d + 1) (records fs) = (d + 1 + j, records (drop j fs))"
      "length (records (drop j fs)) \<le> cap"
      using Cons by (metis list.set_intros(2))
    ultimately show ?thesis by (intro exI [of _ "Suc j"]) simp
  next
    case False
    then have "trim_loop cap d (records (f # fs)) = (d, records (f # fs))" by (subst trim_loop.simps) simp
    then show ?thesis using False by (intro exI [of _ 0]) (simp del: concat.simps list.map)
  qed
qed (simp add: trim_loop.simps)

section \<open>A log whose calls succeed\<close>

text \<open>
  From segment \<open>n0\<close> on the directory holds the sealed segments \<open>S\<close> and the open one with \<open>cur\<close>;
  \<open>pend\<close> is still buffered.
\<close>

definition log_holds :: "nat \<Rightarrow> wire_op list list list \<Rightarrow> wire_op list list \<Rightarrow> wire_op list list \<Rightarrow> changelog \<times> log_world \<Rightarrow> bool" where
  "log_holds n0 S cur pend = (\<lambda>(l, w).
     w_outcomes w = [] \<and> distinct (map fst (w_files w)) \<and> cl_file l \<and> cl_segment l = n0 + length S \<and>
     cl_written l = length (records cur) \<and> cl_pending l = records pend \<and>
     (\<forall>n \<ge> n0. map_of (w_files w) (n, True) = (if n < n0 + length S then Some (records (S ! (n - n0))) else None)) \<and>
     (\<forall>n \<ge> n0. map_of (w_files w) (n, False) = (if n = n0 + length S then Some (records cur) else None)))"

lemma syscall_done [simp]: "w_outcomes w = [] \<Longrightarrow> syscall w = (Done, w)"
  by (simp add: syscall_def)

lemma map_of_update: "map_of (AList.update k v al) = (map_of al)(k \<mapsto> v)"
  by (rule update_conv')

lemma map_of_delete: "map_of (AList.delete k al) = (map_of al)(k := None)"
  by (rule delete_conv')

lemma write_holds:
  assumes "log_holds n0 S cur pend (l, w)"
  shows "\<exists>l' w'. write_pending (l, w) = (Inr (), (l', w')) \<and> log_holds n0 S (cur @ pend) [] (l', w') \<and>
    cl_header l' = cl_header l \<and> cl_staged l' = cl_staged l"
proof (cases "pend = []")
  case True
  then show ?thesis using assms by (simp add: write_pending_def log_holds_def)
next
  case False
  have "map_of (w_files w) (cl_segment l, False) = Some (records cur)" using assms by (simp add: log_holds_def)
  then show ?thesis using assms False
    by (auto simp: write_pending_def log_holds_def sync_data_def append_file_def map_of_update distinct_update)
qed

lemma seal_holds:
  assumes "log_holds n0 S cur pend (l, w)"
  shows "\<exists>l' w'. seal (l, w) = (Inr (), (l', w')) \<and> log_holds n0 (S @ [cur @ pend]) [] [] (l', w') \<and>
    cl_header l' = cl_header l \<and> cl_staged l' = cl_staged l"
proof -
  obtain l1 w1 where 1: "write_pending (l, w) = (Inr (), (l1, w1))" "log_holds n0 S (cur @ pend) [] (l1, w1)"
    "cl_header l1 = cl_header l" "cl_staged l1 = cl_staged l" using write_holds [OF assms] by blast
  have at1: "map_of (w_files w1) (cl_segment l1, False) = Some (records (cur @ pend))" "w_outcomes w1 = []"
    "map_of (w_files w1) (Suc (cl_segment l1), False) = None" "distinct (map fst (w_files w1))" "cl_segment l1 = n0 + length S"
    using 1(2) by (simp_all add: log_holds_def)
  define w2 where "w2 = w1\<lparr> w_files := AList.update (cl_segment l1, True) (records (cur @ pend)) (AList.delete (cl_segment l1, False) (w_files w1)) \<rparr>"
  define l2 where "l2 = l1\<lparr> cl_file := True, cl_segment := cl_segment l1 + 1, cl_written := 0, cl_opened := w_now w2 \<rparr>"
  define w3 where "w3 = w2\<lparr> w_files := AList.update (cl_segment l1 + 1, False) [] (w_files w2) \<rparr>"
  have "seal (l, w) = (Inr (), (l2, w3))"
    using 1(1) at1 by (simp add: seal_def iobind_def modify_log_def on_world_def rename_segment_def create_segment_def
        map_of_update map_of_delete w2_def l2_def w3_def)
  moreover have "log_holds n0 (S @ [cur @ pend]) [] [] (l2, w3)"
  proof -
    have "map_of (w_files w3) (n, True) = (if n < n0 + length (S @ [cur @ pend]) then Some (records ((S @ [cur @ pend]) ! (n - n0))) else None)"
      "map_of (w_files w3) (n, False) = (if n = n0 + length (S @ [cur @ pend]) then Some (records []) else None)" if "n0 \<le> n" for n
      using 1(2) that at1(5) by (auto simp: w3_def w2_def map_of_update map_of_delete log_holds_def nth_append less_Suc_eq)
    then show ?thesis unfolding log_holds_def prod.case
      using at1 1(2) by (simp add: w3_def w2_def l2_def distinct_update distinct_delete log_holds_def)
  qed
  ultimately show ?thesis using 1(3,4) by (intro exI [of _ l2] exI [of _ w3]) (simp add: l2_def)
qed

lemma rotate_holds:
  assumes "log_holds n0 S cur pend (l, w)"
  shows "\<exists>S' cur' pend' l' w'. maybe_rotate (l, w) = (Inr (), (l', w')) \<and> log_holds n0 S' cur' pend' (l', w') \<and>
    concat S' @ cur' @ pend' = concat S @ cur @ pend \<and> cl_header l' = cl_header l \<and> cl_staged l' = cl_staged l"
proof (cases "maybe_rotate (l, w) = (Inr (), (l, w))")
  case True
  then show ?thesis using assms by blast
next
  case False
  then have "maybe_rotate (l, w) = seal (l, w)" by (auto simp: maybe_rotate_def Let_def split: if_splits)
  moreover obtain l' w' where "seal (l, w) = (Inr (), (l', w'))" "log_holds n0 (S @ [cur @ pend]) [] [] (l', w')"
    "cl_header l' = cl_header l" "cl_staged l' = cl_staged l" using seal_holds [OF assms] by blast
  moreover have "concat (S @ [cur @ pend]) @ [] @ [] = concat S @ cur @ pend" by simp
  ultimately show ?thesis by metis
qed

lemma commit_holds:
  assumes "log_holds n0 S cur pend (l, w)" "cl_staged l = (case f of None \<Rightarrow> [] | Some f \<Rightarrow> record_of f)"
  shows "\<exists>S' cur' pend' l' w'. commit_staged (l, w) = (Inr (), (l', w')) \<and> log_holds n0 S' cur' pend' (l', w') \<and>
    concat S' @ cur' @ pend' = concat S @ cur @ pend @ (case f of None \<Rightarrow> [] | Some f \<Rightarrow> [f]) \<and> cl_header l' = cl_header l"
proof (cases f)
  case None
  then show ?thesis using assms by (auto simp: commit_staged_def)
next
  case (Some f)
  let ?l = "l\<lparr> cl_pending := cl_pending l @ cl_staged l, cl_staged := [] \<rparr>"
  have ne: "cl_staged l \<noteq> []" using assms(2) Some record_pos [of f] by auto
  have h: "log_holds n0 S cur (pend @ [f]) (?l, w)" using assms Some by (simp add: log_holds_def)
  obtain cur1 pend1 l1 w1 where 1: "(if lc_buffer_bytes (cl_cfg ?l) \<le> length (cl_pending ?l) \<or>
        lc_segment_bytes (cl_cfg ?l) \<le> cl_written ?l + length (cl_pending ?l) then write_pending else ioret ()) (?l, w) = (Inr (), (l1, w1))"
    "log_holds n0 S cur1 pend1 (l1, w1)" "cur1 @ pend1 = cur @ pend @ [f]" "cl_header l1 = cl_header l"
  proof (cases "lc_buffer_bytes (cl_cfg ?l) \<le> length (cl_pending ?l) \<or> lc_segment_bytes (cl_cfg ?l) \<le> cl_written ?l + length (cl_pending ?l)")
    case True
    then show thesis using write_holds [OF h] that [of _ _ "cur @ pend @ [f]" "[]"] by (simp only: if_True append_Nil2) auto
  next
    case False
    then show thesis using h that [of ?l w cur "pend @ [f]"] by (simp only: if_False) simp
  qed
  have run: "commit_staged (l, w) = maybe_rotate (l1, w1)"
    using ne 1(1) by (simp add: commit_staged_def Let_def iobind_def)
  have all: "concat S @ cur1 @ pend1 = concat S @ cur @ pend @ (case Some f of None \<Rightarrow> [] | Some f \<Rightarrow> [f])" using 1(3) by simp
  show ?thesis unfolding run Some using rotate_holds [OF 1(2)] 1(4) unfolding all by metis
qed

lemma open_holds:
  assumes "Changelog_open dir cfg header w = (Inr l, w1)" "w_outcomes w = []" "distinct (map fst (w_files w))"
  shows "log_holds (cl_segment l) [] [] [] (l, w1) \<and> cl_header l = header \<and> cl_staged l = []"
proof -
  have bound: "fst k < foldl (\<lambda>m ((n, _), _). max m (n + 1)) m0 fs" if "k \<in> set (map fst fs)" for k and fs :: "(segment_file \<times> bytes) list" and m0
    using that
  proof (induction fs arbitrary: m0 rule: rev_induct)
    case (snoc x fs)
    then show ?case by (cases x) (fastforce simp: less_max_iff_disj)
  qed simp
  have none: "map_of (w_files w) (n, b) = None" if "next_segment w \<le> n" for n b
    using that bound [of "(n, b)" "w_files w" 0] by (auto simp: map_of_eq_None_iff next_segment_def)
  then show ?thesis using assms
    by (auto simp: Changelog_open_def create_segment_def Let_def log_holds_def map_of_update distinct_update split: if_splits)
qed

text \<open>Commits at given times, on an engine that may refuse them.\<close>

fun log_history :: "'s storage \<Rightarrow> (nat \<times> batch) list \<Rightarrow> 's \<times> changelog \<times> log_world \<Rightarrow> unit result list \<times> ('s \<times> changelog \<times> log_world)" where
  "log_history S [] st = ([], st)"
| "log_history S ((t, ops) # bs) (s, l, w) =
     (case commit_logged S ops (s, l, w\<lparr> w_now := t \<rparr>) of (r, st) \<Rightarrow> map_prod (\<lambda>rs. r # rs) id (log_history S bs st))"

text \<open>The frames of the batches the engine accepted.\<close>

definition accepted_frames :: "bytes \<Rightarrow> unit result list \<Rightarrow> (nat \<times> batch) list \<Rightarrow> wire_op list list" where
  "accepted_frames header rs bs = List.map_filter (\<lambda>(r, (_, ops)). if r = Inr () then frame_of header ops else None) (zip rs bs)"

lemma history_holds:
  assumes "log_holds n0 S cur pend (l, w)"
  shows "\<exists>S' cur' pend' s' l' w' rs. log_history E bs (s, l, w) = (rs, (s', l', w')) \<and> log_holds n0 S' cur' pend' (l', w') \<and>
    concat S' @ cur' @ pend' = concat S @ cur @ pend @ accepted_frames (cl_header l) rs bs"
  using assms
proof (induction bs arbitrary: S cur pend s l w)
  case Nil
  then show ?case by (auto simp: accepted_frames_def)
next
  case (Cons b bs)
  obtain t ops where b: "b = (t, ops)" by (cases b)
  let ?w = "w\<lparr> w_now := t \<rparr>"
  let ?l = "l\<lparr> cl_staged := (case frame_of (cl_header l) ops of None \<Rightarrow> [] | Some f \<Rightarrow> record_of f) \<rparr>"
  have h: "log_holds n0 S cur pend (?l, ?w)" using Cons.prems by (simp add: log_holds_def)
  show ?case
  proof (cases "scommit_batch E ops s")
    case (Pair r s1)
    show ?thesis
    proof (cases r)
      case (Inl e)
      then have run: "commit_logged E ops (s, l, ?w) = (Inl e, (s1, ?l, ?w))" using Pair by (simp add: commit_logged_def stage_frame)
      obtain S' cur' pend' s' l' w' rs where 2: "log_history E bs (s1, ?l, ?w) = (rs, (s', l', w'))" "log_holds n0 S' cur' pend' (l', w')"
        "concat S' @ cur' @ pend' = concat S @ cur @ pend @ accepted_frames (cl_header l) rs bs"
        using Cons.IH [OF h, of s1] by auto
      have "log_history E (b # bs) (s, l, w) = (Inl e # rs, (s', l', w'))" using run 2(1) by (simp add: b)
      moreover have "accepted_frames (cl_header l) (Inl e # rs) (b # bs) = accepted_frames (cl_header l) rs bs"
        by (simp add: accepted_frames_def List.map_filter_simps b)
      ultimately show ?thesis using 2(2,3) by metis
    next
      case (Inr u)
      obtain S1 cur1 pend1 l1 w1 where 1: "commit_staged (?l, ?w) = (Inr (), (l1, w1))" "log_holds n0 S1 cur1 pend1 (l1, w1)"
        "concat S1 @ cur1 @ pend1 = concat S @ cur @ pend @ (case frame_of (cl_header l) ops of None \<Rightarrow> [] | Some f \<Rightarrow> [f])"
        "cl_header l1 = cl_header l"
        using commit_holds [OF h, of "frame_of (cl_header l) ops"] by auto
      have run: "commit_logged E ops (s, l, ?w) = (Inr (), (s1, l1, w1))" using Pair Inr 1(1) by (simp add: commit_logged_def stage_frame)
      obtain S2 cur2 pend2 s2 l2 w2 rs where 2: "log_history E bs (s1, l1, w1) = (rs, (s2, l2, w2))" "log_holds n0 S2 cur2 pend2 (l2, w2)"
        "concat S2 @ cur2 @ pend2 = concat S1 @ cur1 @ pend1 @ accepted_frames (cl_header l1) rs bs"
        using Cons.IH [OF 1(2), of s1] by blast
      have "accepted_frames (cl_header l) (Inr () # rs) (b # bs) =
          (case frame_of (cl_header l) ops of None \<Rightarrow> [] | Some f \<Rightarrow> [f]) @ accepted_frames (cl_header l) rs bs"
        by (simp add: accepted_frames_def List.map_filter_simps b split: option.split)
      then have "concat S2 @ cur2 @ pend2 = concat S @ cur @ pend @ accepted_frames (cl_header l) (Inr () # rs) (b # bs)"
        using 2(3) 1(3,4) by (simp flip: append_assoc)
      moreover have "log_history E (b # bs) (s, l, w) = (Inr () # rs, (s2, l2, w2))" using run 2(1) by (simp add: b)
      ultimately show ?thesis using 2(2) by blast
    qed
  qed
qed

lemma drop_holds:
  assumes "log_holds n0 S cur pend (l, w)"
  shows "\<exists>S' w'. Changelog_drop (l, w) = w' \<and> concat S' = concat S @ cur @ pend \<and> distinct (map fst (w_files w')) \<and>
    (\<forall>n \<ge> n0. map_of (w_files w') (n, True) = (if n < n0 + length S' then Some (records (S' ! (n - n0))) else None))"
proof -
  obtain l1 w1 where 1: "write_pending (l, w) = (Inr (), (l1, w1))" "log_holds n0 S (cur @ pend) [] (l1, w1)"
    using write_holds [OF assms] by blast
  show ?thesis
  proof (cases "cur @ pend = []")
    case True
    then have "Changelog_drop (l, w) = w1" using 1 by (simp add: Changelog_drop_def log_holds_def)
    then show ?thesis using True 1(2) by (intro exI [of _ S] exI [of _ w1]) (simp add: log_holds_def)
  next
    case False
    have at1: "map_of (w_files w1) (cl_segment l1, False) = Some (records (cur @ pend))" "w_outcomes w1 = []"
      "distinct (map fst (w_files w1))" "cl_segment l1 = n0 + length S" "cl_written l1 = length (records (cur @ pend))"
      using 1(2) by (simp_all add: log_holds_def)
    define w2 where "w2 = w1\<lparr> w_files := AList.update (cl_segment l1, True) (records (cur @ pend)) (AList.delete (cl_segment l1, False) (w_files w1)) \<rparr>"
    have "records (cur @ pend) \<noteq> []" using False unfolding records_Nil .
    then have "Changelog_drop (l, w) = w2"
      using 1(1) at1 by (simp add: Changelog_drop_def rename_segment_def w2_def del: concat_append map_append)
    moreover have "map_of (w_files w2) (n, True) = (if n < n0 + length (S @ [cur @ pend]) then Some (records ((S @ [cur @ pend]) ! (n - n0))) else None)"
      if "n0 \<le> n" for n
      using 1(2) that at1(4) by (auto simp: w2_def map_of_update map_of_delete log_holds_def nth_append less_Suc_eq)
    moreover have "distinct (map fst (w_files w2))" using at1(3) by (simp add: w2_def distinct_update distinct_delete)
    ultimately show ?thesis by (intro exI [of _ "S @ [cur @ pend]"] exI [of _ w2]) simp
  qed
qed

text \<open>What a drainer reads: the sealed segments in order, strictly.\<close>

fun read_segments :: "string \<Rightarrow> log_world \<Rightarrow> nat list \<Rightarrow> wire_op list list result" where
  "read_segments path w [] = Inr []"
| "read_segments path w (n # ns) =
     rbind (read_sealed path (the (map_of (w_files w) (n, True)))) (\<lambda>fs. rbind (read_segments path w ns) (\<lambda>rest. Inr (fs @ rest)))"

lemma sealed_from:
  assumes "distinct (map fst (w_files w))" "\<forall>n \<ge> n0. map_of (w_files w) (n, True) \<noteq> None \<longleftrightarrow> n < n0 + m"
  shows "filter ((\<le>) n0) (sealed_segments w) = [n0 ..< n0 + m]"
proof -
  have "set (filter snd (map fst (w_files w))) = {k. snd k \<and> map_of (w_files w) k \<noteq> None}"
    by (auto simp: map_of_eq_None_iff)
  then have mem: "n \<in> set (sealed_segments w) \<longleftrightarrow> map_of (w_files w) (n, True) \<noteq> None" for n
    unfolding sealed_segments_def by (force simp: image_iff)
  have "distinct (map fst (filter snd (map fst (w_files w))))"
    using assms(1) by (auto simp: distinct_map inj_on_def)
  then have "distinct (filter ((\<le>) n0) (sealed_segments w))" "sorted (filter ((\<le>) n0) (sealed_segments w))"
    by (simp_all add: sealed_segments_def sorted_filter [of id, simplified])
  moreover have "set (filter ((\<le>) n0) (sealed_segments w)) = {n0 ..< n0 + m}"
    using mem assms(2) by auto
  ultimately show ?thesis by (intro sorted_distinct_set_unique) simp_all
qed

lemma read_segments_records:
  assumes "\<And>i. i < length S \<Longrightarrow> map_of (w_files w) (a + i, True) = Some (records (S ! i))" "\<forall>fs \<in> set S. \<forall>f \<in> set fs. frame_ok f"
  shows "read_segments path w [a ..< a + length S] = Inr (concat S)"
  using assms
proof (induction S arbitrary: a)
  case (Cons fs S)
  have "map_of (w_files w) (a, True) = Some (records fs)" using Cons.prems(1) [of 0] by simp
  moreover have "read_segments path w [Suc a ..< Suc a + length S] = Inr (concat S)"
    by (rule Cons.IH) (use Cons.prems(1) [of "Suc _"] Cons.prems(2) in auto)
  moreover have "[a ..< a + length (fs # S)] = a # [Suc a ..< Suc a + length S]" by (simp add: upt_conv_Cons del: upt_Suc)
  ultimately show ?case using Cons.prems(2) read_records [of fs path True]
    by (simp add: read_sealed_def del: upt_Suc)
qed simp

lemma accepted_ok:
  assumes "\<forall>(t, ops) \<in> set bs. ops_valid (write_batch ops)"
  shows "\<forall>f \<in> set (accepted_frames header rs bs). frame_ok f"
  using assms frame_of_ok by (fastforce simp: accepted_frames_def set_map_filter dest: set_zip_rightD split: if_splits)

section \<open>Properties\<close>

text \<open>
  C20: Where every file operation succeeds a change log is complete and in order: after any commits on
  any engine, with any rotation by size or age, a drainer that reads the segments sealed since the log
  was opened gets exactly the carried halves of the batches the engine accepted, one frame each, and
  nothing of a batch it refused.
\<close>

theorem changelog_complete:
  assumes "Changelog_open dir cfg header w = (Inr l, w1)" "w_outcomes w = []" "distinct (map fst (w_files w))"
    and "\<forall>(t, ops) \<in> set bs. ops_valid (write_batch ops)" "log_history S bs (s, l, w1) = (rs, (s', l', w'))"
  shows "read_segments path (Changelog_drop (l', w')) (filter ((\<le>) (cl_segment l)) (sealed_segments (Changelog_drop (l', w')))) =
    Inr (accepted_frames header rs bs)"
proof -
  let ?n = "cl_segment l"
  have o1: "log_holds ?n [] [] [] (l, w1)" "cl_header l = header" using open_holds [OF assms(1-3)] by simp_all
  obtain T cur pend where h: "log_holds ?n T cur pend (l', w')" "concat T @ cur @ pend = accepted_frames header rs bs"
    using history_holds [OF o1(1), where E = S and bs = bs and s = s] assms(5) o1(2) by auto
  obtain T' w2 where d: "Changelog_drop (l', w') = w2" "concat T' = accepted_frames header rs bs" "distinct (map fst (w_files w2))"
    "\<forall>n \<ge> ?n. map_of (w_files w2) (n, True) = (if n < ?n + length T' then Some (records (T' ! (n - ?n))) else None)"
    using drop_holds [OF h(1)] h(2) by auto
  have "filter ((\<le>) ?n) (sealed_segments w2) = [?n ..< ?n + length T']" by (rule sealed_from [OF d(3)]) (simp add: d(4))
  moreover have "read_segments path w2 [?n ..< ?n + length T'] = Inr (concat T')"
  proof (rule read_segments_records)
    show "\<forall>fs \<in> set T'. \<forall>f \<in> set fs. frame_ok f" using accepted_ok [OF assms(4), of header rs] unfolding d(2) [symmetric] by auto
  qed (simp add: d(4))
  ultimately show ?thesis unfolding d(1) d(2) by simp
qed


theorem changelog_complete_witness:
  "case Changelog_open ''t'' changelog_config_new [0, 1] \<lparr> w_files = [], w_outcomes = [], w_now = 0 \<rparr> of
     (Inr l, w1) \<Rightarrow>
       (case log_history mem_storage [(7, [([0, 1, 0, 5], Some [9])]), (400, [([0, 1, 0, 6], None)])] ([], l, w1) of
          (rs, (s', l', w')) \<Rightarrow>
            read_segments ''t'' (Changelog_drop (l', w')) (filter ((\<le>) (cl_segment l)) (sealed_segments (Changelog_drop (l', w')))) =
              Inr (accepted_frames [0, 1] rs [(7, [([0, 1, 0, 5], Some [9])]), (400, [([0, 1, 0, 6], None)])]))
   | _ \<Rightarrow> False"
proof -
  obtain l w1 where o: "Changelog_open ''t'' changelog_config_new [0, 1] \<lparr> w_files = [], w_outcomes = [], w_now = 0 \<rparr> = (Inr l, w1)"
    by (simp add: Changelog_open_def create_segment_def Let_def)
  obtain rs s' l' w' where h: "log_history mem_storage [(7, [([0, 1, 0, 5], Some [9])]), (400, [([0, 1, 0, 6], None)])] ([], l, w1) =
      (rs, (s', l', w'))"
    by (metis prod_cases4)
  show ?thesis unfolding o h prod.case sum.case
    by (rule changelog_complete [OF o _ _ _ h]) (simp_all add: ops_valid_def write_batch_def op_valid_def op_tags word_le_nat_alt)
qed


lemma strip_header_append [simp]: "strip_header h (h @ x) = Some x"
  by (simp add: strip_header_def)

lemma truth_slot_counting: "4096 \<le> unat sl \<Longrightarrow> truth_slot sl \<longleftrightarrow> drop_bit 12 sl = VOCAB_LABEL \<or> drop_bit 12 sl = VOCAB_ID"
  by (simp add: truth_slot_def FIXED_FACE_MAX_def word_le_nat_alt)

lemma carried_face:
  assumes "slot_valid sl"
  shows "carried header (face_key header sl @ row) \<longleftrightarrow> row \<noteq> [] \<and> truth_slot sl"
proof (cases "unat sl \<le> 15")
  case True
  have "ucast (word_of_nat (unat sl) :: byte) = sl" "(of_nat (unat sl) :: byte) = ucast sl"
    using True by (simp_all add: word_unat_eq_iff unsigned_ucast_eq unat_mod take_bit_eq_mod)
  then show ?thesis using True
    by (simp add: carried_def face_key_def slot_image_def FIXED_FACE_MAX_def word_le_nat_alt unsigned_ucast_eq take_bit_eq_mod)
next
  case False
  then have big: "4096 \<le> unat sl" using assms by (simp add: slot_valid_def)
  have lt: "unat sl < 256 ^ 2" using unsigned_less [of sl, where ?'a = nat] by simp
  define b1 b2 :: byte where b: "b1 = of_nat (unat sl div 256)" "b2 = of_nat (unat sl)"
  have img: "slot_image sl = [b1, b2]" using False by (simp add: slot_image_def be_bytes_2 b)
  have "16 \<le> unat b1" using big lt by (simp add: b unat_of_nat take_bit_eq_mod)
  moreover have "unat (ucast b1 :: u16) = unat b1"
  proof -
    have "unat b1 < 256" using unsigned_less [of b1, where ?'a = nat] by simp
    then have "unat b1 < 65536" by linarith
    then show ?thesis by (simp add: unsigned_ucast_eq take_bit_eq_mod)
  qed
  ultimately have hi: "\<not> ucast b1 \<le> FIXED_FACE_MAX" by (simp add: FIXED_FACE_MAX_def word_le_nat_alt)
  have "of_nat (be_val (slot_image sl)) = sl" using False lt by (simp add: slot_image_def del: be_bytes.simps)
  then have val: "of_nat (be_val [b1, b2]) = sl" by (simp only: img)
  show ?thesis unfolding carried_def face_key_def img append_assoc strip_header_append
    by (simp add: hi val del: be_val.simps)
qed

lemma carried_faced:
  assumes "carried header key"
  shows "\<exists>sl row. slot_valid sl \<and> key = face_key header sl @ row"
proof -
  have "take (length header) key = header" "drop (length header) key \<noteq> []"
    using assms by (auto simp: carried_def strip_header_def split: if_splits)
  then obtain first rest where drop: "drop (length header) key = first # rest" and key: "key = header @ first # rest"
    by (metis append_take_drop_id neq_Nil_conv)
  have rest: "ucast first \<le> FIXED_FACE_MAX \<or> rest \<noteq> []"
    using assms by (auto simp: carried_def key)
  have lt: "unat first < 256" using unsigned_less [of first, where ?'a = nat] by simp
  then have "unat first < 65536" by linarith
  then have first: "unat (ucast first :: u16) = unat first"
    by (simp add: unsigned_ucast_eq take_bit_eq_mod)
  show ?thesis
  proof (cases "unat first \<le> 15")
    case True
    then have "slot_valid (ucast first)" "key = face_key header (ucast first) @ rest"
      by (simp_all add: key face_key_def slot_image_def slot_valid_def first)
    then show ?thesis by blast
  next
    case False
    then obtain second tl where rest: "rest = second # tl"
      using rest by (cases rest) (simp_all add: FIXED_FACE_MAX_def word_le_nat_alt first)
    have sec: "unat second < 256" using unsigned_less [of second, where ?'a = nat] by simp
    obtain n where n_def: "n = unat first * 256 + unat second" by blast
    have n: "n < 65536" "4096 \<le> n" using lt sec False unfolding n_def by linarith+
    then have sl: "unat (of_nat n :: u16) = n" by (simp add: unat_of_nat take_bit_eq_mod)
    have "unat (of_nat n :: byte) = n mod 256" by (simp add: unat_of_nat take_bit_eq_mod)
    also have "\<dots> = unat second" using sec by (simp add: n_def)
    finally have "n div 256 = unat first" "(of_nat n :: byte) = second"
      using sec by (simp_all add: n_def word_unat_eq_iff)
    then have "slot_image (of_nat n) = [first, second]"
      unfolding slot_image_def sl using n(2) by (simp add: be_bytes_2)
    then have "slot_valid (of_nat n)" "key = face_key header (of_nat n) @ tl"
      using n(2) by (simp_all only: key face_key_def slot_valid_def sl rest) simp_all
    then show ?thesis by blast
  qed
qed

lemma truth_slot_numbers: "slot_valid sl \<Longrightarrow> truth_slot sl \<longleftrightarrow> unat sl \<le> 5 \<or> unat sl div 4096 = 1 \<or> unat sl div 4096 = 2"
proof (cases "unat sl \<le> 15")
  case True
  then show ?thesis by (auto simp: truth_slot_def FIXED_FACE_MAX_def word_le_nat_alt slot_consts word_unat_eq_iff)
next
  case False
  moreover assume "slot_valid sl"
  ultimately have "4096 \<le> unat sl" by (simp add: slot_valid_def)
  then show ?thesis using drop_bit_eq_div [of 12 "unat sl"]
    by (simp add: truth_slot_counting VOCAB_LABEL_def VOCAB_ID_def word_unat_eq_iff unat_drop_bit_eq)
qed

text \<open>
  C22: The filter of a change log, for every key of a batch: it is carried exactly when it is a row
  (something behind the prefix of its face) of the log's own table in one of the faces that hold truth,
  which are the fixed faces 0 to 5 (rows, dynamic segments, both directions of the field and of the
  predicate vocabulary) and the counting families 1 and 2 (both directions of a categorical field).
  Traversal faces, index and reduce faces, the meta row, bare prefixes of faces (an allocation cursor)
  and the keys of another table never are.
\<close>

theorem carried_truth:
  "carried header key \<longleftrightarrow>
     (\<exists>sl row. key = face_key header sl @ row \<and> row \<noteq> [] \<and> (unat sl \<le> 5 \<or> unat sl div 4096 = 1 \<or> unat sl div 4096 = 2))"
proof -
  have valid: "slot_valid sl" if "unat sl \<le> 5 \<or> unat sl div 4096 = 1 \<or> unat sl div 4096 = 2" for sl :: u16
    using that div_less [of "unat sl" 4096] unfolding slot_valid_def by fastforce
  show ?thesis
  proof
    assume c: "carried header key"
    then obtain sl row where k: "slot_valid sl" "key = face_key header sl @ row" using carried_faced by blast
    with c show "\<exists>sl row. key = face_key header sl @ row \<and> row \<noteq> [] \<and> (unat sl \<le> 5 \<or> unat sl div 4096 = 1 \<or> unat sl div 4096 = 2)"
      using carried_face [OF k(1), of header row] truth_slot_numbers [OF k(1)] by (intro exI [of _ sl] exI [of _ row]) simp
  next
    assume "\<exists>sl row. key = face_key header sl @ row \<and> row \<noteq> [] \<and> (unat sl \<le> 5 \<or> unat sl div 4096 = 1 \<or> unat sl div 4096 = 2)"
    then obtain sl row where k: "key = face_key header sl @ row" "row \<noteq> []"
      and sl: "unat sl \<le> 5 \<or> unat sl div 4096 = 1 \<or> unat sl div 4096 = 2" by blast
    show "carried header key"
      using carried_face [OF valid [OF sl], of header row] truth_slot_numbers [OF valid [OF sl]] k sl by simp
  qed
qed

text \<open>
  C21: A crash while a segment is written costs only its tail: cut anywhere, the file reads as the
  records that are whole in it, in order, with no error and no invented frame.
\<close>

theorem open_tail_cut:
  assumes "\<forall>f \<in> set fs. frame_ok f" "k \<le> length (records fs)"
  shows "\<exists>j \<le> length fs. read_open_tail path (take k (records fs)) = Inr (take j fs) \<and>
    length (records (take j fs)) \<le> k \<and> (j < length fs \<longrightarrow> k < length (records (take (Suc j) fs)))"
proof -
  obtain j p where j: "j \<le> length fs" "take k (records fs) = records (take j fs) @ p"
    and p: "p = [] \<or> j < length fs \<and> p = take (length p) (record_of (fs ! j)) \<and> length p < length (record_of (fs ! j))"
    using cut_records [OF assms(2)] by blast
  have ok: "\<forall>f \<in> set (take j fs). frame_ok f" using assms(1) by (meson in_set_takeD)
  have "read_open_tail path (take k (records fs)) = frames_loop path False p (take j fs)"
    unfolding j(2) read_open_tail_def frames_of_def using frames_loop_records [OF ok, of path False p "[]"] by simp
  also have "\<dots> = Inr (take j fs)"
    using p
  proof
    assume "p = []"
    then show ?thesis by (simp add: frames_loop.simps)
  next
    assume "j < length fs \<and> p = take (length p) (record_of (fs ! j)) \<and> length p < length (record_of (fs ! j))"
    then show ?thesis using assms(1) by (intro frames_loop_torn [of "fs ! j"]) auto
  qed
  finally have "read_open_tail path (take k (records fs)) = Inr (take j fs)" .
  moreover have k: "k = length (records (take j fs)) + length p"
    using arg_cong [OF j(2), of length] assms(2) by simp
  moreover have "k < length (records (take (Suc j) fs))" if "j < length fs"
    using p k that record_pos [of "fs ! j"] by (auto simp: take_Suc_conv_app_nth)
  ultimately show ?thesis using j(1) by (intro exI [of _ j]) simp
qed

theorem open_tail_cut_witness:
  "\<exists>j \<le> 1. read_open_tail ''t'' (take 6 (records [[(OP_PUT, [1], [2])]])) = Inr (take j [[(OP_PUT, [1], [2])]])"
proof -
  have "frame_ok [(OP_PUT, [1], [2])]" "6 \<le> length (records [[(OP_PUT, [1], [2])]])"
    by (simp_all add: frame_ok_def ops_valid_def op_valid_def op_tags word_le_nat_alt OpFrame_encode_def record_of_def
        frame_put_len_def put_op_def put_op_header_def put_len_def)
  then show ?thesis using open_tail_cut [of "[[(OP_PUT, [1], [2])]]" 6 "''t''"] by auto
qed


lemma closed_commit:
  assumes "\<not> cl_file l" "cl_staged l = (case f of None \<Rightarrow> [] | Some f \<Rightarrow> record_of f)"
  shows "\<exists>l'. snd (commit_staged (l, w)) = (l', w) \<and> \<not> cl_file l' \<and> cl_header l' = cl_header l \<and> cl_dropped l' = cl_dropped l \<and>
    cl_pending l' = cl_pending l @ (case f of None \<Rightarrow> [] | Some f \<Rightarrow> record_of f)"
proof (cases f)
  case None
  then show ?thesis using assms by (simp add: commit_staged_def)
next
  case (Some f)
  then have "cl_staged l \<noteq> []" using assms(2) record_pos [of f] by auto
  then show ?thesis using assms Some
    by (auto simp: commit_staged_def Let_def iobind_def ioret_def write_pending_def note_failure_def maybe_rotate_def seal_def)
qed

text \<open>Commits of the table and seals of its host, each at its time.\<close>

datatype log_call = Commit batch | Seal

fun log_calls :: "'s storage \<Rightarrow> (nat \<times> log_call) list \<Rightarrow> 's \<times> changelog \<times> log_world \<Rightarrow> unit result list \<times> ('s \<times> changelog \<times> log_world)" where
  "log_calls S [] st = ([], st)"
| "log_calls S ((t, c) # cs) (s, l, w) =
     (case (case c of
              Commit ops \<Rightarrow> commit_logged S ops (s, l, w\<lparr> w_now := t \<rparr>)
            | Seal \<Rightarrow> (case seal (l, w\<lparr> w_now := t \<rparr>) of (r, lw) \<Rightarrow> (r, (s, lw)))) of
        (r, st) \<Rightarrow> map_prod (\<lambda>rs. r # rs) id (log_calls S cs st))"

definition committed_frames :: "bytes \<Rightarrow> unit result list \<Rightarrow> (nat \<times> log_call) list \<Rightarrow> wire_op list list" where
  "committed_frames header rs cs =
     List.map_filter (\<lambda>(r, (_, c)). case c of Commit ops \<Rightarrow> if r = Inr () then frame_of header ops else None | Seal \<Rightarrow> None) (zip rs cs)"

lemma closed_seal:
  assumes "\<not> cl_file l" "cl_pending l \<noteq> []"
  shows "seal (l, w) = (Inl (Changelog (partial_path l @ '': segment handle is closed'')),
    (l\<lparr> cl_last_error := Some (partial_path l @ '': segment handle is closed'') \<rparr>, w))"
  using assms by (simp add: seal_def write_pending_def note_failure_def iobind_def)

text \<open>One call of a closed log with bytes in its buffer: no file changes, nothing is dropped.\<close>

lemma closed_call:
  assumes "\<not> cl_file l" "cl_pending l \<noteq> []"
  shows "\<exists>r s1 l1. log_calls S ((t, c) # cs) (s, l, w) = map_prod ((#) r) id (log_calls S cs (s1, l1, w\<lparr> w_now := t \<rparr>)) \<and>
    \<not> cl_file l1 \<and> cl_header l1 = cl_header l \<and> cl_dropped l1 = cl_dropped l \<and>
    cl_pending l1 = cl_pending l @ records (committed_frames (cl_header l) [r] [(t, c)]) \<and> (c = Seal \<longrightarrow> r \<noteq> Inr ())"
proof (cases c)
  case Seal
  let ?e = "partial_path l @ '': segment handle is closed''"
  show ?thesis using assms Seal
    by (intro exI [of _ "Inl (Changelog ?e)"] exI [of _ s] exI [of _ "l\<lparr> cl_last_error := Some ?e \<rparr>"])
      (simp add: closed_seal committed_frames_def List.map_filter_simps)
next
  case (Commit ops)
  let ?f = "frame_of (cl_header l) ops"
  let ?l = "l\<lparr> cl_staged := (case ?f of None \<Rightarrow> [] | Some f \<Rightarrow> record_of f) \<rparr>" and ?w = "w\<lparr> w_now := t \<rparr>"
  obtain l1 where c: "snd (commit_staged (?l, ?w)) = (l1, ?w)" "\<not> cl_file l1" "cl_header l1 = cl_header l" "cl_dropped l1 = cl_dropped l"
    "cl_pending l1 = cl_pending l @ (case ?f of None \<Rightarrow> [] | Some f \<Rightarrow> record_of f)"
    using closed_commit [of ?l ?f ?w] assms(1) by auto
  obtain r s1 where e: "scommit_batch S ops s = (r, s1)" by fastforce
  show ?thesis
  proof (cases r)
    case (Inl x)
    then show ?thesis using assms(1) e Commit
      by (intro exI [of _ r] exI [of _ s1] exI [of _ ?l])
        (simp add: commit_logged_def stage_frame committed_frames_def List.map_filter_simps)
  next
    case (Inr u)
    then show ?thesis using c e Commit
      by (intro exI [of _ r] exI [of _ s1] exI [of _ l1])
        (simp add: commit_logged_def stage_frame committed_frames_def List.map_filter_simps split: option.splits)
  qed
qed

text \<open>
  C23: A log whose handle a failed rename or create has closed, with a record in its buffer: through any
  later history of commits of the table and seals of the host no file changes and the handle stays
  closed, every seal fails, every batch the engine accepts is appended to the memory buffer and nothing
  of it is ever dropped, however small the buffer is configured. (With an empty buffer a seal still
  gets through, \<open>seal_reopens_empty\<close>: the first batch accepted behind the failure makes it final.)
\<close>

theorem closed_log_grows:
  assumes "\<not> cl_file l" "cl_pending l \<noteq> []" "log_calls S cs (s, l, w) = (rs, (s', l', w'))"
  shows "w_files w' = w_files w \<and> \<not> cl_file l' \<and> cl_dropped l' = cl_dropped l \<and>
    cl_pending l' = cl_pending l @ records (committed_frames (cl_header l) rs cs) \<and>
    length rs = length cs \<and> (\<forall>i < length cs. snd (cs ! i) = Seal \<longrightarrow> rs ! i \<noteq> Inr ())"
  using assms
proof (induction cs arbitrary: s l w rs)
  case Nil
  then show ?case by (simp add: committed_frames_def List.map_filter_simps)
next
  case (Cons tc cs)
  obtain t c where tc: "tc = (t, c)" by (cases tc)
  obtain r s1 l1 where run: "log_calls S ((t, c) # cs) (s, l, w) = map_prod ((#) r) id (log_calls S cs (s1, l1, w\<lparr> w_now := t \<rparr>))"
    and l1: "\<not> cl_file l1" "cl_header l1 = cl_header l" "cl_dropped l1 = cl_dropped l"
      "cl_pending l1 = cl_pending l @ records (committed_frames (cl_header l) [r] [(t, c)])" and fails: "c = Seal \<longrightarrow> r \<noteq> Inr ()"
    using closed_call [OF Cons.prems(1,2), of S t c cs s w] by blast
  obtain rs1 where rest: "log_calls S cs (s1, l1, w\<lparr> w_now := t \<rparr>) = (rs1, (s', l', w'))" "rs = r # rs1"
    using Cons.prems(3) run by (auto simp: tc map_prod_def split: prod.splits)
  have "cl_pending l1 \<noteq> []" using l1(4) Cons.prems(2) by simp
  moreover have "committed_frames (cl_header l) rs ((t, c) # cs) =
      committed_frames (cl_header l) [r] [(t, c)] @ committed_frames (cl_header l) rs1 cs"
    by (simp add: committed_frames_def List.map_filter_simps rest(2) split: option.split log_call.split)
  ultimately show ?case using Cons.IH [OF l1(1) _ rest(1)] l1 fails rest(2)
    by (auto simp: tc nth_Cons split: nat.splits)
qed

text \<open>A log with one record of a put in its buffer.\<close>

definition demo_frame :: "wire_op list" where
  "demo_frame = [(OP_PUT, [0, 1, 0, 5], [9])]"

definition demo_log :: "bytes \<Rightarrow> outcome list \<Rightarrow> changelog \<times> log_world" where
  "demo_log written os =
     (\<lparr> cl_dir = ''t'', cl_header = [0, 1], cl_cfg = changelog_config_new, cl_file = True, cl_segment = 0, cl_written = length written,
        cl_opened = 0, cl_pending = record_of demo_frame, cl_staged = [], cl_dropped = 0, cl_last_error = None \<rparr>,
      \<lparr> w_files = [((0, False), written)], w_outcomes = os, w_now = 0 \<rparr>)"

lemma demo_record: "record_of demo_frame = [0, 0, 0, 9, 1, 0, 4, 1, 0, 1, 0, 5, 9]"
proof -
  have "OpFrame_encode demo_frame = [1, 0, 4, 1, 0, 1, 0, 5, 9]" 
    by (simp add: demo_frame_def OpFrame_encode_def frame_put_len_def put_op_def put_op_header_def op_tags)
  moreover have "be_bytes 4 9 = [0, 0, 0, 9]"
  proof -
    have four: "(4 :: nat) = Suc (Suc (Suc (Suc 0)))" by simp
    show ?thesis unfolding four by simp
  qed
  moreover have "length [1 :: byte, 0, 4, 1, 0, 1, 0, 5, 9] = 9" by simp
  ultimately show ?thesis by (simp only: record_of_def append.simps)
qed


text \<open>
  A write that fails after some bytes is retried whole, and \<open>drop\<close> seals a segment whose last flush
  failed: either way the sealed segment does not read back.
\<close>

lemma retry_tears_segment:
  "\<exists>l w l' w'. write_pending (demo_log [] [Fails 6 ''full'']) = (Inl (Changelog (partial_path l @ '': full'')), (l, w)) \<and>
    seal (l, w) = (Inr (), (l', w')) \<and> sealed_segments w' = [0] \<and>
    read_segments ''s'' w' [0] = Inl (Changelog ''s: record length runs past the end of the file'')"
proof -
  have trim: "trim_loop 8388608 0 (record_of demo_frame) = (0, record_of demo_frame)"
    by (subst trim_loop.simps) (simp add: demo_record)
  have phantom: "OpFrame_decode [1, 0, 0, 0, 0, 9, 1, 0, 4] = Some [(OP_PUT, [], [])]" by code_simp
  have "frames_loop ''s'' True [1, 0, 1, 0, 5, 9] out = Inl (Changelog ''s: record length runs past the end of the file'')" for out
    by (subst frames_loop.simps) simp
  then have "frames_loop ''s'' True ([0, 0, 0, 9, 1, 0] @ record_of demo_frame) [] = Inl (Changelog ''s: record length runs past the end of the file'')"
    by (subst frames_loop.simps) (simp add: demo_record phantom)
  moreover define l where "l = (fst (demo_log [] []))\<lparr> cl_last_error := Some (partial_path (fst (demo_log [] [])) @ '': full'') \<rparr>"
  moreover define w where "w = (snd (demo_log [] []))\<lparr> w_files := [((0, False), [0, 0, 0, 9, 1, 0])] \<rparr>"
  moreover have "write_pending (demo_log [] [Fails 6 ''full'']) = (Inl (Changelog (partial_path l @ '': full'')), (l, w))"
    by (simp add: l_def w_def write_pending_def demo_log_def syscall_def trim_to_cap_def changelog_config_new_def trim [unfolded demo_record]
        note_failure_def partial_path_def append_file_def demo_record)
  moreover have "snd (snd (seal (l, w))) = w\<lparr> w_files := [((0, True), [0, 0, 0, 9, 1, 0] @ record_of demo_frame), ((1, False), [])] \<rparr>"
    by (simp add: l_def w_def seal_def write_pending_def demo_log_def syscall_def changelog_config_new_def append_file_def iobind_def modify_log_def
        on_world_def rename_segment_def create_segment_def sync_data_def demo_record)
  moreover have "fst (seal (l, w)) = Inr ()"
    by (simp add: l_def w_def seal_def write_pending_def demo_log_def syscall_def changelog_config_new_def append_file_def iobind_def modify_log_def
        on_world_def rename_segment_def create_segment_def sync_data_def demo_record)
  ultimately show ?thesis
    by (intro exI [of _ l] exI [of _ w] exI [of _ "fst (snd (seal (l, w)))"] exI [of _ "snd (snd (seal (l, w)))"])
      (simp add: sealed_segments_def read_sealed_def frames_of_def prod_eq_iff)
qed

lemma drop_seals_torn:
  "let w = Changelog_drop (demo_log (record_of demo_frame) [Fails 6 ''full'']) in
   sealed_segments w = [0] \<and> read_segments ''s'' w [0] = Inl (Changelog ''s: record length runs past the end of the file'')"
proof -
  have trim: "trim_loop 8388608 0 (record_of demo_frame) = (0, record_of demo_frame)"
    by (subst trim_loop.simps) (simp add: demo_record)
  have "frame_ok demo_frame" by (simp add: demo_frame_def frame_ok_def ops_valid_def op_valid_def op_tags word_le_nat_alt
        OpFrame_encode_def frame_put_len_def put_op_def put_op_header_def)
  then have "frames_loop ''s'' True (record_of demo_frame @ [0, 0, 0, 9, 1, 0]) [] = Inl (Changelog ''s: record length runs past the end of the file'')"
    by (simp add: loop_record) (subst frames_loop.simps, simp)
  then show ?thesis
    by (simp add: Changelog_drop_def write_pending_def demo_log_def syscall_def trim_to_cap_def changelog_config_new_def trim [unfolded demo_record] note_failure_def
        append_file_def rename_segment_def sealed_segments_def read_sealed_def frames_of_def demo_record Let_def)
qed

text \<open>A rename that fails leaves the log closed; while its buffer is empty another seal opens it again.\<close>

lemma seal_closes:
  "case seal (demo_log [] [Done, Fails 0 ''busy'']) of (r, (l, w)) \<Rightarrow> r \<noteq> Inr () \<and> \<not> cl_file l \<and> w_outcomes w = [] \<and> cl_header l = [0, 1] \<and>
     cl_pending l = [] \<and> map fst (w_files w) = [(0, False)] \<and> cl_segment l = 0"
  by (simp add: seal_def write_pending_def demo_log_def syscall_def sync_data_def changelog_config_new_def iobind_def modify_log_def on_world_def
      rename_segment_def append_file_def demo_record)

lemma seal_reopens_empty:
  "case seal (snd (seal (demo_log [] [Done, Fails 0 ''busy'']))) of (r, (l, w)) \<Rightarrow> r = Inr () \<and> cl_file l \<and> sealed_segments w = [0]"
  by (simp add: seal_def write_pending_def demo_log_def syscall_def sync_data_def changelog_config_new_def iobind_def modify_log_def on_world_def
      rename_segment_def create_segment_def append_file_def demo_record sealed_segments_def)

text \<open>After the failed rename one batch is accepted; then the host seals and the table commits again.\<close>

theorem closed_log_grows_witness:
  "\<exists>s l w. snd (commit_logged mem_storage [([0, 1, 0, 5], Some [9])] ([], snd (seal (demo_log [] [Done, Fails 0 ''busy''])))) = (s, l, w) \<and>
     (case log_calls mem_storage [(0, Seal), (9, Commit [([0, 1, 0, 6], Some [9])])] (s, l, w) of
        (rs, (s', l', w')) \<Rightarrow> w_files w' = w_files w \<and> \<not> cl_file l' \<and> rs ! 0 \<noteq> Inr () \<and>
          cl_pending l' = record_of demo_frame @ records (committed_frames [0, 1] rs [(0, Seal), (9, Commit [([0, 1, 0, 6], Some [9])])]))"
proof -
  let ?cs = "[(0, Seal), (9, Commit [([0, 1, 0, 6], Some [9])])]"
  obtain r l0 w0 where d: "seal (demo_log [] [Done, Fails 0 ''busy'']) = (r, (l0, w0))" by (metis prod_cases3)
  have c: "\<not> cl_file l0" "cl_header l0 = [0, 1]" "cl_pending l0 = []" using seal_closes unfolding d by simp_all
  have f: "frame_of [0, 1] [([0, 1, 0, 5], Some [9])] = Some demo_frame"
    by (simp add: frame_of_def Let_def carried_def strip_header_def truth_slot_def slot_consts FIXED_FACE_MAX_def write_batch_def demo_frame_def
        OpFrame_encode_def frame_put_len_def put_op_def put_op_header_def put_len_def op_tags word_le_nat_alt)
  obtain l where l: "snd (commit_staged (l0\<lparr> cl_staged := record_of demo_frame \<rparr>, w0)) = (l, w0)" "\<not> cl_file l" "cl_header l = [0, 1]"
      "cl_pending l = record_of demo_frame"
    using closed_commit [of "l0\<lparr> cl_staged := record_of demo_frame \<rparr>" "Some demo_frame" w0] c by auto
  have "mem_inv []" by (simp add: mem_inv_def)
  then obtain s where "scommit_batch mem_storage [([0, 1, 0, 5], Some [9])] [] = (Inr (), s)"
    using kv_point.commit_ok [OF mem.kv_point_axioms] by blast
  then obtain s where s: "snd (commit_logged mem_storage [([0, 1, 0, 5], Some [9])] ([], snd (r, l0, w0))) = (s, l, w0)"
    using l(1) by (simp add: commit_logged_def stage_frame c(2) f Let_def)
  obtain rs s' l' w' where h: "log_calls mem_storage ?cs (s, l, w0) = (rs, (s', l', w'))" by (metis prod_cases4)
  have "cl_pending l \<noteq> []" using l(4) demo_record by simp
  from closed_log_grows [OF l(2) this h] show ?thesis
    unfolding d using s h l by (intro exI [of _ s] exI [of _ l] exI [of _ w0]) (auto dest: spec [of _ 0])
qed

end
