(* ===== verification/Okm_Graph.thy ===== *)
theory Okm_Graph
  imports Okm_Object
begin

text \<open>
  Graph edges: \<open>okm-core/src/model/graph.rs\<close>. An edge is a row of its namespace (endpoints by
  reference, predicate by vocabulary id, payload of the declaration's type) with four traversal
  faces and the declared ones. A graph handle is the store with the cache of the predicate
  vocabulary; a declaration is a document keyed by \<open>EdgeKey\<close> with its member namespaces.

  \<open>None\<close> is the panic of \<open>decode_body\<close> on a row that is no edge body. A batch is a value:
  an operation that fails leaves the caller's batch as it was.
\<close>

section \<open>References\<close>

record node_ref =
  nr_ns :: bytes
  nr_pkey :: bytes

definition NodeRef_new :: "bytes \<Rightarrow> bytes \<Rightarrow> node_ref option" where
  "NodeRef_new ns_prefix pkey = (if length ns_prefix = 2 then Some \<lparr> nr_ns = ns_prefix, nr_pkey = pkey \<rparr> else None)"

definition ns_id :: "node_ref \<Rightarrow> u16" where
  "ns_id r = of_nat (be_val (nr_ns r))"

definition NodeRef_encode :: "node_ref \<Rightarrow> bytes" where
  "NodeRef_encode r = nr_ns r @ put_len (length (nr_pkey r)) @ nr_pkey r"

definition NodeRef_decode :: "bytes \<Rightarrow> (node_ref \<times> nat) option" where
  "NodeRef_decode wire =
     (if length wire < 3 then None
      else case take_len (drop 2 wire) of
        None \<Rightarrow> None
      | Some (n, len_n) \<Rightarrow>
          let total = 2 + len_n + n in
          if length wire < total then None
          else Some (\<lparr> nr_ns = take 2 wire, nr_pkey = take n (drop (2 + len_n) wire) \<rparr>, total))"

section \<open>Declarations and edge bodies\<close>

text \<open>The key of an edge is its id; the derive of a graph builds its faces on it.\<close>

definition EdgeKey :: "u64 key_encode" where
  "EdgeKey = \<lparr> key_len = 8, kencode = to_be_bytes, kdecode = (\<lambda>b. of_nat (be_val (take 8 b))),
     encode_prefix_named = (\<lambda>k names. if names = [] then [] else to_be_bytes k),
     kprefix_width = (\<lambda>names. if names = [] then 0 else 8) \<rparr>"

record ('e, 's) graph_encode =
  ge_doc :: "(u64, 'e, 's) document"
  ge_nodes :: "u16 list"

abbreviation ge_ns :: "('e, 's) graph_encode \<Rightarrow> bytes" where
  "ge_ns G \<equiv> d_ns (ge_doc G)"

definition nodes_contains :: "('e, 's) graph_encode \<Rightarrow> u16 \<Rightarrow> bool" where
  "nodes_contains G ns \<longleftrightarrow> ns \<in> set (ge_nodes G)"

record edge_head =
  eh_src :: node_ref
  eh_dst :: node_ref
  eh_predicate :: bytes

record edge_body =
  eb_src :: node_ref
  eb_dst :: node_ref
  eb_predicate :: u16
  eb_payload :: bytes

definition edge_body_bytes :: "edge_head \<Rightarrow> u16 \<Rightarrow> bytes \<Rightarrow> bytes" where
  "edge_body_bytes eh pid payload = NodeRef_encode (eh_src eh) @ NodeRef_encode (eh_dst eh) @ to_be_bytes pid @ payload"

definition decode_body :: "bytes \<Rightarrow> edge_body option" where
  "decode_body b =
     (case NodeRef_decode b of
        None \<Rightarrow> None
      | Some (src, n1) \<Rightarrow>
          (case NodeRef_decode (drop n1 b) of
             None \<Rightarrow> None
           | Some (dst, n2) \<Rightarrow>
               let after_dst = n1 + n2 in
               if length b < after_dst + 2 then None
               else Some \<lparr> eb_src = src, eb_dst = dst, eb_predicate = of_nat (be_val (take 2 (drop after_dst b))),
                           eb_payload = drop (after_dst + 2) b \<rparr>))"

section \<open>The handle\<close>

definition EDGE_OUT_SLOT :: u16 where "EDGE_OUT_SLOT = 0x06"
definition EDGE_IN_SLOT :: u16 where "EDGE_IN_SLOT = 0x07"
definition EDGE_PREDICATE_OUT_SLOT :: u16 where "EDGE_PREDICATE_OUT_SLOT = 0x08"
definition EDGE_PREDICATE_IN_SLOT :: u16 where "EDGE_PREDICATE_IN_SLOT = 0x09"

type_synonym 's graph = "'s \<times> u16 vocab_cache"

definition Graph_new :: "'s \<Rightarrow> 's graph" where
  "Graph_new s = (s, VocabCache_new PREDICATE_VOCAB)"

definition edge_row_key :: "('e, 's) graph_encode \<Rightarrow> u64 \<Rightarrow> bytes" where
  "edge_row_key G i = face_key (ge_ns G) PRIMARY_SLOT @ to_be_bytes i"

definition edge_face_key :: "('e, 's) graph_encode \<Rightarrow> u16 \<Rightarrow> bytes list \<Rightarrow> bytes" where
  "edge_face_key G sl segments = face_key (ge_ns G) sl @ concat segments"

definition edge_dynamic_key :: "('e, 's) graph_encode \<Rightarrow> u64 \<Rightarrow> bytes" where
  "edge_dynamic_key G i = face_key (ge_ns G) DYNAMIC_SLOT @ to_be_bytes i"

definition check_members :: "('e, 's) graph_encode \<Rightarrow> node_ref \<Rightarrow> node_ref \<Rightarrow> unit result" where
  "check_members G src dst =
     (if \<not> nodes_contains G (ns_id src) then Inl (EdgeNotMember ''src'' (ns_id src) (of_nat (be_val (ge_ns G))))
      else if \<not> nodes_contains G (ns_id dst) then Inl (EdgeNotMember ''dst'' (ns_id dst) (of_nat (be_val (ge_ns G))))
      else Inr ())"

definition on_store :: "('s, 'a) io \<Rightarrow> ('s graph, 'a) io" where
  "on_store m = (\<lambda>(s, c). case m s of (r, s') \<Rightarrow> (r, (s', c)))"

definition predicate_vocab_id :: "('e, 's) graph_encode \<Rightarrow> 's storage \<Rightarrow> bytes \<Rightarrow> ('s graph, u16) io" where
  "predicate_vocab_id G S predicate = id_for S (ge_ns G) predicate"

definition predicate_vocab_name :: "('e, 's) graph_encode \<Rightarrow> 's storage \<Rightarrow> u16 \<Rightarrow> ('s graph, bytes option) io" where
  "predicate_vocab_name G S i = (\<lambda>(s, c). case name_for S s (ge_ns G) i c of (r, c') \<Rightarrow> (r, (s, c')))"

definition predicates :: "('e, 's) graph_encode \<Rightarrow> 's storage \<Rightarrow> 's \<Rightarrow> (u16 \<times> bytes) list result" where
  "predicates G S s =
     rbind (scan_suffix_kv S s (face_key (ge_ns G) PREDICATE_VOCAB_ID_SLOT)) (\<lambda>pairs.
       Inr (sort_key fst (List.map_filter (\<lambda>(suf, name).
         if length suf = 2 then map_option (\<lambda>n. (of_nat (be_val suf), n)) (from_utf8 name) else None) pairs)))"

section \<open>Writing edges\<close>

definition face_puts :: "('e, 's) graph_encode \<Rightarrow> u64 \<Rightarrow> node_ref \<Rightarrow> node_ref \<Rightarrow> u16 \<Rightarrow> (bytes \<times> bytes) list" where
  "face_puts G i src dst pid =
     (let src_wire = NodeRef_encode src; dst_wire = NodeRef_encode dst; predicate_be = to_be_bytes pid; id_be = to_be_bytes i in
      [(edge_face_key G EDGE_OUT_SLOT [src_wire, dst_wire, id_be], []),
       (edge_face_key G EDGE_IN_SLOT [dst_wire, src_wire, id_be], []),
       (edge_face_key G EDGE_PREDICATE_OUT_SLOT [predicate_be, src_wire, dst_wire, id_be], []),
       (edge_face_key G EDGE_PREDICATE_IN_SLOT [predicate_be, dst_wire, src_wire, id_be], [])])"

definition write_into ::
    "('e, 's) graph_encode \<Rightarrow> 's storage \<Rightarrow> batch \<Rightarrow> edge_head \<Rightarrow> 'e \<Rightarrow> u64 \<Rightarrow> ('s graph, batch) io" where
  "write_into G S ops eh payload i =
     iobind (ioread (\<lambda>_. check_members G (eh_src eh) (eh_dst eh))) (\<lambda>_.
     iobind (predicate_vocab_id G S (eh_predicate eh)) (\<lambda>pid.
       ioret (ops @ [(edge_dynamic_key G i, None),
           (edge_row_key G i, Some (edge_body_bytes eh pid (d_encode (ge_doc G) payload)))]
         @ puts (face_puts G i (eh_src eh) (eh_dst eh) pid)
         @ puts (d_index_entries (ge_doc G) i payload (ge_ns G)))))"

definition link :: "('e, 's) graph_encode \<Rightarrow> 's storage \<Rightarrow> edge_head \<Rightarrow> 'e \<Rightarrow> u64 \<Rightarrow> ('s graph, unit) io" where
  "link G S eh payload i =
     iobind (ioread (\<lambda>(s, c). sget S s (edge_row_key G i))) (\<lambda>stored.
       if stored \<noteq> None then iothrow (EdgeAlreadyLive i)
       else iobind (write_into G S [] eh payload i) (\<lambda>ops. on_store (scommit_batch S ops)))"

definition link_into ::
    "('e, 's) graph_encode \<Rightarrow> 's storage \<Rightarrow> batch \<Rightarrow> edge_head \<Rightarrow> 'e \<Rightarrow> u64 \<Rightarrow> ('s graph, batch) io" where
  "link_into G S ops eh payload i = write_into G S ops eh payload i"

definition unlink_into ::
    "('e, 's) graph_encode \<Rightarrow> 's storage \<Rightarrow> 's \<Rightarrow> batch \<Rightarrow> u64 \<Rightarrow> batch result option" where
  "unlink_into G S s ops i =
     (case sget S s (edge_row_key G i) of
        Inl e \<Rightarrow> Some (Inl e)
      | Inr None \<Rightarrow> Some (Inl (EdgeNotFound i))
      | Inr (Some b) \<Rightarrow>
          (case decode_body b of
             None \<Rightarrow> None
           | Some p \<Rightarrow> Some (rbind (check_members G (eb_src p) (eb_dst p)) (\<lambda>_.
               Inr (ops @ [(edge_row_key G i, None)]
                 @ dels (map fst (face_puts G i (eb_src p) (eb_dst p) (eb_predicate p)))
                 @ dels (map fst (d_index_entries (ge_doc G) i (d_decode (ge_doc G) (eb_payload p)) (ge_ns G))))))))"

definition unlink :: "('e, 's) graph_encode \<Rightarrow> 's storage \<Rightarrow> u64 \<Rightarrow> 's \<Rightarrow> (unit result \<times> 's) option" where
  "unlink G S i s = map_option (\<lambda>r. case r of Inl e \<Rightarrow> (Inl e, s) | Inr ops \<Rightarrow> scommit_batch S ops s) (unlink_into G S s [] i)"

text \<open>The open attributes of an edge; names live in the field vocabulary of the namespace.\<close>

definition replace_into ::
    "('e, 's) graph_encode \<Rightarrow> 's storage \<Rightarrow> batch \<Rightarrow> u64 \<Rightarrow> object \<Rightarrow> ('s, batch) io" where
  "replace_into G S ops i fs s =
     (let ops = batch_del ops (edge_dynamic_key G i) in
      if fs = [] then (Inr ops, s)
      else case put_frames (id_for S (ge_ns G)) fs [] (s, VocabCache_new FIELD_VOCAB) of
        (Inl e, (s', _)) \<Rightarrow> (Inl e, s')
      | (Inr body, (s', _)) \<Rightarrow> (Inr (batch_put ops (edge_dynamic_key G i) body), s'))"

definition attrs :: "('e, 's) graph_encode \<Rightarrow> 's storage \<Rightarrow> 's \<Rightarrow> u64 \<Rightarrow> object option result" where
  "attrs G S s i =
     rbind (sget S s (edge_dynamic_key G i)) (\<lambda>stored. case stored of
        None \<Rightarrow> Inr None
      | Some raw \<Rightarrow>
          (case decode_named_st (park_name S s (ge_ns G)) raw (VocabCache_new FIELD_VOCAB, None) of
             (frames, (c, failed)) \<Rightarrow>
               (case failed of
                  Some e \<Rightarrow> Inl e
                | None \<Rightarrow>
                    if frames = [] then Inr None
                    else rbind (name_frames S s (ge_ns G) frames c []) (\<lambda>out. Inr (Some out)))))"

section \<open>Reading edges\<close>

definition edge_ids :: "('e, 's) graph_encode \<Rightarrow> 's storage \<Rightarrow> 's \<Rightarrow> u64 list result" where
  "edge_ids G S s =
     rbind (scan_suffix_kv S s (face_key (ge_ns G) PRIMARY_SLOT)) (\<lambda>pairs. Inr (List.map_filter (\<lambda>(suf, _). from_be_bytes suf) pairs))"

definition max_edge_id :: "('e, 's) graph_encode \<Rightarrow> 's storage \<Rightarrow> 's \<Rightarrow> u64 option result" where
  "max_edge_id G S s =
     (let begin = face_key (ge_ns G) PRIMARY_SLOT; items = sscan_range_iter S s begin (prefix_end begin) in
      if items = [] then Inr None
      else rbind (last items) (\<lambda>(key, _).
        if length key \<noteq> length begin + key_len EdgeKey then Inl (Corrupt ''edge primary entry'')
        else Inr (Some (kdecode EdgeKey (drop (length begin) key)))))"

definition get_edge :: "('e, 's) graph_encode \<Rightarrow> 's storage \<Rightarrow> 's \<Rightarrow> u64 \<Rightarrow> edge_body option result option" where
  "get_edge G S s i =
     (case sget S s (edge_row_key G i) of
        Inl e \<Rightarrow> Some (Inl e)
      | Inr None \<Rightarrow> Some (Inr None)
      | Inr (Some b) \<Rightarrow> map_option (\<lambda>p. Inr (case check_members G (eb_src p) (eb_dst p) of
          Inl _ \<Rightarrow> None | Inr _ \<Rightarrow> Some p)) (decode_body b))"

definition edge :: "('e, 's) graph_encode \<Rightarrow> 's storage \<Rightarrow> 's \<Rightarrow> u64 \<Rightarrow> 'e option result option" where
  "edge G S s i = map_option (\<lambda>r. rbind r (\<lambda>b. Inr (map_option (\<lambda>p. d_decode (ge_doc G) (eb_payload p)) b))) (get_edge G S s i)"

definition ids_after_endpoint :: "bytes list \<Rightarrow> u64 list" where
  "ids_after_endpoint sufs = List.map_filter (\<lambda>sfx. from_be_bytes (drop (length sfx - 8) sfx)) (filter (\<lambda>sfx. 8 < length sfx) sufs)"

definition ids_after_pair :: "bytes list \<Rightarrow> u64 list" where
  "ids_after_pair sufs = List.map_filter from_be_bytes sufs"

definition traverse :: "('e, 's) graph_encode \<Rightarrow> 's storage \<Rightarrow> u16 \<Rightarrow> node_ref \<Rightarrow> 's \<Rightarrow> u64 list result" where
  "traverse G S sl node s =
     rbind (sscan_suffix S s (edge_face_key G sl [NodeRef_encode node])) (\<lambda>sufs. Inr (ids_after_endpoint sufs))"

definition traverse_pair :: "('e, 's) graph_encode \<Rightarrow> 's storage \<Rightarrow> u16 \<Rightarrow> node_ref \<Rightarrow> node_ref \<Rightarrow> 's \<Rightarrow> u64 list result" where
  "traverse_pair G S sl a b s =
     rbind (sscan_suffix S s (edge_face_key G sl [NodeRef_encode a, NodeRef_encode b])) (\<lambda>sufs. Inr (ids_after_pair sufs))"

definition out_edges :: "('e, 's) graph_encode \<Rightarrow> 's storage \<Rightarrow> node_ref \<Rightarrow> 's \<Rightarrow> u64 list result" where
  "out_edges G S src = traverse G S EDGE_OUT_SLOT src"

definition in_edges :: "('e, 's) graph_encode \<Rightarrow> 's storage \<Rightarrow> node_ref \<Rightarrow> 's \<Rightarrow> u64 list result" where
  "in_edges G S dst = traverse G S EDGE_IN_SLOT dst"

definition out_edges_to :: "('e, 's) graph_encode \<Rightarrow> 's storage \<Rightarrow> node_ref \<Rightarrow> node_ref \<Rightarrow> 's \<Rightarrow> u64 list result" where
  "out_edges_to G S src dst = traverse_pair G S EDGE_OUT_SLOT src dst"

definition in_edges_from :: "('e, 's) graph_encode \<Rightarrow> 's storage \<Rightarrow> node_ref \<Rightarrow> node_ref \<Rightarrow> 's \<Rightarrow> u64 list result" where
  "in_edges_from G S dst src = traverse_pair G S EDGE_IN_SLOT dst src"

text \<open>A typed read resolves the predicate first; an unknown one scans nothing.\<close>

definition typed_scan ::
    "('e, 's) graph_encode \<Rightarrow> 's storage \<Rightarrow> u16 \<Rightarrow> bytes \<Rightarrow> bytes list \<Rightarrow> (bytes list \<Rightarrow> u64 list) \<Rightarrow> ('s graph, u64 list) io" where
  "typed_scan G S sl predicate segments ids = (\<lambda>(s, c).
     case id_get S s (ge_ns G) predicate c of
       (Inl e, c) \<Rightarrow> (Inl e, (s, c))
     | (Inr None, c) \<Rightarrow> (Inr [], (s, c))
     | (Inr (Some pid), c) \<Rightarrow>
         (rbind (sscan_suffix S s (edge_face_key G sl (to_be_bytes pid # segments))) (\<lambda>sufs. Inr (ids sufs)), (s, c)))"

definition typed_edges :: "('e, 's) graph_encode \<Rightarrow> 's storage \<Rightarrow> u16 \<Rightarrow> bytes \<Rightarrow> node_ref \<Rightarrow> ('s graph, u64 list) io" where
  "typed_edges G S sl predicate node = typed_scan G S sl predicate [NodeRef_encode node] ids_after_endpoint"

definition typed_out :: "('e, 's) graph_encode \<Rightarrow> 's storage \<Rightarrow> bytes \<Rightarrow> node_ref \<Rightarrow> ('s graph, u64 list) io" where
  "typed_out G S predicate src = typed_edges G S EDGE_PREDICATE_OUT_SLOT predicate src"

definition typed_in :: "('e, 's) graph_encode \<Rightarrow> 's storage \<Rightarrow> bytes \<Rightarrow> node_ref \<Rightarrow> ('s graph, u64 list) io" where
  "typed_in G S predicate dst = typed_edges G S EDGE_PREDICATE_IN_SLOT predicate dst"

definition typed_out_to ::
    "('e, 's) graph_encode \<Rightarrow> 's storage \<Rightarrow> bytes \<Rightarrow> node_ref \<Rightarrow> node_ref \<Rightarrow> ('s graph, u64 list) io" where
  "typed_out_to G S predicate src dst =
     typed_scan G S EDGE_PREDICATE_OUT_SLOT predicate [NodeRef_encode src, NodeRef_encode dst] ids_after_pair"

definition typed_in_from ::
    "('e, 's) graph_encode \<Rightarrow> 's storage \<Rightarrow> bytes \<Rightarrow> node_ref \<Rightarrow> node_ref \<Rightarrow> ('s graph, u64 list) io" where
  "typed_in_from G S predicate dst src =
     typed_scan G S EDGE_PREDICATE_IN_SLOT predicate [NodeRef_encode dst, NodeRef_encode src] ids_after_pair"

definition edges_of_predicate :: "('e, 's) graph_encode \<Rightarrow> 's storage \<Rightarrow> bytes \<Rightarrow> ('s graph, u64 list) io" where
  "edges_of_predicate G S predicate = typed_scan G S EDGE_PREDICATE_OUT_SLOT predicate [] ids_after_endpoint"

definition by_attr_face :: "('e, 's) graph_encode \<Rightarrow> 's storage \<Rightarrow> u16 \<Rightarrow> bytes \<Rightarrow> 's \<Rightarrow> u64 list result" where
  "by_attr_face G S sl encoded s = rbind (sscan_suffix S s (edge_face_key G sl [encoded])) (\<lambda>sufs. Inr (List.map_filter from_be_bytes sufs))"

fun endpoints ::
    "('e, 's) graph_encode \<Rightarrow> 's storage \<Rightarrow> 's \<Rightarrow> (edge_body \<Rightarrow> node_ref) \<Rightarrow> u64 list \<Rightarrow> node_ref list result option" where
  "endpoints G S s side [] = Some (Inr [])"
| "endpoints G S s side (i # is) =
     (case get_edge G S s i of
        None \<Rightarrow> None
      | Some (Inl e) \<Rightarrow> Some (Inl e)
      | Some (Inr None) \<Rightarrow> endpoints G S s side is
      | Some (Inr (Some b)) \<Rightarrow> map_option (\<lambda>r. rbind r (\<lambda>out. Inr (side b # out))) (endpoints G S s side is))"

definition nodes_of ::
    "('e, 's) graph_encode \<Rightarrow> 's storage \<Rightarrow> 's \<Rightarrow> (edge_body \<Rightarrow> node_ref) \<Rightarrow> u64 list result \<Rightarrow> node_ref list result option" where
  "nodes_of G S s side ids = (case ids of Inl e \<Rightarrow> Some (Inl e) | Inr is \<Rightarrow> endpoints G S s side is)"

definition out_nodes :: "('e, 's) graph_encode \<Rightarrow> 's storage \<Rightarrow> node_ref \<Rightarrow> 's \<Rightarrow> node_ref list result option" where
  "out_nodes G S src s = nodes_of G S s eb_dst (out_edges G S src s)"

definition in_nodes :: "('e, 's) graph_encode \<Rightarrow> 's storage \<Rightarrow> node_ref \<Rightarrow> 's \<Rightarrow> node_ref list result option" where
  "in_nodes G S dst s = nodes_of G S s eb_src (in_edges G S dst s)"

definition typed_out_nodes ::
    "('e, 's) graph_encode \<Rightarrow> 's storage \<Rightarrow> bytes \<Rightarrow> node_ref \<Rightarrow> 's graph \<Rightarrow> (node_ref list result \<times> 's graph) option" where
  "typed_out_nodes G S predicate src g =
     (case typed_out G S predicate src g of (ids, g') \<Rightarrow> map_option (\<lambda>r. (r, g')) (nodes_of G S (fst g') eb_dst ids))"

definition typed_in_nodes ::
    "('e, 's) graph_encode \<Rightarrow> 's storage \<Rightarrow> bytes \<Rightarrow> node_ref \<Rightarrow> 's graph \<Rightarrow> (node_ref list result \<times> 's graph) option" where
  "typed_in_nodes G S predicate dst g =
     (case typed_in G S predicate dst g of (ids, g') \<Rightarrow> map_option (\<lambda>r. (r, g')) (nodes_of G S (fst g') eb_src ids))"

section \<open>Rebuilding the traversal faces\<close>

definition flush_full :: "'s storage \<Rightarrow> bool \<Rightarrow> batch \<Rightarrow> ('s, batch) io" where
  "flush_full S full ops = (if full then iobind (scommit_batch S ops) (\<lambda>_. ioret []) else ioret ops)"

fun reindex_sweep :: "'s storage \<Rightarrow> nat \<Rightarrow> (bytes \<times> bytes) result list \<Rightarrow> batch \<Rightarrow> ('s, batch) io" where
  "reindex_sweep S chunk [] ops = ioret ops"
| "reindex_sweep S chunk (Inl e # items) ops = iothrow e"
| "reindex_sweep S chunk (Inr (key, _) # items) ops =
     (let ops = batch_del ops key in iobind (flush_full S (chunk \<le> length ops) ops) (reindex_sweep S chunk items))"

fun reindex_slots :: "('e, 's) graph_encode \<Rightarrow> 's storage \<Rightarrow> nat \<Rightarrow> u16 list \<Rightarrow> batch \<Rightarrow> ('s, batch) io" where
  "reindex_slots G S chunk [] ops = ioret ops"
| "reindex_slots G S chunk (sl # slots) ops =
     (\<lambda>s. let p = edge_face_key G sl [] in
       iobind (reindex_sweep S chunk (sscan_range_iter S s p (prefix_end p)) ops) (reindex_slots G S chunk slots) s)"

text \<open>The walk over the rows; the outer option is the panic.\<close>

fun reindex_derive ::
    "('e, 's) graph_encode \<Rightarrow> 's storage \<Rightarrow> nat \<Rightarrow> (bytes \<times> bytes) result list \<Rightarrow> batch \<Rightarrow> nat \<Rightarrow> 's
      \<Rightarrow> ((batch \<times> nat) result \<times> 's) option" where
  "reindex_derive G S chunk [] ops rebuilt s = Some (Inr (ops, rebuilt), s)"
| "reindex_derive G S chunk (Inl e # items) ops rebuilt s = Some (Inl e, s)"
| "reindex_derive G S chunk (Inr (key, b) # items) ops rebuilt s =
     (case from_be_bytes (drop (length (edge_face_key G PRIMARY_SLOT [])) key) of
        None \<Rightarrow> reindex_derive G S chunk items ops rebuilt s
      | Some i \<Rightarrow>
          (case decode_body b of
             None \<Rightarrow> None
           | Some p \<Rightarrow>
               (case check_members G (eb_src p) (eb_dst p) of
                  Inl _ \<Rightarrow> reindex_derive G S chunk items ops rebuilt s
                | Inr _ \<Rightarrow>
                    let ops = ops @ puts (face_puts G i (eb_src p) (eb_dst p) (eb_predicate p)) in
                    (case flush_full S (chunk \<le> length ops) ops s of
                       (Inl e, s) \<Rightarrow> Some (Inl e, s)
                     | (Inr ops, s) \<Rightarrow> reindex_derive G S chunk items ops (rebuilt + 1) s))))"

definition graph_slots :: "u16 list" where
  "graph_slots = [EDGE_OUT_SLOT, EDGE_IN_SLOT, EDGE_PREDICATE_OUT_SLOT, EDGE_PREDICATE_IN_SLOT]"

definition reindex :: "('e, 's) graph_encode \<Rightarrow> 's storage \<Rightarrow> nat \<Rightarrow> 's \<Rightarrow> (nat result \<times> 's) option" where
  "reindex G S chunk s =
     (case iobind (reindex_slots G S (max chunk 1) graph_slots []) (\<lambda>ops. flush_full S (ops \<noteq> []) ops) s of
        (Inl e, s) \<Rightarrow> Some (Inl e, s)
      | (Inr _, s) \<Rightarrow>
          let p = edge_face_key G PRIMARY_SLOT [] in
          (case reindex_derive G S (max chunk 1) (sscan_range_iter S s p (prefix_end p)) [] 0 s of
             None \<Rightarrow> None
           | Some (Inl e, s) \<Rightarrow> Some (Inl e, s)
           | Some (Inr (ops, rebuilt), s) \<Rightarrow>
               (case flush_full S (ops \<noteq> []) ops s of
                  (Inl e, s) \<Rightarrow> Some (Inl e, s) | (Inr _, s) \<Rightarrow> Some (Inr rebuilt, s))))"

end
