(* ===== verification/Okm_Graph_Faces.thy ===== *)
theory Okm_Graph_Faces
  imports Okm_Graph
begin

text \<open>
  The faces of a graph follow its rows. \<open>derived_faces\<close> is the contract of entries that are a
  function of rows; it is interpreted for the four traversal faces of an edge and for the declared
  faces of its payload. \<open>graph_ok\<close> is the invariant that links and unlinks keep.
\<close>

section \<open>Entries derived from rows\<close>

definition faces_of ::
    "(bytes \<Rightarrow> bool) \<Rightarrow> ('k \<Rightarrow> 'r \<Rightarrow> (bytes \<times> bytes) list) \<Rightarrow> ('k \<rightharpoonup> 'r) \<Rightarrow> (bytes \<rightharpoonup> bytes) \<Rightarrow> bool" where
  "faces_of region entries rs m \<longleftrightarrow> (\<forall>x v. region x \<longrightarrow>
     (m x = Some v \<longleftrightarrow> (\<exists>k r. rs k = Some r \<and> (x, v) \<in> set (entries k r))))"

lemma faces_of_cong:
  "faces_of region entries rs m \<Longrightarrow> (\<And>x. region x \<Longrightarrow> m' x = m x) \<Longrightarrow> faces_of region entries rs m'"
  by (simp add: faces_of_def)

lemma apply_ops_same: "m x = m' x \<Longrightarrow> apply_ops ops m x = apply_ops ops m' x"
  by (simp add: apply_ops_pending split: option.split)

locale derived_faces =
  fixes region :: "bytes \<Rightarrow> bool" and entries :: "'k \<Rightarrow> 'r \<Rightarrow> (bytes \<times> bytes) list"
  assumes entry_region: "(x, v) \<in> set (entries k r) \<Longrightarrow> region x"
    and entry_owner: "(x, v) \<in> set (entries k r) \<Longrightarrow> (x, w) \<in> set (entries k' r') \<Longrightarrow> k = k'"
    and entry_unique: "(x, v) \<in> set (entries k r) \<Longrightarrow> (x, w) \<in> set (entries k r) \<Longrightarrow> v = w"
begin

lemma add_row:
  assumes "faces_of region entries rs m" "rs k = None"
  shows "faces_of region entries (rs(k \<mapsto> r)) (apply_ops (puts (entries k r)) m)"
  unfolding faces_of_def
proof (intro allI impI)
  fix x v
  assume x: "region x"
  have m: "m x = Some v \<longleftrightarrow> (\<exists>k r. rs k = Some r \<and> (x, v) \<in> set (entries k r))"
    using assms(1) x by (simp add: faces_of_def)
  have new: "apply_ops (puts (entries k r)) m x = Some v \<longleftrightarrow>
      (x, v) \<in> set (entries k r) \<or> x \<notin> fst ` set (entries k r) \<and> m x = Some v"
    by (rule apply_puts) (rule entry_unique)
  have old: "x \<notin> fst ` set (entries k r)" if "rs k' = Some r'" "(x, v) \<in> set (entries k' r')" for k' r'
  proof
    assume "x \<in> fst ` set (entries k r)"
    then obtain w where "(x, w) \<in> set (entries k r)" by auto
    then have "k' = k" using entry_owner [OF that(2)] by blast
    then show False using that(1) assms(2) by simp
  qed
  show "apply_ops (puts (entries k r)) m x = Some v \<longleftrightarrow>
      (\<exists>k' r'. (rs(k \<mapsto> r)) k' = Some r' \<and> (x, v) \<in> set (entries k' r'))"
  proof
    assume "apply_ops (puts (entries k r)) m x = Some v"
    then consider "(x, v) \<in> set (entries k r)" | k' r' where "rs k' = Some r'" "(x, v) \<in> set (entries k' r')"
      unfolding new m by blast
    then show "\<exists>k' r'. (rs(k \<mapsto> r)) k' = Some r' \<and> (x, v) \<in> set (entries k' r')"
    proof cases
      case 1
      then show ?thesis by (intro exI [of _ k] exI [of _ r]) simp
    next
      case 2
      then have "k' \<noteq> k" using assms(2) by auto
      then show ?thesis using 2 by (intro exI [of _ k'] exI [of _ r']) simp
    qed
  next
    assume "\<exists>k' r'. (rs(k \<mapsto> r)) k' = Some r' \<and> (x, v) \<in> set (entries k' r')"
    then obtain k' r' where 1: "(rs(k \<mapsto> r)) k' = Some r'" "(x, v) \<in> set (entries k' r')" by blast
    show "apply_ops (puts (entries k r)) m x = Some v"
    proof (cases "k' = k")
      case True
      then show ?thesis using 1 unfolding new by simp
    next
      case False
      then have "rs k' = Some r'" using 1(1) by simp
      then show ?thesis using 1(2) old unfolding new m by blast
    qed
  qed
qed

lemma drop_row:
  assumes "faces_of region entries rs m" "rs k = Some r"
  shows "faces_of region entries (rs(k := None)) (apply_ops (dels (map fst (entries k r))) m)"
  unfolding faces_of_def
proof (intro allI impI)
  fix x v
  assume x: "region x"
  have m: "m x = Some v \<longleftrightarrow> (\<exists>k r. rs k = Some r \<and> (x, v) \<in> set (entries k r))"
    using assms(1) x by (simp add: faces_of_def)
  show "apply_ops (dels (map fst (entries k r))) m x = Some v \<longleftrightarrow>
      (\<exists>k' r'. (rs(k := None)) k' = Some r' \<and> (x, v) \<in> set (entries k' r'))"
  proof (cases "x \<in> fst ` set (entries k r)")
    case True
    then obtain w where "(x, w) \<in> set (entries k r)" by auto
    then have "k' = k" if "(x, v) \<in> set (entries k' r')" for k' r' using entry_owner [OF that] by blast
    then show ?thesis using True by (auto simp: apply_dels)
  next
    case False
    then have "(x, v) \<notin> set (entries k r)" by force
    moreover from this have "k' \<noteq> k" if "rs k' = Some r'" "(x, v) \<in> set (entries k' r')" for k' r'
      using that assms(2) by auto
    ultimately show ?thesis using False m by (auto simp: apply_dels)
  qed
qed

lemma no_rows: "(\<And>x. region x \<Longrightarrow> m x = None) \<Longrightarrow> faces_of region entries Map.empty m"
  by (simp add: faces_of_def)

text \<open>Faces written from scratch, in any order.\<close>

lemma rebuild:
  assumes "\<And>x. region x \<Longrightarrow> m x = None"
    and "\<And>x v. (x, v) \<in> set es \<longleftrightarrow> (\<exists>k r. rs k = Some r \<and> (x, v) \<in> set (entries k r))"
  shows "faces_of region entries rs (apply_ops (puts es) m)"
  unfolding faces_of_def
proof (intro allI impI)
  fix x v
  assume "region x"
  have "apply_ops (puts es) m x = Some v \<longleftrightarrow> (x, v) \<in> set es \<or> x \<notin> fst ` set es \<and> m x = Some v"
    by (rule apply_puts) (use assms(2) entry_owner entry_unique in \<open>metis option.inject\<close>)
  then show "apply_ops (puts es) m x = Some v \<longleftrightarrow> (\<exists>k r. rs k = Some r \<and> (x, v) \<in> set (entries k r))"
    using assms \<open>region x\<close> by simp
qed

end

section \<open>The faces of an edge\<close>

text \<open>The rows of a graph.\<close>

definition edges :: "('e, 's) graph_encode \<Rightarrow> (bytes \<rightharpoonup> bytes) \<Rightarrow> u64 \<rightharpoonup> edge_body" where
  "edges G m i = Option.bind (m (edge_row_key G i)) decode_body"

definition in_traversal :: "('e, 's) graph_encode \<Rightarrow> bytes \<Rightarrow> bool" where
  "in_traversal G x \<longleftrightarrow> (\<exists>sl \<in> set graph_slots. prefix (face_key (ge_ns G) sl) x)"

definition traversal :: "('e, 's) graph_encode \<Rightarrow> u64 \<Rightarrow> edge_body \<Rightarrow> (bytes \<times> bytes) list" where
  "traversal G i p = face_puts G i (eb_src p) (eb_dst p) (eb_predicate p)"

definition declared :: "('e, 's) graph_encode \<Rightarrow> u64 \<Rightarrow> edge_body \<Rightarrow> (bytes \<times> bytes) list" where
  "declared G i p = d_index_entries (ge_doc G) i (d_decode (ge_doc G) (eb_payload p)) (ge_ns G)"

lemmas edge_slots = EDGE_OUT_SLOT_def EDGE_IN_SLOT_def EDGE_PREDICATE_OUT_SLOT_def EDGE_PREDICATE_IN_SLOT_def graph_slots_def

lemma edge_slots_valid: "sl \<in> set graph_slots \<Longrightarrow> slot_valid sl \<and> 6 \<le> unat sl \<and> unat sl \<le> 9"
  by (auto simp: edge_slots slot_valid_def)

lemma traversal_key:
  "(x, v) \<in> set (traversal G i p) \<Longrightarrow> \<exists>y. x = y @ to_be_bytes i \<and> v = []"
  by (auto simp: traversal_def face_puts_def edge_face_key_def Let_def)

interpretation trav: derived_faces "in_traversal G" "traversal G" for G :: "('e, 's) graph_encode"
proof
  fix x v w i p j q
  show "in_traversal G x" if "(x, v) \<in> set (traversal G i p)"
    using that by (force simp: in_traversal_def traversal_def face_puts_def edge_face_key_def graph_slots_def Let_def)
  show "i = j" if x: "(x, v) \<in> set (traversal G i p)" "(x, w) \<in> set (traversal G j q)"
  proof -
    obtain y z where "y @ to_be_bytes i = z @ to_be_bytes j" using traversal_key [OF x(1)] traversal_key [OF x(2)] by metis
    then have "to_be_bytes i = to_be_bytes j" by (simp add: append_eq_append_conv)
    then show "i = j" by (simp add: to_be_bytes_inject byte_sized_def)
  qed
  show "v = w" if "(x, v) \<in> set (traversal G i p)" "(x, w) \<in> set (traversal G i p)"
    using traversal_key [OF that(1)] traversal_key [OF that(2)] by simp
qed

text \<open>A graph declaration is a document keyed by the edge id in an unpartitioned namespace.\<close>

locale graph_decl = face_document "ge_doc G" for G :: "('e, 's) graph_encode" +
  assumes no_partition: "d_partition (ge_doc G) = []"
    and ns_width: "length (ge_ns G) = 2" and edge_key: "d_key (ge_doc G) = EdgeKey"
begin

lemma ns_header [simp]: "header (ge_doc G) = ge_ns G"
  by (simp add: header_def no_partition)

lemma dynamic_fields: "fields_key (ge_doc G) i = edge_dynamic_key G i"
  by (simp add: fields_key_def edge_dynamic_key_def edge_key EdgeKey_def)

end

sublocale graph_decl \<subseteq> decl: derived_faces "in_face (ge_doc G)" "declared G"
proof
  fix x v w i p j q
  show "in_face (ge_doc G) x" if "(x, v) \<in> set (declared G i p)"
    using that entry_in_face [of x v i] by (simp add: declared_def)
  show "i = j" if "(x, v) \<in> set (declared G i p)" "(x, w) \<in> set (declared G j q)"
    using that entry_row [of x v i _ w j] by (simp add: declared_def)
  show "v = w" if "(x, v) \<in> set (declared G i p)" "(x, w) \<in> set (declared G i p)"
    using that entry_value [of x v i _ w] by (simp add: declared_def)
qed

section \<open>The regions of a namespace\<close>

lemma face_key_prefix_disjoint:
  assumes "slot_valid a" "slot_valid b" "a \<noteq> b" "prefix (face_key h a) x"
  shows "\<not> prefix (face_key h b) x"
proof
  assume "prefix (face_key h b) x"
  then obtain y z where "x = face_key h a @ y" "x = face_key h b @ z" using assms(4) by (auto simp: prefix_def)
  then show False using face_key_disjoint [OF assms(1,2)] assms(3) by metis
qed

lemma fixed_slots_valid [simp]:
  "slot_valid PRIMARY_SLOT" "slot_valid DYNAMIC_SLOT" "slot_valid PREDICATE_VOCAB_ID_SLOT" "slot_valid PREDICATE_VOCAB_NAME_SLOT"
  by (simp_all add: slot_consts slot_valid_def)

lemma prefix_row [simp]: "prefix (face_key (ge_ns G) PRIMARY_SLOT) (edge_row_key G i)"
    "prefix (face_key (ge_ns G) DYNAMIC_SLOT) (edge_dynamic_key G i)"
  by (simp_all add: edge_row_key_def edge_dynamic_key_def)

lemma not_traversal:
  "slot_valid sl \<Longrightarrow> sl \<notin> set graph_slots \<Longrightarrow> prefix (face_key (ge_ns G) sl) x \<Longrightarrow> \<not> in_traversal G x"
  using face_key_prefix_disjoint edge_slots_valid by (metis in_traversal_def)

lemma fixed_not_edge [simp]: "PRIMARY_SLOT \<notin> set graph_slots" "DYNAMIC_SLOT \<notin> set graph_slots"
    "PREDICATE_VOCAB_ID_SLOT \<notin> set graph_slots" "PREDICATE_VOCAB_NAME_SLOT \<notin> set graph_slots"
    "PRIMARY_SLOT \<noteq> DYNAMIC_SLOT"
  by (simp_all add: edge_slots slot_consts)

lemma fixed_low [simp]: "unat PRIMARY_SLOT < 4096" "unat DYNAMIC_SLOT < 4096"
    "unat PREDICATE_VOCAB_ID_SLOT < 4096" "unat PREDICATE_VOCAB_NAME_SLOT < 4096"
  by (simp_all add: slot_consts)

lemma rows_not_traversal [simp]: "\<not> in_traversal G (edge_row_key G i)" "\<not> in_traversal G (edge_dynamic_key G i)"
  by (rule not_traversal [OF _ _ prefix_row(1)] not_traversal [OF _ _ prefix_row(2)]; simp)+

lemma row_inject [simp]: "edge_row_key G i = edge_row_key G j \<longleftrightarrow> i = j"
  by (simp add: edge_row_key_def to_be_bytes_inject byte_sized_def)

lemma row_not_dynamic [simp]: "edge_row_key G i \<noteq> edge_dynamic_key G j" "edge_dynamic_key G j \<noteq> edge_row_key G i"
  using face_key_disjoint [of PRIMARY_SLOT DYNAMIC_SLOT "ge_ns G" "to_be_bytes i" "to_be_bytes j"]
  by (auto simp: edge_row_key_def edge_dynamic_key_def)

context graph_decl
begin

lemma declared_region:
  assumes "in_face (ge_doc G) x"
  shows "\<not> in_traversal G x" "slot_valid sl \<Longrightarrow> unat sl < 4096 \<Longrightarrow> \<not> prefix (face_key (ge_ns G) sl) x"
proof -
  obtain s where s: "s \<in> set (live_slots (ge_doc G))" "prefix (face_key (ge_ns G) s) x"
    using assms by (auto simp: in_face_def)
  note v = live_valid [OF s(1)]
  show "\<not> prefix (face_key (ge_ns G) sl) x" if "slot_valid sl" "unat sl < 4096" for sl
  proof -
    have "s \<noteq> sl" using v that(2) by auto
    then show ?thesis using face_key_prefix_disjoint [OF _ that(1) _ s(2)] v by blast
  qed
  then show "\<not> in_traversal G x" using edge_slots_valid by (fastforce simp: in_traversal_def)
qed

lemma rows_not_declared [simp]: "\<not> in_face (ge_doc G) (edge_row_key G i)" "\<not> in_face (ge_doc G) (edge_dynamic_key G i)"
  using declared_region(2) [of "edge_row_key G i" PRIMARY_SLOT] declared_region(2) [of "edge_dynamic_key G i" DYNAMIC_SLOT] by auto

end

section \<open>References and bodies on the wire\<close>

definition node_ok :: "node_ref \<Rightarrow> bool" where
  "node_ok r \<longleftrightarrow> length (nr_ns r) = 2 \<and> length (nr_pkey r) < 2 ^ 49"

lemma NodeRef_back:
  assumes "node_ok r"
  shows "NodeRef_decode (NodeRef_encode r @ rest) = Some (r, length (NodeRef_encode r))"
proof -
  obtain ns k where r: "r = \<lparr> nr_ns = ns, nr_pkey = k \<rparr>" by (cases r)
  have w: "take_len (put_len (length k) @ k @ rest) = Some (length k, length (put_len (length k)))"
    using assms take_len_put [of "length k"] by (simp add: node_ok_def r)
  have ne: "0 < length (put_len (length k))" using put_len_not_Nil by blast
  have ns: "length ns = 2" using assms by (simp add: node_ok_def r)
  have d: "drop 2 (ns @ put_len (length k) @ k @ rest) = put_len (length k) @ k @ rest"
    "take 2 (ns @ put_len (length k) @ k @ rest) = ns" using ns by simp_all
  have e: "drop (2 + length (put_len (length k))) (ns @ put_len (length k) @ k @ rest) = k @ rest" using ns by simp
  have "\<not> length (ns @ put_len (length k) @ k @ rest) < 3" using ne ns by simp
  then show ?thesis
    using ns by (simp only: NodeRef_decode_def NodeRef_encode_def r node_ref.select_convs append_assoc d w e Let_def) simp
qed

lemma NodeRef_inject:
  "node_ok a \<Longrightarrow> node_ok b \<Longrightarrow> NodeRef_encode a @ x = NodeRef_encode b @ y \<Longrightarrow> a = b \<and> x = y"
proof -
  assume a: "node_ok a" "node_ok b" "NodeRef_encode a @ x = NodeRef_encode b @ y"
  have "Some (a, length (NodeRef_encode a)) = Some (b, length (NodeRef_encode b))"
    using NodeRef_back [OF a(1), of x] NodeRef_back [OF a(2), of y] a(3) by simp
  then show ?thesis using a(3) by simp
qed

lemma body_back:
  assumes "node_ok (eh_src e)" "node_ok (eh_dst e)"
  shows "decode_body (edge_body_bytes e pid payload) =
    Some \<lparr> eb_src = eh_src e, eb_dst = eh_dst e, eb_predicate = pid, eb_payload = payload \<rparr>"
proof -
  have "of_nat (be_val (to_be_bytes pid)) = pid"
    using from_to_be_bytes [of pid] by (simp add: from_be_bytes_def byte_sized_def)
  then show ?thesis
    by (simp add: decode_body_def edge_body_bytes_def NodeRef_back assms Let_def drop_append)
qed

section \<open>The invariant\<close>

definition edge_fine :: "('e, 's) graph_encode \<Rightarrow> edge_body \<Rightarrow> bool" where
  "edge_fine G p \<longleftrightarrow> node_ok (eb_src p) \<and> node_ok (eb_dst p) \<and> check_members G (eb_src p) (eb_dst p) = Inr ()"

text \<open>Every row is the body of an edge between members, and the faces are those of the rows.\<close>

definition graph_ok :: "('e, 's) graph_encode \<Rightarrow> (bytes \<rightharpoonup> bytes) \<Rightarrow> bool" where
  "graph_ok G m \<longleftrightarrow>
     (\<forall>i b. m (edge_row_key G i) = Some b \<longrightarrow> (\<exists>p. decode_body b = Some p \<and> edge_fine G p)) \<and>
     faces_of (in_traversal G) (traversal G) (edges G m) m \<and>
     faces_of (in_face (ge_doc G)) (declared G) (edges G m) m"

lemma graph_okD:
  assumes "graph_ok G m"
  shows "m (edge_row_key G i) = Some b \<Longrightarrow> \<exists>p. decode_body b = Some p \<and> edge_fine G p"
    and "faces_of (in_traversal G) (traversal G) (edges G m) m"
    and "faces_of (in_face (ge_doc G)) (declared G) (edges G m) m"
  using assms by (simp_all add: graph_ok_def)

lemma edges_some: "graph_ok G m \<Longrightarrow> m (edge_row_key G i) = Some b \<Longrightarrow> \<exists>p. decode_body b = Some p \<and> edges G m i = Some p"
  using graph_okD(1) by (fastforce simp: edges_def)

lemma edges_none: "graph_ok G m \<Longrightarrow> edges G m i = None \<longleftrightarrow> m (edge_row_key G i) = None"
  by (cases "m (edge_row_key G i)") (auto simp: edges_def dest: graph_okD(1))

lemma edges_fine: "graph_ok G m \<Longrightarrow> edges G m i = Some p \<Longrightarrow> edge_fine G p"
  by (cases "m (edge_row_key G i)") (auto simp: edges_def dest: graph_okD(1))

lemma traversal_not_row: "x \<in> fst ` set (traversal G j p) \<Longrightarrow> x \<noteq> edge_row_key G i \<and> x \<noteq> edge_dynamic_key G i"
  by (auto dest!: trav.entry_region)

context graph_decl
begin

lemma declared_not_row: "x \<in> fst ` set (declared G j p) \<Longrightarrow> x \<noteq> edge_row_key G i \<and> x \<noteq> edge_dynamic_key G i"
  by (auto dest!: decl.entry_region)

lemma declared_not_traversal: "in_traversal G x \<Longrightarrow> x \<notin> fst ` set (declared G j p)"
  by (auto dest!: decl.entry_region declared_region(1))

lemma traversal_not_declared: "in_face (ge_doc G) x \<Longrightarrow> x \<notin> fst ` set (traversal G j p)"
  by (auto dest!: trav.entry_region dest: declared_region(1))

text \<open>A row that is not there is added with its entries.\<close>

lemma graph_ok_link:
  assumes ok: "graph_ok G m" and new: "edges G m i = None" and fine: "edge_fine G p" and b: "decode_body b = Some p"
  shows "graph_ok G (apply_ops ([(edge_dynamic_key G i, None), (edge_row_key G i, Some b)] @ puts (traversal G i p) @ puts (declared G i p)) m)"
    and "edges G (apply_ops ([(edge_dynamic_key G i, None), (edge_row_key G i, Some b)] @ puts (traversal G i p) @ puts (declared G i p)) m)
      = (edges G m)(i \<mapsto> p)"
proof -
  let ?m0 = "m(edge_dynamic_key G i := None, edge_row_key G i \<mapsto> b)"
  let ?T = "apply_ops (puts (traversal G i p))" and ?D = "apply_ops (puts (declared G i p))"
  have m: "apply_ops ([(edge_dynamic_key G i, None), (edge_row_key G i, Some b)] @ puts (traversal G i p) @ puts (declared G i p)) m
      = ?D (?T ?m0)" by simp
  have row: "?D (?T ?m0) (edge_row_key G j) = ?m0 (edge_row_key G j)" for j
  proof -
    have "edge_row_key G j \<notin> fst ` set (traversal G i p)" "edge_row_key G j \<notin> fst ` set (declared G i p)"
      using traversal_not_row declared_not_row by blast+
    then show ?thesis by (simp only: apply_puts_other not_False_eq_True)
  qed
  show e: "edges G (apply_ops ([(edge_dynamic_key G i, None), (edge_row_key G i, Some b)] @ puts (traversal G i p) @ puts (declared G i p)) m)
      = (edges G m)(i \<mapsto> p)"
    unfolding m by (rule ext) (simp add: edges_def row b)
  have tr: "?D (?T ?m0) x = ?T ?m0 x" if "in_traversal G x" for x
    using declared_not_traversal [OF that] by (rule apply_puts_other)
  have de: "?D (?T ?m0) x = ?D ?m0 x" if x: "in_face (ge_doc G) x" for x
  proof -
    have "?T ?m0 x = ?m0 x" using traversal_not_declared [OF x] by (rule apply_puts_other)
    then show ?thesis by (rule apply_ops_same)
  qed
  have f1: "faces_of (in_traversal G) (traversal G) ((edges G m)(i \<mapsto> p)) (?T ?m0)"
    by (rule trav.add_row [OF faces_of_cong [OF graph_okD(2) [OF ok]]]) (use new in auto)
  have f2: "faces_of (in_face (ge_doc G)) (declared G) ((edges G m)(i \<mapsto> p)) (?D ?m0)"
    by (rule decl.add_row [OF faces_of_cong [OF graph_okD(3) [OF ok]]]) (use new in auto)
  have "\<exists>p. decode_body c = Some p \<and> edge_fine G p" if "?D (?T ?m0) (edge_row_key G j) = Some c" for j c
    using that ok fine b by (auto simp: row graph_ok_def split: if_splits)
  then show "graph_ok G (apply_ops ([(edge_dynamic_key G i, None), (edge_row_key G i, Some b)] @ puts (traversal G i p) @ puts (declared G i p)) m)"
    using faces_of_cong [OF f1 tr] faces_of_cong [OF f2 de] e unfolding graph_ok_def m by auto
qed

lemma graph_ok_unlink:
  assumes ok: "graph_ok G m" and old: "edges G m i = Some p"
  shows "graph_ok G (apply_ops ((edge_row_key G i, None) # dels (map fst (traversal G i p)) @ dels (map fst (declared G i p))) m)"
    and "edges G (apply_ops ((edge_row_key G i, None) # dels (map fst (traversal G i p)) @ dels (map fst (declared G i p))) m)
      = (edges G m)(i := None)"
proof -
  let ?m0 = "m(edge_row_key G i := None)"
  let ?T = "apply_ops (dels (map fst (traversal G i p)))" and ?D = "apply_ops (dels (map fst (declared G i p)))"
  have m: "apply_ops ((edge_row_key G i, None) # dels (map fst (traversal G i p)) @ dels (map fst (declared G i p))) m
      = ?D (?T ?m0)" by simp
  have row: "?D (?T ?m0) (edge_row_key G j) = ?m0 (edge_row_key G j)" for j
    using traversal_not_row [of "edge_row_key G j" G i p j] declared_not_row [of "edge_row_key G j" i p j]
    by (auto simp: apply_dels)
  show e: "edges G (apply_ops ((edge_row_key G i, None) # dels (map fst (traversal G i p)) @ dels (map fst (declared G i p))) m)
      = (edges G m)(i := None)"
    unfolding m by (rule ext) (simp add: edges_def row)
  have tr: "?D (?T ?m0) x = ?T ?m0 x" if "in_traversal G x" for x
    using declared_not_traversal [OF that, of i p] by (simp add: apply_dels)
  have de: "?D (?T ?m0) x = ?D ?m0 x" if x: "in_face (ge_doc G) x" for x
    using traversal_not_declared [OF x, of i p] by (simp add: apply_dels)
  have f1: "faces_of (in_traversal G) (traversal G) ((edges G m)(i := None)) (?T ?m0)"
    by (rule trav.drop_row [OF faces_of_cong [OF graph_okD(2) [OF ok]]]) (use old in auto)
  have f2: "faces_of (in_face (ge_doc G)) (declared G) ((edges G m)(i := None)) (?D ?m0)"
    by (rule decl.drop_row [OF faces_of_cong [OF graph_okD(3) [OF ok]]]) (use old in auto)
  have "\<exists>p. decode_body c = Some p \<and> edge_fine G p" if "?D (?T ?m0) (edge_row_key G j) = Some c" for j c
    using that ok by (auto simp: row graph_ok_def split: if_splits)
  then show "graph_ok G (apply_ops ((edge_row_key G i, None) # dels (map fst (traversal G i p)) @ dels (map fst (declared G i p))) m)"
    using faces_of_cong [OF f1 tr] faces_of_cong [OF f2 de] e unfolding graph_ok_def m by auto
qed

end

section \<open>A graph with one declared face\<close>

definition note_index :: "(u64, bytes) kv_index" where
  "note_index = \<lparr> ix_slot = 0x3001, ix_fields = [''note''], ix_includes = [], ix_key_prefix = [],
                  ix_encode_named = (\<lambda>k r ns. if ns = [''note''] then r else []), ix_admits = (\<lambda>r. True) \<rparr>"

definition demo_graph :: "(bytes, mem) graph_encode" where
  "demo_graph = \<lparr> ge_doc = plain_document EdgeKey [0, 9] 1 [(demo_decl, note_index)] id id, ge_nodes = [1, 2] \<rparr>"

lemma edge_key_codec: "kdecode EdgeKey (kencode EdgeKey k) = k \<and> length (kencode EdgeKey k) = key_len EdgeKey"
  using from_to_be_bytes [of k] by (simp add: EdgeKey_def from_be_bytes_def byte_sized_def)

lemma demo_graph_table: "table_ok EdgeKey [(demo_decl, note_index)] id id"
proof -
  have "face_kind_of 0x3001 = Some FIndex"
    by (simp add: face_kind_of_def DECLARED_SLOT_BASE_def slot_def INDEX_def)
  then show ?thesis using edge_key_codec by (simp add: table_ok_def demo_decl_def note_index_def)
qed

lemma demo_graph_decl: "graph_decl demo_graph"
proof (rule graph_decl.intro)
  show "face_document (ge_doc demo_graph)"
    unfolding demo_graph_def graph_encode.select_convs by (rule plain_document_laws [OF demo_graph_table])
  show "graph_decl_axioms demo_graph"
    by unfold_locales (simp_all add: demo_graph_def plain_document_def)
qed

interpretation demo_edges: graph_decl demo_graph
  by (rule demo_graph_decl)

end
