(* ===== verification/Okm_Graph_Spec.thy ===== *)
theory Okm_Graph_Spec
  imports Okm_Graph_Faces
begin

text \<open>
  What a graph promises: histories of links and unlinks are those of a finite map from edge ids to
  facts, and the traversals answer the edges of that map.
\<close>

section \<open>Graph states\<close>

definition graph_names :: "('e, 's) graph_encode \<Rightarrow> ('s \<Rightarrow> bytes \<rightharpoonup> bytes) \<Rightarrow> 's graph \<Rightarrow> u16 \<Rightarrow> bytes option" where
  "graph_names G \<alpha> = vocab_names \<alpha> (ge_ns G) PREDICATE_VOCAB"

definition graph_room :: "('e, 's) graph_encode \<Rightarrow> ('s \<Rightarrow> bytes \<rightharpoonup> bytes) \<Rightarrow> 's graph \<Rightarrow> nat" where
  "graph_room G \<alpha> = vocab_room \<alpha> (ge_ns G) PREDICATE_VOCAB"

definition graph_inv :: "('s \<Rightarrow> bool) \<Rightarrow> ('s \<Rightarrow> bytes \<rightharpoonup> bytes) \<Rightarrow> ('e, 's) graph_encode \<Rightarrow> 's graph \<Rightarrow> bool" where
  "graph_inv ok \<alpha> G g \<longleftrightarrow> vocab_state ok \<alpha> (ge_ns G) PREDICATE_VOCAB g \<and> graph_ok G (\<alpha> (fst g)) \<and>
     (\<forall>i p. edges G (\<alpha> (fst g)) i = Some p \<longrightarrow> graph_names G \<alpha> g (eb_predicate p) \<noteq> None)"

text \<open>A fact: source, target, predicate, payload.\<close>

type_synonym 'e fact = "node_ref \<times> node_ref \<times> bytes \<times> 'e"

definition facts :: "('s \<Rightarrow> bytes \<rightharpoonup> bytes) \<Rightarrow> ('e, 's) graph_encode \<Rightarrow> 's graph \<Rightarrow> u64 \<rightharpoonup> 'e fact" where
  "facts \<alpha> G g i = map_option (\<lambda>p. (eb_src p, eb_dst p, the (graph_names G \<alpha> g (eb_predicate p)), d_decode (ge_doc G) (eb_payload p)))
     (edges G (\<alpha> (fst g)) i)"

lemma predicate_slots [simp]: "id_slot PREDICATE_VOCAB = PREDICATE_VOCAB_ID_SLOT" "name_slot PREDICATE_VOCAB = PREDICATE_VOCAB_NAME_SLOT"
  by (simp_all add: PREDICATE_VOCAB_def)

lemma not_vocab_key:
  assumes "slot_valid sl" "sl \<noteq> PREDICATE_VOCAB_ID_SLOT" "sl \<noteq> PREDICATE_VOCAB_NAME_SLOT" "prefix (face_key h sl) x"
  shows "\<not> vocab_key h PREDICATE_VOCAB x"
proof -
  obtain y where "x = face_key h sl @ y" using assms(4) by (auto simp: prefix_def)
  then show ?thesis using face_not_vocab [of PREDICATE_VOCAB sl h y] assms(1-3) by simp
qed

lemma vocab_state_cong:
  assumes st: "vocab_state ok \<alpha> h PREDICATE_VOCAB (s, c)" and "ok s'" and same: "\<And>x. vocab_key h PREDICATE_VOCAB x \<Longrightarrow> \<alpha> s' x = \<alpha> s x"
  shows "vocab_state ok \<alpha> h PREDICATE_VOCAB (s', c)" "vocab_names \<alpha> h PREDICATE_VOCAB (s', c) = vocab_names \<alpha> h PREDICATE_VOCAB (s, c)"
    "vocab_room \<alpha> h PREDICATE_VOCAB (s', c) = vocab_room \<alpha> h PREDICATE_VOCAB (s, c)"
proof -
  have k: "vocab_key h PREDICATE_VOCAB (face_key h PREDICATE_VOCAB_ID_SLOT @ x)" "vocab_key h PREDICATE_VOCAB (face_key h PREDICATE_VOCAB_NAME_SLOT @ x)" for x
    by (simp_all add: vocab_key_def)
  show "vocab_state ok \<alpha> h PREDICATE_VOCAB (s', c)"
    using st assms(2) vocab_repr_cong [of h PREDICATE_VOCAB "\<alpha> s'" "\<alpha> s" "TYPE(16)", OF same] by (simp add: vocab_state_def)
  show "vocab_names \<alpha> h PREDICATE_VOCAB (s', c) = vocab_names \<alpha> h PREDICATE_VOCAB (s, c)"
    "vocab_room \<alpha> h PREDICATE_VOCAB (s', c) = vocab_room \<alpha> h PREDICATE_VOCAB (s, c)"
    by (simp_all add: vocab_names_def vocab_room_def same k fun_eq_iff)
qed

text \<open>What a predicate allocation leaves alone.\<close>

lemma predicate_step:
  assumes kv: "kv_point S ok \<alpha>" and st: "vocab_state ok \<alpha> h PREDICATE_VOCAB (s, c)" and n: "utf8_valid n"
    and room: "0 < vocab_room \<alpha> h PREDICATE_VOCAB (s, c)"
  shows "\<exists>pid s1 c1. id_for S h n (s, c) = (Inr pid, (s1, c1)) \<and> vocab_state ok \<alpha> h PREDICATE_VOCAB (s1, c1) \<and>
    vocab_names \<alpha> h PREDICATE_VOCAB (s1, c1) pid = Some n \<and>
    vocab_names \<alpha> h PREDICATE_VOCAB (s, c) \<subseteq>\<^sub>m vocab_names \<alpha> h PREDICATE_VOCAB (s1, c1) \<and>
    vocab_room \<alpha> h PREDICATE_VOCAB (s, c) \<le> Suc (vocab_room \<alpha> h PREDICATE_VOCAB (s1, c1)) \<and>
    (\<forall>sl x. slot_valid sl \<and> sl \<noteq> PREDICATE_VOCAB_ID_SLOT \<and> sl \<noteq> PREDICATE_VOCAB_NAME_SLOT \<longrightarrow>
       \<alpha> s1 (face_key h sl @ x) = \<alpha> s (face_key h sl @ x))"
proof -
  have f: "faces_ok PREDICATE_VOCAB" by simp
  note R = vocab_name_room [OF kv f, of h]
  obtain pid s1 c1 where 1: "id_for S h n (s, c) = (Inr pid, (s1, c1))" "vocab_state ok \<alpha> h PREDICATE_VOCAB (s1, c1)"
    "vocab_room \<alpha> h PREDICATE_VOCAB (s, c) \<le> Suc (vocab_room \<alpha> h PREDICATE_VOCAB (s1, c1))"
    using name_room.resolve_step [OF R st n room] by (metis prod.collapse)
  note 2 = name_vocab.resolve_ok [OF name_room.axioms(1) [OF R] st n 1(1)]
  have "\<alpha> s1 (face_key h sl @ x) = \<alpha> s (face_key h sl @ x)"
    if "slot_valid sl \<and> sl \<noteq> PREDICATE_VOCAB_ID_SLOT \<and> sl \<noteq> PREDICATE_VOCAB_NAME_SLOT" for sl x
    using id_for_frame [OF kv f st 1(1)] face_not_vocab [OF f] that by simp
  then show ?thesis using 1 2 by blast
qed

lemma edge_slot_not_vocab:
  "sl \<in> set graph_slots \<Longrightarrow> slot_valid sl \<and> sl \<noteq> PREDICATE_VOCAB_ID_SLOT \<and> sl \<noteq> PREDICATE_VOCAB_NAME_SLOT"
  by (auto simp: edge_slots slot_consts slot_valid_def)

lemma fixed_not_vocab [simp]: "PRIMARY_SLOT \<noteq> PREDICATE_VOCAB_ID_SLOT" "PRIMARY_SLOT \<noteq> PREDICATE_VOCAB_NAME_SLOT"
    "DYNAMIC_SLOT \<noteq> PREDICATE_VOCAB_ID_SLOT" "DYNAMIC_SLOT \<noteq> PREDICATE_VOCAB_NAME_SLOT"
  by (simp_all add: slot_consts)

context graph_decl
begin

lemma graph_ok_cong:
  assumes ok: "graph_ok G m"
    and same: "\<And>sl x. slot_valid sl \<Longrightarrow> sl \<notin> {DYNAMIC_SLOT, FIELD_VOCAB_ID_SLOT, FIELD_VOCAB_NAME_SLOT, PREDICATE_VOCAB_ID_SLOT, PREDICATE_VOCAB_NAME_SLOT} \<Longrightarrow>
       m' (face_key (ge_ns G) sl @ x) = m (face_key (ge_ns G) sl @ x)"
  shows "graph_ok G m'" "edges G m' = edges G m"
proof -
  have row: "m' (edge_row_key G i) = m (edge_row_key G i)" for i
    unfolding edge_row_key_def by (rule same) (auto simp: slot_consts slot_valid_def)
  show e: "edges G m' = edges G m" by (rule ext) (simp add: edges_def row)
  have tr: "m' x = m x" if mem: "in_traversal G x" for x
  proof -
    obtain sl y where "sl \<in> set graph_slots" "x = face_key (ge_ns G) sl @ y" using mem by (auto simp: in_traversal_def prefix_def)
    then show ?thesis using same [of sl y] by (auto simp: edge_slots slot_consts slot_valid_def)
  qed
  have de: "m' x = m x" if mem: "in_face (ge_doc G) x" for x
  proof -
    obtain sl y where sl: "sl \<in> set (live_slots (ge_doc G))" "x = face_key (ge_ns G) sl @ y"
      using mem by (auto simp: in_face_def prefix_def)
    then have "sl \<notin> {DYNAMIC_SLOT, FIELD_VOCAB_ID_SLOT, FIELD_VOCAB_NAME_SLOT, PREDICATE_VOCAB_ID_SLOT, PREDICATE_VOCAB_NAME_SLOT}"
      using live_valid [OF sl(1)] by (auto simp: slot_consts)
    then show ?thesis using same live_valid [OF sl(1)] sl(2) by blast
  qed
  show "graph_ok G m'" unfolding graph_ok_def e row
    using ok faces_of_cong [OF graph_okD(2) [OF ok] tr] faces_of_cong [OF graph_okD(3) [OF ok] de] by (simp add: graph_ok_def)
qed

lemma graph_ok_frame:
  assumes "graph_ok G m"
    and "\<forall>sl x. slot_valid sl \<and> sl \<noteq> PREDICATE_VOCAB_ID_SLOT \<and> sl \<noteq> PREDICATE_VOCAB_NAME_SLOT \<longrightarrow>
       m' (face_key (ge_ns G) sl @ x) = m (face_key (ge_ns G) sl @ x)"
  shows "graph_ok G m'" "edges G m' = edges G m"
  by (rule graph_ok_cong [OF assms(1)], use assms(2) in blast)+

text \<open>The keys of a link or an unlink are none of the vocabulary.\<close>

lemma link_keys_not_vocab:
  assumes "x \<in> {edge_dynamic_key G i, edge_row_key G i} \<union> fst ` set (traversal G i p) \<union> fst ` set (declared G i p)"
    and V: "V \<in> {PREDICATE_VOCAB, FIELD_VOCAB}"
  shows "\<not> vocab_key (ge_ns G) V x"
proof -
  have sl: "\<not> vocab_key (ge_ns G) V y" if mem: "sl \<in> insert DYNAMIC_SLOT (insert PRIMARY_SLOT (set graph_slots))" "prefix (face_key (ge_ns G) sl) y" for sl y
  proof -
    obtain z where "y = face_key (ge_ns G) sl @ z" using mem(2) by (auto simp: prefix_def)
    moreover have "\<not> vocab_key (ge_ns G) V (face_key (ge_ns G) sl @ z)"
      by (rule face_not_vocab) (use V mem(1) in \<open>auto simp: edge_slots slot_consts slot_valid_def PREDICATE_VOCAB_def FIELD_VOCAB_def faces_ok_def\<close>)
    ultimately show ?thesis by simp
  qed
  have "\<not> vocab_key (ge_ns G) V (edge_dynamic_key G i)" "\<not> vocab_key (ge_ns G) V (edge_row_key G i)"
    by (rule sl [OF _ prefix_row(2)] sl [OF _ prefix_row(1)]; simp)+
  moreover have "\<not> vocab_key (ge_ns G) V x" if "in_traversal G x"
    using that sl by (auto simp: in_traversal_def)
  moreover have "\<not> vocab_key (ge_ns G) V x" if "in_face (ge_doc G) x"
    using declared_region(2) [OF that] V by (auto simp: vocab_key_def PREDICATE_VOCAB_def FIELD_VOCAB_def slot_consts slot_valid_def)
  moreover have "in_traversal G x" if "x \<in> fst ` set (traversal G i p)" using that by (auto dest: trav.entry_region)
  moreover have "in_face (ge_doc G) x" if "x \<in> fst ` set (declared G i p)" using that by (auto dest: decl.entry_region)
  ultimately show ?thesis using assms by blast
qed

lemma link_step:
  assumes kv: "kv_point S ok \<alpha>" and inv: "graph_inv ok \<alpha> G (s, c)"
    and nodes: "node_ok (eh_src e)" "node_ok (eh_dst e)" and n: "utf8_valid (eh_predicate e)"
    and new: "edges G (\<alpha> s) i = None" and mem: "check_members G (eh_src e) (eh_dst e) = Inr ()"
    and room: "0 < graph_room G \<alpha> (s, c)"
  shows "\<exists>s' c'. link G S e payload i (s, c) = (Inr (), (s', c')) \<and> graph_inv ok \<alpha> G (s', c') \<and>
    facts \<alpha> G (s', c') = (facts \<alpha> G (s, c))(i \<mapsto> (eh_src e, eh_dst e, eh_predicate e, payload)) \<and>
    graph_room G \<alpha> (s, c) \<le> Suc (graph_room G \<alpha> (s', c')) \<and> \<alpha> s' (edge_dynamic_key G i) = None \<and>
    (\<forall>x. vocab_key (ge_ns G) FIELD_VOCAB x \<longrightarrow> \<alpha> s' x = \<alpha> s x)"
proof -
  let ?V = PREDICATE_VOCAB and ?h = "ge_ns G"
  have st: "vocab_state ok \<alpha> ?h ?V (s, c)" "graph_ok G (\<alpha> s)"
    and known: "\<And>i p. edges G (\<alpha> s) i = Some p \<Longrightarrow> graph_names G \<alpha> (s, c) (eb_predicate p) \<noteq> None"
    using inv by (auto simp: graph_inv_def)
  then have s: "ok s" by (simp add: vocab_state_def)
  obtain pid s1 c1 where 1: "id_for S ?h (eh_predicate e) (s, c) = (Inr pid, (s1, c1))" "vocab_state ok \<alpha> ?h ?V (s1, c1)"
      "vocab_names \<alpha> ?h ?V (s1, c1) pid = Some (eh_predicate e)" "vocab_names \<alpha> ?h ?V (s, c) \<subseteq>\<^sub>m vocab_names \<alpha> ?h ?V (s1, c1)"
      "vocab_room \<alpha> ?h ?V (s, c) \<le> Suc (vocab_room \<alpha> ?h ?V (s1, c1))"
      "\<forall>sl x. slot_valid sl \<and> sl \<noteq> PREDICATE_VOCAB_ID_SLOT \<and> sl \<noteq> PREDICATE_VOCAB_NAME_SLOT \<longrightarrow>
       \<alpha> s1 (face_key ?h sl @ x) = \<alpha> s (face_key ?h sl @ x)"
    using predicate_step [OF kv st(1) n] room by (auto simp: graph_room_def)
  have s1: "ok s1" using 1(2) by (simp add: vocab_state_def)
  note ok1 = graph_ok_frame [OF st(2) 1(6)]
  define p where "p = \<lparr> eb_src = eh_src e, eb_dst = eh_dst e, eb_predicate = pid, eb_payload = d_encode (ge_doc G) payload \<rparr>"
  define b where "b = edge_body_bytes e pid (d_encode (ge_doc G) payload)"
  have b: "decode_body b = Some p" unfolding b_def p_def by (rule body_back [OF nodes])
  have fine: "edge_fine G p" using nodes mem by (simp add: edge_fine_def p_def)
  define ops where "ops = [(edge_dynamic_key G i, None), (edge_row_key G i, Some b)] @ puts (traversal G i p) @ puts (declared G i p)"
  obtain s2 where s2: "scommit_batch S ops s1 = (Inr (), s2)" "ok s2" "\<alpha> s2 = apply_ops ops (\<alpha> s1)"
    using kv_point.commit_ok [OF kv s1] by blast
  have get: "sget S s (edge_row_key G i) = Inr None"
    using kv_point.get_ok [OF kv s] edges_none [OF st(2)] new by simp
  have run: "link G S e payload i (s, c) = (Inr (), (s2, c1))"
    using s2(1) unfolding ops_def
    by (simp add: link_def iobind_def get write_into_def mem predicate_vocab_id_def 1(1) on_store_def p_def b_def traversal_def declared_def)
  have new1: "edges G (\<alpha> s1) i = None" using new ok1(2) by simp
  note g2 = graph_ok_link [OF ok1(1) new1 fine b, folded ops_def, folded s2(3), unfolded ok1(2)]
  have frames: "\<alpha> s2 x = \<alpha> s1 x" if "vocab_key ?h V x" "V \<in> {PREDICATE_VOCAB, FIELD_VOCAB}" for V x
  proof -
    have "x \<notin> {edge_dynamic_key G i, edge_row_key G i} \<union> fst ` set (traversal G i p) \<union> fst ` set (declared G i p)"
      using link_keys_not_vocab that by blast
    then show ?thesis by (simp add: s2(3) ops_def apply_puts_other)
  qed
  have frame: "\<alpha> s2 x = \<alpha> s1 x" if "vocab_key ?h PREDICATE_VOCAB x" for x by (rule frames [OF that]) simp
  have fields_frame: "\<alpha> s2 x = \<alpha> s x" if mem: "vocab_key ?h FIELD_VOCAB x" for x
  proof -
    obtain sl y where "sl \<in> {FIELD_VOCAB_ID_SLOT, FIELD_VOCAB_NAME_SLOT}" "x = face_key ?h sl @ y"
      using mem by (auto simp: vocab_key_def prefix_def FIELD_VOCAB_def)
    then have "\<alpha> s1 x = \<alpha> s x" using 1(6) by (auto simp: slot_consts slot_valid_def)
    then show ?thesis using frames [OF mem] by simp
  qed
  note v2 = vocab_state_cong [OF 1(2) s2(2) frame]
  have known2: "graph_names G \<alpha> (s2, c1) (eb_predicate q) = graph_names G \<alpha> (s, c) (eb_predicate q)
      \<and> graph_names G \<alpha> (s, c) (eb_predicate q) \<noteq> None" if row: "edges G (\<alpha> s) j = Some q" for j q
  proof -
    obtain l where l: "graph_names G \<alpha> (s, c) (eb_predicate q) = Some l" using known [OF row] by blast
    then have "vocab_names \<alpha> ?h ?V (s1, c1) (eb_predicate q) = Some l"
      using 1(4) by (force simp: map_le_def graph_names_def)
    then show ?thesis using l v2(2) by (simp add: graph_names_def)
  qed
  have inv2: "graph_inv ok \<alpha> G (s2, c1)"
    using v2(1,2) g2 known2 1(3) by (auto simp: graph_inv_def graph_names_def p_def)
  have facts2: "facts \<alpha> G (s2, c1) = (facts \<alpha> G (s, c))(i \<mapsto> (eh_src e, eh_dst e, eh_predicate e, payload))"
  proof
    fix j
    show "facts \<alpha> G (s2, c1) j = ((facts \<alpha> G (s, c))(i \<mapsto> (eh_src e, eh_dst e, eh_predicate e, payload))) j"
      using v2(2) 1(3) known2 [of j] by (cases "edges G (\<alpha> s) j") (simp_all add: facts_def g2(2) p_def graph_names_def)
  qed
  have "edge_dynamic_key G i \<notin> fst ` set (traversal G i p)" "edge_dynamic_key G i \<notin> fst ` set (declared G i p)"
    using traversal_not_row declared_not_row by blast+
  then have "\<alpha> s2 (edge_dynamic_key G i) = None" by (simp add: s2(3) ops_def apply_puts_other)
  then show ?thesis using run inv2 facts2 1(5) v2(3) fields_frame by (auto simp: graph_room_def)
qed

lemma unlink_step:
  assumes kv: "kv_point S ok \<alpha>" and inv: "graph_inv ok \<alpha> G (s, c)" and old: "edges G (\<alpha> s) i = Some p"
  shows "\<exists>s'. unlink G S i s = Some (Inr (), s') \<and> graph_inv ok \<alpha> G (s', c) \<and>
    facts \<alpha> G (s', c) = (facts \<alpha> G (s, c))(i := None) \<and> graph_room G \<alpha> (s', c) = graph_room G \<alpha> (s, c) \<and>
    (\<forall>x. prefix (face_key (ge_ns G) DYNAMIC_SLOT) x \<or> vocab_key (ge_ns G) FIELD_VOCAB x \<longrightarrow> \<alpha> s' x = \<alpha> s x)"
proof -
  let ?h = "ge_ns G"
  have st: "vocab_state ok \<alpha> ?h PREDICATE_VOCAB (s, c)" "graph_ok G (\<alpha> s)" using inv by (auto simp: graph_inv_def)
  then have s: "ok s" by (simp add: vocab_state_def)
  obtain b where b: "\<alpha> s (edge_row_key G i) = Some b" "decode_body b = Some p"
    using old by (auto simp: edges_def split: Option.bind_splits)
  have fine: "check_members G (eb_src p) (eb_dst p) = Inr ()" using edges_fine [OF st(2) old] by (simp add: edge_fine_def)
  define ops where "ops = (edge_row_key G i, None) # dels (map fst (traversal G i p)) @ dels (map fst (declared G i p))"
  obtain s2 where s2: "scommit_batch S ops s = (Inr (), s2)" "ok s2" "\<alpha> s2 = apply_ops ops (\<alpha> s)"
    using kv_point.commit_ok [OF kv s] by blast
  have run: "unlink G S i s = Some (Inr (), s2)"
    using s2(1) b fine unfolding ops_def
    by (simp add: unlink_def unlink_into_def kv_point.get_ok [OF kv s] traversal_def declared_def)
  note g2 = graph_ok_unlink [OF st(2) old, folded ops_def, folded s2(3)]
  have other: "\<alpha> s2 x = \<alpha> s x" if "x \<noteq> edge_row_key G i" "\<not> in_traversal G x" "\<not> in_face (ge_doc G) x" for x
  proof -
    have "x \<notin> fst ` set (traversal G i p)" "x \<notin> fst ` set (declared G i p)"
      using that by (auto dest: trav.entry_region decl.entry_region)
    then show ?thesis using that(1) by (simp add: s2(3) ops_def apply_dels)
  qed
  have low: "\<alpha> s2 x = \<alpha> s x" if sl: "slot_valid sl" "sl \<noteq> PRIMARY_SLOT" "sl \<notin> set graph_slots" "unat sl < 4096" "prefix (face_key ?h sl) x" for sl x
  proof (rule other)
    show "x \<noteq> edge_row_key G i" using face_key_prefix_disjoint [OF sl(1) _ sl(2,5)] prefix_row(1) fixed_slots_valid(1) by metis
    show "\<not> in_traversal G x" by (rule not_traversal [OF sl(1,3,5)])
    show "\<not> in_face (ge_doc G) x" using declared_region(2) sl(1,4,5) by blast
  qed
  have frame: "\<alpha> s2 x = \<alpha> s x" if "vocab_key ?h PREDICATE_VOCAB x" for x
    using that low [of PREDICATE_VOCAB_ID_SLOT x] low [of PREDICATE_VOCAB_NAME_SLOT x] fixed_not_vocab by (auto simp: vocab_key_def)
  note v2 = vocab_state_cong [OF st(1) s2(2) frame]
  have "graph_inv ok \<alpha> G (s2, c)"
    using inv v2(1,2) g2 by (auto simp: graph_inv_def graph_names_def split: if_splits)
  moreover have "facts \<alpha> G (s2, c) = (facts \<alpha> G (s, c))(i := None)"
    using v2(2) by (auto simp: facts_def g2(2) graph_names_def)
  moreover have "slot_valid sl \<and> sl \<noteq> PRIMARY_SLOT \<and> sl \<notin> set graph_slots \<and> unat sl < 4096"
    if "sl \<in> {FIELD_VOCAB_ID_SLOT, FIELD_VOCAB_NAME_SLOT}" for sl
    using that by (auto simp: edge_slots slot_consts slot_valid_def)
  moreover have "id_slot FIELD_VOCAB = FIELD_VOCAB_ID_SLOT" "name_slot FIELD_VOCAB = FIELD_VOCAB_NAME_SLOT"
    by (simp_all add: FIELD_VOCAB_def)
  ultimately show ?thesis
    using run v2(3) low [of DYNAMIC_SLOT] low [of FIELD_VOCAB_ID_SLOT] low [of FIELD_VOCAB_NAME_SLOT] fixed_not_edge(5)
    by (auto simp: graph_room_def vocab_key_def)
qed

end

section \<open>Histories\<close>

datatype 'e graph_cmd = Link edge_head 'e u64 | Unlink u64

fun graph_run :: "('e, 's) graph_encode \<Rightarrow> 's storage \<Rightarrow> 'e graph_cmd \<Rightarrow> 's graph \<Rightarrow> (unit result \<times> 's graph) option" where
  "graph_run G S (Link e payload i) g = Some (link G S e payload i g)"
| "graph_run G S (Unlink i) g = map_option (\<lambda>(r, s). (r, (s, snd g))) (unlink G S i (fst g))"

fun graph_history ::
    "('e, 's) graph_encode \<Rightarrow> 's storage \<Rightarrow> 'e graph_cmd list \<Rightarrow> 's graph \<Rightarrow> (unit result list \<times> 's graph) option" where
  "graph_history G S [] g = Some ([], g)"
| "graph_history G S (cmd # cmds) g =
     (case graph_run G S cmd g of
        None \<Rightarrow> None
      | Some (r, g) \<Rightarrow> map_option (\<lambda>(rs, g). (r # rs, g)) (graph_history G S cmds g))"

text \<open>The abstract machine on a map of facts.\<close>

fun fact_run :: "('e, 's) graph_encode \<Rightarrow> 'e graph_cmd \<Rightarrow> (u64 \<rightharpoonup> 'e fact) \<Rightarrow> unit result \<times> (u64 \<rightharpoonup> 'e fact)" where
  "fact_run G (Link e payload i) F =
     (if F i \<noteq> None then (Inl (EdgeAlreadyLive i), F)
      else case check_members G (eh_src e) (eh_dst e) of
        Inl err \<Rightarrow> (Inl err, F)
      | Inr _ \<Rightarrow> (Inr (), F(i \<mapsto> (eh_src e, eh_dst e, eh_predicate e, payload))))"
| "fact_run G (Unlink i) F = (if F i = None then (Inl (EdgeNotFound i), F) else (Inr (), F(i := None)))"

fun fact_history :: "('e, 's) graph_encode \<Rightarrow> 'e graph_cmd list \<Rightarrow> (u64 \<rightharpoonup> 'e fact) \<Rightarrow> unit result list \<times> (u64 \<rightharpoonup> 'e fact)" where
  "fact_history G [] F = ([], F)"
| "fact_history G (cmd # cmds) F = (case fact_run G cmd F of (r, F) \<Rightarrow> map_prod (\<lambda>rs. r # rs) id (fact_history G cmds F))"

fun cmd_ok :: "'e graph_cmd \<Rightarrow> bool" where
  "cmd_ok (Link e payload i) \<longleftrightarrow> node_ok (eh_src e) \<and> node_ok (eh_dst e) \<and> utf8_valid (eh_predicate e)"
| "cmd_ok (Unlink i) \<longleftrightarrow> True"

lemma facts_none: "facts \<alpha> G g i = None \<longleftrightarrow> edges G (\<alpha> (fst g)) i = None"
  by (simp add: facts_def)

context graph_decl
begin

lemma run_step:
  assumes kv: "kv_point S ok \<alpha>" and inv: "graph_inv ok \<alpha> G g" and cmd: "cmd_ok cmd" and room: "0 < graph_room G \<alpha> g"
  shows "\<exists>r g'. graph_run G S cmd g = Some (r, g') \<and> graph_inv ok \<alpha> G g' \<and>
    fact_run G cmd (facts \<alpha> G g) = (r, facts \<alpha> G g') \<and> graph_room G \<alpha> g \<le> Suc (graph_room G \<alpha> g')"
proof -
  obtain s c where g: "g = (s, c)" by (cases g)
  have st: "ok s" "graph_ok G (\<alpha> s)" using inv by (auto simp: graph_inv_def vocab_state_def g)
  note get = kv_point.get_ok [OF kv st(1)]
  show ?thesis
  proof (cases cmd)
    case cmd_link: (Link e payload i)
    consider (live) "edges G (\<alpha> s) i \<noteq> None" | (stranger) err where "edges G (\<alpha> s) i = None" "check_members G (eh_src e) (eh_dst e) = Inl err"
      | (new) "edges G (\<alpha> s) i = None" "check_members G (eh_src e) (eh_dst e) = Inr ()"
      by (cases "check_members G (eh_src e) (eh_dst e)") auto
    then show ?thesis
    proof cases
      case live
      then have "\<alpha> s (edge_row_key G i) \<noteq> None" using edges_none [OF st(2)] by simp
      then have "link G S e payload i g = (Inl (EdgeAlreadyLive i), g)" by (simp add: link_def iobind_def get g)
      then show ?thesis using live inv facts_none [of \<alpha> G g i] by (simp add: cmd_link g)
    next
      case stranger
      then have "\<alpha> s (edge_row_key G i) = None" using edges_none [OF st(2)] by simp
      then have "link G S e payload i g = (Inl err, g)"
        using stranger(2) by (simp add: link_def iobind_def get g write_into_def)
      then show ?thesis using stranger inv facts_none [of \<alpha> G g i] by (simp add: cmd_link g)
    next
      case new
      obtain s' c' where "link G S e payload i (s, c) = (Inr (), (s', c'))" "graph_inv ok \<alpha> G (s', c')"
        "facts \<alpha> G (s', c') = (facts \<alpha> G (s, c))(i \<mapsto> (eh_src e, eh_dst e, eh_predicate e, payload))"
        "graph_room G \<alpha> (s, c) \<le> Suc (graph_room G \<alpha> (s', c'))"
        using link_step [OF kv inv [unfolded g] _ _ _ new room [unfolded g], of payload] cmd by (auto simp: cmd_link)
      then show ?thesis using new facts_none [of \<alpha> G g i] by (simp add: cmd_link g)
    qed
  next
    case cmd_unlink: (Unlink i)
    show ?thesis
    proof (cases "edges G (\<alpha> s) i")
      case None
      then have "\<alpha> s (edge_row_key G i) = None" using edges_none [OF st(2)] by simp
      then have "unlink G S i s = Some (Inl (EdgeNotFound i), s)" by (simp add: unlink_def unlink_into_def get)
      then show ?thesis using None inv facts_none [of \<alpha> G g i] by (simp add: cmd_unlink g)
    next
      case (Some p)
      then obtain s' where "unlink G S i s = Some (Inr (), s')" "graph_inv ok \<alpha> G (s', c)"
        "facts \<alpha> G (s', c) = (facts \<alpha> G (s, c))(i := None)" "graph_room G \<alpha> (s', c) = graph_room G \<alpha> (s, c)"
        using unlink_step [OF kv inv [unfolded g]] by blast
      then show ?thesis using Some facts_none [of \<alpha> G g i] by (simp add: cmd_unlink g)
    qed
  qed
qed

lemma history:
  assumes kv: "kv_point S ok \<alpha>" and "graph_inv ok \<alpha> G g" "list_all cmd_ok cmds" "length cmds \<le> graph_room G \<alpha> g"
  shows "\<exists>rs g'. graph_history G S cmds g = Some (rs, g') \<and> graph_inv ok \<alpha> G g' \<and>
    fact_history G cmds (facts \<alpha> G g) = (rs, facts \<alpha> G g')"
  using assms(2-4)
proof (induction cmds arbitrary: g)
  case (Cons cmd cmds)
  obtain r g1 where 1: "graph_run G S cmd g = Some (r, g1)" "graph_inv ok \<alpha> G g1"
    "fact_run G cmd (facts \<alpha> G g) = (r, facts \<alpha> G g1)" "graph_room G \<alpha> g \<le> Suc (graph_room G \<alpha> g1)"
    using run_step [OF kv Cons.prems(1), of cmd] Cons.prems(2,3) by auto
  have "length cmds \<le> graph_room G \<alpha> g1" "list_all cmd_ok cmds" using Cons.prems(2,3) 1(4) by simp_all
  from Cons.IH [OF 1(2) this(2,1)] show ?case using 1(1,3) by auto
qed simp

end

section \<open>Traversals\<close>

definition segments :: "u16 \<Rightarrow> edge_body \<Rightarrow> bytes" where
  "segments sl p =
     (let src = NodeRef_encode (eb_src p); dst = NodeRef_encode (eb_dst p); pid = to_be_bytes (eb_predicate p) in
      if sl = EDGE_OUT_SLOT then src @ dst else if sl = EDGE_IN_SLOT then dst @ src
      else if sl = EDGE_PREDICATE_OUT_SLOT then pid @ src @ dst else pid @ dst @ src)"

lemma traversal_slot:
  assumes "sl \<in> set graph_slots" "prefix (face_key (ge_ns G) sl) x"
  shows "(x, v) \<in> set (traversal G i p) \<longleftrightarrow> x = face_key (ge_ns G) sl @ segments sl p @ to_be_bytes i \<and> v = []"
proof -
  obtain y where x: "x = face_key (ge_ns G) sl @ y" using assms(2) by (auto simp: prefix_def)
  have d: "face_key (ge_ns G) sl @ y = face_key (ge_ns G) t @ z \<longleftrightarrow> sl = t \<and> y = z" if "t \<in> set graph_slots" for t z
    using face_key_disjoint edge_slots_valid assms(1) that by blast
  have "(x, v) \<in> set (traversal G i p) \<longleftrightarrow> (\<exists>t \<in> set graph_slots. x = face_key (ge_ns G) t @ segments t p @ to_be_bytes i \<and> v = [])"
    by (auto simp: traversal_def face_puts_def edge_face_key_def segments_def edge_slots Let_def)
  then show ?thesis using d assms(1) unfolding x by auto
qed

lemma face_ids:
  assumes kv: "kv_scan S ok \<alpha>" and s: "ok s" and G: "graph_ok G (\<alpha> s)" and sl: "sl \<in> set graph_slots"
    and safe: "prefix_safe (face_key (ge_ns G) sl @ q) (\<alpha> s)"
    and hit: "\<And>i p. edges G (\<alpha> s) i = Some p \<Longrightarrow> prefix q (segments sl p @ to_be_bytes i) \<longleftrightarrow> Q p"
    and rest: "\<And>i p. edges G (\<alpha> s) i = Some p \<Longrightarrow> Q p \<Longrightarrow> f (drop (length q) (segments sl p @ to_be_bytes i)) = Some i"
  shows "\<exists>ids. rbind (sscan_suffix S s (face_key (ge_ns G) sl @ q)) (\<lambda>sufs. Inr (List.map_filter f sufs)) = Inr ids \<and>
    distinct ids \<and> set ids = {i. \<exists>p. edges G (\<alpha> s) i = Some p \<and> Q p}"
proof -
  let ?P = "face_key (ge_ns G) sl @ q"
  define ks where "ks = keys_under (\<alpha> s) ?P"
  have fin: "finite (dom (\<alpha> s))" by (rule kv_scan.finite_dom [OF kv s])
  have scan: "sscan_suffix S s ?P = Inr (map (drop (length ?P)) ks)"
    unfolding ks_def by (rule kv_scan.scan_suffix_ok [OF kv s safe])
  have key: "x \<in> set ks \<longleftrightarrow> (\<exists>i p. edges G (\<alpha> s) i = Some p \<and> Q p \<and> x = face_key (ge_ns G) sl @ segments sl p @ to_be_bytes i)" for x
  proof -
    have "x \<in> set ks \<longleftrightarrow> prefix ?P x \<and> (\<exists>v. \<alpha> s x = Some v)" using fin by (auto simp: ks_def)
    also have "\<dots> \<longleftrightarrow> prefix ?P x \<and> (\<exists>v i p. edges G (\<alpha> s) i = Some p \<and> (x, v) \<in> set (traversal G i p))"
    proof (cases "prefix ?P x")
      case True
      then have "in_traversal G x" using sl append_prefixD by (fastforce simp: in_traversal_def)
      then show ?thesis using graph_okD(2) [OF G] by (simp add: faces_of_def)
    qed simp
    also have "\<dots> \<longleftrightarrow> prefix ?P x \<and> (\<exists>i p. edges G (\<alpha> s) i = Some p \<and> x = face_key (ge_ns G) sl @ segments sl p @ to_be_bytes i)"
    proof (cases "prefix ?P x")
      case True
      then have "prefix (face_key (ge_ns G) sl) x" by (rule append_prefixD)
      then show ?thesis by (simp only: traversal_slot [OF sl]) blast
    qed simp
    also have "\<dots> \<longleftrightarrow> (\<exists>i p. edges G (\<alpha> s) i = Some p \<and> Q p \<and> x = face_key (ge_ns G) sl @ segments sl p @ to_be_bytes i)"
    proof -
      have "prefix ?P (face_key (ge_ns G) sl @ segments sl p @ to_be_bytes i) \<longleftrightarrow> Q p" if "edges G (\<alpha> s) i = Some p" for i p
        using hit [OF that] by simp
      then show ?thesis by blast
    qed
    finally show ?thesis .
  qed
  define f' where "f' = (\<lambda>x. f (drop (length ?P) x))"
  have f': "f' (face_key (ge_ns G) sl @ segments sl p @ to_be_bytes i) = Some i" if "edges G (\<alpha> s) i = Some p" "Q p" for i p
    using rest [OF that] by (simp add: f'_def)
  have ids: "List.map_filter f (map (drop (length ?P)) ks) = List.map_filter f' ks"
    by (simp add: List.map_filter_def filter_map comp_def f'_def)
  have "set (List.map_filter f' ks) = {i. \<exists>p. edges G (\<alpha> s) i = Some p \<and> Q p}"
    using key f' by (fastforce simp: set_map_filter)
  moreover have "distinct (List.map_filter f' ks)"
  proof -
    have "inj_on (the \<circ> f') (set (filter (\<lambda>x. f' x \<noteq> None) ks))"
    proof (rule inj_onI)
      fix x y
      assume a: "x \<in> set (filter (\<lambda>x. f' x \<noteq> None) ks)" "y \<in> set (filter (\<lambda>x. f' x \<noteq> None) ks)" "(the \<circ> f') x = (the \<circ> f') y"
      obtain i p j r where "edges G (\<alpha> s) i = Some p" "Q p" "x = face_key (ge_ns G) sl @ segments sl p @ to_be_bytes i"
        "edges G (\<alpha> s) j = Some r" "Q r" "y = face_key (ge_ns G) sl @ segments sl r @ to_be_bytes j"
        using a(1,2) key by (auto; blast)
      then show "x = y" using a(3) f' by auto
    qed
    moreover have "distinct ks" unfolding ks_def keys_under_def by simp
    ultimately show ?thesis by (simp add: List.map_filter_def distinct_map)
  qed
  ultimately show ?thesis unfolding scan rbind_simps ids by blast
qed

lemma ids_after_endpoint_filter:
  "ids_after_endpoint sufs = List.map_filter (\<lambda>sfx. if 8 < length sfx then from_be_bytes (drop (length sfx - 8) sfx) else None) sufs"
  by (induction sufs) (simp_all add: ids_after_endpoint_def List.map_filter_def)

lemma endpoint_id:
  "r \<noteq> [] \<Longrightarrow> (if 8 < length (r @ to_be_bytes i) then from_be_bytes (drop (length (r @ to_be_bytes i) - 8) (r @ to_be_bytes i)) else None) = Some (i :: u64)"
  by (simp add: byte_sized_def)

lemma NodeRef_prefix:
  assumes "node_ok a" "node_ok b"
  shows "prefix (NodeRef_encode a @ x) (NodeRef_encode b @ y) \<longleftrightarrow> a = b \<and> prefix x y"
proof
  assume "prefix (NodeRef_encode a @ x) (NodeRef_encode b @ y)"
  then obtain z where "NodeRef_encode a @ x @ z = NodeRef_encode b @ y" by (auto simp: prefix_def)
  then show "a = b \<and> prefix x y" using NodeRef_inject [OF assms] by (metis prefixI)
qed simp

lemma pid_prefix: "prefix (to_be_bytes (a :: u16) @ x) (to_be_bytes b @ y) \<longleftrightarrow> a = b \<and> prefix x y"
proof
  assume "prefix (to_be_bytes a @ x) (to_be_bytes b @ y)"
  then obtain z where "to_be_bytes a @ (x @ z) = to_be_bytes b @ y" by (auto simp: prefix_def)
  then have "to_be_bytes a = to_be_bytes b \<and> x @ z = y" by (simp add: append_eq_append_conv)
  then show "a = b \<and> prefix x y" by (auto simp: to_be_bytes_inject byte_sized_def)
qed simp

lemma NodeRef_not_Nil [simp]: "NodeRef_encode r \<noteq> []"
  by (simp add: NodeRef_encode_def)

lemmas segments_simps = segments_def [of EDGE_OUT_SLOT] segments_def [of EDGE_IN_SLOT]
  segments_def [of EDGE_PREDICATE_OUT_SLOT] segments_def [of EDGE_PREDICATE_IN_SLOT]

lemma slots_distinct [simp]: "EDGE_OUT_SLOT \<noteq> EDGE_IN_SLOT" "EDGE_OUT_SLOT \<noteq> EDGE_PREDICATE_OUT_SLOT" "EDGE_OUT_SLOT \<noteq> EDGE_PREDICATE_IN_SLOT"
    "EDGE_IN_SLOT \<noteq> EDGE_OUT_SLOT" "EDGE_PREDICATE_OUT_SLOT \<noteq> EDGE_OUT_SLOT" "EDGE_PREDICATE_IN_SLOT \<noteq> EDGE_OUT_SLOT"
    "EDGE_IN_SLOT \<noteq> EDGE_PREDICATE_OUT_SLOT" "EDGE_IN_SLOT \<noteq> EDGE_PREDICATE_IN_SLOT"
    "EDGE_PREDICATE_OUT_SLOT \<noteq> EDGE_IN_SLOT" "EDGE_PREDICATE_IN_SLOT \<noteq> EDGE_IN_SLOT"
    "EDGE_PREDICATE_OUT_SLOT \<noteq> EDGE_PREDICATE_IN_SLOT" "EDGE_PREDICATE_IN_SLOT \<noteq> EDGE_PREDICATE_OUT_SLOT"
    "EDGE_OUT_SLOT \<in> set graph_slots" "EDGE_IN_SLOT \<in> set graph_slots"
    "EDGE_PREDICATE_OUT_SLOT \<in> set graph_slots" "EDGE_PREDICATE_IN_SLOT \<in> set graph_slots"
  by (simp_all add: edge_slots)

text \<open>The answers of the reads, as sets of edges.\<close>

definition answers_edges :: "('e, 's) graph_encode \<Rightarrow> (bytes \<rightharpoonup> bytes) \<Rightarrow> (edge_body \<Rightarrow> bool) \<Rightarrow> u64 list result \<Rightarrow> bool" where
  "answers_edges G m Q r \<longleftrightarrow> (\<exists>ids. r = Inr ids \<and> distinct ids \<and> set ids = {i. \<exists>p. edges G m i = Some p \<and> Q p})"

lemma face_answers:
  assumes kv: "kv_scan S ok \<alpha>" and s: "ok s" and G: "graph_ok G (\<alpha> s)" and sl: "sl \<in> set graph_slots"
    and safe: "prefix_safe (face_key (ge_ns G) sl @ q) (\<alpha> s)"
    and hit: "\<And>p y. edge_fine G p \<Longrightarrow> prefix q (segments sl p @ y) \<longleftrightarrow> Q p"
    and tail: "\<And>p. edge_fine G p \<Longrightarrow> Q p \<Longrightarrow> segments sl p = q @ r p"
  shows "(\<forall>p. r p \<noteq> []) \<Longrightarrow> answers_edges G (\<alpha> s) Q
      (rbind (sscan_suffix S s (face_key (ge_ns G) sl @ q)) (\<lambda>sufs. Inr (ids_after_endpoint sufs)))"
    and "(\<forall>p. r p = []) \<Longrightarrow> answers_edges G (\<alpha> s) Q
      (rbind (sscan_suffix S s (face_key (ge_ns G) sl @ q)) (\<lambda>sufs. Inr (ids_after_pair sufs)))"
proof -
  note fine = edges_fine [OF G]
  show "answers_edges G (\<alpha> s) Q (rbind (sscan_suffix S s (face_key (ge_ns G) sl @ q)) (\<lambda>sufs. Inr (ids_after_endpoint sufs)))"
    if r: "\<forall>p. r p \<noteq> []"
    unfolding answers_edges_def ids_after_endpoint_filter
  proof (rule face_ids [OF kv s G sl safe])
    fix i p assume p: "edges G (\<alpha> s) i = Some p"
    show "prefix q (segments sl p @ to_be_bytes i) \<longleftrightarrow> Q p" by (rule hit [OF fine [OF p]])
    assume "Q p"
    then have "drop (length q) (segments sl p @ to_be_bytes i) = r p @ to_be_bytes i" using tail [OF fine [OF p]] by simp
    then show "(if 8 < length (drop (length q) (segments sl p @ to_be_bytes i))
       then from_be_bytes (drop (length (drop (length q) (segments sl p @ to_be_bytes i)) - 8) (drop (length q) (segments sl p @ to_be_bytes i)))
       else None) = Some i" using endpoint_id r by metis
  qed
  show "answers_edges G (\<alpha> s) Q (rbind (sscan_suffix S s (face_key (ge_ns G) sl @ q)) (\<lambda>sufs. Inr (ids_after_pair sufs)))"
    if r: "\<forall>p. r p = []"
    unfolding answers_edges_def ids_after_pair_def
  proof (rule face_ids [OF kv s G sl safe])
    fix i p assume p: "edges G (\<alpha> s) i = Some p"
    show "prefix q (segments sl p @ to_be_bytes i) \<longleftrightarrow> Q p" by (rule hit [OF fine [OF p]])
    assume "Q p"
    then show "from_be_bytes (drop (length q) (segments sl p @ to_be_bytes i)) = Some i"
      using tail [OF fine [OF p]] r by (simp add: byte_sized_def)
  qed
qed

section \<open>Rebuilding\<close>

text \<open>The entries of the walked rows.\<close>

definition walked_entries :: "('e, 's) graph_encode \<Rightarrow> (bytes \<Rightarrow> bytes) \<Rightarrow> bytes list \<Rightarrow> (bytes \<times> bytes) list" where
  "walked_entries G f ks = concat (map (\<lambda>k. case from_be_bytes (drop (length (face_key (ge_ns G) PRIMARY_SLOT)) k) of
     None \<Rightarrow> [] | Some i \<Rightarrow> (case decode_body (f k) of None \<Rightarrow> [] | Some p \<Rightarrow>
       if check_members G (eb_src p) (eb_dst p) = Inr () then traversal G i p else [])) ks)"

context kv_scan
begin

lemma flush_full_ok:
  assumes "ok s"
  shows "\<exists>ops' s'. flush_full S full ops s = (Inr ops', s') \<and> ok s' \<and> apply_ops ops' (\<alpha> s') = apply_ops ops (\<alpha> s) \<and>
    (\<alpha> s' = \<alpha> s \<or> \<alpha> s' = apply_ops ops (\<alpha> s)) \<and> (full \<longrightarrow> ops' = [])"
proof (cases full)
  case True
  obtain s' where "scommit_batch S ops s = (Inr (), s')" "ok s'" "\<alpha> s' = apply_ops ops (\<alpha> s)"
    using commit_ok [OF assms] by blast
  then show ?thesis using True by (simp add: flush_full_def iobind_def)
qed (simp add: flush_full_def assms)

lemma reindex_sweep_ok:
  assumes "ok s" "apply_ops ops (\<alpha> s) \<subseteq>\<^sub>m \<alpha> s"
  shows "\<exists>ops' s'. reindex_sweep S chunk (map (\<lambda>k. Inr (k, f k)) ks) ops s = (Inr ops', s') \<and> ok s' \<and>
    apply_ops ops' (\<alpha> s') = apply_ops (dels ks) (apply_ops ops (\<alpha> s)) \<and> apply_ops ops' (\<alpha> s') \<subseteq>\<^sub>m \<alpha> s' \<and> \<alpha> s' \<subseteq>\<^sub>m \<alpha> s"
  using assms
proof (induction ks arbitrary: s ops)
  case (Cons k ks)
  let ?ops = "batch_del ops k"
  obtain ops1 s1 where c: "flush_full S (chunk \<le> length ?ops) ?ops s = (Inr ops1, s1)" "ok s1"
    "apply_ops ops1 (\<alpha> s1) = apply_ops ?ops (\<alpha> s)" "\<alpha> s1 = \<alpha> s \<or> \<alpha> s1 = apply_ops ?ops (\<alpha> s)"
    using flush_full_ok [OF Cons.prems(1)] by blast
  have le: "apply_ops ?ops (\<alpha> s) \<subseteq>\<^sub>m \<alpha> s" using Cons.prems(2) by (auto simp: map_le_def)
  then have s1: "\<alpha> s1 \<subseteq>\<^sub>m \<alpha> s" "apply_ops ops1 (\<alpha> s1) \<subseteq>\<^sub>m \<alpha> s1" using c(3,4) by auto
  obtain ops2 s2 where "reindex_sweep S chunk (map (\<lambda>k. Inr (k, f k)) ks) ops1 s1 = (Inr ops2, s2)" "ok s2"
    "apply_ops ops2 (\<alpha> s2) = apply_ops (dels ks) (apply_ops ops1 (\<alpha> s1))" "apply_ops ops2 (\<alpha> s2) \<subseteq>\<^sub>m \<alpha> s2" "\<alpha> s2 \<subseteq>\<^sub>m \<alpha> s1"
    using Cons.IH [OF c(2) s1(2)] by blast
  then show ?case using c(1,3) s1(1) by (auto simp: iobind_def Let_def intro: map_le_trans)
qed simp

lemma reindex_slots_ok:
  assumes "ok s" "apply_ops ops (\<alpha> s) \<subseteq>\<^sub>m \<alpha> s" "\<forall>sl \<in> set slots. prefix_safe (face_key (ge_ns G) sl) (\<alpha> s)"
  shows "\<exists>ops' s'. reindex_slots G S chunk slots ops s = (Inr ops', s') \<and> ok s' \<and>
    (\<forall>x. apply_ops ops' (\<alpha> s') x = (if \<exists>sl \<in> set slots. prefix (face_key (ge_ns G) sl) x then None else apply_ops ops (\<alpha> s) x))"
  using assms
proof (induction slots arbitrary: s ops)
  case (Cons sl slots)
  let ?p = "face_key (ge_ns G) sl"
  have items: "sscan_range_iter S s ?p (prefix_end ?p) = map (\<lambda>k. Inr (k, the (\<alpha> s k))) (keys_under (\<alpha> s) ?p)"
    using Cons.prems(1,3) by (simp add: scan_iter_ok prefix_safe_keys)
  obtain ops1 s1 where 1: "reindex_sweep S chunk (map (\<lambda>k. Inr (k, the (\<alpha> s k))) (keys_under (\<alpha> s) ?p)) ops s = (Inr ops1, s1)" "ok s1"
    "apply_ops ops1 (\<alpha> s1) = apply_ops (dels (keys_under (\<alpha> s) ?p)) (apply_ops ops (\<alpha> s))"
    "apply_ops ops1 (\<alpha> s1) \<subseteq>\<^sub>m \<alpha> s1" "\<alpha> s1 \<subseteq>\<^sub>m \<alpha> s"
    using reindex_sweep_ok [OF Cons.prems(1,2), where chunk = chunk and f = "\<lambda>k. the (\<alpha> s k)" and ks = "keys_under (\<alpha> s) ?p"] by blast
  have "set (keys_under (\<alpha> s) ?p) = {k \<in> dom (\<alpha> s). prefix ?p k}"
    using finite_dom [OF Cons.prems(1)] by simp
  then have m1: "apply_ops ops1 (\<alpha> s1) x = (if prefix ?p x then None else apply_ops ops (\<alpha> s) x)" for x
    using Cons.prems(2) unfolding 1(3) apply_dels by (cases "apply_ops ops (\<alpha> s) x") (auto simp: map_le_def dom_def)
  have "\<forall>sl \<in> set slots. prefix_safe (face_key (ge_ns G) sl) (\<alpha> s1)"
    using Cons.prems(3) prefix_safe_mono [OF 1(5)] by simp
  from Cons.IH [OF 1(2,4) this]
  obtain ops2 s2 where "reindex_slots G S chunk slots ops1 s1 = (Inr ops2, s2)" "ok s2"
    "\<forall>x. apply_ops ops2 (\<alpha> s2) x = (if \<exists>sl \<in> set slots. prefix (face_key (ge_ns G) sl) x then None else apply_ops ops1 (\<alpha> s1) x)"
    by blast
  then show ?case using 1(1) m1 by (simp add: iobind_def items Let_def edge_face_key_def)
qed simp

lemma reindex_derive_ok:
  assumes "ok s" "\<forall>k \<in> set ks. (from_be_bytes (drop (length (face_key (ge_ns G) PRIMARY_SLOT)) k) :: u64 option) \<noteq> None \<longrightarrow> decode_body (f k) \<noteq> None"
  shows "\<exists>ops' n' s'. reindex_derive G S chunk (map (\<lambda>k. Inr (k, f k)) ks) ops n s = Some (Inr (ops', n'), s') \<and> ok s' \<and>
    apply_ops ops' (\<alpha> s') = apply_ops (puts (walked_entries G f ks)) (apply_ops ops (\<alpha> s))"
  using assms
proof (induction ks arbitrary: s ops n)
  case (Cons k ks)
  let ?suf = "drop (length (face_key (ge_ns G) PRIMARY_SLOT)) k"
  have ks: "\<forall>k \<in> set ks. (from_be_bytes (drop (length (face_key (ge_ns G) PRIMARY_SLOT)) k) :: u64 option) \<noteq> None \<longrightarrow> decode_body (f k) \<noteq> None"
    using Cons.prems(2) by simp
  consider "from_be_bytes ?suf = (None :: u64 option)"
    | i p e where "from_be_bytes ?suf = Some (i :: u64)" "check_members G (eb_src p) (eb_dst p) = Inl e" "decode_body (f k) = Some p"
    | i p where "from_be_bytes ?suf = Some (i :: u64)" "check_members G (eb_src p) (eb_dst p) = Inr ()" "decode_body (f k) = Some p"
  proof (cases "from_be_bytes ?suf :: u64 option")
    case (Some i)
    then obtain p where p: "decode_body (f k) = Some p" using Cons.prems(2) by auto
    then show thesis using Some that(2,3) by (cases "check_members G (eb_src p) (eb_dst p)") auto
  qed (rule that(1))
  then show ?case
  proof cases
    case 1
    then show ?thesis using Cons.IH [OF Cons.prems(1) ks, of ops n] by (simp add: edge_face_key_def walked_entries_def)
  next
    case 2
    then show ?thesis using Cons.IH [OF Cons.prems(1) ks, of ops n] by (simp add: edge_face_key_def walked_entries_def)
  next
    case (3 i p)
    let ?ops = "ops @ puts (face_puts G i (eb_src p) (eb_dst p) (eb_predicate p))"
    obtain ops1 s1 where c: "flush_full S (chunk \<le> length ?ops) ?ops s = (Inr ops1, s1)" "ok s1"
      "apply_ops ops1 (\<alpha> s1) = apply_ops ?ops (\<alpha> s)" using flush_full_ok [OF Cons.prems(1)] by blast
    obtain ops2 n2 s2 where "reindex_derive G S chunk (map (\<lambda>k. Inr (k, f k)) ks) ops1 (n + 1) s1 = Some (Inr (ops2, n2), s2)" "ok s2"
      "apply_ops ops2 (\<alpha> s2) = apply_ops (puts (walked_entries G f ks)) (apply_ops ops1 (\<alpha> s1))"
      using Cons.IH [OF c(2) ks, of ops1 "n + 1"] by blast
    then show ?thesis using 3 c by (simp add: edge_face_key_def walked_entries_def traversal_def Let_def)
  qed
qed (simp add: walked_entries_def)

end

section \<open>Rows of members\<close>

text \<open>The rows a rebuild walks: those whose endpoints are members.\<close>

definition member_edges :: "('e, 's) graph_encode \<Rightarrow> (bytes \<rightharpoonup> bytes) \<Rightarrow> u64 \<rightharpoonup> edge_body" where
  "member_edges G m i = (case edges G m i of None \<Rightarrow> None
     | Some p \<Rightarrow> if check_members G (eb_src p) (eb_dst p) = Inr () then Some p else None)"

lemma member_edges_ok: "graph_ok G m \<Longrightarrow> member_edges G m = edges G m"
  using edges_fine by (fastforce simp: member_edges_def edge_fine_def fun_eq_iff split: option.split)

lemma walked_rows:
  assumes "finite (dom m)"
  shows "(x, v) \<in> set (walked_entries G (\<lambda>k. the (m k)) (keys_under m (face_key (ge_ns G) PRIMARY_SLOT))) \<longleftrightarrow>
    (\<exists>i p. member_edges G m i = Some p \<and> (x, v) \<in> set (traversal G i p))"
proof -
  let ?P = "face_key (ge_ns G) PRIMARY_SLOT"
  have row: "k = edge_row_key G i" if "prefix ?P k" "from_be_bytes (drop (length ?P) k) = Some i" for k and i :: u64
    using that to_from_be_bytes [OF _ that(2)] by (auto simp: prefix_def edge_row_key_def byte_sized_def)
  show ?thesis
  proof
    assume "(x, v) \<in> set (walked_entries G (\<lambda>k. the (m k)) (keys_under m ?P))"
    then obtain k where k0: "k \<in> dom m" "prefix ?P k" and e: "(x, v) \<in> set (case from_be_bytes (drop (length ?P) k) of
       None \<Rightarrow> [] | Some i \<Rightarrow> (case decode_body (the (m k)) of None \<Rightarrow> [] | Some p \<Rightarrow>
         if check_members G (eb_src p) (eb_dst p) = Inr () then traversal G i p else []))"
      using assms unfolding walked_entries_def by auto
    obtain i p where k: "k \<in> dom m" "prefix ?P k" "from_be_bytes (drop (length ?P) k) = Some i" "decode_body (the (m k)) = Some p"
        "check_members G (eb_src p) (eb_dst p) = Inr ()" "(x, v) \<in> set (traversal G i p)"
      using e k0 by (cases "from_be_bytes (drop (length ?P) k) :: u64 option"; cases "decode_body (the (m k))") (simp_all split: if_splits)
    then have "member_edges G m i = Some p" using row [OF k(2,3)] by (auto simp: member_edges_def edges_def)
    then show "\<exists>i p. member_edges G m i = Some p \<and> (x, v) \<in> set (traversal G i p)" using k(6) by blast
  next
    assume "\<exists>i p. member_edges G m i = Some p \<and> (x, v) \<in> set (traversal G i p)"
    then obtain i p b where b: "m (edge_row_key G i) = Some b" "decode_body b = Some p"
        "check_members G (eb_src p) (eb_dst p) = Inr ()" "(x, v) \<in> set (traversal G i p)"
      by (auto simp: member_edges_def edges_def split: option.splits if_splits Option.bind_splits)
    have "edge_row_key G i \<in> set (keys_under m ?P)" using assms b(1) by auto
    moreover have "from_be_bytes (drop (length ?P) (edge_row_key G i)) = Some i" by (simp add: edge_row_key_def byte_sized_def)
    ultimately show "(x, v) \<in> set (walked_entries G (\<lambda>k. the (m k)) (keys_under m ?P))"
      using b unfolding walked_entries_def by (auto intro!: bexI [of _ "edge_row_key G i"])
  qed
qed

lemma reindex_run:
  assumes kv: "kv_scan S ok \<alpha>" and s: "ok s"
    and rows: "\<And>i b. \<alpha> s (edge_row_key G i) = Some b \<Longrightarrow> decode_body b \<noteq> None"
    and safe: "\<forall>sl \<in> insert PRIMARY_SLOT (set graph_slots). prefix_safe (face_key (ge_ns G) sl) (\<alpha> s)"
  shows "\<exists>n s'. reindex G S chunk s = Some (Inr n, s') \<and> ok s' \<and> (\<forall>x. \<not> in_traversal G x \<longrightarrow> \<alpha> s' x = \<alpha> s x) \<and>
    faces_of (in_traversal G) (traversal G) (member_edges G (\<alpha> s)) (\<alpha> s')"
proof -
  let ?P = "face_key (ge_ns G) PRIMARY_SLOT" and ?c = "max chunk 1"
  note pt = kv_scan.axioms(1) [OF kv]
  obtain ops1 s1 where 1: "reindex_slots G S ?c graph_slots [] s = (Inr ops1, s1)" "ok s1"
    "\<And>x. apply_ops ops1 (\<alpha> s1) x = (if in_traversal G x then None else \<alpha> s x)"
    using kv_scan.reindex_slots_ok [OF kv s, of "[]" graph_slots G ?c] safe by (auto simp: in_traversal_def)
  obtain ops2 s2 where 2: "flush_full S (ops1 \<noteq> []) ops1 s1 = (Inr ops2, s2)" "ok s2"
    "apply_ops ops2 (\<alpha> s2) = apply_ops ops1 (\<alpha> s1)" "ops1 \<noteq> [] \<longrightarrow> ops2 = []" "\<alpha> s2 = \<alpha> s1 \<or> \<alpha> s2 = apply_ops ops1 (\<alpha> s1)"
    using kv_scan.flush_full_ok [OF kv 1(2), of "ops1 \<noteq> []" ops1] by blast
  have m2: "\<alpha> s2 x = (if in_traversal G x then None else \<alpha> s x)" for x
  proof (cases "ops1 = []")
    case True
    then show ?thesis using 1(3) [of x] 2(1) by (simp add: flush_full_def)
  next
    case False
    then show ?thesis using 1(3) [of x] 2(3,4) by simp
  qed
  have prim: "\<alpha> s2 k = \<alpha> s k" if "prefix ?P k" for k
    using not_traversal [OF _ fixed_not_edge(1) that] by (simp add: m2)
  have fin: "finite (dom (\<alpha> s2))" by (rule kv_scan.finite_dom [OF kv 2(2)])
  have "prefix_safe ?P (\<alpha> s2)"
  proof (rule kv_scan.prefix_safe_mono [OF kv])
    show "\<alpha> s2 \<subseteq>\<^sub>m \<alpha> s" by (auto simp: map_le_def m2 dom_def split: if_splits)
    show "prefix_safe ?P (\<alpha> s)" using safe by simp
  qed
  then have items: "sscan_range_iter S s2 ?P (prefix_end ?P) = map (\<lambda>k. Inr (k, the (\<alpha> s2 k))) (keys_under (\<alpha> s2) ?P)"
    by (simp add: kv_scan.scan_iter_ok [OF kv 2(2)] prefix_safe_keys)
  have dec: "\<forall>k \<in> set (keys_under (\<alpha> s2) ?P). (from_be_bytes (drop (length ?P) k) :: u64 option) \<noteq> None \<longrightarrow> decode_body (the (\<alpha> s2 k)) \<noteq> None"
  proof (intro ballI impI)
    fix k assume k: "k \<in> set (keys_under (\<alpha> s2) ?P)" "(from_be_bytes (drop (length ?P) k) :: u64 option) \<noteq> None"
    then obtain i :: u64 where i: "from_be_bytes (drop (length ?P) k) = Some i" by auto
    obtain b where b: "prefix ?P k" "\<alpha> s2 k = Some b" using k(1) fin by auto
    moreover have "k = edge_row_key G i"
      using b(1) to_from_be_bytes [OF _ i] by (auto simp: prefix_def edge_row_key_def byte_sized_def)
    ultimately have "decode_body b \<noteq> None" using rows [of i b] prim [of k] by simp
    then show "decode_body (the (\<alpha> s2 k)) \<noteq> None" using b(2) by simp
  qed
  obtain ops3 n s3 where 3: "reindex_derive G S ?c (map (\<lambda>k. Inr (k, the (\<alpha> s2 k))) (keys_under (\<alpha> s2) ?P)) [] 0 s2 = Some (Inr (ops3, n), s3)"
    "ok s3" "apply_ops ops3 (\<alpha> s3) = apply_ops (puts (walked_entries G (\<lambda>k. the (\<alpha> s2 k)) (keys_under (\<alpha> s2) ?P))) (\<alpha> s2)"
    using kv_scan.reindex_derive_ok [OF kv 2(2) dec, of ?c "[]" 0] by auto
  obtain ops4 s4 where 4: "flush_full S (ops3 \<noteq> []) ops3 s3 = (Inr ops4, s4)" "ok s4"
    "apply_ops ops4 (\<alpha> s4) = apply_ops ops3 (\<alpha> s3)" "ops3 \<noteq> [] \<longrightarrow> ops4 = []"
    using kv_scan.flush_full_ok [OF kv 3(2), of "ops3 \<noteq> []" ops3] by blast
  define es where "es = walked_entries G (\<lambda>k. the (\<alpha> s2 k)) (keys_under (\<alpha> s2) ?P)"
  have m4: "\<alpha> s4 = apply_ops (puts es) (\<alpha> s2)"
  proof (cases "ops3 = []")
    case True
    then show ?thesis using 3(3) 4(1) by (simp add: flush_full_def es_def)
  next
    case False
    then show ?thesis using 3(3) 4(3,4) by (simp add: es_def)
  qed
  have run: "reindex G S chunk s = Some (Inr n, s4)"
    using 1(1) 2(1) 3(1) 4(1) by (simp add: reindex_def iobind_def Let_def edge_face_key_def items)
  have mem: "(x, v) \<in> set es \<longleftrightarrow> (\<exists>i p. member_edges G (\<alpha> s) i = Some p \<and> (x, v) \<in> set (traversal G i p))" for x v
  proof -
    have "member_edges G (\<alpha> s2) = member_edges G (\<alpha> s)" using prim by (simp add: member_edges_def edges_def fun_eq_iff)
    then show ?thesis unfolding es_def walked_rows [OF fin] by simp
  qed
  have "faces_of (in_traversal G) (traversal G) (member_edges G (\<alpha> s)) (\<alpha> s4)"
    unfolding m4 by (rule trav.rebuild) (simp_all add: m2 mem)
  moreover have "\<alpha> s4 x = \<alpha> s x" if "\<not> in_traversal G x" for x
  proof -
    have "x \<notin> fst ` set es" using that mem by (auto dest: trav.entry_region)
    then show ?thesis using that by (simp add: m4 apply_puts_other m2)
  qed
  ultimately show ?thesis using run 4(2) by blast
qed

section \<open>Facts and attributes\<close>

definition answers_facts :: "(u64 \<rightharpoonup> 'e fact) \<Rightarrow> ('e fact \<Rightarrow> bool) \<Rightarrow> u64 list result \<Rightarrow> bool" where
  "answers_facts F Q r \<longleftrightarrow> (\<exists>ids. r = Inr ids \<and> distinct ids \<and> set ids = {i. \<exists>f. F i = Some f \<and> Q f})"

lemma answers_facts_edges:
  assumes "answers_edges G (\<alpha> s) Q r" "\<And>i p. edges G (\<alpha> s) i = Some p \<Longrightarrow> Q' (eb_src p, eb_dst p, the (graph_names G \<alpha> (s, c) (eb_predicate p)), d_decode (ge_doc G) (eb_payload p)) \<longleftrightarrow> Q p"
  shows "answers_facts (facts \<alpha> G (s, c)) Q' r"
proof -
  have "{i. \<exists>p. edges G (\<alpha> s) i = Some p \<and> Q p} = {i. \<exists>f. facts \<alpha> G (s, c) i = Some f \<and> Q' f}"
    using assms(2) by (auto simp: facts_def)
  then show ?thesis using assms(1) by (simp add: answers_edges_def answers_facts_def)
qed

text \<open>An empty namespace.\<close>

lemma graph_inv_empty:
  assumes "ok s" "\<alpha> s = Map.empty"
  shows "graph_inv ok \<alpha> G (Graph_new s)" "facts \<alpha> G (Graph_new s) = Map.empty" "graph_room G \<alpha> (Graph_new s) = 2 ^ 16 - 1"
proof -
  have st: "vocab_state ok \<alpha> (ge_ns G) PREDICATE_VOCAB (s, VocabCache_new PREDICATE_VOCAB)"
    using assms empty_repr [where ?'i = 16, of "ge_ns G" PREDICATE_VOCAB]
    by (auto simp: vocab_state_def VocabCache_new_def cache_ok_def intro!: exI [of _ "[]"])
  have e: "edges G (\<alpha> s) = Map.empty" by (rule ext) (simp add: edges_def assms(2))
  then show "graph_inv ok \<alpha> G (Graph_new s)" "facts \<alpha> G (Graph_new s) = Map.empty"
    using st by (simp_all add: graph_inv_def Graph_new_def graph_ok_def faces_of_def facts_def assms(2) fun_eq_iff)
  show "graph_room G \<alpha> (Graph_new s) = 2 ^ 16 - 1" by (simp add: graph_room_def Graph_new_def vocab_room_def assms(2))
qed

context graph_decl
begin

lemma attrs_segment: "attrs G S s i = slot1_map (ge_doc G) S s i"
  unfolding attrs_def slot1_map_def dynamic_fields ns_header ..

text \<open>The attributes of an edge are those of its segment.\<close>

lemma attrs_read:
  "kv_point S ok \<alpha> \<Longrightarrow> ok s \<Longrightarrow> field_vocab (ge_doc G) (\<alpha> s) ls \<Longrightarrow> holds_segment (ge_doc G) (\<alpha> s) ls i x \<Longrightarrow>
    attrs G S s i = Inr (if x = [] then None else Some x)"
  by (simp add: attrs_segment slot1_read)

lemma segment_cong:
  assumes "\<forall>x. prefix (face_key (ge_ns G) DYNAMIC_SLOT) x \<or> vocab_key (ge_ns G) FIELD_VOCAB x \<longrightarrow> m' x = m x"
  shows "field_vocab (ge_doc G) m' ls = field_vocab (ge_doc G) m ls"
    and "holds_segment (ge_doc G) m' ls i x = holds_segment (ge_doc G) m ls i x"
  using assms vocab_repr_cong [of "ge_ns G" FIELD_VOCAB m' m "TYPE(16)"] by (simp_all add: field_vocab_def holds_segment_def dynamic_fields)

end

section \<open>Properties\<close>

text \<open>
  C1: A graph is a map of facts: any history of links and unlinks that the predicate vocabulary has
  room for answers, result by result, what the abstract machine on a finite map answers (a link of
  a live id or of strangers is refused, an unlink of no edge too), leaves exactly its facts, and keeps
  every face current. No step panics.
\<close>

theorem graph_history_refines:
  assumes "kv_point S ok \<alpha>" "graph_decl G" "graph_inv ok \<alpha> G g" "list_all cmd_ok cmds" "length cmds \<le> graph_room G \<alpha> g"
  shows "\<exists>rs g'. graph_history G S cmds g = Some (rs, g') \<and> graph_inv ok \<alpha> G g' \<and>
    fact_history G cmds (facts \<alpha> G g) = (rs, facts \<alpha> G g')"
  by (rule graph_decl.history) (fact assms)+

definition demo_node :: "byte \<Rightarrow> byte \<Rightarrow> node_ref" where
  "demo_node n k = \<lparr> nr_ns = [0, n], nr_pkey = [k] \<rparr>"

definition demo_head :: edge_head where
  "demo_head = \<lparr> eh_src = demo_node 1 7, eh_dst = demo_node 2 8, eh_predicate = [104, 97, 115] \<rparr>"

lemma demo_nodes: "node_ok (demo_node n k)" "cmd_ok (Link demo_head payload i)"
    "check_members demo_graph (demo_node 1 7) (demo_node 2 8) = Inr ()"
  by (simp_all add: node_ok_def demo_node_def demo_head_def check_members_def nodes_contains_def demo_graph_def ns_id_def)

lemma demo_empty_graph:
  "graph_inv mem_inv map_of demo_graph (Graph_new [])" "facts map_of demo_graph (Graph_new []) = Map.empty"
  "graph_room demo_graph map_of (Graph_new []) = 2 ^ 16 - 1"
  using graph_inv_empty [of mem_inv "[]" map_of demo_graph] by (simp_all add: mem_inv_def)

definition demo_cmds :: "bytes graph_cmd list" where
  "demo_cmds = [Link demo_head [1] 5, Link demo_head [2] 5, Unlink 6, Link demo_head [3] 6, Unlink 5]"

definition demo_fact :: "bytes fact" where
  "demo_fact = (demo_node 1 7, demo_node 2 8, [104, 97, 115], [3])"

lemma demo_facts:
  "fact_history demo_graph demo_cmds Map.empty = ([Inr (), Inl (EdgeAlreadyLive 5), Inl (EdgeNotFound 6), Inr (), Inr ()], [6 \<mapsto> demo_fact])"
  by (simp add: demo_cmds_def demo_head_def demo_nodes demo_fact_def fun_eq_iff)

theorem graph_history_refines_witness:
  "\<exists>g'. graph_history demo_graph mem_storage demo_cmds (Graph_new []) =
      Some ([Inr (), Inl (EdgeAlreadyLive 5), Inl (EdgeNotFound 6), Inr (), Inr ()], g') \<and>
    facts map_of demo_graph g' = [6 \<mapsto> demo_fact]"
proof -
  have "list_all cmd_ok demo_cmds" "length demo_cmds \<le> graph_room demo_graph map_of (Graph_new [])"
    using demo_nodes by (simp_all add: demo_cmds_def demo_empty_graph)
  from graph_history_refines [OF mem.kv_point_axioms demo_graph_decl demo_empty_graph(1) this]
  show ?thesis unfolding demo_empty_graph(2) demo_facts by auto
qed

text \<open>
  C2: The traversals answer the facts: the out-edges and in-edges of a node, and the edges of a pair
  in either direction, are exactly the ids of the facts with those endpoints, each once.
\<close>

theorem traversals_exact:
  assumes "kv_scan S ok \<alpha>" "graph_inv ok \<alpha> G (s, c)" "node_ok a" "node_ok b"
    and "\<And>sl q. sl \<in> set graph_slots \<Longrightarrow> q \<in> {NodeRef_encode a, NodeRef_encode a @ NodeRef_encode b} \<Longrightarrow>
      prefix_safe (face_key (ge_ns G) sl @ q) (\<alpha> s)"
  shows "answers_facts (facts \<alpha> G (s, c)) (\<lambda>(src, dst, _, _). src = a) (out_edges G S a s) \<and>
    answers_facts (facts \<alpha> G (s, c)) (\<lambda>(src, dst, _, _). dst = a) (in_edges G S a s) \<and>
    answers_facts (facts \<alpha> G (s, c)) (\<lambda>(src, dst, _, _). src = a \<and> dst = b) (out_edges_to G S a b s) \<and>
    answers_facts (facts \<alpha> G (s, c)) (\<lambda>(src, dst, _, _). dst = a \<and> src = b) (in_edges_from G S a b s)"
proof -
  have s: "ok s" "graph_ok G (\<alpha> s)" using assms(2) by (auto simp: graph_inv_def vocab_state_def)
  note face = face_answers [OF assms(1) s]
  have n: "prefix (NodeRef_encode x) (NodeRef_encode y @ z) \<longleftrightarrow> x = y" if "node_ok x" "node_ok y" for x y z
    using NodeRef_prefix [OF that, of "[]" z] by simp
  have o1: "answers_edges G (\<alpha> s) (\<lambda>p. eb_src p = a) (out_edges G S a s)"
    unfolding out_edges_def traverse_def edge_face_key_def concat.simps append_Nil2
    by (rule face(1) [where r = "\<lambda>p. NodeRef_encode (eb_dst p)"])
      (use assms(3,5) n in \<open>auto simp: segments_simps edge_fine_def\<close>)
  have i1: "answers_edges G (\<alpha> s) (\<lambda>p. eb_dst p = a) (in_edges G S a s)"
    unfolding in_edges_def traverse_def edge_face_key_def concat.simps append_Nil2
    by (rule face(1) [where r = "\<lambda>p. NodeRef_encode (eb_src p)"])
      (use assms(3,5) n in \<open>auto simp: segments_simps edge_fine_def\<close>)
  have o2: "answers_edges G (\<alpha> s) (\<lambda>p. eb_src p = a \<and> eb_dst p = b) (out_edges_to G S a b s)"
    unfolding out_edges_to_def traverse_pair_def edge_face_key_def concat.simps append_Nil2
    by (rule face(2) [where r = "\<lambda>p. []"])
      (use assms(3-5) n NodeRef_prefix in \<open>auto simp: segments_simps edge_fine_def\<close>)
  have i2: "answers_edges G (\<alpha> s) (\<lambda>p. eb_dst p = a \<and> eb_src p = b) (in_edges_from G S a b s)"
    unfolding in_edges_from_def traverse_pair_def edge_face_key_def concat.simps append_Nil2
    by (rule face(2) [where r = "\<lambda>p. []"])
      (use assms(3-5) n NodeRef_prefix in \<open>auto simp: segments_simps edge_fine_def\<close>)
  show ?thesis
    by (intro conjI answers_facts_edges [where \<alpha> = \<alpha> and s = s, OF o1] answers_facts_edges [where \<alpha> = \<alpha> and s = s, OF i1]
        answers_facts_edges [where \<alpha> = \<alpha> and s = s, OF o2] answers_facts_edges [where \<alpha> = \<alpha> and s = s, OF i2]) simp_all
qed

text \<open>The state behind \<open>demo_cmds\<close>.\<close>

lemma demo_state:
  "\<exists>s c. graph_inv mem_inv map_of demo_graph (s, c) \<and> facts map_of demo_graph (s, c) = [6 \<mapsto> demo_fact] \<and>
     graph_room demo_graph map_of (Graph_new []) = 2 ^ 16 - 1"
proof -
  have "list_all cmd_ok demo_cmds" "length demo_cmds \<le> graph_room demo_graph map_of (Graph_new [])"
    using demo_nodes by (simp_all add: demo_cmds_def demo_empty_graph)
  from demo_edges.history [OF mem.kv_point_axioms demo_empty_graph(1) this]
  show ?thesis unfolding demo_empty_graph(2) demo_facts using demo_empty_graph(3) by (metis prod.inject surj_pair)
qed

lemma NodeRef_demo: "NodeRef_encode (demo_node n k) = [0, n, 1, k]"
  by (simp add: NodeRef_encode_def demo_node_def put_len_small [of 1, simplified])

lemma demo_safe: "k < 0xFF \<Longrightarrow> prefix_safe (p @ NodeRef_encode (demo_node n k)) m"
  using prefix_safe_last [of k "p @ [0, n, 1]" m] by (simp add: NodeRef_demo)

lemma one_answer:
  assumes "answers_facts [6 \<mapsto> f] Q r" "Q f"
  shows "r = Inr [6]"
proof -
  have eq: "{i :: u64. \<exists>g. [6 \<mapsto> f] i = Some g \<and> Q g} = {6}"
    using assms(2) by (auto simp del: split_paired_Ex split: if_splits)
  obtain ids where r: "r = Inr ids" and d: "distinct ids" and s: "set ids = {i. \<exists>g. [6 \<mapsto> f] i = Some g \<and> Q g}"
    using assms(1) unfolding answers_facts_def by (elim exE conjE) (rule that)
  then have ids: "set ids = {6}" unfolding eq by simp
  then have "length ids = 1" using distinct_card [OF d] by simp
  then have "ids = [6]" using ids by (cases ids) simp_all
  then show ?thesis using r by simp
qed

theorem traversals_exact_witness:
  "\<exists>s. out_edges demo_graph mem_storage (demo_node 1 7) s = Inr [6] \<and>
     in_edges_from demo_graph mem_storage (demo_node 2 8) (demo_node 1 7) s = Inr [6]"
proof -
  obtain s c where s: "graph_inv mem_inv map_of demo_graph (s, c)" "facts map_of demo_graph (s, c) = [6 \<mapsto> demo_fact]"
    using demo_state by blast
  have safe: "prefix_safe (face_key (ge_ns demo_graph) sl @ q) (map_of s)"
    if "q \<in> {NodeRef_encode (demo_node n k), NodeRef_encode (demo_node n k) @ NodeRef_encode (demo_node n' k')}" "k < 0xFF" "k' < 0xFF" for sl q n k n' k'
    using that demo_safe [of k "face_key (ge_ns demo_graph) sl"] demo_safe [of k' "face_key (ge_ns demo_graph) sl @ NodeRef_encode (demo_node n k)"]
    by auto
  have k: "(7 :: byte) < 0xFF" "(8 :: byte) < 0xFF" by simp_all
  note out = traversals_exact [OF mem.kv_scan_axioms s(1) demo_nodes(1) demo_nodes(1), of 1 7 2 8, OF safe [OF _ k], unfolded s(2)]
  note inn = traversals_exact [OF mem.kv_scan_axioms s(1) demo_nodes(1) demo_nodes(1), of 2 8 1 7, OF safe [OF _ k(2,1)], unfolded s(2)]
  have "out_edges demo_graph mem_storage (demo_node 1 7) s = Inr [6]"
    by (rule one_answer [OF conjunct1 [OF out]]) (simp_all add: demo_fact_def)
  moreover have "in_edges_from demo_graph mem_storage (demo_node 2 8) (demo_node 1 7) s = Inr [6]"
    by (rule one_answer [OF conjunct2 [OF conjunct2 [OF conjunct2 [OF inn]]]]) (simp_all add: demo_fact_def)
  ultimately show ?thesis by blast
qed

end
