(* ===== verification/Okm_Graph_Repair.thy ===== *)
theory Okm_Graph_Repair
  imports Okm_Graph_Spec Okm_Dynamic_Types
begin

text \<open>
  More of a graph: typed traversals, the open attributes, the rebuild of the traversal faces, the
  newest id, and the edge body on the wire.
\<close>

section \<open>Typed traversals\<close>

context graph_decl
begin

lemma predicate_known:
  assumes "graph_inv ok \<alpha> G (s, c)"
  obtains ls where "ok s" "vc_faces c = PREDICATE_VOCAB" "vocab_repr TYPE(16) (ge_ns G) PREDICATE_VOCAB (\<alpha> s) ls" "cache_ok c ls"
    "\<And>pid. graph_names G \<alpha> (s, c) pid = (if unat pid < length ls then Some (ls ! unat pid) else None)"
proof -
  obtain ls where ls: "ok s" "vc_faces c = PREDICATE_VOCAB" "vocab_repr TYPE(16) (ge_ns G) PREDICATE_VOCAB (\<alpha> s) ls" "cache_ok c ls" "list_all utf8_valid ls"
    using assms by (auto simp: graph_inv_def vocab_state_def)
  show thesis
    by (rule that [OF ls(1-4)]) (simp add: graph_names_def vocab_names_repr [where \<alpha> = \<alpha>, OF ls(3,5)])
qed

lemma typed_cases:
  assumes kv: "kv_point S ok \<alpha>" and inv: "graph_inv ok \<alpha> G (s, c)"
  shows "(fst (typed_scan G S sl l segs ids (s, c)) = Inr [] \<and> (\<forall>pid. graph_names G \<alpha> (s, c) pid \<noteq> Some l)) \<or>
    (\<exists>pid. (\<forall>p. graph_names G \<alpha> (s, c) p = Some l \<longleftrightarrow> p = pid) \<and>
       fst (typed_scan G S sl l segs ids (s, c)) =
         rbind (sscan_suffix S s (edge_face_key G sl (to_be_bytes pid # segs))) (\<lambda>sufs. Inr (ids sufs)))"
proof -
  obtain ls where ls: "ok s" "vc_faces c = PREDICATE_VOCAB" "vocab_repr TYPE(16) (ge_ns G) PREDICATE_VOCAB (\<alpha> s) ls" "cache_ok c ls"
    and names: "\<And>pid. graph_names G \<alpha> (s, c) pid = (if unat pid < length ls then Some (ls ! unat pid) else None)"
    using predicate_known [OF inv] by metis
  have get: "fst (id_get S s (ge_ns G) l c) = Inr (if l \<in> set ls then Some (of_nat (index_of ls l)) else None)"
    by (rule kv_point.id_get_ok [OF kv _ ls(1) _ ls(4)]) (simp_all add: ls(2,3) byte_sized_def)
  obtain r c' where run: "id_get S s (ge_ns G) l c = (r, c')" by (cases "id_get S s (ge_ns G) l c")
  show ?thesis
  proof (cases "l \<in> set ls")
    case False
    then have "graph_names G \<alpha> (s, c) pid \<noteq> Some l" for pid by (auto simp: names)
    then show ?thesis using False get run by (simp add: typed_scan_def)
  next
    case True
    note i = index_of_mem [OF True]
    have len: "length ls < 2 ^ 16" "distinct ls" using ls(3) by (simp_all add: vocab_repr_def)
    have u: "unat (of_nat (index_of ls l) :: u16) = index_of ls l"
      using i len(1) by (intro unat_of_nat_small) simp
    have "graph_names G \<alpha> (s, c) p = Some l \<longleftrightarrow> p = of_nat (index_of ls l)" for p
    proof
      assume "graph_names G \<alpha> (s, c) p = Some l"
      then have "unat p < length ls" "ls ! unat p = l" by (auto simp: names split: if_splits)
      then have "index_of ls l = unat p" using index_of_nth [OF len(2)] by blast
      then show "p = of_nat (index_of ls l)" by simp
    qed (simp add: names u i)
    then show ?thesis using True get run
      by (intro disjI2 exI [of _ "of_nat (index_of ls l)"]) (simp add: typed_scan_def)
  qed
qed

lemma typed_answers:
  assumes kv: "kv_scan S ok \<alpha>" and inv: "graph_inv ok \<alpha> G (s, c)" and sl: "sl \<in> set graph_slots"
    and ids: "ids = (if tail then ids_after_endpoint else ids_after_pair)"
    and safe: "\<And>pid. graph_names G \<alpha> (s, c) pid = Some l \<Longrightarrow> prefix_safe (face_key (ge_ns G) sl @ to_be_bytes pid @ concat segs) (\<alpha> s)"
    and segments: "\<And>p. segments sl p = to_be_bytes (eb_predicate p) @ rest p"
    and hit: "\<And>p y. edge_fine G p \<Longrightarrow> prefix (concat segs) (rest p @ y) \<longleftrightarrow> Q p"
    and split: "\<And>p. edge_fine G p \<Longrightarrow> Q p \<Longrightarrow> rest p = concat segs @ r p" "\<And>p. r p \<noteq> [] \<longleftrightarrow> tail"
    and meets: "\<And>p e n. Q' (eb_src p, eb_dst p, n, e) \<longleftrightarrow> n = l \<and> Q p"
  shows "answers_facts (facts \<alpha> G (s, c)) Q' (fst (typed_scan G S sl l segs ids (s, c)))"
proof -
  have s: "ok s" "graph_ok G (\<alpha> s)"
    and known: "\<And>i p. edges G (\<alpha> s) i = Some p \<Longrightarrow> graph_names G \<alpha> (s, c) (eb_predicate p) \<noteq> None"
    using inv by (auto simp: graph_inv_def vocab_state_def)
  have name: "the (graph_names G \<alpha> (s, c) (eb_predicate p)) = l \<longleftrightarrow> graph_names G \<alpha> (s, c) (eb_predicate p) = Some l"
    if "edges G (\<alpha> s) i = Some p" for i p using known [OF that] by auto
  let ?r = "fst (typed_scan G S sl l segs ids (s, c))"
  consider (unknown) "?r = Inr []" "\<forall>pid. graph_names G \<alpha> (s, c) pid \<noteq> Some l"
    | (known) pid where "\<And>p. graph_names G \<alpha> (s, c) p = Some l \<longleftrightarrow> p = pid"
      "?r = rbind (sscan_suffix S s (face_key (ge_ns G) sl @ (to_be_bytes pid @ concat segs))) (\<lambda>sufs. Inr (ids sufs))"
    using typed_cases [OF kv_scan.axioms(1) [OF kv] inv, of sl l segs ids] by (auto simp: edge_face_key_def)
  then show ?thesis
  proof cases
    case unknown
    then have "{i. \<exists>f. facts \<alpha> G (s, c) i = Some f \<and> Q' f} = {}"
      using meets name by (auto simp: facts_def)
    then show ?thesis using unknown by (simp add: answers_facts_def)
  next
    case (known pid)
    have hit': "prefix (to_be_bytes pid @ concat segs) (segments sl p @ y) \<longleftrightarrow> eb_predicate p = pid \<and> Q p" if "edge_fine G p" for p y
      using pid_prefix [of pid "concat segs" "eb_predicate p" "rest p @ y"] hit [OF that] by (auto simp: segments)
    have split': "segments sl p = (to_be_bytes pid @ concat segs) @ r p" if "edge_fine G p" "eb_predicate p = pid \<and> Q p" for p
      using split(1) [OF that(1)] that(2) by (simp add: segments)
    have safe': "prefix_safe (face_key (ge_ns G) sl @ to_be_bytes pid @ concat segs) (\<alpha> s)" by (rule safe) (simp add: known)
    have "answers_edges G (\<alpha> s) (\<lambda>p. eb_predicate p = pid \<and> Q p) ?r"
    proof (cases tail)
      case True
      then have "\<forall>p. r p \<noteq> []" using split(2) by simp
      from face_answers(1) [where Q = "\<lambda>p. eb_predicate p = pid \<and> Q p" and r = r, OF kv s sl safe' hit' split' this] True show ?thesis unfolding known(2) unfolding ids by (simp only: if_True)
    next
      case False
      then have "\<forall>p. r p = []" using split(2) by blast
      from face_answers(2) [where Q = "\<lambda>p. eb_predicate p = pid \<and> Q p" and r = r, OF kv s sl safe' hit' split' this] False show ?thesis unfolding known(2) unfolding ids by (simp only: if_False)
    qed
    then show ?thesis
    proof (rule answers_facts_edges [where \<alpha> = \<alpha> and s = s])
      show "Q' (eb_src p, eb_dst p, the (graph_names G \<alpha> (s, c) (eb_predicate p)), d_decode (ge_doc G) (eb_payload p)) \<longleftrightarrow> eb_predicate p = pid \<and> Q p"
        if "edges G (\<alpha> s) i = Some p" for i p
        by (simp only: meets name [OF that] known(1))
    qed
  qed
qed

end

text \<open>
  C3: The typed traversals answer the facts: by predicate and source, by predicate and target, by
  predicate and pair in either direction, and by predicate alone; a predicate the graph has never
  seen answers nothing.
\<close>

theorem typed_traversals_exact:
  assumes "kv_scan S ok \<alpha>" "graph_decl G" "graph_inv ok \<alpha> G (s, c)" "node_ok a" "node_ok b"
    and "\<And>sl pid q. sl \<in> {EDGE_PREDICATE_OUT_SLOT, EDGE_PREDICATE_IN_SLOT} \<Longrightarrow> graph_names G \<alpha> (s, c) pid = Some l \<Longrightarrow>
      q \<in> {[], NodeRef_encode a, NodeRef_encode a @ NodeRef_encode b} \<Longrightarrow>
      prefix_safe (face_key (ge_ns G) sl @ to_be_bytes pid @ q) (\<alpha> s)"
  shows "answers_facts (facts \<alpha> G (s, c)) (\<lambda>(src, dst, n, _). n = l \<and> src = a) (fst (typed_out G S l a (s, c))) \<and>
    answers_facts (facts \<alpha> G (s, c)) (\<lambda>(src, dst, n, _). n = l \<and> dst = a) (fst (typed_in G S l a (s, c))) \<and>
    answers_facts (facts \<alpha> G (s, c)) (\<lambda>(src, dst, n, _). n = l \<and> src = a \<and> dst = b) (fst (typed_out_to G S l a b (s, c))) \<and>
    answers_facts (facts \<alpha> G (s, c)) (\<lambda>(src, dst, n, _). n = l \<and> dst = a \<and> src = b) (fst (typed_in_from G S l a b (s, c))) \<and>
    answers_facts (facts \<alpha> G (s, c)) (\<lambda>(src, dst, n, _). n = l) (fst (edges_of_predicate G S l (s, c)))"
proof (intro conjI)
  note typed = graph_decl.typed_answers [OF assms(2,1,3)]
  have n: "prefix (NodeRef_encode x) (NodeRef_encode y @ z) \<longleftrightarrow> x = y" if "node_ok x" "node_ok y" for x y z
    using NodeRef_prefix [OF that, of "[]" z] by simp
  show "answers_facts (facts \<alpha> G (s, c)) (\<lambda>(src, dst, n, _). n = l \<and> src = a) (fst (typed_out G S l a (s, c)))"
    unfolding typed_out_def typed_edges_def
    by (rule typed [where tail = True and r = "\<lambda>p. NodeRef_encode (eb_dst p)" and rest = "\<lambda>p. NodeRef_encode (eb_src p) @ NodeRef_encode (eb_dst p)"
          and Q = "\<lambda>p. eb_src p = a"])
      (use assms(4-6) n in \<open>auto simp: segments_simps edge_fine_def\<close>)
  show "answers_facts (facts \<alpha> G (s, c)) (\<lambda>(src, dst, n, _). n = l \<and> dst = a) (fst (typed_in G S l a (s, c)))"
    unfolding typed_in_def typed_edges_def
    by (rule typed [where tail = True and r = "\<lambda>p. NodeRef_encode (eb_src p)" and rest = "\<lambda>p. NodeRef_encode (eb_dst p) @ NodeRef_encode (eb_src p)"
          and Q = "\<lambda>p. eb_dst p = a"])
      (use assms(4-6) n in \<open>auto simp: segments_simps edge_fine_def\<close>)
  show "answers_facts (facts \<alpha> G (s, c)) (\<lambda>(src, dst, n, _). n = l \<and> src = a \<and> dst = b) (fst (typed_out_to G S l a b (s, c)))"
    unfolding typed_out_to_def
    by (rule typed [where tail = False and r = "\<lambda>p. []" and rest = "\<lambda>p. NodeRef_encode (eb_src p) @ NodeRef_encode (eb_dst p)"
          and Q = "\<lambda>p. eb_src p = a \<and> eb_dst p = b"])
      (use assms(4-6) n NodeRef_prefix in \<open>auto simp: segments_simps edge_fine_def\<close>)
  show "answers_facts (facts \<alpha> G (s, c)) (\<lambda>(src, dst, n, _). n = l \<and> dst = a \<and> src = b) (fst (typed_in_from G S l a b (s, c)))"
    unfolding typed_in_from_def
    by (rule typed [where tail = False and r = "\<lambda>p. []" and rest = "\<lambda>p. NodeRef_encode (eb_dst p) @ NodeRef_encode (eb_src p)"
          and Q = "\<lambda>p. eb_dst p = a \<and> eb_src p = b"])
      (use assms(4-6) n NodeRef_prefix in \<open>auto simp: segments_simps edge_fine_def\<close>)
  show "answers_facts (facts \<alpha> G (s, c)) (\<lambda>(src, dst, n, _). n = l) (fst (edges_of_predicate G S l (s, c)))"
    unfolding edges_of_predicate_def
    by (rule typed [where tail = True and r = "\<lambda>p. NodeRef_encode (eb_src p) @ NodeRef_encode (eb_dst p)"
          and rest = "\<lambda>p. NodeRef_encode (eb_src p) @ NodeRef_encode (eb_dst p)" and Q = "\<lambda>p. True"])
      (use assms(4,5) assms(6) [of _ _ "[]"] in \<open>auto simp: segments_simps\<close>)
qed

text \<open>The state behind one link.\<close>

lemma linked_state:
  "\<exists>s c. graph_inv mem_inv map_of demo_graph (s, c) \<and> facts map_of demo_graph (s, c) = [6 \<mapsto> demo_fact] \<and>
     (\<forall>pid. graph_names demo_graph map_of (s, c) pid \<noteq> None \<longrightarrow> pid = 0)"
proof -
  let ?g = "Graph_new [] :: mem graph"
  obtain s c where 1: "graph_inv mem_inv map_of demo_graph (s, c)"
      "facts map_of demo_graph (s, c) = (facts map_of demo_graph ?g)(6 \<mapsto> (eh_src demo_head, eh_dst demo_head, eh_predicate demo_head, [3]))"
      "graph_room demo_graph map_of ?g \<le> Suc (graph_room demo_graph map_of (s, c))"
    using demo_edges.link_step [OF mem.kv_point_axioms, of "[]" "VocabCache_new PREDICATE_VOCAB" demo_head 6 "[3]"]
      demo_empty_graph demo_nodes by (auto simp: Graph_new_def edges_def demo_head_def)
  obtain ls where ls: "vocab_repr TYPE(16) (ge_ns demo_graph) PREDICATE_VOCAB (map_of s) ls"
      "\<And>pid. graph_names demo_graph map_of (s, c) pid = (if unat pid < length ls then Some (ls ! unat pid) else None)"
    using demo_edges.predicate_known [OF 1(1)] by blast
  have "length ls \<le> 1"
    using 1(3) vocab_room_repr [where \<alpha> = map_of and s = s and c = c, OF ls(1)] unfolding demo_empty_graph(3) by (simp add: graph_room_def)
  then have "unat pid = 0" if "graph_names demo_graph map_of (s, c) pid \<noteq> None" for pid
    using that ls(2) [of pid] by (auto split: if_splits)
  then have "pid = 0" if "graph_names demo_graph map_of (s, c) pid \<noteq> None" for pid
    using that by (simp only: unat_eq_zero [symmetric])
  then show ?thesis using 1(1,2) by (auto simp: demo_empty_graph(2) demo_fact_def demo_head_def)
qed

theorem typed_traversals_exact_witness:
  "\<exists>g. fst (typed_out demo_graph mem_storage [104, 97, 115] (demo_node 1 7) g) = Inr [6] \<and>
     fst (edges_of_predicate demo_graph mem_storage [104, 97, 115] g) = Inr [6]"
proof -
  obtain s c where s: "graph_inv mem_inv map_of demo_graph (s, c)" "facts map_of demo_graph (s, c) = [6 \<mapsto> demo_fact]"
      "\<And>pid. graph_names demo_graph map_of (s, c) pid \<noteq> None \<Longrightarrow> pid = 0"
    using linked_state by blast
  have safe: "prefix_safe (face_key (ge_ns demo_graph) sl @ to_be_bytes pid @ q) (map_of s)"
    if "sl \<in> {EDGE_PREDICATE_OUT_SLOT, EDGE_PREDICATE_IN_SLOT}" "graph_names demo_graph map_of (s, c) pid = Some [104, 97, 115]"
      "q \<in> {[], NodeRef_encode (demo_node 1 7), NodeRef_encode (demo_node 1 7) @ NodeRef_encode (demo_node 2 8)}" for sl pid q
  proof -
    have "pid = 0" using s(3) [of pid] that(2) by simp
    then have "to_be_bytes pid = [0, 0]" by (simp add: to_be_bytes_def numeral_2_eq_2)
    then show ?thesis
      using that(3) demo_safe [of 7 "face_key (ge_ns demo_graph) sl @ [0, 0]" 1]
        demo_safe [of 8 "face_key (ge_ns demo_graph) sl @ [0, 0] @ NodeRef_encode (demo_node 1 7)" 2]
        prefix_safe_last [of 0 "face_key (ge_ns demo_graph) sl @ [0]"] by auto
  qed
  note typed = typed_traversals_exact [OF mem.kv_scan_axioms demo_graph_decl s(1) demo_nodes(1) demo_nodes(1) safe, unfolded s(2)]
  have "fst (typed_out demo_graph mem_storage [104, 97, 115] (demo_node 1 7) (s, c)) = Inr [6]"
    by (rule one_answer [OF conjunct1 [OF typed]]) (simp_all add: demo_fact_def)
  moreover have "fst (edges_of_predicate demo_graph mem_storage [104, 97, 115] (s, c)) = Inr [6]"
    by (rule one_answer [OF conjunct2 [OF conjunct2 [OF conjunct2 [OF conjunct2 [OF typed]]]]]) (simp_all add: demo_fact_def)
  ultimately show ?thesis by blast
qed

section \<open>Attributes\<close>

context graph_decl
begin

text \<open>A change to attributes and their names is no change to the edges.\<close>

lemma attrs_frame:
  assumes inv: "graph_inv ok \<alpha> G (s, c)" and "ok s'"
    and same: "\<And>y. y \<noteq> edge_dynamic_key G i \<Longrightarrow> \<not> vocab_key (ge_ns G) FIELD_VOCAB y \<Longrightarrow> \<alpha> s' y = \<alpha> s y"
  shows "graph_inv ok \<alpha> G (s', c)" "facts \<alpha> G (s', c) = facts \<alpha> G (s, c)"
proof -
  let ?h = "ge_ns G"
  have st: "vocab_state ok \<alpha> ?h PREDICATE_VOCAB (s, c)" "graph_ok G (\<alpha> s)" using inv by (auto simp: graph_inv_def)
  have key: "\<alpha> s' (face_key ?h sl @ x) = \<alpha> s (face_key ?h sl @ x)"
    if "slot_valid sl" "sl \<notin> {DYNAMIC_SLOT, FIELD_VOCAB_ID_SLOT, FIELD_VOCAB_NAME_SLOT}" for sl x
  proof (rule same)
    show "face_key ?h sl @ x \<noteq> edge_dynamic_key G i"
      using face_key_disjoint [OF that(1), of DYNAMIC_SLOT ?h x "to_be_bytes i"] that(2)
      by (auto simp: edge_dynamic_key_def slot_consts slot_valid_def)
    show "\<not> vocab_key ?h FIELD_VOCAB (face_key ?h sl @ x)"
      by (rule face_not_vocab [OF faces_ok_fixed(1) that(1)]) (use that(2) in \<open>simp_all add: FIELD_VOCAB_def\<close>)
  qed
  have g: "graph_ok G (\<alpha> s')" "edges G (\<alpha> s') = edges G (\<alpha> s)" by (rule graph_ok_cong [OF st(2)], rule key; simp)+
  have pv: "\<alpha> s' y = \<alpha> s y" if mem: "vocab_key ?h PREDICATE_VOCAB y" for y
  proof -
    obtain sl x where "sl \<in> {PREDICATE_VOCAB_ID_SLOT, PREDICATE_VOCAB_NAME_SLOT}" "y = face_key ?h sl @ x"
      using mem by (auto simp: vocab_key_def prefix_def)
    then show ?thesis using key [of sl x] by (auto simp: slot_consts slot_valid_def)
  qed
  note v = vocab_state_cong [OF st(1) assms(2) pv]
  show "graph_inv ok \<alpha> G (s', c)" using inv v(1,2) g by (simp add: graph_inv_def graph_names_def)
  show "facts \<alpha> G (s', c) = facts \<alpha> G (s, c)" using v(2) g by (auto simp: facts_def graph_names_def)
qed

lemma replace_run:
  assumes "kv_point S ok \<alpha>" "ok s" "field_vocab (ge_doc G) (\<alpha> s) ls"
    and "dyn_ok (DObj x)" "name_count (DObj x) + length ls < 2 ^ 16" "size_bound (DObj x) < 2 ^ 49"
  shows "\<exists>s' ls'. iobind (replace_into G S [] i x) (scommit_batch S) s = (Inr (), s') \<and> ok s' \<and>
    field_vocab (ge_doc G) (\<alpha> s') ls' \<and>
    (\<forall>y. y \<noteq> edge_dynamic_key G i \<and> \<not> vocab_key (ge_ns G) FIELD_VOCAB y \<longrightarrow> \<alpha> s' y = \<alpha> s y) \<and>
    holds_segment (ge_doc G) (\<alpha> s') ls' i x"
proof -
  let ?h = "ge_ns G" and ?c = "VocabCache_new FIELD_VOCAB :: u16 vocab_cache" and ?k = "edge_dynamic_key G i"
  let ?okv = "\<lambda>sc. vocab_state ok \<alpha> ?h FIELD_VOCAB sc \<and> (\<forall>y. \<not> vocab_key ?h FIELD_VOCAB y \<longrightarrow> \<alpha> (fst sc) y = \<alpha> s y)"
  note room = vocab_room_frame [OF assms(1) faces_ok_fixed(1), of ?h "\<alpha> s"]
  note voc = name_room.axioms(1) [OF room]
  have repr: "vocab_repr TYPE(16) ?h FIELD_VOCAB (\<alpha> s) ls" "list_all utf8_valid ls"
    using assms(3) by (simp_all add: field_vocab_def)
  have st: "?okv (s, ?c)" using field_state [where ok = ok and \<alpha> = \<alpha>, OF assms(3,2)] by simp
  have fk: "?k = fields_key (ge_doc G) i" "\<not> vocab_key ?h FIELD_VOCAB ?k"
    using dynamic_fields face_not_vocab [OF faces_ok_fixed(1), of DYNAMIC_SLOT ?h "to_be_bytes i"]
    by (simp_all add: edge_dynamic_key_def FIELD_VOCAB_def slot_consts slot_valid_def)
  have "vocab_room \<alpha> ?h FIELD_VOCAB (s, ?c) = 2 ^ 16 - 1 - length ls"
    by (rule vocab_room_repr [where \<alpha> = \<alpha>, OF repr(1)])
  then have "name_count (DObj x) \<le> vocab_room \<alpha> ?h FIELD_VOCAB (s, ?c)" using assms(5) by simp
  moreover have "\<forall>p \<in> set x. utf8_valid (fst p) \<and> dyn_ok (snd p)" using assms(4) by simp
  ultimately obtain b sc' where enc: "encode_fields (id_for S ?h) x (s, ?c) = (Inr b, sc')" and st': "?okv sc'"
    using name_room.encode_total(3) [OF room, THEN mp, OF refl, rule_format, OF st] by blast
  obtain s1 c1 where sc': "sc' = (s1, c1)" by (cases sc') auto
  obtain ls' where ls': "ok s1" "vocab_repr TYPE(16) ?h FIELD_VOCAB (\<alpha> s1) ls'" "list_all utf8_valid ls'"
    using st' by (auto simp: vocab_state_def sc')
  have names: "vocab_names \<alpha> ?h FIELD_VOCAB sc' = label_at ls'"
    unfolding sc' by (rule label_at_names [where \<alpha> = \<alpha>, OF ls'(2,3)])
  have nil: "x = [] \<Longrightarrow> s1 = s" using enc by (simp add: ioret_def sc')
  define ops where "ops = (if x = [] then [(?k, None)] else [(?k, None), (?k, Some b)])"
  have run: "replace_into G S [] i x s = (Inr ops, s1)"
    using enc nil by (simp add: replace_into_def put_frames_encode sc' ops_def batch_del_def batch_put_def)
  obtain s2 where s2: "scommit_batch S ops s1 = (Inr (), s2)" "ok s2" "\<alpha> s2 = apply_ops ops (\<alpha> s1)"
    using kv_point.commit_ok [OF assms(1) ls'(1)] by blast
  have m2: "\<alpha> s2 = (\<alpha> s1)(?k := if x = [] then None else Some b)" by (simp add: s2(3) ops_def)
  have vocab2: "field_vocab (ge_doc G) (\<alpha> s2) ls'"
  proof -
    have "vocab_repr TYPE(16) ?h FIELD_VOCAB (\<alpha> s2) ls'"
      by (subst vocab_repr_cong [where m = "\<alpha> s1"]) (use fk(2) ls'(2) in \<open>auto simp: m2\<close>)
    then show ?thesis using ls'(3) by (simp add: field_vocab_def)
  qed
  have short: "length b < 2 ^ 49" using encode_bound(3) [OF enc] assms(6) by simp
  have "holds_segment (ge_doc G) (\<alpha> s2) ls' i x"
  proof -
    have "\<exists>ids. decode_named (label_at ls') b = zip ids (map snd x) \<and> list_all2 (\<lambda>i p. label_at ls' i = Some (fst p)) ids x"
      using name_vocab.fields_frames [OF voc st assms(4) enc short] names map_le_refl by metis
    then show ?thesis using assms(4) by (auto simp: holds_segment_def m2 fk(1) [symmetric])
  qed
  moreover have "\<alpha> s2 y = \<alpha> s y" if "y \<noteq> ?k" "\<not> vocab_key ?h FIELD_VOCAB y" for y
    using st' that by (simp add: sc' m2)
  ultimately show ?thesis using run s2(1,2) vocab2
    by (intro exI [of _ s2] exI [of _ ls']) (simp add: iobind_def)
qed

end

text \<open>
  C5: The open attributes of an edge: a committed \<open>replace_into\<close> of a well-formed object succeeds,
  \<open>attrs\<close> then answers that object (nothing for the empty one), and no fact of the graph changes.
\<close>

theorem attributes_roundtrip:
  assumes "kv_point S ok \<alpha>" "graph_decl G" "graph_inv ok \<alpha> G (s, c)" "field_vocab (ge_doc G) (\<alpha> s) ls"
    and "dyn_ok (DObj x)" "name_count (DObj x) + length ls < 2 ^ 16" "size_bound (DObj x) < 2 ^ 49"
  shows "\<exists>s'. iobind (replace_into G S [] i x) (scommit_batch S) s = (Inr (), s') \<and>
    graph_inv ok \<alpha> G (s', c) \<and> facts \<alpha> G (s', c) = facts \<alpha> G (s, c) \<and>
    attrs G S s' i = Inr (if x = [] then None else Some x)"
proof -
  have s: "ok s" using assms(3) by (simp add: graph_inv_def vocab_state_def)
  obtain s' ls' where 1: "iobind (replace_into G S [] i x) (scommit_batch S) s = (Inr (), s')" "ok s'"
      "field_vocab (ge_doc G) (\<alpha> s') ls'" "\<And>y. y \<noteq> edge_dynamic_key G i \<Longrightarrow> \<not> vocab_key (ge_ns G) FIELD_VOCAB y \<Longrightarrow> \<alpha> s' y = \<alpha> s y"
      "holds_segment (ge_doc G) (\<alpha> s') ls' i x"
    using graph_decl.replace_run [OF assms(2,1) s assms(4-7), of i] by blast
  then show ?thesis
    using graph_decl.attrs_frame [OF assms(2,3) 1(2,4)] graph_decl.attrs_read [OF assms(2,1) 1(2,3,5)] by blast
qed

lemma linked_fields:
  "\<exists>s c. graph_inv mem_inv map_of demo_graph (s, c) \<and> edges demo_graph (map_of s) 6 \<noteq> None \<and>
     field_vocab (ge_doc demo_graph) (map_of s) []"
proof -
  obtain s c where 1: "graph_inv mem_inv map_of demo_graph (s, c)"
      "facts map_of demo_graph (s, c) = (facts map_of demo_graph (Graph_new []))(6 \<mapsto> (eh_src demo_head, eh_dst demo_head, eh_predicate demo_head, [3]))"
      "\<And>x. vocab_key (ge_ns demo_graph) FIELD_VOCAB x \<Longrightarrow> map_of s x = None"
    using demo_edges.link_step [OF mem.kv_point_axioms, of "[]" "VocabCache_new PREDICATE_VOCAB" demo_head 6 "[3]"]
      demo_empty_graph demo_nodes by (auto simp: Graph_new_def edges_def demo_head_def)
  have "vocab_repr TYPE(16) (ge_ns demo_graph) FIELD_VOCAB (map_of s) []"
    by (subst vocab_repr_cong [where m = Map.empty]) (simp_all add: 1(3) empty_repr)
  moreover have "edges demo_graph (map_of s) 6 \<noteq> None"
    using facts_none [of map_of demo_graph "(s, c)" 6] 1(2) by simp
  ultimately show ?thesis using 1(1) by (auto simp: field_vocab_def)
qed

definition demo_attrs :: object where
  "demo_attrs = [([97], DStr [66]), ([98], DBool True)]"

lemma demo_attrs_fit: "dyn_ok (DObj demo_attrs)" "name_count (DObj demo_attrs) + 0 < 2 ^ 16" "size_bound (DObj demo_attrs) < 2 ^ 49"
  by (simp_all add: demo_attrs_def)

theorem attributes_roundtrip_witness:
  "\<exists>s s'. iobind (replace_into demo_graph mem_storage [] 6 demo_attrs) (scommit_batch mem_storage) s = (Inr (), s') \<and>
     attrs demo_graph mem_storage s' 6 = Inr (Some demo_attrs)"
proof -
  obtain s c where s: "graph_inv mem_inv map_of demo_graph (s, c)" "field_vocab (ge_doc demo_graph) (map_of s) []"
    using linked_fields by blast
  have "name_count (DObj demo_attrs) + length ([] :: bytes list) < 2 ^ 16" "demo_attrs \<noteq> []"
    using demo_attrs_fit(2) by (simp_all add: demo_attrs_def)
  with attributes_roundtrip [OF mem.kv_point_axioms demo_graph_decl s demo_attrs_fit(1) _ demo_attrs_fit(3), of 6]
  show ?thesis by auto
qed

section \<open>Attributes that outlive their edge\<close>

text \<open>
  Unlinking an edge removes its row and its faces and leaves its dynamic segment: afterwards the
  id has no edge, and \<open>attrs\<close> still answers the attributes it had.
\<close>

theorem unlink_keeps_attributes:
  assumes "kv_point S ok \<alpha>" "graph_decl G" "graph_inv ok \<alpha> G (s, c)" "edges G (\<alpha> s) i \<noteq> None"
    and "field_vocab (ge_doc G) (\<alpha> s) ls" "holds_segment (ge_doc G) (\<alpha> s) ls i x" "x \<noteq> []"
  shows "\<exists>s'. unlink G S i s = Some (Inr (), s') \<and> get_edge G S s' i = Some (Inr None) \<and> attrs G S s' i = Inr (Some x)"
proof -
  obtain p where "edges G (\<alpha> s) i = Some p" using assms(4) by auto
  from graph_decl.unlink_step [OF assms(2,1,3) this] obtain s' where s': "unlink G S i s = Some (Inr (), s')"
    "graph_inv ok \<alpha> G (s', c)" "facts \<alpha> G (s', c) = (facts \<alpha> G (s, c))(i := None)"
    and same: "\<forall>x. prefix (face_key (ge_ns G) DYNAMIC_SLOT) x \<or> vocab_key (ge_ns G) FIELD_VOCAB x \<longrightarrow> \<alpha> s' x = \<alpha> s x"
    by blast
  have ok: "ok s'" "graph_ok G (\<alpha> s')" using s'(2) by (auto simp: graph_inv_def vocab_state_def)
  have "facts \<alpha> G (s', c) i = None" by (simp add: s'(3))
  then have "\<alpha> s' (edge_row_key G i) = None" using edges_none [OF ok(2)] by (simp add: facts_none)
  then have "get_edge G S s' i = Some (Inr None)" by (simp add: get_edge_def kv_point.get_ok [OF assms(1) ok(1)])
  moreover have "attrs G S s' i = Inr (Some x)"
    using graph_decl.attrs_read [OF assms(2,1) ok(1), of ls i x] assms(5-7)
      graph_decl.segment_cong [OF assms(2) same] by simp
  ultimately show ?thesis using s'(1) by blast
qed

theorem unlink_keeps_attributes_witness:
  "\<exists>s s'. unlink demo_graph mem_storage 6 s = Some (Inr (), s') \<and> get_edge demo_graph mem_storage s' 6 = Some (Inr None) \<and>
     attrs demo_graph mem_storage s' 6 = Inr (Some demo_attrs)"
proof -
  obtain s c where s: "graph_inv mem_inv map_of demo_graph (s, c)" "edges demo_graph (map_of s) 6 \<noteq> None"
      "field_vocab (ge_doc demo_graph) (map_of s) []"
    using linked_fields by blast
  have st: "mem_inv s" using s(1) by (simp add: graph_inv_def vocab_state_def)
  obtain t ls where t: "mem_inv t" "field_vocab (ge_doc demo_graph) (map_of t) ls"
      "\<And>y. y \<noteq> edge_dynamic_key demo_graph 6 \<Longrightarrow> \<not> vocab_key (ge_ns demo_graph) FIELD_VOCAB y \<Longrightarrow> map_of t y = map_of s y"
      "holds_segment (ge_doc demo_graph) (map_of t) ls 6 demo_attrs"
    using demo_edges.replace_run [OF mem.kv_point_axioms st s(3) demo_attrs_fit(1) _ demo_attrs_fit(3), of 6] demo_attrs_fit(2) by auto
  note g = demo_edges.attrs_frame [where i = 6, OF s(1) t(1,3)]
  have "edges demo_graph (map_of t) 6 \<noteq> None"
    using facts_none [of map_of demo_graph "(s, c)" 6] facts_none [of map_of demo_graph "(t, c)" 6] s(2) by (simp del: not_None_eq add: g(2))
  from unlink_keeps_attributes [OF mem.kv_point_axioms demo_graph_decl g(1) this t(2,4)]
  show ?thesis by (auto simp: demo_attrs_def)
qed

section \<open>Rebuilding\<close>

lemma prefix_safe_slot:
  assumes "sl \<in> insert PRIMARY_SLOT (set graph_slots)"
  shows "prefix_safe (face_key h sl) m"
proof -
  have "slot_image sl = [ucast sl] \<and> (ucast sl :: byte) < 0xFF"
    using assms by (auto simp: edge_slots slot_consts slot_image_def)
  then show ?thesis using prefix_safe_last [of "ucast sl" h m] by (simp add: face_key_def)
qed

text \<open>
  C4: \<open>reindex\<close> repairs a graph: run on a store that differs from a consistent one in traversal
  entries only (missing, stale or foreign ones, in any number), in chunks of any size, it returns
  with exactly the consistent store.
\<close>

theorem reindex_repairs:
  assumes "kv_scan S ok \<alpha>" "ok s" "graph_ok G m" "\<And>x. \<not> in_traversal G x \<Longrightarrow> \<alpha> s x = m x"
  shows "\<exists>n s'. reindex G S chunk s = Some (Inr n, s') \<and> ok s' \<and> \<alpha> s' = m"
proof -
  have row: "\<alpha> s (edge_row_key G i) = m (edge_row_key G i)" for i
    by (rule assms(4)) (use not_traversal [OF _ fixed_not_edge(1) prefix_row(1)] in simp)
  have same: "member_edges G (\<alpha> s) = edges G m"
    using member_edges_ok [OF assms(3)] by (simp add: member_edges_def edges_def row fun_eq_iff)
  have rows: "decode_body b \<noteq> None" if "\<alpha> s (edge_row_key G i) = Some b" for i b
    using that graph_okD(1) [OF assms(3), of i b] by (auto simp: row)
  have "\<exists>n s'. reindex G S chunk s = Some (Inr n, s') \<and> ok s' \<and> (\<forall>x. \<not> in_traversal G x \<longrightarrow> \<alpha> s' x = \<alpha> s x) \<and>
      faces_of (in_traversal G) (traversal G) (member_edges G (\<alpha> s)) (\<alpha> s')"
    by (rule reindex_run [OF assms(1,2)]) (use rows prefix_safe_slot in blast)+
  then obtain n s' where s': "reindex G S chunk s = Some (Inr n, s')" "ok s'"
      "\<And>x. \<not> in_traversal G x \<Longrightarrow> \<alpha> s' x = \<alpha> s x" "faces_of (in_traversal G) (traversal G) (edges G m) (\<alpha> s')"
    unfolding same by blast
  have "\<alpha> s' x = m x" for x
  proof (cases "in_traversal G x")
    case True
    then have "\<alpha> s' x = Some v \<longleftrightarrow> m x = Some v" for v
      using s'(4) graph_okD(2) [OF assms(3)] unfolding faces_of_def by simp
    then show ?thesis by (cases "m x"; cases "\<alpha> s' x") auto
  qed (simp add: s'(3) assms(4))
  then show ?thesis using s'(1,2) by blast
qed

text \<open>A store that lost every traversal entry.\<close>

lemma lost_faces:
  "\<exists>m s. graph_ok demo_graph m \<and> edges demo_graph m 6 \<noteq> None \<and> mem_inv s \<and>
     (\<forall>x. map_of s x = (if in_traversal demo_graph x then None else m x))"
proof -
  obtain s c where s: "graph_inv mem_inv map_of demo_graph (s, c)" "edges demo_graph (map_of s) 6 \<noteq> None"
    using linked_fields by blast
  have st: "mem_inv s" "graph_ok demo_graph (map_of s)" using s(1) by (auto simp: graph_inv_def vocab_state_def)
  define ks where "ks = filter (in_traversal demo_graph) (map fst s)"
  obtain s2 where s2: "scommit_batch mem_storage (dels ks) s = (Inr (), s2)" "mem_inv s2" "map_of s2 = apply_ops (dels ks) (map_of s)"
    using kv_point.commit_ok [OF mem.kv_point_axioms st(1)] by blast
  have "map_of s2 x = (if in_traversal demo_graph x then None else map_of s x)" for x
  proof -
    have "map_of s x = None" if "in_traversal demo_graph x" "x \<notin> set ks"
      using that by (auto simp: ks_def map_of_eq_None_iff)
    then show ?thesis by (auto simp: s2(3) apply_dels ks_def)
  qed
  then show ?thesis using st s(2) s2(2) by blast
qed

theorem reindex_repairs_witness:
  "\<exists>s m n s'. edges demo_graph m 6 \<noteq> None \<and> (\<forall>x. in_traversal demo_graph x \<longrightarrow> map_of s x = None) \<and>
     reindex demo_graph mem_storage 1 s = Some (Inr n, s') \<and> map_of s' = m"
proof -
  obtain m s where s: "graph_ok demo_graph m" "edges demo_graph m 6 \<noteq> None" "mem_inv s"
      "\<And>x. map_of s x = (if in_traversal demo_graph x then None else m x)"
    using lost_faces by blast
  have "\<not> in_traversal demo_graph x \<Longrightarrow> map_of s x = m x" for x by (simp add: s(4))
  from reindex_repairs [OF mem.kv_scan_axioms s(3,1) this, where chunk = 1] obtain n s' where
    "reindex demo_graph mem_storage 1 s = Some (Inr n, s')" "map_of s' = m" by blast
  then show ?thesis using s(2,4) by (intro exI [of _ s] exI [of _ m] exI [of _ n] exI [of _ s']) simp
qed

end
