(* ===== verification/Okm_Query.thy ===== *)
theory Okm_Query
  imports Okm_Prelude
begin

text \<open>
  Query operators over ordered streams (\<open>okm-query/src/lib.rs\<close>): the merge join, the group fold and
  the breadth-first walk; and one step of label propagation (\<open>okm-graph/src/lib.rs\<close>). A stream is
  the list of its items; the read of a store by an edge type is the function \<open>peers\<close>.
\<close>

section \<open>Merge join\<close>

text \<open>An equal run is drained on both sides; the pairs come right item by right item.\<close>

function merge_join :: "('k :: linorder \<times> 'l) list \<Rightarrow> ('k \<times> 'r) list \<Rightarrow> ('l \<times> 'r) list" where
  "merge_join [] rs = []"
| "merge_join (p # ls) [] = []"
| "merge_join ((lk, l) # ls) ((rk, r) # rs) =
     (if lk < rk then merge_join ls ((rk, r) # rs)
      else if rk < lk then merge_join ((lk, l) # ls) rs
      else
        let lrun = l # map snd (takeWhile (\<lambda>(k, _). k = lk) ls);
            rrun = takeWhile (\<lambda>(k, _). k = lk) ((rk, r) # rs)
        in concat (map (\<lambda>(_, y). map (\<lambda>x. (x, y)) lrun) rrun) @
           merge_join (dropWhile (\<lambda>(k, _). k = lk) ls) (dropWhile (\<lambda>(k, _). k = lk) ((rk, r) # rs)))"
  by pat_completeness auto

termination
  by (relation "measure (\<lambda>(ls, rs). length ls + length rs)")
    (auto intro!: le_imp_less_Suc le_SucI add_mono length_dropWhile_le)

text \<open>The join as a nested loop over all pairs.\<close>

definition nested_join :: "('k \<times> 'l) list \<Rightarrow> ('k \<times> 'r) list \<Rightarrow> ('l \<times> 'r) list" where
  "nested_join ls rs = concat (map (\<lambda>(rk, r). map (\<lambda>(_, l). (l, r)) (filter (\<lambda>(lk, _). lk = rk) ls)) rs)"

lemma nested_append: "nested_join ls (xs @ ys) = nested_join ls xs @ nested_join ls ys"
  by (simp add: nested_join_def)

lemma nested_drop_left:
  assumes "\<forall>p \<in> set xs. \<forall>q \<in> set rs. fst p \<noteq> fst q"
  shows "nested_join (xs @ ls) rs = nested_join ls rs"
proof -
  have "filter (\<lambda>(lk, _). lk = fst q) (xs @ ls) = filter (\<lambda>(lk, _). lk = fst q) ls" if "q \<in> set rs" for q
    using assms that by (fastforce simp: filter_empty_conv)
  then show ?thesis unfolding nested_join_def by (intro arg_cong [where f = concat] map_cong) auto
qed

lemma nested_drop_right:
  assumes "\<forall>p \<in> set ls. \<forall>q \<in> set xs. fst p \<noteq> fst q"
  shows "nested_join ls xs = []"
proof -
  have "filter (\<lambda>(lk, _). lk = fst q) ls = []" if "q \<in> set xs" for q
    using assms that by (fastforce simp: filter_empty_conv)
  then show ?thesis by (auto simp: nested_join_def)
qed

text \<open>A sorted list is its leading run and greater keys.\<close>

lemma lead_run:
  fixes k :: "'k :: linorder"
  assumes "sorted (map fst xs)" "\<forall>p \<in> set xs. k \<le> fst p"
  shows "\<forall>p \<in> set (takeWhile (\<lambda>(k', _). k' = k) xs). fst p = k" "\<forall>p \<in> set (dropWhile (\<lambda>(k', _). k' = k) xs). k < fst p"
  using assms by (induction xs) (force split: if_splits dest: set_takeWhileD)+

lemma sorted_dropWhile_fst: "sorted (map fst xs) \<Longrightarrow> sorted (map fst (dropWhile P xs))"
  by (induction xs) simp_all

lemma nested_equal_runs:
  assumes "\<forall>p \<in> set xs. fst p = k" "\<forall>q \<in> set ys. fst q = k"
  shows "nested_join xs ys = concat (map (\<lambda>(_, y). map (\<lambda>x. (x, y)) (map snd xs)) ys)"
proof -
  have "filter (\<lambda>(lk, _). lk = fst q) xs = xs" if "q \<in> set ys" for q
    using assms that by (auto simp: filter_id_conv)
  then show ?thesis unfolding nested_join_def by (intro arg_cong [where f = concat] map_cong) (auto simp: case_prod_beta)
qed

lemma merge_is_nested:
  "sorted (map fst ls) \<Longrightarrow> sorted (map fst rs) \<Longrightarrow> merge_join ls rs = nested_join ls rs"
proof (induction ls rs rule: merge_join.induct)
  case (1 rs)
  then show ?case by (simp add: nested_join_def)
next
  case (2 p ls)
  then show ?case by (simp add: nested_join_def)
next
  case (3 lk l ls rk r rs)
  have l: "sorted (map fst ls)" "\<forall>p \<in> set ls. lk \<le> fst p" and r: "sorted (map fst rs)" "\<forall>q \<in> set rs. rk \<le> fst q"
    using 3(4,5) by auto
  consider "lk < rk" | "rk < lk" | "lk = rk" by (rule linorder_cases)
  then show ?case
  proof cases
    case 1
    then have "nested_join ([(lk, l)] @ ls) ((rk, r) # rs) = nested_join ls ((rk, r) # rs)"
      using r by (intro nested_drop_left) auto
    then show ?thesis using 1 3(1) l(1) 3(5) by simp
  next
    case 2
    then have "nested_join ((lk, l) # ls) [(rk, r)] = []" using l by (intro nested_drop_right) auto
    then show ?thesis using 2 3(2) [OF _ _ 3(4) r(1)] less_not_sym [OF 2] nested_append [of "(lk, l) # ls" "[(rk, r)]" rs] by simp
  next
    case eq: 3
    let ?P = "\<lambda>(k, _). k = lk"
    define la lb where "la = (lk, l) # takeWhile ?P ls" and "lb = dropWhile ?P ls"
    define ra rb where "ra = takeWhile ?P ((rk, r) # rs)" and "rb = dropWhile ?P ((rk, r) # rs)"
    have split: "(lk, l) # ls = la @ lb" "(rk, r) # rs = ra @ rb" by (simp_all add: la_def lb_def ra_def rb_def)
    have runs: "\<forall>p \<in> set la. fst p = lk" "\<forall>p \<in> set lb. lk < fst p" "\<forall>q \<in> set ra. fst q = lk" "\<forall>q \<in> set rb. lk < fst q"
      using lead_run [OF l] lead_run [OF 3(5), of lk] r(2) eq by (auto simp: la_def lb_def ra_def rb_def)
    have "sorted (map fst lb)" "sorted (map fst rb)"
      unfolding lb_def rb_def by (rule sorted_dropWhile_fst, fact l(1) 3(5))+
    have "merge_join ((lk, l) # ls) ((rk, r) # rs) =
        concat (map (\<lambda>(_, y). map (\<lambda>x. (x, y)) (map snd la)) ra) @ nested_join lb rb"
      using eq 3(3) \<open>sorted (map fst lb)\<close> \<open>sorted (map fst rb)\<close> by (simp add: la_def lb_def ra_def rb_def Let_def)
    also have "\<dots> = nested_join la ra @ nested_join lb rb"
      using nested_equal_runs [OF runs(1,3)] by simp
    also have "nested_join lb rb = nested_join (la @ lb) rb"
      using runs by (intro nested_drop_left [symmetric]) fastforce
    also have "nested_join la ra = nested_join (la @ lb) ra"
    proof -
      have "filter (\<lambda>(lk, _). lk = fst q) (la @ lb) = filter (\<lambda>(lk, _). lk = fst q) la" if "q \<in> set ra" for q
        using runs that by (fastforce simp: filter_empty_conv)
      then show ?thesis unfolding nested_join_def by (intro arg_cong [where f = concat] map_cong) auto
    qed
    finally show ?thesis unfolding split nested_append .
  qed
qed


section \<open>Group fold\<close>

text \<open>The accumulators are pushed behind one another; only the last one is open.\<close>

definition group_item :: "('t \<Rightarrow> 'g) \<Rightarrow> 'a \<Rightarrow> ('a \<Rightarrow> 't \<Rightarrow> 'a) \<Rightarrow> ('g \<times> 'a) list \<Rightarrow> 't \<Rightarrow> ('g \<times> 'a) list" where
  "group_item key init step out item =
     (if out \<noteq> [] \<and> fst (last out) = key item
      then butlast out @ [(fst (last out), step (snd (last out)) item)]
      else out @ [(key item, step init item)])"

definition group_by :: "'t list \<Rightarrow> ('t \<Rightarrow> 'g) \<Rightarrow> 'a \<Rightarrow> ('a \<Rightarrow> 't \<Rightarrow> 'a) \<Rightarrow> ('g \<times> 'a) list" where
  "group_by items key init step = foldl (group_item key init step) [] items"

text \<open>A list of runs: each holds one key, and neighbours differ.\<close>

definition one_key :: "('t \<Rightarrow> 'g) \<Rightarrow> 't list \<Rightarrow> bool" where
  "one_key key run \<longleftrightarrow> run \<noteq> [] \<and> (\<forall>x \<in> set run. key x = key (hd run))"

definition key_runs :: "('t \<Rightarrow> 'g) \<Rightarrow> 't list list \<Rightarrow> bool" where
  "key_runs key runs \<longleftrightarrow> list_all (one_key key) runs \<and> distinct_adj (map (\<lambda>run. key (hd run)) runs)"

definition fold_run :: "('t \<Rightarrow> 'g) \<Rightarrow> 'a \<Rightarrow> ('a \<Rightarrow> 't \<Rightarrow> 'a) \<Rightarrow> 't list \<Rightarrow> 'g \<times> 'a" where
  "fold_run key init step run = (key (hd run), foldl step init run)"

lemma group_step:
  assumes "key_runs key runs" "out = map (fold_run key init step) runs"
  shows "\<exists>runs'. key_runs key runs' \<and> concat runs' = concat runs @ [x] \<and>
    group_item key init step out x = map (fold_run key init step) runs'"
proof (cases runs rule: rev_cases)
  case Nil
  have "key_runs key [[x]]" by (simp add: key_runs_def one_key_def)
  moreover have "group_item key init step out x = map (fold_run key init step) [[x]]"
    using assms(2) by (simp add: Nil group_item_def fold_run_def)
  ultimately show ?thesis by (intro exI [of _ "[[x]]"]) (simp add: Nil)
next
  case (snoc rs run)
  have "one_key key run" using assms(1) by (simp add: key_runs_def snoc)
  then have run: "one_key key run" "run \<noteq> []" unfolding one_key_def by blast+
  show ?thesis
  proof (cases "key (hd run) = key x")
    case True
    have "map (\<lambda>run. key (hd run)) (rs @ [run @ [x]]) = map (\<lambda>run. key (hd run)) (rs @ [run])" using run(2) by simp
    moreover have "one_key key (run @ [x])" using run True unfolding one_key_def by auto
    ultimately have "key_runs key (rs @ [run @ [x]])" using assms(1) by (simp add: key_runs_def snoc)
    moreover have "group_item key init step out x = map (fold_run key init step) (rs @ [run @ [x]])"
      using True run assms(2) by (simp add: group_item_def fold_run_def snoc)
    ultimately show ?thesis by (intro exI [of _ "rs @ [run @ [x]]"]) (simp add: snoc)
  next
    case False
    have "distinct_adj (map (\<lambda>run. key (hd run)) rs @ [key (hd run), key x])"
      using assms(1) False by (simp add: key_runs_def snoc distinct_adj_append_iff)
    then have "key_runs key (rs @ [run, [x]])" using assms(1) by (simp add: key_runs_def snoc one_key_def [of key "[x]"])
    moreover have "group_item key init step out x = map (fold_run key init step) (rs @ [run, [x]])"
      using False assms(2) by (simp add: group_item_def fold_run_def snoc)
    ultimately show ?thesis by (intro exI [of _ "rs @ [run, [x]]"]) (simp add: snoc)
  qed
qed

lemma group_runs:
  "\<exists>runs. key_runs key runs \<and> concat runs = items \<and> group_by items key init step = map (fold_run key init step) runs"
proof (induction items rule: rev_induct)
  case Nil
  show ?case by (rule exI [of _ "[]"]) (simp add: key_runs_def group_by_def)
next
  case (snoc x items)
  then obtain runs where "key_runs key runs" "concat runs = items" "group_by items key init step = map (fold_run key init step) runs"
    by blast
  from group_step [OF this(1,3), of x] this(2) show ?case by (simp add: group_by_def)
qed

section \<open>Walk\<close>

type_synonym 'n edge_type = "'n \<Rightarrow> 'n list"

text \<open>The three nested loops of a hop push one peer at a time.\<close>

definition push_new :: "'n list \<Rightarrow> 'n list \<Rightarrow> 'n \<Rightarrow> 'n list" where
  "push_new visited nxt peer = (if peer \<notin> set visited \<and> peer \<notin> set nxt then nxt @ [peer] else nxt)"

definition hop :: "'n edge_type list \<Rightarrow> 'n list \<Rightarrow> 'n list \<Rightarrow> 'n list" where
  "hop edges visited frontier = foldl (push_new visited) [] (concat (map (\<lambda>node. concat (map (\<lambda>e. e node) edges)) frontier))"

fun walk_loop :: "'n edge_type list \<Rightarrow> nat \<Rightarrow> 'n list \<Rightarrow> 'n list \<Rightarrow> 'n list" where
  "walk_loop edges 0 visited frontier = visited"
| "walk_loop edges (Suc hops) visited frontier =
     (let nxt = hop edges visited frontier in
      if nxt = [] then visited else walk_loop edges hops (visited @ nxt) nxt)"

definition walk :: "'n edge_type list \<Rightarrow> 'n \<Rightarrow> nat \<Rightarrow> 'n list" where
  "walk edges start max_hops = walk_loop edges max_hops [start] [start]"

definition peer_of :: "'n edge_type list \<Rightarrow> ('n \<times> 'n) set" where
  "peer_of edges = {(u, v). \<exists>e \<in> set edges. v \<in> set (e u)}"

definition within :: "'n edge_type list \<Rightarrow> 'n \<Rightarrow> nat \<Rightarrow> 'n set" where
  "within edges start k = {v. \<exists>j \<le> k. (start, v) \<in> peer_of edges ^^ j}"

lemma push_all:
  "set (foldl (push_new vis) nxt ps) = set nxt \<union> (set ps - set vis) \<and>
   (distinct nxt \<longrightarrow> distinct (foldl (push_new vis) nxt ps)) \<and>
   (set nxt \<inter> set vis = {} \<longrightarrow> set (foldl (push_new vis) nxt ps) \<inter> set vis = {})"
  by (induction ps arbitrary: nxt) (auto simp: push_new_def)

lemma hop_set:
  "set (hop edges vis fr) = peer_of edges `` set fr - set vis" "distinct (hop edges vis fr)"
  using push_all [of vis "[]"] by (auto simp: hop_def peer_of_def)

lemma within_Suc: "within edges start (Suc k) = within edges start k \<union> peer_of edges `` within edges start k"
proof (intro set_eqI iffI)
  fix v assume "v \<in> within edges start (Suc k)"
  then obtain j where j: "j \<le> Suc k" "(start, v) \<in> peer_of edges ^^ j" by (auto simp: within_def)
  show "v \<in> within edges start k \<union> peer_of edges `` within edges start k"
  proof (cases j)
    case 0
    then show ?thesis using j by (auto simp: within_def intro: exI [of _ 0])
  next
    case (Suc i)
    then obtain u where "(start, u) \<in> peer_of edges ^^ i" "(u, v) \<in> peer_of edges" using j(2) by auto
    then show ?thesis using Suc j(1) by (auto simp: within_def)
  qed
next
  fix v assume "v \<in> within edges start k \<union> peer_of edges `` within edges start k"
  then show "v \<in> within edges start (Suc k)"
    by (auto simp: within_def) (metis le_SucI, metis Suc_le_mono relpow_Suc_I)
qed

text \<open>
  Between hops: everything within \<open>k\<close> hops is visited, and the frontier holds every visited node
  that still has an unvisited peer.
\<close>

lemma walk_loop_spec:
  assumes "set vis = within edges start k" "distinct vis" "set fr \<subseteq> set vis"
    and "peer_of edges `` (set vis - set fr) \<subseteq> set vis"
  shows "distinct (walk_loop edges n vis fr) \<and> set (walk_loop edges n vis fr) = within edges start (k + n)"
  using assms
proof (induction n arbitrary: vis fr k)
  case (Suc n)
  let ?nxt = "hop edges vis fr"
  have "set vis \<union> peer_of edges `` set vis = set vis \<union> (peer_of edges `` set fr - set vis)"
    using Suc.prems(3,4) by blast
  then have step: "within edges start (Suc k) = set vis \<union> set ?nxt"
    by (simp add: within_Suc hop_set Suc.prems(1) [symmetric])
  show ?case
  proof (cases "?nxt = []")
    case True
    then have "peer_of edges `` within edges start k \<subseteq> within edges start k"
      using step Suc.prems(1) by (auto simp: within_Suc)
    then have "within edges start (k + m) = within edges start k" for m
      by (induction m) (auto simp: within_Suc)
    from this [of "Suc n"] show ?thesis using True Suc.prems(1,2) by simp
  next
    case False
    have "distinct (walk_loop edges n (vis @ ?nxt) ?nxt) \<and> set (walk_loop edges n (vis @ ?nxt) ?nxt) = within edges start (Suc k + n)"
    proof (rule Suc.IH)
      show "peer_of edges `` (set (vis @ ?nxt) - set ?nxt) \<subseteq> set (vis @ ?nxt)"
        using Suc.prems(3,4) unfolding set_append hop_set by blast
      show "set (vis @ ?nxt) = within edges start (Suc k)" by (simp add: step)
      show "distinct (vis @ ?nxt)" using Suc.prems(2) by (auto simp: hop_set)
      show "set ?nxt \<subseteq> set (vis @ ?nxt)" by simp
    qed
    then show ?thesis using False by (simp add: Let_def)
  qed
qed simp

section \<open>Label propagation\<close>

text \<open>
  \<open>current\<close> is the generation of labels before the step; votes are counted in a map whose iteration
  order is not specified, so the count is a function of the peers and \<open>order\<close> any enumeration of
  the labels voted for.
\<close>

definition votes :: "('n \<rightharpoonup> 'l) \<Rightarrow> 'n list \<Rightarrow> 'l list" where
  "votes current peers = List.map_filter current peers"

definition tally :: "'l list \<Rightarrow> ('l \<times> nat) list" where
  "tally vs = map (\<lambda>l. (l, count_list vs l)) (remdups vs)"

text \<open>\<open>max_by\<close> keeps the later of two equal elements.\<close>

fun max_by :: "('a \<Rightarrow> 'a \<Rightarrow> bool) \<Rightarrow> 'a list \<Rightarrow> 'a option" where
  "max_by leq [] = None"
| "max_by leq (x # xs) = Some (foldl (\<lambda>best y. if leq best y then y else best) x xs)"

definition vote_le :: "'l :: linorder \<times> nat \<Rightarrow> 'l \<times> nat \<Rightarrow> bool" where
  "vote_le a b \<longleftrightarrow> snd a < snd b \<or> snd a = snd b \<and> fst b \<le> fst a"

definition best_label :: "('l :: linorder \<times> nat) list \<Rightarrow> 'l option" where
  "best_label entries = map_option fst (max_by vote_le entries)"

text \<open>\<open>iter\<close> is the iteration order of the vote map.\<close>

fun propagate :: "(('l :: linorder \<times> nat) list \<Rightarrow> ('l \<times> nat) list) \<Rightarrow> ('n \<rightharpoonup> 'l) \<Rightarrow> ('n \<Rightarrow> 'n list) \<Rightarrow> 'n list \<Rightarrow> ('n \<rightharpoonup> 'l) \<Rightarrow> 'n \<rightharpoonup> 'l" where
  "propagate iter current neighbors [] labels = labels"
| "propagate iter current neighbors (n # ns) labels =
     propagate iter current neighbors ns
       (case best_label (iter (tally (votes current (neighbors n)))) of None \<Rightarrow> labels | Some l \<Rightarrow> labels(n \<mapsto> l))"

definition label_propagation_step ::
    "(('l :: linorder \<times> nat) list \<Rightarrow> ('l \<times> nat) list) \<Rightarrow> 'n list \<Rightarrow> ('n \<rightharpoonup> 'l) \<Rightarrow> ('n \<Rightarrow> 'n list) \<Rightarrow> 'n \<rightharpoonup> 'l" where
  "label_propagation_step iter nodes labels neighbors = propagate iter labels neighbors nodes labels"

text \<open>The plurality label: most votes, the smallest of those.\<close>

definition plurality :: "'l :: linorder list \<Rightarrow> 'l \<Rightarrow> bool" where
  "plurality vs l \<longleftrightarrow> l \<in> set vs \<and> (\<forall>l' \<in> set vs. count_list vs l' < count_list vs l \<or> count_list vs l' = count_list vs l \<and> l \<le> l')"

lemma plurality_unique: "plurality vs a \<Longrightarrow> plurality vs b \<Longrightarrow> a = b"
  by (fastforce simp: plurality_def)

lemma foldl_max:
  assumes "\<And>a b. leq a b \<or> leq b a" "\<And>a b c. leq a b \<Longrightarrow> leq b c \<Longrightarrow> leq a c"
  shows "foldl (\<lambda>best y. if leq best y then y else best) x xs \<in> insert x (set xs) \<and>
    (\<forall>y \<in> insert x (set xs). leq y (foldl (\<lambda>best y. if leq best y then y else best) x xs))"
proof (induction xs rule: rev_induct)
  case Nil
  then show ?case using assms(1) by auto
next
  case (snoc y xs)
  let ?w = "foldl (\<lambda>best y. if leq best y then y else best) x xs"
  have w: "foldl (\<lambda>best y. if leq best y then y else best) x (xs @ [y]) = (if leq ?w y then y else ?w)" by simp
  show ?case
  proof (cases "leq ?w y")
    case True
    then have "\<forall>z \<in> insert x (set xs). leq z y" using snoc assms(2) by blast
    then show ?thesis unfolding w using True assms(1) [of y y] by simp
  next
    case False
    then show ?thesis unfolding w using snoc assms(1) [of ?w y] by auto
  qed
qed

lemma best_plurality:
  assumes "set entries = set (tally vs)"
  shows "best_label entries = None \<longleftrightarrow> vs = []" "best_label entries = Some l \<longleftrightarrow> plurality vs l"
proof -
  have tally: "set entries = (\<lambda>l. (l, count_list vs l)) ` set vs" using assms by (simp add: tally_def)
  show none: "best_label entries = None \<longleftrightarrow> vs = []"
    proof (cases entries)
    case Nil
    then show ?thesis using tally by (simp add: best_label_def)
  next
    case (Cons e es)
    then have "vs \<noteq> []" using tally by auto
    then show ?thesis by (simp add: best_label_def Cons)
  qed
  have some: "plurality vs m" if best: "best_label entries = Some m" for m
  proof -
    obtain x xs where e: "entries = x # xs" using best by (cases entries) (auto simp: best_label_def)
    let ?w = "foldl (\<lambda>best y. if vote_le best y then y else best) x xs"
    have "?w \<in> insert x (set xs) \<and> (\<forall>y \<in> insert x (set xs). vote_le y ?w)"
      by (rule foldl_max) (auto simp: vote_le_def)
    then have "?w \<in> set entries \<and> (\<forall>y \<in> set entries. vote_le y ?w)" by (simp add: e)
    moreover have "fst ?w = m" using best by (simp add: best_label_def e)
    ultimately have "(m, snd ?w) \<in> set entries" "\<forall>y \<in> set entries. vote_le y (m, snd ?w)" by auto
    then have "m \<in> set vs" "\<forall>l \<in> set vs. vote_le (l, count_list vs l) (m, count_list vs m)" unfolding tally by auto
    then show ?thesis by (auto simp: plurality_def vote_le_def)
  qed
  show "best_label entries = Some l \<longleftrightarrow> plurality vs l"
  proof
    assume l: "plurality vs l"
    then have "vs \<noteq> []" by (auto simp: plurality_def)
    then obtain m where m: "best_label entries = Some m" using none by blast
    then show "best_label entries = Some l" using plurality_unique [OF some [OF m] l] by simp
  qed (rule some)
qed

lemma propagate_spec:
  assumes "\<And>es. set (iter es) = set es"
  shows "propagate iter cur neighbors ns labels n = Some l \<longleftrightarrow>
    (if n \<in> set ns \<and> votes cur (neighbors n) \<noteq> [] then plurality (votes cur (neighbors n)) l else labels n = Some l)"
proof (induction ns arbitrary: labels)
  case (Cons m ns)
  note best = best_plurality [OF assms, of "votes cur (neighbors m)"]
  show ?case
    using Cons.IH best by (cases "best_label (iter (tally (votes cur (neighbors m))))") auto
qed simp

section \<open>Properties\<close>

text \<open>
  C37: The merge join of two key-ordered streams is the nested loop over all pairs: every pair with
  equal keys, duplicates on either side included, right item by right item, and no other.
\<close>

theorem merge_join_nested:
  fixes ls :: "('k :: linorder \<times> 'l) list"
  assumes "sorted (map fst ls)" "sorted (map fst rs)"
  shows "merge_join ls rs = nested_join ls rs"
  by (rule merge_is_nested [OF assms])

theorem merge_join_nested_witness:
  "merge_join [(1 :: nat, ''a''), (2, ''b''), (2, ''c'')] [(2, True), (2, False), (3, True)] =
     [(''b'', True), (''c'', True), (''b'', False), (''c'', False)]"
  using merge_join_nested [of "[(1 :: nat, ''a''), (2, ''b''), (2, ''c'')]" "[(2, True), (2, False), (3, True)]"]
  by (simp add: nested_join_def)

text \<open>
  The group fold cuts its stream into the maximal runs of equal keys, in order, and answers for
  each run its key and the fold of its items; nothing is dropped.
\<close>

theorem group_by_runs:
  "\<exists>runs. key_runs key runs \<and> concat runs = items \<and> group_by items key init step = map (fold_run key init step) runs"
  by (rule group_runs)

text \<open>
  C38: A walk of at most \<open>h\<close> hops answers each node within \<open>h\<close> steps of the start exactly once, over
  any edge types, cycles and self-loops included; leaving the loop at the first empty frontier loses
  nothing.
\<close>

theorem walk_reaches:
  "distinct (walk edges start h) \<and> set (walk edges start h) = within edges start h"
proof -
  have "set [start] = within edges start 0" by (auto simp: within_def)
  from walk_loop_spec [OF this, of "[start]" h] show ?thesis by (simp add: walk_def)
qed

text \<open>
  A step of label propagation gives every listed node the plurality label of its neighbours in
  the generation before, the smallest one on a tie, whatever order the vote map iterates in; a node
  without labelled neighbours and every other node keep their label.
\<close>

theorem label_step_plurality:
  assumes "\<And>es. set (iter es) = set es"
  shows "label_propagation_step iter nodes labels neighbors n = Some l \<longleftrightarrow>
    (if n \<in> set nodes \<and> votes labels (neighbors n) \<noteq> [] then plurality (votes labels (neighbors n)) l else labels n = Some l)"
  unfolding label_propagation_step_def by (rule propagate_spec [OF assms])

theorem label_step_plurality_witness:
  "label_propagation_step rev [0 :: nat] [0 \<mapsto> 9, 2 \<mapsto> 7, 3 \<mapsto> 5 :: nat] (\<lambda>n. [2, 3, 4]) 0 = Some 5"
proof -
  have "votes [0 \<mapsto> 9, 2 \<mapsto> 7, 3 \<mapsto> 5 :: nat] [2, 3, 4 :: nat] = [7, 5]" by (simp add: votes_def List.map_filter_simps)
  moreover have "plurality [7, 5] (5 :: nat)" by (simp add: plurality_def)
  ultimately show ?thesis
    using label_step_plurality [of rev "[0 :: nat]" "[0 \<mapsto> 9, 2 \<mapsto> 7, 3 \<mapsto> 5 :: nat]" "\<lambda>n. [2, 3, 4]" 0 5] by simp
qed

end
