(* ===== verification/Okm_Series_Format.thy ===== *)
theory Okm_Series_Format
  imports Okm_Fields
begin

unbundle bit_operations_syntax

text \<open>
  The bytes of an append-only log (\<open>okm-series/src/format.rs\<close>): varints, the fixed-width
  headers of a part and its blocks, the footer, the index rows and one record.

  A reader that walks a position through a slice is a \<open>reader\<close> on the remaining bytes; an
  \<open>i64\<close> is a 64-bit word read as signed. The arrays the encoders fill at fixed offsets are
  written out with their gaps of zeros.
\<close>

section \<open>Constants\<close>

definition PART_MAGIC :: bytes where "PART_MAGIC = [0x4F, 0x4B, 0x4D, 0x53]"
definition BLOCK_MAGIC :: bytes where "BLOCK_MAGIC = [0x4F, 0x4B, 0x4D, 0x42]"
definition FOOTER_MAGIC :: bytes where "FOOTER_MAGIC = [0x4F, 0x4B, 0x4D, 0x46]"
definition INDEX_MAGIC :: bytes where "INDEX_MAGIC = [0x4F, 0x4B, 0x4D, 0x49]"
definition DICT_FILE_MAGIC :: bytes where "DICT_FILE_MAGIC = [0x4F, 0x4B, 0x4D, 0x44]"
definition DICT_BLOCK_MAGIC :: bytes where "DICT_BLOCK_MAGIC = [0x4F, 0x4B, 0x4D, 0x4B]"
definition FORMAT_VERSION :: byte where "FORMAT_VERSION = 1"

lemmas magics = PART_MAGIC_def BLOCK_MAGIC_def FOOTER_MAGIC_def INDEX_MAGIC_def DICT_FILE_MAGIC_def
  DICT_BLOCK_MAGIC_def FORMAT_VERSION_def

definition PART_HEADER_LEN :: nat where [simp]: "PART_HEADER_LEN = 48"
definition BLOCK_HEADER_LEN :: nat where [simp]: "BLOCK_HEADER_LEN = 40"
definition FOOTER_LEN :: nat where [simp]: "FOOTER_LEN = 40"
definition INDEX_HEADER_LEN :: nat where [simp]: "INDEX_HEADER_LEN = 8"
definition INDEX_ROW_LEN :: nat where [simp]: "INDEX_ROW_LEN = 32"
definition DICT_FILE_HEADER_LEN :: nat where [simp]: "DICT_FILE_HEADER_LEN = 8"
definition DICT_BLOCK_HEADER_LEN :: nat where [simp]: "DICT_BLOCK_HEADER_LEN = 32"

section \<open>Precision\<close>

datatype precision = S | Ms | Us | Ns

fun precision_code :: "precision \<Rightarrow> byte" where
  "precision_code S = 0"
| "precision_code Ms = 1"
| "precision_code Us = 2"
| "precision_code Ns = 3"

definition precision_from_code :: "byte \<Rightarrow> precision option" where
  "precision_from_code c =
     (if c = 0 then Some S else if c = 1 then Some Ms else if c = 2 then Some Us else if c = 3 then Some Ns else None)"

fun per_second :: "precision \<Rightarrow> nat" where
  "per_second S = 1"
| "per_second Ms = 1000"
| "per_second Us = 1000000"
| "per_second Ns = 1000000000"

fun precision_label :: "precision \<Rightarrow> string" where
  "precision_label S = ''s''"
| "precision_label Ms = ''ms''"
| "precision_label Us = ''us''"
| "precision_label Ns = ''ns''"

lemma precision_roundtrip [simp]: "precision_from_code (precision_code p) = Some p"
  by (cases p) (simp_all add: precision_from_code_def)

section \<open>Varints\<close>

lemma drop_bit_7_less: "drop_bit 7 (v :: u64) \<noteq> 0 \<Longrightarrow> unat (drop_bit 7 v) < unat v"
  using unat_drop_bit_div [of 7 v] by (simp add: word_unat_eq_iff)

function put_uvarint :: "u64 \<Rightarrow> bytes" where
  "put_uvarint value =
     (let b = ucast (value AND 0x7F) :: byte; rest = drop_bit 7 value in
      if rest = 0 then [b] else (b OR 0x80) # put_uvarint rest)"
  by pat_completeness auto

termination
  by (relation "measure unat") (auto dest: drop_bit_7_less)

fun uvarint_loop :: "u64 \<Rightarrow> nat \<Rightarrow> u64 reader" where
  "uvarint_loop value shift [] = None"
| "uvarint_loop value shift (b # rest) =
     (if 64 \<le> shift then None
      else let value = value OR push_bit shift (ucast (b AND 0x7F)) in
        if b AND 0x80 = 0 then Some (value, rest) else uvarint_loop value (shift + 7) rest)"

definition get_uvarint :: "u64 reader" where
  "get_uvarint = uvarint_loop 0 0"

definition put_svarint :: "u64 \<Rightarrow> bytes" where
  "put_svarint value = put_uvarint (push_bit 1 value XOR signed_drop_bit 63 value)"

definition get_svarint :: "u64 reader" where
  "get_svarint = rd_bind get_uvarint (\<lambda>raw. rd_ret (drop_bit 1 raw XOR - (raw AND 1)))"

declare put_uvarint.simps [simp del]

section \<open>Headers\<close>

text \<open>A field of a fixed layout.\<close>

definition be_at :: "bytes \<Rightarrow> nat \<Rightarrow> nat \<Rightarrow> 'a :: len word option" where
  "be_at b lo hi = from_be_bytes (take (hi - lo) (drop lo b))"

record part_header =
  ph_precision :: precision
  ph_bucket :: u64
  ph_base_ts :: u64
  ph_first_offset :: u64
  ph_created_unix_ms :: u64

definition PartHeader_encode :: "part_header \<Rightarrow> bytes" where
  "PartHeader_encode h = PART_MAGIC @ [FORMAT_VERSION, precision_code (ph_precision h), 0, 0]
     @ to_be_bytes (ph_bucket h) @ to_be_bytes (ph_base_ts h) @ to_be_bytes (ph_first_offset h)
     @ to_be_bytes (ph_created_unix_ms h) @ replicate 8 0"

definition PartHeader_decode :: "bytes \<Rightarrow> part_header option" where
  "PartHeader_decode b =
     (if length b < PART_HEADER_LEN \<or> take 4 b \<noteq> PART_MAGIC then None
      else if b ! 4 \<noteq> FORMAT_VERSION then None
      else do {
        p \<leftarrow> precision_from_code (b ! 5);
        bucket \<leftarrow> be_at b 8 16;
        base \<leftarrow> be_at b 16 24;
        first \<leftarrow> be_at b 24 32;
        created \<leftarrow> be_at b 32 40;
        Some \<lparr> ph_precision = p, ph_bucket = bucket, ph_base_ts = base, ph_first_offset = first,
               ph_created_unix_ms = created \<rparr> })"

datatype block_codec = Raw | Zstd

fun codec_code :: "block_codec \<Rightarrow> byte" where
  "codec_code Raw = 0"
| "codec_code Zstd = 1"

definition codec_from_code :: "byte \<Rightarrow> block_codec option" where
  "codec_from_code c = (if c = 0 then Some Raw else if c = 1 then Some Zstd else None)"

lemma codec_roundtrip [simp]: "codec_from_code (codec_code c) = Some c"
  by (cases c) (simp_all add: codec_from_code_def)

record block_header =
  bh_codec :: block_codec
  bh_records :: u32
  bh_len_c :: u32
  bh_len_u :: u32
  bh_first_ts :: u64
  bh_first_offset :: u64

definition BlockHeader_encode :: "block_header \<Rightarrow> bytes" where
  "BlockHeader_encode h = BLOCK_MAGIC @ [codec_code (bh_codec h), 0, 0, 0]
     @ to_be_bytes (bh_records h) @ to_be_bytes (bh_len_c h) @ to_be_bytes (bh_len_u h) @ replicate 4 0
     @ to_be_bytes (bh_first_ts h) @ to_be_bytes (bh_first_offset h)"

definition BlockHeader_decode :: "bytes \<Rightarrow> block_header option" where
  "BlockHeader_decode b =
     (if length b < BLOCK_HEADER_LEN \<or> take 4 b \<noteq> BLOCK_MAGIC then None
      else do {
        c \<leftarrow> codec_from_code (b ! 4);
        records \<leftarrow> be_at b 8 12;
        len_c \<leftarrow> be_at b 12 16;
        len_u \<leftarrow> be_at b 16 20;
        first_ts \<leftarrow> be_at b 24 32;
        first_offset \<leftarrow> be_at b 32 40;
        Some \<lparr> bh_codec = c, bh_records = records, bh_len_c = len_c, bh_len_u = len_u,
               bh_first_ts = first_ts, bh_first_offset = first_offset \<rparr> })"

record footer =
  ft_records :: u64
  ft_last_ts :: u64
  ft_blocks :: u32
  ft_digest :: u64

definition Footer_encode :: "footer \<Rightarrow> bytes" where
  "Footer_encode f = FOOTER_MAGIC @ [FORMAT_VERSION, 0, 0, 0]
     @ to_be_bytes (ft_records f) @ to_be_bytes (ft_last_ts f) @ to_be_bytes (ft_blocks f) @ replicate 4 0
     @ to_be_bytes (ft_digest f)"

definition Footer_decode :: "bytes \<Rightarrow> footer option" where
  "Footer_decode b =
     (if length b < FOOTER_LEN \<or> take 4 b \<noteq> FOOTER_MAGIC then None
      else if b ! 4 \<noteq> FORMAT_VERSION then None
      else do {
        records \<leftarrow> be_at b 8 16;
        last_ts \<leftarrow> be_at b 16 24;
        blocks \<leftarrow> be_at b 24 28;
        digest \<leftarrow> be_at b 32 40;
        Some \<lparr> ft_records = records, ft_last_ts = last_ts, ft_blocks = blocks, ft_digest = digest \<rparr> })"

record index_row =
  ir_first_ts :: u64
  ir_first_offset :: u64
  ir_file_offset :: u32
  ir_len_c :: u32
  ir_len_u :: u32
  ir_records :: u32

definition IndexRow_encode :: "index_row \<Rightarrow> bytes" where
  "IndexRow_encode r = to_be_bytes (ir_first_ts r) @ to_be_bytes (ir_first_offset r)
     @ to_be_bytes (ir_file_offset r) @ to_be_bytes (ir_len_c r) @ to_be_bytes (ir_len_u r) @ to_be_bytes (ir_records r)"

definition IndexRow_decode :: "bytes \<Rightarrow> index_row option" where
  "IndexRow_decode b =
     (if length b < INDEX_ROW_LEN then None
      else do {
        first_ts \<leftarrow> be_at b 0 8;
        first_offset \<leftarrow> be_at b 8 16;
        file_offset \<leftarrow> be_at b 16 20;
        len_c \<leftarrow> be_at b 20 24;
        len_u \<leftarrow> be_at b 24 28;
        records \<leftarrow> be_at b 28 32;
        Some \<lparr> ir_first_ts = first_ts, ir_first_offset = first_offset, ir_file_offset = file_offset,
               ir_len_c = len_c, ir_len_u = len_u, ir_records = records \<rparr> })"

definition IndexRow_from_header :: "block_header \<Rightarrow> nat \<Rightarrow> index_row option" where
  "IndexRow_from_header h file_offset =
     (if file_offset < 2 ^ 32 then
        Some \<lparr> ir_first_ts = bh_first_ts h, ir_first_offset = bh_first_offset h,
               ir_file_offset = of_nat file_offset, ir_len_c = bh_len_c h, ir_len_u = bh_len_u h,
               ir_records = bh_records h \<rparr>
      else None)"

definition index_header :: bytes where
  "index_header = INDEX_MAGIC @ [FORMAT_VERSION, 0, 0, 0]"

section \<open>Records\<close>

text \<open>\<open>put_record\<close> answers the bytes it appends.\<close>

definition put_record :: "u64 \<Rightarrow> bytes \<Rightarrow> bytes option" where
  "put_record delta body =
     (let tail = put_uvarint delta; len = length tail + length body in
      if len < 2 ^ 32 then Some (to_be_bytes (of_nat len :: u32) @ tail @ body) else None)"

definition get_record :: "(u64 \<times> bytes) reader" where
  "get_record payload =
     (if length payload < 4 then None
      else case from_be_bytes (take 4 payload) :: u32 option of
        None \<Rightarrow> None
      | Some len \<Rightarrow>
          let rest = drop 4 payload; n = unat len in
          if length rest < n then None
          else (case get_uvarint (take n rest) of
            None \<Rightarrow> None
          | Some (delta, body) \<Rightarrow> Some ((delta, body), drop n rest)))"

section \<open>Varints read back\<close>

lemma and_7F: "(v :: 'a :: len word) AND 0x7F = take_bit 7 v"
  by (simp add: take_bit_eq_mask mask_eq_exp_minus_1)

lemma low_byte: "ucast (ucast (v AND 0x7F) :: byte) = (v AND 0x7F :: u64)"
  unfolding and_7F by (intro bit_word_eqI) (auto simp: bit_simps)

lemma bit_80: "bit (0x80 :: byte) n \<longleftrightarrow> n = 7"
proof -
  have "(0x80 :: byte) = push_bit 7 1" by simp
  then show ?thesis by (simp only: bit_push_bit_iff) (auto simp: bit_simps)
qed

lemma low_byte_marks:
  "(ucast (v AND 0x7F :: u64) :: byte) AND 0x80 = 0"
  "((ucast (v AND 0x7F :: u64) :: byte) OR 0x80) AND 0x80 \<noteq> 0"
  "((ucast (v AND 0x7F :: u64) :: byte) OR 0x80) AND 0x7F = ucast (v AND 0x7F)"
  "(ucast (v AND 0x7F :: u64) :: byte) AND 0x7F = ucast (v AND 0x7F)"
proof -
  show "(ucast (v AND 0x7F :: u64) :: byte) AND 0x80 = 0"
    unfolding and_7F by (rule bit_word_eqI, unfold bit_and_iff bit_80) (auto simp: bit_simps)
  have "bit (((ucast (v AND 0x7F :: u64) :: byte) OR 0x80) AND 0x80) 7" by (simp add: bit_simps bit_80)
  then show "((ucast (v AND 0x7F :: u64) :: byte) OR 0x80) AND 0x80 \<noteq> 0" by force
  show "((ucast (v AND 0x7F :: u64) :: byte) OR 0x80) AND 0x7F = ucast (v AND 0x7F)"
    unfolding and_7F by (intro bit_word_eqI) (auto simp: bit_simps bit_80)
  show "(ucast (v AND 0x7F :: u64) :: byte) AND 0x7F = ucast (v AND 0x7F)"
    unfolding and_7F by (intro bit_word_eqI) (auto simp: bit_simps)
qed

lemma uvarint_chunk: "push_bit s (v :: u64) = push_bit s (v AND 0x7F) OR push_bit (s + 7) (drop_bit 7 v)"
proof (rule bit_word_eqI)
  fix n
  show "bit (push_bit s v) n = bit (push_bit s (v AND 0x7F) OR push_bit (s + 7) (drop_bit 7 v)) n"
    unfolding and_7F by (cases "n < s + 7") (auto simp: bit_simps)
qed

lemma uvarint_loop_put:
  "unat v < 2 ^ (64 - s) \<Longrightarrow> s < 64 \<Longrightarrow>
    uvarint_loop acc s (put_uvarint v @ tail) = Some (acc OR push_bit s v, tail)"
proof (induction v arbitrary: s acc rule: put_uvarint.induct)
  case (1 v)
  let ?rest = "drop_bit 7 v"
  show ?case
  proof (cases "?rest = 0")
    case True
    then have "push_bit s v = push_bit s (v AND 0x7F)" using uvarint_chunk [of s v] by simp
    then show ?thesis using True "1.prems" by (simp add: put_uvarint.simps [of v] low_byte_marks low_byte)
  next
    case False
    then have pos: "unat v div 2 ^ 7 \<noteq> 0" using unat_drop_bit_div [of 7 v] by (simp add: word_unat_eq_iff)
    then have big: "2 ^ 7 \<le> unat v" by (simp add: div_eq_0_iff not_less)
    then have s: "s + 7 < 64"
      using "1.prems" power_increasing_iff [of "2 :: nat" "64 - s" 7] by (cases "s + 7 < 64") (force, linarith)
    have "64 - s = 64 - (s + 7) + 7" using s by simp
    then have "(2 :: nat) ^ (64 - s) = 2 ^ (64 - (s + 7)) * 2 ^ 7" by (simp only: power_add)
    then have less: "unat ?rest < 2 ^ (64 - (s + 7))"
      using "1.prems"(1) by (simp add: unat_drop_bit_div less_mult_imp_div_less)
    show ?thesis
      using "1.IH" [OF refl refl False less s] False "1.prems"(2) uvarint_chunk [of s v]
      by (simp add: put_uvarint.simps [of v] low_byte_marks low_byte or.assoc)
  qed
qed

lemma uvarint_loop_local: "uvarint_loop acc s b = Some (x, r) \<Longrightarrow> \<exists>u. b = u @ r \<and> (\<forall>t. uvarint_loop acc s (u @ t) = Some (x, t))"
proof (induction acc s b rule: uvarint_loop.induct)
  case (2 acc s c b)
  show ?case
  proof (cases "c AND 0x80 = 0")
    case True
    then show ?thesis using "2.prems" by (intro exI [of _ "[c]"]) (auto split: if_splits)
  next
    case False
    then obtain u where "b = u @ r" "\<forall>t. uvarint_loop (acc OR push_bit s (ucast (c AND 0x7F))) (s + 7) (u @ t) = Some (x, t)"
      using 2 by (auto split: if_splits)
    then show ?thesis using "2.prems" False by (intro exI [of _ "c # u"]) (auto split: if_splits)
  qed
qed simp

interpretation uvarint: framed put_uvarint get_uvarint "\<lambda>_. True"
proof
  show "get_uvarint (put_uvarint v @ tail) = Some (v, tail)" for v tail
    using uvarint_loop_put [of v 0 0 tail] unsigned_less [of v, where ?'a = nat] by (simp add: get_uvarint_def)
  show "rd_local get_uvarint" unfolding rd_local_def get_uvarint_def using uvarint_loop_local by blast
qed

lemma sign_fill: "signed_drop_bit 63 (v :: u64) = (if bit v 63 then - 1 else 0)"
proof (rule bit_word_eqI)
  fix n assume "n < LENGTH(64)"
  then have n: "n < 64" by simp
  have "bit (signed_drop_bit 63 v) n \<longleftrightarrow> bit v 63"
    using n by (cases "n = 0") (auto simp: bit_signed_drop_bit_iff)
  then show "bit (signed_drop_bit 63 v) n = bit (if bit v 63 then - 1 else 0 :: u64) n"
    using n by (auto simp: bit_minus_1_iff possible_bit_word)
qed

lemma zigzag: "drop_bit 1 (push_bit 1 v XOR signed_drop_bit 63 v) XOR - ((push_bit 1 v XOR signed_drop_bit 63 v) AND 1) = (v :: u64)"
proof -
  define w where "w = push_bit 1 v"
  have w: "bit w n \<longleftrightarrow> 1 \<le> n \<and> n < 64 \<and> bit v (n - 1)" for n
    unfolding w_def by (auto simp only: bit_push_bit_iff) (auto dest: bit_imp_le_length)
  have z: "(w XOR - 1) AND 1 = 1" "(w XOR 0) AND 1 = 0"
    by (intro bit_word_eqI; auto simp: bit_simps w)+
  have "drop_bit 1 (w XOR - 1) XOR - 1 = v" if "bit v 63"
  proof (rule bit_word_eqI)
    fix n assume "n < LENGTH(64)"
    then show "bit (drop_bit 1 (w XOR - 1) XOR - 1) n = bit v n" using that by (cases "n = 63") (auto simp: bit_simps w)
  qed
  moreover have "drop_bit 1 (w XOR 0) XOR - 0 = v" if "\<not> bit v 63"
  proof (rule bit_word_eqI)
    fix n assume "n < LENGTH(64)"
    then show "bit (drop_bit 1 (w XOR 0) XOR - 0) n = bit v n" using that by (cases "n = 63") (auto simp: bit_simps w)
  qed
  ultimately show ?thesis unfolding w_def [symmetric] sign_fill by (cases "bit v 63") (simp_all only: if_True if_False z not_False_eq_True simp_thms)
qed

interpretation svarint: framed put_svarint get_svarint "\<lambda>_. True"
proof
  show "get_svarint (put_svarint v @ tail) = Some (v, tail)" for v tail
    using zigzag [of v] by (simp only: get_svarint_def put_svarint_def rd_bind_def rd_ret_def uvarint.get_put option.case prod.case)
  show "rd_local get_svarint" unfolding get_svarint_def by (intro rd_local_bind uvarint.get_local rd_local_ret)
qed

lemma uvarint_length: "length (put_uvarint v) \<le> 10"
proof -
  have "unat v < 2 ^ (7 * n) \<Longrightarrow> 0 < n \<Longrightarrow> length (put_uvarint v) \<le> n" for n
  proof (induction v arbitrary: n rule: put_uvarint.induct)
    case (1 v)
    obtain k where n: "n = Suc k" using "1.prems"(2) by (cases n) auto
    show ?case
    proof (cases "drop_bit 7 v = 0")
      case True
      then show ?thesis by (simp add: put_uvarint.simps [of v] n)
    next
      case False
      have less: "unat (drop_bit 7 v) < 2 ^ (7 * k)"
        using "1.prems"(1) by (simp add: n unat_drop_bit_div power_add less_mult_imp_div_less mult.commute)
      moreover have "0 < k"
        using less False by (cases k) (auto simp: word_unat_eq_iff)
      ultimately show ?thesis using "1.IH" [OF refl refl False] False by (simp add: put_uvarint.simps [of v] n)
    qed
  qed
  from this [of 10] show ?thesis using unsigned_less [of v, where ?'a = nat] by (simp add: less_le_trans)
qed

section \<open>Headers and records read back\<close>

lemma length_headers [simp]:
  "length (PartHeader_encode h) = 48" "length (BlockHeader_encode bh) = 40" "length (Footer_encode f) = 40"
  "length (IndexRow_encode r) = 32" "length index_header = 8"
  by (simp_all add: PartHeader_encode_def BlockHeader_encode_def Footer_encode_def IndexRow_encode_def index_header_def magics)

lemma part_header_back [simp]: "PartHeader_decode (PartHeader_encode h @ s) = Some h"
  by (simp add: PartHeader_decode_def PartHeader_encode_def magics be_at_def)

lemma block_header_back [simp]: "BlockHeader_decode (BlockHeader_encode h @ s) = Some h"
  by (simp add: BlockHeader_decode_def BlockHeader_encode_def magics be_at_def)

lemma footer_back [simp]: "Footer_decode (Footer_encode h @ s) = Some h"
  by (simp add: Footer_decode_def Footer_encode_def magics be_at_def)

lemma index_row_back [simp]: "IndexRow_decode (IndexRow_encode h @ s) = Some h"
  by (simp add: IndexRow_decode_def IndexRow_encode_def be_at_def)

lemma get_put_record: "put_record d body = Some b \<Longrightarrow> get_record (b @ tail) = Some ((d, body), tail)"
proof -
  assume "put_record d body = Some b"
  then have n: "length (put_uvarint d) + length body < 2 ^ 32"
    and b: "b = to_be_bytes (of_nat (length (put_uvarint d) + length body) :: u32) @ put_uvarint d @ body"
    by (simp_all add: put_record_def Let_def split: if_splits)
  then have "unat (of_nat (length (put_uvarint d) + length body) :: u32) = length (put_uvarint d) + length body"
    by (simp add: unat_of_nat del: of_nat_add)
  then show ?thesis
    by (simp add: b get_record_def Let_def uvarint.get_put del: of_nat_add)
qed

lemma get_record_local: "rd_local get_record"
proof -
  have eq: "get_record = rd_bind (rd_take 4) (\<lambda>h. case from_be_bytes h :: u32 option of None \<Rightarrow> (\<lambda>_. None)
    | Some len \<Rightarrow> rd_bind (rd_take (unat len)) (\<lambda>s. case get_uvarint s of None \<Rightarrow> (\<lambda>_. None)
      | Some (d, body) \<Rightarrow> rd_ret (d, body)))"
    by (rule ext) (simp add: get_record_def rd_bind_def rd_take_def rd_ret_def Let_def split: option.split)
  show ?thesis unfolding eq by (auto intro!: rd_local_bind split: option.split)
qed

interpretation rec_frame: framed "\<lambda>(d, body). the (put_record d body)" get_record "\<lambda>(d, body). put_record d body \<noteq> None"
proof
  show "get_record ((case x of (d, body) \<Rightarrow> the (put_record d body)) @ tail) = Some (x, tail)"
    if "case x of (d, body) \<Rightarrow> put_record d body \<noteq> None" for x tail
    using that by (auto simp: get_put_record)
qed (rule get_record_local)

section \<open>Properties\<close>

text \<open>
  A written record reads back with its time delta and its body before any further bytes, no
  truncation of it is taken for a record (what recovery relies on), and a record whose length
  does not fit 32 bits is refused.
\<close>

theorem series_record_roundtrip:
  assumes "length body + 10 < 2 ^ 32"
  shows "\<exists>b. put_record delta body = Some b \<and> get_record (b @ rest) = Some ((delta, body), rest) \<and>
    (\<forall>n < length b. get_record (take n b) = None)"
proof -
  have "length (put_uvarint delta) \<le> 10" by (rule uvarint_length)
  then obtain b where b: "put_record delta body = Some b" using assms by (simp add: put_record_def Let_def)
  have "get_record (take n b) = None" if "n < length b" for n
    using rec_frame.get_truncated [of "(delta, body)" n] b that by simp
  then show ?thesis using b get_put_record [OF b] by blast
qed

theorem series_record_roundtrip_witness:
  "\<exists>b. put_record 300 [1, 2, 3] = Some b \<and> get_record (b @ [9]) = Some ((300, [1, 2, 3]), [9])"
  using series_record_roundtrip [of "[1, 2, 3]" 300 "[9]"] by auto

end
