(* ===== verification/Okm_Series_Dict.thy ===== *)
theory Okm_Series_Dict
  imports Okm_Series_Format "HOL-Library.AList"
begin

unbundle bit_operations_syntax

text \<open>
  The dictionary of a part and the record bodies that use it (\<open>okm-series/src/dict.rs\<close>,
  \<open>body.rs\<close>).

  The dictionary file is its bytes, \<open>d_tail\<close> the number this handle wrote last to the
  \<open>.dict.tail\<close> file; reads and writes of files succeed. \<open>zstd\<close> and \<open>xxh64\<close> are libraries: the record \<open>zstd\<close> and the argument
  \<open>hash\<close>. A string is its UTF-8 bytes, an \<open>f64\<close> its 64 bits.
\<close>

datatype series_error =
    Io
  | BadFrame string
  | BadMeta string
  | BadPath
  | Codec
  | Overflow
  | TimeBackwards u64 u64
  | MissingPartition u16
  | Locked u32
  | AlreadyOpen
  | ConfigMismatch string

type_synonym 'a sresult = "series_error + 'a"

record zstd =
  z_compress :: "bytes \<Rightarrow> bytes option"
  z_decompress :: "bytes \<Rightarrow> nat \<Rightarrow> bytes option"

text \<open>\<open>seek\<close> and \<open>write_all\<close> on a file.\<close>

definition write_at :: "bytes \<Rightarrow> nat \<Rightarrow> bytes \<Rightarrow> bytes" where
  "write_at f pos b = take pos f @ replicate (pos - length f) 0 @ b @ drop (pos + length b) f"

section \<open>The dictionary\<close>

definition DEFAULT_TIERS :: "(u32 \<times> u32) list" where
  "DEFAULT_TIERS = [(4, 10), (8, 5), (16, 3), (0, 2)]"

definition DEFAULT_BLOCK_ENTRIES :: nat where
  "DEFAULT_BLOCK_ENTRIES = 2 ^ 16"

record dict_config =
  c_tiers :: "(u32 \<times> u32) list"
  c_block_entries :: nat

definition default_dict_config :: dict_config where
  "default_dict_config = \<lparr> c_tiers = DEFAULT_TIERS, c_block_entries = DEFAULT_BLOCK_ENTRIES \<rparr>"

definition DICT_BASE :: byte where "DICT_BASE = 16"
definition COUNT_TRACK_LIMIT :: nat where "COUNT_TRACK_LIMIT = 2 ^ 20"

definition width_of_code :: "byte \<Rightarrow> nat option" where
  "width_of_code c = (if c = 0 then Some 2 else if c = 1 then Some 4 else if c = 2 then Some 8 else None)"

definition code_of :: "nat \<Rightarrow> byte" where
  "code_of block =
     (let index = (if block < 256 then block else 255 - unat DICT_BASE) in
      of_nat (min 255 (unat DICT_BASE + index)))"

record dict_block =
  db_width :: nat
  db_entries :: "bytes list"
  db_file_offset :: nat

record dict =
  d_file :: bytes
  d_tail :: "nat option"
  d_writable :: bool
  d_file_offset :: nat
  d_blocks :: "dict_block list"
  d_open :: nat
  d_counts :: "(u64 \<times> u32) list"
  d_promoted :: "bytes \<rightharpoonup> byte \<times> u64"
  d_tiers :: "(u32 \<times> u32) list"
  d_block_entries :: nat

definition dict_file_header :: bytes where
  "dict_file_header = DICT_FILE_MAGIC @ [FORMAT_VERSION, 0, 0, 0]"

definition Dict_create :: "dict_config \<Rightarrow> dict" where
  "Dict_create config =
     \<lparr> d_file = dict_file_header, d_tail = Some 0, d_writable = True, d_file_offset = DICT_FILE_HEADER_LEN,
       d_blocks = [\<lparr> db_width = 2, db_entries = [], db_file_offset = 0 \<rparr>], d_open = 0, d_counts = [],
       d_promoted = Map.empty, d_tiers = c_tiers config, d_block_entries = max (c_block_entries config) 1 \<rparr>"

definition dict_lookup :: "dict \<Rightarrow> byte \<Rightarrow> u64 \<Rightarrow> bytes option" where
  "dict_lookup d code i =
     (if code < DICT_BASE then None
      else let index = unat (code - DICT_BASE) in
        if index < length (d_blocks d) then
          (let es = db_entries (d_blocks d ! index) in if unat i < length es then Some (es ! unat i) else None)
        else None)"

definition dict_width :: "dict \<Rightarrow> byte \<Rightarrow> nat option" where
  "dict_width d code =
     (if code < DICT_BASE then None
      else let index = unat (code - DICT_BASE) in
        if index < length (d_blocks d) then Some (db_width (d_blocks d ! index)) else None)"

fun tier_threshold :: "nat \<Rightarrow> nat \<Rightarrow> (u32 \<times> u32) list \<Rightarrow> u32 option" where
  "tier_threshold len width [] = None"
| "tier_threshold len width ((multiple, threshold) # tiers) =
     (if multiple = 0 then Some threshold
      else if len \<le> min (2 ^ 64 - 1) (unat multiple * width) then Some threshold
      else tier_threshold len width tiers)"

definition threshold_for :: "nat \<Rightarrow> nat \<Rightarrow> (u32 \<times> u32) list \<Rightarrow> u32 option" where
  "threshold_for len width tiers = (if len \<le> width then None else tier_threshold len width tiers)"

definition entries_payload :: "bytes list \<Rightarrow> bytes" where
  "entries_payload es = concat (map (\<lambda>text. put_uvarint (of_nat (length text)) @ text) es)"

definition pack :: "zstd \<Rightarrow> bytes \<Rightarrow> (block_codec \<times> bytes) option" where
  "pack Z payload = map_option (\<lambda>compressed.
     if length compressed < length payload then (Zstd, compressed) else (Raw, payload)) (z_compress Z payload)"

definition dict_block_header :: "block_codec \<Rightarrow> dict_block \<Rightarrow> nat \<Rightarrow> nat \<Rightarrow> nat \<Rightarrow> bytes" where
  "dict_block_header codec block prev len_c len_u = DICT_BLOCK_MAGIC
     @ [FORMAT_VERSION, codec_code codec, if db_width block = 2 then 0 else if db_width block = 4 then 1 else 2, 0]
     @ to_be_bytes (of_nat (length (db_entries block)) :: u32) @ replicate 4 0
     @ to_be_bytes (of_nat prev :: u64) @ to_be_bytes (of_nat len_c :: u32) @ to_be_bytes (of_nat len_u :: u32)"

definition flush_open_block :: "zstd \<Rightarrow> dict \<Rightarrow> unit sresult \<times> dict" where
  "flush_open_block Z d =
     (if length (d_blocks d) \<le> d_open d \<or> db_entries (d_blocks d ! d_open d) = [] then (Inr (), d)
      else let block = d_blocks d ! d_open d; payload = entries_payload (db_entries block) in
        case pack Z payload of
          None \<Rightarrow> (Inl Codec, d)
        | Some (codec, b) \<Rightarrow>
            if \<not> d_writable d then (Inl BadPath, d)
            else let prev = (if d_open d = 0 then 0 else db_file_offset (d_blocks d ! (d_open d - 1)));
                     pos = d_file_offset d;
                     file = write_at (d_file d) pos (dict_block_header codec block prev (length b) (length payload));
                     file = write_at file (pos + DICT_BLOCK_HEADER_LEN) b in
              (Inr (), d \<lparr> d_file := file, d_file_offset := pos + DICT_BLOCK_HEADER_LEN + length b,
                 d_blocks := (d_blocks d)[d_open d := block \<lparr> db_file_offset := pos \<rparr>], d_tail := Some pos \<rparr>))"

definition push_block :: "nat \<Rightarrow> dict \<Rightarrow> dict" where
  "push_block width d = d \<lparr> d_blocks := d_blocks d @ [\<lparr> db_width = width, db_entries = [], db_file_offset = 0 \<rparr>],
     d_open := length (d_blocks d) \<rparr>"

definition close_block :: "zstd \<Rightarrow> dict \<Rightarrow> dict" where
  "close_block Z d =
     (case flush_open_block Z d of
        (Inl _, d) \<Rightarrow> d
      | (Inr _, d) \<Rightarrow>
          let w = db_width (d_blocks d ! d_open d) in push_block (if w * 2 < 2 ^ 64 then w * 2 else w) d)"

definition promote :: "zstd \<Rightarrow> bytes \<Rightarrow> dict \<Rightarrow> (byte \<times> u64) \<times> dict" where
  "promote Z text d =
     (let d = (if d_block_entries d \<le> length (db_entries (d_blocks d ! d_open d)) then close_block Z d else d);
          block = d_blocks d ! d_open d;
          i = of_nat (length (db_entries block));
          d = d \<lparr> d_blocks := (d_blocks d)[d_open d := block \<lparr> db_entries := db_entries block @ [text] \<rparr>] \<rparr>;
          code = code_of (d_open d) in
      ((code, i), d \<lparr> d_promoted := (d_promoted d)(text \<mapsto> (code, i)) \<rparr>))"

definition settle :: "zstd \<Rightarrow> (bytes \<Rightarrow> u64) \<Rightarrow> bytes \<Rightarrow> dict \<Rightarrow> (byte \<times> u64) option \<times> dict" where
  "settle Z hash text d =
     (case d_promoted d text of
        Some c \<Rightarrow> (Some c, d)
      | None \<Rightarrow>
          let key = hash text;
              (count, counts) = (case map_of (d_counts d) key of
                  Some n \<Rightarrow> (n + 1, AList.update key (n + 1) (d_counts d))
                | None \<Rightarrow> (1, if length (d_counts d) < COUNT_TRACK_LIMIT then AList.update key 1 (d_counts d) else d_counts d));
              d = d \<lparr> d_counts := counts \<rparr> in
          if length (d_blocks d) \<le> d_open d then (None, d)
          else case threshold_for (length text) (db_width (d_blocks d ! d_open d)) (d_tiers d) of
              None \<Rightarrow> (None, d)
            | Some threshold \<Rightarrow>
                if count < threshold then (None, d)
                else map_prod Some id (promote Z text (d \<lparr> d_counts := AList.delete key (d_counts d) \<rparr>)))"

definition flush_if_dirty :: "zstd \<Rightarrow> dict \<Rightarrow> unit sresult \<times> dict" where
  "flush_if_dirty Z d =
     (if db_entries (d_blocks d ! d_open d) = [] then (Inr (), d)
      else case flush_open_block Z d of
          (Inl e, d) \<Rightarrow> (Inl e, d)
        | (Inr _, d) \<Rightarrow> (Inr (), push_block (db_width (d_blocks d ! d_open d)) d))"

section \<open>Loading\<close>

fun read_entries :: "nat \<Rightarrow> bytes \<Rightarrow> bytes list" where
  "read_entries 0 p = []"
| "read_entries (Suc n) p =
     (if p = [] then []
      else case get_uvarint p of
          None \<Rightarrow> []
        | Some (len, rest) \<Rightarrow>
            if length rest < unat len then []
            else (case from_utf8 (take (unat len) rest) of
                None \<Rightarrow> []
              | Some text \<Rightarrow> text # read_entries n (drop (unat len) rest)))"

definition unpack :: "zstd \<Rightarrow> block_codec \<Rightarrow> bytes \<Rightarrow> nat \<Rightarrow> bytes option" where
  "unpack Z codec b len = (case codec of Raw \<Rightarrow> Some b | Zstd \<Rightarrow> z_decompress Z b len)"

definition read_block :: "zstd \<Rightarrow> bytes \<Rightarrow> nat \<Rightarrow> (dict_block \<times> nat) option" where
  "read_block Z f pos =
     (let h = take DICT_BLOCK_HEADER_LEN (drop pos f) in
      if length h < DICT_BLOCK_HEADER_LEN \<or> take 4 h \<noteq> DICT_BLOCK_MAGIC then None
      else let codec = (case codec_from_code (h ! 5) of None \<Rightarrow> Raw | Some c \<Rightarrow> c) in do {
        width \<leftarrow> width_of_code (h ! 6);
        count \<leftarrow> be_at h 8 12;
        len_c \<leftarrow> be_at h 24 28;
        len_u \<leftarrow> be_at h 28 32;
        let b = take (unat (len_c :: u32)) (drop (pos + DICT_BLOCK_HEADER_LEN) f);
        if length b < unat len_c then None
        else do {
          payload \<leftarrow> unpack Z codec b (unat (len_u :: u32));
          if length payload \<noteq> unat len_u then None
          else Some (\<lparr> db_width = width, db_entries = read_entries (unat (count :: u32)) payload, db_file_offset = pos \<rparr>,
            pos + DICT_BLOCK_HEADER_LEN + unat len_c)
        }
      })"

lemma read_block_next: "read_block Z f pos = Some (b, next) \<Longrightarrow> pos + DICT_BLOCK_HEADER_LEN \<le> next"
  by (auto simp: read_block_def Let_def bind_eq_Some_conv split: if_splits)

function load_blocks :: "zstd \<Rightarrow> bytes \<Rightarrow> nat \<Rightarrow> nat \<Rightarrow> dict_block list \<times> nat" where
  "load_blocks Z f cursor file_offset =
     (if length f < cursor + DICT_BLOCK_HEADER_LEN then ([], file_offset)
      else case read_block Z f cursor of
          None \<Rightarrow> ([], file_offset)
        | Some (block, next) \<Rightarrow> map_prod (\<lambda>bs. block # bs) id (load_blocks Z f next next))"
  by pat_completeness auto

termination
  by (relation "measure (\<lambda>(Z, f, cursor, off). length f - cursor)") (auto dest!: read_block_next)

declare load_blocks.simps [simp del]

text \<open>The ids of the loaded blocks, a later block winning.\<close>

definition promoted_of :: "dict_block list \<Rightarrow> bytes \<rightharpoonup> byte \<times> u64" where
  "promoted_of blocks = map_of (rev (concat (map (\<lambda>(index, block).
     map (\<lambda>(i, text). (text, (code_of index, of_nat i))) (enumerate 0 (db_entries block))) (enumerate 0 blocks))))"

definition Dict_load :: "zstd \<Rightarrow> dict_config \<Rightarrow> bytes option \<Rightarrow> dict" where
  "Dict_load Z config file =
     (let f = (case file of None \<Rightarrow> [] | Some f \<Rightarrow> f);
          (blocks, file_offset) = (if DICT_FILE_HEADER_LEN \<le> length f \<and> take 4 f = DICT_FILE_MAGIC
            then load_blocks Z f DICT_FILE_HEADER_LEN 0 else ([], 0)) in
      \<lparr> d_file = f, d_tail = None, d_writable = False, d_file_offset = file_offset, d_blocks = blocks, d_open = 0,
        d_counts = [], d_promoted = promoted_of blocks, d_tiers = c_tiers config,
        d_block_entries = max (c_block_entries config) 1 \<rparr>)"

definition Dict_adopt :: "zstd \<Rightarrow> dict_config \<Rightarrow> bytes option \<Rightarrow> dict sresult" where
  "Dict_adopt Z config file =
     (case file of
        None \<Rightarrow> Inl Io
      | Some f \<Rightarrow>
          let d = Dict_load Z config file;
              width = (if d_blocks d = [] then 2 else db_width (last (d_blocks d))) in
          Inr (push_block width (d \<lparr> d_writable := True \<rparr>)))"

section \<open>Bodies\<close>

datatype log_value =
    VBytes bytes
  | VStr bytes
  | VU64 u64
  | VI64 u64
  | VF64 u64

type_synonym body = "(u16 \<times> log_value) list"

definition KIND_BYTES :: byte where "KIND_BYTES = 0"
definition KIND_STR :: byte where "KIND_STR = 1"
definition KIND_U64 :: byte where "KIND_U64 = 2"
definition KIND_I64 :: byte where "KIND_I64 = 3"
definition KIND_F64 :: byte where "KIND_F64 = 4"

lemmas kinds = KIND_BYTES_def KIND_STR_def KIND_U64_def KIND_I64_def KIND_F64_def DICT_BASE_def

definition body_get :: "body \<Rightarrow> u16 \<Rightarrow> log_value option" where
  "body_get items tag = map_option snd (find (\<lambda>(t, _). t = tag) items)"

fun as_str :: "log_value \<Rightarrow> bytes option" where
  "as_str (VStr s) = Some s"
| "as_str _ = None"

fun as_u64 :: "log_value \<Rightarrow> u64 option" where
  "as_u64 (VU64 v) = Some v"
| "as_u64 _ = None"

fun as_i64 :: "log_value \<Rightarrow> u64 option" where
  "as_i64 (VI64 v) = Some v"
| "as_i64 _ = None"

fun as_f64 :: "log_value \<Rightarrow> u64 option" where
  "as_f64 (VF64 v) = Some v"
| "as_f64 _ = None"

fun as_bytes :: "log_value \<Rightarrow> bytes option" where
  "as_bytes (VBytes b) = Some b"
| "as_bytes _ = None"

text \<open>One value; the result \<open>None\<close> is the panic of a code wider than eight bytes.\<close>

fun encode_log_value :: "zstd \<Rightarrow> (bytes \<Rightarrow> u64) \<Rightarrow> log_value \<Rightarrow> dict option \<Rightarrow> (bytes \<times> dict option) option" where
  "encode_log_value Z hash (VBytes b) d = Some (KIND_BYTES # put_uvarint (of_nat (length b)) @ b, d)"
| "encode_log_value Z hash (VStr text) d =
     (let (settled, d) = (case d of Some d \<Rightarrow> map_prod id Some (settle Z hash text d) | None \<Rightarrow> (None, None)) in
      case settled of
        None \<Rightarrow> Some (KIND_STR # put_uvarint (of_nat (length text)) @ text, d)
      | Some (code, i) \<Rightarrow>
          let width = (case Option.bind d (\<lambda>d. dict_width d code) of Some w \<Rightarrow> w | None \<Rightarrow> 4) in
          if 8 < width then None else Some (code # drop (8 - width) (to_be_bytes i), d))"
| "encode_log_value Z hash (VU64 v) d = Some (KIND_U64 # put_uvarint v, d)"
| "encode_log_value Z hash (VI64 v) d = Some (KIND_I64 # put_svarint v, d)"
| "encode_log_value Z hash (VF64 v) d = Some (KIND_F64 # to_be_bytes v, d)"

fun encode_with :: "zstd \<Rightarrow> (bytes \<Rightarrow> u64) \<Rightarrow> body \<Rightarrow> dict option \<Rightarrow> (bytes \<times> dict option) option" where
  "encode_with Z hash [] d = Some ([], d)"
| "encode_with Z hash ((tag, value) # items) d =
     (case encode_log_value Z hash value d of
        None \<Rightarrow> None
      | Some (b, d) \<Rightarrow> map_option (map_prod (\<lambda>bs. put_uvarint (ucast tag) @ b @ bs) id) (encode_with Z hash items d))"

definition get_blob_u :: "bytes reader" where
  "get_blob_u = rd_bind get_uvarint (\<lambda>len. rd_take (unat len))"

text \<open>The bytes of a code, most significant first; release shifts mask their amount.\<close>

definition code_id :: "bytes \<Rightarrow> u64" where
  "code_id raw = fold (\<lambda>(i, b) acc. acc OR push_bit ((8 * (length raw - 1 - i)) mod 64) (ucast b)) (enumerate 0 raw) 0"

definition decode_log_value :: "dict option \<Rightarrow> byte \<Rightarrow> log_value reader" where
  "decode_log_value d kind =
     (if kind = KIND_BYTES then rd_bind get_blob_u (\<lambda>b. rd_ret (VBytes b))
      else if kind = KIND_STR then rd_bind get_blob_u (\<lambda>b. case from_utf8 b of None \<Rightarrow> (\<lambda>_. None) | Some s \<Rightarrow> rd_ret (VStr s))
      else if kind = KIND_U64 then rd_bind get_uvarint (\<lambda>v. rd_ret (VU64 v))
      else if kind = KIND_I64 then rd_bind get_svarint (\<lambda>v. rd_ret (VI64 v))
      else if DICT_BASE \<le> kind then
        (case d of
           None \<Rightarrow> (\<lambda>_. None)
         | Some d \<Rightarrow>
             (case dict_width d kind of
                None \<Rightarrow> (\<lambda>_. None)
              | Some width \<Rightarrow> rd_bind (rd_take width) (\<lambda>raw. case dict_lookup d kind (code_id raw) of
                    None \<Rightarrow> (\<lambda>_. None)
                  | Some s \<Rightarrow> rd_ret (VStr s))))
      else if kind = KIND_F64 then rd_bind (rd_take 8) (\<lambda>raw. case from_be_bytes raw of
          None \<Rightarrow> (\<lambda>_. None) | Some v \<Rightarrow> rd_ret (VF64 v))
      else (\<lambda>_. None))"

definition decode_item :: "dict option \<Rightarrow> (u16 \<times> log_value) reader" where
  "decode_item d = rd_bind get_uvarint (\<lambda>tag.
     if unat tag < 2 ^ 16 then rd_bind rd_byte (\<lambda>kind. rd_bind (decode_log_value d kind) (\<lambda>v. rd_ret (ucast tag, v)))
     else (\<lambda>_. None))"

lemma get_uvarint_shorter: "get_uvarint b = Some (v, r) \<Longrightarrow> length r < length b"
proof -
  have "uvarint_loop acc s b = Some (v, r) \<Longrightarrow> length r < length b" for acc s
    by (induction acc s b rule: uvarint_loop.induct) (force simp: Let_def split: if_splits)+
  then show "get_uvarint b = Some (v, r) \<Longrightarrow> length r < length b" by (simp add: get_uvarint_def)
qed

lemma rd_local_shorter: "rd_local g \<Longrightarrow> g b = Some (x, r) \<Longrightarrow> length r \<le> length b"
  by (auto dest: rd_localD)

lemma get_svarint_local [simp]: "rd_local get_svarint" by (rule svarint.get_local)
lemma get_uvarint_local [simp]: "rd_local get_uvarint" by (rule uvarint.get_local)

lemma get_blob_u_local [simp]: "rd_local get_blob_u"
  unfolding get_blob_u_def by (intro rd_local_bind) auto

lemma decode_log_value_local: "rd_local (decode_log_value d kind)"
  unfolding decode_log_value_def by (auto intro!: rd_local_bind split: option.split)

lemma decode_item_shorter: "decode_item d b = Some (x, r) \<Longrightarrow> length r < length b"
proof -
  assume "decode_item d b = Some (x, r)"
  then obtain tag r1 where "get_uvarint b = Some (tag, r1)" "rd_bind rd_byte (\<lambda>kind. rd_bind (decode_log_value d kind) (\<lambda>v. rd_ret (ucast tag, v))) r1 = Some (x, r)"
    by (auto simp: decode_item_def rd_bind_def [of get_uvarint] split: option.splits if_splits)
  moreover have "rd_local (rd_bind rd_byte (\<lambda>kind. rd_bind (decode_log_value d kind) (\<lambda>v. rd_ret (ucast tag, v))))"
    by (intro rd_local_bind rd_local_byte decode_log_value_local rd_local_ret)
  ultimately show ?thesis using get_uvarint_shorter rd_local_shorter by fastforce
qed

function decode_with :: "dict option \<Rightarrow> bytes \<Rightarrow> body option" where
  "decode_with d b =
     (if b = [] then Some []
      else case decode_item d b of
          None \<Rightarrow> None
        | Some (x, rest) \<Rightarrow> map_option (\<lambda>xs. x # xs) (decode_with d rest))"
  by pat_completeness auto

termination
  by (relation "measure (\<lambda>(d, b). length b)") (auto dest: decode_item_shorter)

declare decode_with.simps [simp del]

section \<open>Codes stay readable\<close>

definition dict_ok :: "dict \<Rightarrow> bool" where
  "dict_ok d \<longleftrightarrow> d_open d < length (d_blocks d) \<and>
     (\<forall>text code i. d_promoted d text = Some (code, i) \<longrightarrow> dict_lookup d code i = Some text \<and>
        (\<exists>w. dict_width d code = Some w \<and> w \<le> 8 \<and> unat i < 256 ^ w))"

text \<open>What a code of \<open>d\<close> means, it means in \<open>d'\<close>.\<close>

definition dict_le :: "dict \<Rightarrow> dict \<Rightarrow> bool" where
  "dict_le d d' \<longleftrightarrow> (\<forall>code i s. dict_lookup d code i = Some s \<longrightarrow>
     dict_lookup d' code i = Some s \<and> dict_width d' code = dict_width d code)"

lemma dict_le_refl [simp]: "dict_le d d" by (simp add: dict_le_def)
lemma dict_le_trans: "dict_le a b \<Longrightarrow> dict_le b c \<Longrightarrow> dict_le a c" unfolding dict_le_def by metis

text \<open>A step that keeps the codes and whose new ids resolve keeps the dictionary consistent.\<close>

lemma dict_ok_step:
  assumes "dict_ok d" "dict_le d e" "d_open e < length (d_blocks e)"
    and "\<And>s code i. d_promoted e s = Some (code, i) \<Longrightarrow> d_promoted d s = Some (code, i) \<or>
      (dict_lookup e code i = Some s \<and> (\<exists>w. dict_width e code = Some w \<and> w \<le> 8 \<and> unat i < 256 ^ w))"
  shows "dict_ok e"
  unfolding dict_ok_def
proof (intro conjI allI impI)
  fix s code i assume e: "d_promoted e s = Some (code, i)"
  have old: "dict_lookup e code i = Some s \<and> (\<exists>w. dict_width e code = Some w \<and> w \<le> 8 \<and> unat i < 256 ^ w)"
    if "d_promoted d s = Some (code, i)"
  proof -
    have "dict_lookup d code i = Some s" "\<exists>w. dict_width d code = Some w \<and> w \<le> 8 \<and> unat i < 256 ^ w"
      using assms(1) that unfolding dict_ok_def by blast+
    then show ?thesis using assms(2) unfolding dict_le_def by metis
  qed
  then show "dict_lookup e code i = Some s" "\<exists>w. dict_width e code = Some w \<and> w \<le> 8 \<and> unat i < 256 ^ w"
    using assms(4) [OF e] by blast+
qed (rule assms(3))

text \<open>
  Room for \<open>n\<close> more strings of \<open>m\<close> encoded bytes in the open block, whose number fits its kind
  byte.
\<close>

definition dict_room :: "nat \<Rightarrow> nat \<Rightarrow> dict \<Rightarrow> bool" where
  "dict_room n m d \<longleftrightarrow> d_open d < 240 \<and> (let b = d_blocks d ! d_open d in
     db_width b \<in> {2, 4, 8} \<and> length (db_entries b) + n \<le> d_block_entries d \<and> length (db_entries b) + n \<le> 256 ^ db_width b \<and>
     list_all utf8_valid (db_entries b) \<and> length (entries_payload (db_entries b)) + m < 2 ^ 32)"

text \<open>Nothing but the open block changes.\<close>

definition same_chain :: "dict \<Rightarrow> dict \<Rightarrow> bool" where
  "same_chain d d' \<longleftrightarrow> d_file d' = d_file d \<and> d_file_offset d' = d_file_offset d \<and> d_writable d' = d_writable d \<and>
     d_open d' = d_open d \<and> length (d_blocks d') = length (d_blocks d) \<and> take (d_open d) (d_blocks d') = take (d_open d) (d_blocks d)"

lemma same_chain_refl [simp]: "same_chain d d" by (simp add: same_chain_def)
lemma same_chain_trans: "same_chain a b \<Longrightarrow> same_chain b c \<Longrightarrow> same_chain a c" by (simp add: same_chain_def)

lemma code_of_small: "n < 240 \<Longrightarrow> DICT_BASE \<le> code_of n \<and> unat (code_of n - DICT_BASE) = n"
proof -
  assume n: "n < 240"
  then have c: "unat (code_of n) = 16 + n"
    by (simp add: code_of_def DICT_BASE_def unat_of_nat del: of_nat_add)
  then have "DICT_BASE \<le> code_of n" by (simp add: word_le_nat_alt DICT_BASE_def)
  then show ?thesis using c by (simp add: unat_sub DICT_BASE_def)
qed

lemma dict_reads: "dict_lookup (d \<lparr> d_counts := cs \<rparr>) = dict_lookup d" "dict_width (d \<lparr> d_counts := cs \<rparr>) = dict_width d"
    "dict_lookup (d \<lparr> d_promoted := ps \<rparr>) = dict_lookup d" "dict_width (d \<lparr> d_promoted := ps \<rparr>) = dict_width d"
  by (simp_all add: dict_lookup_def dict_width_def fun_eq_iff Let_def)

lemma dict_add_entry:
  assumes "d_open d < length (d_blocks d)"
  defines "b \<equiv> d_blocks d ! d_open d"
  shows "dict_le d (d \<lparr> d_blocks := (d_blocks d)[d_open d := b \<lparr> db_entries := db_entries b @ [text] \<rparr>] \<rparr>)"
  using assms by (auto simp: dict_le_def dict_lookup_def dict_width_def Let_def nth_list_update nth_append split: if_splits)

lemma promote_ok:
  assumes "dict_ok d" "dict_room (Suc n) (length s + 10 + m) d" "utf8_valid s"
  shows "\<exists>code i d'. promote Z s d = ((code, i), d') \<and> dict_ok d' \<and> dict_le d d' \<and> dict_room n m d' \<and>
    d_promoted d' s = Some (code, i) \<and> same_chain d d'"
proof -
  let ?b = "d_blocks d ! d_open d"
  let ?i = "of_nat (length (db_entries ?b)) :: u64"
  let ?d = "d \<lparr> d_blocks := (d_blocks d)[d_open d := ?b \<lparr> db_entries := db_entries ?b @ [s] \<rparr>] \<rparr>"
  let ?code = "code_of (d_open d)"
  let ?d' = "?d \<lparr> d_promoted := (d_promoted ?d)(s \<mapsto> (?code, ?i)) \<rparr>"
  have op: "d_open d < length (d_blocks d)" using assms(1) by (simp add: dict_ok_def)
  have room: "length (db_entries ?b) < d_block_entries d" "d_open d < 240" "db_width ?b \<le> 8"
    "length (db_entries ?b) < 256 ^ db_width ?b"
    using assms(2) by (auto simp: dict_room_def Let_def)
  have run: "promote Z s d = ((?code, ?i), ?d')" using room(1) by (simp add: promote_def Let_def)
  have le: "dict_le d ?d" by (rule dict_add_entry [OF op])
  have "(256 :: nat) ^ db_width ?b \<le> 256 ^ 8" using room(3) by (intro power_increasing) simp_all
  then have i: "unat ?i = length (db_entries ?b)" using room(4) by (simp add: unat_of_nat)
  have new: "dict_lookup ?d ?code ?i = Some s" "dict_width ?d ?code = Some (db_width ?b)"
    using code_of_small [OF room(2)] op by (simp_all add: dict_lookup_def dict_width_def Let_def i linorder_not_less)
  have le': "dict_le d ?d'" using le by (simp add: dict_le_def dict_reads)
  moreover have "dict_ok ?d'"
    by (rule dict_ok_step [OF assms(1) le']) (use new room(3,4) i op in \<open>auto simp: dict_reads split: if_splits\<close>)
  moreover have "dict_room n m ?d'"
    using assms(2,3) op uvarint_length [of "of_nat (length s)"] by (auto simp: dict_room_def Let_def entries_payload_def)
  moreover have "same_chain d ?d'" by (simp add: same_chain_def)
  ultimately show ?thesis using run by simp
qed

lemma settle_ok:
  assumes "dict_ok d" "dict_room (Suc n) (length s + 10 + m) d" "utf8_valid s"
  shows "\<exists>r d'. settle Z hash s d = (r, d') \<and> dict_ok d' \<and> dict_le d d' \<and> dict_room n m d' \<and>
    (\<forall>c. r = Some c \<longrightarrow> d_promoted d' s = Some c) \<and> same_chain d d'"
proof -
  have counts: "dict_ok (d \<lparr> d_counts := cs \<rparr>)" "dict_room (Suc n) (length s + 10 + m) (d \<lparr> d_counts := cs \<rparr>)" for cs
    using assms by (simp_all add: dict_ok_def dict_room_def dict_reads)
  have weaker: "dict_room n m d'" if "dict_room (Suc n) (length s + 10 + m) d'" for d' using that by (auto simp: dict_room_def Let_def)
  have le: "dict_le d (d \<lparr> d_counts := cs \<rparr>)" for cs by (simp add: dict_le_def dict_reads)
  show ?thesis
  proof (cases "d_promoted d s")
    case (Some c)
    then show ?thesis using assms weaker by (simp add: settle_def)
  next
    case None
    have run: "\<exists>r d'. (if length (d_blocks d) \<le> d_open d then (None, d \<lparr> d_counts := cs \<rparr>)
        else case threshold_for (length s) (db_width (d_blocks d ! d_open d)) (d_tiers d) of
          None \<Rightarrow> (None, d \<lparr> d_counts := cs \<rparr>)
        | Some threshold \<Rightarrow>
            if count < threshold then (None, d \<lparr> d_counts := cs \<rparr>)
            else map_prod Some id (promote Z s (d \<lparr> d_counts := AList.delete (hash s) cs \<rparr>))) = (r, d') \<and>
        dict_ok d' \<and> dict_le d d' \<and> dict_room n m d' \<and> (\<forall>c. r = Some c \<longrightarrow> d_promoted d' s = Some c) \<and> same_chain d d'" for count cs
    proof -
      let ?e = "d \<lparr> d_counts := AList.delete (hash s) cs \<rparr>"
      obtain code i d' where "promote Z s ?e = ((code, i), d')" "dict_ok d'" "dict_le ?e d'" "dict_room n m d'"
        "d_promoted d' s = Some (code, i)" "same_chain ?e d'"
        using promote_ok [OF counts assms(3)] by blast
      then show ?thesis using counts weaker le dict_le_trans [OF le] by (auto simp: same_chain_def split: option.split)
    qed
    obtain count cs where cs: "(case map_of (d_counts d) (hash s) of
        Some n \<Rightarrow> (n + 1, AList.update (hash s) (n + 1) (d_counts d))
      | None \<Rightarrow> (1, if length (d_counts d) < COUNT_TRACK_LIMIT then AList.update (hash s) 1 (d_counts d) else d_counts d)) =
        (count :: u32, cs)" by force
    have upd: "d \<lparr> d_counts := a, d_counts := b \<rparr> = d \<lparr> d_counts := b \<rparr>" "d_counts (d \<lparr> d_counts := a \<rparr>) = a"
      "d_blocks (d \<lparr> d_counts := a \<rparr>) = d_blocks d" "d_open (d \<lparr> d_counts := a \<rparr>) = d_open d"
      "d_tiers (d \<lparr> d_counts := a \<rparr>) = d_tiers d" for a b by simp_all
    show ?thesis unfolding settle_def None option.case Let_def cs prod.case upd by (rule run)
  qed
qed

section \<open>Bodies read back\<close>

lemma code_id_val: "length raw \<le> 8 \<Longrightarrow> code_id raw = of_nat (be_val raw)"
proof -
  have "fold (\<lambda>(i, b) acc. acc OR push_bit ((8 * (L - 1 - i)) mod 64) (ucast b)) (enumerate k ys) acc
      = acc OR (of_nat (be_val ys) :: u64)" if "L = k + length ys" "L \<le> 8" for L k ys acc
    using that
  proof (induction ys arbitrary: k acc)
    case (Cons b ys)
    let ?n = "length ys" and ?lo = "of_nat (be_val ys) :: u64"
    have s: "(8 * (L - 1 - k)) mod 64 = 8 * ?n" using Cons.prems by simp
    have lo: "be_val ys < 2 ^ (8 * ?n)" using be_val_less [of ys] by (simp add: power_mult)
    have "\<not> bit ?lo m" if "8 * ?n \<le> m" for m
    proof -
      have "be_val ys < 2 ^ m" using lo that by (meson less_le_trans one_le_numeral power_increasing)
      then have "\<not> bit (be_val ys) m" by (metis bit_iff_odd div_less even_zero)
      then show ?thesis by (simp add: bit_simps)
    qed
    then have "push_bit (8 * ?n) (ucast b) AND ?lo = 0"
      by (intro bit_word_eqI) (metis bit_0_eq bit_and_iff bit_push_bit_iff bot_apply bot_bool_def linorder_not_le)
    then have "push_bit (8 * ?n) (ucast b) OR ?lo = push_bit (8 * ?n) (ucast b) + ?lo"
      by (simp add: disjunctive_add_eq_or)
    also have "\<dots> = of_nat (be_val (b # ys))"
      using of_nat_unat [of b, where ?'a = u64] by (simp add: push_bit_eq_mult power_mult)
    finally show ?case using Cons.IH [of "Suc k" "acc OR push_bit (8 * ?n) (ucast b)"] Cons.prems s
      by (simp add: or.assoc)
  qed simp
  from this [of "length raw" 0 raw 0] show "length raw \<le> 8 \<Longrightarrow> code_id raw = of_nat (be_val raw)"
    by (simp add: code_id_def)
qed

lemma code_id_back: "w \<le> 8 \<Longrightarrow> unat i < 256 ^ w \<Longrightarrow> code_id (drop (8 - w) (to_be_bytes (i :: u64))) = i"
  by (simp add: code_id_val to_be_bytes_def)

fun log_value_ok :: "log_value \<Rightarrow> bool" where
  "log_value_ok (VBytes b) \<longleftrightarrow> length b < 2 ^ 64"
| "log_value_ok (VStr s) \<longleftrightarrow> length s < 2 ^ 64 \<and> utf8_valid s"
| "log_value_ok v \<longleftrightarrow> True"

definition body_ok :: "body \<Rightarrow> bool" where
  "body_ok items \<longleftrightarrow> (\<forall>(tag, v) \<in> set items. log_value_ok v)"

lemma get_blob_u_put: "length b < 2 ^ 64 \<Longrightarrow> get_blob_u (put_uvarint (of_nat (length b)) @ b @ tail) = Some (b, tail)"
  by (simp add: get_blob_u_def rd_bind_def uvarint.get_put unat_of_nat)

lemma kinds_distinct [simp]:
  "KIND_STR \<noteq> KIND_BYTES" "KIND_U64 \<noteq> KIND_BYTES" "KIND_U64 \<noteq> KIND_STR" "KIND_I64 \<noteq> KIND_BYTES" "KIND_I64 \<noteq> KIND_STR"
  "KIND_I64 \<noteq> KIND_U64" "KIND_F64 \<noteq> KIND_BYTES" "KIND_F64 \<noteq> KIND_STR" "KIND_F64 \<noteq> KIND_U64" "KIND_F64 \<noteq> KIND_I64"
  "\<not> DICT_BASE \<le> KIND_F64"
  by (simp_all add: kinds)

lemma code_not_kind: "DICT_BASE \<le> c \<Longrightarrow> c \<noteq> KIND_BYTES \<and> c \<noteq> KIND_STR \<and> c \<noteq> KIND_U64 \<and> c \<noteq> KIND_I64"
  by (auto simp: kinds word_le_nat_alt)

lemma inline_back:
  "log_value_ok (VBytes b) \<Longrightarrow> decode_log_value D KIND_BYTES (put_uvarint (of_nat (length b)) @ b @ t) = Some (VBytes b, t)"
  "log_value_ok (VStr s) \<Longrightarrow> decode_log_value D KIND_STR (put_uvarint (of_nat (length s)) @ s @ t) = Some (VStr s, t)"
  "decode_log_value D KIND_U64 (put_uvarint v @ t) = Some (VU64 v, t)"
  "decode_log_value D KIND_I64 (put_svarint v @ t) = Some (VI64 v, t)"
  "decode_log_value D KIND_F64 (to_be_bytes v @ t) = Some (VF64 v, t)"
  by (simp_all add: decode_log_value_def rd_bind_def rd_ret_def get_blob_u_put uvarint.get_put svarint.get_put from_utf8_def)

text \<open>\<open>strings v\<close> counts the strings a value may promote.\<close>

fun strings :: "log_value \<Rightarrow> nat" where
  "strings (VStr s) = 1"
| "strings v = 0"

fun string_bytes :: "log_value \<Rightarrow> nat" where
  "string_bytes (VStr s) = length s + 10"
| "string_bytes v = 0"

lemma encode_value_back:
  assumes "dict_ok d" "dict_room (strings v + n) (string_bytes v + m) d" "log_value_ok v"
  shows "\<exists>b d'. encode_log_value Z hash v (Some d) = Some (b, Some d') \<and> dict_ok d' \<and> dict_le d d' \<and> dict_room n m d' \<and> same_chain d d' \<and>
    (\<forall>D t. dict_le d' D \<longrightarrow> (\<exists>kind r. b @ t = kind # r \<and> decode_log_value (Some D) kind r = Some (v, t)))"
proof (cases v)
  case (VStr s)
  obtain r d' where r: "settle Z hash s d = (r, d')" "dict_ok d'" "dict_le d d'" "dict_room n m d'" "same_chain d d'"
      "\<forall>c. r = Some c \<longrightarrow> d_promoted d' s = Some c"
    using settle_ok [OF assms(1), of n s m Z hash] assms(2,3) VStr by auto
  show ?thesis
  proof (cases r)
    case None
    then show ?thesis using r VStr assms(3) inline_back(2) by (auto simp: Let_def)
  next
    case (Some c)
    obtain code i where c: "c = (code, i)" by (cases c)
    then obtain w where w: "dict_lookup d' code i = Some s" "dict_width d' code = Some w" "w \<le> 8" "unat i < 256 ^ w"
      using r(2,6) Some unfolding dict_ok_def by blast
    have base: "DICT_BASE \<le> code" using w(2) by (auto simp: dict_width_def split: if_splits)
    have "decode_log_value (Some D) code (drop (8 - w) (to_be_bytes i) @ t) = Some (VStr s, t)" if "dict_le d' D" for D t
    proof -
      have D: "dict_width D code = Some w" "dict_lookup D code i = Some s" using that w(1,2) by (auto simp: dict_le_def)
      have "rd_take w (drop (8 - w) (to_be_bytes i) @ t) = Some (drop (8 - w) (to_be_bytes i), t)"
        using w(3) by (intro rd_take_append) simp
      then show ?thesis using code_not_kind [OF base] base D code_id_back [OF w(3,4)]
        by (simp add: decode_log_value_def rd_bind_def rd_ret_def)
    qed
    then show ?thesis using r(1-5) VStr Some c w(2,3) by (simp add: Let_def)
  qed
qed (use assms inline_back in auto)

text \<open>
  Every body whose strings find room in the open block is written, and whatever becomes of the
  dictionary later it decodes to itself.
\<close>

lemma encode_with_back:
  assumes "dict_ok d" "dict_room (sum_list (map (\<lambda>x. strings (snd x)) items) + n) (sum_list (map (\<lambda>x. string_bytes (snd x)) items) + m) d" "body_ok items"
  shows "\<exists>b d'. encode_with Z hash items (Some d) = Some (b, Some d') \<and> dict_ok d' \<and> dict_le d d' \<and> dict_room n m d' \<and> same_chain d d' \<and>
    (\<forall>D. dict_le d' D \<longrightarrow> decode_with (Some D) b = Some items)"
  using assms
proof (induction items arbitrary: d)
  case Nil
  then show ?case by (simp add: decode_with.simps [of _ "[]"])
next
  case (Cons item items)
  obtain tag v where item: "item = (tag, v)" by (cases item)
  let ?n = "sum_list (map (\<lambda>x. strings (snd x)) items) + n" and ?m = "sum_list (map (\<lambda>x. string_bytes (snd x)) items) + m"
  obtain b d1 where 1: "encode_log_value Z hash v (Some d) = Some (b, Some d1)" "dict_ok d1" "dict_le d d1" "dict_room ?n ?m d1" "same_chain d d1"
    "\<And>D t. dict_le d1 D \<Longrightarrow> \<exists>kind r. b @ t = kind # r \<and> decode_log_value (Some D) kind r = Some (v, t)"
  proof -
    have "dict_room (strings v + ?n) (string_bytes v + ?m) d" "log_value_ok v" using Cons.prems(2,3) item by (simp_all add: body_ok_def add.assoc)
    from encode_value_back [OF Cons.prems(1) this, of Z hash] show ?thesis using that by blast
  qed
  obtain bs d2 where 2: "encode_with Z hash items (Some d1) = Some (bs, Some d2)" "dict_ok d2" "dict_le d1 d2" "dict_room n m d2" "same_chain d1 d2"
    "\<And>D. dict_le d2 D \<Longrightarrow> decode_with (Some D) bs = Some items"
    using Cons.IH [OF 1(2,4)] Cons.prems(3) by (auto simp: body_ok_def)
  let ?b = "put_uvarint (ucast tag) @ b @ bs"
  have "decode_with (Some D) ?b = Some (item # items)" if D: "dict_le d2 D" for D
  proof -
    obtain kind r where k: "b @ bs = kind # r" "decode_log_value (Some D) kind r = Some (v, bs)"
      using 1(6) dict_le_trans [OF 2(3) D] by blast
    have "unat tag < 2 ^ 16" using unsigned_less [of tag, where ?'a = nat] by simp
    then have "unat (ucast tag :: u64) < 2 ^ 16" by (simp add: unsigned_ucast_eq take_bit_nat_eq_self)
    moreover have "ucast (ucast tag :: u64) = tag" by (intro bit_word_eqI) (auto simp: bit_simps)
    ultimately have "decode_item (Some D) ?b = Some ((tag, v), bs)"
      by (simp add: decode_item_def rd_bind_def rd_ret_def uvarint.get_put k)
    then show ?thesis using 2(6) [OF D] uvarint.get_put [of "ucast tag" "b @ bs"]
      by (subst decode_with.simps) (auto simp: item get_uvarint_def)
  qed
  then show ?case using 1 2 item dict_le_trans [OF 1(3) 2(3)] same_chain_trans [OF 1(5) 2(5)] by simp
qed

end
