(* ===== verification/Okm_Series_Chain.thy ===== *)
theory Okm_Series_Chain
  imports Okm_Series_Dict
begin

text \<open>
  The dictionary of a part on disk: what is flushed is what a reader loads, record bodies read
  back through the loaded dictionary, and the two places where the chain of blocks goes wrong.
\<close>

section \<open>A block on disk\<close>

text \<open>The documented behaviour of \<open>zstd\<close> at a valid level.\<close>

definition zstd_ok :: "zstd \<Rightarrow> bool" where
  "zstd_ok Z \<longleftrightarrow> (\<forall>p. \<exists>c. z_compress Z p = Some c \<and> z_decompress Z c (length p) = Some p \<and> (p \<noteq> [] \<longrightarrow> c \<noteq> []))"

lemma pack_ok:
  assumes "zstd_ok Z"
  obtains codec b where "pack Z p = Some (codec, b)" "unpack Z codec b (length p) = Some p" "length b \<le> length p"
    "p \<noteq> [] \<Longrightarrow> b \<noteq> []"
proof -
  obtain c where "z_compress Z p = Some c" "z_decompress Z c (length p) = Some p" "p \<noteq> [] \<Longrightarrow> c \<noteq> []"
    using assms unfolding zstd_ok_def by blast
  then show ?thesis
    using that [of Zstd c] that [of Raw p] by (cases "length c < length p") (auto simp: pack_def unpack_def)
qed

definition entries_fit :: "bytes list \<Rightarrow> bool" where
  "entries_fit es \<longleftrightarrow> length es < 2 ^ 32 \<and> length (entries_payload es) < 2 ^ 32 \<and> list_all utf8_valid es"

lemma put_uvarint_not_Nil [simp]: "put_uvarint v \<noteq> []"
  by (simp add: put_uvarint.simps [of v] Let_def)

lemma read_entries_payload:
  "list_all utf8_valid es \<Longrightarrow> length (entries_payload es) < 2 ^ 64 \<Longrightarrow> read_entries (length es) (entries_payload es) = es"
proof (induction es)
  case (Cons s es)
  have "length s < 2 ^ 64" using Cons.prems(2) by (simp add: entries_payload_def)
  then show ?case using Cons by (simp add: entries_payload_def uvarint.get_put unat_of_nat from_utf8_def)
qed simp

definition block_image :: "zstd \<Rightarrow> dict_block \<Rightarrow> bytes \<Rightarrow> bool" where
  "block_image Z block img \<longleftrightarrow> (\<exists>codec b prev. pack Z (entries_payload (db_entries block)) = Some (codec, b) \<and>
     img = dict_block_header codec block prev (length b) (length (entries_payload (db_entries block))) @ b)"

definition block_fits :: "dict_block \<Rightarrow> bool" where
  "block_fits block \<longleftrightarrow> db_width block \<in> {2, 4, 8} \<and> entries_fit (db_entries block)"

lemma length_dict_block_header [simp]: "length (dict_block_header c b p l u) = 32"
  by (simp add: dict_block_header_def magics)

lemma read_block_image:
  assumes "zstd_ok Z" "block_fits block" "block_image Z block img" "length pre = pos"
  shows "read_block Z (pre @ img @ post) pos =
    Some (\<lparr> db_width = db_width block, db_entries = db_entries block, db_file_offset = pos \<rparr>, pos + length img)"
proof -
  let ?p = "entries_payload (db_entries block)"
  obtain codec b prev where img: "pack Z ?p = Some (codec, b)" "img = dict_block_header codec block prev (length b) (length ?p) @ b"
    using assms(3) unfolding block_image_def by blast
  have pk: "unpack Z codec b (length ?p) = Some ?p" "length b \<le> length ?p"
    using pack_ok [OF assms(1), of ?p] img(1) by auto
  have fits: "length ?p < 2 ^ 32" "length (db_entries block) < 2 ^ 32" "list_all utf8_valid (db_entries block)"
    using assms(2) by (simp_all add: block_fits_def entries_fit_def)
  define f where "f = pre @ img @ post"
  have h: "take 32 (drop pos f) = dict_block_header codec block prev (length b) (length ?p)"
    using assms(4) by (simp add: f_def img(2))
  have b: "take (length b) (drop (pos + 32) f) = b" using assms(4) by (simp add: f_def img(2))
  have fl: "pos + 32 + length b \<le> length f" using assms(4) by (simp add: f_def img(2))
  have w: "width_of_code (if db_width block = 2 then 0 else if db_width block = 4 then 1 else 2) = Some (db_width block)"
    using assms(2) by (auto simp: block_fits_def width_of_code_def)
  let ?h = "dict_block_header codec block prev (length b) (length ?p)"
  have len: "length ?h = 32" "length img = 32 + length b" by (simp_all add: img(2))
  have lay: "take 4 ?h = DICT_BLOCK_MAGIC" "?h ! 5 = codec_code codec"
    "?h ! 6 = (if db_width block = 2 then 0 else if db_width block = 4 then 1 else 2)"
    "be_at ?h 8 12 = Some (of_nat (length (db_entries block)) :: u32)"
    "be_at ?h 24 28 = Some (of_nat (length b) :: u32)" "be_at ?h 28 32 = Some (of_nat (length ?p) :: u32)"
    by (simp_all add: dict_block_header_def magics be_at_def)
  have n: "unat (of_nat (length (db_entries block)) :: u32) = length (db_entries block)"
    "unat (of_nat (length b) :: u32) = length b" "unat (of_nat (length ?p) :: u32) = length ?p"
    using fits pk(2) by (simp_all add: unat_of_nat)
  have "read_entries (length (db_entries block)) ?p = db_entries block"
    using fits by (intro read_entries_payload) simp_all
  then show ?thesis
    unfolding f_def [symmetric]
    by (simp add: read_block_def Let_def h lay len w n b pk(1) min_def) (use fl in linarith)
qed

lemma load_images:
  assumes "zstd_ok Z" "list_all2 (block_image Z) bs imgs" "list_all block_fits bs"
  shows "\<exists>bs'. load_blocks Z (pre @ concat imgs) (length pre) off =
      (bs', if bs = [] then off else length (pre @ concat imgs)) \<and>
    map db_width bs' = map db_width bs \<and> map db_entries bs' = map db_entries bs"
  using assms(2,3)
proof (induction bs imgs arbitrary: pre off rule: list_all2_induct)
  case Nil
  then show ?case by (simp add: load_blocks.simps [of _ "pre"])
next
  case (Cons block bs img imgs)
  have "32 \<le> length img" using Cons.hyps by (auto simp: block_image_def)
  moreover obtain bs' where "load_blocks Z ((pre @ img) @ concat imgs) (length (pre @ img)) (length (pre @ img)) =
      (bs', if bs = [] then length (pre @ img) else length ((pre @ img) @ concat imgs))"
    "map db_width bs' = map db_width bs" "map db_entries bs' = map db_entries bs"
    using Cons.IH [of "pre @ img" "length (pre @ img)"] Cons.prems by auto
  moreover have "imgs = []" if "bs = []" using that Cons.hyps(2) by simp
  moreover have "block_fits block" using Cons.prems by simp
  ultimately show ?case
    using read_block_image [OF assms(1) _ Cons.hyps(1), of pre "length pre" "concat imgs"]
    by (subst load_blocks.simps) auto
qed

section \<open>Flushing\<close>

text \<open>The first \<open>n\<close> blocks are on disk, and nothing else is.\<close>

definition on_disk :: "zstd \<Rightarrow> nat \<Rightarrow> dict \<Rightarrow> bool" where
  "on_disk Z n d \<longleftrightarrow> d_writable d \<and> d_file_offset d = length (d_file d) \<and> n \<le> length (d_blocks d) \<and>
     list_all block_fits (take n (d_blocks d)) \<and>
     (\<exists>imgs. list_all2 (block_image Z) (take n (d_blocks d)) imgs \<and> d_file d = dict_file_header @ concat imgs)"

lemma create_on_disk: "on_disk Z 0 (Dict_create c)" "dict_ok (Dict_create c)"
  by (simp_all add: on_disk_def Dict_create_def dict_ok_def dict_file_header_def magics)

lemma flush_run:
  assumes "zstd_ok Z" "on_disk Z n d" "n = d_open d" "n < length (d_blocks d)" "block_fits (d_blocks d ! n)"
    and "db_entries (d_blocks d ! n) \<noteq> []"
  shows "\<exists>d'. flush_open_block Z d = (Inr (), d') \<and> on_disk Z (Suc n) d' \<and>
    d_blocks d' = (d_blocks d)[n := (d_blocks d ! n) \<lparr> db_file_offset := d_file_offset d \<rparr>] \<and> d_open d' = n \<and>
    d_promoted d' = d_promoted d \<and> d_block_entries d' = d_block_entries d \<and> d_tiers d' = d_tiers d \<and> d_counts d' = d_counts d"
proof -
  let ?b = "d_blocks d ! n" and ?pos = "d_file_offset d"
  let ?p = "entries_payload (db_entries ?b)"
  obtain codec b where pk: "pack Z ?p = Some (codec, b)" using pack_ok [OF assms(1)] by metis
  obtain imgs where disk: "d_writable d" "?pos = length (d_file d)" "list_all block_fits (take n (d_blocks d))"
    "list_all2 (block_image Z) (take n (d_blocks d)) imgs" "d_file d = dict_file_header @ concat imgs"
    using assms(2) unfolding on_disk_def by blast
  define prev where "prev = (if d_open d = 0 then 0 else db_file_offset (d_blocks d ! (d_open d - 1)))"
  let ?h = "dict_block_header codec ?b prev (length b) (length ?p)"
  let ?d' = "d \<lparr> d_file := d_file d @ ?h @ b, d_file_offset := ?pos + 32 + length b,
    d_blocks := (d_blocks d)[n := ?b \<lparr> db_file_offset := ?pos \<rparr>], d_tail := Some ?pos \<rparr>"
  have wr: "write_at (write_at (d_file d) ?pos ?h) (?pos + 32) b = d_file d @ ?h @ b"
    using disk(2) by (simp add: write_at_def)
  have run: "flush_open_block Z d = (Inr (), ?d')"
    using assms(3,4,6) disk(1) pk wr by (simp add: flush_open_block_def Let_def prev_def)
  have "block_image Z (?b \<lparr> db_file_offset := ?pos \<rparr>) (?h @ b)"
    using pk by (auto simp: block_image_def dict_block_header_def)
  moreover have "block_fits (?b \<lparr> db_file_offset := ?pos \<rparr>)" using assms(5) by (simp add: block_fits_def)
  ultimately have "on_disk Z (Suc n) ?d'"
    unfolding on_disk_def using disk assms(4)
    by (auto simp: take_Suc_conv_app_nth intro!: exI [of _ "imgs @ [?h @ b]"] list_all2_appendI)
  then show ?thesis using run assms(3) by (intro exI [of _ ?d']) simp
qed

lemma flush_dirty_ok:
  assumes "zstd_ok Z" "on_disk Z (d_open d) d" "dict_ok d" "block_fits (d_blocks d ! d_open d)"
    "length (d_blocks d) = Suc (d_open d)"
  shows "\<exists>d'. flush_if_dirty Z d = (Inr (), d') \<and> on_disk Z (d_open d') d' \<and> dict_ok d' \<and> dict_le d d' \<and>
    db_entries (d_blocks d' ! d_open d') = [] \<and> db_width (d_blocks d' ! d_open d') = db_width (d_blocks d ! d_open d) \<and>
    length (d_blocks d') = Suc (d_open d') \<and> d_block_entries d' = d_block_entries d \<and> d_tiers d' = d_tiers d \<and>
    d_open d' = (if db_entries (d_blocks d ! d_open d) = [] then d_open d else Suc (d_open d))"
proof (cases "db_entries (d_blocks d ! d_open d) = []")
  case True
  then show ?thesis using assms by (simp add: flush_if_dirty_def)
next
  case False
  let ?n = "d_open d"
  let ?b = "d_blocks d ! ?n"
  have op: "?n < length (d_blocks d)" using assms(5) by simp
  obtain d1 where 1: "flush_open_block Z d = (Inr (), d1)" "on_disk Z (Suc ?n) d1"
    "d_blocks d1 = (d_blocks d)[?n := ?b \<lparr> db_file_offset := d_file_offset d \<rparr>]" "d_open d1 = ?n"
    "d_promoted d1 = d_promoted d" "d_block_entries d1 = d_block_entries d" "d_tiers d1 = d_tiers d"
    using flush_run [OF assms(1,2) refl op assms(4) False] by blast
  let ?d = "push_block (db_width ?b) d1"
  have blocks: "d_blocks ?d ! i = d_blocks d1 ! i" if "i < length (d_blocks d)" for i
    using that by (simp add: push_block_def nth_append 1(3))
  have same: "db_entries (d_blocks d1 ! i) = db_entries (d_blocks d ! i)" "db_width (d_blocks d1 ! i) = db_width (d_blocks d ! i)" for i
    by (cases "i = ?n"; simp add: 1(3) op)+
  have le: "dict_le d ?d"
    by (auto simp: dict_le_def dict_lookup_def dict_width_def Let_def blocks same push_block_def 1(3) nth_append split: if_splits)
      (auto simp: same [unfolded 1(3)])
  have "flush_if_dirty Z d = (Inr (), ?d)" using False 1(1,3,4) op by (simp add: flush_if_dirty_def)
  moreover have "on_disk Z (d_open ?d) ?d" using 1(2,3) assms(5) by (simp add: on_disk_def push_block_def)
  moreover have "dict_ok ?d" by (rule dict_ok_step [OF assms(3) le]) (simp_all add: push_block_def 1(5))
  ultimately show ?thesis using le False 1 assms(5) by (simp add: push_block_def nth_append)
qed

section \<open>What a reader loads\<close>

lemma load_on_disk:
  assumes "zstd_ok Z" "on_disk Z n d" "\<forall>i < length (d_blocks d). n \<le> i \<longrightarrow> db_entries (d_blocks d ! i) = []"
  shows "dict_le d (Dict_load Z c (Some (d_file d)))"
proof -
  obtain imgs where disk: "list_all block_fits (take n (d_blocks d))"
    "list_all2 (block_image Z) (take n (d_blocks d)) imgs" "d_file d = dict_file_header @ concat imgs" "n \<le> length (d_blocks d)"
    using assms(2) unfolding on_disk_def by blast
  have len: "length dict_file_header = 8" "take 4 (d_file d) = DICT_FILE_MAGIC"
    by (simp_all add: disk(3) dict_file_header_def magics)
  obtain bs' off where load: "load_blocks Z (d_file d) 8 0 = (bs', off)"
    "map db_width bs' = map db_width (take n (d_blocks d))" "map db_entries bs' = map db_entries (take n (d_blocks d))"
    using load_images [OF assms(1) disk(2,1), of dict_file_header 0] len(1) disk(3) by auto
  let ?D = "Dict_load Z c (Some (d_file d))"
  have blocks: "d_blocks ?D = bs'" using load(1) len disk(3) by (simp add: Dict_load_def)
  have "length bs' = n" using load(2) disk(4) by (metis length_map length_take min.absorb2)
  then have at: "db_width (bs' ! i) = db_width (d_blocks d ! i)" "db_entries (bs' ! i) = db_entries (d_blocks d ! i)" if "i < n" for i
    using that load(2,3) disk(4) by (metis length_map nth_map nth_take)+
  show ?thesis unfolding dict_le_def
  proof (intro allI impI)
    fix code i s assume s: "dict_lookup d code i = Some s"
    let ?k = "unat (code - DICT_BASE)"
    have k: "DICT_BASE \<le> code" "?k < length (d_blocks d)" "unat i < length (db_entries (d_blocks d ! ?k))"
      "db_entries (d_blocks d ! ?k) ! unat i = s"
      using s by (auto simp: dict_lookup_def Let_def linorder_not_less split: if_splits)
    then have "?k < n" using assms(3) by (metis list.size(3) not_less_zero linorder_not_less)
    then show "dict_lookup ?D code i = Some s \<and> dict_width ?D code = dict_width d code"
      using k at \<open>length bs' = n\<close> by (auto simp: dict_lookup_def dict_width_def Let_def blocks linorder_not_less)
  qed
qed

section \<open>Writing, flushing, loading\<close>

text \<open>The dictionary of a writer between two blocks.\<close>

definition dict_live :: "zstd \<Rightarrow> dict \<Rightarrow> bool" where
  "dict_live Z d \<longleftrightarrow> dict_ok d \<and> on_disk Z (d_open d) d \<and> length (d_blocks d) = Suc (d_open d)"

lemma live_step: "dict_live Z d \<Longrightarrow> same_chain d d' \<Longrightarrow> dict_ok d' \<Longrightarrow> dict_live Z d'"
  by (auto simp: dict_live_def same_chain_def on_disk_def)

lemma room_fits: "dict_room n m d \<Longrightarrow> block_fits (d_blocks d ! d_open d)"
proof -
  assume "dict_room n m d"
  moreover have "length es \<le> length (entries_payload es)" for es
  proof (induction es)
    case (Cons s es)
    have "0 < length (put_uvarint (of_nat (length s)))" by simp
    then have "Suc 0 + length es \<le> length (put_uvarint (of_nat (length s))) + length (entries_payload es)"
      using Cons.IH by linarith
    then show ?case by (simp add: entries_payload_def)
  qed (simp add: entries_payload_def)
  ultimately show ?thesis
    unfolding dict_room_def block_fits_def entries_fit_def Let_def
    by (meson add_leD1 add_lessD1 le_less_trans)
qed

lemma flush_live:
  assumes "zstd_ok Z" "dict_live Z d" "block_fits (d_blocks d ! d_open d)"
  shows "\<exists>d'. flush_if_dirty Z d = (Inr (), d') \<and> dict_live Z d' \<and> dict_le d d' \<and>
    dict_le d' (Dict_load Z c (Some (d_file d'))) \<and> db_entries (d_blocks d' ! d_open d') = [] \<and>
    block_fits (d_blocks d' ! d_open d')"
proof -
  obtain d' where d': "flush_if_dirty Z d = (Inr (), d')" "on_disk Z (d_open d') d'" "dict_ok d'" "dict_le d d'"
    "db_entries (d_blocks d' ! d_open d') = []" "length (d_blocks d') = Suc (d_open d')"
    "db_width (d_blocks d' ! d_open d') = db_width (d_blocks d ! d_open d)"
    using flush_dirty_ok [OF assms(1) _ _ assms(3)] assms(2) by (auto simp: dict_live_def)
  then have "dict_le d' (Dict_load Z c (Some (d_file d')))"
    by (intro load_on_disk [OF assms(1) d'(2)]) (auto simp: less_Suc_eq)
  then show ?thesis using d' assms(3) by (simp add: dict_live_def block_fits_def entries_fit_def entries_payload_def)
qed

section \<open>Properties\<close>

text \<open>
  C31: A body whose strings all find room in the open block of a live dictionary (the block does not
  fill up while the body is written and is not past the 240 blocks a code byte can name) is written
  without a panic, and after the flush that precedes its block a reader that loads the dictionary
  file decodes exactly that body, whichever of its strings became codes.
\<close>

theorem body_reads_back:
  assumes "zstd_ok Z" "dict_live Z d" "body_ok items"
    and "dict_room (sum_list (map (\<lambda>x. strings (snd x)) items)) (sum_list (map (\<lambda>x. string_bytes (snd x)) items)) d"
  shows "\<exists>b d' d''. encode_with Z hash items (Some d) = Some (b, Some d') \<and> flush_if_dirty Z d' = (Inr (), d'') \<and>
    dict_live Z d'' \<and> decode_with (Some (Dict_load Z c (Some (d_file d'')))) b = Some items"
proof -
  have room: "dict_room (sum_list (map (\<lambda>x. strings (snd x)) items) + 0) (sum_list (map (\<lambda>x. string_bytes (snd x)) items) + 0) d"
    using assms(4) by simp
  have "dict_ok d" using assms(2) by (simp add: dict_live_def)
  from encode_with_back [OF this room assms(3), of Z hash] obtain b d' where b: "encode_with Z hash items (Some d) = Some (b, Some d')"
    "dict_ok d'" "dict_room 0 0 d'" "same_chain d d'" "\<And>D. dict_le d' D \<Longrightarrow> decode_with (Some D) b = Some items" by blast
  obtain d'' where "flush_if_dirty Z d' = (Inr (), d'')" "dict_live Z d''" "dict_le d' d''"
    "dict_le d'' (Dict_load Z c (Some (d_file d'')))"
    using flush_live [OF assms(1) live_step [OF assms(2) b(4,2)] room_fits [OF b(3)]] by blast
  then show ?thesis using b(1,5) dict_le_trans by blast
qed

definition plain_zstd :: zstd where
  "plain_zstd = \<lparr> z_compress = Some, z_decompress = (\<lambda>b n. Some b) \<rparr>"

lemma plain_zstd_ok: "zstd_ok plain_zstd" by (simp add: zstd_ok_def plain_zstd_def)

lemma create_live: "dict_live Z (Dict_create c)"
  using create_on_disk by (simp add: dict_live_def Dict_create_def)

text \<open>A string of 33 bytes becomes a code the second time: the body ends with the tag 8, block code 16 and the id 0 in two bytes.\<close>

definition coded_body :: body where
  "coded_body = [(7, VStr (replicate 33 97)), (8, VStr (replicate 33 97))]"

lemma coded_fits: "body_ok coded_body" "dict_room 2 86 (Dict_create default_dict_config)"
proof -
  have "utf8_valid (replicate 33 97)" by (rule utf8_valid_ascii) (simp add: list_all_iff)
  then show "body_ok coded_body" by (simp add: coded_body_def body_ok_def)
qed (simp add: dict_room_def Dict_create_def default_dict_config_def DEFAULT_BLOCK_ENTRIES_def entries_payload_def Let_def)

lemma coded_encodes:
  "map_option fst (encode_with Z hash coded_body (Some (Dict_create default_dict_config))) =
     Some ([7, KIND_STR, 33] @ replicate 33 97 @ [8, 16, 0, 0])"
proof -
  have v: "put_uvarint 7 = [7]" "put_uvarint 8 = [8]" "put_uvarint 33 = [33]" by (subst put_uvarint.simps, simp)+
  have id: "be_bytes 2 0 = [0, 0]" by (simp add: numeral_2_eq_2)
  show ?thesis
    by (simp add: coded_body_def settle_def Dict_create_def default_dict_config_def DEFAULT_TIERS_def DEFAULT_BLOCK_ENTRIES_def COUNT_TRACK_LIMIT_def
        threshold_for_def promote_def code_of_def DICT_BASE_def dict_width_def v id Let_def to_be_bytes_def)
qed

theorem body_reads_back_witness:
  "\<exists>b d' d''. encode_with plain_zstd (\<lambda>_. 0) coded_body (Some (Dict_create default_dict_config)) = Some (b, Some d') \<and>
     b = [7, KIND_STR, 33] @ replicate 33 97 @ [8, 16, 0, 0] \<and> flush_if_dirty plain_zstd d' = (Inr (), d'') \<and>
     decode_with (Some (Dict_load plain_zstd default_dict_config (Some (d_file d'')))) b = Some coded_body"
proof -
  have "sum_list (map (\<lambda>x. strings (snd x)) coded_body) = 2" "sum_list (map (\<lambda>x. string_bytes (snd x)) coded_body) = 86"
    by (simp_all add: coded_body_def)
  then show ?thesis
    using body_reads_back [OF plain_zstd_ok create_live coded_fits(1), of default_dict_config "\<lambda>_. 0" default_dict_config]
      coded_fits(2) coded_encodes [of plain_zstd "\<lambda>_. 0"] by auto
qed

text \<open>
  A dictionary adopted before its first block was flushed starts writing at offset 0: the first
  flush overwrites the file header, and every later load finds no block at all, so none of the
  codes written resolves.
\<close>

theorem adopt_overwrites_header:
  assumes "zstd_ok Z"
  shows "\<exists>d code d' d''. Dict_adopt Z c (Some dict_file_header) = Inr d \<and> promote Z s d = (code, d') \<and>
    flush_if_dirty Z d' = (Inr (), d'') \<and>
    (\<forall>k i. dict_lookup (Dict_load Z c (Some (d_file d''))) k i = None)"
proof -
  define D where "D = Dict_load Z c (Some dict_file_header)"
  have "load_blocks Z dict_file_header 8 0 = ([], 0)"
    by (subst load_blocks.simps) (simp add: dict_file_header_def magics)
  then have D: "d_blocks D = []" "d_file_offset D = 0" "d_file D = dict_file_header" "0 < d_block_entries D"
    by (simp_all add: D_def Dict_load_def dict_file_header_def magics Let_def)
  let ?d = "push_block 2 (D \<lparr> d_writable := True \<rparr>)"
  have 1: "Dict_adopt Z c (Some dict_file_header) = Inr ?d" using D(1) by (simp add: Dict_adopt_def D_def Let_def)
  obtain code d' where 2: "promote Z s ?d = (code, d')" by (cases "promote Z s ?d")
  then have d': "d_blocks d' = [\<lparr> db_width = 2, db_entries = [s], db_file_offset = 0 \<rparr>]" "d_open d' = 0" "d_file_offset d' = 0"
    "d_writable d'" "d_file d' = dict_file_header"
    using D by (auto simp: promote_def push_block_def Let_def)
  obtain codec b where pk: "pack Z (entries_payload [s]) = Some (codec, b)" using pack_ok [OF assms] by metis
  obtain d'' where 3: "flush_if_dirty Z d' = (Inr (), d'')" "take 4 (d_file d'') = DICT_BLOCK_MAGIC"
    by (auto simp: flush_if_dirty_def flush_open_block_def d' pk Let_def push_block_def write_at_def
        dict_block_header_def magics)
  have "dict_lookup (Dict_load Z c (Some (d_file d''))) k i = None" for k i
    using 3(2) by (simp add: Dict_load_def dict_lookup_def magics)
  then show ?thesis using 1 2 3(1) by blast
qed

theorem adopt_overwrites_header_witness:
  "\<exists>d code d' d''. Dict_adopt plain_zstd default_dict_config (Some dict_file_header) = Inr d \<and>
     promote plain_zstd [97, 98, 99] d = (code, d') \<and> flush_if_dirty plain_zstd d' = (Inr (), d'') \<and>
     (\<forall>k i. dict_lookup (Dict_load plain_zstd default_dict_config (Some (d_file d''))) k i = None)"
  by (rule adopt_overwrites_header [OF plain_zstd_ok])

text \<open>A configuration that promotes a string at first sight, and one string per flushed block.\<close>

definition first_sight :: dict_config where
  "first_sight = \<lparr> c_tiers = [(0, 1)], c_block_entries = DEFAULT_BLOCK_ENTRIES \<rparr>"

fun settle_rounds :: "zstd \<Rightarrow> (bytes \<Rightarrow> u64) \<Rightarrow> bytes list \<Rightarrow> dict \<Rightarrow> dict" where
  "settle_rounds Z hash [] d = d"
| "settle_rounds Z hash (s # ss) d = settle_rounds Z hash ss (snd (flush_if_dirty Z (snd (settle Z hash s d))))"

text \<open>The dictionary after one string per block.\<close>

definition chain_blocks :: "bytes list \<Rightarrow> nat list \<Rightarrow> dict_block list" where
  "chain_blocks ss offs = map2 (\<lambda>s off. \<lparr> db_width = 2, db_entries = [s], db_file_offset = off \<rparr>) ss offs"

definition chain_of :: "bytes list \<Rightarrow> dict \<Rightarrow> bool" where
  "chain_of ss d \<longleftrightarrow> (\<exists>offs. length offs = length ss \<and>
       d_blocks d = chain_blocks ss offs @ [\<lparr> db_width = 2, db_entries = [], db_file_offset = 0 \<rparr>]) \<and>
     d_open d = length ss \<and> d_writable d \<and> d_tiers d = [(0, 1)] \<and> 0 < d_block_entries d \<and> d_counts d = [] \<and>
     dom (d_promoted d) = set ss"

lemma length_chain_blocks [simp]: "length offs = length ss \<Longrightarrow> length (chain_blocks ss offs) = length ss"
  by (simp add: chain_blocks_def)

lemma chain_settle:
  assumes "chain_of ss d" "s \<notin> set ss" "2 < length s"
  shows "\<exists>d'. settle Z hash s d = (Some (code_of (length ss), 0), d') \<and>
    d_blocks d' = (d_blocks d)[length ss := \<lparr> db_width = 2, db_entries = [s], db_file_offset = 0 \<rparr>] \<and>
    d_open d' = length ss \<and> d_writable d' \<and> d_tiers d' = [(0, 1)] \<and> 0 < d_block_entries d' \<and> d_counts d' = [] \<and>
    dom (d_promoted d') = insert s (set ss)"
proof -
  obtain offs where offs: "length offs = length ss"
    "d_blocks d = chain_blocks ss offs @ [\<lparr> db_width = 2, db_entries = [], db_file_offset = 0 \<rparr>]"
    using assms(1) unfolding chain_of_def by blast
  then have b: "d_blocks d ! length ss = \<lparr> db_width = 2, db_entries = [], db_file_offset = 0 \<rparr>" "length (d_blocks d) = Suc (length ss)"
    by (simp_all add: nth_append)
  have "d_promoted d s = None" using assms(1,2) by (auto simp: chain_of_def)
  then show ?thesis
    using assms(1,3) b by (simp add: chain_of_def settle_def COUNT_TRACK_LIMIT_def threshold_for_def promote_def Let_def)
qed

lemma chain_round:
  assumes "zstd_ok Z" "chain_of ss d" "s \<notin> set ss" "2 < length s"
  shows "chain_of (ss @ [s]) (snd (flush_if_dirty Z (snd (settle Z hash s d))))"
proof -
  obtain offs where offs: "length offs = length ss"
    "d_blocks d = chain_blocks ss offs @ [\<lparr> db_width = 2, db_entries = [], db_file_offset = 0 \<rparr>]"
    using assms(2) unfolding chain_of_def by blast
  obtain d' where d': "snd (settle Z hash s d) = d'"
    "d_blocks d' = (d_blocks d)[length ss := \<lparr> db_width = 2, db_entries = [s], db_file_offset = 0 \<rparr>]"
    "d_open d' = length ss" "d_writable d'" "d_tiers d' = [(0, 1)]" "0 < d_block_entries d'" "d_counts d' = []"
    "dom (d_promoted d') = insert s (set ss)"
    using chain_settle [OF assms(2-4), of Z hash] by auto
  have blocks: "d_blocks d' = chain_blocks ss offs @ [\<lparr> db_width = 2, db_entries = [s], db_file_offset = 0 \<rparr>]"
    using offs by (simp add: d'(2) list_update_append)
  obtain codec b where pk: "pack Z (entries_payload [s]) = Some (codec, b)" using pack_ok [OF assms(1)] by metis
  let ?d = "snd (flush_if_dirty Z d')"
  have "d_blocks ?d = chain_blocks (ss @ [s]) (offs @ [d_file_offset d']) @ [\<lparr> db_width = 2, db_entries = [], db_file_offset = 0 \<rparr>]"
    using offs(1) by (simp add: flush_if_dirty_def flush_open_block_def blocks d' pk Let_def push_block_def nth_append
        list_update_append chain_blocks_def)
  moreover have "d_open ?d = Suc (length ss)" "d_writable ?d" "d_tiers ?d = [(0, 1)]" "0 < d_block_entries ?d" "d_counts ?d = []"
    "dom (d_promoted ?d) = insert s (set ss)"
    using offs(1) d'(4-8) by (simp_all add: flush_if_dirty_def flush_open_block_def blocks d'(3) pk Let_def push_block_def nth_append)
  ultimately show ?thesis using offs(1) unfolding chain_of_def d'(1)
    by (auto intro!: exI [of _ "offs @ [d_file_offset d']"])
qed

lemma chain_rounds:
  assumes "zstd_ok Z"
  shows "chain_of ss d \<Longrightarrow> distinct (ss @ ts) \<Longrightarrow> \<forall>s \<in> set ts. 2 < length s \<Longrightarrow> chain_of (ss @ ts) (settle_rounds Z hash ts d)"
proof (induction ts arbitrary: ss d)
  case (Cons s ts)
  have "chain_of (ss @ [s]) (snd (flush_if_dirty Z (snd (settle Z hash s d))))"
    using Cons.prems by (intro chain_round [OF assms]) auto
  from Cons.IH [OF this] show ?case using Cons.prems by simp
qed simp

text \<open>
  The kind byte of a code saturates: from the 241st block on every code is 255, the kind of block
  239. Strings that settle one per flushed block get there, and the 241st string then decodes to
  the 240th: a silently wrong string.
\<close>

theorem late_codes_misread:
  assumes "zstd_ok Z" "distinct (ss @ [s])" "\<forall>x \<in> set (ss @ [s]). 2 < length x" "length ss = 240"
    and "d = settle_rounds Z hash ss (Dict_create first_sight)"
  shows "\<exists>d'. settle Z hash s d = (Some (255, 0), d') \<and> dict_lookup d' 255 0 = Some (last ss) \<and> last ss \<noteq> s \<and>
    encode_with Z hash [(1, VStr s)] (Some d) = Some ([1, 255, 0, 0], Some d') \<and>
    decode_with (Some d') [1, 255, 0, 0] = Some [(1, VStr (last ss))]"
proof -
  have "chain_of [] (Dict_create first_sight)"
    by (simp add: chain_of_def chain_blocks_def Dict_create_def first_sight_def DEFAULT_BLOCK_ENTRIES_def)
  from chain_rounds [OF assms(1) this, of ss hash] have ch: "chain_of ss d" using assms(2,3,5) by simp
  then obtain offs where offs: "length offs = length ss"
    "d_blocks d = chain_blocks ss offs @ [\<lparr> db_width = 2, db_entries = [], db_file_offset = 0 \<rparr>]"
    unfolding chain_of_def by blast
  obtain d' where d': "settle Z hash s d = (Some (code_of 240, 0), d')"
    "d_blocks d' = (d_blocks d)[length ss := \<lparr> db_width = 2, db_entries = [s], db_file_offset = 0 \<rparr>]"
    using chain_settle [OF ch, of s Z hash] assms(2-4) by auto
  have code: "code_of 240 = 255" "unat (255 - DICT_BASE) = 239" by (simp_all add: code_of_def DICT_BASE_def)
  have "ss \<noteq> []" using assms(4) by auto
  then have ls: "last ss = ss ! 239" using assms(4) by (simp add: last_conv_nth)
  have at: "d_blocks d' ! 239 = \<lparr> db_width = 2, db_entries = [last ss], db_file_offset = offs ! 239 \<rparr>" "239 < length (d_blocks d')"
    using offs assms(4) by (simp_all add: d'(2) nth_append chain_blocks_def ls)
  have look: "dict_lookup d' 255 0 = Some (last ss)" "dict_width d' 255 = Some 2"
    using at by (simp_all add: dict_lookup_def dict_width_def code(2) DICT_BASE_def Let_def)
  have z: "drop 6 (to_be_bytes (0 :: u64)) = [0, 0]" by (simp add: to_be_bytes_def be_bytes_2 del: be_bytes.simps)
  have 1: "put_uvarint 1 = [1]" by (simp add: put_uvarint.simps [of 1])
  have enc: "encode_with Z hash [(1, VStr s)] (Some d) = Some ([1, 255, 0, 0], Some d')"
    using z by (simp add: d'(1) code(1) look(2) Let_def 1)
  have "decode_log_value (Some d') 255 [0, 0] = Some (VStr (last ss), [])"
    using look by (simp add: decode_log_value_def kinds rd_bind_def rd_ret_def rd_take_def code_id_val)
  moreover have "get_uvarint [1, 255, 0, 0] = Some (1, [255, 0, 0])" by (simp add: get_uvarint_def)
  ultimately have "decode_with (Some d') [1, 255, 0, 0] = Some [(1, VStr (last ss))]"
    by (subst decode_with.simps) (simp add: decode_item_def rd_bind_def rd_ret_def decode_with.simps [of _ "[]"])
  then show ?thesis using d'(1) code(1) look(1) enc assms(2) \<open>ss \<noteq> []\<close> by (auto dest: last_in_set)
qed

theorem late_codes_misread_witness:
  "\<exists>d'. settle plain_zstd (\<lambda>_. 0) [0, 0, 0, 1] (settle_rounds plain_zstd (\<lambda>_. 0) (map (\<lambda>n. [0, 0, of_nat n]) [0..<240]) (Dict_create first_sight)) =
       (Some (255, 0), d') \<and> dict_lookup d' 255 0 = Some [0, 0, 239]"
proof -
  let ?ss = "map (\<lambda>n. [0, 0, of_nat n :: byte]) [0..<240]"
  have "inj_on (\<lambda>n. [0, 0, of_nat n :: byte]) {0..<240}"
    by (auto simp: inj_on_def byte_of_nat_eq_iff)
  then have "distinct (?ss @ [[0, 0, 0, 1]])" by (auto simp: distinct_map)
  moreover have "\<forall>x \<in> set (?ss @ [[0, 0, 0, 1]]). 2 < length x" by auto
  moreover have "length ?ss = 240" by simp
  moreover have "last ?ss = [0, 0, 239]" by (simp add: last_map del: upt_rec_numeral)
  ultimately show ?thesis using late_codes_misread [OF plain_zstd_ok, of ?ss "[0, 0, 0, 1]" _ "\<lambda>_. 0"] by fastforce
qed

end
