(* ===== verification/Okm_Series_Part.thy ===== *)
theory Okm_Series_Part
  imports Okm_Series_Chain
begin

text \<open>
  One part of a log (\<open>okm-series/src/part.rs\<close>): the writer with its block buffer, the recovery of
  an open part after a crash, and the reader.

  A file is its bytes; reads and writes of existing files succeed, a read past the end is the
  \<open>Io\<close> error of \<open>read_exact\<close>. The streaming digest is the bytes fed so far, hashed at the seal
  by the argument \<open>xxh\<close>. The compression level belongs to the \<open>zstd\<close> record.
\<close>

section \<open>Records of a block\<close>

lemma get_record_shorter: "get_record b = Some (x, r) \<Longrightarrow> length r < length b"
  by (auto simp: get_record_def Let_def split: if_splits option.splits)

function walk_records :: "bytes \<Rightarrow> nat" where
  "walk_records raw =
     (if raw = [] then 0 else case get_record raw of None \<Rightarrow> 0 | Some (_, rest) \<Rightarrow> Suc (walk_records rest))"
  by pat_completeness auto
termination by (relation "measure length") (auto dest: get_record_shorter)

function last_ts_loop :: "bytes \<Rightarrow> u64 \<Rightarrow> bool \<Rightarrow> u64 option \<Rightarrow> u64 option sresult" where
  "last_ts_loop raw ts is_first res =
     (if raw = [] then Inr res
      else case get_record raw of
          None \<Rightarrow> Inl (BadFrame ''record'')
        | Some ((delta, _), rest) \<Rightarrow>
            let ts = (if is_first then ts else ts + delta) in last_ts_loop rest ts False (Some ts))"
  by pat_completeness auto
termination by (relation "measure (\<lambda>(raw, _). length raw)") (auto dest: get_record_shorter)

definition last_ts_of :: "bytes \<Rightarrow> u64 \<Rightarrow> u64 option sresult" where
  "last_ts_of raw first_ts = last_ts_loop raw first_ts True None"

declare walk_records.simps [simp del] last_ts_loop.simps [simp del]

definition decode_payload :: "zstd \<Rightarrow> bytes \<Rightarrow> block_header \<Rightarrow> bytes sresult" where
  "decode_payload Z payload block =
     (case bh_codec block of
        Raw \<Rightarrow> Inr payload
      | Zstd \<Rightarrow> (case z_decompress Z payload (unat (bh_len_u block)) of None \<Rightarrow> Inl Codec | Some raw \<Rightarrow> Inr raw))"

text \<open>\<open>read_exact\<close> at a position.\<close>

definition read_full :: "bytes \<Rightarrow> nat \<Rightarrow> nat \<Rightarrow> bytes sresult" where
  "read_full file pos n = (if pos + n \<le> length file then Inr (take n (drop pos file)) else Inl Io)"

section \<open>The writer\<close>

record part_writer =
  w_file :: bytes
  w_index :: bytes
  w_header :: part_header
  w_block_bytes :: nat
  w_codec :: block_codec
  w_next_offset :: u64
  w_last_ts :: "u64 option"
  w_file_off :: nat
  w_block :: bytes
  w_block_first_ts :: u64
  w_block_first_offset :: u64
  w_block_records :: u32
  w_records :: u64
  w_blocks :: u32
  w_digest :: bytes
  w_dict :: "dict option"

definition PartWriter_create :: "part_header \<Rightarrow> nat \<Rightarrow> block_codec \<Rightarrow> dict_config option \<Rightarrow> part_writer" where
  "PartWriter_create h block_bytes codec dict =
     \<lparr> w_file = PartHeader_encode h, w_index = index_header, w_header = h, w_block_bytes = block_bytes, w_codec = codec,
       w_next_offset = ph_first_offset h, w_last_ts = None, w_file_off = PART_HEADER_LEN, w_block = [],
       w_block_first_ts = 0, w_block_first_offset = ph_first_offset h, w_block_records = 0, w_records = 0, w_blocks = 0,
       w_digest = [], w_dict = map_option Dict_create dict \<rparr>"

definition flush_dict :: "zstd \<Rightarrow> dict option \<Rightarrow> unit sresult \<times> dict option" where
  "flush_dict Z d = (case d of None \<Rightarrow> (Inr (), None) | Some d \<Rightarrow> map_prod id Some (flush_if_dirty Z d))"

definition block_payload :: "zstd \<Rightarrow> block_codec \<Rightarrow> bytes \<Rightarrow> (block_codec \<times> bytes) option" where
  "block_payload Z codec raw = (case codec of Raw \<Rightarrow> Some (Raw, raw) | Zstd \<Rightarrow> pack Z raw)"

definition flush_block :: "zstd \<Rightarrow> part_writer \<Rightarrow> unit sresult \<times> part_writer" where
  "flush_block Z w =
     (if w_block_records w = 0 then (Inr (), w)
      else case flush_dict Z (w_dict w) of
        (Inl e, d) \<Rightarrow> (Inl e, w \<lparr> w_dict := d \<rparr>)
      | (Inr _, d) \<Rightarrow>
          let raw = w_block w; w = w \<lparr> w_dict := d, w_block := [] \<rparr> in
          case block_payload Z (w_codec w) raw of
            None \<Rightarrow> (Inl Codec, w)
          | Some (codec, payload) \<Rightarrow>
              if 2 ^ 32 \<le> length payload \<or> 2 ^ 32 \<le> length raw then (Inl Overflow, w)
              else let block = \<lparr> bh_codec = codec, bh_records = w_block_records w, bh_len_c = of_nat (length payload),
                         bh_len_u = of_nat (length raw), bh_first_ts = w_block_first_ts w,
                         bh_first_offset = w_block_first_offset w \<rparr>;
                       w = w \<lparr> w_file := write_at (w_file w) (w_file_off w) (BlockHeader_encode block @ payload),
                               w_records := w_records w + ucast (bh_records block), w_blocks := w_blocks w + 1,
                               w_digest := w_digest w @ raw \<rparr> in
                case IndexRow_from_header block (w_file_off w) of
                  None \<Rightarrow> (Inl Overflow, w)
                | Some row \<Rightarrow> (Inr (), w \<lparr> w_index := w_index w @ IndexRow_encode row,
                    w_file_off := w_file_off w + BLOCK_HEADER_LEN + length payload, w_block_records := 0,
                    w_block_first_offset := w_next_offset w \<rparr>))"

definition append_encoded :: "zstd \<Rightarrow> u64 \<Rightarrow> u64 \<Rightarrow> bytes \<Rightarrow> part_writer \<Rightarrow> u64 sresult \<times> part_writer" where
  "append_encoded Z ts delta encoded w =
     (let w = (if w_block w = [] then w \<lparr> w_block_first_ts := ts, w_block_first_offset := w_next_offset w \<rparr> else w) in
      case put_record delta encoded of
        None \<Rightarrow> (Inl Overflow, w)
      | Some b \<Rightarrow>
          let offset = w_next_offset w;
              w = w \<lparr> w_block := w_block w @ b, w_next_offset := w_next_offset w + 1,
                      w_block_records := w_block_records w + 1, w_last_ts := Some ts \<rparr> in
          if w_block_bytes w \<le> length (w_block w)
          then map_prod (\<lambda>r. rbind r (\<lambda>_. Inr offset)) id (flush_block Z w)
          else (Inr offset, w))"

definition part_append ::
    "zstd \<Rightarrow> (bytes \<Rightarrow> u64) \<Rightarrow> u64 \<Rightarrow> body \<Rightarrow> part_writer \<Rightarrow> (u64 sresult \<times> part_writer) option" where
  "part_append Z hash ts body w =
     (case encode_with Z hash body (w_dict w) of
        None \<Rightarrow> None
      | Some (encoded, d) \<Rightarrow>
          let w = w \<lparr> w_dict := d \<rparr> in
          case w_last_ts w of
            Some prev \<Rightarrow> if ts < prev then Some (Inl (TimeBackwards prev ts), w) else Some (append_encoded Z ts (ts - prev) encoded w)
          | None \<Rightarrow> Some (append_encoded Z ts ts encoded
              (if ph_base_ts (w_header w) = 0 \<and> w_records w = 0 then w \<lparr> w_header := (w_header w) \<lparr> ph_base_ts := ts \<rparr> \<rparr> else w)))"

definition flush_finish :: "zstd \<Rightarrow> dict option \<Rightarrow> unit sresult \<times> dict option" where
  "flush_finish Z d = (case d of None \<Rightarrow> (Inr (), None) | Some d \<Rightarrow> map_prod id Some (flush_open_block Z d))"

text \<open>The seal: the footer is written, the rename is left to the log.\<close>

definition part_seal :: "zstd \<Rightarrow> (bytes \<Rightarrow> u64) \<Rightarrow> part_writer \<Rightarrow> footer sresult \<times> part_writer" where
  "part_seal Z xxh w =
     (case flush_block Z w of
        (Inl e, w) \<Rightarrow> (Inl e, w)
      | (Inr _, w) \<Rightarrow>
          (case flush_finish Z (w_dict w) of
             (Inl e, d) \<Rightarrow> (Inl e, w \<lparr> w_dict := d \<rparr>)
           | (Inr _, d) \<Rightarrow>
               let f = \<lparr> ft_records = w_records w, ft_last_ts = (case w_last_ts w of Some ts \<Rightarrow> ts | None \<Rightarrow> 0),
                         ft_blocks = w_blocks w, ft_digest = xxh (w_digest w) \<rparr> in
               (Inr f, w \<lparr> w_dict := d, w_file := write_at (w_file w) (w_file_off w) (Footer_encode f) \<rparr>)))"

section \<open>Recovery\<close>

text \<open>A block that survived: its header and its records.\<close>

definition good_block :: "zstd \<Rightarrow> bytes \<Rightarrow> nat \<Rightarrow> (block_header \<times> bytes) option" where
  "good_block Z file pos =
     (if length file < pos + BLOCK_HEADER_LEN then None
      else case BlockHeader_decode (take BLOCK_HEADER_LEN (drop pos file)) of
        None \<Rightarrow> None
      | Some block \<Rightarrow>
          if bh_records block = 0 \<or> bh_len_c block = 0 then None
          else case read_full file (pos + BLOCK_HEADER_LEN) (unat (bh_len_c block)) of
            Inl _ \<Rightarrow> None
          | Inr payload \<Rightarrow>
              (case decode_payload Z payload block of
                 Inl _ \<Rightarrow> None
               | Inr raw \<Rightarrow> if length raw \<noteq> unat (bh_len_u block) \<or> walk_records raw \<noteq> unat (bh_records block) then None
                   else Some (block, raw)))"

record recovered =
  a_off :: nat
  a_next_offset :: u64
  a_last_ts :: "u64 option"
  a_records :: u64
  a_blocks :: u32
  a_digest :: bytes
  a_rows :: "index_row list"

lemma good_block_inside: "good_block Z file pos = Some (block, raw) \<Longrightarrow>
    pos + BLOCK_HEADER_LEN + unat (bh_len_c block) \<le> length file \<and> bh_len_c block \<noteq> 0"
  by (auto simp: good_block_def read_full_def split: if_splits option.splits sum.splits)

function recover :: "zstd \<Rightarrow> bytes \<Rightarrow> recovered \<Rightarrow> recovered sresult" where
  "recover Z file a =
     (case good_block Z file (a_off a) of
        None \<Rightarrow> Inr a
      | Some (block, raw) \<Rightarrow>
          (case IndexRow_from_header block (a_off a) of
             None \<Rightarrow> Inl Overflow
           | Some row \<Rightarrow>
               (case last_ts_of raw (bh_first_ts block) of
                  Inl e \<Rightarrow> Inl e
                | Inr last_ts \<Rightarrow> recover Z file
                    \<lparr> a_off = a_off a + BLOCK_HEADER_LEN + unat (bh_len_c block),
                      a_next_offset = bh_first_offset block + ucast (bh_records block), a_last_ts = last_ts,
                      a_records = a_records a + ucast (bh_records block), a_blocks = a_blocks a + 1,
                      a_digest = a_digest a @ raw, a_rows = a_rows a @ [row] \<rparr>)))"
  by pat_completeness auto
termination
  by (relation "measure (\<lambda>(Z, file, a). Suc (length file) - a_off a)") (auto dest!: good_block_inside)

declare recover.simps [simp del]

definition PartWriter_adopt ::
    "zstd \<Rightarrow> nat \<Rightarrow> block_codec \<Rightarrow> dict_config option \<Rightarrow> bytes option \<Rightarrow> bytes \<Rightarrow> part_writer sresult" where
  "PartWriter_adopt Z block_bytes codec dict dict_file file =
     rbind (case dict of None \<Rightarrow> Inr None | Some c \<Rightarrow> rbind (Dict_adopt Z c dict_file) (\<lambda>d. Inr (Some d))) (\<lambda>d.
     rbind (read_full file 0 PART_HEADER_LEN) (\<lambda>head.
     case PartHeader_decode head of
       None \<Rightarrow> Inl (BadFrame ''part header'')
     | Some h \<Rightarrow>
         rbind (recover Z file \<lparr> a_off = PART_HEADER_LEN, a_next_offset = ph_first_offset h, a_last_ts = None,
           a_records = 0, a_blocks = 0, a_digest = [], a_rows = [] \<rparr>) (\<lambda>a.
         Inr \<lparr> w_file = take (a_off a) file, w_index = index_header @ concat (map IndexRow_encode (a_rows a)),
               w_header = h, w_block_bytes = block_bytes, w_codec = codec, w_next_offset = a_next_offset a,
               w_last_ts = a_last_ts a, w_file_off = a_off a, w_block = [], w_block_first_ts = 0,
               w_block_first_offset = a_next_offset a, w_block_records = 0, w_records = a_records a,
               w_blocks = a_blocks a, w_digest = a_digest a, w_dict = d \<rparr>)))"

section \<open>The reader\<close>

record part_reader =
  r_file :: bytes
  r_header :: part_header
  r_footer :: "footer option"
  r_rows :: "index_row list"
  r_sealed :: bool
  r_dict :: "dict option"
  r_span :: "(u64 \<times> u64) option"

fun index_rows :: "bytes \<Rightarrow> nat \<Rightarrow> index_row list" where
  "index_rows b 0 = []"
| "index_rows b (Suc n) =
     (case IndexRow_decode (take INDEX_ROW_LEN b) of None \<Rightarrow> [] | Some row \<Rightarrow> row # index_rows (drop INDEX_ROW_LEN b) n)"

definition read_index :: "bytes option \<Rightarrow> index_row list" where
  "read_index file =
     (case file of
        None \<Rightarrow> []
      | Some b \<Rightarrow> if length b < INDEX_HEADER_LEN then []
          else let rest = drop INDEX_HEADER_LEN b in index_rows rest (length rest div INDEX_ROW_LEN))"

definition read_footer :: "bytes \<Rightarrow> footer option" where
  "read_footer file =
     (if length file < FOOTER_LEN + PART_HEADER_LEN then None
      else Footer_decode (drop (length file - FOOTER_LEN) file))"

definition read_part_block :: "zstd \<Rightarrow> bytes \<Rightarrow> index_row \<Rightarrow> (block_header \<times> bytes) sresult" where
  "read_part_block Z file row =
     rbind (read_full file (unat (ir_file_offset row)) BLOCK_HEADER_LEN) (\<lambda>head.
     case BlockHeader_decode head of
       None \<Rightarrow> Inl (BadFrame ''block header'')
     | Some block \<Rightarrow>
         rbind (read_full file (unat (ir_file_offset row) + BLOCK_HEADER_LEN) (unat (bh_len_c block))) (\<lambda>payload.
         rbind (decode_payload Z payload block) (\<lambda>raw. Inr (block, raw))))"

definition open_span :: "zstd \<Rightarrow> bytes \<Rightarrow> index_row list \<Rightarrow> footer option \<Rightarrow> (u64 \<times> u64) option sresult" where
  "open_span Z file rows footer =
     (case rows of
        [] \<Rightarrow> Inr None
      | row # _ \<Rightarrow>
          (case footer of
             Some f \<Rightarrow> Inr (Some (ir_first_ts row, ft_last_ts f))
           | None \<Rightarrow>
               let last_row = last rows in
               rbind (read_full file (unat (ir_file_offset last_row)) BLOCK_HEADER_LEN) (\<lambda>head.
               case BlockHeader_decode head of
                 None \<Rightarrow> Inl (BadFrame ''block header'')
               | Some block \<Rightarrow>
                   rbind (read_full file (unat (ir_file_offset last_row) + BLOCK_HEADER_LEN) (unat (ir_len_c last_row))) (\<lambda>b.
                   rbind (decode_payload Z b block) (\<lambda>raw.
                   rbind (last_ts_of raw (bh_first_ts block)) (\<lambda>last_ts.
                   Inr (Some (ir_first_ts row, case last_ts of Some ts \<Rightarrow> ts | None \<Rightarrow> bh_first_ts block))))))))"

text \<open>\<open>sealed\<close> says whether the file is a \<open>.log\<close>; the dictionary is loaded when its file exists.\<close>

definition PartReader_open ::
    "zstd \<Rightarrow> dict_config option \<Rightarrow> bytes \<Rightarrow> bytes option \<Rightarrow> bytes option \<Rightarrow> bool \<Rightarrow> part_reader sresult" where
  "PartReader_open Z config file index dict_file sealed =
     (let dict = map_option (\<lambda>f. Dict_load Z (case config of Some c \<Rightarrow> c | None \<Rightarrow> default_dict_config) (Some f)) dict_file in
      rbind (read_full file 0 PART_HEADER_LEN) (\<lambda>head.
      case PartHeader_decode head of
        None \<Rightarrow> Inl (BadFrame ''part header'')
      | Some h \<Rightarrow>
          let footer = (if sealed then read_footer file else None); rows = read_index index in
          rbind (open_span Z file rows footer) (\<lambda>span.
          Inr \<lparr> r_file = file, r_header = h, r_footer = footer, r_rows = rows, r_sealed = sealed, r_dict = dict,
                r_span = span \<rparr>)))"

definition offset_span :: "part_reader \<Rightarrow> u64 \<times> u64" where
  "offset_span r =
     (let start = ph_first_offset (r_header r) in
      (start, case r_footer r of
          Some f \<Rightarrow> start + ft_records f
        | None \<Rightarrow> if r_rows r = [] then start
            else ir_first_offset (last (r_rows r)) + ucast (ir_records (last (r_rows r)))))"

datatype select = Offset u64 | Time u64 u64

definition saturating_add :: "u64 \<Rightarrow> u64 \<Rightarrow> u64" where
  "saturating_add a b = (if unat a + unat b < 2 ^ 64 then a + b else - 1)"

type_synonym hit = "u64 \<times> u64 \<times> body"

definition wanted :: "select \<Rightarrow> u64 \<Rightarrow> u64 \<Rightarrow> bool" where
  "wanted sel ts offset = (case sel of Offset lo \<Rightarrow> lo \<le> offset | Time lo hi \<Rightarrow> lo \<le> ts \<and> ts \<le> hi)"

function scan_loop ::
    "dict option \<Rightarrow> select \<Rightarrow> nat \<Rightarrow> bytes \<Rightarrow> u64 \<Rightarrow> u64 \<Rightarrow> bool \<Rightarrow> hit list \<Rightarrow> (u64 \<times> hit list) sresult" where
  "scan_loop d sel max_hits raw offset ts is_first out =
     (if raw = [] then Inr (ts, out)
      else case get_record raw of
          None \<Rightarrow> Inr (ts, out)
        | Some ((delta, body), rest) \<Rightarrow>
            let ts = (if is_first then ts else saturating_add ts delta) in
            if wanted sel ts offset \<and> length out < max_hits then
              (case decode_with d body of
                 None \<Rightarrow> Inl (BadFrame ''body'')
               | Some items \<Rightarrow> scan_loop d sel max_hits rest (offset + 1) ts False (out @ [(ts, offset, items)]))
            else scan_loop d sel max_hits rest (offset + 1) ts False out)"
  by pat_completeness auto
termination by (relation "measure (\<lambda>(d, sel, m, raw, _). length raw)") (auto dest: get_record_shorter)

declare scan_loop.simps [simp del]

definition scan_block ::
    "block_header \<Rightarrow> bytes \<Rightarrow> select \<Rightarrow> nat \<Rightarrow> dict option \<Rightarrow> hit list \<Rightarrow> (u64 \<times> hit list) sresult" where
  "scan_block block raw sel max_hits d out = scan_loop d sel max_hits raw (bh_first_offset block) (bh_first_ts block) True out"

text \<open>\<open>partition_point\<close> on a slice partitioned by the predicate.\<close>

definition partition_point :: "('x \<Rightarrow> bool) \<Rightarrow> 'x list \<Rightarrow> nat" where
  "partition_point P xs = length (takeWhile P xs)"

fun read_from_rows :: "zstd \<Rightarrow> part_reader \<Rightarrow> u64 \<Rightarrow> nat \<Rightarrow> index_row list \<Rightarrow> hit list \<Rightarrow> hit list sresult" where
  "read_from_rows Z r lo max_hits [] out = Inr out"
| "read_from_rows Z r lo max_hits (row # rows) out =
     (if max_hits \<le> length out then Inr out
      else rbind (read_part_block Z (r_file r) row) (\<lambda>(block, raw).
        rbind (scan_block block raw (Offset lo) max_hits (r_dict r) out) (\<lambda>(_, out).
        read_from_rows Z r lo max_hits rows out)))"

definition read_from :: "zstd \<Rightarrow> part_reader \<Rightarrow> u64 \<Rightarrow> nat \<Rightarrow> hit list \<Rightarrow> hit list sresult" where
  "read_from Z r lo max_hits out =
     (let start = partition_point (\<lambda>row. ir_first_offset row \<le> lo) (r_rows r) - 1 in
      read_from_rows Z r lo max_hits (drop start (r_rows r)) out)"

fun read_time_rows :: "zstd \<Rightarrow> part_reader \<Rightarrow> u64 \<Rightarrow> u64 \<Rightarrow> nat \<Rightarrow> index_row list \<Rightarrow> hit list \<Rightarrow> hit list sresult" where
  "read_time_rows Z r lo hi max_hits [] out = Inr out"
| "read_time_rows Z r lo hi max_hits (row # rows) out =
     (if max_hits \<le> length out \<or> hi < ir_first_ts row then Inr out
      else rbind (read_part_block Z (r_file r) row) (\<lambda>(block, raw).
        rbind (scan_block block raw (Time lo hi) max_hits (r_dict r) out) (\<lambda>(last_ts, out).
        if hi < last_ts then Inr out else read_time_rows Z r lo hi max_hits rows out)))"

definition read_by_time :: "zstd \<Rightarrow> part_reader \<Rightarrow> u64 \<Rightarrow> u64 \<Rightarrow> nat \<Rightarrow> hit list \<Rightarrow> hit list sresult" where
  "read_by_time Z r lo hi max_hits out =
     (let start = partition_point (\<lambda>row. ir_first_ts row < lo) (r_rows r) - 1 in
      read_time_rows Z r lo hi max_hits (drop start (r_rows r)) out)"

end
