(* ===== verification/Okm_Series_Recovery.thy ===== *)
theory Okm_Series_Recovery
  imports Okm_Series_Part
begin

text \<open>
  What a part means: the file is its header and the images of the flushed blocks, the index one
  row per image, and every read answers the appended records, after a crash the records of the
  blocks that survived.
\<close>

section \<open>One block\<close>

text \<open>\<open>p\<close> is the timestamp before the block, a record its timestamp and its encoded body.\<close>

type_synonym recs = "(u64 \<times> bytes) list"

fun recs_ok :: "u64 \<Rightarrow> recs \<Rightarrow> bool" where
  "recs_ok p [] \<longleftrightarrow> True"
| "recs_ok p ((ts, e) # rs) \<longleftrightarrow> p \<le> ts \<and> put_record (ts - p) e \<noteq> None \<and> recs_ok ts rs"

fun block_raw :: "u64 \<Rightarrow> recs \<Rightarrow> bytes" where
  "block_raw p [] = []"
| "block_raw p ((ts, e) # rs) = the (put_record (ts - p) e) @ block_raw ts rs"

definition last_of :: "u64 \<Rightarrow> recs \<Rightarrow> u64" where
  "last_of p rs = (if rs = [] then p else fst (last rs))"

lemma last_of_simps [simp]: "last_of p [] = p" "last_of p ((ts, e) # rs) = last_of ts rs"
  by (simp_all add: last_of_def)

lemma last_of_append [simp]: "last_of p (xs @ ys) = last_of (last_of p xs) ys"
  by (simp add: last_of_def)

lemma recs_ok_append [simp]: "recs_ok p (xs @ ys) \<longleftrightarrow> recs_ok p xs \<and> recs_ok (last_of p xs) ys"
  by (induction xs arbitrary: p) auto

lemma block_raw_append [simp]: "block_raw p (xs @ ys) = block_raw p xs @ block_raw (last_of p xs) ys"
  by (induction xs arbitrary: p) auto

lemma record_long: "put_record d e = Some b \<Longrightarrow> 5 \<le> length b"
proof -
  have "0 < length (put_uvarint d)" by simp
  then have "Suc 0 \<le> length (put_uvarint d) + length e" by linarith
  then show "put_record d e = Some b \<Longrightarrow> 5 \<le> length b"
    by (auto simp: put_record_def Let_def split: if_splits)
qed

lemma raw_long: "recs_ok p rs \<Longrightarrow> 5 * length rs \<le> length (block_raw p rs)"
proof (induction rs arbitrary: p)
  case (Cons r rs)
  then show ?case using record_long by (cases r) fastforce
qed simp

lemma walk_raw: "recs_ok p rs \<Longrightarrow> walk_records (block_raw p rs) = length rs"
proof (induction rs arbitrary: p)
  case (Cons r rs)
  obtain ts e b where r: "r = (ts, e)" "put_record (ts - p) e = Some b" using Cons.prems by (cases r) auto
  then show ?case using Cons record_long [OF r(2)] get_put_record [OF r(2)]
    by (subst walk_records.simps) auto
qed (simp add: walk_records.simps)

lemma last_ts_rest: "recs_ok p rs \<Longrightarrow>
    last_ts_loop (block_raw p rs) p False res = Inr (if rs = [] then res else Some (last_of p rs))"
proof (induction rs arbitrary: p res)
  case (Cons r rs)
  obtain ts e b where r: "r = (ts, e)" "put_record (ts - p) e = Some b" using Cons.prems by (cases r) auto
  then show ?case using Cons record_long [OF r(2)] get_put_record [OF r(2)]
    by (subst last_ts_loop.simps) (auto simp: Let_def)
qed (simp add: last_ts_loop.simps)

lemma last_ts_raw: "recs_ok p rs \<Longrightarrow> rs \<noteq> [] \<Longrightarrow> last_ts_of (block_raw p rs) (fst (hd rs)) = Inr (Some (last_of p rs))"
proof (cases rs)
  case (Cons r rs')
  assume ok: "recs_ok p rs"
  then obtain ts e b where r: "r = (ts, e)" "put_record (ts - p) e = Some b" using Cons by (cases r) auto
  then show ?thesis using ok Cons record_long [OF r(2)] get_put_record [OF r(2)] last_ts_rest [of ts rs']
    unfolding last_ts_of_def by (subst last_ts_loop.simps) (auto simp: Let_def)
qed simp

text \<open>The records of a part with their offsets; \<open>B\<close> decodes a body.\<close>

fun hits :: "(bytes \<Rightarrow> body) \<Rightarrow> u64 \<Rightarrow> recs \<Rightarrow> hit list" where
  "hits B off [] = []"
| "hits B off ((ts, e) # rs) = (ts, off, B e) # hits B (off + 1) rs"

lemma length_hits [simp]: "length (hits B off rs) = length rs"
  by (induction rs arbitrary: off) auto

lemma hits_append: "hits B off (xs @ ys) = hits B off xs @ hits B (off + of_nat (length xs)) ys"
  by (induction xs arbitrary: off) (auto simp: add.assoc)

definition keep :: "select \<Rightarrow> hit \<Rightarrow> bool" where
  "keep sel = (\<lambda>(ts, off, body). wanted sel ts off)"

lemma saturating_step: "p \<le> ts \<Longrightarrow> saturating_add p (ts - p) = ts"
  using unsigned_less [of ts, where ?'a = nat]
  by (simp add: saturating_add_def unat_sub word_le_nat_alt)

lemma scan_rest:
  assumes "recs_ok p rs" "\<forall>(ts, e) \<in> set rs. decode_with d e = Some (B e)"
  shows "scan_loop d sel m (block_raw p rs) off p False out =
    Inr (last_of p rs, out @ take (m - length out) (filter (keep sel) (hits B off rs)))"
  using assms
proof (induction rs arbitrary: p off out)
  case (Cons r rs)
  obtain ts e b where r: "r = (ts, e)" "put_record (ts - p) e = Some b" "p \<le> ts" using Cons.prems by (cases r) auto
  have d: "decode_with d e = Some (B e)" using Cons.prems(2) r(1) by simp
  have "block_raw p (r # rs) \<noteq> []" using record_long [OF r(2)] r by auto
  then show ?case
    using Cons.IH [of ts "off + 1"] Cons.prems r d get_put_record [OF r(2)]
    by (subst scan_loop.simps) (auto simp: Let_def saturating_step keep_def take_Cons' Suc_diff_Suc)
qed (simp add: scan_loop.simps)

lemma scan_raw:
  assumes "recs_ok p rs" "rs \<noteq> []" "\<forall>(ts, e) \<in> set rs. decode_with d e = Some (B e)"
  shows "scan_loop d sel m (block_raw p rs) off (fst (hd rs)) True out =
    Inr (last_of p rs, out @ take (m - length out) (filter (keep sel) (hits B off rs)))"
proof (cases rs)
  case (Cons r rs')
  then obtain ts e b where r: "r = (ts, e)" "put_record (ts - p) e = Some b" using assms(1) by (cases r) auto
  have d: "decode_with d e = Some (B e)" using assms(3) r(1) Cons by simp
  have "block_raw p rs \<noteq> []" using record_long [OF r(2)] r Cons by auto
  then show ?thesis
    using assms Cons r d get_put_record [OF r(2)] scan_rest [of ts rs' d B sel m "off + 1"]
    by (subst scan_loop.simps) (auto simp: Let_def keep_def take_Cons' Suc_diff_Suc)
qed (use assms in simp)

section \<open>The blocks of a file\<close>

text \<open>\<open>img\<close> is the image of the block of records \<open>rs\<close> written at \<open>pos\<close>, \<open>row\<close> its index row.\<close>

definition block_at :: "zstd \<Rightarrow> u64 \<Rightarrow> u64 \<Rightarrow> nat \<Rightarrow> recs \<Rightarrow> bytes \<Rightarrow> index_row \<Rightarrow> bool" where
  "block_at Z p off pos rs img row \<longleftrightarrow> rs \<noteq> [] \<and> recs_ok p rs \<and> (\<exists>codec payload.
     let raw = block_raw p rs;
         h = \<lparr> bh_codec = codec, bh_records = of_nat (length rs), bh_len_c = of_nat (length payload),
               bh_len_u = of_nat (length raw), bh_first_ts = fst (hd rs), bh_first_offset = off \<rparr> in
     unpack Z codec payload (length raw) = Some raw \<and> payload \<noteq> [] \<and> length payload < 2 ^ 32 \<and> length raw < 2 ^ 32 \<and>
     img = BlockHeader_encode h @ payload \<and> IndexRow_from_header h pos = Some row)"

fun layout :: "zstd \<Rightarrow> u64 \<Rightarrow> u64 \<Rightarrow> nat \<Rightarrow> recs list \<Rightarrow> bytes list \<Rightarrow> index_row list \<Rightarrow> bool" where
  "layout Z p off pos (rs # bs) (img # imgs) (row # rows) \<longleftrightarrow> block_at Z p off pos rs img row \<and>
     layout Z (last_of p rs) (off + of_nat (length rs)) (pos + length img) bs imgs rows"
| "layout Z p off pos [] [] [] \<longleftrightarrow> True"
| "layout Z p off pos _ _ _ \<longleftrightarrow> False"

lemma layout_lengths: "layout Z p off pos bs imgs rows \<Longrightarrow> length imgs = length bs \<and> length rows = length bs"
  by (induction Z p off pos bs imgs rows rule: layout.induct) auto

lemma layout_snoc:
  "layout Z p off pos bs imgs rows \<Longrightarrow>
    block_at Z (last_of p (concat bs)) (off + of_nat (length (concat bs))) (pos + length (concat imgs)) rs img row \<Longrightarrow>
    layout Z p off pos (bs @ [rs]) (imgs @ [img]) (rows @ [row])"
  by (induction Z p off pos bs imgs rows rule: layout.induct) (auto simp: add.assoc)

lemma layout_take: "layout Z p off pos bs imgs rows \<Longrightarrow> layout Z p off pos (take k bs) (take k imgs) (take k rows)"
proof (induction Z p off pos bs imgs rows arbitrary: k rule: layout.induct)
  case (1 Z p off pos rs bs img imgs row rows)
  then show ?case by (cases k) auto
qed auto

lemma unpack_payload: "unpack Z codec payload n = Some raw \<Longrightarrow> bh_codec h = codec \<Longrightarrow> unat (bh_len_u h) = n \<Longrightarrow>
    decode_payload Z payload h = Inr raw"
  by (auto simp: decode_payload_def unpack_def split: block_codec.splits)

lemma block_read:
  assumes "block_at Z p off pos rs img row" "length pre = pos"
  shows "\<exists>h. read_part_block Z (pre @ img @ post) row = Inr (h, block_raw p rs) \<and>
      good_block Z (pre @ img @ post) pos = Some (h, block_raw p rs) \<and> IndexRow_from_header h pos = Some row \<and>
      bh_first_ts h = fst (hd rs) \<and> bh_first_offset h = off \<and> unat (bh_records h) = length rs \<and>
      bh_records h = of_nat (length rs) \<and>
      BLOCK_HEADER_LEN + unat (bh_len_c h) = length img \<and> unat (ir_file_offset row) = pos \<and> ir_len_c row = bh_len_c h \<and>
      ir_first_offset row = off \<and> ir_first_ts row = fst (hd rs) \<and> ir_records row = bh_records h \<and>
      BlockHeader_decode (take BLOCK_HEADER_LEN img) = Some h \<and> bh_len_c h \<noteq> 0"
proof -
  let ?raw = "block_raw p rs"
  obtain codec payload h where h: "h = \<lparr> bh_codec = codec, bh_records = of_nat (length rs), bh_len_c = of_nat (length payload),
      bh_len_u = of_nat (length ?raw), bh_first_ts = fst (hd rs), bh_first_offset = off \<rparr>"
    and b: "rs \<noteq> []" "recs_ok p rs" "unpack Z codec payload (length ?raw) = Some ?raw" "payload \<noteq> []" "length payload < 2 ^ 32"
      "length ?raw < 2 ^ 32" "img = BlockHeader_encode h @ payload" "IndexRow_from_header h pos = Some row"
    using assms(1) unfolding block_at_def Let_def by blast
  have n: "unat (of_nat (length payload) :: u32) = length payload" "unat (of_nat (length ?raw) :: u32) = length ?raw"
    "unat (of_nat (length rs) :: u32) = length rs"
    using b(5,6) raw_long [OF b(2)] by (simp_all add: unat_of_nat)
  have nz: "bh_len_c h \<noteq> 0" "bh_records h \<noteq> 0"
    using n b(1,4) by (auto simp: h word_unat_eq_iff)
  define f where "f = pre @ img @ post"
  have at: "take 40 (drop pos f) = BlockHeader_encode h" "take (length payload) (drop (pos + 40) f) = payload"
    "pos + 40 + length payload \<le> length f"
    using assms(2) by (simp_all add: f_def b(7))
  have dec: "BlockHeader_decode (BlockHeader_encode h) = Some h" using block_header_back [of h "[]"] by simp
  have pl: "decode_payload Z payload h = Inr ?raw" by (rule unpack_payload [OF b(3)]) (simp_all add: h n)
  have row: "unat (ir_file_offset row) = pos" "ir_len_c row = bh_len_c h" "ir_first_offset row = off"
    "ir_first_ts row = fst (hd rs)" "ir_records row = bh_records h"
    using b(8) by (auto simp: IndexRow_from_header_def h unat_of_nat split: if_splits)
  have "read_part_block Z f row = Inr (h, ?raw)"
    using at pl by (simp add: read_part_block_def read_full_def row dec) (simp add: h n)
  moreover have "good_block Z f pos = Some (h, ?raw)"
    using at pl nz walk_raw [OF b(2)] by (simp add: good_block_def read_full_def dec) (simp add: h n)
  ultimately show ?thesis unfolding f_def [symmetric]
    using b(7,8) row nz(1) dec by (intro exI [of _ h]) (simp add: h n)
qed

text \<open>A block whose image is cut off is not recovered.\<close>

lemma block_torn:
  assumes "block_at Z p off pos rs img row" "length pre = pos" "n < length img"
  shows "good_block Z (pre @ take n img) pos = None"
proof -
  obtain h where h: "BlockHeader_decode (take 40 img) = Some h" "40 + unat (bh_len_c h) = length img"
    using block_read [OF assms(1,2)] by auto
  show ?thesis
  proof (cases "n < 40")
    case False
    then have "take 40 (drop pos (pre @ take n img)) = take 40 img" using assms(2) by simp
    then show ?thesis using h assms(2,3) False by (simp add: good_block_def read_full_def)
  next
    case True
    then have "length (pre @ take n img) < pos + 40" using assms(2) by simp
    then show ?thesis by (simp add: good_block_def)
  qed
qed

lemma good_block_end: "length f \<le> pos \<Longrightarrow> good_block Z f pos = None"
  by (simp add: good_block_def)

section \<open>Recovery\<close>

text \<open>The number of images that lie inside the first \<open>n\<close> bytes.\<close>

fun whole :: "nat \<Rightarrow> bytes list \<Rightarrow> nat" where
  "whole n [] = 0"
| "whole n (img # imgs) = (if length img \<le> n then Suc (whole (n - length img) imgs) else 0)"

definition after :: "u64 \<Rightarrow> u64 \<Rightarrow> recs list \<Rightarrow> bytes list \<Rightarrow> index_row list \<Rightarrow> recovered \<Rightarrow> recovered" where
  "after p off bs imgs rows a =
     \<lparr> a_off = a_off a + length (concat imgs),
       a_next_offset = (if bs = [] then a_next_offset a else off + of_nat (length (concat bs))),
       a_last_ts = (if bs = [] then a_last_ts a else Some (last_of p (concat bs))),
       a_records = a_records a + of_nat (length (concat bs)), a_blocks = a_blocks a + of_nat (length bs),
       a_digest = a_digest a @ block_raw p (concat bs), a_rows = a_rows a @ rows \<rparr>"

lemma after_none [simp]: "after p off [] [] [] a = a"
  by (simp add: after_def)

lemma block_facts: "block_at Z p off pos rs img row \<Longrightarrow> rs \<noteq> [] \<and> recs_ok p rs \<and> length rs < 2 ^ 32"
  using raw_long [of p rs] by (auto simp: block_at_def Let_def)

lemma recover_blocks:
  "layout Z p off pos bs imgs rows \<Longrightarrow> length pre = pos \<Longrightarrow> a_off a = pos \<Longrightarrow>
    recover Z (pre @ take n (concat imgs)) a =
      Inr (after p off (take (whole n imgs) bs) (take (whole n imgs) imgs) (take (whole n imgs) rows) a)"
proof (induction Z p off pos bs imgs rows arbitrary: pre a n rule: layout.induct)
  case (1 Z p off pos rs bs img imgs row rows)
  have blk: "block_at Z p off pos rs img row" using "1.prems" by simp
  note facts = block_facts [OF blk]
  show ?case
  proof (cases "length img \<le> n")
    case False
    then have "good_block Z (pre @ take n (concat (img # imgs))) pos = None"
      using block_torn [OF blk "1.prems"(2)] by simp
    then show ?thesis using "1.prems"(3) False by (subst recover.simps) simp
  next
    case True
    let ?rest = "take (n - length img) (concat imgs)"
    have whole_file: "pre @ take n (concat (img # imgs)) = pre @ img @ ?rest" using True by simp
    obtain h where h: "good_block Z (pre @ img @ ?rest) pos = Some (h, block_raw p rs)" "IndexRow_from_header h pos = Some row"
      "bh_first_ts h = fst (hd rs)" "bh_first_offset h = off" "bh_records h = of_nat (length rs)"
      "40 + unat (bh_len_c h) = length img"
      using block_read [OF blk "1.prems"(2), of ?rest] by auto
    have cast: "ucast (of_nat (length rs) :: u32) = (of_nat (length rs) :: u64)"
      using facts by (simp add: unsigned_of_nat take_bit_nat_eq_self)
    let ?a = "after p off [rs] [img] [row] a"
    have step: "recover Z (pre @ img @ ?rest) a = recover Z ((pre @ img) @ ?rest) ?a"
      using "1.prems"(3) facts last_ts_raw [of p rs] h cast
      by (subst recover.simps) (simp add: after_def add.assoc)
    have "recover Z ((pre @ img) @ ?rest) ?a = Inr (after (last_of p rs) (off + of_nat (length rs))
        (take (whole (n - length img) imgs) bs) (take (whole (n - length img) imgs) imgs) (take (whole (n - length img) imgs) rows) ?a)"
      using "1.prems" by (intro "1.IH") (simp_all add: after_def)
    then show ?thesis unfolding whole_file step using True by (simp add: after_def add_ac)
  qed
next
  case (2 Z p off pos)
  then show ?case by (subst recover.simps) (simp add: good_block_end)
qed simp_all

section \<open>Reading\<close>

lemma read_index_rows: "read_index (Some (index_header @ concat (map IndexRow_encode rows))) = rows"
proof -
  have n: "length (concat (map IndexRow_encode rows)) = 32 * length rows" by (induction rows) auto
  have "index_rows (concat (map IndexRow_encode rows)) (length rows) = rows"
    by (induction rows) (simp_all add: index_row_back [of _ "[]", simplified])
  then show ?thesis using n by (simp add: read_index_def Let_def)
qed

lemma layout_recs: "layout Z p off pos bs imgs rows \<Longrightarrow> recs_ok p (concat bs) \<and> [] \<notin> set bs"
  by (induction Z p off pos bs imgs rows rule: layout.induct) (auto dest: block_facts)

lemma recs_ok_mono: "recs_ok p rs \<Longrightarrow> (ts, e) \<in> set rs \<Longrightarrow> p \<le> ts \<and> ts \<le> last_of p rs"
proof (induction rs arbitrary: p)
  case (Cons r rs)
  obtain t b where r: "r = (t, b)" by (cases r)
  have "t \<le> last_of t rs" if "recs_ok t rs" for t
    using that by (induction rs arbitrary: t) (auto intro: order_trans)
  then show ?case using Cons r by (auto intro: order_trans)
qed simp

lemma recs_ok_last: "recs_ok p rs \<Longrightarrow> p \<le> last_of p rs"
  by (induction rs arbitrary: p) (auto intro: order_trans)

text \<open>A read of a block is a filter of its records.\<close>

definition readable :: "dict option \<Rightarrow> recs \<Rightarrow> bool" where
  "readable D rs \<longleftrightarrow> (\<forall>(ts, e) \<in> set rs. decode_with D e \<noteq> None)"

definition body_of :: "dict option \<Rightarrow> bytes \<Rightarrow> body" where
  "body_of D e = the (decode_with D e)"

lemma scan_block_raw:
  assumes "recs_ok p rs" "rs \<noteq> []" "readable D rs" "bh_first_ts h = fst (hd rs)" "bh_first_offset h = off"
  shows "scan_block h (block_raw p rs) sel m D out =
    Inr (last_of p rs, out @ take (m - length out) (filter (keep sel) (hits (body_of D) off rs)))"
  unfolding scan_block_def assms(4,5)
  by (rule scan_raw) (use assms in \<open>auto simp: readable_def body_of_def\<close>)

lemma take_twice: "(out @ take (m - length out) xs) @ take (m - length (out @ take (m - length out) xs)) ys
    = out @ take (m - length out) (xs @ ys)"
  by (auto simp: min_def)

lemma read_from_rows_layout:
  "layout Z p off pos bs imgs rows \<Longrightarrow> length pre = pos \<Longrightarrow> r_file r = pre @ concat imgs @ post \<Longrightarrow> readable (r_dict r) (concat bs) \<Longrightarrow>
    read_from_rows Z r lo m rows out =
      Inr (out @ take (m - length out) (filter (keep (Offset lo)) (hits (body_of (r_dict r)) off (concat bs))))"
proof (induction Z p off pos bs imgs rows arbitrary: pre out rule: layout.induct)
  case (1 Z p off pos rs bs img imgs row rows)
  have blk: "block_at Z p off pos rs img row" using "1.prems" by simp
  note facts = block_facts [OF blk]
  obtain h where h: "read_part_block Z (pre @ img @ concat imgs @ post) row = Inr (h, block_raw p rs)"
    "bh_first_ts h = fst (hd rs)" "bh_first_offset h = off"
    using block_read [OF blk "1.prems"(2)] by blast
  let ?F = "\<lambda>rs. filter (keep (Offset lo)) (hits (body_of (r_dict r)) off rs)"
  have scan: "scan_block h (block_raw p rs) (Offset lo) m (r_dict r) out = Inr (last_of p rs, out @ take (m - length out) (?F rs))"
    by (rule scan_block_raw) (use facts h "1.prems"(4) in \<open>auto simp: readable_def\<close>)
  have "read_from_rows Z r lo m rows (out @ take (m - length out) (?F rs)) = Inr ((out @ take (m - length out) (?F rs)) @
      take (m - length (out @ take (m - length out) (?F rs)))
        (filter (keep (Offset lo)) (hits (body_of (r_dict r)) (off + of_nat (length rs)) (concat bs))))"
    by (rule "1.IH" [of "pre @ img"]) (use "1.prems" in \<open>auto simp: readable_def\<close>)
  then show ?case using h(1) scan "1.prems"(3) unfolding take_twice by (simp add: hits_append)
qed simp_all

lemma read_time_rows_layout:
  "layout Z p off pos bs imgs rows \<Longrightarrow> length pre = pos \<Longrightarrow> r_file r = pre @ concat imgs @ post \<Longrightarrow> readable (r_dict r) (concat bs) \<Longrightarrow>
    read_time_rows Z r lo hi m rows out =
      Inr (out @ take (m - length out) (filter (keep (Time lo hi)) (hits (body_of (r_dict r)) off (concat bs))))"
proof (induction Z p off pos bs imgs rows arbitrary: pre out rule: layout.induct)
  case (1 Z p off pos rs bs img imgs row rows)
  have blk: "block_at Z p off pos rs img row" using "1.prems" by simp
  note facts = block_facts [OF blk]
  obtain h where h: "read_part_block Z (pre @ img @ concat imgs @ post) row = Inr (h, block_raw p rs)"
    "bh_first_ts h = fst (hd rs)" "bh_first_offset h = off" "ir_first_ts row = fst (hd rs)"
    using block_read [OF blk "1.prems"(2)] by blast
  let ?H = "\<lambda>off rs. hits (body_of (r_dict r)) off rs" and ?o = "off + of_nat (length rs)"
  let ?F = "\<lambda>rs. filter (keep (Time lo hi)) (?H off rs)"
  have scan: "scan_block h (block_raw p rs) (Time lo hi) m (r_dict r) out = Inr (last_of p rs, out @ take (m - length out) (?F rs))"
    by (rule scan_block_raw) (use facts h "1.prems"(4) in \<open>auto simp: readable_def\<close>)
  have rest: "recs_ok (last_of p rs) (concat bs)" using layout_recs "1.prems"(1) by auto
  have none: "filter (keep (Time lo hi)) (?H k ys) = []" if "\<forall>(ts, e) \<in> set ys. hi < ts" for k ys
    using that by (induction ys arbitrary: k) (auto simp: keep_def wanted_def)
  have first_le: "fst (hd rs) \<le> last_of p rs" "p \<le> fst (hd rs)"
    using facts recs_ok_mono [of p rs "fst (hd rs)" "snd (hd rs)"] by auto
  have hd_le: "fst (hd rs) \<le> ts" if "(ts, e) \<in> set rs" for ts e
    using facts that by (cases rs) (auto dest: recs_ok_mono)
  consider "hi < fst (hd rs)" | "fst (hd rs) \<le> hi" "hi < last_of p rs" | "last_of p rs \<le> hi" by fastforce
  then show ?case
  proof cases
    case 1
    then have "filter (keep (Time lo hi)) (?H off (rs @ concat bs)) = []"
      using hd_le recs_ok_mono [OF rest] first_le by (intro none) force
    then show ?thesis using 1 h(4) by simp
  next
    case 2
    then have "filter (keep (Time lo hi)) (?H ?o (concat bs)) = []"
      using recs_ok_mono [OF rest] by (intro none) force
    then show ?thesis using 2 h(1,4) scan "1.prems"(3) by (simp add: hits_append)
  next
    case 3
    have "read_time_rows Z r lo hi m rows (out @ take (m - length out) (?F rs)) = Inr ((out @ take (m - length out) (?F rs)) @
        take (m - length (out @ take (m - length out) (?F rs))) (filter (keep (Time lo hi)) (?H ?o (concat bs))))"
      by (rule "1.IH" [of "pre @ img"]) (use "1.prems" in \<open>auto simp: readable_def\<close>)
    then show ?thesis using 3 first_le h(1,4) scan "1.prems"(3) unfolding take_twice by (simp add: hits_append)
  qed
qed simp_all

text \<open>The blocks before the partition point hold no wanted record.\<close>

lemma hits_offset: "unat off + length rs < 2 ^ 64 \<Longrightarrow> (ts, k, b) \<in> set (hits B off rs) \<Longrightarrow> unat k < unat off + length rs"
proof (induction rs arbitrary: off)
  case (Cons r rs)
  have "unat (off + 1) = Suc (unat off)" using Cons.prems(1) by (simp add: unat_word_ariths)
  moreover obtain t e where "r = (t, e)" by (cases r)
  ultimately show ?case using Cons.IH [of "off + 1"] Cons.prems by auto
qed simp

lemma hits_ts: "(ts, k, b) \<in> set (hits B off rs) \<Longrightarrow> ts \<in> fst ` set rs"
  by (induction rs arbitrary: off) (fastforce split: prod.splits)+

lemma skip_offsets:
  "layout Z p off pos bs imgs rows \<Longrightarrow> unat off + length (concat bs) < 2 ^ 64 \<Longrightarrow>
    k = partition_point (\<lambda>row. ir_first_offset row \<le> lo) rows - 1 \<Longrightarrow>
    filter (keep (Offset lo)) (hits B off (concat (take k bs))) = []"
proof (induction Z p off pos bs imgs rows arbitrary: k rule: layout.induct)
  case (1 Z p off pos rs bs img imgs row rows)
  show ?case
  proof (cases k)
    case (Suc j)
    let ?o = "off + of_nat (length rs) :: u64"
    obtain row' rows' where rows: "rows = row' # rows'" "ir_first_offset row \<le> lo" "ir_first_offset row' \<le> lo"
      using "1.prems"(3) Suc by (cases rows) (auto simp: partition_point_def split: if_splits)
    then obtain rs' bs' img' imgs' where bs: "bs = rs' # bs'" "imgs = img' # imgs'"
      using "1.prems"(1) by (cases bs; cases imgs) auto
    have "block_at Z (last_of p rs) ?o (pos + length img) rs' img' row'" using "1.prems"(1) rows bs by simp
    then have o: "ir_first_offset row' = ?o" using block_read [of Z _ ?o _ rs' img' row' "replicate (pos + length img) 0" "[]"] by auto
    have no: "unat ?o = unat off + length rs" using "1.prems"(2) by (simp add: unat_word_ariths unat_of_nat)
    have "filter (keep (Offset lo)) (hits B off rs) = []"
    proof (rule filter_False, intro ballI)
      fix x assume x: "x \<in> set (hits B off rs)"
      obtain ts i b where i: "x = (ts, i, b)" by (cases x)
      have "unat i < unat off + length rs" using hits_offset [of off rs ts i b B] x i "1.prems"(2) by simp
      then show "\<not> keep (Offset lo) x" using rows(3) no unfolding i keep_def wanted_def o by (simp add: word_le_nat_alt)
    qed
    moreover have "filter (keep (Offset lo)) (hits B ?o (concat (take j bs))) = []"
      by (rule "1.IH") (use "1.prems" rows Suc no in \<open>auto simp: partition_point_def\<close>)
    ultimately show ?thesis using Suc by (simp add: hits_append)
  qed simp
qed simp_all

lemma skip_times:
  "layout Z p off pos bs imgs rows \<Longrightarrow> k = partition_point (\<lambda>row. ir_first_ts row < lo) rows - 1 \<Longrightarrow>
    filter (keep (Time lo hi)) (hits B off (concat (take k bs))) = []"
proof (induction Z p off pos bs imgs rows arbitrary: k rule: layout.induct)
  case (1 Z p off pos rs bs img imgs row rows)
  show ?case
  proof (cases k)
    case (Suc j)
    let ?o = "off + of_nat (length rs) :: u64"
    obtain row' rows' where rows: "rows = row' # rows'" "ir_first_ts row < lo" "ir_first_ts row' < lo"
      using "1.prems"(2) Suc by (cases rows) (auto simp: partition_point_def split: if_splits)
    then obtain rs' bs' img' imgs' where bs: "bs = rs' # bs'" "imgs = img' # imgs'"
      using "1.prems"(1) by (cases bs; cases imgs) auto
    have blk: "block_at Z (last_of p rs) ?o (pos + length img) rs' img' row'" using "1.prems"(1) rows bs by simp
    then have "ir_first_ts row' = fst (hd rs')" using block_read [of Z _ ?o _ rs' img' row' "replicate (pos + length img) 0" "[]"] by auto
    moreover have "last_of p rs \<le> fst (hd rs')"
      using block_facts [OF blk] recs_ok_mono [of "last_of p rs" rs' "fst (hd rs')" "snd (hd rs')"] by auto
    ultimately have less: "last_of p rs < lo" using rows(3) by simp
    have ok: "recs_ok p rs" using "1.prems"(1) block_facts by auto
    have "filter (keep (Time lo hi)) (hits B off rs) = []"
    proof (rule filter_False, intro ballI)
      fix x assume x: "x \<in> set (hits B off rs)"
      obtain ts i b where i: "x = (ts, i, b)" by (cases x)
      have "ts \<le> last_of p rs" using hits_ts [of ts i b B off rs] x i recs_ok_mono [OF ok] by auto
      then show "\<not> keep (Time lo hi) x" using less unfolding i keep_def wanted_def by auto
    qed
    moreover have "filter (keep (Time lo hi)) (hits B ?o (concat (take j bs))) = []"
      by (rule "1.IH") (use "1.prems" rows Suc in \<open>auto simp: partition_point_def\<close>)
    ultimately show ?thesis using Suc by (simp add: hits_append)
  qed simp
qed simp_all

lemma layout_drop: "layout Z p off pos bs imgs rows \<Longrightarrow>
    layout Z (last_of p (concat (take k bs))) (off + of_nat (length (concat (take k bs)))) (pos + length (concat (take k imgs)))
      (drop k bs) (drop k imgs) (drop k rows)"
proof (induction Z p off pos bs imgs rows arbitrary: k rule: layout.induct)
  case (1 Z p off pos rs bs img imgs row rows)
  then show ?case by (cases k) (auto simp: add.assoc)
qed auto

definition part_image :: "zstd \<Rightarrow> part_header \<Rightarrow> recs list \<Rightarrow> bytes \<Rightarrow> index_row list \<Rightarrow> bytes \<Rightarrow> bool" where
  "part_image Z h bs file rows trailer \<longleftrightarrow> (\<exists>imgs. layout Z 0 (ph_first_offset h) PART_HEADER_LEN bs imgs rows \<and>
     file = PartHeader_encode h @ concat imgs @ trailer)"

lemma concat_take_drop: "concat (take k xs) @ concat (drop k xs) = concat xs"
  by (metis append_take_drop_id concat_append)

lemma read_from_image:
  assumes "part_image Z h bs (r_file r) (r_rows r) trailer" "readable (r_dict r) (concat bs)"
    and "unat (ph_first_offset h) + length (concat bs) < 2 ^ 64"
  shows "read_from Z r lo m out =
    Inr (out @ take (m - length out) (filter (keep (Offset lo)) (hits (body_of (r_dict r)) (ph_first_offset h) (concat bs))))"
proof -
  obtain imgs where lay: "layout Z 0 (ph_first_offset h) 48 bs imgs (r_rows r)"
    and fl: "r_file r = PartHeader_encode h @ concat imgs @ trailer"
    using assms(1) unfolding part_image_def by auto
  define k where "k = partition_point (\<lambda>row. ir_first_offset row \<le> lo) (r_rows r) - 1"
  let ?H = "\<lambda>off rs. filter (keep (Offset lo)) (hits (body_of (r_dict r)) off rs)"
  have fl': "r_file r = (PartHeader_encode h @ concat (take k imgs)) @ concat (drop k imgs) @ trailer"
    by (simp only: fl concat_take_drop [of k imgs, symmetric] append_assoc)
  have rd: "readable (r_dict r) (concat (drop k bs))"
    using assms(2) set_drop_subset [of k bs] by (fastforce simp: readable_def)
  have "?H (ph_first_offset h) (concat (take k bs)) = []" by (rule skip_offsets [OF lay assms(3) k_def])
  then have "?H (ph_first_offset h) (concat bs) =
      ?H (ph_first_offset h + of_nat (length (concat (take k bs)))) (concat (drop k bs))"
    using hits_append [of "body_of (r_dict r)" "ph_first_offset h" "concat (take k bs)" "concat (drop k bs)"]
    by (simp add: concat_take_drop)
  then show ?thesis
    using read_from_rows_layout [OF layout_drop [OF lay, of k] _ fl' rd, of lo m out]
    unfolding read_from_def Let_def k_def [symmetric] by simp
qed

lemma read_time_image:
  assumes "part_image Z h bs (r_file r) (r_rows r) trailer" "readable (r_dict r) (concat bs)"
  shows "read_by_time Z r lo hi m out =
    Inr (out @ take (m - length out) (filter (keep (Time lo hi)) (hits (body_of (r_dict r)) (ph_first_offset h) (concat bs))))"
proof -
  obtain imgs where lay: "layout Z 0 (ph_first_offset h) 48 bs imgs (r_rows r)"
    and fl: "r_file r = PartHeader_encode h @ concat imgs @ trailer"
    using assms(1) unfolding part_image_def by auto
  define k where "k = partition_point (\<lambda>row. ir_first_ts row < lo) (r_rows r) - 1"
  let ?H = "\<lambda>off rs. filter (keep (Time lo hi)) (hits (body_of (r_dict r)) off rs)"
  have fl': "r_file r = (PartHeader_encode h @ concat (take k imgs)) @ concat (drop k imgs) @ trailer"
    by (simp only: fl concat_take_drop [of k imgs, symmetric] append_assoc)
  have rd: "readable (r_dict r) (concat (drop k bs))"
    using assms(2) set_drop_subset [of k bs] by (fastforce simp: readable_def)
  have "?H (ph_first_offset h) (concat (take k bs)) = []" by (rule skip_times [OF lay k_def])
  then have "?H (ph_first_offset h) (concat bs) =
      ?H (ph_first_offset h + of_nat (length (concat (take k bs)))) (concat (drop k bs))"
    using hits_append [of "body_of (r_dict r)" "ph_first_offset h" "concat (take k bs)" "concat (drop k bs)"]
    by (simp add: concat_take_drop)
  then show ?thesis
    using read_time_rows_layout [OF layout_drop [OF lay, of k] _ fl' rd, of lo hi m out]
    unfolding read_by_time_def Let_def k_def [symmetric] by simp
qed

section \<open>Opening\<close>

lemma layout_last:
  "layout Z p off pos bs imgs rows \<Longrightarrow> bs \<noteq> [] \<Longrightarrow> \<exists>q k.
    block_at Z q k (pos + length (concat (butlast imgs))) (last bs) (last imgs) (last rows) \<and>
    last_of q (last bs) = last_of p (concat bs) \<and> imgs \<noteq> [] \<and> rows \<noteq> [] \<and> ir_first_ts (hd rows) = fst (hd (concat bs)) \<and>
    k + of_nat (length (last bs)) = off + of_nat (length (concat bs))"
proof (induction Z p off pos bs imgs rows rule: layout.induct)
  case (1 Z p off pos rs bs img imgs row rows)
  have blk: "block_at Z p off pos rs img row" using "1.prems" by simp
  have row: "ir_first_ts row = fst (hd rs)" "rs \<noteq> []"
    using block_read [OF blk, of "replicate pos 0" "[]"] block_facts [OF blk] by auto
  have len: "length imgs = length bs" "length rows = length bs" using layout_lengths [of Z _ _ _ bs imgs rows] "1.prems" by auto
  show ?case
  proof (cases "bs = []")
    case True
    then show ?thesis using "1.prems" len row by (intro exI [of _ p] exI [of _ off]) auto
  next
    case False
    then have "imgs \<noteq> []" "rows \<noteq> []" using len by auto
    then show ?thesis using "1.IH" "1.prems" False row by (auto simp: add_ac)
  qed
qed simp_all

definition reader_dict :: "zstd \<Rightarrow> dict_config option \<Rightarrow> bytes option \<Rightarrow> dict option" where
  "reader_dict Z c dict_file = map_option (\<lambda>f. Dict_load Z (case c of Some c \<Rightarrow> c | None \<Rightarrow> default_dict_config) (Some f)) dict_file"

lemma open_image:
  assumes "part_image Z h bs file rows trailer" "footer = (if sealed then read_footer file else None)"
  shows "PartReader_open Z c file (Some (index_header @ concat (map IndexRow_encode rows))) dict_file sealed =
    Inr \<lparr> r_file = file, r_header = h, r_footer = footer, r_rows = rows, r_sealed = sealed, r_dict = reader_dict Z c dict_file,
      r_span = (if bs = [] then None else Some (fst (hd (concat bs)),
        case footer of Some f \<Rightarrow> ft_last_ts f | None \<Rightarrow> last_of 0 (concat bs))) \<rparr>"
proof -
  obtain imgs where lay: "layout Z 0 (ph_first_offset h) 48 bs imgs rows"
    and fl: "file = PartHeader_encode h @ concat imgs @ trailer"
    using assms(1) unfolding part_image_def by auto
  have head: "read_full file 0 48 = Inr (PartHeader_encode h)" "PartHeader_decode (PartHeader_encode h) = Some h"
    using part_header_back [of h "[]"] by (simp_all add: read_full_def fl)
  have "open_span Z file rows footer = Inr (if bs = [] then None else Some (fst (hd (concat bs)),
        case footer of Some f \<Rightarrow> ft_last_ts f | None \<Rightarrow> last_of 0 (concat bs)))"
  proof (cases "bs = []")
    case True
    then show ?thesis using layout_lengths [OF lay] by (simp add: open_span_def)
  next
    case False
    obtain q o1 where last: "block_at Z q o1 (48 + length (concat (butlast imgs))) (last bs) (last imgs) (last rows)"
      "last_of q (last bs) = last_of 0 (concat bs)" "imgs \<noteq> []" "rows \<noteq> []" "ir_first_ts (hd rows) = fst (hd (concat bs))"
      using layout_last [OF lay False] by blast
    let ?pos = "48 + length (concat (butlast imgs))"
    have cat: "concat imgs = concat (butlast imgs) @ last imgs"
      using last(3) by (metis append_butlast_last_id concat_append concat.simps append_Nil2)
    then have fl': "file = (PartHeader_encode h @ concat (butlast imgs)) @ last imgs @ trailer" by (simp only: fl cat append_assoc)
    obtain bh where bh: "read_part_block Z file (last rows) = Inr (bh, block_raw q (last bs))" "bh_first_ts bh = fst (hd (last bs))"
      "ir_len_c (last rows) = bh_len_c bh"
      using block_read [OF last(1), of "PartHeader_encode h @ concat (butlast imgs)" trailer] fl' by auto
    obtain r1 rest where rows: "rows = r1 # rest" using last(4) by (cases rows) auto
    define lr where "lr = last rows"
    obtain hb b where hb: "read_full file (unat (ir_file_offset lr)) 40 = Inr hb" "BlockHeader_decode hb = Some bh"
      "read_full file (unat (ir_file_offset lr) + 40) (unat (ir_len_c lr)) = Inr b" "decode_payload Z b bh = Inr (block_raw q (last bs))"
      using bh(1,3) by (auto simp: read_part_block_def lr_def split: option.splits)
    have "last_ts_of (block_raw q (last bs)) (fst (hd (last bs))) = Inr (Some (last_of q (last bs)))"
      using last_ts_raw block_facts [OF last(1)] by blast
    then show ?thesis using False last(2,5) hb bh(2)
      by (cases footer) (simp_all add: rows open_span_def Let_def lr_def [unfolded rows, symmetric] del: last.simps)
  qed
  then show ?thesis using head read_index_rows [of rows] by (simp add: PartReader_open_def reader_dict_def rbind_def Let_def assms(2))
qed

end
