(* ===== verification/Okm_Series_Runs.thy ===== *)
theory Okm_Series_Runs
  imports Okm_Series_Recovery
begin

text \<open>
  Runs of a part writer: appends, refused appends, flushes and crashes. What a reader sees is what
  was appended.
\<close>

section \<open>Bodies without a dictionary\<close>

lemma encode_plain:
  "body_ok items \<Longrightarrow> \<exists>b. encode_with Z hash items None = Some (b, None) \<and> decode_with None b = Some items"
proof (induction items)
  case Nil
  then show ?case by (simp add: decode_with.simps [of _ "[]"])
next
  case (Cons item items)
  obtain tag v where item: "item = (tag, v)" by (cases item)
  obtain bs where bs: "encode_with Z hash items None = Some (bs, None)" "decode_with None bs = Some items"
    using Cons by (auto simp: body_ok_def)
  have "log_value_ok v" using Cons.prems item by (simp add: body_ok_def)
  then obtain b where b: "encode_log_value Z hash v None = Some (b, None)"
    "\<And>t. \<exists>kind r. b @ t = kind # r \<and> decode_log_value None kind r = Some (v, t)"
    using inline_back [where D = None] by (cases v) auto
  let ?b = "put_uvarint (ucast tag) @ b @ bs"
  obtain kind r where k: "b @ bs = kind # r" "decode_log_value None kind r = Some (v, bs)" using b(2) by blast
  have "unat tag < 2 ^ 16" using unsigned_less [of tag, where ?'a = nat] by simp
  then have "unat (ucast tag :: u64) < 2 ^ 16" by (simp add: unsigned_ucast_eq take_bit_nat_eq_self)
  moreover have "ucast (ucast tag :: u64) = tag" by (intro bit_word_eqI) (auto simp: bit_simps)
  ultimately have "decode_item None ?b = Some ((tag, v), bs)"
    by (simp add: decode_item_def rd_bind_def rd_ret_def uvarint.get_put k)
  then have "decode_with None ?b = Some (item # items)"
    using bs(2) uvarint.get_put [of "ucast tag" "b @ bs"] by (subst decode_with.simps) (auto simp: item get_uvarint_def)
  then show ?case using b(1) bs(1) item by simp
qed

section \<open>The state of a writer\<close>

definition reads_as :: "dict option \<Rightarrow> bytes \<Rightarrow> body \<Rightarrow> bool" where
  "reads_as d e body \<longleftrightarrow> (case d of
     None \<Rightarrow> decode_with None e = Some body
   | Some d \<Rightarrow> \<forall>D. dict_le d D \<longrightarrow> decode_with (Some D) e = Some body)"

definition encodes :: "dict option \<Rightarrow> (u64 \<times> body) list \<Rightarrow> recs \<Rightarrow> bool" where
  "encodes d xs rs \<longleftrightarrow> list_all2 (\<lambda>(ts, body) (ts', e). ts = ts' \<and> reads_as d e body) xs rs"

text \<open>\<open>d0\<close> is the dictionary the flushed blocks use: all of it is on disk.\<close>

definition dict_state :: "zstd \<Rightarrow> dict option \<Rightarrow> dict option \<Rightarrow> bool" where
  "dict_state Z d0 d \<longleftrightarrow> (case (d0, d) of
     (None, None) \<Rightarrow> True
   | (Some d0, Some d) \<Rightarrow> dict_live Z d \<and> block_fits (d_blocks d ! d_open d) \<and> dict_le d0 d \<and>
       (\<forall>c. dict_le d0 (Dict_load Z c (Some (d_file d))))
   | _ \<Rightarrow> False)"

definition dict_leq :: "dict option \<Rightarrow> dict option \<Rightarrow> bool" where
  "dict_leq d d' \<longleftrightarrow> (case (d, d') of (None, None) \<Rightarrow> True | (Some d, Some d') \<Rightarrow> dict_le d d' | _ \<Rightarrow> False)"

lemma encodes_mono: "dict_leq d d' \<Longrightarrow> encodes d xs rs \<Longrightarrow> encodes d' xs rs"
  unfolding encodes_def
  by (erule list_all2_mono) (auto simp: dict_leq_def reads_as_def split: option.splits intro: dict_le_trans)

lemma encodes_append: "encodes d xs rs \<Longrightarrow> encodes d ys ss \<Longrightarrow> encodes d (xs @ ys) (rs @ ss)"
  by (simp add: encodes_def list_all2_appendI)

lemma encodes_length: "encodes d xs rs \<Longrightarrow> length rs = length xs"
  by (auto simp: encodes_def dest: list_all2_lengthD)

definition part_state ::
    "zstd \<Rightarrow> part_header \<Rightarrow> (u64 \<times> body) list \<Rightarrow> recs list \<Rightarrow> bytes list \<Rightarrow> recs \<Rightarrow> index_row list \<Rightarrow> part_writer \<Rightarrow> bool" where
  "part_state Z h xs bs imgs pend rows w \<longleftrightarrow>
     layout Z 0 (ph_first_offset h) PART_HEADER_LEN bs imgs rows \<and> recs_ok 0 (concat bs @ pend) \<and>
     w_file w = PartHeader_encode h @ concat imgs \<and> w_file_off w = length (w_file w) \<and>
     w_index w = index_header @ concat (map IndexRow_encode rows) \<and>
     w_block w = block_raw (last_of 0 (concat bs)) pend \<and> w_block_records w = of_nat (length pend) \<and>
     (pend \<noteq> [] \<longrightarrow> w_block_first_ts w = fst (hd pend) \<and>
        w_block_first_offset w = ph_first_offset h + of_nat (length (concat bs))) \<and>
     w_next_offset w = ph_first_offset h + of_nat (length (concat bs @ pend)) \<and>
     w_last_ts w = (if concat bs @ pend = [] then None else Some (last_of 0 (concat bs @ pend))) \<and>
     w_records w = of_nat (length (concat bs)) \<and> w_blocks w = of_nat (length bs) \<and>
     w_digest w = block_raw 0 (concat bs) \<and>
     (\<exists>d0 ys zs. xs = ys @ zs \<and> dict_state Z d0 (w_dict w) \<and> encodes d0 ys (concat bs) \<and> encodes (w_dict w) zs pend)"

lemma create_state: "part_state Z h [] [] [] [] [] (PartWriter_create h block_bytes codec dict)"
proof -
  have live: "dict_live Z (Dict_create c)" "on_disk Z 0 (Dict_create c)" for c
    using create_live create_on_disk by auto
  have le: "dict_le (Dict_create c) d" for c d by (auto simp: dict_le_def dict_lookup_def Dict_create_def Let_def split: if_splits)
  have "block_fits (d_blocks (Dict_create c) ! d_open (Dict_create c))" for c
    by (simp add: Dict_create_def block_fits_def entries_fit_def entries_payload_def)
  then have "dict_state Z (map_option Dict_create dict) (map_option Dict_create dict)"
    using live(1) le by (auto simp: dict_state_def split: option.splits)
  then show ?thesis
    by (auto simp: part_state_def PartWriter_create_def encodes_def intro!: exI [of _ "map_option Dict_create dict"])
qed

section \<open>Flushing\<close>

lemma flush_dict_ok:
  assumes "zstd_ok Z" "dict_state Z d0 d"
  shows "\<exists>d'. flush_dict Z d = (Inr (), d') \<and> dict_state Z d' d' \<and> dict_leq d0 d' \<and> dict_leq d d'"
proof (cases d)
  case None
  then show ?thesis using assms(2) by (auto simp: flush_dict_def dict_state_def dict_leq_def split: option.splits)
next
  case (Some e)
  then obtain e0 where e0: "d0 = Some e0" "dict_live Z e" "block_fits (d_blocks e ! d_open e)" "dict_le e0 e"
    using assms(2) by (auto simp: dict_state_def split: option.splits)
  define e' where "e' = snd (flush_if_dirty Z e)"
  have "flush_if_dirty Z e = (Inr (), e') \<and> dict_live Z e' \<and> dict_le e e' \<and>
    dict_le e' (Dict_load Z c (Some (d_file e'))) \<and> block_fits (d_blocks e' ! d_open e')" for c
    using flush_live [OF assms(1) e0(2,3), of c] by (auto simp: e'_def)
  then show ?thesis using Some e0 dict_le_trans
    by (auto simp: flush_dict_def dict_state_def dict_leq_def)
qed

lemma block_payload_ok:
  assumes "zstd_ok Z" "raw \<noteq> []"
  obtains codec' payload where "block_payload Z codec raw = Some (codec', payload)" "unpack Z codec' payload (length raw) = Some raw"
    "payload \<noteq> []" "length payload \<le> length raw"
proof (cases codec)
  case Raw
  then show ?thesis using that assms(2) by (simp add: block_payload_def unpack_def)
next
  case Zstd
  then show ?thesis using that pack_ok [OF assms(1), of raw] assms(2) by (metis block_payload_def block_codec.simps(4))
qed

text \<open>A flush that answers adds one block with everything pending.\<close>

lemma flush_state:
  assumes "zstd_ok Z" "part_state Z h xs bs imgs pend rows w" "w_block_records w \<noteq> 0" "flush_block Z w = (Inr (), w')"
  shows "\<exists>img row. part_state Z h xs (bs @ [pend]) (imgs @ [img]) [] (rows @ [row]) w' \<and> w_dict w' \<noteq> None = (w_dict w \<noteq> None)"
proof -
  let ?raw = "block_raw (last_of 0 (concat bs)) pend" and ?off = "ph_first_offset h + of_nat (length (concat bs)) :: u64"
  obtain d0 ys zs where st: "xs = ys @ zs" "dict_state Z d0 (w_dict w)" "encodes d0 ys (concat bs)" "encodes (w_dict w) zs pend"
    "layout Z 0 (ph_first_offset h) 48 bs imgs rows" "recs_ok 0 (concat bs @ pend)"
    "w_file w = PartHeader_encode h @ concat imgs" "w_file_off w = length (w_file w)"
    "w_block w = ?raw" "w_block_records w = of_nat (length pend)"
    using assms(2) unfolding part_state_def by auto
  have pend: "pend \<noteq> []" using assms(3) st(10) by auto
  then have first: "w_block_first_ts w = fst (hd pend)" "w_block_first_offset w = ?off"
    using assms(2) by (auto simp: part_state_def)
  have ok: "recs_ok (last_of 0 (concat bs)) pend" using st(6) by simp
  have raw: "?raw \<noteq> []" using raw_long [OF ok] pend by auto
  obtain d where d: "flush_dict Z (w_dict w) = (Inr (), d)" "dict_state Z d d" "dict_leq d0 d" "dict_leq (w_dict w) d"
    using flush_dict_ok [OF assms(1) st(2)] by blast
  obtain codec payload where pl: "block_payload Z (w_codec w) ?raw = Some (codec, payload)"
    "unpack Z codec payload (length ?raw) = Some ?raw" "payload \<noteq> []" "length payload \<le> length ?raw"
    by (rule block_payload_ok [OF assms(1) raw])
  define bh where "bh = \<lparr> bh_codec = codec, bh_records = of_nat (length pend), bh_len_c = of_nat (length payload),
    bh_len_u = of_nat (length ?raw), bh_first_ts = fst (hd pend), bh_first_offset = ?off \<rparr>"
  let ?pos = "length (w_file w)" and ?img = "BlockHeader_encode bh @ payload"
  have wr: "write_at (w_file w) ?pos ?img = w_file w @ ?img" by (simp add: write_at_def)
  have size: "length payload < 2 ^ 32" "length ?raw < 2 ^ 32"
    using assms(3,4) d(1) pl(1) st(9) by (auto simp: flush_block_def Let_def not_le split: if_splits)
  obtain row where row: "IndexRow_from_header bh ?pos = Some row"
    using assms(3,4) d(1) pl(1) st(8-10) size first
    by (cases "IndexRow_from_header bh ?pos") (auto simp: flush_block_def Let_def bh_def)
  have blk: "block_at Z (last_of 0 (concat bs)) ?off ?pos pend ?img row"
    unfolding block_at_def Let_def using ok pend pl size row
    by (intro conjI exI [of _ codec] exI [of _ payload]) (simp_all add: bh_def)
  have w': "w' = w \<lparr> w_dict := d, w_block := [], w_file := w_file w @ ?img, w_records := w_records w + ucast (bh_records bh),
      w_blocks := w_blocks w + 1, w_digest := w_digest w @ ?raw, w_index := w_index w @ IndexRow_encode row,
      w_file_off := ?pos + 40 + length payload, w_block_records := 0, w_block_first_offset := w_next_offset w \<rparr>"
    using assms(3,4) d(1) pl(1) st(8-10) size first row wr
    by (simp add: flush_block_def Let_def bh_def)
  have cast: "ucast (of_nat (length pend) :: u32) = (of_nat (length pend) :: u64)"
    using size raw_long [OF ok] by (simp add: unsigned_of_nat take_bit_nat_eq_self)
  have lay: "layout Z 0 (ph_first_offset h) 48 (bs @ [pend]) (imgs @ [?img]) (rows @ [row])"
    using layout_snoc [OF st(5)] blk st(7) by simp
  have "encodes d xs (concat bs @ pend)"
    unfolding st(1) using encodes_mono d(3,4) st(3,4) by (intro encodes_append) blast+
  moreover have "encodes d [] []" by (simp add: encodes_def)
  ultimately have "\<exists>d0 ys zs. xs = ys @ zs \<and> dict_state Z d0 d \<and> encodes d0 ys (concat bs @ pend) \<and> encodes d zs []"
    using d(2) by (intro exI [of _ d] exI [of _ xs] exI [of _ "[]"]) simp
  moreover have "d \<noteq> None = (w_dict w \<noteq> None)" using d(4) by (auto simp: dict_leq_def split: option.splits)
  moreover have "bh_records bh = of_nat (length pend)" by (simp add: bh_def)
  ultimately show ?thesis using assms(2) lay pend cast unfolding part_state_def w'
    by (intro exI [of _ ?img] exI [of _ row]) (simp add: st(8))
qed

section \<open>Appending\<close>

text \<open>The strings of the body find room in the open dictionary block.\<close>

definition fits_dict :: "body \<Rightarrow> part_writer \<Rightarrow> bool" where
  "fits_dict body w \<longleftrightarrow> (case w_dict w of None \<Rightarrow> True | Some d \<Rightarrow>
     dict_room (sum_list (map (\<lambda>x. strings (snd x)) body)) (sum_list (map (\<lambda>x. string_bytes (snd x)) body)) d)"

lemma encode_dict:
  assumes "dict_state Z d0 (w_dict w)" "body_ok body" "fits_dict body w"
  shows "\<exists>e d'. encode_with Z hash body (w_dict w) = Some (e, d') \<and> dict_state Z d0 d' \<and> dict_leq (w_dict w) d' \<and>
    reads_as d' e body"
proof (cases "w_dict w")
  case None
  then show ?thesis using encode_plain [OF assms(2)] assms(1)
    by (auto simp: dict_state_def dict_leq_def reads_as_def split: option.splits)
next
  case (Some d)
  then obtain d1 where d1: "d0 = Some d1" "dict_live Z d" "dict_le d1 d" "\<forall>c. dict_le d1 (Dict_load Z c (Some (d_file d)))"
    using assms(1) by (auto simp: dict_state_def split: option.splits)
  have "dict_room (sum_list (map (\<lambda>x. strings (snd x)) body) + 0) (sum_list (map (\<lambda>x. string_bytes (snd x)) body) + 0) d"
    using assms(3) Some by (simp add: fits_dict_def)
  from encode_with_back [OF _ this assms(2), of Z hash] obtain e d' where e: "encode_with Z hash body (Some d) = Some (e, Some d')"
    "dict_ok d'" "dict_le d d'" "dict_room 0 0 d'" "same_chain d d'" "\<And>D. dict_le d' D \<Longrightarrow> decode_with (Some D) e = Some body"
    using d1(2) by (auto simp: dict_live_def)
  have "dict_live Z d'" by (rule live_step [OF d1(2) e(5,2)])
  then show ?thesis using Some d1 e room_fits [OF e(4)] dict_le_trans
    by (auto simp: dict_state_def dict_leq_def reads_as_def same_chain_def)
qed

lemma encode_state:
  assumes "part_state Z h xs bs imgs pend rows w" "body_ok body" "fits_dict body w"
  shows "\<exists>e d'. encode_with Z hash body (w_dict w) = Some (e, d') \<and>
    part_state Z h xs bs imgs pend rows (w \<lparr> w_dict := d' \<rparr>) \<and> reads_as d' e body \<and> dict_leq (w_dict w) d'"
proof -
  obtain d0 ys zs where st: "xs = ys @ zs" "dict_state Z d0 (w_dict w)" "encodes d0 ys (concat bs)" "encodes (w_dict w) zs pend"
    using assms(1) unfolding part_state_def by auto
  obtain e d' where e: "encode_with Z hash body (w_dict w) = Some (e, d')" "dict_state Z d0 d'" "dict_leq (w_dict w) d'" "reads_as d' e body"
    using encode_dict [OF st(2) assms(2,3)] by blast
  have "\<exists>d0 ys zs. xs = ys @ zs \<and> dict_state Z d0 d' \<and> encodes d0 ys (concat bs) \<and> encodes d' zs pend"
    using st e(2) encodes_mono [OF e(3) st(4)] by blast
  then show ?thesis using assms(1) e(1,3,4) by (auto simp: part_state_def)
qed

definition last_ts :: "part_writer \<Rightarrow> u64" where
  "last_ts w = (case w_last_ts w of None \<Rightarrow> 0 | Some ts \<Rightarrow> ts)"

lemma state_last: "part_state Z h xs bs imgs pend rows w \<Longrightarrow> last_ts w = last_of 0 (concat bs @ pend)"
proof -
  assume st: "part_state Z h xs bs imgs pend rows w"
  define rs where "rs = concat bs @ pend"
  have "w_last_ts w = (if rs = [] then None else Some (last_of 0 rs))"
    using st unfolding part_state_def rs_def by (elim conjE)
  then have "last_ts w = last_of 0 rs" by (simp add: last_ts_def)
  then show ?thesis by (simp only: rs_def)
qed

lemma state_length: "part_state Z h xs bs imgs pend rows w \<Longrightarrow> length (concat bs @ pend) = length xs"
  by (auto simp: part_state_def dest!: encodes_length)

lemma state_next: "part_state Z h xs bs imgs pend rows w \<Longrightarrow> w_next_offset w = ph_first_offset h + of_nat (length xs)"
proof -
  assume st: "part_state Z h xs bs imgs pend rows w"
  then have "w_next_offset w = ph_first_offset h + of_nat (length (concat bs @ pend))"
    unfolding part_state_def by (elim conjE)
  then show ?thesis unfolding state_length [OF st] .
qed

lemma block_empty: "recs_ok p rs \<Longrightarrow> block_raw p rs = [] \<longleftrightarrow> rs = []"
  using raw_long [of p rs] by auto

lemma put_state:
  assumes "part_state Z h xs bs imgs pend rows w" "reads_as (w_dict w) e body" "last_ts w \<le> ts"
    and "put_record (ts - last_ts w) e = Some b"
  shows "part_state Z h (xs @ [(ts, body)]) bs imgs (pend @ [(ts, e)]) rows
    (w \<lparr> w_block_first_ts := (if w_block w = [] then ts else w_block_first_ts w),
         w_block_first_offset := (if w_block w = [] then w_next_offset w else w_block_first_offset w),
         w_block := w_block w @ b, w_next_offset := w_next_offset w + 1,
         w_block_records := w_block_records w + 1, w_last_ts := Some ts \<rparr>)"
proof -
  note last = state_last [OF assms(1)]
  obtain d0 ys zs where st: "xs = ys @ zs" "dict_state Z d0 (w_dict w)" "encodes d0 ys (concat bs)" "encodes (w_dict w) zs pend"
    "recs_ok 0 (concat bs @ pend)" "w_block w = block_raw (last_of 0 (concat bs)) pend"
    using assms(1) unfolding part_state_def by auto
  have "w_block w = [] \<longleftrightarrow> pend = []" using st(5,6) block_empty by simp
  moreover have "recs_ok 0 (concat bs @ pend @ [(ts, e)])" using st(5) assms(3,4) last by simp
  moreover have "w_block w @ b = block_raw (last_of 0 (concat bs)) (pend @ [(ts, e)])"
    using st(6) assms(4) last by simp
  moreover have "encodes (w_dict w) (zs @ [(ts, body)]) (pend @ [(ts, e)])"
    using assms(2) by (intro encodes_append [OF st(4)]) (simp add: encodes_def)
  then have "\<exists>d0 ys' zs'. xs @ [(ts, body)] = ys' @ zs' \<and> dict_state Z d0 (w_dict w) \<and> encodes d0 ys' (concat bs) \<and>
      encodes (w_dict w) zs' (pend @ [(ts, e)])"
    using st(1-3) by (intro exI [of _ d0] exI [of _ ys] exI [of _ "zs @ [(ts, body)]"]) simp
  ultimately have new: "w_block w = [] \<longleftrightarrow> pend = []" "recs_ok 0 (concat bs @ pend @ [(ts, e)])"
    "w_block w @ b = block_raw (last_of 0 (concat bs)) (pend @ [(ts, e)])"
    "\<exists>d0 ys' zs'. xs @ [(ts, body)] = ys' @ zs' \<and> dict_state Z d0 (w_dict w) \<and> encodes d0 ys' (concat bs) \<and>
      encodes (w_dict w) zs' (pend @ [(ts, e)])" by blast+
  let ?w = "w \<lparr> w_block_first_ts := (if w_block w = [] then ts else w_block_first_ts w),
         w_block_first_offset := (if w_block w = [] then w_next_offset w else w_block_first_offset w),
         w_block := w_block w @ b, w_next_offset := w_next_offset w + 1,
         w_block_records := w_block_records w + 1, w_last_ts := Some ts \<rparr>"
  have dict: "\<exists>d0 ys' zs'. xs @ [(ts, body)] = ys' @ zs' \<and> dict_state Z d0 (w_dict ?w) \<and> encodes d0 ys' (concat bs) \<and>
      encodes (w_dict ?w) zs' (pend @ [(ts, e)])" using new(4) by simp
  show ?thesis using assms(1) new(1-3) unfolding part_state_def
    by (elim conjE, intro conjI) (rule dict | (auto simp: hd_append add_ac last_of_def)[1])+
qed

lemma state_all: "part_state Z h xs bs imgs pend rows w \<Longrightarrow> w_block w = [] \<Longrightarrow> w_records w = of_nat (length xs)"
proof -
  assume st: "part_state Z h xs bs imgs pend rows w" and none: "w_block w = []"
  have "recs_ok 0 (concat bs @ pend)" "w_block w = block_raw (last_of 0 (concat bs)) pend" "w_records w = of_nat (length (concat bs))"
    using st unfolding part_state_def by (simp_all del: recs_ok_append)
  then have "pend = []" using none block_empty [of "last_of 0 (concat bs)" pend] by simp
  then show ?thesis using state_length [OF st] \<open>w_records w = _\<close> by simp
qed

text \<open>A flush leaves the state as it is or turns the pending records into a block.\<close>

lemma flush_any:
  assumes "zstd_ok Z" "part_state Z h xs bs imgs pend rows w" "flush_block Z w = (Inr (), w')"
  shows "\<exists>bs2 imgs2 pend' rows2. part_state Z h xs (bs @ bs2) (imgs @ imgs2) pend' (rows @ rows2) w' \<and>
    w_block_records w' = 0"
proof (cases "w_block_records w = 0")
  case True
  then show ?thesis using assms(2,3)
    by (intro exI [of _ "[]"] exI [of _ pend]) (simp add: flush_block_def)
next
  case False
  from flush_state [OF assms(1,2) this assms(3)] obtain img row where
    "part_state Z h xs (bs @ [pend]) (imgs @ [img]) [] (rows @ [row]) w'" by blast
  then show ?thesis by (intro exI [of _ "[pend]"] exI [of _ "[img]"] exI [of _ "[]"] exI [of _ "[row]"]) (auto simp: part_state_def)
qed

lemma then_offset:
  fixes r :: "unit sresult \<times> part_writer"
  shows "map_prod (\<lambda>r. rbind r (\<lambda>_. Inr k)) id r = (Inr off, w') \<longleftrightarrow> r = (Inr (), w') \<and> k = off"
    "map_prod (\<lambda>r. rbind r (\<lambda>_. Inr k)) id r = (Inl err, w') \<longleftrightarrow> r = (Inl err, w')"
  by (cases r; cases "fst r"; auto)+

text \<open>A bound of the bytes of a body.\<close>

fun value_bytes :: "log_value \<Rightarrow> nat" where
  "value_bytes (VBytes b) = length b"
| "value_bytes (VStr s) = length s"
| "value_bytes v = 0"

definition body_bytes :: "body \<Rightarrow> nat" where
  "body_bytes body = sum_list (map (\<lambda>(tag, v). 21 + value_bytes v) body)"

lemma svarint_length: "length (put_svarint v) \<le> 10"
  by (simp add: put_svarint_def uvarint_length)

lemma encoded_length: "encode_with Z hash body d = Some (e, d') \<Longrightarrow> length e \<le> body_bytes body"
proof (induction body arbitrary: d e)
  case (Cons item body)
  obtain tag v where item: "item = (tag, v)" by (cases item)
  obtain b d1 bs where 1: "encode_log_value Z hash v d = Some (b, d1)" "encode_with Z hash body d1 = Some (bs, d')"
    "e = put_uvarint (ucast tag) @ b @ bs"
    using Cons.prems item by (auto split: option.splits)
  have "length b \<le> 11 + value_bytes v"
    using 1(1) uvarint_length svarint_length by (cases v) (auto simp: Let_def split: option.splits if_splits prod.splits)
  then show ?case using Cons.IH [OF 1(2)] 1(3) item uvarint_length [of "ucast tag"] by (simp add: body_bytes_def)
qed (simp add: body_bytes_def)

text \<open>An append that is not behind the last timestamp, up to its flush.\<close>

definition append_out :: "zstd \<Rightarrow> part_header \<Rightarrow> (bytes \<Rightarrow> u64) \<Rightarrow> (u64 \<times> body) list \<Rightarrow> recs list \<Rightarrow> bytes list \<Rightarrow> recs \<Rightarrow>
    index_row list \<Rightarrow> part_writer \<Rightarrow> u64 \<Rightarrow> body \<Rightarrow> bytes \<Rightarrow> part_writer \<Rightarrow> bool" where
  "append_out Z h hash xs bs imgs pend rows w ts body e w2 \<longleftrightarrow> length e \<le> body_bytes body \<and>
     (put_record (ts - last_ts w) e = None \<longrightarrow> (\<exists>w'. part_append Z hash ts body w = Some (Inl Overflow, w'))) \<and>
     (\<forall>b. put_record (ts - last_ts w) e = Some b \<longrightarrow> part_state Z h (xs @ [(ts, body)]) bs imgs (pend @ [(ts, e)]) rows w2 \<and>
      w_file w2 = w_file w \<and> length (w_block w2) = length (w_block w) + length b \<and>
      part_append Z hash ts body w = Some (if w_block_bytes w2 \<le> length (w_block w2)
        then map_prod (\<lambda>r. rbind r (\<lambda>_. Inr (ph_first_offset h + of_nat (length xs)))) id (flush_block Z w2)
        else (Inr (ph_first_offset h + of_nat (length xs)), w2)))"

lemma append_run:
  assumes "part_state Z h xs bs imgs pend rows w" "body_ok body" "fits_dict body w" "last_ts w \<le> ts"
  shows "\<exists>e w2. append_out Z h hash xs bs imgs pend rows w ts body e w2"
proof -
  obtain e d' where e: "encode_with Z hash body (w_dict w) = Some (e, d')" "part_state Z h xs bs imgs pend rows (w \<lparr> w_dict := d' \<rparr>)" "reads_as d' e body"
    using encode_state [OF assms(1-3)] by blast
  define w1 where "w1 = (case w_last_ts w of Some prev \<Rightarrow> w \<lparr> w_dict := d' \<rparr>
    | None \<Rightarrow> (if ph_base_ts (w_header w) = 0 \<and> w_records w = 0 then w \<lparr> w_dict := d', w_header := (w_header w) \<lparr> ph_base_ts := ts \<rparr> \<rparr> else w \<lparr> w_dict := d' \<rparr>))"
  have st1: "part_state Z h xs bs imgs pend rows w1" "w_dict w1 = d'" "last_ts w1 = last_ts w" "w_file w1 = w_file w" "w_block w1 = w_block w"
    using e(2) by (auto simp: w1_def part_state_def last_ts_def split: option.split)
  have run: "part_append Z hash ts body w = Some (append_encoded Z ts (ts - last_ts w) e w1)"
    using e(1) assms(4) by (auto simp: part_append_def Let_def w1_def last_ts_def split: option.splits)
  define b where "b = the (put_record (ts - last_ts w) e)"
  define w2 where "w2 = w1 \<lparr> w_block_first_ts := (if w_block w1 = [] then ts else w_block_first_ts w1),
         w_block_first_offset := (if w_block w1 = [] then w_next_offset w1 else w_block_first_offset w1),
         w_block := w_block w1 @ b, w_next_offset := w_next_offset w1 + 1,
         w_block_records := w_block_records w1 + 1, w_last_ts := Some ts \<rparr>"
  have none: "\<exists>w'. part_append Z hash ts body w = Some (Inl Overflow, w')" if "put_record (ts - last_ts w) e = None"
    unfolding run using that by (simp add: append_encoded_def Let_def)
  have some: "part_state Z h (xs @ [(ts, body)]) bs imgs (pend @ [(ts, e)]) rows w2 \<and>
      part_append Z hash ts body w = Some (if w_block_bytes w2 \<le> length (w_block w2)
        then map_prod (\<lambda>r. rbind r (\<lambda>_. Inr (ph_first_offset h + of_nat (length xs)))) id (flush_block Z w2)
        else (Inr (ph_first_offset h + of_nat (length xs)), w2))" if b': "put_record (ts - last_ts w) e = Some b'" for b'
  proof -
    have "b = b'" using b' by (simp add: b_def)
    have "part_state Z h (xs @ [(ts, body)]) bs imgs (pend @ [(ts, e)]) rows w2"
      unfolding w2_def by (rule put_state [OF st1(1)]) (use st1 e(3) assms(4) b' \<open>b = b'\<close> in auto)
    moreover have "append_encoded Z ts (ts - last_ts w) e w1 = (if w_block_bytes w2 \<le> length (w_block w2)
        then map_prod (\<lambda>r. rbind r (\<lambda>_. Inr (w_next_offset w1))) id (flush_block Z w2) else (Inr (w_next_offset w1), w2))"
      using b' \<open>b = b'\<close> by (cases "w_block w1 = []") (simp_all add: append_encoded_def Let_def w2_def)
    ultimately show ?thesis unfolding run state_next [OF st1(1)] by simp
  qed
  have "w_file w2 = w_file w" "length (w_block w2) = length (w_block w) + length b"
    using st1(4,5) by (simp_all add: w2_def)
  then show ?thesis using none some encoded_length [OF e(1)] unfolding append_out_def
    by (intro exI [of _ e] exI [of _ w2]) (auto simp: b_def)
qed

lemma append_state:
  assumes "zstd_ok Z" "part_state Z h xs bs imgs pend rows w" "body_ok body" "fits_dict body w"
    and "part_append Z hash ts body w = Some (Inr off, w')"
  shows "off = ph_first_offset h + of_nat (length xs) \<and> last_ts w \<le> ts \<and>
    (\<exists>bs2 imgs2 pend' rows2. part_state Z h (xs @ [(ts, body)]) (bs @ bs2) (imgs @ imgs2) pend' (rows @ rows2) w')"
proof -
  have le: "last_ts w \<le> ts"
    using assms(5) by (auto simp: part_append_def Let_def last_ts_def split: option.splits if_splits)
  obtain e w2 where e: "append_out Z h hash xs bs imgs pend rows w ts body e w2" using append_run [OF assms(2-4) le] by blast
  obtain b where b: "put_record (ts - last_ts w) e = Some b" using e assms(5) by (cases "put_record (ts - last_ts w) e") (auto simp: append_out_def)
  have run: "part_state Z h (xs @ [(ts, body)]) bs imgs (pend @ [(ts, e)]) rows w2"
    "part_append Z hash ts body w = Some (if w_block_bytes w2 \<le> length (w_block w2)
        then map_prod (\<lambda>r. rbind r (\<lambda>_. Inr (ph_first_offset h + of_nat (length xs)))) id (flush_block Z w2)
        else (Inr (ph_first_offset h + of_nat (length xs)), w2))"
    using e b by (simp_all add: append_out_def)
  note st2 = run(1)
  have fin: "(if w_block_bytes w2 \<le> length (w_block w2)
      then map_prod (\<lambda>r. rbind r (\<lambda>_. Inr (ph_first_offset h + of_nat (length xs)))) id (flush_block Z w2)
      else (Inr (ph_first_offset h + of_nat (length xs)), w2)) = (Inr off, w')"
    using run(2) assms(5) by simp
  then have "off = ph_first_offset h + of_nat (length xs)" by (simp add: then_offset split: if_splits)
  moreover have "\<exists>bs2 imgs2 pend' rows2. part_state Z h (xs @ [(ts, body)]) (bs @ bs2) (imgs @ imgs2) pend' (rows @ rows2) w'"
  proof (cases "w_block_bytes w2 \<le> length (w_block w2)")
    case True
    then have "flush_block Z w2 = (Inr (), w')" using fin by (simp add: then_offset)
    then show ?thesis using flush_any [OF assms(1) st2] by blast
  next
    case False
    then have "w' = w2" using fin by simp
    then show ?thesis using st2 by (metis append_Nil2)
  qed
  ultimately show ?thesis using le by simp
qed

lemma refuse_state:
  assumes "part_state Z h xs bs imgs pend rows w" "body_ok body" "fits_dict body w"
    and "part_append Z hash ts body w = Some (Inl (TimeBackwards a b), w')"
  shows "part_state Z h xs bs imgs pend rows w' \<and> w_last_ts w = Some a \<and> ts < a"
proof -
  obtain e d' where e: "encode_with Z hash body (w_dict w) = Some (e, d')" "part_state Z h xs bs imgs pend rows (w \<lparr> w_dict := d' \<rparr>)"
    using encode_state [OF assms(1-3)] by blast
  have no: "append_encoded Z ts delta e v \<noteq> (Inl (TimeBackwards a b), w')" for delta v
  proof -
    have "flush_block Z u \<noteq> (Inl (TimeBackwards a b), v)" for u v
      by (auto simp: flush_block_def flush_dict_def flush_if_dirty_def flush_open_block_def Let_def split: if_splits option.splits prod.splits sum.splits)
    then show ?thesis
      by (auto simp: append_encoded_def Let_def then_offset split: option.splits if_splits)
  qed
  then show ?thesis using assms(4) e by (auto simp: part_append_def Let_def no split: option.splits if_splits)
qed

section \<open>Runs\<close>

inductive writes :: "zstd \<Rightarrow> (bytes \<Rightarrow> u64) \<Rightarrow> part_writer \<Rightarrow> (u64 \<times> body) list \<Rightarrow> part_writer \<Rightarrow> bool"
  for Z hash w0 where
  start: "writes Z hash w0 [] w0"
| appended: "writes Z hash w0 xs w \<Longrightarrow> body_ok body \<Longrightarrow> fits_dict body w \<Longrightarrow>
    part_append Z hash ts body w = Some (Inr off, w') \<Longrightarrow> writes Z hash w0 (xs @ [(ts, body)]) w'"
| refused: "writes Z hash w0 xs w \<Longrightarrow> body_ok body \<Longrightarrow> fits_dict body w \<Longrightarrow>
    part_append Z hash ts body w = Some (Inl (TimeBackwards a b), w') \<Longrightarrow> writes Z hash w0 xs w'"
| flushed: "writes Z hash w0 xs w \<Longrightarrow> flush_block Z w = (Inr (), w') \<Longrightarrow> writes Z hash w0 xs w'"

lemma writes_state:
  assumes "zstd_ok Z" "part_state Z h xs bs imgs pend rows w0" "writes Z hash w0 ys w"
  shows "\<exists>bs2 imgs2 pend' rows2. part_state Z h (xs @ ys) (bs @ bs2) (imgs @ imgs2) pend' (rows @ rows2) w"
  using assms(3)
proof induction
  case start
  then show ?case using assms(2) by (metis append_Nil2)
next
  case (appended ys w body ts off w')
  then show ?case using append_state [OF assms(1) _ appended.hyps(2-4)] by (metis append_assoc)
next
  case (refused ys w body ts a b w')
  then show ?case using refuse_state [OF _ refused.hyps(2-4)] by blast
next
  case (flushed ys w w')
  then show ?case using flush_any [OF assms(1) _ flushed.hyps(2)] by (metis append_assoc)
qed

lemma writes_created:
  assumes "zstd_ok Z" "writes Z hash (PartWriter_create h block_bytes codec dict) xs w"
  obtains bs imgs pend rows where "part_state Z h xs bs imgs pend rows w"
  using writes_state [OF assms(1) create_state assms(2)] by auto

section \<open>What a reader finds\<close>

text \<open>The appended records with their offsets.\<close>

fun numbered :: "u64 \<Rightarrow> (u64 \<times> body) list \<Rightarrow> hit list" where
  "numbered off [] = []"
| "numbered off ((ts, body) # xs) = (ts, off, body) # numbered (off + 1) xs"

lemma hits_numbered: "list_all2 (\<lambda>(ts, body) (ts', e). ts = ts' \<and> B e = body) xs rs \<Longrightarrow> hits B off rs = numbered off xs"
proof (induction rs arbitrary: xs off)
  case (Cons r rs)
  then show ?case by (cases xs; cases r) auto
qed simp

definition dict_disk :: "zstd \<Rightarrow> dict option \<Rightarrow> bytes option \<Rightarrow> bool" where
  "dict_disk Z d0 file \<longleftrightarrow> (case (d0, file) of
     (None, None) \<Rightarrow> True
   | (Some d0, Some f) \<Rightarrow> \<forall>c. dict_le d0 (Dict_load Z c (Some f))
   | _ \<Rightarrow> False)"

lemma dict_state_disk: "dict_state Z d0 d \<Longrightarrow> dict_disk Z d0 (map_option d_file d)"
  by (auto simp: dict_state_def dict_disk_def split: option.splits)

lemma encodes_read:
  fixes c :: "dict_config option"
  assumes "dict_disk Z d0 file" "encodes d0 ys rs"
  defines "D \<equiv> reader_dict Z c file"
  shows "readable D rs \<and> hits (body_of D) off rs = numbered off ys"
proof -
  have dec: "decode_with D e = Some body" if "reads_as d0 e body" for e body
    using that assms(1) by (cases d0; cases "file") (simp_all add: D_def dict_disk_def reads_as_def reader_dict_def)
  have all: "list_all2 (\<lambda>(ts, body) (ts', e). ts = ts' \<and> decode_with D e = Some body) ys rs"
    using assms(2) dec unfolding encodes_def by (elim list_all2_mono) (simp split: prod.splits)
  have "decode_with D e \<noteq> None" if mem: "(ts, e) \<in> set rs" for ts e
  proof -
    obtain i where i: "i < length rs" "rs ! i = (ts, e)" using mem unfolding in_set_conv_nth by blast
    obtain ts' body where "ys ! i = (ts', body)" by (cases "ys ! i")
    then show ?thesis using list_all2_nthD2 [OF all i(1)] i(2) by simp
  qed
  then have "readable D rs" by (auto simp: readable_def)
  moreover have "list_all2 (\<lambda>(ts, body) (ts', e). ts = ts' \<and> body_of D e = body) ys rs"
    by (rule list_all2_mono [OF all]) (auto simp: body_of_def)
  ultimately show ?thesis using hits_numbered by blast
qed

text \<open>The index knows where a part ends.\<close>

lemma image_end:
  assumes "part_image Z h bs file rows trailer"
  shows "(if rows = [] then ph_first_offset h else ir_first_offset (last rows) + ucast (ir_records (last rows))) =
    ph_first_offset h + of_nat (length (concat bs))"
proof -
  obtain imgs where lay: "layout Z 0 (ph_first_offset h) 48 bs imgs rows"
    using assms unfolding part_image_def by auto
  show ?thesis
  proof (cases "bs = []")
    case False
    obtain q k where last: "block_at Z q k (48 + length (concat (butlast imgs))) (last bs) (last imgs) (last rows)" "rows \<noteq> []"
      "k + of_nat (length (last bs)) = ph_first_offset h + of_nat (length (concat bs))"
      using layout_last [OF lay False] by blast
    have row: "ir_first_offset (last rows) = k" "ir_records (last rows) = of_nat (length (last bs))"
      using block_read [OF last(1), of "replicate (48 + length (concat (butlast imgs))) 0" "[]"] by auto
    have "ucast (of_nat (length (last bs)) :: u32) = (of_nat (length (last bs)) :: u64)"
      using block_facts [OF last(1)] by (simp add: unsigned_of_nat take_bit_nat_eq_self)
    then show ?thesis using row last(2,3) by simp
  qed (use layout_lengths [OF lay] in simp)
qed

definition from_offset :: "u64 \<Rightarrow> nat \<Rightarrow> hit list \<Rightarrow> hit list" where
  "from_offset lo m hs = take m (filter (\<lambda>(ts, off, body). lo \<le> off) hs)"

definition in_window :: "u64 \<Rightarrow> u64 \<Rightarrow> nat \<Rightarrow> hit list \<Rightarrow> hit list" where
  "in_window lo hi m hs = take m (filter (\<lambda>(ts, off, body). lo \<le> ts \<and> ts \<le> hi) hs)"

text \<open>A reader answers the records \<open>xs\<close>, numbered from \<open>off\<close>, behind what was found before.\<close>

definition answers :: "zstd \<Rightarrow> part_reader \<Rightarrow> u64 \<Rightarrow> (u64 \<times> body) list \<Rightarrow> bool" where
  "answers Z r off xs \<longleftrightarrow>
     (\<forall>lo m out. read_from Z r lo m out = Inr (out @ from_offset lo (m - length out) (numbered off xs))) \<and>
     (\<forall>lo hi m out. read_by_time Z r lo hi m out = Inr (out @ in_window lo hi (m - length out) (numbered off xs)))"

lemma reader_answers:
  assumes "part_image Z h bs file rows trailer" "dict_disk Z d0 dict_file" "encodes d0 ys (concat bs)"
    and "unat (ph_first_offset h) + length ys < 2 ^ 64" "index = Some (index_header @ concat (map IndexRow_encode rows))"
  shows "\<exists>r. PartReader_open Z c file index dict_file sealed = Inr r \<and> answers Z r (ph_first_offset h) ys \<and>
    r_footer r = (if sealed then read_footer file else None) \<and> r_header r = h \<and> r_sealed r = sealed \<and>
    (r_footer r = None \<longrightarrow> offset_span r = (ph_first_offset h, ph_first_offset h + of_nat (length ys)))"
proof -
  let ?D = "reader_dict Z c dict_file"
  obtain r where r: "PartReader_open Z c file index dict_file sealed = Inr r" "r_sealed r = sealed"
    "r_file r = file" "r_rows r = rows" "r_dict r = ?D" "r_footer r = (if sealed then read_footer file else None)" "r_header r = h"
    using open_image [OF assms(1) refl, of c dict_file sealed] assms(5) by auto
  note rd = encodes_read [OF assms(2,3), of c "ph_first_offset h"]
  have im: "part_image Z h bs (r_file r) (r_rows r) trailer" using assms(1) r(3,4) by simp
  have len: "length (concat bs) = length ys" using encodes_length [OF assms(3)] .
  have n: "unat (ph_first_offset h) + length (concat bs) < 2 ^ 64" using assms(4) len by simp
  have "answers Z r (ph_first_offset h) ys"
    using read_from_image [OF im _ n] read_time_image [OF im] rd r(5)
    by (simp add: answers_def from_offset_def in_window_def keep_def wanted_def)
  moreover have "offset_span r = (ph_first_offset h, ph_first_offset h + of_nat (length ys))" if "r_footer r = None"
    using image_end [OF im] that r(7) len by (simp add: offset_span_def Let_def)
  ultimately show ?thesis using r(1,2,6,7) by (intro exI [of _ r]) simp
qed

lemma state_reads:
  assumes "part_state Z h xs bs imgs pend rows w" "unat (ph_first_offset h) + length xs < 2 ^ 64"
  shows "unat (w_records w) \<le> length xs \<and>
    (\<exists>r. PartReader_open Z c (w_file w) (Some (w_index w)) (map_option d_file (w_dict w)) False = Inr r \<and>
      answers Z r (ph_first_offset h) (take (unat (w_records w)) xs) \<and> \<not> r_sealed r \<and>
      offset_span r = (ph_first_offset h, ph_first_offset h + w_records w)) \<and>
    (w_block w = [] \<longrightarrow> unat (w_records w) = length xs)"
proof -
  obtain d0 ys zs where st: "xs = ys @ zs" "dict_state Z d0 (w_dict w)" "encodes d0 ys (concat bs)" "encodes (w_dict w) zs pend"
    "layout Z 0 (ph_first_offset h) 48 bs imgs rows" "recs_ok 0 (concat bs @ pend)"
    "w_file w = PartHeader_encode h @ concat imgs" "w_index w = index_header @ concat (map IndexRow_encode rows)"
    "w_block w = block_raw (last_of 0 (concat bs)) pend" "w_records w = of_nat (length (concat bs))"
    using assms(1) unfolding part_state_def by auto
  note len = encodes_length [OF st(3)] encodes_length [OF st(4)]
  have k: "unat (w_records w) = length ys" using assms(2) st(1,10) len by (simp add: unat_of_nat)
  have im: "part_image Z h bs (w_file w) rows []" using st(5,7) by (auto simp: part_image_def)
  have "unat (ph_first_offset h) + length ys < 2 ^ 64" using assms(2) st(1) by simp
  from reader_answers [OF im dict_state_disk [OF st(2)] st(3) this, of "Some (w_index w)" c False] obtain r where
    "PartReader_open Z c (w_file w) (Some (w_index w)) (map_option d_file (w_dict w)) False = Inr r"
    "answers Z r (ph_first_offset h) ys" "\<not> r_sealed r" "offset_span r = (ph_first_offset h, ph_first_offset h + w_records w)"
    using st(8,10) len by auto
  moreover have "length xs = length ys" if "w_block w = []"
    using that st(1,6,9) block_empty len by auto
  ultimately show ?thesis using k st(1) by auto
qed

text \<open>Flushed and buffered records are all there are.\<close>

lemma state_buffered:
  assumes "part_state Z h xs bs imgs pend rows w" "length xs < 2 ^ 32"
  shows "unat (w_records w) + unat (w_block_records w) = length xs"
proof -
  obtain d0 ys zs where st: "xs = ys @ zs" "encodes d0 ys (concat bs)" "encodes (w_dict w) zs pend"
    "w_records w = of_nat (length (concat bs))" "w_block_records w = of_nat (length pend)"
    using assms(1) unfolding part_state_def by auto
  then have "length (concat bs) = length ys" "length pend = length zs" by (simp_all add: encodes_length)
  moreover have "length ys < 2 ^ 64" "length zs < 2 ^ 32" using st(1) assms(2) by simp_all
  ultimately show ?thesis using st(1,4,5) by (simp add: unat_of_nat)
qed

section \<open>Sealing\<close>

lemma finish_dict:
  assumes "zstd_ok Z" "dict_state Z d0 d"
  shows "\<exists>d'. flush_finish Z d = (Inr (), d') \<and> dict_disk Z d0 (map_option d_file d')"
proof (cases d)
  case None
  then show ?thesis using dict_state_disk [OF assms(2)] by (simp add: flush_finish_def)
next
  case (Some e)
  then obtain e0 where e0: "d0 = Some e0" "dict_live Z e" "block_fits (d_blocks e ! d_open e)" "dict_le e0 e"
    using assms(2) by (auto simp: dict_state_def split: option.splits)
  have op: "d_open e < length (d_blocks e)" "length (d_blocks e) = Suc (d_open e)" "on_disk Z (d_open e) e"
    using e0(2) by (simp_all add: dict_live_def)
  show ?thesis
  proof (cases "db_entries (d_blocks e ! d_open e) = []")
    case True
    then have "flush_finish Z d = (Inr (), Some e)" using Some by (simp add: flush_finish_def flush_open_block_def)
    then show ?thesis using dict_state_disk [OF assms(2)] Some by simp
  next
    case False
    let ?b = "d_blocks e ! d_open e"
    obtain e' where e': "flush_open_block Z e = (Inr (), e')" "on_disk Z (Suc (d_open e)) e'"
      "d_blocks e' = (d_blocks e)[d_open e := ?b \<lparr> db_file_offset := d_file_offset e \<rparr>]"
      using flush_run [OF assms(1) op(3) refl op(1) e0(3) False] by blast
    have same: "db_entries (d_blocks e' ! i) = db_entries (d_blocks e ! i)" "db_width (d_blocks e' ! i) = db_width (d_blocks e ! i)"
      "length (d_blocks e') = length (d_blocks e)" for i
      by (cases "i = d_open e"; simp add: e'(3) op(1))+
    have "dict_le e e'" by (auto simp: dict_le_def dict_lookup_def dict_width_def Let_def same)
    moreover have "dict_le e' (Dict_load Z c (Some (d_file e')))" for c
      by (rule load_on_disk [OF assms(1) e'(2)]) (simp add: same op(2))
    ultimately have "dict_disk Z d0 (Some (d_file e'))"
      using e0(1,4) dict_le_trans by (auto simp: dict_disk_def)
    then show ?thesis using e'(1) Some by (simp add: flush_finish_def)
  qed
qed

lemma read_footer_image: "read_footer (PartHeader_encode h @ x @ Footer_encode f) = Some f"
  using footer_back [of f "[]"] by (simp add: read_footer_def)

text \<open>A sealed part answers every record appended.\<close>

lemma seal_reads:
  assumes "zstd_ok Z" "part_state Z h xs bs imgs pend rows w" "part_seal Z xxh w = (Inr f, w')"
    and "length xs < 2 ^ 32" "unat (ph_first_offset h) + length xs < 2 ^ 64"
  shows "ft_records f = of_nat (length xs) \<and> take PART_HEADER_LEN (w_file w') = PartHeader_encode h \<and>
    (\<exists>r. PartReader_open Z c (w_file w') (Some (w_index w')) (map_option d_file (w_dict w')) True = Inr r \<and>
      answers Z r (ph_first_offset h) xs \<and> r_sealed r \<and>
      offset_span r = (ph_first_offset h, ph_first_offset h + of_nat (length xs)))"
proof -
  obtain w1 where w1: "flush_block Z w = (Inr (), w1)"
    using assms(3) by (auto simp: part_seal_def split: prod.splits sum.splits)
  obtain bs' imgs' pend' rows' where st1: "part_state Z h xs bs' imgs' pend' rows' w1" "w_block_records w1 = 0"
    using flush_any [OF assms(1,2) w1] by blast
  have "length pend' \<le> length xs" using state_length [OF st1(1)] by simp
  moreover have "w_block_records w1 = of_nat (length pend')" using st1(1) by (simp add: part_state_def)
  ultimately have "unat (w_block_records w1) = length pend'" using assms(4) by (simp add: unat_of_nat)
  then have none: "pend' = []" using st1(2) by simp
  obtain d0 where st: "dict_state Z d0 (w_dict w1)" "encodes d0 xs (concat bs')"
    "layout Z 0 (ph_first_offset h) 48 bs' imgs' rows'"
    "w_file w1 = PartHeader_encode h @ concat imgs'" "w_file_off w1 = length (w_file w1)"
    "w_index w1 = index_header @ concat (map IndexRow_encode rows')" "w_records w1 = of_nat (length (concat bs'))"
    using st1(1) none unfolding part_state_def encodes_def by auto
  obtain d where d: "flush_finish Z (w_dict w1) = (Inr (), d)" "dict_disk Z d0 (map_option d_file d)"
    using finish_dict [OF assms(1) st(1)] by blast
  have len: "length (concat bs') = length xs" using encodes_length [OF st(2)] .
  have w': "w_file w' = w_file w1 @ Footer_encode f" "w_index w' = w_index w1" "w_dict w' = d" "ft_records f = w_records w1"
    using assms(3) w1 d(1) st(5) by (auto simp: part_seal_def Let_def write_at_def)
  have im: "part_image Z h bs' (w_file w') rows' (Footer_encode f)"
    using st(3,4) w'(1) by (auto simp: part_image_def)
  have foot: "read_footer (w_file w') = Some f" unfolding w'(1) st(4) by (simp add: read_footer_image)
  obtain r where r: "PartReader_open Z c (w_file w') (Some (w_index w')) (map_option d_file (w_dict w')) True = Inr r"
    "answers Z r (ph_first_offset h) xs" "r_footer r = Some f" "r_header r = h" "r_sealed r"
    using reader_answers [OF im d(2) st(2) assms(5), of "Some (w_index w')" c True] foot w'(2,3) st(6) by auto
  have "offset_span r = (ph_first_offset h, ph_first_offset h + of_nat (length xs))"
    using r(3,4) w'(4) st(7) len by (simp add: offset_span_def Let_def)
  then show ?thesis using r(1,2,5) w'(1,4) st(4,7) len by auto
qed

section \<open>Crashes\<close>

lemma then_some: "map_prod f Some p = (r, d) \<Longrightarrow> d \<noteq> None"
  by (cases p) auto

lemma encode_keeps_dict: "encode_with Z hash body d = Some (e, d') \<Longrightarrow> d' = None \<longleftrightarrow> d = None"
proof (induction body arbitrary: d e)
  case (Cons item body)
  obtain tag v where item: "item = (tag, v)" by (cases item)
  obtain b d1 bs where 1: "encode_log_value Z hash v d = Some (b, d1)" "encode_with Z hash body d1 = Some (bs, d')"
    using Cons.prems item by (auto split: option.splits)
  have "d1 = None \<longleftrightarrow> d = None"
    using 1(1) by (cases v; cases d) (auto simp: Let_def dest: then_some split: option.splits if_splits prod.splits)
  then show ?case using Cons.IH [OF 1(2)] by simp
qed simp

lemma flush_keeps_dict: "flush_block Z w = (r, w') \<Longrightarrow> w_dict w' = None \<longleftrightarrow> w_dict w = None"
  by (auto simp: flush_block_def flush_dict_def Let_def dest: then_some split: if_splits option.splits prod.splits sum.splits)

lemma then_state: "map_prod f id p = (r, u) \<Longrightarrow> \<exists>r'. p = (r', u)"
  by (cases p) auto

lemma append_keeps_dict: "part_append Z hash ts body w = Some (r, w') \<Longrightarrow> w_dict w' = None \<longleftrightarrow> w_dict w = None"
proof -
  have enc: "w_dict u' = None \<longleftrightarrow> w_dict u = None" if "append_encoded Z ts delta e u = (r, u')" for delta e u u' r
    using that by (auto simp: append_encoded_def Let_def dest!: then_state flush_keeps_dict split: option.splits if_splits)
  show "part_append Z hash ts body w = Some (r, w') \<Longrightarrow> w_dict w' = None \<longleftrightarrow> w_dict w = None"
    by (auto simp: part_append_def Let_def dest!: encode_keeps_dict enc split: option.splits if_splits)
qed

lemma writes_keep_dict: "writes Z hash w0 xs w \<Longrightarrow> w_dict w = None \<longleftrightarrow> w_dict w0 = None"
  by (induction rule: writes.induct) (auto dest: append_keeps_dict flush_keeps_dict)

text \<open>An adopted part holds the blocks whose images are whole.\<close>

lemma layout_whole: "layout Z p off pos bs imgs rows \<Longrightarrow> whole n imgs \<le> length bs"
proof (induction Z p off pos bs imgs rows arbitrary: n rule: layout.induct)
  case (1 Z p off pos rs bs img imgs row rows)
  then show ?case by auto
qed auto

lemma whole_ge: "length (concat imgs1) \<le> n \<Longrightarrow> length imgs1 \<le> whole n (imgs1 @ imgs2)"
  by (induction imgs1 arbitrary: n) auto

lemma whole_fits: "length (concat (take (whole n imgs) imgs)) \<le> n"
proof (induction imgs arbitrary: n)
  case (Cons img imgs)
  have "length img + k \<le> n" if "k \<le> n - length img" "length img \<le> n" for k using that by linarith
  then show ?case using Cons.IH [of "n - length img"] by simp
qed simp

lemma encodes_take: "encodes d xs rs \<Longrightarrow> encodes d (take k xs) (take k rs)"
  by (simp add: encodes_def list_all2_takeI)

lemma adopt_image:
  assumes "layout Z 0 (ph_first_offset h) 48 bs imgs rows" "48 \<le> n"
    and "(case dict of None \<Rightarrow> Inr None | Some c \<Rightarrow> rbind (Dict_adopt Z c dict_file) (\<lambda>d. Inr (Some d))) = Inr d"
  defines "k \<equiv> whole (n - 48) imgs"
  shows "\<exists>w. PartWriter_adopt Z block_bytes codec dict dict_file (take n (PartHeader_encode h @ concat imgs)) = Inr w \<and>
    w_file w = PartHeader_encode h @ concat (take k imgs) \<and> w_dict w = d \<and> w_block w = [] \<and> w_block_records w = 0 \<and>
    w_index w = index_header @ concat (map IndexRow_encode (take k rows)) \<and> w_file_off w = length (w_file w) \<and>
    w_records w = of_nat (length (concat (take k bs))) \<and> w_blocks w = of_nat (length (take k bs)) \<and>
    w_next_offset w = ph_first_offset h + of_nat (length (concat (take k bs))) \<and> w_digest w = block_raw 0 (concat (take k bs)) \<and>
    w_last_ts w = (if take k bs = [] then None else Some (last_of 0 (concat (take k bs))))"
proof -
  define F where "F = take n (PartHeader_encode h @ concat imgs)"
  have F: "F = PartHeader_encode h @ take (n - 48) (concat imgs)" using assms(2) by (simp add: F_def)
  have head: "read_full F 0 48 = Inr (PartHeader_encode h)" "PartHeader_decode (PartHeader_encode h) = Some h"
    using part_header_back [of h "[]"] by (simp_all add: F read_full_def)
  define a0 where "a0 = \<lparr> a_off = 48, a_next_offset = ph_first_offset h, a_last_ts = None,
           a_records = 0, a_blocks = 0, a_digest = [], a_rows = [] \<rparr>"
  define A where "A = after 0 (ph_first_offset h) (take k bs) (take k imgs) (take k rows) a0"
  have rec: "recover Z F a0 = Inr A"
    unfolding F k_def A_def by (rule recover_blocks [OF assms(1)]) (simp_all add: a0_def)
  have A: "a_off A = 48 + length (concat (take k imgs))" "a_next_offset A = ph_first_offset h + of_nat (length (concat (take k bs)))"
    "a_records A = of_nat (length (concat (take k bs)))" "a_blocks A = of_nat (length (take k bs))"
    "a_digest A = block_raw 0 (concat (take k bs))" "a_rows A = take k rows"
    "a_last_ts A = (if take k bs = [] then None else Some (last_of 0 (concat (take k bs))))"
    by (simp_all add: A_def after_def a0_def)
  have "length (concat (take k imgs)) \<le> n - 48" unfolding k_def by (rule whole_fits)
  moreover have "take (length (concat (take k imgs))) (concat imgs) = concat (take k imgs)"
    using concat_take_drop [of k imgs] by (metis append_eq_conv_conj)
  ultimately have cut: "take (a_off A) F = PartHeader_encode h @ concat (take k imgs)"
    unfolding F A by (simp add: min_absorb2 min_absorb1)
  define w where "w = \<lparr> w_file = take (a_off A) F, w_index = index_header @ concat (map IndexRow_encode (a_rows A)),
               w_header = h, w_block_bytes = block_bytes, w_codec = codec, w_next_offset = a_next_offset A,
               w_last_ts = a_last_ts A, w_file_off = a_off A, w_block = [], w_block_first_ts = 0,
               w_block_first_offset = a_next_offset A, w_block_records = 0, w_records = a_records A,
               w_blocks = a_blocks A, w_digest = a_digest A, w_dict = d \<rparr>"
  have "PartWriter_adopt Z block_bytes codec dict dict_file F = Inr w"
    unfolding PartWriter_adopt_def assms(3) using head rec by (simp add: a0_def [symmetric] w_def)
  then show ?thesis unfolding F_def [symmetric] by (intro exI [of _ w]) (simp add: w_def cut, simp add: A)
qed

lemma unat_of_nat_le_self: "unat (of_nat n :: 'a :: len word) \<le> n"
  by (simp add: unat_of_nat)

lemma loaded_file: "d_file (Dict_load Z c (Some f)) = f"
  by (simp add: Dict_load_def split: prod.split)

text \<open>A prefix of the records is on disk after a crash, at least those flushed into the surviving bytes.\<close>

lemma crash_state:
  assumes "part_state Z h xs bs imgs pend rows w1" "part_state Z h (xs @ ys) (bs @ bs2) (imgs @ imgs2) pend2 (rows @ rows2) w"
    and "length (w_file w1) \<le> n" "unat (ph_first_offset h) + length (xs @ ys) < 2 ^ 64" "dict = None \<longleftrightarrow> w_dict w = None"
  shows "\<exists>w' r k. PartWriter_adopt Z block_bytes codec dict (map_option d_file (w_dict w)) (take n (w_file w)) = Inr w' \<and>
    unat (w_records w1) \<le> k \<and> k \<le> length (xs @ ys) \<and> w_next_offset w' = ph_first_offset h + of_nat k \<and>
    PartReader_open Z c (w_file w') (Some (w_index w')) (map_option d_file (w_dict w')) False = Inr r \<and>
    answers Z r (ph_first_offset h) (take k (xs @ ys))"
proof -
  let ?bs = "bs @ bs2" and ?imgs = "imgs @ imgs2" and ?rows = "rows @ rows2"
  obtain d0 us vs where st: "xs @ ys = us @ vs" "dict_state Z d0 (w_dict w)" "encodes d0 us (concat ?bs)"
    "layout Z 0 (ph_first_offset h) 48 ?bs ?imgs ?rows" "w_file w = PartHeader_encode h @ concat ?imgs"
    using assms(2) unfolding part_state_def by auto
  obtain us1 vs1 where st1: "layout Z 0 (ph_first_offset h) 48 bs imgs rows" "w_file w1 = PartHeader_encode h @ concat imgs"
    "w_records w1 = of_nat (length (concat bs))"
    using assms(1) unfolding part_state_def by auto
  define j where "j = whole (n - 48) ?imgs"
  define k where "k = length (concat (take j ?bs))"
  have len: "length (concat ?bs) = length us" using encodes_length [OF st(3)] .
  have n: "48 \<le> n" "length (concat imgs) \<le> n - 48" using assms(3) st1(2) by auto
  have "length bs \<le> j" using whole_ge [OF n(2), of imgs2] layout_lengths [OF st1(1)] by (simp add: j_def)
  then have "take j ?bs = bs @ take (j - length bs) bs2" by simp
  then have ge: "length (concat bs) \<le> k" unfolding k_def by simp
  have kle: "k \<le> length us" using arg_cong [OF concat_take_drop [of j ?bs], of length] len by (simp add: k_def)
  have rec: "encodes d0 (take k us) (concat (take j ?bs))"
  proof -
    have "take k (concat ?bs) = concat (take j ?bs)"
      using concat_take_drop [of j ?bs] by (metis append_eq_conv_conj k_def)
    then show ?thesis using encodes_take [OF st(3), of k] by simp
  qed
  obtain d where d: "(case dict of None \<Rightarrow> Inr None | Some c \<Rightarrow> rbind (Dict_adopt Z c (map_option d_file (w_dict w))) (\<lambda>d. Inr (Some d))) = Inr d"
    "map_option d_file d = map_option d_file (w_dict w)"
    using assms(5) by (cases dict; cases "w_dict w") (auto simp: Dict_adopt_def loaded_file push_block_def Let_def)
  obtain w' where w': "PartWriter_adopt Z block_bytes codec dict (map_option d_file (w_dict w)) (take n (w_file w)) = Inr w'"
    "w_file w' = PartHeader_encode h @ concat (take j ?imgs)" "w_dict w' = d"
    "w_index w' = index_header @ concat (map IndexRow_encode (take j ?rows))"
    "w_next_offset w' = ph_first_offset h + of_nat k"
    using adopt_image [OF st(4) n(1) d(1), of block_bytes codec] unfolding st(5) j_def [symmetric] k_def by blast
  have im: "part_image Z h (take j ?bs) (w_file w') (take j ?rows) []"
    using layout_take [OF st(4), of j] w'(2) by (auto simp: part_image_def)
  have "unat (ph_first_offset h) + length (take k us) < 2 ^ 64" using assms(4) unfolding st(1) by simp
  from reader_answers [OF im dict_state_disk [OF st(2)] rec this, of "Some (w_index w')" c False] obtain r where
    "PartReader_open Z c (w_file w') (Some (w_index w')) (map_option d_file (w_dict w')) False = Inr r"
    "answers Z r (ph_first_offset h) (take k us)" using w'(3,4) d(2) by auto
  moreover have "unat (w_records w1) \<le> k" using ge unfolding st1(3) by (meson unat_of_nat_le_self order_trans)
  moreover have "k \<le> length (xs @ ys)" "take k (xs @ ys) = take k us" unfolding st(1) using kle by auto
  ultimately show ?thesis using w'(1,5) by auto
qed

section \<open>Progress\<close>

lemma record_exists: "length e + 10 < 2 ^ 32 \<Longrightarrow> \<exists>b. put_record d e = Some b \<and> length b \<le> 14 + length e"
  using uvarint_length [of d] by (simp add: put_record_def Let_def)

lemma flush_progress:
  assumes "zstd_ok Z" "part_state Z h xs bs imgs pend rows w" "length (w_block w) < 2 ^ 32" "length (w_file w) < 2 ^ 32"
  shows "\<exists>w'. flush_block Z w = (Inr (), w') \<and> w_block w' = [] \<and> length (w_file w') \<le> length (w_file w) + 40 + length (w_block w)"
proof -
  obtain d0 where st: "dict_state Z d0 (w_dict w)" "recs_ok (last_of 0 (concat bs)) pend" "w_file_off w = length (w_file w)"
    "w_block w = block_raw (last_of 0 (concat bs)) pend" "w_block_records w = of_nat (length pend)"
    using assms(2) unfolding part_state_def by auto
  show ?thesis
  proof (cases "w_block_records w = 0")
    case True
    have "length pend < 2 ^ 32" using raw_long [OF st(2)] assms(3) st(4) by simp
    then have "unat (w_block_records w) = length pend" by (simp add: st(5) unat_of_nat)
    then have "pend = []" using True by simp
    then show ?thesis using True st(4) by (simp add: flush_block_def)
  next
    case False
    then have "pend \<noteq> []" using st(5) by auto
    then have raw: "w_block w \<noteq> []" using st(2,4) block_empty by simp
    obtain d where d: "flush_dict Z (w_dict w) = (Inr (), d)" using flush_dict_ok [OF assms(1) st(1)] by blast
    obtain codec payload where pl: "block_payload Z (w_codec w) (w_block w) = Some (codec, payload)" "length payload \<le> length (w_block w)"
      by (rule block_payload_ok [OF assms(1) raw])
    have "length payload < 2 ^ 32" using pl(2) assms(3) by simp
    then show ?thesis using False d pl assms(3,4) st(3)
      by (simp add: flush_block_def Let_def IndexRow_from_header_def write_at_def)
  qed
qed

lemma append_progress:
  assumes "zstd_ok Z" and st: "part_state Z h xs bs imgs pend rows w"
    and "body_ok body" "fits_dict body w" "last_ts w \<le> ts"
    and "length (w_file w) + length (w_block w) + body_bytes body + 54 < 2 ^ 32" "length xs + 1 < 2 ^ 64"
  shows "\<exists>w' w''. part_append Z hash ts body w = Some (Inr (ph_first_offset h + of_nat (length xs)), w') \<and>
    flush_block Z w' = (Inr (), w'') \<and> w_block w'' = [] \<and> unat (w_records w'') = Suc (length xs) \<and>
    length (w_file w'') \<le> length (w_file w) + length (w_block w) + body_bytes body + 54"
proof -
  let ?off = "ph_first_offset h + of_nat (length xs) :: u64"
  obtain e w2 where e: "append_out Z h hash xs bs imgs pend rows w ts body e w2" using append_run [OF st assms(3-5)] by blast
  have el: "length e \<le> body_bytes body" using e by (simp add: append_out_def)
  obtain b where b: "put_record (ts - last_ts w) e = Some b" "length b \<le> 14 + length e"
    using record_exists [of e "ts - last_ts w"] el assms(6) by auto
  have run: "part_append Z hash ts body w = Some (if w_block_bytes w2 \<le> length (w_block w2)
      then map_prod (\<lambda>r. rbind r (\<lambda>_. Inr ?off)) id (flush_block Z w2) else (Inr ?off, w2))"
    "w_file w2 = w_file w" "length (w_block w2) = length (w_block w) + length b"
    and st2: "part_state Z h (xs @ [(ts, body)]) bs imgs (pend @ [(ts, e)]) rows w2"
    using e b(1) unfolding append_out_def by blast+
  obtain w3 where w3: "flush_block Z w2 = (Inr (), w3)" "w_block w3 = []" "length (w_file w3) \<le> length (w_file w2) + 40 + length (w_block w2)"
    using flush_progress [OF assms(1) st2] run b(2) el assms(6) by auto
  obtain bs3 imgs3 pend3 rows3 where st3: "part_state Z h (xs @ [(ts, body)]) bs3 imgs3 pend3 rows3 w3" "w_block_records w3 = 0"
    using flush_any [OF assms(1) st2 w3(1)] by blast
  have "unat (w_records w3) = Suc (length xs)" using state_all [OF st3(1) w3(2)] assms(7) by (simp add: unat_of_nat del: of_nat_Suc)
  moreover have "flush_block Z w3 = (Inr (), w3)" using st3(2) by (simp add: flush_block_def)
  moreover have "length (w_file w3) \<le> length (w_file w) + length (w_block w) + body_bytes body + 54"
    using w3(3) run(2,3) b(2) el by simp
  ultimately show ?thesis using run(1) w3(1,2) by (cases "w_block_bytes w2 \<le> length (w_block w2)") auto
qed

text \<open>A run of one part with a dictionary.\<close>

definition sample_header :: part_header where
  "sample_header = \<lparr> ph_precision = Ns, ph_bucket = 0, ph_base_ts = 0, ph_first_offset = 100, ph_created_unix_ms = 0 \<rparr>"

definition sample_part :: part_writer where
  "sample_part = PartWriter_create sample_header 65536 Zstd (Some default_dict_config)"

definition sample_body :: body where
  "sample_body = [(7, VStr [97, 98]), (8, VU64 300)]"

lemma sample_fits: "body_ok sample_body" "fits_dict sample_body sample_part" "body_bytes sample_body = 44"
  by (simp_all add: sample_body_def sample_part_def body_ok_def body_bytes_def fits_dict_def PartWriter_create_def
      dict_room_def Dict_create_def default_dict_config_def DEFAULT_BLOCK_ENTRIES_def entries_payload_def Let_def)

lemma sample_start: "last_ts sample_part = 0" "length (w_file sample_part) = 48" "w_block sample_part = []" "ph_first_offset sample_header = 100"
  by (simp_all add: sample_part_def PartWriter_create_def last_ts_def sample_header_def)

lemma sample_append:
  "\<exists>w w'. part_append plain_zstd hash 5 sample_body sample_part = Some (Inr 100, w) \<and> flush_block plain_zstd w = (Inr (), w') \<and>
    w_block w' = [] \<and> unat (w_records w') = 1"
  using append_progress [OF plain_zstd_ok create_state, of sample_body sample_header 65536 Zstd "Some default_dict_config" 5 hash]
    sample_fits sample_start unfolding sample_part_def by auto

lemma sample_run:
  "\<exists>w. writes plain_zstd hash sample_part [(5, sample_body)] w \<and> w_block w = [] \<and> unat (w_records w) = 1"
  using sample_append [of hash] writes.appended [OF writes.start sample_fits(1,2)] writes.flushed by fastforce

section \<open>Properties\<close>

text \<open>
  C8: Whatever sequence of appends (refused ones included) and flushes a part has seen in which every
  appended body found room in the open block of the dictionary (\<open>fits_dict\<close>: its strings do not fill
  the block, and the block is not past the 240 a code byte can name; a part without a dictionary has no
  such limit), a reader that opens its files answers reads by offset and by time with exactly the
  flushed records, in the order of their appends, numbered from the part's first offset, each with its
  own timestamp and body; with an empty block buffer these are all the records appended. Past
  block 240 a code reads back as another string, see \<open>late_codes_misread\<close>.
\<close>

theorem part_reads_back:
  assumes "zstd_ok Z" "writes Z hash (PartWriter_create h block_bytes codec dict) xs w"
    and "unat (ph_first_offset h) + length xs < 2 ^ 64"
  shows "unat (w_records w) \<le> length xs \<and>
    (\<exists>r. PartReader_open Z c (w_file w) (Some (w_index w)) (map_option d_file (w_dict w)) False = Inr r \<and>
      answers Z r (ph_first_offset h) (take (unat (w_records w)) xs)) \<and>
    (w_block w = [] \<longrightarrow> unat (w_records w) = length xs)"
proof -
  obtain bs imgs pend rows where "part_state Z h xs bs imgs pend rows w" by (rule writes_created [OF assms(1,2)])
  then show ?thesis using state_reads assms(3) by blast
qed

theorem part_reads_back_witness:
  "\<exists>w r. writes plain_zstd (\<lambda>_. 0) (PartWriter_create sample_header 65536 Zstd (Some default_dict_config)) [(5, sample_body)] w \<and>
     PartReader_open plain_zstd None (w_file w) (Some (w_index w)) (map_option d_file (w_dict w)) False = Inr r \<and>
     read_from plain_zstd r 100 10 [] = Inr [(5, 100, sample_body)] \<and> read_by_time plain_zstd r 6 9 10 [] = Inr []"
proof -
  obtain w where w: "writes plain_zstd (\<lambda>_. 0) sample_part [(5, sample_body)] w" "unat (w_records w) = 1"
    using sample_run by blast
  obtain r where "PartReader_open plain_zstd None (w_file w) (Some (w_index w)) (map_option d_file (w_dict w)) False = Inr r"
    "answers plain_zstd r 100 [(5, sample_body)]"
    using part_reads_back [OF plain_zstd_ok w(1) [unfolded sample_part_def], of None] w(2) sample_start(4) by auto
  then show ?thesis using w(1) by (auto simp: answers_def from_offset_def in_window_def sample_part_def)
qed

text \<open>
  C9: An append whose timestamp is not behind the last one never fails while the part and the open
  dictionary block have room: it answers the next offset, and the flush after it succeeds and
  leaves every record appended so far readable.
\<close>

theorem part_append_progress:
  assumes "zstd_ok Z" "writes Z hash (PartWriter_create h block_bytes codec dict) xs w"
    and "body_ok body" "fits_dict body w" "last_ts w \<le> ts"
    and "length (w_file w) + length (w_block w) + body_bytes body + 54 < 2 ^ 32" "length xs + 1 < 2 ^ 64"
  shows "\<exists>w' w''. part_append Z hash ts body w = Some (Inr (ph_first_offset h + of_nat (length xs)), w') \<and>
    flush_block Z w' = (Inr (), w'') \<and> w_block w'' = [] \<and> unat (w_records w'') = Suc (length xs)"
proof -
  obtain bs imgs pend rows where "part_state Z h xs bs imgs pend rows w" by (rule writes_created [OF assms(1,2)])
  from append_progress [OF assms(1) this assms(3-7)] show ?thesis by blast
qed

theorem part_append_progress_witness:
  "\<exists>w w'. part_append plain_zstd (\<lambda>_. 0) 5 sample_body sample_part = Some (Inr 100, w) \<and>
     flush_block plain_zstd w = (Inr (), w') \<and> unat (w_records w') = 1"
  using part_append_progress [OF plain_zstd_ok writes.start, of sample_body sample_header 65536 Zstd "Some default_dict_config" 5 "\<lambda>_. 0"]
    sample_fits sample_start unfolding sample_part_def by simp blast

text \<open>
  C7: A part on which every appended body found room in the open block of the dictionary (\<open>fits_dict\<close>,
  as for reading back) crashes: the dictionary file survives whole, the part file keeps at least the
  bytes written at some moment of the run and is cut at an arbitrary byte behind them, and the index is
  lost altogether. The part is adopted and holds a prefix of the appended records, at least those
  flushed at that moment; readers answer exactly this prefix and the writer goes on at the offset
  behind it.
\<close>

theorem part_crash_recovery:
  assumes "zstd_ok Z" "writes Z hash (PartWriter_create h block_bytes codec dict) xs w1" "writes Z hash w1 ys w"
    and "length (w_file w1) \<le> n" "unat (ph_first_offset h) + length (xs @ ys) < 2 ^ 64"
  shows "\<exists>w' r k. PartWriter_adopt Z block_bytes codec dict (map_option d_file (w_dict w)) (take n (w_file w)) = Inr w' \<and>
    unat (w_records w1) \<le> k \<and> k \<le> length (xs @ ys) \<and> w_next_offset w' = ph_first_offset h + of_nat k \<and>
    PartReader_open Z c (w_file w') (Some (w_index w')) (map_option d_file (w_dict w')) False = Inr r \<and>
    answers Z r (ph_first_offset h) (take k (xs @ ys))"
proof -
  obtain bs imgs pend rows where st1: "part_state Z h xs bs imgs pend rows w1" by (rule writes_created [OF assms(1,2)])
  obtain bs2 imgs2 pend2 rows2 where st2: "part_state Z h (xs @ ys) (bs @ bs2) (imgs @ imgs2) pend2 (rows @ rows2) w"
    using writes_state [OF assms(1) st1 assms(3)] by blast
  have "dict = None \<longleftrightarrow> w_dict w = None"
    using writes_keep_dict [OF assms(2)] writes_keep_dict [OF assms(3)] by (simp add: PartWriter_create_def)
  from crash_state [OF st1 st2 assms(4,5) this] show ?thesis .
qed

theorem part_crash_recovery_witness:
  "\<exists>w n w' r. writes plain_zstd (\<lambda>_. 0) sample_part [(5, sample_body)] w \<and> n = length (w_file w) \<and>
     PartWriter_adopt plain_zstd 65536 Zstd (Some default_dict_config) (map_option d_file (w_dict w)) (take n (w_file w)) = Inr w' \<and>
     w_next_offset w' = 101 \<and> PartReader_open plain_zstd None (w_file w') (Some (w_index w')) (map_option d_file (w_dict w')) False = Inr r \<and>
     read_from plain_zstd r 0 10 [] = Inr [(5, 100, sample_body)]"
proof -
  obtain w where w: "writes plain_zstd (\<lambda>_. 0) sample_part [(5, sample_body)] w" "unat (w_records w) = 1"
    using sample_run by blast
  obtain w' r k where "PartWriter_adopt plain_zstd 65536 Zstd (Some default_dict_config) (map_option d_file (w_dict w)) (take (length (w_file w)) (w_file w)) = Inr w'"
    "unat (w_records w) \<le> k" "k \<le> length ([(5, sample_body)] @ [])" "w_next_offset w' = ph_first_offset sample_header + of_nat k"
    "PartReader_open plain_zstd None (w_file w') (Some (w_index w')) (map_option d_file (w_dict w')) False = Inr r"
    "answers plain_zstd r (ph_first_offset sample_header) (take k ([(5, sample_body)] @ []))"
    using part_crash_recovery [OF plain_zstd_ok w(1) [unfolded sample_part_def] writes.start order_refl, of None] sample_start(4) by auto
  moreover from this(2,3) w(2) have "k = 1" by simp
  ultimately have c: "PartWriter_adopt plain_zstd 65536 Zstd (Some default_dict_config) (map_option d_file (w_dict w)) (take (length (w_file w)) (w_file w)) = Inr w'"
    "w_next_offset w' = 101" "PartReader_open plain_zstd None (w_file w') (Some (w_index w')) (map_option d_file (w_dict w')) False = Inr r"
    "answers plain_zstd r 100 [(5, sample_body)]" using sample_start(4) by simp_all
  then show ?thesis using c w(1) by (intro exI [of _ w] exI [of _ "length (w_file w)"] exI [of _ w'] exI [of _ r])
    (auto simp: answers_def from_offset_def)
qed

end
