(* ===== verification/Okm_Series_Log.thy ===== *)
theory Okm_Series_Log
  imports Okm_Series_Runs "HOL-Library.Product_Lexorder"
begin

unbundle bit_operations_syntax

text \<open>
  The log over its parts (\<open>okm-series/src/lib.rs\<close>): identity, partitions and buckets, the append
  path with its clock, sealing, retention, opening, and the reads over every part.

  The directory tree is a list of the part files by bucket, partition, number and seal, with the
  bytes of the part, of its index and of its dictionary; what the kernel keeps beside it (file
  names, locks of other processes) enters as arguments. The clock and the process are arguments
  too. Text is its UTF-8 bytes; white space is the ASCII one.
\<close>

section \<open>Text\<close>

definition ascii :: "string \<Rightarrow> bytes" where
  "ascii s = map of_char s"

text \<open>\<open>to_string\<close> of an unsigned integer.\<close>

fun decimal :: "nat \<Rightarrow> bytes" where
  "decimal n = (if n < 10 then [of_nat (48 + n)] else decimal (n div 10) @ [of_nat (48 + n mod 10)])"

declare decimal.simps [simp del]

definition decimal_i64 :: "u64 \<Rightarrow> bytes" where
  "decimal_i64 v = (if bit v 63 then 45 # decimal (2 ^ 64 - unat v) else decimal (unat v))"

fun digits_value :: "nat \<Rightarrow> bytes \<Rightarrow> nat option" where
  "digits_value acc [] = Some acc"
| "digits_value acc (c # cs) = (if 48 \<le> c \<and> c \<le> 57 then digits_value (acc * 10 + unat (c - 48)) cs else None)"

text \<open>\<open>parse\<close> of an unsigned integer below \<open>bound\<close>.\<close>

definition parse_uint :: "nat \<Rightarrow> bytes \<Rightarrow> nat option" where
  "parse_uint bound s =
     (let ds = (case s of [] \<Rightarrow> [] | c # cs \<Rightarrow> if c = 43 then cs else s) in
      if ds = [] then None
      else case digits_value 0 ds of None \<Rightarrow> None | Some n \<Rightarrow> if n < bound then Some n else None)"

definition is_space :: "byte \<Rightarrow> bool" where
  "is_space c \<longleftrightarrow> (9 \<le> c \<and> c \<le> 13) \<or> c = 32"

fun split_at :: "(byte \<Rightarrow> bool) \<Rightarrow> bytes \<Rightarrow> bytes list" where
  "split_at P [] = [[]]"
| "split_at P (c # cs) = (if P c then [] # split_at P cs
     else case split_at P cs of [] \<Rightarrow> [[c]] | w # ws \<Rightarrow> (c # w) # ws)"

definition split_whitespace :: "bytes \<Rightarrow> bytes list" where
  "split_whitespace s = filter (\<lambda>w. w \<noteq> []) (split_at is_space s)"

section \<open>Names of directories\<close>

definition hex_char :: "nat \<Rightarrow> byte" where
  "hex_char n = of_nat (if n < 10 then 48 + n else 87 + n)"

definition hex :: "bytes \<Rightarrow> bytes" where
  "hex b = concat (map (\<lambda>c. [hex_char (unat (drop_bit 4 c)), hex_char (unat (c AND 0x0F))]) b)"

text \<open>\<open>char::to_digit(16)\<close> of one byte.\<close>

definition from_hex :: "byte \<Rightarrow> nat option" where
  "from_hex c =
     (if 48 \<le> c \<and> c \<le> 57 then Some (unat (c - 48))
      else if 97 \<le> c \<and> c \<le> 102 then Some (unat (c - 87))
      else if 65 \<le> c \<and> c \<le> 70 then Some (unat (c - 55)) else None)"

fun unhex_pairs :: "bytes \<Rightarrow> bytes option" where
  "unhex_pairs (a # b # rest) =
     (case from_hex a of None \<Rightarrow> None | Some high \<Rightarrow>
      (case from_hex b of None \<Rightarrow> None | Some low \<Rightarrow> map_option (\<lambda>bs. of_nat (high * 16 + low) # bs) (unhex_pairs rest)))"
| "unhex_pairs _ = Some []"

definition unhex :: "bytes \<Rightarrow> bytes option" where
  "unhex s = (if length s mod 2 \<noteq> 0 then None else unhex_pairs s)"

definition PARTITION_PREFIX :: bytes where "PARTITION_PREFIX = [112, 45]"

definition partition_dir_name :: "bytes \<Rightarrow> bytes" where
  "partition_dir_name value = PARTITION_PREFIX @ hex value"

definition partition_of_dir :: "bytes \<Rightarrow> bytes option" where
  "partition_of_dir name =
     (if take 2 name = PARTITION_PREFIX then (case unhex (drop 2 name) of None \<Rightarrow> None | Some b \<Rightarrow> from_utf8 b) else None)"

text \<open>The partition of a body; \<open>show_f64\<close> prints a float.\<close>

definition partition_of :: "(u64 \<Rightarrow> bytes) \<Rightarrow> body \<Rightarrow> u16 \<Rightarrow> bytes sresult" where
  "partition_of show_f64 body tag =
     (case body_get body tag of
        None \<Rightarrow> Inl (MissingPartition tag)
      | Some (VStr s) \<Rightarrow> Inr s
      | Some (VU64 n) \<Rightarrow> Inr (decimal (unat n))
      | Some (VI64 n) \<Rightarrow> Inr (decimal_i64 n)
      | Some (VF64 n) \<Rightarrow> Inr (show_f64 n)
      | Some (VBytes b) \<Rightarrow> Inr (hex b))"

section \<open>Identity\<close>

record log_config =
  lc_precision :: precision
  lc_bucket_seconds :: u64
  lc_block_bytes :: nat
  lc_part_bytes :: u64
  lc_codec :: block_codec
  lc_dict :: "dict_config option"
  lc_partition_tag :: "u16 option"

definition default_log_config :: log_config where
  "default_log_config = \<lparr> lc_precision = Ns, lc_bucket_seconds = 3600, lc_block_bytes = 64 * 1024,
     lc_part_bytes = 64 * 1024 * 1024, lc_codec = Zstd, lc_dict = Some default_dict_config, lc_partition_tag = None \<rparr>"

record log_meta =
  lm_epoch_unix_ms :: u64
  lm_precision :: precision
  lm_bucket_seconds :: u64
  lm_partition_tag :: "u16 option"

definition check_meta :: "log_meta \<Rightarrow> log_config \<Rightarrow> unit sresult" where
  "check_meta meta config =
     (if lm_precision meta \<noteq> lc_precision config then Inl (ConfigMismatch ''precision'')
      else if lm_bucket_seconds meta \<noteq> lc_bucket_seconds config then Inl (ConfigMismatch ''bucket'')
      else if lm_partition_tag meta \<noteq> lc_partition_tag config then Inl (ConfigMismatch ''partition tag'')
      else Inr ())"

definition write_meta :: "log_meta \<Rightarrow> bytes" where
  "write_meta meta =
     ascii ''okm-series '' @ decimal (unat FORMAT_VERSION) @ [10]
     @ ascii ''epoch '' @ decimal (unat (lm_epoch_unix_ms meta)) @ [10]
     @ ascii ''precision '' @ ascii (precision_label (lm_precision meta)) @ [10]
     @ ascii ''bucket '' @ decimal (unat (lm_bucket_seconds meta)) @ [10]
     @ ascii ''partition '' @ (case lm_partition_tag meta of Some tag \<Rightarrow> decimal (unat tag) | None \<Rightarrow> [45]) @ [10]"

definition meta_number :: "string \<Rightarrow> bytes \<Rightarrow> nat \<Rightarrow> nat sresult" where
  "meta_number what value bound = (case parse_uint bound value of None \<Rightarrow> Inl (BadMeta what) | Some n \<Rightarrow> Inr n)"

definition precision_of_label :: "bytes \<Rightarrow> precision option" where
  "precision_of_label v =
     (if v = ascii ''s'' then Some S else if v = ascii ''ms'' then Some Ms
      else if v = ascii ''us'' then Some Us else if v = ascii ''ns'' then Some Ns else None)"

definition meta_line :: "bytes \<Rightarrow> bool \<times> log_meta \<Rightarrow> (bool \<times> log_meta) sresult" where
  "meta_line line = (\<lambda>(seen, m).
     let ws = split_whitespace line in
     if ws = [] \<or> hd (hd ws) = 35 then Inr (seen, m)
     else let key = hd ws; value = (case tl ws of [] \<Rightarrow> [] | v # _ \<Rightarrow> v) in
       if key = ascii ''okm-series'' then Inr (True, m)
       else if key = ascii ''epoch'' then
         rbind (meta_number ''epoch'' value (2 ^ 64)) (\<lambda>n. Inr (seen, m \<lparr> lm_epoch_unix_ms := of_nat n \<rparr>))
       else if key = ascii ''precision'' then
         (case precision_of_label value of None \<Rightarrow> Inl (BadMeta ''precision'') | Some p \<Rightarrow> Inr (seen, m \<lparr> lm_precision := p \<rparr>))
       else if key = ascii ''bucket'' then
         rbind (meta_number ''bucket'' value (2 ^ 64)) (\<lambda>n. Inr (seen, m \<lparr> lm_bucket_seconds := of_nat n \<rparr>))
       else if key = ascii ''partition'' \<and> value \<noteq> [45] then
         rbind (meta_number ''partition'' value (2 ^ 16)) (\<lambda>n. Inr (seen, m \<lparr> lm_partition_tag := Some (of_nat n) \<rparr>))
       else Inr (seen, m))"

fun meta_lines :: "bytes list \<Rightarrow> bool \<times> log_meta \<Rightarrow> (bool \<times> log_meta) sresult" where
  "meta_lines [] st = Inr st"
| "meta_lines (line # lines) st = rbind (meta_line line st) (meta_lines lines)"

definition read_meta :: "bytes \<Rightarrow> log_meta sresult" where
  "read_meta text =
     rbind (meta_lines (split_at (\<lambda>c. c = 10) text)
       (False, \<lparr> lm_epoch_unix_ms = 0, lm_precision = Ns, lm_bucket_seconds = 3600, lm_partition_tag = None \<rparr>))
       (\<lambda>(seen, m). if \<not> seen then Inl (BadMeta ''missing header'')
          else if lm_bucket_seconds m = 0 then Inl (BadMeta ''bucket of zero'') else Inr m)"

text \<open>The second component is the \<open>log.meta\<close> left behind.\<close>

definition read_or_create_meta :: "log_config \<Rightarrow> u64 \<Rightarrow> bytes option \<Rightarrow> log_meta sresult \<times> bytes option" where
  "read_or_create_meta config now_ms file =
     (case file of
        Some text \<Rightarrow> (rbind (read_meta text) (\<lambda>meta. rbind (check_meta meta config) (\<lambda>_. Inr meta)), file)
      | None \<Rightarrow>
          let meta = \<lparr> lm_epoch_unix_ms = now_ms, lm_precision = lc_precision config,
                       lm_bucket_seconds = lc_bucket_seconds config, lm_partition_tag = lc_partition_tag config \<rparr> in
          (Inr meta, Some (write_meta meta)))"

text \<open>\<open>alive\<close> are the running processes.\<close>

definition acquire_lock :: "u32 \<Rightarrow> (u32 \<Rightarrow> bool) \<Rightarrow> bytes option \<Rightarrow> unit sresult \<times> bytes option" where
  "acquire_lock me alive lock =
     (case Option.bind lock (\<lambda>text. case split_whitespace text of [w] \<Rightarrow> parse_uint (2 ^ 32) w | _ \<Rightarrow> None) of
        Some pid \<Rightarrow> if of_nat pid \<noteq> me \<and> alive (of_nat pid) then (Inl (Locked (of_nat pid)), lock)
          else (Inr (), Some (decimal (unat me) @ [10]))
      | None \<Rightarrow> (Inr (), Some (decimal (unat me) @ [10])))"

definition claim_root :: "'r \<Rightarrow> 'r set \<Rightarrow> unit sresult \<times> 'r set" where
  "claim_root root held = (if root \<in> held then (Inl AlreadyOpen, held) else (Inr (), insert root held))"

definition release_root :: "'r \<Rightarrow> 'r set \<Rightarrow> 'r set" where
  "release_root root held = held - {root}"

section \<open>The tree\<close>

text \<open>Bucket, partition, number, sealed.\<close>

type_synonym part_path = "u64 \<times> bytes option \<times> u32 \<times> bool"

record part_files =
  pf_part :: bytes
  pf_index :: "bytes option"
  pf_dict :: "bytes option"

type_synonym tree = "(part_path \<times> part_files) list"

definition files_of :: "part_writer \<Rightarrow> part_files" where
  "files_of w = \<lparr> pf_part = w_file w, pf_index = Some (w_index w), pf_dict = map_option d_file (w_dict w) \<rparr>"

definition part_numbers :: "tree \<Rightarrow> u64 \<Rightarrow> bytes option \<Rightarrow> u32 list" where
  "part_numbers tree b p = sort (remdups (map (\<lambda>((_, _, n, _), _). n) (filter (\<lambda>((b', p', _, _), _). b' = b \<and> p' = p) tree)))"

definition path_exists :: "tree \<Rightarrow> part_path \<Rightarrow> bool" where
  "path_exists tree path \<longleftrightarrow> map_of tree path \<noteq> None"

definition sealed_parts :: "tree \<Rightarrow> u64 \<Rightarrow> bytes option \<Rightarrow> part_path list" where
  "sealed_parts tree b p = filter (path_exists tree) (map (\<lambda>n. (b, p, n, True)) (part_numbers tree b p))"

definition open_part :: "tree \<Rightarrow> u64 \<Rightarrow> bytes option \<Rightarrow> part_path option" where
  "open_part tree b p = find (path_exists tree) (map (\<lambda>n. (b, p, n, False)) (part_numbers tree b p))"

definition stream_parts :: "tree \<Rightarrow> u64 \<Rightarrow> bytes option \<Rightarrow> part_path list" where
  "stream_parts tree b p = sealed_parts tree b p @ (case open_part tree b p of Some path \<Rightarrow> [path] | None \<Rightarrow> [])"

definition all_parts :: "tree \<Rightarrow> part_path list" where
  "all_parts tree = concat (map (\<lambda>b.
     stream_parts tree b None @ concat (map (\<lambda>v. stream_parts tree b (Some v))
       (sort (remdups (List.map_filter (\<lambda>((b', p, _, _), _). if b' = b then p else None) tree)))))
     (sort (remdups (map (\<lambda>((b, _, _, _), _). b) tree))))"

definition first_offset_of :: "tree \<Rightarrow> part_path \<Rightarrow> u64 sresult" where
  "first_offset_of tree path =
     (case map_of tree path of
        None \<Rightarrow> Inl Io
      | Some f \<Rightarrow> rbind (read_full (pf_part f) 0 PART_HEADER_LEN) (\<lambda>head.
          case PartHeader_decode head of None \<Rightarrow> Inl (BadFrame ''part header'') | Some h \<Rightarrow> Inr (ph_first_offset h)))"

fun offset_keyed :: "tree \<Rightarrow> part_path list \<Rightarrow> (u64 \<times> part_path) list" where
  "offset_keyed tree [] = []"
| "offset_keyed tree (path # paths) =
     (case first_offset_of tree path of Inl _ \<Rightarrow> offset_keyed tree paths | Inr k \<Rightarrow> (k, path) # offset_keyed tree paths)"

definition parts_by_offset :: "tree \<Rightarrow> part_path list" where
  "parts_by_offset tree = map snd (sort_key fst (offset_keyed tree (all_parts tree)))"

definition open_reader :: "zstd \<Rightarrow> tree \<Rightarrow> dict_config option \<Rightarrow> part_path \<Rightarrow> part_reader sresult" where
  "open_reader Z tree dict path =
     (case map_of tree path of
        None \<Rightarrow> Inl Io
      | Some f \<Rightarrow> PartReader_open Z dict (pf_part f) (pf_index f) (pf_dict f) (snd (snd (snd path))))"

fun stream_end :: "zstd \<Rightarrow> tree \<Rightarrow> part_path list \<Rightarrow> u64 \<Rightarrow> u64" where
  "stream_end Z tree [] end = end"
| "stream_end Z tree (path # paths) end =
     stream_end Z tree paths (case open_reader Z tree None path of Inl _ \<Rightarrow> end | Inr r \<Rightarrow> max end (snd (offset_span r)))"

definition stream_next_offset :: "zstd \<Rightarrow> tree \<Rightarrow> u64 \<Rightarrow> bytes option \<Rightarrow> u64" where
  "stream_next_offset Z tree b p = stream_end Z tree (stream_parts tree b p) 0"

section \<open>Reads\<close>

text \<open>The parsed readers with the file length they were built from.\<close>

type_synonym readers = "(part_path \<times> nat \<times> part_reader) list"

record read_side =
  rs_meta :: log_meta
  rs_config :: log_config
  rs_readers :: readers

definition READER_CACHE_LIMIT :: nat where "READER_CACHE_LIMIT = 48"

definition reader_for :: "zstd \<Rightarrow> tree \<Rightarrow> part_path \<Rightarrow> read_side \<Rightarrow> part_reader sresult \<times> read_side" where
  "reader_for Z tree path side =
     (case map_of tree path of
        None \<Rightarrow> (Inl Io, side)
      | Some f \<Rightarrow>
          let n = length (pf_part f);
              fresh = (case open_reader Z tree (lc_dict (rs_config side)) path of
                  Inl e \<Rightarrow> (Inl e, side)
                | Inr r \<Rightarrow>
                    let cache = (if READER_CACHE_LIMIT \<le> length (rs_readers side) then [] else rs_readers side) in
                    (Inr r, side \<lparr> rs_readers := AList.update path (n, r) cache \<rparr>)) in
          case map_of (rs_readers side) path of
            Some (m, r) \<Rightarrow> if m = n then (Inr r, side) else fresh
          | None \<Rightarrow> fresh)"

datatype which = EveryStream | Stream "bytes option"

fun covers :: "which \<Rightarrow> bytes option \<Rightarrow> bool" where
  "covers EveryStream p = True"
| "covers (Stream want) p = (p = want)"

definition path_partition :: "part_path \<Rightarrow> bytes option" where
  "path_partition path = fst (snd path)"

fun streams_loop ::
    "zstd \<Rightarrow> tree \<Rightarrow> which \<Rightarrow> u64 \<Rightarrow> nat \<Rightarrow> part_path list \<Rightarrow> hit list \<Rightarrow> read_side \<Rightarrow> hit list sresult \<times> read_side" where
  "streams_loop Z tree which lo m [] found side = (Inr found, side)"
| "streams_loop Z tree which lo m (path # paths) found side =
     (if m \<le> length found then (Inr found, side)
      else if \<not> covers which (path_partition path) then streams_loop Z tree which lo m paths found side
      else case reader_for Z tree path side of
          (Inl e, side) \<Rightarrow> (Inl e, side)
        | (Inr r, side) \<Rightarrow>
            let (start, end) = offset_span r in
            if end \<le> lo then streams_loop Z tree which lo m paths found side
            else (case read_from Z r (max lo start) m found of
                Inl e \<Rightarrow> (Inl e, side)
              | Inr found \<Rightarrow> streams_loop Z tree which lo m paths found side))"

definition in_time_order :: "which \<Rightarrow> hit list \<Rightarrow> hit list" where
  "in_time_order which found = (case which of EveryStream \<Rightarrow> sort_key (\<lambda>(ts, off, body). (ts, off)) found | Stream _ \<Rightarrow> found)"

definition read_streams :: "zstd \<Rightarrow> tree \<Rightarrow> which \<Rightarrow> u64 \<Rightarrow> nat \<Rightarrow> read_side \<Rightarrow> hit list sresult \<times> read_side" where
  "read_streams Z tree which lo m side =
     map_prod (\<lambda>r. rbind r (\<lambda>found. Inr (in_time_order which found))) id
       (streams_loop Z tree which lo m (parts_by_offset tree) [] side)"

fun time_loop ::
    "zstd \<Rightarrow> tree \<Rightarrow> which \<Rightarrow> u64 \<Rightarrow> u64 \<Rightarrow> nat \<Rightarrow> part_path list \<Rightarrow> hit list \<Rightarrow> read_side \<Rightarrow> hit list sresult \<times> read_side" where
  "time_loop Z tree which lo hi m [] found side = (Inr found, side)"
| "time_loop Z tree which lo hi m (path # paths) found side =
     (if m \<le> length found then (Inr found, side)
      else if \<not> covers which (path_partition path) then time_loop Z tree which lo hi m paths found side
      else case reader_for Z tree path side of
          (Inl e, side) \<Rightarrow> (Inl e, side)
        | (Inr r, side) \<Rightarrow>
            (case r_span r of
               None \<Rightarrow> time_loop Z tree which lo hi m paths found side
             | Some (start, end) \<Rightarrow>
                 if end < lo \<or> hi < start then time_loop Z tree which lo hi m paths found side
                 else (case Okm_Series_Part.read_by_time Z r lo hi m found of
                     Inl e \<Rightarrow> (Inl e, side)
                   | Inr found \<Rightarrow> time_loop Z tree which lo hi m paths found side)))"

definition read_by_time_streams ::
    "zstd \<Rightarrow> tree \<Rightarrow> which \<Rightarrow> u64 \<Rightarrow> u64 \<Rightarrow> nat \<Rightarrow> read_side \<Rightarrow> hit list sresult \<times> read_side" where
  "read_by_time_streams Z tree which lo hi m side =
     map_prod (\<lambda>r. rbind r (\<lambda>found. Inr (in_time_order which found))) id
       (time_loop Z tree which lo hi m (parts_by_offset tree) [] side)"

record part_info =
  pi_path :: part_path
  pi_sealed :: bool
  pi_first_offset :: u64
  pi_records :: u64
  pi_first_ts :: u64
  pi_last_ts :: u64
  pi_bytes :: nat

fun parts_loop :: "zstd \<Rightarrow> tree \<Rightarrow> part_path list \<Rightarrow> read_side \<Rightarrow> part_info list sresult \<times> read_side" where
  "parts_loop Z tree [] side = (Inr [], side)"
| "parts_loop Z tree (path # paths) side =
     (case reader_for Z tree path side of
        (Inl e, side) \<Rightarrow> (Inl e, side)
      | (Inr r, side) \<Rightarrow>
          let (first, end) = offset_span r; (first_ts, last_ts) = (case r_span r of Some s \<Rightarrow> s | None \<Rightarrow> (0, 0));
              n = (case map_of tree path of Some f \<Rightarrow> length (pf_part f) | None \<Rightarrow> 0) in
          map_prod (\<lambda>res. rbind res (\<lambda>infos. Inr (\<lparr> pi_path = path, pi_sealed = r_sealed r, pi_first_offset = first,
              pi_records = end - first, pi_first_ts = first_ts, pi_last_ts = last_ts, pi_bytes = n \<rparr> # infos))) id
            (parts_loop Z tree paths side))"

definition log_parts :: "zstd \<Rightarrow> tree \<Rightarrow> read_side \<Rightarrow> part_info list sresult \<times> read_side" where
  "log_parts Z tree side = parts_loop Z tree (parts_by_offset tree) side"

text \<open>A bucket of no seconds is a division by zero: the panic \<open>None\<close>.\<close>

definition bucket_of :: "log_meta \<Rightarrow> u64 \<Rightarrow> u64 option" where
  "bucket_of meta ts = (if lm_bucket_seconds meta = 0 then None else Some (of_nat (min (2 ^ 64 - 1) (unat ts div per_second (lm_precision meta) div unat (lm_bucket_seconds meta)))))"

section \<open>The writer\<close>

record active =
  ac_path :: part_path
  ac_writer :: part_writer

definition ac_bucket :: "active \<Rightarrow> u64" where "ac_bucket a = fst (ac_path a)"
definition ac_partition :: "active \<Rightarrow> bytes option" where "ac_partition a = path_partition (ac_path a)"

record log =
  lg_tree :: tree
  lg_side :: read_side
  lg_active :: "active list"
  lg_last :: "bytes option \<rightharpoonup> u64"

definition lg_meta :: "log \<Rightarrow> log_meta" where "lg_meta l = rs_meta (lg_side l)"
definition lg_config :: "log \<Rightarrow> log_config" where "lg_config l = rs_config (lg_side l)"

definition write_part :: "part_path \<Rightarrow> part_writer \<Rightarrow> log \<Rightarrow> log" where
  "write_part path w l = l \<lparr> lg_tree := AList.update path (files_of w) (lg_tree l) \<rparr>"

definition active_index :: "u64 \<Rightarrow> bytes option \<Rightarrow> active list \<Rightarrow> nat option" where
  "active_index b p as =
     (let i = length (takeWhile (\<lambda>a. \<not> (ac_bucket a = b \<and> ac_partition a = p)) as) in
      if i < length as then Some i else None)"

text \<open>A writer seals its part; a rename moves the \<open>.open\<close> file to \<open>.log\<close>.\<close>

definition seal_active :: "zstd \<Rightarrow> (bytes \<Rightarrow> u64) \<Rightarrow> active \<Rightarrow> log \<Rightarrow> footer sresult \<times> log" where
  "seal_active Z xxh a l =
     (case part_seal Z xxh (ac_writer a) of
        (Inl e, w) \<Rightarrow> (Inl e, write_part (ac_path a) w l)
      | (Inr f, w) \<Rightarrow>
          (Inr f, let (b, p, n, _) = ac_path a in
            l \<lparr> lg_tree := AList.update (b, p, n, True) (files_of w) (AList.delete (ac_path a) (lg_tree l)) \<rparr>))"

fun remove_at :: "nat \<Rightarrow> 'x list \<Rightarrow> 'x list" where
  "remove_at i [] = []"
| "remove_at 0 (x # xs) = xs"
| "remove_at (Suc i) (x # xs) = x # remove_at i xs"

fun seal_indices :: "zstd \<Rightarrow> (bytes \<Rightarrow> u64) \<Rightarrow> nat list \<Rightarrow> log \<Rightarrow> unit sresult \<times> log" where
  "seal_indices Z xxh [] l = (Inr (), l)"
| "seal_indices Z xxh (i # is) l =
     (let a = lg_active l ! i in
      case seal_active Z xxh a (l \<lparr> lg_active := remove_at i (lg_active l) \<rparr>) of
        (Inl e, l) \<Rightarrow> (Inl e, l)
      | (Inr _, l) \<Rightarrow> seal_indices Z xxh is l)"

text \<open>\<open>only\<close> limits the sealing to one stream.\<close>

definition seal_parts_older_than ::
    "zstd \<Rightarrow> (bytes \<Rightarrow> u64) \<Rightarrow> u64 \<Rightarrow> bytes option option \<Rightarrow> log \<Rightarrow> unit sresult \<times> log" where
  "seal_parts_older_than Z xxh cutoff only l =
     seal_indices Z xxh (rev (map fst (filter (\<lambda>(i, a). ac_bucket a < cutoff \<and>
       (case only of None \<Rightarrow> True | Some p \<Rightarrow> ac_partition a = p)) (enumerate 0 (lg_active l))))) l"

definition part_full :: "log_config \<Rightarrow> part_writer \<Rightarrow> bool" where
  "part_full config w \<longleftrightarrow> unat (lc_part_bytes config) \<le> w_file_off w + length (w_block w)"

definition candidates :: "tree \<Rightarrow> u64 \<Rightarrow> bytes option \<Rightarrow> u32 list" where
  "candidates tree b p =
     (let number = (case part_numbers tree b p of [] \<Rightarrow> 0 | ns \<Rightarrow> last ns + 1) in
      map of_nat [unat number ..< min (unat number + 1024) (2 ^ 32 - 1)])"

definition new_part :: "zstd \<Rightarrow> u64 \<Rightarrow> u64 \<Rightarrow> bytes option \<Rightarrow> u64 \<Rightarrow> log \<Rightarrow> unit sresult \<times> log" where
  "new_part Z now_ms b p ts l =
     (case find (\<lambda>n. \<not> path_exists (lg_tree l) (b, p, n, False)) (candidates (lg_tree l) b p) of
        None \<Rightarrow> (Inl BadPath, l)
      | Some n \<Rightarrow>
          let h = \<lparr> ph_precision = lm_precision (lg_meta l), ph_bucket = b, ph_base_ts = ts,
                    ph_first_offset = stream_next_offset Z (lg_tree l) b p, ph_created_unix_ms = now_ms \<rparr>;
              w = PartWriter_create h (lc_block_bytes (lg_config l)) (lc_codec (lg_config l)) (lc_dict (lg_config l));
              path = (b, p, n, False) in
          (Inr (), write_part path w (l \<lparr> lg_active := lg_active l @ [\<lparr> ac_path = path, ac_writer = w \<rparr>] \<rparr>)))"

definition ensure_part ::
    "zstd \<Rightarrow> (bytes \<Rightarrow> u64) \<Rightarrow> u64 \<Rightarrow> u64 \<Rightarrow> bytes option \<Rightarrow> u64 \<Rightarrow> log \<Rightarrow> unit sresult \<times> log" where
  "ensure_part Z xxh now_ms b p ts l =
     (case seal_parts_older_than Z xxh b (Some p) l of
        (Inl e, l) \<Rightarrow> (Inl e, l)
      | (Inr _, l) \<Rightarrow>
          (case active_index b p (lg_active l) of
             None \<Rightarrow> new_part Z now_ms b p ts l
           | Some i \<Rightarrow>
               if \<not> part_full (lg_config l) (ac_writer (lg_active l ! i)) then (Inr (), l)
               else (case seal_indices Z xxh [i] l of
                   (Inl e, l) \<Rightarrow> (Inl e, l)
                 | (Inr _, l) \<Rightarrow> new_part Z now_ms b p ts l)))"

definition log_now :: "log \<Rightarrow> u64 \<Rightarrow> bytes option \<Rightarrow> u64" where
  "log_now l raw p = (case lg_last l p of Some seen \<Rightarrow> max raw seen | None \<Rightarrow> raw)"

text \<open>The environment of an append: the string hash, the digest, and a printed float.\<close>

record env =
  e_hash :: "bytes \<Rightarrow> u64"
  e_xxh :: "bytes \<Rightarrow> u64"
  e_show :: "u64 \<Rightarrow> bytes"

text \<open>\<open>raw\<close> is the clock; the outer \<open>None\<close> is the panic of the body encoder.\<close>

definition log_append :: "zstd \<Rightarrow> env \<Rightarrow> u64 \<Rightarrow> u64 \<Rightarrow> body \<Rightarrow> log \<Rightarrow> (u64 sresult \<times> log) option" where
  "log_append Z E raw now_ms body l =
     (case (case lm_partition_tag (lg_meta l) of
          Some tag \<Rightarrow> rbind (partition_of (e_show E) body tag) (\<lambda>v. Inr (Some v)) | None \<Rightarrow> Inr None) of
        Inl e \<Rightarrow> Some (Inl e, l)
      | Inr p \<Rightarrow>
          let ts = log_now l raw p in
          (case bucket_of (lg_meta l) ts of
             None \<Rightarrow> None
           | Some b \<Rightarrow>
               (case ensure_part Z (e_xxh E) now_ms b p ts l of
                  (Inl e, l) \<Rightarrow> Some (Inl e, l)
                | (Inr _, l) \<Rightarrow>
                    (case active_index b p (lg_active l) of
                       None \<Rightarrow> Some (Inl BadPath, l)
                     | Some i \<Rightarrow>
                         let a = lg_active l ! i in
                         map_option (\<lambda>(r, w).
                           let l = write_part (ac_path a) w (l \<lparr> lg_active := (lg_active l)[i := a \<lparr> ac_writer := w \<rparr>] \<rparr>) in
                           case r of Inl e \<Rightarrow> (Inl e, l) | Inr offset \<Rightarrow> (Inr offset, l \<lparr> lg_last := (lg_last l)(p \<mapsto> ts) \<rparr>))
                         (part_append Z (e_hash E) ts body (ac_writer a))))))"

fun flush_indices :: "zstd \<Rightarrow> nat list \<Rightarrow> log \<Rightarrow> unit sresult \<times> log" where
  "flush_indices Z [] l = (Inr (), l)"
| "flush_indices Z (i # is) l =
     (let a = lg_active l ! i; (r, w) = flush_block Z (ac_writer a);
          l = write_part (ac_path a) w (l \<lparr> lg_active := (lg_active l)[i := a \<lparr> ac_writer := w \<rparr>] \<rparr>) in
      case r of Inl e \<Rightarrow> (Inl e, l) | Inr _ \<Rightarrow> flush_indices Z is l)"

definition log_flush :: "zstd \<Rightarrow> log \<Rightarrow> unit sresult \<times> log" where
  "log_flush Z l = flush_indices Z [0 ..< length (lg_active l)] l"

definition append_durable :: "zstd \<Rightarrow> env \<Rightarrow> u64 \<Rightarrow> u64 \<Rightarrow> body \<Rightarrow> log \<Rightarrow> (u64 sresult \<times> log) option" where
  "append_durable Z E raw now_ms body l =
     map_option (\<lambda>(r, l). case r of Inl e \<Rightarrow> (Inl e, l)
       | Inr offset \<Rightarrow> map_prod (\<lambda>r. rbind r (\<lambda>_. Inr offset)) id (log_flush Z l)) (log_append Z E raw now_ms body l)"

definition clear_readers :: "log \<Rightarrow> log" where
  "clear_readers l = l \<lparr> lg_side := (lg_side l) \<lparr> rs_readers := [] \<rparr> \<rparr>"

fun seal_each :: "zstd \<Rightarrow> (bytes \<Rightarrow> u64) \<Rightarrow> active list \<Rightarrow> log \<Rightarrow> footer list sresult \<times> log" where
  "seal_each Z xxh [] l = (Inr [], l)"
| "seal_each Z xxh (a # as) l =
     (case seal_active Z xxh a l of
        (Inl e, l) \<Rightarrow> (Inl e, l)
      | (Inr f, l) \<Rightarrow> map_prod (\<lambda>r. rbind r (\<lambda>fs. Inr (f # fs))) id (seal_each Z xxh as l))"

definition log_seal :: "zstd \<Rightarrow> (bytes \<Rightarrow> u64) \<Rightarrow> log \<Rightarrow> footer list sresult \<times> log" where
  "log_seal Z xxh l = seal_each Z xxh (lg_active l) (clear_readers (l \<lparr> lg_active := [] \<rparr>))"

definition retain_before :: "zstd \<Rightarrow> (bytes \<Rightarrow> u64) \<Rightarrow> u64 \<Rightarrow> log \<Rightarrow> (u64 list sresult \<times> log) option" where
  "retain_before Z xxh ts l =
     map_option (\<lambda>cutoff.
       case seal_parts_older_than Z xxh cutoff None l of
         (Inl e, l) \<Rightarrow> (Inl e, l)
       | (Inr _, l) \<Rightarrow>
           let l = clear_readers l;
               dropped = filter (\<lambda>b. \<not> (cutoff \<le> b \<or> b \<in> ac_bucket ` set (lg_active l)))
                 (remdups (map (\<lambda>((b, _, _, _), _). b) (lg_tree l))) in
           (Inr (sort dropped), l \<lparr> lg_tree := filter (\<lambda>((b, _, _, _), _). b \<notin> set dropped) (lg_tree l) \<rparr>))
       (bucket_of (lg_meta l) ts)"

section \<open>Opening\<close>

fun open_loop :: "zstd \<Rightarrow> (bytes \<Rightarrow> u64) \<Rightarrow> u64 \<Rightarrow> part_path list \<Rightarrow> log \<Rightarrow> (unit sresult \<times> log) option" where
  "open_loop Z xxh raw [] l = Some (Inr (), l)"
| "open_loop Z xxh raw (path # paths) l =
     (case open_reader Z (lg_tree l) (lc_dict (lg_config l)) path of
        Inl e \<Rightarrow> Some (Inl e, l)
      | Inr r \<Rightarrow>
          let (b, p, n, _) = path;
              l = (case r_span r of
                  Some (_, newest) \<Rightarrow> l \<lparr> lg_last := (lg_last l)(p \<mapsto> (case lg_last l p of Some seen \<Rightarrow> max seen newest | None \<Rightarrow> newest)) \<rparr>
                | None \<Rightarrow> l) in
          if r_sealed r \<or> active_index b p (lg_active l) \<noteq> None then open_loop Z xxh raw paths l
          else case (case map_of (lg_tree l) path of
                None \<Rightarrow> Inl Io
              | Some f \<Rightarrow> PartWriter_adopt Z (lc_block_bytes (lg_config l)) (lc_codec (lg_config l)) (lc_dict (lg_config l)) (pf_dict f) (pf_part f)) of
            Inl e \<Rightarrow> Some (Inl e, l)
          | Inr w \<Rightarrow>
              let l = write_part path w l; a = \<lparr> ac_path = path, ac_writer = w \<rparr> in
              (case bucket_of (lg_meta l) raw of
                 None \<Rightarrow> None
               | Some now_bucket \<Rightarrow>
                   if b < now_bucket then
                     (case seal_active Z xxh a l of (Inl e, l) \<Rightarrow> Some (Inl e, l) | (Inr _, l) \<Rightarrow> open_loop Z xxh raw paths l)
                   else open_loop Z xxh raw paths (l \<lparr> lg_active := lg_active l @ [a] \<rparr>)))"

text \<open>The recovery of \<open>Log::open\<close>, behind the identity check, the lock and the claim.\<close>

definition empty_log :: "log_meta \<Rightarrow> log_config \<Rightarrow> tree \<Rightarrow> log" where
  "empty_log meta config tree = \<lparr> lg_tree = tree, lg_side = \<lparr> rs_meta = meta, rs_config = config, rs_readers = [] \<rparr>,
     lg_active = [], lg_last = Map.empty \<rparr>"

definition Log_recover :: "zstd \<Rightarrow> (bytes \<Rightarrow> u64) \<Rightarrow> u64 \<Rightarrow> log_meta \<Rightarrow> log_config \<Rightarrow> tree \<Rightarrow> (unit sresult \<times> log) option" where
  "Log_recover Z xxh raw meta config tree = open_loop Z xxh raw (all_parts tree) (empty_log meta config tree)"

record root =
  rt_meta :: "bytes option"
  rt_lock :: "bytes option"
  rt_tree :: tree

text \<open>
  \<open>held\<close> is the registry of the roots this process holds open; a failed open behind the claim
  releases it.
\<close>

definition Log_open ::
    "zstd \<Rightarrow> (bytes \<Rightarrow> u64) \<Rightarrow> u64 \<Rightarrow> u64 \<Rightarrow> u32 \<Rightarrow> (u32 \<Rightarrow> bool) \<Rightarrow> log_config \<Rightarrow> 'r \<Rightarrow> root \<Rightarrow> 'r set \<Rightarrow>
     (log sresult \<times> root \<times> 'r set) option" where
  "Log_open Z xxh raw now_ms me alive config name rt held =
     (case read_or_create_meta config now_ms (rt_meta rt) of
        (Inl e, m) \<Rightarrow> Some (Inl e, rt \<lparr> rt_meta := m \<rparr>, held)
      | (Inr meta, m) \<Rightarrow>
          let rt = rt \<lparr> rt_meta := m \<rparr> in
          (case acquire_lock me alive (rt_lock rt) of
             (Inl e, k) \<Rightarrow> Some (Inl e, rt \<lparr> rt_lock := k \<rparr>, held)
           | (Inr _, k) \<Rightarrow>
               let rt = rt \<lparr> rt_lock := k \<rparr> in
               (case claim_root name held of
                  (Inl e, held) \<Rightarrow> Some (Inl e, rt, held)
                | (Inr _, held) \<Rightarrow>
                    map_option (\<lambda>(r, l). case r of
                       Inl e \<Rightarrow> (Inl e, rt \<lparr> rt_tree := lg_tree l \<rparr>, release_root name held)
                     | Inr _ \<Rightarrow> (Inr l, rt \<lparr> rt_tree := lg_tree l \<rparr>, held))
                    (Log_recover Z xxh raw meta config (rt_tree rt)))))"

definition LogReader_open :: "log_config \<Rightarrow> root \<Rightarrow> read_side sresult" where
  "LogReader_open config rt =
     (case rt_meta rt of
        None \<Rightarrow> Inl (BadMeta ''not a log'')
      | Some text \<Rightarrow> rbind (read_meta text) (\<lambda>meta. rbind (check_meta meta config) (\<lambda>_.
          Inr \<lparr> rs_meta = meta, rs_config = config, rs_readers = [] \<rparr>)))"

end
