(* ===== verification/Okm_Series_Names.thy ===== *)
theory Okm_Series_Names
  imports Okm_Series_Log
begin

text \<open>
  The names a log writes read back: partition directories and the identity file.
\<close>

section \<open>Hex\<close>

lemma hex_char_back: "n < 16 \<Longrightarrow> from_hex (hex_char n) = Some n"
proof -
  assume "n < 16"
  then have "n \<in> {0, 1, 2, 3, 4, 5, 6, 7, 8, 9, 10, 11, 12, 13, 14, 15}" by (simp only: insert_iff empty_iff) presburger
  then show ?thesis by (elim insertE emptyE) (simp_all add: from_hex_def hex_char_def word_le_nat_alt)
qed

lemma nibbles: "unat (drop_bit 4 (c :: byte)) < 16" "unat (c AND 0x0F) < 16"
  "of_nat (unat (drop_bit 4 c) * 16 + unat (c AND 0x0F)) = c"
proof -
  have lo: "unat (c AND 0x0F) = unat c mod 16"
    using unat_take_bit_mod [of 4 c] by (simp add: take_bit_eq_mask mask_eq_exp_minus_1)
  have hi: "unat (drop_bit 4 c) = unat c div 16" by (simp add: unat_drop_bit_div)
  show "unat (drop_bit 4 c) < 16" using unat_byte_less [of c] by (simp add: hi less_mult_imp_div_less)
  show "unat (c AND 0x0F) < 16" by (simp add: lo)
  have "of_nat (unat c div 16 * 16 + unat c mod 16) = c" by (simp only: div_mult_mod_eq of_nat_unat ucast_id)
  then show "of_nat (unat (drop_bit 4 c) * 16 + unat (c AND 0x0F)) = c" by (simp only: lo hi)
qed

lemma unhex_hex: "unhex (hex b) = Some b"
proof -
  have "length (hex b) = 2 * length b" by (induction b) (simp_all add: hex_def)
  moreover have "unhex_pairs (hex b) = Some b"
    by (induction b) (simp_all add: hex_def hex_char_back nibbles del: of_nat_add of_nat_mult)
  ultimately show ?thesis by (simp add: unhex_def)
qed

section \<open>Decimals\<close>

lemma decimal_value: "digits_value acc (decimal n @ rest) = digits_value (acc * 10 ^ length (decimal n) + n) rest"
proof (induction n arbitrary: acc rest rule: decimal.induct)
  case (1 n)
  have digit: "48 \<le> (of_nat (48 + k) :: byte) \<and> (of_nat (48 + k) :: byte) \<le> 57 \<and> unat (of_nat (48 + k) - 48 :: byte) = k" if "k < 10" for k
  proof -
    have "k \<in> {0, 1, 2, 3, 4, 5, 6, 7, 8, 9}" using that by (simp only: insert_iff empty_iff) presburger
    then show ?thesis by (elim insertE emptyE) simp_all
  qed
  show ?case
  proof (cases "n < 10")
    case True
    then show ?thesis using digit [OF True] by (simp add: decimal.simps [of n] del: of_nat_add)
  next
    case False
    let ?d = "decimal (n div 10)"
    have "digits_value acc (?d @ of_nat (48 + n mod 10) # rest) =
        digits_value ((acc * 10 ^ length ?d + n div 10) * 10 + n mod 10) rest"
      using "1.IH" [OF False, of acc "of_nat (48 + n mod 10) # rest"] digit [of "n mod 10"] by (simp del: of_nat_add)
    also have "(acc * 10 ^ length ?d + n div 10) * 10 + n mod 10 = acc * 10 ^ Suc (length ?d) + n" by simp
    finally show ?thesis using False unfolding decimal.simps [of n] by (simp del: of_nat_add power_Suc)
  qed
qed

lemma decimal_digits: "\<forall>c \<in> set (decimal n). 48 \<le> c \<and> c \<le> 57"
proof (induction n rule: decimal.induct)
  case (1 n)
  have "48 \<le> (of_nat (48 + k) :: byte) \<and> (of_nat (48 + k) :: byte) \<le> 57" if "k < 10" for k
  proof -
    have "k \<in> {0, 1, 2, 3, 4, 5, 6, 7, 8, 9}" using that by (simp only: insert_iff empty_iff) presburger
    then show ?thesis by (elim insertE emptyE) simp_all
  qed
  then show ?case using 1 by (subst decimal.simps) (auto simp del: of_nat_add)
qed

lemma decimal_not_Nil [simp]: "decimal n \<noteq> []"
  by (subst decimal.simps) simp

lemma digit_not_space: "48 \<le> c \<Longrightarrow> c \<le> 57 \<Longrightarrow> \<not> is_space c \<and> c \<noteq> 43 \<and> c \<noteq> 10 \<and> c \<noteq> 45"
  by (auto simp: is_space_def word_le_nat_alt)

lemma parse_decimal: "n < bound \<Longrightarrow> parse_uint bound (decimal n) = Some n"
proof -
  assume n: "n < bound"
  obtain c cs where c: "decimal n = c # cs" by (cases "decimal n") simp_all
  then have "c \<noteq> 43" using decimal_digits [of n] digit_not_space by auto
  then show ?thesis using n decimal_value [of 0 n "[]"] c by (simp add: parse_uint_def Let_def)
qed

lemma parse_decimals:
  "parse_uint 18446744073709551616 (decimal (unat (n :: u64))) = Some (unat n)"
  "parse_uint 65536 (decimal (unat (k :: u16))) = Some (unat k)"
  using unsigned_less [of n, where ?'a = nat] unsigned_less [of k, where ?'a = nat] by (auto intro!: parse_decimal)

section \<open>Words and lines\<close>

lemma split_at_word: "\<forall>c \<in> set w. \<not> P c \<Longrightarrow> split_at P w = [w]"
  by (induction w) simp_all

lemma split_at_snoc: "\<forall>c \<in> set w. \<not> P c \<Longrightarrow> P s \<Longrightarrow> split_at P (w @ s # rest) = w # split_at P rest"
  by (induction w) simp_all

lemma two_words:
  assumes "\<forall>c \<in> set k. \<not> is_space c" "\<forall>c \<in> set v. \<not> is_space c" "k \<noteq> []" "v \<noteq> []"
  shows "split_whitespace (k @ 32 # v) = [k, v]"
  using assms by (simp add: split_whitespace_def split_at_snoc split_at_word is_space_def [of 32])

lemma words [simp]:
  "ascii ''okm-series'' = [111, 107, 109, 45, 115, 101, 114, 105, 101, 115]" "ascii ''epoch'' = [101, 112, 111, 99, 104]"
  "ascii ''precision'' = [112, 114, 101, 99, 105, 115, 105, 111, 110]" "ascii ''bucket'' = [98, 117, 99, 107, 101, 116]"
  "ascii ''partition'' = [112, 97, 114, 116, 105, 116, 105, 111, 110]"
  "ascii ''s'' = [115]" "ascii ''ms'' = [109, 115]" "ascii ''us'' = [117, 115]" "ascii ''ns'' = [110, 115]"
  by (simp_all add: ascii_def)

text \<open>One line of the identity file.\<close>

definition entry_line :: "string \<Rightarrow> bytes \<Rightarrow> bytes" where
  "entry_line key value = ascii key @ 32 # value"

definition meta_word :: "bytes \<Rightarrow> bool" where
  "meta_word w \<longleftrightarrow> w \<noteq> [] \<and> (\<forall>c \<in> set w. \<not> is_space c)"

lemma word_no_newline: "meta_word w \<Longrightarrow> \<forall>c \<in> set w. \<not> c = 10"
  by (auto simp: meta_word_def is_space_def)

lemma decimal_word: "meta_word (decimal n)"
  using decimal_digits [of n] digit_not_space by (auto simp: meta_word_def)

lemma label_word: "meta_word (ascii (precision_label p))"
  by (cases p) (simp_all add: meta_word_def is_space_def)

lemma label_back: "precision_of_label (ascii (precision_label p)) = Some p"
  by (cases p) (simp_all add: precision_of_label_def)

lemma split_entry:
  assumes "meta_word value" "key \<in> {''okm-series'', ''epoch'', ''precision'', ''bucket'', ''partition''}"
  shows "split_at (\<lambda>c. c = 10) (entry_line key value @ 10 # rest) = entry_line key value # split_at (\<lambda>c. c = 10) rest"
proof (rule split_at_snoc)
  show "\<forall>c \<in> set (entry_line key value). c \<noteq> 10"
    using assms word_no_newline [OF assms(1)] by (auto simp: entry_line_def)
qed simp

lemma entry_words:
  assumes "meta_word value" "key \<in> {''okm-series'', ''epoch'', ''precision'', ''bucket'', ''partition''}"
  shows "split_whitespace (entry_line key value) = [ascii key, value]"
  using assms unfolding entry_line_def
  by (intro two_words) (auto simp: meta_word_def is_space_def)

lemma write_meta_lines:
  "write_meta m = entry_line ''okm-series'' (decimal (unat FORMAT_VERSION)) @ 10 # entry_line ''epoch'' (decimal (unat (lm_epoch_unix_ms m))) @ 10 #
     entry_line ''precision'' (ascii (precision_label (lm_precision m))) @ 10 # entry_line ''bucket'' (decimal (unat (lm_bucket_seconds m))) @ 10 #
     entry_line ''partition'' (case lm_partition_tag m of Some tag \<Rightarrow> decimal (unat tag) | None \<Rightarrow> [45]) @ 10 # []"
  unfolding write_meta_def entry_line_def by (simp add: ascii_def)

lemma tag_word: "meta_word (case tag of Some t \<Rightarrow> decimal (unat (t :: u16)) | None \<Rightarrow> [45])"
  by (cases tag) (simp_all add: decimal_word, simp add: meta_word_def is_space_def)

lemma meta_split:
  "split_at (\<lambda>c. c = 10) (write_meta m) = [entry_line ''okm-series'' (decimal (unat FORMAT_VERSION)), entry_line ''epoch'' (decimal (unat (lm_epoch_unix_ms m))),
     entry_line ''precision'' (ascii (precision_label (lm_precision m))), entry_line ''bucket'' (decimal (unat (lm_bucket_seconds m))),
     entry_line ''partition'' (case lm_partition_tag m of Some tag \<Rightarrow> decimal (unat tag) | None \<Rightarrow> [45]), []]"
  unfolding write_meta_lines by (simp only: split_entry decimal_word label_word tag_word insert_iff simp_thms split_at.simps(1))

lemma line_header: "meta_word v \<Longrightarrow> meta_line (entry_line ''okm-series'' v) (seen, m) = Inr (True, m)"
  by (simp add: meta_line_def entry_words Let_def)

lemma line_epoch: "meta_line (entry_line ''epoch'' (decimal (unat (n :: u64)))) (seen, m) = Inr (seen, m \<lparr> lm_epoch_unix_ms := n \<rparr>)"
  by (simp add: meta_line_def entry_words decimal_word Let_def meta_number_def parse_decimals)

lemma line_precision: "meta_line (entry_line ''precision'' (ascii (precision_label p))) (seen, m) = Inr (seen, m \<lparr> lm_precision := p \<rparr>)"
  by (simp add: meta_line_def entry_words label_word label_back Let_def)

lemma line_bucket: "meta_line (entry_line ''bucket'' (decimal (unat (n :: u64)))) (seen, m) = Inr (seen, m \<lparr> lm_bucket_seconds := n \<rparr>)"
  by (simp add: meta_line_def entry_words decimal_word Let_def meta_number_def parse_decimals)

lemma line_partition: "meta_line (entry_line ''partition'' (case tag of Some t \<Rightarrow> decimal (unat t) | None \<Rightarrow> [45])) (seen, m) =
    Inr (seen, case tag of Some t \<Rightarrow> m \<lparr> lm_partition_tag := Some t \<rparr> | None \<Rightarrow> m)"
proof (cases tag)
  case None
  then show ?thesis using tag_word [of None] by (simp add: meta_line_def entry_words Let_def)
next
  case (Some t)
  have "decimal (unat t) \<noteq> [45]" using decimal_digits [of "unat t"] digit_not_space by fastforce
  then show ?thesis using Some by (simp add: meta_line_def entry_words decimal_word Let_def meta_number_def parse_decimals)
qed

lemma line_empty: "meta_line [] st = Inr st"
  by (cases st) (simp add: meta_line_def split_whitespace_def)

lemma meta_parsed:
  "meta_lines (split_at (\<lambda>c. c = 10) (write_meta m)) (False, \<lparr> lm_epoch_unix_ms = 0, lm_precision = Ns, lm_bucket_seconds = 3600, lm_partition_tag = None \<rparr>) =
    Inr (True, m)"
  unfolding meta_split meta_lines.simps line_header [OF decimal_word] rbind_simps line_epoch line_precision line_bucket line_partition line_empty
  by (cases m; cases "lm_partition_tag m") simp_all

lemma meta_back: "read_meta (write_meta m) = (if lm_bucket_seconds m = 0 then Inl (BadMeta ''bucket of zero'') else Inr m)"
  unfolding read_meta_def meta_parsed by simp

section \<open>Properties\<close>

text \<open>
  The directory of a partition determines its value: the name a log gives to any valid string
  parses back to it, so no two values share a directory.
\<close>

theorem partition_dir_roundtrip:
  assumes "utf8_valid value"
  shows "partition_of_dir (partition_dir_name value) = Some value"
  using assms by (simp add: partition_of_dir_def partition_dir_name_def PARTITION_PREFIX_def unhex_hex from_utf8_def)

theorem partition_dir_roundtrip_witness: "partition_of_dir (partition_dir_name [101, 117]) = Some [101, 117]"
  by (rule partition_dir_roundtrip) simp

text \<open>
  The identity file reads back, except that a bucket of zero seconds, which no check refuses when
  the log is created, is refused by every later open.
\<close>

theorem log_meta_roundtrip:
  "read_meta (write_meta m) = (if lm_bucket_seconds m = 0 then Inl (BadMeta ''bucket of zero'') else Inr m)"
  by (rule meta_back)

text \<open>A log created with a bucket of zero cannot be appended to nor reopened.\<close>

theorem zero_bucket_created:
  assumes "lc_bucket_seconds config = 0"
  shows "\<exists>meta file. read_or_create_meta config now_ms None = (Inr meta, Some file) \<and> bucket_of meta ts = None \<and>
    fst (read_or_create_meta config now_ms' (Some file)) = Inl (BadMeta ''bucket of zero'')"
  using assms by (simp add: read_or_create_meta_def bucket_of_def meta_back Let_def)

end
