(* ===== verification/Okm_Series_Stream.thy ===== *)
theory Okm_Series_Stream
  imports Okm_Series_Names
begin

text \<open>
  The log as its callers see it: the records of a stream across its parts, the clock, retention,
  and where following a log by offset goes wrong.
\<close>

section \<open>Numbered records\<close>

lemma numbered_append: "numbered off (xs @ ys) = numbered off xs @ numbered (off + of_nat (length xs)) ys"
  by (induction off xs rule: numbered.induct) (simp_all add: add.assoc)

lemma numbered_bounds:
  "unat off + length xs < 2 ^ 64 \<Longrightarrow> (ts, k, body) \<in> set (numbered off xs) \<Longrightarrow> off \<le> k \<and> unat k < unat off + length xs"
proof (induction off xs rule: numbered.induct)
  case (2 off ts' body' xs)
  have n: "unat (off + 1) = Suc (unat off)" using "2.prems"(1) by (simp add: unat_word_ariths)
  show ?case
  proof (cases "(ts, k, body) \<in> set (numbered (off + 1) xs)")
    case True
    then have "off + 1 \<le> k" "unat k < unat (off + 1) + length xs" using "2.IH" "2.prems"(1) n by auto
    then show ?thesis using n by (simp add: word_le_nat_alt)
  next
    case False
    then show ?thesis using "2.prems" by simp
  qed
qed simp

lemma from_offset_append: "length found \<le> m \<Longrightarrow>
    (found @ from_offset lo (m - length found) xs) @ from_offset lo (m - length (found @ from_offset lo (m - length found) xs)) ys =
    found @ from_offset lo (m - length found) (xs @ ys)"
  unfolding from_offset_def by (auto simp: min_def)

lemma from_offset_none: "from_offset lo 0 xs = []"
  by (simp add: from_offset_def)

lemma from_offset_below: "unat off + length xs < 2 ^ 64 \<Longrightarrow> off + of_nat (length xs) \<le> lo \<Longrightarrow> filter (\<lambda>(ts, k, body). lo \<le> k) (numbered off xs) = []"
proof -
  assume n: "unat off + length xs < 2 ^ 64" and le: "off + of_nat (length xs) \<le> lo"
  have "unat (off + of_nat (length xs)) = unat off + length xs" using n by (simp add: unat_word_ariths unat_of_nat)
  then have "\<not> lo \<le> k" if "(ts, k, body) \<in> set (numbered off xs)" for ts k body
    using numbered_bounds [OF n that] le by (simp add: word_le_nat_alt)
  then show ?thesis by (auto simp: filter_empty_conv)
qed

lemma from_offset_start: "unat off + length xs < 2 ^ 64 \<Longrightarrow> from_offset (max lo off) m (numbered off xs) = from_offset lo m (numbered off xs)"
proof -
  assume n: "unat off + length xs < 2 ^ 64"
  have "filter (\<lambda>(ts, k, body). max lo off \<le> k) (numbered off xs) = filter (\<lambda>(ts, k, body). lo \<le> k) (numbered off xs)"
    using numbered_bounds [OF n] by (intro filter_cong) auto
  then show ?thesis by (simp add: from_offset_def)
qed

section \<open>Parts in a tree\<close>

text \<open>The files of a part whose readers answer the records \<open>ys\<close>, numbered from \<open>off\<close>.\<close>

definition good_part :: "zstd \<Rightarrow> bool \<Rightarrow> part_files \<Rightarrow> u64 \<Rightarrow> (u64 \<times> body) list \<Rightarrow> bool" where
  "good_part Z sealed f off ys \<longleftrightarrow>
     (\<exists>h. take PART_HEADER_LEN (pf_part f) = PartHeader_encode h \<and> ph_first_offset h = off) \<and>
     (\<forall>c. \<exists>r. PartReader_open Z c (pf_part f) (pf_index f) (pf_dict f) sealed = Inr r \<and> answers Z r off ys \<and>
        offset_span r = (off, off + of_nat (length ys)))"

lemma good_first: "map_of tree path = Some f \<Longrightarrow> good_part Z sealed f off ys \<Longrightarrow> first_offset_of tree path = Inr off"
proof -
  assume f: "map_of tree path = Some f" "good_part Z sealed f off ys"
  then obtain h where h: "take 48 (pf_part f) = PartHeader_encode h" "ph_first_offset h = off" by (auto simp: good_part_def)
  then have "length (take 48 (pf_part f)) = 48" by simp
  then have "48 \<le> length (pf_part f)" by simp
  then show ?thesis using f(1) h part_header_back [of h "[]"] by (simp add: first_offset_of_def read_full_def)
qed

text \<open>Cached readers are what a fresh open would answer.\<close>

definition valid_cache :: "zstd \<Rightarrow> tree \<Rightarrow> read_side \<Rightarrow> bool" where
  "valid_cache Z tree side \<longleftrightarrow> (\<forall>path m r f. map_of (rs_readers side) path = Some (m, r) \<longrightarrow> map_of tree path = Some f \<longrightarrow>
     length (pf_part f) = m \<longrightarrow> open_reader Z tree (lc_dict (rs_config side)) path = Inr r)"

lemma valid_empty: "rs_readers side = [] \<Longrightarrow> valid_cache Z tree side"
  by (simp add: valid_cache_def)

lemma reader_for_open:
  assumes "valid_cache Z tree side" "open_reader Z tree (lc_dict (rs_config side)) path = Inr r"
  shows "\<exists>side'. reader_for Z tree path side = (Inr r, side') \<and> valid_cache Z tree side' \<and> rs_config side' = rs_config side"
proof -
  obtain f where f: "map_of tree path = Some f" using assms(2) by (auto simp: open_reader_def split: option.splits)
  let ?cache = "if READER_CACHE_LIMIT \<le> length (rs_readers side) then [] else rs_readers side"
  let ?side = "side \<lparr> rs_readers := AList.update path (length (pf_part f), r) ?cache \<rparr>"
  have "valid_cache Z tree ?side"
    using assms by (auto simp: valid_cache_def update_conv' split: if_splits)
  moreover have "reader_for Z tree path side = (Inr r, if (\<exists>k. map_of (rs_readers side) path = Some (length (pf_part f), k)) then side else ?side)"
  proof (cases "map_of (rs_readers side) path")
    case (Some c)
    obtain n k where c: "c = (n, k)" by (cases c)
    have "k = r" if "n = length (pf_part f)"
      using assms f Some that unfolding c valid_cache_def by fastforce
    then show ?thesis using f assms(2) Some c by (auto simp: reader_for_def Let_def)
  qed (use f assms(2) in \<open>simp add: reader_for_def Let_def\<close>)
  ultimately show ?thesis using assms(1) by (cases "\<exists>k. map_of (rs_readers side) path = Some (length (pf_part f), k)") auto
qed

definition part_at :: "zstd \<Rightarrow> tree \<Rightarrow> part_path \<Rightarrow> u64 \<Rightarrow> (u64 \<times> body) list \<Rightarrow> bool" where
  "part_at Z tree path off ys \<longleftrightarrow> (\<exists>f. map_of tree path = Some f \<and> good_part Z (snd (snd (snd path))) f off ys)"

lemma part_reader:
  assumes "part_at Z tree path off ys"
  shows "\<exists>r. open_reader Z tree c path = Inr r \<and> answers Z r off ys \<and> offset_span r = (off, off + of_nat (length ys))"
  using assms by (auto simp: part_at_def open_reader_def good_part_def)

text \<open>Parts one behind the other, from offset \<open>off\<close> on.\<close>

fun chain_at :: "zstd \<Rightarrow> tree \<Rightarrow> u64 \<Rightarrow> part_path list \<Rightarrow> (u64 \<times> body) list list \<Rightarrow> bool" where
  "chain_at Z tree off (path # paths) (ys # yss) \<longleftrightarrow> part_at Z tree path off ys \<and> chain_at Z tree (off + of_nat (length ys)) paths yss"
| "chain_at Z tree off [] [] \<longleftrightarrow> True"
| "chain_at Z tree off _ _ \<longleftrightarrow> False"

lemma streams_loop_chain:
  "chain_at Z tree off paths yss \<Longrightarrow> unat off + length (concat yss) < 2 ^ 64 \<Longrightarrow> valid_cache Z tree side \<Longrightarrow>
    \<forall>path \<in> set paths. covers which (path_partition path) \<Longrightarrow>
    \<exists>side'. streams_loop Z tree which lo m paths found side =
      (Inr (found @ from_offset lo (m - length found) (numbered off (concat yss))), side')"
proof (induction Z tree off paths yss arbitrary: found side rule: chain_at.induct)
  case (1 Z tree off path paths ys yss)
  show ?case
  proof (cases "m \<le> length found")
    case True
    then show ?thesis by (simp add: from_offset_none)
  next
    case False
    obtain r where r: "open_reader Z tree (lc_dict (rs_config side)) path = Inr r" "answers Z r off ys"
      "offset_span r = (off, off + of_nat (length ys))"
      using part_reader "1.prems"(1) by (metis chain_at.simps(1))
    obtain side' where side': "reader_for Z tree path side = (Inr r, side')" "valid_cache Z tree side'"
      using reader_for_open [OF "1.prems"(3) r(1)] by blast
    have n: "unat off + length ys < 2 ^ 64" using "1.prems"(2) by simp
    have no: "unat (off + of_nat (length ys)) = unat off + length ys" using n by (simp add: unat_word_ariths unat_of_nat)
    let ?F = "\<lambda>found xs. from_offset lo (m - length found) xs"
    let ?X = "numbered off ys" and ?Y = "numbered (off + of_nat (length ys)) (concat yss)"
    have IH: "\<exists>side''. streams_loop Z tree which lo m paths found' side' = (Inr (found' @ ?F found' ?Y), side'')" for found'
      by (rule "1.IH") (use "1.prems" side'(2) no in auto)
    have run: "streams_loop Z tree which lo m (path # paths) found side =
        (if off + of_nat (length ys) \<le> lo then streams_loop Z tree which lo m paths found side'
         else streams_loop Z tree which lo m paths (found @ ?F found ?X) side')"
      using False "1.prems"(4) side'(1) r from_offset_start [OF n] by (auto simp: answers_def)
    show ?thesis
    proof (cases "off + of_nat (length ys) \<le> lo")
      case True
      then have "?F found (?X @ ?Y) = ?F found ?Y"
        using from_offset_below [OF n True] by (simp add: from_offset_def)
      then show ?thesis using IH [of found] run True by (simp add: numbered_append)
    next
      case above: False
      have "found @ ?F found (?X @ ?Y) = (found @ ?F found ?X) @ ?F (found @ ?F found ?X) ?Y"
        using False by (intro from_offset_append [symmetric]) simp
      then show ?thesis using IH [of "found @ ?F found ?X"] run above by (simp add: numbered_append)
    qed
  qed
qed (simp_all add: from_offset_def)

section \<open>One stream in one bucket\<close>

definition sealed_path :: "u64 \<Rightarrow> nat \<Rightarrow> part_path" where
  "sealed_path b i = (b, None, of_nat i, True)"

definition open_path :: "u64 \<Rightarrow> nat \<Rightarrow> part_path" where
  "open_path b i = (b, None, of_nat i, False)"

text \<open>The parts of a bucket without partitions: \<open>k\<close> sealed ones, and the open one if \<open>op\<close>.\<close>

definition bucket_paths :: "u64 \<Rightarrow> nat \<Rightarrow> bool \<Rightarrow> part_path list" where
  "bucket_paths b k op = map (sealed_path b) [0..<k] @ (if op then [open_path b k] else [])"

definition only_bucket :: "u64 \<Rightarrow> nat \<Rightarrow> bool \<Rightarrow> tree \<Rightarrow> bool" where
  "only_bucket b k op tree \<longleftrightarrow> dom (map_of tree) = set (bucket_paths b k op)"

lemma dom_tree: "dom (map_of tree) = fst ` set tree"
  by (rule dom_map_of_conv_image_fst)

lemma of_nat_sorted: "m \<le> 2 ^ 32 \<Longrightarrow> sorted (map (of_nat :: nat \<Rightarrow> u32) [0..<m]) \<and> distinct (map (of_nat :: nat \<Rightarrow> u32) [0..<m])"
proof -
  assume m: "m \<le> 2 ^ 32"
  have u: "unat (of_nat i :: u32) = i" if "i < m" for i using that m by (simp add: unat_of_nat)
  have "inj_on (of_nat :: nat \<Rightarrow> u32) {0..<m}" by (rule inj_onI) (metis atLeastLessThan_iff u)
  moreover have "sorted (map (of_nat :: nat \<Rightarrow> u32) [0..<m])"
    using u by (auto simp: sorted_iff_nth_mono word_le_nat_alt)
  ultimately show ?thesis by (simp add: distinct_map)
qed

lemma bucket_numbers:
  assumes "only_bucket b k op tree" "k < 2 ^ 32 - 1"
  shows "part_numbers tree b None = map of_nat [0..<k + (if op then 1 else 0)]"
proof -
  let ?ns = "map (\<lambda>((_, _, n, _), _). n) (filter (\<lambda>((b', p', _, _), _). b' = b \<and> p' = None) tree)"
  let ?m = "k + (if op then 1 else 0)"
  have "set ?ns = {n. (b, None, n, True) \<in> fst ` set tree \<or> (b, None, n, False) \<in> fst ` set tree}"
    by (force simp: ex_bool_eq)
  also have "\<dots> = {n. (b, None, n, True) \<in> set (bucket_paths b k op) \<or> (b, None, n, False) \<in> set (bucket_paths b k op)}"
    using assms(1) unfolding only_bucket_def dom_tree by simp
  also have "\<dots> = of_nat ` {0..<?m}"
    by (auto simp: bucket_paths_def sealed_path_def open_path_def less_Suc_eq)
  finally have "set (sort (remdups ?ns)) = set (map of_nat [0..<?m])" by simp
  moreover have "sorted (map (of_nat :: nat \<Rightarrow> u32) [0..<?m])" "distinct (map (of_nat :: nat \<Rightarrow> u32) [0..<?m])"
    using of_nat_sorted [of ?m] assms(2) by auto
  ultimately show ?thesis unfolding part_numbers_def
    by (intro sorted_distinct_set_unique) simp_all
qed

lemma bucket_exists:
  assumes "only_bucket b k op tree" "k < 2 ^ 32 - 1" "i < k + 1"
  shows "path_exists tree (sealed_path b i) \<longleftrightarrow> i < k" "path_exists tree (open_path b i) \<longleftrightarrow> op \<and> i = k"
proof -
  have u: "unat (of_nat j :: u32) = j" if "j < k + 1" for j using that assms(2) by (simp add: unat_of_nat)
  have inj: "(of_nat i :: u32) = of_nat j \<longleftrightarrow> i = j" if "j < k + 1" for j using u [OF that] u [OF assms(3)] by metis
  have ex: "path_exists tree path \<longleftrightarrow> path \<in> set (bucket_paths b k op)" for path
    using assms(1) unfolding path_exists_def only_bucket_def by blast
  show "path_exists tree (sealed_path b i) \<longleftrightarrow> i < k" "path_exists tree (open_path b i) \<longleftrightarrow> op \<and> i = k"
    unfolding ex using inj [of k] inj assms(3) by (auto simp: bucket_paths_def sealed_path_def open_path_def less_Suc_eq image_iff)
qed

lemma map_paths:
  "map (\<lambda>n. (b, None, n, True)) (map of_nat xs) = map (sealed_path b) xs"
  "map (\<lambda>n. (b, None, n, False)) (map of_nat xs) = map (open_path b) xs"
  by (simp_all add: sealed_path_def open_path_def)

lemma distinct_one: "distinct xs \<Longrightarrow> set xs = {x} \<Longrightarrow> xs = [x]"
proof (cases xs)
  case (Cons y ys)
  assume "distinct xs" "set xs = {x}"
  then have "y = x" "set ys \<subseteq> {x}" "x \<notin> set ys" using Cons by auto
  then have "set ys = {}" using subset_singletonD [of "set ys" x] by auto
  then show ?thesis using Cons \<open>y = x\<close> by simp
qed simp

lemma find_snoc: "find P (xs @ [x]) = (case find P xs of Some y \<Rightarrow> Some y | None \<Rightarrow> if P x then Some x else None)"
  by (induction xs) auto

lemma bucket_stream:
  assumes "only_bucket b k op tree" "k < 2 ^ 32 - 1"
  shows "stream_parts tree b None = bucket_paths b k op"
proof -
  let ?m = "k + (if op then 1 else 0)"
  have ns: "part_numbers tree b None = map of_nat [0..<?m]" by (rule bucket_numbers [OF assms])
  have "filter (path_exists tree) (map (sealed_path b) [0..<?m]) = map (sealed_path b) [0..<k]"
    using bucket_exists(1) [OF assms] by (auto simp: filter_map o_def intro!: filter_cong)
  then have "sealed_parts tree b None = map (sealed_path b) [0..<k]"
    unfolding sealed_parts_def ns map_paths .
  moreover have "open_part tree b None = (if op then Some (open_path b k) else None)"
  proof -
    have "find (path_exists tree) (map (open_path b) [0..<k]) = None"
      using bucket_exists(2) [OF assms] by (auto simp: find_None_iff)
    then have "find (path_exists tree) (map (open_path b) [0..<?m]) = (if op then Some (open_path b k) else None)"
      using bucket_exists(2) [OF assms, of k] by (auto simp: find_snoc)
    then show ?thesis unfolding open_part_def ns map_paths .
  qed
  ultimately show ?thesis by (simp add: stream_parts_def bucket_paths_def)
qed

lemma bucket_all_parts:
  assumes "only_bucket b k op tree" "k < 2 ^ 32 - 1"
  shows "all_parts tree = bucket_paths b k op"
proof -
  have paths: "fst ` set tree = set (bucket_paths b k op)" using assms(1) unfolding only_bucket_def dom_tree .
  have all: "fst path = b \<and> fst (snd path) = None" if "path \<in> fst ` set tree" for path
    using that unfolding paths by (auto simp: bucket_paths_def sealed_path_def open_path_def)
  have none: "List.map_filter (\<lambda>((b', p, _, _), _). if b' = c then p else None) tree = []" for c
  proof -
    have "\<forall>x \<in> set tree. (\<lambda>((b', p, _, _), _). if b' = c then p else None) x = None"
      using all by fastforce
    then show ?thesis by (simp add: List.map_filter_def filter_empty_conv)
  qed
  have "remdups (map (\<lambda>((b, _, _, _), _). b) tree) = (if tree = [] then [] else [b])"
  proof (cases "tree = []")
    case False
    have "set (map (\<lambda>((b, _, _, _), _). b) tree) = {b}" using all False by (force simp: neq_Nil_conv)
    then have "set (remdups (map (\<lambda>((b, _, _, _), _). b) tree)) = {b}" "distinct (remdups (map (\<lambda>((b, _, _, _), _). b) tree))" by simp_all
    then show ?thesis using False by (simp only: distinct_one if_False)
  qed simp
  moreover have "bucket_paths b k op = []" if "tree = []" using paths that by simp
  ultimately show ?thesis using bucket_stream [OF assms] by (auto simp: all_parts_def none)
qed

section \<open>Chains of parts\<close>

lemma chain_append: "chain_at Z tree off ps yss \<Longrightarrow> chain_at Z tree (off + of_nat (length (concat yss))) qs zss \<Longrightarrow>
    chain_at Z tree off (ps @ qs) (yss @ zss)"
  by (induction Z tree off ps yss rule: chain_at.induct) (simp_all add: add.assoc)

lemma chain_cong: "\<forall>path \<in> set paths. map_of tree' path = map_of tree path \<Longrightarrow>
    chain_at Z tree off paths yss \<Longrightarrow> chain_at Z tree' off paths yss"
  by (induction Z tree off paths yss rule: chain_at.induct) (auto simp: part_at_def)

lemma chain_length: "chain_at Z tree off paths yss \<Longrightarrow> length paths = length yss"
  by (induction Z tree off paths yss rule: chain_at.induct) auto

lemma chain_keyed:
  "chain_at Z tree off paths yss \<Longrightarrow> unat off + length (concat yss) < 2 ^ 64 \<Longrightarrow>
    map snd (offset_keyed tree paths) = paths \<and> sorted (map fst (offset_keyed tree paths)) \<and>
    (\<forall>k \<in> fst ` set (offset_keyed tree paths). off \<le> k)"
proof (induction Z tree off paths yss rule: chain_at.induct)
  case (1 Z tree off path paths ys yss)
  have no: "unat (off + of_nat (length ys)) = unat off + length ys" using "1.prems"(2) by (simp add: unat_word_ariths unat_of_nat)
  then have le: "off \<le> off + of_nat (length ys)" by (simp add: word_le_nat_alt)
  have "first_offset_of tree path = Inr off" using "1.prems"(1) by (auto simp: part_at_def intro: good_first)
  moreover have "map snd (offset_keyed tree paths) = paths \<and> sorted (map fst (offset_keyed tree paths)) \<and>
      (\<forall>k \<in> fst ` set (offset_keyed tree paths). off + of_nat (length ys) \<le> k)"
    by (rule "1.IH") (use "1.prems" no in auto)
  ultimately show ?case using le by (auto intro: order_trans)
qed simp_all

lemma chain_ordered:
  assumes "chain_at Z tree off (all_parts tree) yss" "unat off + length (concat yss) < 2 ^ 64"
  shows "parts_by_offset tree = all_parts tree"
  using chain_keyed [OF assms] unfolding parts_by_offset_def by (metis sort_key_id_if_sorted)

lemma chain_end:
  "chain_at Z tree off paths yss \<Longrightarrow> unat off + length (concat yss) < 2 ^ 64 \<Longrightarrow>
    stream_end Z tree paths off = off + of_nat (length (concat yss))"
proof (induction Z tree off paths yss rule: chain_at.induct)
  case (1 Z tree off path paths ys yss)
  have no: "unat (off + of_nat (length ys)) = unat off + length ys" using "1.prems"(2) by (simp add: unat_word_ariths unat_of_nat)
  then have le: "off \<le> off + of_nat (length ys)" by (simp add: word_le_nat_alt)
  obtain r where "open_reader Z tree None path = Inr r" "offset_span r = (off, off + of_nat (length ys))"
    using part_reader "1.prems"(1) by (metis chain_at.simps(1))
  moreover have "stream_end Z tree paths (off + of_nat (length ys)) = off + of_nat (length ys) + of_nat (length (concat yss))"
    by (rule "1.IH") (use "1.prems" no in auto)
  ultimately show ?case using le by (simp add: max_absorb2 add.assoc)
qed simp_all

section \<open>The state of a stream\<close>

definition stream_closed :: "zstd \<Rightarrow> u64 \<Rightarrow> (u64 \<times> body) list list \<Rightarrow> log \<Rightarrow> bool" where
  "stream_closed Z b yss l \<longleftrightarrow> [] \<notin> set yss \<and> only_bucket b (length yss) False (lg_tree l) \<and>
     chain_at Z (lg_tree l) 0 (map (sealed_path b) [0..<length yss]) yss \<and> lg_active l = []"

definition stream_open :: "zstd \<Rightarrow> u64 \<Rightarrow> (u64 \<times> body) list list \<Rightarrow> (u64 \<times> body) list \<Rightarrow> part_header \<Rightarrow> part_writer \<Rightarrow> log \<Rightarrow> bool" where
  "stream_open Z b yss zs h w l \<longleftrightarrow> [] \<notin> set yss \<and> only_bucket b (length yss) True (lg_tree l) \<and>
     chain_at Z (lg_tree l) 0 (map (sealed_path b) [0..<length yss]) yss \<and>
     lg_active l = [\<lparr> ac_path = open_path b (length yss), ac_writer = w \<rparr>] \<and>
     ph_first_offset h = of_nat (length (concat yss)) \<and> (\<exists>bs imgs pend rows. part_state Z h zs bs imgs pend rows w) \<and>
     map_of (lg_tree l) (open_path b (length yss)) = Some (files_of w)"

lemma parts_few: "[] \<notin> set yss \<Longrightarrow> length yss \<le> length (concat yss)"
proof (induction yss)
  case (Cons ys yss)
  then have "1 \<le> length ys" by (cases ys) auto
  then show ?case using Cons by simp
qed simp

lemma stream_next:
  assumes "only_bucket b (length yss) False tree" "length yss < 2 ^ 32 - 1" "length (concat yss) < 2 ^ 64"
    and "chain_at Z tree 0 (map (sealed_path b) [0..<length yss]) yss"
  shows "stream_next_offset Z tree b None = of_nat (length (concat yss))"
  using chain_end [OF assms(4)] assms(3) bucket_stream [OF assms(1,2)]
  by (simp add: stream_next_offset_def bucket_paths_def)

lemma new_number:
  assumes "only_bucket b k False tree" "k < 2 ^ 32 - 2"
  shows "find (\<lambda>n. \<not> path_exists tree (b, None, n, False)) (candidates tree b None) = Some (of_nat k)"
proof -
  have ns: "part_numbers tree b None = map of_nat [0..<k]" using bucket_numbers [OF assms(1)] assms(2) by simp
  have "(case map of_nat [0..<k] of [] \<Rightarrow> 0 | ns \<Rightarrow> last ns + 1) = (of_nat k :: u32)"
  proof (cases k)
    case (Suc j)
    have "(case ms of [] \<Rightarrow> 0 | ns \<Rightarrow> last ns + 1) = last ms + 1" if "ms \<noteq> []" for ms :: "u32 list"
      using that by (cases ms) simp_all
    then show ?thesis using Suc by simp
  qed simp
  then have cs: "candidates tree b None = map of_nat [k ..< min (k + 1024) (2 ^ 32 - 1)]"
    using assms(2) by (simp add: candidates_def ns Let_def unat_of_nat)
  have "[k ..< min (k + 1024) (2 ^ 32 - 1)] = k # [Suc k ..< min (k + 1024) (2 ^ 32 - 1)]"
    using assms(2) by (intro upt_conv_Cons) simp
  then show ?thesis using bucket_exists(2) [OF assms(1), of k] assms(2) by (simp add: cs open_path_def)
qed

lemma new_part_open:
  assumes "stream_closed Z b yss l" "length yss < 2 ^ 32 - 2" "length (concat yss) < 2 ^ 64"
  shows "\<exists>h l'. new_part Z now_ms b None ts l = (Inr (), l') \<and> lg_side l' = lg_side l \<and> lg_last l' = lg_last l \<and>
    stream_open Z b yss [] h (PartWriter_create h (lc_block_bytes (lg_config l)) (lc_codec (lg_config l)) (lc_dict (lg_config l))) l'"
proof -
  let ?k = "length yss"
  define h where "h = \<lparr> ph_precision = lm_precision (lg_meta l), ph_bucket = b, ph_base_ts = ts,
      ph_first_offset = stream_next_offset Z (lg_tree l) b None, ph_created_unix_ms = now_ms \<rparr>"
  define w where "w = PartWriter_create h (lc_block_bytes (lg_config l)) (lc_codec (lg_config l)) (lc_dict (lg_config l))"
  let ?l = "write_part (open_path b ?k) w (l \<lparr> lg_active := lg_active l @ [\<lparr> ac_path = open_path b ?k, ac_writer = w \<rparr>] \<rparr>)"
  have st: "[] \<notin> set yss" "only_bucket b ?k False (lg_tree l)" "chain_at Z (lg_tree l) 0 (map (sealed_path b) [0..<?k]) yss" "lg_active l = []"
    using assms(1) by (simp_all add: stream_closed_def)
  have num: "find (\<lambda>n. \<not> path_exists (lg_tree l) (b, None, n, False)) (candidates (lg_tree l) b None) = Some (of_nat ?k)"
    by (rule new_number [OF st(2) assms(2)])
  have run: "new_part Z now_ms b None ts l = (Inr (), ?l)"
    by (simp add: new_part_def num Let_def h_def w_def open_path_def)
  have "?k < 2 ^ 32 - 1" using assms(2) by simp
  then have first: "ph_first_offset h = of_nat (length (concat yss))"
    using stream_next [OF st(2) _ assms(3) st(3)] by (simp add: h_def)
  have at: "map_of (lg_tree ?l) path = (if path = open_path b ?k then Some (files_of w) else map_of (lg_tree l) path)" for path
    by (simp add: write_part_def update_conv')
  have "only_bucket b ?k True (lg_tree ?l)"
    using st(2) by (auto simp: only_bucket_def bucket_paths_def write_part_def update_conv')
  moreover have "chain_at Z (lg_tree ?l) 0 (map (sealed_path b) [0..<?k]) yss"
    by (rule chain_cong [OF _ st(3)]) (auto simp: write_part_def update_conv' sealed_path_def open_path_def)
  moreover have "\<exists>bs imgs pend rows. part_state Z h [] bs imgs pend rows w" unfolding w_def using create_state by blast
  ultimately have "stream_open Z b yss [] h w ?l"
    using st(1,4) first at [of "open_path b ?k"] by (simp add: stream_open_def write_part_def)
  then show ?thesis using run unfolding w_def by (intro exI [of _ h] exI [of _ ?l]) (simp add: write_part_def w_def)
qed

lemma seal_open:
  assumes "zstd_ok Z" "stream_open Z b yss zs h w l" "zs \<noteq> []" "length (concat yss @ zs) < 2 ^ 32 - 2" "lg_active l' = []" "lg_tree l' = lg_tree l"
    and "seal_active Z xxh \<lparr> ac_path = open_path b (length yss), ac_writer = w \<rparr> l' = (Inr f, l'')"
  shows "stream_closed Z b (yss @ [zs]) l'' \<and> lg_side l'' = lg_side l' \<and> lg_last l'' = lg_last l'"
proof -
  let ?k = "length yss"
  obtain bs imgs pend rows where st: "part_state Z h zs bs imgs pend rows w" "[] \<notin> set yss" "only_bucket b ?k True (lg_tree l)"
    "chain_at Z (lg_tree l) 0 (map (sealed_path b) [0..<?k]) yss" "ph_first_offset h = of_nat (length (concat yss))"
    using assms(2) by (auto simp: stream_open_def)
  obtain w' where w': "part_seal Z xxh w = (Inr f, w')"
    "l'' = l' \<lparr> lg_tree := AList.update (sealed_path b ?k) (files_of w') (AList.delete (open_path b ?k) (lg_tree l')) \<rparr>"
    using assms(7) by (auto simp: seal_active_def open_path_def sealed_path_def split: prod.splits sum.splits)
  have k: "?k < 2 ^ 32 - 2" using parts_few [OF st(2)] assms(4) by simp
  have n: "unat (ph_first_offset h) + length zs < 2 ^ 64" "length zs < 2 ^ 32"
    using assms(4) by (simp_all add: st(5) unat_of_nat)
  have "good_part Z True (files_of w') (of_nat (length (concat yss))) zs"
    unfolding good_part_def
  proof (intro conjI allI)
    show "\<exists>g. take PART_HEADER_LEN (pf_part (files_of w')) = PartHeader_encode g \<and> ph_first_offset g = of_nat (length (concat yss))"
      using seal_reads [OF assms(1) st(1) w'(1) n(2,1)] st(5) by (auto simp: files_of_def)
    show "\<exists>r. PartReader_open Z c (pf_part (files_of w')) (pf_index (files_of w')) (pf_dict (files_of w')) True = Inr r \<and>
        answers Z r (of_nat (length (concat yss))) zs \<and>
        offset_span r = (of_nat (length (concat yss)), of_nat (length (concat yss)) + of_nat (length zs))" for c
      using seal_reads [OF assms(1) st(1) w'(1) n(2,1), of c] st(5) by (auto simp: files_of_def)
  qed
  then have new: "chain_at Z (lg_tree l'') (of_nat (length (concat yss))) [sealed_path b ?k] [zs]"
    by (simp add: part_at_def w'(2) update_conv' sealed_path_def)
  have ne: "sealed_path b i \<noteq> sealed_path b ?k" if "i < ?k" for i
    using that k by (auto simp: sealed_path_def word_unat_eq_iff unat_of_nat)
  have "chain_at Z (lg_tree l'') 0 (map (sealed_path b) [0..<?k]) yss"
    by (rule chain_cong [OF _ st(4)]) (use ne in \<open>auto simp: w'(2) assms(6) update_conv' delete_conv' sealed_path_def open_path_def\<close>)
  then have "chain_at Z (lg_tree l'') 0 (map (sealed_path b) [0..<Suc ?k]) (yss @ [zs])"
    using chain_append [of Z "lg_tree l''" 0 _ yss "[sealed_path b ?k]" "[zs]"] new by simp
  moreover have "only_bucket b (Suc ?k) False (lg_tree l'')"
    using st(3) by (auto simp: only_bucket_def bucket_paths_def w'(2) assms(6) update_conv' delete_conv' sealed_path_def open_path_def)
  ultimately show ?thesis using st(2) assms(3,5) w'(2) by (simp add: stream_closed_def)
qed

section \<open>Appending to a stream\<close>

definition stream_state :: "zstd \<Rightarrow> u64 \<Rightarrow> (u64 \<times> body) list \<Rightarrow> log \<Rightarrow> bool" where
  "stream_state Z b xs l \<longleftrightarrow> (\<exists>yss. xs = concat yss \<and> stream_closed Z b yss l) \<or>
     (\<exists>yss zs h w. zs \<noteq> [] \<and> xs = concat yss @ zs \<and> stream_open Z b yss zs h w l)"

text \<open>The strings of a body find room in the dictionary of every writer and in a new one.\<close>

definition log_fits :: "body \<Rightarrow> log \<Rightarrow> bool" where
  "log_fits body l \<longleftrightarrow> (\<forall>a \<in> set (lg_active l). fits_dict body (ac_writer a)) \<and>
     (case lc_dict (lg_config l) of None \<Rightarrow> True | Some c \<Rightarrow>
        dict_room (sum_list (map (\<lambda>x. strings (snd x)) body)) (sum_list (map (\<lambda>x. string_bytes (snd x)) body)) (Dict_create c))"

lemma stream_state_openI: "zs \<noteq> [] \<Longrightarrow> stream_open Z b yss zs h w l \<Longrightarrow> stream_state Z b (concat yss @ zs) l"
  unfolding stream_state_def by blast

lemma fits_new: "log_fits body l \<Longrightarrow> fits_dict body (PartWriter_create h bb codec (lc_dict (lg_config l)))"
  by (auto simp: log_fits_def fits_dict_def PartWriter_create_def split: option.splits)

lemma append_into:
  assumes "zstd_ok Z" "stream_open Z b yss zs h w l" "body_ok body" "fits_dict body w"
    and "part_append Z hash ts body w = Some (Inr off, w')"
    and "lg_active l' = [\<lparr> ac_path = open_path b (length yss), ac_writer = w' \<rparr>]"
    and "lg_tree l' = AList.update (open_path b (length yss)) (files_of w') (lg_tree l)"
  shows "stream_open Z b yss (zs @ [(ts, body)]) h w' l' \<and> off = of_nat (length (concat yss @ zs))"
proof -
  obtain bs imgs pend rows where st: "part_state Z h zs bs imgs pend rows w" "[] \<notin> set yss" "only_bucket b (length yss) True (lg_tree l)"
    "chain_at Z (lg_tree l) 0 (map (sealed_path b) [0..<length yss]) yss" "ph_first_offset h = of_nat (length (concat yss))"
    using assms(2) by (auto simp: stream_open_def)
  have "off = of_nat (length (concat yss @ zs))" "\<exists>bs imgs pend rows. part_state Z h (zs @ [(ts, body)]) bs imgs pend rows w'"
    using append_state [OF assms(1) st(1) assms(3-5)] st(5) by auto
  moreover have "only_bucket b (length yss) True (lg_tree l')"
    using st(3) by (auto simp: only_bucket_def bucket_paths_def assms(7) update_conv')
  moreover have "chain_at Z (lg_tree l') 0 (map (sealed_path b) [0..<length yss]) yss"
    by (rule chain_cong [OF _ st(4)]) (auto simp: assms(7) update_conv' sealed_path_def open_path_def)
  ultimately show ?thesis using st(2,5) assms(6,7) by (simp add: stream_open_def update_conv')
qed

lemma active_one: "active_index b None [\<lparr> ac_path = open_path b k, ac_writer = w \<rparr>] = Some 0"
  by (simp add: active_index_def ac_bucket_def ac_partition_def path_partition_def open_path_def Let_def)

lemma seal_current:
  "lg_active l = [] \<Longrightarrow> seal_parts_older_than Z xxh c only l = (Inr (), l)"
  "lg_active l = [\<lparr> ac_path = open_path b k, ac_writer = w \<rparr>] \<Longrightarrow> seal_parts_older_than Z xxh b only l = (Inr (), l)"
  by (auto simp: seal_parts_older_than_def ac_bucket_def open_path_def)

text \<open>After \<open>ensure_part\<close> the stream has an open part with room for the body.\<close>

lemma ensure_stream:
  assumes "zstd_ok Z" "stream_state Z b xs l" "log_fits body l" "length xs + 1 < 2 ^ 32 - 2"
    and "ensure_part Z xxh now_ms b None ts l = (Inr (), l')"
  shows "\<exists>yss zs h w. xs = concat yss @ zs \<and> stream_open Z b yss zs h w l' \<and> fits_dict body w \<and>
    lg_meta l' = lg_meta l \<and> lg_config l' = lg_config l \<and> lg_last l' = lg_last l"
proof -
  have new: ?thesis if closed: "stream_closed Z b yss l1" and xs: "xs = concat yss"
      and side: "lg_side l1 = lg_side l" "lg_last l1 = lg_last l" and run: "new_part Z now_ms b None ts l1 = (Inr (), l')" for yss l1
  proof -
    have "length yss \<le> length xs" using parts_few [of yss] closed xs by (simp add: stream_closed_def)
    then have n: "length yss < 2 ^ 32 - 2" "length (concat yss) < 2 ^ 64" using assms(4) xs by auto
    obtain h where h: "lg_side l' = lg_side l1" "lg_last l' = lg_last l1"
      "stream_open Z b yss [] h (PartWriter_create h (lc_block_bytes (lg_config l1)) (lc_codec (lg_config l1)) (lc_dict (lg_config l1))) l'"
      using new_part_open [OF closed n, of now_ms ts] run by auto
    have cfg: "lg_config l1 = lg_config l" using side by (simp add: lg_config_def)
    show ?thesis using h side xs fits_new [OF assms(3)] unfolding cfg
      by (intro exI [of _ yss] exI [of _ "[]"] exI [of _ h]) (auto simp: lg_meta_def lg_config_def)
  qed
  from assms(2) consider yss where "xs = concat yss" "stream_closed Z b yss l"
    | yss zs h w where "zs \<noteq> []" "xs = concat yss @ zs" "stream_open Z b yss zs h w l"
    unfolding stream_state_def by blast
  then show ?thesis
  proof cases
    case 1
    then have act: "lg_active l = []" by (simp add: stream_closed_def)
    then have "new_part Z now_ms b None ts l = (Inr (), l')"
      using assms(5) by (simp add: ensure_part_def seal_current active_index_def)
    then show ?thesis using new [OF 1(2,1)] by simp
  next
    case 2
    then have act: "lg_active l = [\<lparr> ac_path = open_path b (length yss), ac_writer = w \<rparr>]" by (simp add: stream_open_def)
    show ?thesis
    proof (cases "part_full (lg_config l) w")
      case False
      then have "l' = l" using assms(5) act by (simp add: ensure_part_def seal_current active_one)
      then show ?thesis using 2 act assms(3) by (auto simp: log_fits_def)
    next
      case True
      let ?a = "\<lparr> ac_path = open_path b (length yss), ac_writer = w \<rparr>"
      obtain f l1 where l1: "seal_active Z xxh ?a (l \<lparr> lg_active := [] \<rparr>) = (Inr f, l1)" "new_part Z now_ms b None ts l1 = (Inr (), l')"
        using assms(5) act True
        by (auto simp: ensure_part_def seal_current active_one Let_def split: prod.splits sum.splits)
      have "length (concat yss @ zs) < 2 ^ 32 - 2" using assms(4) 2(2) by simp
      from seal_open [OF assms(1) 2(3,1) this _ _ l1(1)] have "stream_closed Z b (yss @ [zs]) l1" "lg_side l1 = lg_side l" "lg_last l1 = lg_last l"
        by simp_all
      then show ?thesis using new [of "yss @ [zs]" l1] l1(2) 2(2) by simp
    qed
  qed
qed

lemma log_append_stream:
  assumes "zstd_ok Z" "stream_state Z b xs l" "lm_partition_tag (lg_meta l) = None" "body_ok body" "log_fits body l"
    and "bucket_of (lg_meta l) (log_now l raw None) = Some b" "length xs + 1 < 2 ^ 32 - 2"
    and "log_append Z E raw now_ms body l = Some (Inr off, l')"
  shows "stream_state Z b (xs @ [(log_now l raw None, body)]) l' \<and> off = of_nat (length xs) \<and>
    lg_meta l' = lg_meta l \<and> lg_config l' = lg_config l \<and> lg_last l' = (lg_last l)(None \<mapsto> log_now l raw None)"
proof -
  let ?ts = "log_now l raw None"
  obtain l1 where l1: "ensure_part Z (e_xxh E) now_ms b None ?ts l = (Inr (), l1)"
    using assms(3,6,8) by (auto simp: log_append_def Let_def split: prod.splits sum.splits)
  obtain yss zs h w where st: "xs = concat yss @ zs" "stream_open Z b yss zs h w l1" "fits_dict body w"
    "lg_meta l1 = lg_meta l" "lg_config l1 = lg_config l" "lg_last l1 = lg_last l"
    using ensure_stream [OF assms(1,2,5,7) l1] by blast
  let ?a = "\<lparr> ac_path = open_path b (length yss), ac_writer = w \<rparr>"
  have act: "lg_active l1 = [?a]" using st(2) by (simp add: stream_open_def)
  obtain w' where w': "part_append Z (e_hash E) ?ts body w = Some (Inr off, w')"
    "l' = (write_part (open_path b (length yss)) w' (l1 \<lparr> lg_active := [?a \<lparr> ac_writer := w' \<rparr>] \<rparr>)) \<lparr> lg_last := (lg_last l1)(None \<mapsto> ?ts) \<rparr>"
  proof (cases "part_append Z (e_hash E) ?ts body w")
    case (Some q)
    obtain r w' where q: "q = (r, w')" by (cases q)
    show ?thesis using assms(3,6,8) l1 act Some that unfolding q
      by (cases r) (simp_all add: log_append_def Let_def active_one write_part_def)
  qed (use assms(3,6,8) l1 act in \<open>simp add: log_append_def Let_def active_one\<close>)
  have "stream_open Z b yss (zs @ [(?ts, body)]) h w' l' \<and> off = of_nat (length (concat yss @ zs))"
    by (rule append_into [OF assms(1) st(2) assms(4) st(3) w'(1)]) (simp_all add: w'(2) write_part_def)
  then show ?thesis using st(1,4-6) w'(2) unfolding stream_state_def
    by (auto simp: lg_meta_def lg_config_def write_part_def intro!: exI [of _ yss] exI [of _ "zs @ [(?ts, body)]"])
qed

lemma log_flush_stream:
  assumes "zstd_ok Z" "stream_state Z b xs l" "log_flush Z l = (Inr (), l')"
  shows "stream_state Z b xs l' \<and> lg_meta l' = lg_meta l \<and> lg_config l' = lg_config l \<and> lg_last l' = lg_last l"
proof -
  from assms(2) consider yss where "xs = concat yss" "stream_closed Z b yss l"
    | yss zs h w where "zs \<noteq> []" "xs = concat yss @ zs" "stream_open Z b yss zs h w l"
    unfolding stream_state_def by blast
  then show ?thesis
  proof cases
    case 1
    then have "l' = l" using assms(3) by (simp add: stream_closed_def log_flush_def)
    then show ?thesis using assms(2) by simp
  next
    case 2
    let ?k = "length yss" and ?a = "\<lparr> ac_path = open_path b (length yss), ac_writer = w \<rparr>"
    obtain bs imgs pend rows where st: "part_state Z h zs bs imgs pend rows w" "[] \<notin> set yss" "only_bucket b ?k True (lg_tree l)"
      "chain_at Z (lg_tree l) 0 (map (sealed_path b) [0..<?k]) yss" "ph_first_offset h = of_nat (length (concat yss))"
      and act: "lg_active l = [?a]"
      using 2(3) by (auto simp: stream_open_def)
    obtain w' where w': "flush_block Z w = (Inr (), w')" "l' = write_part (open_path b ?k) w' (l \<lparr> lg_active := [?a \<lparr> ac_writer := w' \<rparr>] \<rparr>)"
      using assms(3) act by (auto simp: log_flush_def Let_def split: prod.splits sum.splits)
    have "\<exists>bs imgs pend rows. part_state Z h zs bs imgs pend rows w'" using flush_any [OF assms(1) st(1) w'(1)] by blast
    moreover have "only_bucket b ?k True (lg_tree l')"
      using st(3) by (auto simp: only_bucket_def bucket_paths_def w'(2) write_part_def update_conv')
    moreover have "chain_at Z (lg_tree l') 0 (map (sealed_path b) [0..<?k]) yss"
      by (rule chain_cong [OF _ st(4)]) (auto simp: w'(2) write_part_def update_conv' sealed_path_def open_path_def)
    ultimately have "stream_open Z b yss zs h w' l'"
      using st(2,5) by (simp add: stream_open_def w'(2) write_part_def update_conv')
    then show ?thesis using stream_state_openI [OF 2(1)] unfolding 2(2) by (simp add: w'(2) write_part_def lg_meta_def lg_config_def)
  qed
qed

lemma log_seal_stream:
  assumes "zstd_ok Z" "stream_state Z b xs l" "length xs < 2 ^ 32 - 2" "log_seal Z xxh l = (Inr fs, l')"
  shows "stream_state Z b xs l' \<and> lg_meta l' = lg_meta l \<and> lg_config l' = lg_config l \<and> lg_last l' = lg_last l"
proof -
  from assms(2) consider yss where "xs = concat yss" "stream_closed Z b yss l"
    | yss zs h w where "zs \<noteq> []" "xs = concat yss @ zs" "stream_open Z b yss zs h w l"
    unfolding stream_state_def by blast
  then show ?thesis
  proof cases
    case 1
    then have "l' = clear_readers (l \<lparr> lg_active := [] \<rparr>)" using assms(4) by (simp add: stream_closed_def log_seal_def)
    then show ?thesis using 1 by (auto simp: stream_state_def stream_closed_def clear_readers_def lg_meta_def lg_config_def)
  next
    case 2
    let ?a = "\<lparr> ac_path = open_path b (length yss), ac_writer = w \<rparr>" and ?l = "clear_readers (l \<lparr> lg_active := [] \<rparr>)"
    have act: "lg_active l = [?a]" using 2(3) by (simp add: stream_open_def)
    obtain f where f: "seal_active Z xxh ?a ?l = (Inr f, l')"
      using assms(4) act by (auto simp: log_seal_def split: prod.splits sum.splits)
    have "length (concat yss @ zs) < 2 ^ 32 - 2" using assms(3) 2(2) by simp
    from seal_open [OF assms(1) 2(3,1) this _ _ f] have "stream_closed Z b (yss @ [zs]) l'" "lg_side l' = lg_side ?l" "lg_last l' = lg_last ?l"
      by (simp_all add: clear_readers_def)
    then show ?thesis using 2(2) by (auto simp: stream_state_def clear_readers_def lg_meta_def lg_config_def intro!: exI [of _ "yss @ [zs]"])
  qed
qed

section \<open>Runs of a log\<close>

text \<open>Appends whose clock stays in bucket \<open>b\<close>, flushes and seals, of a log without partitions.\<close>

inductive stream_run :: "zstd \<Rightarrow> env \<Rightarrow> u64 \<Rightarrow> log \<Rightarrow> (u64 \<times> body) list \<Rightarrow> log \<Rightarrow> bool" for Z E b l0 where
  start: "stream_run Z E b l0 [] l0"
| appended: "stream_run Z E b l0 xs l \<Longrightarrow> body_ok body \<Longrightarrow> log_fits body l \<Longrightarrow>
    bucket_of (lg_meta l) (log_now l raw None) = Some b \<Longrightarrow>
    log_append Z E raw now_ms body l = Some (Inr off, l') \<Longrightarrow> stream_run Z E b l0 (xs @ [(log_now l raw None, body)]) l'"
| flushed: "stream_run Z E b l0 xs l \<Longrightarrow> log_flush Z l = (Inr (), l') \<Longrightarrow> stream_run Z E b l0 xs l'"
| sealed: "stream_run Z E b l0 xs l \<Longrightarrow> log_seal Z (e_xxh E) l = (Inr fs, l') \<Longrightarrow> stream_run Z E b l0 xs l'"

lemma run_state:
  assumes "zstd_ok Z" "lm_partition_tag meta = None" "stream_run Z E b (empty_log meta config []) xs l" "length xs < 2 ^ 32 - 2"
  shows "stream_state Z b xs l \<and> lg_meta l = meta \<and> lg_config l = config \<and>
    sorted (map fst xs) \<and> lg_last l None = (if xs = [] then None else Some (fst (last xs)))"
  using assms(3,4)
proof induction
  case start
  have "stream_closed Z b [] (empty_log meta config [])"
    by (simp add: stream_closed_def empty_log_def only_bucket_def bucket_paths_def)
  then have "stream_state Z b [] (empty_log meta config [])"
    unfolding stream_state_def by (intro disjI1 exI [of _ "[]"]) simp
  then show ?case by (simp add: empty_log_def lg_meta_def lg_config_def)
next
  case (appended xs l body raw now_ms off l')
  then have IH: "stream_state Z b xs l" "lg_meta l = meta" "lg_config l = config" "sorted (map fst xs)"
    "lg_last l None = (if xs = [] then None else Some (fst (last xs)))" by auto
  have "\<forall>t \<in> fst ` set xs. t \<le> log_now l raw None"
  proof (cases "xs = []")
    case False
    have "t \<le> fst (last xs)" if t: "t \<in> fst ` set xs" for t
    proof -
      obtain i where "i < length xs" "t = fst (xs ! i)" using t by (auto simp: in_set_conv_nth)
      then show ?thesis using sorted_nth_mono [OF IH(4), of i "length xs - 1"] False by (simp add: last_conv_nth)
    qed
    moreover have "fst (last xs) \<le> log_now l raw None" using IH(5) False by (simp add: log_now_def)
    ultimately show ?thesis by (meson order_trans)
  qed simp
  moreover have "stream_state Z b (xs @ [(log_now l raw None, body)]) l' \<and> off = of_nat (length xs) \<and>
      lg_meta l' = lg_meta l \<and> lg_config l' = lg_config l \<and> lg_last l' = (lg_last l)(None \<mapsto> log_now l raw None)"
    by (rule log_append_stream [OF assms(1) IH(1) _ appended.hyps(2-4) _ appended.hyps(5)]) (use IH assms(2) appended.prems in auto)
  ultimately show ?case using IH by (auto simp: sorted_append)
next
  case (flushed xs l l')
  then show ?case using log_flush_stream [OF assms(1) _ flushed.hyps(2)] by auto
next
  case (sealed xs l fs l')
  then show ?case using log_seal_stream [OF assms(1) _ _ sealed.hyps(2)] by auto
qed

text \<open>The records appended to the open parts and not yet written out.\<close>

definition buffered :: "log \<Rightarrow> nat" where
  "buffered l = sum_list (map (\<lambda>a. unat (w_block_records (ac_writer a))) (lg_active l))"

lemma flush_clears: "flush_block Z w = (Inr (), w') \<Longrightarrow> w_block_records w' = 0"
  by (auto simp: flush_block_def Let_def split: if_splits prod.splits sum.splits option.splits)

text \<open>What a tree holds: the records but for the buffered ones.\<close>

lemma stream_chain:
  assumes "zstd_ok Z" "stream_state Z b xs l" "length xs < 2 ^ 32 - 2"
  shows "\<exists>yss n. chain_at Z (lg_tree l) 0 (all_parts (lg_tree l)) yss \<and> concat yss = take n xs \<and>
    (\<forall>path \<in> set (all_parts (lg_tree l)). path_partition path = None) \<and> n + buffered l = length xs"
proof -
  from assms(2) consider yss where "xs = concat yss" "stream_closed Z b yss l"
    | yss zs h w where "zs \<noteq> []" "xs = concat yss @ zs" "stream_open Z b yss zs h w l"
    unfolding stream_state_def by blast
  then show ?thesis
  proof cases
    case 1
    then have "length yss < 2 ^ 32 - 1" using parts_few [of yss] assms(3) by (simp add: stream_closed_def)
    then have "all_parts (lg_tree l) = map (sealed_path b) [0..<length yss]"
      using bucket_all_parts [of b "length yss" False "lg_tree l"] 1(2) by (simp add: stream_closed_def bucket_paths_def)
    then show ?thesis using 1
      by (intro exI [of _ yss] exI [of _ "length xs"]) (auto simp: stream_closed_def path_partition_def sealed_path_def buffered_def)
  next
    case 2
    let ?k = "length yss"
    obtain bs imgs pend rows where st: "part_state Z h zs bs imgs pend rows w" "[] \<notin> set yss" "only_bucket b ?k True (lg_tree l)"
      "chain_at Z (lg_tree l) 0 (map (sealed_path b) [0..<?k]) yss" "ph_first_offset h = of_nat (length (concat yss))"
      "map_of (lg_tree l) (open_path b ?k) = Some (files_of w)" "lg_active l = [\<lparr> ac_path = open_path b ?k, ac_writer = w \<rparr>]"
      using 2(3) by (auto simp: stream_open_def)
    have "?k < 2 ^ 32 - 1" using parts_few [OF st(2)] assms(3) 2(2) by simp
    then have all: "all_parts (lg_tree l) = map (sealed_path b) [0..<?k] @ [open_path b ?k]"
      using bucket_all_parts [OF st(3)] by (simp add: bucket_paths_def)
    define n where "n = unat (w_records w)"
    have off: "unat (ph_first_offset h) + length zs < 2 ^ 64" using assms(3) 2(2) by (simp add: st(5) unat_of_nat)
    have len: "length zs < 2 ^ 64" using assms(3) 2(2) by simp
    have "length zs < 2 ^ 32" using assms(3) 2(2) by simp
    then have buf: "n + buffered l = length zs" using state_buffered [OF st(1)] by (simp add: n_def buffered_def st(7))
    have rd: "n \<le> length zs"
      "\<exists>r. PartReader_open Z c (w_file w) (Some (w_index w)) (map_option d_file (w_dict w)) False = Inr r \<and>
        answers Z r (ph_first_offset h) (take n zs) \<and> offset_span r = (ph_first_offset h, ph_first_offset h + w_records w)" for c
      using state_reads [OF st(1) off, of c] by (auto simp: n_def)
    have cnt: "of_nat (length (take n zs)) = w_records w" using rd(1) by (simp add: n_def min_absorb2)
    have "take 48 (w_file w) = PartHeader_encode h" using st(1) by (simp add: part_state_def)
    then have "good_part Z False (files_of w) (of_nat (length (concat yss))) (take n zs)"
      using rd(2) st(5) cnt by (auto simp: good_part_def files_of_def)
    then have "chain_at Z (lg_tree l) (of_nat (length (concat yss))) [open_path b ?k] [take n zs]"
      using st(6) by (simp add: part_at_def open_path_def)
    then have "chain_at Z (lg_tree l) 0 (all_parts (lg_tree l)) (yss @ [take n zs])"
      unfolding all by (intro chain_append [OF st(4)]) simp
    then show ?thesis using 2(2) rd(1) buf all
      by (intro exI [of _ "yss @ [take n zs]"] exI [of _ "length (concat yss) + n"])
        (auto simp: path_partition_def sealed_path_def open_path_def)
  qed
qed

lemma stream_reads:
  assumes "zstd_ok Z" "stream_state Z b xs l" "length xs < 2 ^ 32 - 2" "valid_cache Z (lg_tree l) side"
  shows "\<exists>n side'. read_streams Z (lg_tree l) (Stream None) lo m side = (Inr (from_offset lo m (numbered 0 (take n xs))), side') \<and>
    n + buffered l = length xs"
proof -
  obtain yss n where ch: "chain_at Z (lg_tree l) 0 (all_parts (lg_tree l)) yss" "concat yss = take n xs"
    "\<forall>path \<in> set (all_parts (lg_tree l)). path_partition path = None"
    "n + buffered l = length xs"
    using stream_chain [OF assms(1-3)] by blast
  have len: "unat (0 :: u64) + length (concat yss) < 2 ^ 64" using assms(3) ch(2) by simp
  obtain side' where "streams_loop Z (lg_tree l) (Stream None) lo m (all_parts (lg_tree l)) [] side =
      (Inr (from_offset lo m (numbered 0 (take n xs))), side')"
    using streams_loop_chain [OF ch(1) len assms(4), of "Stream None" lo m "[]"] ch(2,3) by auto
  then show ?thesis using ch(4) unfolding read_streams_def chain_ordered [OF ch(1) len] by (auto simp: in_time_order_def)
qed

lemma flush_buffered:
  assumes "stream_state Z b xs l" "log_flush Z l = (Inr (), l')"
  shows "buffered l' = 0"
proof -
  from assms(1) consider "lg_active l = []" | a where "lg_active l = [a]"
    by (auto simp: stream_state_def stream_closed_def stream_open_def)
  then show ?thesis
    by cases (use assms(2) in \<open>auto simp: log_flush_def buffered_def Let_def write_part_def flush_clears split: prod.splits sum.splits\<close>)
qed

lemma seal_buffered:
  assumes "stream_state Z b xs l" "log_seal Z xxh l = (Inr fs, l')"
  shows "buffered l' = 0"
proof -
  from assms(1) consider "lg_active l = []" | a where "lg_active l = [a]"
    by (auto simp: stream_state_def stream_closed_def stream_open_def)
  then show ?thesis
    by cases (use assms(2) in \<open>auto simp: log_seal_def seal_active_def buffered_def clear_readers_def split: prod.splits sum.splits\<close>)
qed

section \<open>Crossing a bucket\<close>

lemma find_holds: "find P xs = Some y \<Longrightarrow> P y"
  by (induction xs) (auto split: if_splits)

lemma stream_parts_known: "set (stream_parts tree b p) \<subseteq> dom (map_of tree)"
  by (auto simp: stream_parts_def sealed_parts_def open_part_def path_exists_def split: option.splits dest!: find_holds [OF sym])

lemma offset_keyed_known: "snd ` set (offset_keyed tree paths) \<subseteq> set paths"
  by (induction paths) (auto split: sum.splits)

lemma parts_known: "set (parts_by_offset tree) \<subseteq> dom (map_of tree)"
proof -
  have "set (all_parts tree) \<subseteq> dom (map_of tree)"
    using stream_parts_known by (auto simp: all_parts_def) blast+
  then show ?thesis using offset_keyed_known [of tree "all_parts tree"] by (auto simp: parts_by_offset_def)
qed

lemma loop_below:
  "valid_cache Z tree side \<Longrightarrow>
    \<forall>path \<in> set paths. \<exists>r. open_reader Z tree (lc_dict (rs_config side)) path = Inr r \<and> snd (offset_span r) \<le> lo \<Longrightarrow>
    \<exists>side'. streams_loop Z tree which lo m paths found side = (Inr found, side')"
proof (induction paths arbitrary: side)
  case (Cons path paths)
  obtain r where r: "open_reader Z tree (lc_dict (rs_config side)) path = Inr r" "snd (offset_span r) \<le> lo" using Cons.prems(2) by auto
  obtain side' where side': "reader_for Z tree path side = (Inr r, side')" "valid_cache Z tree side'" "rs_config side' = rs_config side"
    using reader_for_open [OF Cons.prems(1) r(1)] by blast
  have 1: "\<exists>s. streams_loop Z tree which lo m paths found side = (Inr found, s)" by (rule Cons.IH) (use Cons.prems in auto)
  have 2: "\<exists>s. streams_loop Z tree which lo m paths found side' = (Inr found, s)" by (rule Cons.IH) (use Cons.prems side' in auto)
  obtain start end' where "offset_span r = (start, end')" by (cases "offset_span r")
  then show ?case using 1 2 r(2) side'(1) by auto
qed simp

lemma chain_ends:
  "chain_at Z tree off paths yss \<Longrightarrow> unat off + length (concat yss) < 2 ^ 64 \<Longrightarrow> path \<in> set paths \<Longrightarrow>
    \<exists>k ys. part_at Z tree path k ys \<and> k + of_nat (length ys) \<le> off + of_nat (length (concat yss))"
proof (induction Z tree off paths yss rule: chain_at.induct)
  case (1 Z tree off q paths ys yss)
  have no: "unat (off + of_nat (length ys)) = unat off + length ys"
    "unat (off + of_nat (length (concat (ys # yss)))) = unat off + length (concat (ys # yss))"
    using "1.prems"(2) by (simp_all add: unat_word_ariths unat_of_nat)
  show ?case
  proof (cases "path = q")
    case True
    have "off + of_nat (length ys) \<le> off + of_nat (length (concat (ys # yss)))"
      unfolding word_le_nat_alt no by simp
    then show ?thesis using "1.prems"(1) True by (meson chain_at.simps(1))
  next
    case False
    have "\<exists>k ys'. part_at Z tree path k ys' \<and> k + of_nat (length ys') \<le> off + of_nat (length ys) + of_nat (length (concat yss))"
      by (rule "1.IH") (use "1.prems" False no(1) in auto)
    then show ?thesis by (simp add: add.assoc)
  qed
qed simp_all

text \<open>The first part of a stream in a bucket it has not been in.\<close>

lemma new_bucket:
  assumes "stream_closed Z b yss l" "length yss < 2 ^ 32 - 2" "b' \<noteq> b"
  shows "\<exists>h l'. new_part Z now_ms b' None ts l = (Inr (), l') \<and> ph_first_offset h = 0 \<and> lg_active l' = [\<lparr> ac_path = open_path b' 0,
      ac_writer = PartWriter_create h (lc_block_bytes (lg_config l)) (lc_codec (lg_config l)) (lc_dict (lg_config l)) \<rparr>] \<and>
    (\<exists>f. lg_tree l' = AList.update (open_path b' 0) f (lg_tree l)) \<and> lg_side l' = lg_side l \<and> lg_last l' = lg_last l"
proof -
  have st: "only_bucket b (length yss) False (lg_tree l)" "lg_active l = []" using assms(1) by (simp_all add: stream_closed_def)
  have dom: "fst ` set (lg_tree l) = set (bucket_paths b (length yss) False)" using st(1) unfolding only_bucket_def dom_tree .
  have none: "path \<notin> fst ` set (lg_tree l)" if "fst path = b'" for path
    using that assms(3) unfolding dom by (auto simp: bucket_paths_def sealed_path_def)
  have "filter (\<lambda>((b'', p', _, _), _). b'' = b' \<and> p' = None) (lg_tree l) = []"
    using none by (force simp: filter_empty_conv)
  then have ns: "part_numbers (lg_tree l) b' None = []" by (simp add: part_numbers_def)
  then have "candidates (lg_tree l) b' None = map of_nat [0 ..< 1024]" by (simp add: candidates_def)
  also have "[0 ..< 1024] = 0 # [Suc 0 ..< 1024]" by (rule upt_conv_Cons) simp
  finally have cs: "candidates (lg_tree l) b' None = 0 # map of_nat [Suc 0 ..< 1024]" by simp
  have "\<not> path_exists (lg_tree l) (b', None, 0, False)"
    using none [of "(b', None, 0, False)"] by (simp add: path_exists_def map_of_eq_None_iff open_path_def)
  then have num: "find (\<lambda>n. \<not> path_exists (lg_tree l) (b', None, n, False)) (candidates (lg_tree l) b' None) = Some 0"
    by (simp add: cs)
  have "stream_next_offset Z (lg_tree l) b' None = 0"
    by (simp add: stream_next_offset_def stream_parts_def sealed_parts_def open_part_def ns)
  then show ?thesis using st(2)
    by (intro exI [of _ "\<lparr> ph_precision = lm_precision (lg_meta l), ph_bucket = b', ph_base_ts = ts, ph_first_offset = 0,
        ph_created_unix_ms = now_ms \<rparr>"]) (simp add: new_part_def num Let_def write_part_def open_path_def, blast)
qed

lemma seal_for_bucket:
  assumes "zstd_ok Z" "stream_state Z b xs l" "length xs < 2 ^ 32 - 2" "b < b'"
    and "seal_parts_older_than Z xxh b' (Some None) l = (Inr (), l')"
  shows "\<exists>yss. xs = concat yss \<and> stream_closed Z b yss l' \<and> lg_side l' = lg_side l \<and> lg_last l' = lg_last l"
proof -
  from assms(2) consider yss where "xs = concat yss" "stream_closed Z b yss l"
    | yss zs h w where "zs \<noteq> []" "xs = concat yss @ zs" "stream_open Z b yss zs h w l"
    unfolding stream_state_def by blast
  then show ?thesis
  proof cases
    case 1
    then have "l' = l" using assms(5) by (simp add: stream_closed_def seal_current)
    then show ?thesis using 1 by blast
  next
    case 2
    let ?a = "\<lparr> ac_path = open_path b (length yss), ac_writer = w \<rparr>"
    have act: "lg_active l = [?a]" using 2(3) by (simp add: stream_open_def)
    then have "seal_parts_older_than Z xxh b' (Some None) l = seal_indices Z xxh [0] l"
      using assms(4) by (simp add: seal_parts_older_than_def ac_bucket_def ac_partition_def path_partition_def open_path_def)
    then obtain f where f: "seal_active Z xxh ?a (l \<lparr> lg_active := [] \<rparr>) = (Inr f, l')"
      using assms(5) act by (auto simp: Let_def split: prod.splits sum.splits)
    have "length (concat yss @ zs) < 2 ^ 32 - 2" using assms(3) 2(2) by simp
    from seal_open [OF assms(1) 2(3,1) this _ _ f] have "stream_closed Z b (yss @ [zs]) l'" "lg_side l' = lg_side l" "lg_last l' = lg_last l"
      by simp_all
    then show ?thesis using 2(2) by (intro exI [of _ "yss @ [zs]"]) simp
  qed
qed

text \<open>The files after the first append in a new bucket: the parts of the old one, and a part of at most one record.\<close>

lemma crossing_parts:
  assumes "stream_closed Z b yss l" "unat (0 :: u64) + length (concat yss) < 2 ^ 64"
    and "part_state Z h [x] bs imgs pend rows w" "ph_first_offset h = 0" "yss \<noteq> []"
    and "\<forall>path. path \<noteq> open_path b' 0 \<longrightarrow> map_of tree path = map_of (lg_tree l) path" "map_of tree (open_path b' 0) = Some (files_of w)"
  shows "\<forall>path \<in> dom (map_of tree). \<exists>r. open_reader Z tree c path = Inr r \<and> snd (offset_span r) \<le> of_nat (length (concat yss))"
proof
  fix path assume path: "path \<in> dom (map_of tree)"
  have st: "[] \<notin> set yss" "only_bucket b (length yss) False (lg_tree l)" "chain_at Z (lg_tree l) 0 (map (sealed_path b) [0..<length yss]) yss"
    using assms(1) by (simp_all add: stream_closed_def)
  show "\<exists>r. open_reader Z tree c path = Inr r \<and> snd (offset_span r) \<le> of_nat (length (concat yss))"
  proof (cases "path = open_path b' 0")
    case False
    then have "path \<in> set (map (sealed_path b) [0..<length yss])"
      using path assms(6) st(2) by (auto simp: only_bucket_def bucket_paths_def dom_def)
    from chain_ends [OF st(3) assms(2) this] obtain k ys where "part_at Z (lg_tree l) path k ys"
      "k + of_nat (length ys) \<le> 0 + of_nat (length (concat yss))" by blast
    moreover have "map_of tree path = map_of (lg_tree l) path" using assms(6) False by blast
    ultimately have "part_at Z tree path k ys" "k + of_nat (length ys) \<le> of_nat (length (concat yss))"
      by (simp_all add: part_at_def)
    then show ?thesis using part_reader by fastforce
  next
    case True
    have one: "1 \<le> length (concat yss)" using parts_few [OF st(1)] assms(5) by (cases yss) auto
    have "unat (ph_first_offset h) + length [x] < 2 ^ 64" by (simp add: assms(4))
    from state_reads [OF assms(3) this, of c] obtain r where
      r: "PartReader_open Z c (w_file w) (Some (w_index w)) (map_option d_file (w_dict w)) False = Inr r"
      "offset_span r = (ph_first_offset h, ph_first_offset h + w_records w)" "unat (w_records w) \<le> length [x]" by blast
    have "unat (of_nat (length (concat yss)) :: u64) = length (concat yss)" using assms(2) by (simp add: unat_of_nat)
    then have "w_records w \<le> of_nat (length (concat yss))" using r(3) one by (simp add: word_le_nat_alt)
    then show ?thesis using True r(1,2) assms(4,7) by (simp add: open_reader_def files_of_def open_path_def)
  qed
qed

lemma append_new_bucket:
  assumes "zstd_ok Z" "stream_state Z b xs l" "lm_partition_tag (lg_meta l) = None" "length xs < 2 ^ 32 - 2"
    and "body_ok body" "log_fits body l" "bucket_of (lg_meta l) (log_now l raw None) = Some b'" "b < b'"
    and "log_append Z E raw now_ms body l = Some (Inr off, l')"
  shows "off = 0 \<and> (\<exists>yss l1 h w. xs = concat yss \<and> stream_closed Z b yss l1 \<and> ph_first_offset h = 0 \<and>
    (\<exists>bs imgs pend rows. part_state Z h [(log_now l raw None, body)] bs imgs pend rows w) \<and>
    lg_active l' = [\<lparr> ac_path = open_path b' 0, ac_writer = w \<rparr>] \<and>
    (\<forall>path. map_of (lg_tree l') path = (if path = open_path b' 0 then Some (files_of w) else map_of (lg_tree l1) path)))"
proof -
  let ?ts = "log_now l raw None"
  obtain l1 l2 where l1: "seal_parts_older_than Z (e_xxh E) b' (Some None) l = (Inr (), l1)"
    and ens: "ensure_part Z (e_xxh E) now_ms b' None ?ts l = (Inr (), l2)"
    using assms(3,7,9) by (auto simp: log_append_def ensure_part_def Let_def split: prod.splits sum.splits)
  obtain yss where yss: "xs = concat yss" "stream_closed Z b yss l1" "lg_side l1 = lg_side l"
    using seal_for_bucket [OF assms(1,2,4,8) l1] by blast
  have act1: "lg_active l1 = []" "[] \<notin> set yss" using yss(2) by (simp_all add: stream_closed_def)
  have few: "length yss < 2 ^ 32 - 2" using parts_few [OF act1(2)] assms(4) yss(1) by simp
  have new: "new_part Z now_ms b' None ?ts l1 = (Inr (), l2)"
    using ens l1 act1(1) by (simp add: ensure_part_def active_index_def)
  have "b' \<noteq> b" using assms(8) by simp
  from new_bucket [OF yss(2) few this, of now_ms ?ts] new obtain h f where h: "ph_first_offset h = 0"
    "lg_active l2 = [\<lparr> ac_path = open_path b' 0, ac_writer = PartWriter_create h (lc_block_bytes (lg_config l1)) (lc_codec (lg_config l1)) (lc_dict (lg_config l1)) \<rparr>]"
    "lg_tree l2 = AList.update (open_path b' 0) f (lg_tree l1)" by auto
  define w where "w = PartWriter_create h (lc_block_bytes (lg_config l1)) (lc_codec (lg_config l1)) (lc_dict (lg_config l1))"
  have act2: "lg_active l2 = [\<lparr> ac_path = open_path b' 0, ac_writer = w \<rparr>]" using h(2) by (simp add: w_def)
  have fits: "fits_dict body w" using fits_new [OF assms(6)] yss(3) by (simp add: w_def lg_config_def)
  obtain w' where w': "part_append Z (e_hash E) ?ts body w = Some (Inr off, w')" "lg_active l' = [\<lparr> ac_path = open_path b' 0, ac_writer = w' \<rparr>]"
    "lg_tree l' = AList.update (open_path b' 0) (files_of w') (lg_tree l2)"
  proof (cases "part_append Z (e_hash E) ?ts body w")
    case (Some q)
    obtain r v where q: "q = (r, v)" by (cases q)
    show ?thesis using assms(3,7,9) ens act2 Some that unfolding q
      by (cases r) (auto simp: log_append_def Let_def active_one write_part_def)
  qed (use assms(3,7,9) ens act2 in \<open>simp add: log_append_def Let_def active_one\<close>)
  from append_state [OF assms(1) create_state assms(5) fits [unfolded w_def] w'(1) [unfolded w_def]] h(1)
  have off: "off = 0" and ps: "\<exists>bs imgs pend rows. part_state Z h [(?ts, body)] bs imgs pend rows w'" by auto
  have tree: "map_of (lg_tree l') path = (if path = open_path b' 0 then Some (files_of w') else map_of (lg_tree l1) path)" for path
    by (simp add: w'(3) h(3) update_conv')
  show ?thesis using off yss(1,2) h(1) ps w'(2) tree by blast
qed

lemma crossing_misses:
  assumes "stream_closed Z b yss l" "length (concat yss) < 2 ^ 64" "yss \<noteq> []" "rs_readers side = []"
    and "\<exists>bs imgs pend rows. part_state Z h [x] bs imgs pend rows w" "ph_first_offset h = 0"
    and tree: "\<And>path. map_of tree path = (if path = open_path b' 0 then Some (files_of w) else map_of (lg_tree l) path)"
  shows "\<exists>side'. read_streams Z tree (Stream None) (of_nat (length (concat yss))) m side = (Inr [], side')"
proof -
  obtain bs imgs pend rows where w: "part_state Z h [x] bs imgs pend rows w" using assms(5) by blast
  have n: "unat (0 :: u64) + length (concat yss) < 2 ^ 64" using assms(2) by simp
  have "\<forall>path \<in> dom (map_of tree). \<exists>r. open_reader Z tree (lc_dict (rs_config side)) path = Inr r \<and> snd (offset_span r) \<le> of_nat (length (concat yss))"
    by (rule crossing_parts [where b' = b', OF assms(1) n w assms(6,3)]) (simp_all add: tree del: split_paired_All)
  then have "\<forall>path \<in> set (parts_by_offset tree). \<exists>r. open_reader Z tree (lc_dict (rs_config side)) path = Inr r \<and> snd (offset_span r) \<le> of_nat (length (concat yss))"
    using parts_known [of tree] by blast
  from loop_below [OF valid_empty [OF assms(4)] this, of "Stream None" m "[]"] show ?thesis
    by (auto simp: read_streams_def in_time_order_def)
qed

section \<open>A concrete log\<close>

lemma seal_progress:
  assumes "zstd_ok Z" "part_state Z h xs bs imgs pend rows w" "length (w_block w) < 2 ^ 32" "length (w_file w) < 2 ^ 32"
  shows "\<exists>f w'. part_seal Z xxh w = (Inr f, w')"
proof -
  obtain w1 where w1: "flush_block Z w = (Inr (), w1)" using flush_progress [OF assms] by blast
  obtain bs' imgs' pend' rows' where "part_state Z h xs bs' imgs' pend' rows' w1" using flush_any [OF assms(1,2) w1] by blast
  then obtain d0 where "dict_state Z d0 (w_dict w1)" unfolding part_state_def by auto
  then obtain d where "flush_finish Z (w_dict w1) = (Inr (), d)" using finish_dict [OF assms(1)] by blast
  then show ?thesis using w1 by (simp add: part_seal_def Let_def)
qed

lemma log_append_run:
  assumes "lm_partition_tag (lg_meta l) = None" "bucket_of (lg_meta l) (log_now l raw None) = Some b"
    and "ensure_part Z (e_xxh E) now_ms b None (log_now l raw None) l = (Inr (), l1)"
    and "lg_active l1 = [\<lparr> ac_path = open_path b k, ac_writer = w \<rparr>]"
    and "part_append Z (e_hash E) (log_now l raw None) body w = Some (Inr off, w')"
  shows "\<exists>l'. log_append Z E raw now_ms body l = Some (Inr off, l') \<and> lg_active l' = [\<lparr> ac_path = open_path b k, ac_writer = w' \<rparr>] \<and>
    lg_side l' = lg_side l1"
  using assms by (simp add: log_append_def Let_def active_one write_part_def)

text \<open>An append to a log without open parts, as far as its flush.\<close>

lemma log_append_new:
  assumes "zstd_ok Z" "lm_partition_tag (lg_meta l) = None" "bucket_of (lg_meta l) (log_now l raw None) = Some b" "lg_active l = []"
    and "new_part Z now_ms b None (log_now l raw None) l = (Inr (), l1)" "lg_side l1 = lg_side l"
    and "lg_active l1 = [\<lparr> ac_path = open_path b k, ac_writer = PartWriter_create h (lc_block_bytes (lg_config l)) (lc_codec (lg_config l)) (lc_dict (lg_config l)) \<rparr>]"
    and "body_ok body" "log_fits body l" "body_bytes body < 1000"
  shows "\<exists>l' w l''. log_append Z E raw now_ms body l = Some (Inr (ph_first_offset h), l') \<and>
    log_flush Z l' = (Inr (), l'') \<and> lg_active l'' = [\<lparr> ac_path = open_path b k, ac_writer = w \<rparr>] \<and>
    w_block w = [] \<and> length (w_file w) < 2000 \<and> lg_side l'' = lg_side l"
proof -
  let ?w = "PartWriter_create h (lc_block_bytes (lg_config l)) (lc_codec (lg_config l)) (lc_dict (lg_config l))"
  have w: "last_ts ?w = 0" "w_file ?w = PartHeader_encode h" "w_block ?w = []"
    by (simp_all add: PartWriter_create_def last_ts_def)
  obtain w' w'' where w': "part_append Z (e_hash E) (log_now l raw None) body ?w = Some (Inr (ph_first_offset h), w')"
    "flush_block Z w' = (Inr (), w'')" "w_block w'' = []" "length (w_file w'') < 2000"
    using append_progress [OF assms(1) create_state [of Z h "lc_block_bytes (lg_config l)" "lc_codec (lg_config l)" "lc_dict (lg_config l)"]
        assms(8) fits_new [OF assms(9)], where ts = "log_now l raw None" and hash = "e_hash E"]
      w assms(10) by auto
  have ens: "ensure_part Z (e_xxh E) now_ms b None (log_now l raw None) l = (Inr (), l1)"
    using assms(4,5) by (simp add: ensure_part_def seal_current active_index_def)
  obtain l' where l': "log_append Z E raw now_ms body l = Some (Inr (ph_first_offset h), l')" "lg_active l' = [\<lparr> ac_path = open_path b k, ac_writer = w' \<rparr>]"
    "lg_side l' = lg_side l1"
    using log_append_run [OF assms(2,3) ens assms(7) w'(1)] by blast
  then show ?thesis using w'(2,3,4) assms(6) by (simp add: log_flush_def Let_def write_part_def)
qed

definition sample_env :: env where
  "sample_env = \<lparr> e_hash = \<lambda>_. 0, e_xxh = \<lambda>_. 0, e_show = \<lambda>_. [] \<rparr>"

definition sample_meta :: log_meta where
  "sample_meta = \<lparr> lm_epoch_unix_ms = 0, lm_precision = Ns, lm_bucket_seconds = 3600, lm_partition_tag = None \<rparr>"

definition sample_log :: log where
  "sample_log = empty_log sample_meta default_log_config []"

lemma sample_buckets: "bucket_of sample_meta 5 = Some 0" "bucket_of sample_meta 3600000000005 = Some 1"
  by (simp_all add: bucket_of_def sample_meta_def)

lemma sample_log_facts: "lg_meta sample_log = sample_meta" "lg_config sample_log = default_log_config" "lg_active sample_log = []"
  "log_now sample_log raw None = raw" "log_fits sample_body sample_log" "stream_closed plain_zstd 0 [] sample_log"
  using sample_fits(2)
  by (simp_all add: sample_log_def empty_log_def lg_meta_def lg_config_def log_now_def log_fits_def stream_closed_def only_bucket_def
      bucket_paths_def default_log_config_def fits_dict_def sample_part_def PartWriter_create_def)

text \<open>One record, flushed.\<close>

lemma sample_stream:
  "\<exists>l w. stream_run plain_zstd sample_env 0 (empty_log sample_meta default_log_config []) [(5, sample_body)] l \<and>
     lg_active l = [\<lparr> ac_path = open_path 0 0, ac_writer = w \<rparr>] \<and> w_block w = [] \<and> length (w_file w) < 2000"
proof -
  obtain h l1 where l1: "new_part plain_zstd 0 0 None 5 sample_log = (Inr (), l1)" "lg_side l1 = lg_side sample_log"
    "stream_open plain_zstd 0 [] [] h (PartWriter_create h (lc_block_bytes (lg_config sample_log)) (lc_codec (lg_config sample_log)) (lc_dict (lg_config sample_log))) l1"
    using new_part_open [OF sample_log_facts(6), of 0 5] by auto
  have act: "lg_active l1 = [\<lparr> ac_path = open_path 0 0, ac_writer = PartWriter_create h (lc_block_bytes (lg_config sample_log)) (lc_codec (lg_config sample_log)) (lc_dict (lg_config sample_log)) \<rparr>]"
    using l1(3) by (simp add: stream_open_def)
  obtain l' l'' w where l': "log_append plain_zstd sample_env 5 0 sample_body sample_log = Some (Inr (ph_first_offset h), l')"
    "log_flush plain_zstd l' = (Inr (), l'')" "lg_active l'' = [\<lparr> ac_path = open_path 0 0, ac_writer = w \<rparr>]"
    "w_block w = []" "length (w_file w) < 2000"
    using log_append_new [OF plain_zstd_ok _ _ sample_log_facts(3) _ l1(2) act sample_fits(1) sample_log_facts(5), of 5 0 sample_env]
      sample_log_facts sample_buckets l1(1) sample_fits(3) by (auto simp: sample_meta_def)
  have "stream_run plain_zstd sample_env 0 (empty_log sample_meta default_log_config []) ([] @ [(log_now sample_log 5 None, sample_body)]) l'"
    by (rule stream_run.appended [OF _ sample_fits(1) sample_log_facts(5) _ l'(1)])
      (use sample_log_facts sample_buckets in \<open>simp_all add: sample_log_def [symmetric] stream_run.start\<close>)
  then show ?thesis using l'(2-5) stream_run.flushed sample_log_facts(4) by fastforce
qed

lemma sample_flushed:
  "\<exists>l. stream_run plain_zstd sample_env 0 (empty_log sample_meta default_log_config []) [(5, sample_body)] l \<and> buffered l = 0"
proof -
  obtain l w where l: "stream_run plain_zstd sample_env 0 (empty_log sample_meta default_log_config []) [(5, sample_body)] l"
     "lg_active l = [\<lparr> ac_path = open_path 0 0, ac_writer = w \<rparr>]" "w_block w = []"
    using sample_stream by blast
  have "stream_state plain_zstd 0 [(5, sample_body)] l" using run_state [OF plain_zstd_ok _ l(1)] by (simp add: sample_meta_def)
  then obtain yss zs h v where o: "[(5, sample_body)] = concat yss @ zs" "stream_open plain_zstd 0 yss zs h v l"
    using l(2) unfolding stream_state_def stream_closed_def by auto
  then have v: "v = w" using l(2) by (simp add: stream_open_def)
  obtain bs imgs pend rows where st: "part_state plain_zstd h zs bs imgs pend rows w" "ph_first_offset h = of_nat (length (concat yss))"
    using o(2) unfolding v stream_open_def by blast
  have "length (concat yss) + length zs = 1" using arg_cong [OF o(1), of length] by simp
  then have n: "length zs < 2 ^ 32" "unat (ph_first_offset h) + length zs < 2 ^ 64" by (simp_all add: st(2) unat_of_nat)
  have "w_block_records w = 0"
    using state_buffered [OF st(1) n(1)] state_reads [OF st(1) n(2)] l(3) by (simp add: unat_eq_zero)
  then show ?thesis using l(1,2) by (auto simp: buffered_def)
qed

text \<open>The same, sealed.\<close>

lemma sample_sealed:
  "\<exists>l. stream_run plain_zstd sample_env 0 (empty_log sample_meta default_log_config []) [(5, sample_body)] l \<and> lg_active l = []"
proof -
  obtain l w where l: "stream_run plain_zstd sample_env 0 (empty_log sample_meta default_log_config []) [(5, sample_body)] l"
     "lg_active l = [\<lparr> ac_path = open_path 0 0, ac_writer = w \<rparr>]" "w_block w = []" "length (w_file w) < 2000"
    using sample_stream by blast
  have "stream_state plain_zstd 0 [(5, sample_body)] l"
    using run_state [OF plain_zstd_ok _ l(1)] by (simp add: sample_meta_def)
  then obtain yss zs h v where o: "stream_open plain_zstd 0 yss zs h v l"
    using l(2) unfolding stream_state_def stream_closed_def by auto
  then have "v = w" using l(2) by (simp add: stream_open_def)
  then obtain bs imgs pend rows where "part_state plain_zstd h zs bs imgs pend rows w"
    using o unfolding stream_open_def by blast
  then obtain f w' where "part_seal plain_zstd (e_xxh sample_env) w = (Inr f, w')"
    using seal_progress [OF plain_zstd_ok, of _ _ _ _ _ _ w] l(3,4) by fastforce
  then have "\<exists>fs l'. log_seal plain_zstd (e_xxh sample_env) l = (Inr fs, l') \<and> lg_active l' = []"
    using l(2) by (simp add: log_seal_def seal_active_def open_path_def clear_readers_def)
  then show ?thesis using stream_run.sealed [OF l(1)] by blast
qed

section \<open>Properties\<close>

text \<open>
  C6: Following a log inside one bucket. For every history of appends whose clock stays in the bucket,
  flushes and seals, all successful, of a log without partitions, in which every appended body found
  room in the open dictionary block of its part (\<open>log_fits\<close>: no dictionary block fills up and none is
  past the 240 a code byte can name): the stamped times never decrease, and a reader that opens the directory answers, from any offset on and over all parts,
  exactly the appended records but for the buffered ones, which are the last \<open>buffered l\<close>, numbered 0,
  1, 2 and so on; a flush or a seal that succeeds leaves nothing buffered.
\<close>

theorem log_reads_back:
  assumes "zstd_ok Z" "lm_partition_tag meta = None" "stream_run Z E b (empty_log meta config []) xs l"
    and "length xs < 2 ^ 32 - 2" "rs_readers side = []"
  shows "sorted (map fst xs) \<and> buffered l \<le> length xs \<and>
    (\<exists>side'. read_streams Z (lg_tree l) (Stream None) lo m side =
       (Inr (from_offset lo m (numbered 0 (take (length xs - buffered l) xs))), side')) \<and>
    (\<forall>l'. log_flush Z l = (Inr (), l') \<longrightarrow> buffered l' = 0) \<and>
    (\<forall>fs l'. log_seal Z (e_xxh E) l = (Inr fs, l') \<longrightarrow> buffered l' = 0)"
proof -
  have st: "stream_state Z b xs l" "sorted (map fst xs)" using run_state [OF assms(1-4)] by auto
  obtain n side' where "read_streams Z (lg_tree l) (Stream None) lo m side = (Inr (from_offset lo m (numbered 0 (take n xs))), side')"
    "n + buffered l = length xs"
    using stream_reads [OF assms(1) st(1) assms(4) valid_empty [OF assms(5)], of lo m] by blast
  moreover from this(2) have "n = length xs - buffered l" by simp
  ultimately show ?thesis using st(2) flush_buffered [OF st(1)] seal_buffered [OF st(1)] by auto
qed

theorem log_reads_back_witness:
  "\<exists>l side'. stream_run plain_zstd sample_env 0 (empty_log sample_meta default_log_config []) [(5, sample_body)] l \<and> buffered l = 0 \<and>
     read_streams plain_zstd (lg_tree l) (Stream None) 0 10 (lg_side sample_log) = (Inr [(5, 0, sample_body)], side')"
proof -
  obtain l where l: "stream_run plain_zstd sample_env 0 (empty_log sample_meta default_log_config []) [(5, sample_body)] l" "buffered l = 0"
    using sample_flushed by blast
  obtain side' where "read_streams plain_zstd (lg_tree l) (Stream None) 0 10 (lg_side sample_log) =
      (Inr (from_offset 0 10 (numbered 0 (take (length [(5 :: u64, sample_body)] - buffered l) [(5, sample_body)]))), side')"
    using log_reads_back [OF plain_zstd_ok _ l(1), of "lg_side sample_log" 0 10] by (auto simp: sample_meta_def sample_log_def empty_log_def)
  then show ?thesis using l by (auto simp: from_offset_def)
qed

text \<open>
  C10: Following a log across a bucket by offset loses records: the first append in a new bucket gets
  the offset 0 again, although the stream already holds records with that offset, and a read from the
  offset behind the last record answers nothing, before and after the flush.
\<close>

theorem new_bucket_restarts_offsets:
  assumes "zstd_ok Z" "lm_partition_tag meta = None" "stream_run Z E b (empty_log meta config []) xs l"
    and "length xs < 2 ^ 32 - 2" "xs \<noteq> []" "body_ok body" "log_fits body l"
    and "bucket_of meta (log_now l raw None) = Some b'" "b < b'"
    and "log_append Z E raw now_ms body l = Some (Inr off, l')" "log_flush Z l' = (Inr (), l'')" "rs_readers side = []"
  shows "off = 0 \<and> (\<exists>side'. read_streams Z (lg_tree l') (Stream None) (of_nat (length xs)) m side = (Inr [], side')) \<and>
    (\<exists>side'. read_streams Z (lg_tree l'') (Stream None) (of_nat (length xs)) m side = (Inr [], side'))"
proof -
  let ?ts = "log_now l raw None"
  have st: "stream_state Z b xs l" "lg_meta l = meta" using run_state [OF assms(1-4)] by auto
  have tag: "lm_partition_tag (lg_meta l) = None" and bucket: "bucket_of (lg_meta l) ?ts = Some b'" using assms(2,8) st(2) by simp_all
  obtain yss l1 h w where off: "off = 0" and c: "xs = concat yss" "stream_closed Z b yss l1" "ph_first_offset h = 0"
    "\<exists>bs imgs pend rows. part_state Z h [(?ts, body)] bs imgs pend rows w" "lg_active l' = [\<lparr> ac_path = open_path b' 0, ac_writer = w \<rparr>]"
    "\<forall>path. map_of (lg_tree l') path = (if path = open_path b' 0 then Some (files_of w) else map_of (lg_tree l1) path)"
    using append_new_bucket [OF assms(1) st(1) tag assms(4,6,7) bucket assms(9,10)] by blast
  have len: "length (concat yss) < 2 ^ 64" "yss \<noteq> []" using assms(4,5) c(1) by auto
  obtain w2 where w2: "flush_block Z w = (Inr (), w2)" "lg_tree l'' = AList.update (open_path b' 0) (files_of w2) (lg_tree l')"
    using assms(11) c(5) by (auto simp: log_flush_def Let_def write_part_def split: prod.splits sum.splits)
  have ps: "\<exists>bs imgs pend rows. part_state Z h [(?ts, body)] bs imgs pend rows w2"
    using c(4) flush_any [OF assms(1) _ w2(1)] by blast
  have tree: "map_of (lg_tree l'') path = (if path = open_path b' 0 then Some (files_of w2) else map_of (lg_tree l1) path)" for path
    using spec [OF c(6), of path] by (simp add: w2(2) update_conv')
  have "\<exists>side'. read_streams Z (lg_tree l') (Stream None) (of_nat (length xs)) m side = (Inr [], side')"
    unfolding c(1) by (rule crossing_misses [OF c(2) len assms(12) c(4,3)]) (rule spec [OF c(6)])
  moreover have "\<exists>side'. read_streams Z (lg_tree l'') (Stream None) (of_nat (length xs)) m side = (Inr [], side')"
    unfolding c(1) by (rule crossing_misses [OF c(2) len assms(12) ps c(3)]) (rule tree)
  ultimately show ?thesis using off by blast
qed

theorem new_bucket_restarts_offsets_witness:
  "\<exists>l l' l'' side'. stream_run plain_zstd sample_env 0 (empty_log sample_meta default_log_config []) [(5, sample_body)] l \<and>
     log_append plain_zstd sample_env 3600000000005 0 sample_body l = Some (Inr 0, l') \<and> log_flush plain_zstd l' = (Inr (), l'') \<and>
     read_streams plain_zstd (lg_tree l'') (Stream None) 1 10 (lg_side sample_log) = (Inr [], side')"
proof -
  obtain l where l: "stream_run plain_zstd sample_env 0 (empty_log sample_meta default_log_config []) [(5, sample_body)] l" "lg_active l = []"
    using sample_sealed by blast
  have st: "stream_state plain_zstd 0 [(5, sample_body)] l" "lg_meta l = sample_meta" "lg_config l = default_log_config" "lg_last l None = Some 5"
    using run_state [OF plain_zstd_ok _ l(1)] by (auto simp: sample_meta_def)
  obtain yss where yss: "stream_closed plain_zstd 0 yss l" "length yss \<le> 1"
  proof -
    obtain yss where y: "[(5, sample_body)] = concat yss" "stream_closed plain_zstd 0 yss l"
      using st(1) l(2) unfolding stream_state_def stream_open_def by auto
    then have "length yss \<le> length [(5 :: u64, sample_body)]" using parts_few [of yss] by (simp add: stream_closed_def)
    then show ?thesis using that y(2) by simp
  qed
  have now: "log_now l 3600000000005 None = 3600000000005" using st(4) by (simp add: log_now_def max_def)
  have fits: "log_fits sample_body l" using sample_log_facts(2,5) st(3) l(2) by (simp add: log_fits_def)
  have "length yss < 2 ^ 32 - 2" "(1 :: u64) \<noteq> 0" using yss(2) by simp_all
  from new_bucket [OF yss(1) this, of 0 3600000000005] obtain h l1 where l1: "new_part plain_zstd 0 1 None 3600000000005 l = (Inr (), l1)"
    "ph_first_offset h = 0" "lg_side l1 = lg_side l" "lg_active l1 = [\<lparr> ac_path = open_path 1 0,
      ac_writer = PartWriter_create h (lc_block_bytes (lg_config l)) (lc_codec (lg_config l)) (lc_dict (lg_config l)) \<rparr>]" by blast
  obtain l' l'' where l': "log_append plain_zstd sample_env 3600000000005 0 sample_body l = Some (Inr 0, l')" "log_flush plain_zstd l' = (Inr (), l'')"
    using log_append_new [OF plain_zstd_ok _ _ l(2) _ l1(3,4) sample_fits(1) fits, of 3600000000005 0 sample_env] l1(1,2) st(2) now sample_buckets(2) sample_fits(3)
    by (auto simp: sample_meta_def)
  have "\<exists>side'. read_streams plain_zstd (lg_tree l'') (Stream None) (of_nat (length [(5 :: u64, sample_body)])) 10 (lg_side sample_log) = (Inr [], side')"
    using new_bucket_restarts_offsets [OF plain_zstd_ok _ l(1) _ _ sample_fits(1) fits _ _ l'(1) l'(2), of 1 "lg_side sample_log" 10] now sample_buckets(2)
    by (auto simp: sample_meta_def sample_log_def empty_log_def)
  then show ?thesis using l(1) l' by auto
qed

end
