(* ===== verification/Okm_Dyn_Codec.thy ===== *)
theory Okm_Dyn_Codec
  imports Okm_Meta
begin

text \<open>
  The schema-driven codec of dynamic tables: \<open>okm-dynamic/src/lib.rs\<close>, \<open>encode.rs\<close> and \<open>decode.rs\<close>
  over an exported \<open>CollectionSchema\<close>.

  A \<open>ValueMap\<close> is a \<open>BTreeMap\<close>, a list sorted by name. An \<open>f64\<close> is its 64 bits and an \<open>i64\<close> a 64-bit
  word; the arithmetic of \<open>quantize\<close> and \<open>dequantize\<close> is floating point and a parameter (\<open>None\<close> is
  the panic of a value out of range). The record of a schema holds the parts the codec reads.
\<close>

unbundle bit_operations_syntax

section \<open>Values and schemas\<close>

datatype dval =
    Val_U8 byte | Val_U16 u16 | Val_U32 u32 | Val_U64 u64 | Val_I64 u64 | Val_F64 u64 | Val_Bool bool | Val_Null
  | Val_Bytes bytes | Val_Str bytes | Val_Obj "(bytes \<times> dval) list" | Val_Array "dval list"

type_synonym value_map = "(bytes \<times> dval) list"

datatype codec_error =
    CUnknownField bytes | CMissingField bytes | CTypeMismatch bytes string | CTruncated bytes nat nat
  | CVersionMismatch byte byte | CUnknownTag byte | CInvalidUtf8 bytes | CColdFieldWithoutTag bytes | CColumn string
  | CPanic

type_synonym 'a coded = "codec_error + 'a"

datatype default_value = Def_U64 u64 | Def_I64 u64 | Def_F64 u64 | Def_Bool bool | Def_Str bytes | Def_ZeroBytes nat

record field_schema =
  sf_name :: bytes
  sf_ty :: field_type
  sf_width :: nat
  sf_offset :: nat
  sf_tag :: "byte option"
  sf_default :: "default_value option"
  sf_expect_len :: "nat option"

record collection_schema =
  cs_key_len :: nat
  cs_key_fields :: "field_schema list"
  cs_ns_prefix :: bytes
  cs_layout_version :: byte
  cs_hot_width :: nat
  cs_header_len :: nat
  cs_hot_fields :: "field_schema list"
  cs_cold_fields :: "field_schema list"

record float_ops =
  fo_quantize :: "u64 \<Rightarrow> u32 \<Rightarrow> u64 option"
  fo_dequantize :: "u64 \<Rightarrow> u32 \<Rightarrow> u64"

definition ascii_bytes :: "string \<Rightarrow> bytes" where
  "ascii_bytes s = map of_char s"

section \<open>The gate of every encode\<close>

definition accepts :: "field_type \<Rightarrow> dval \<Rightarrow> bool" where
  "accepts ty v = (case ty of
       FU8 \<Rightarrow> (case v of Val_U8 _ \<Rightarrow> True | _ \<Rightarrow> False)
     | FU16 \<Rightarrow> (case v of Val_U16 _ \<Rightarrow> True | _ \<Rightarrow> False)
     | FU32 \<Rightarrow> (case v of Val_U32 _ \<Rightarrow> True | _ \<Rightarrow> False)
     | FU64 \<Rightarrow> (case v of Val_U64 _ \<Rightarrow> True | _ \<Rightarrow> False)
     | FFixedBytes \<Rightarrow> (case v of Val_Bytes _ \<Rightarrow> True | _ \<Rightarrow> False)
     | FStr \<Rightarrow> (case v of Val_Str _ \<Rightarrow> True | _ \<Rightarrow> False)
     | FQuant _ \<Rightarrow> (case v of Val_F64 _ \<Rightarrow> True | _ \<Rightarrow> False)
     | FOffset _ \<Rightarrow> (case v of Val_I64 _ \<Rightarrow> True | _ \<Rightarrow> False)
     | FVarInt \<Rightarrow> (case v of Val_U64 _ \<Rightarrow> True | _ \<Rightarrow> False)
     | FVocab _ \<Rightarrow> (case v of Val_U8 _ \<Rightarrow> True | _ \<Rightarrow> False)
     | _ \<Rightarrow> False)"

definition kind_text :: "field_type \<Rightarrow> string" where
  "kind_text ty = (case ty of
       FU8 \<Rightarrow> ''U8'' | FU16 \<Rightarrow> ''U16'' | FU32 \<Rightarrow> ''U32'' | FU64 \<Rightarrow> ''U64'' | FFixedBytes \<Rightarrow> ''bytes''
     | FUuid4 \<Rightarrow> ''bytes (uuid)'' | FUuid7 \<Rightarrow> ''bytes (uuid)'' | FStr \<Rightarrow> ''string'' | FBytes \<Rightarrow> ''bytes''
     | FVarInt \<Rightarrow> ''U64 (VarInt storage form)'' | FQuant _ \<Rightarrow> ''U64 (fixed-point storage form)''
     | FVocab _ \<Rightarrow> ''U8 (vocab id)'' | FOffset _ \<Rightarrow> ''U64 (biased storage form)'' | FVector _ \<Rightarrow> ''bytes (flat LE vector)'')"

definition field_pair :: "bytes \<Rightarrow> field_type \<Rightarrow> value_map \<Rightarrow> dval coded" where
  "field_pair name ty m =
     (case map_of m name of
        None \<Rightarrow> Inl (CMissingField name)
      | Some v \<Rightarrow> if accepts ty v then Inr v else Inl (CTypeMismatch name (kind_text ty)))"

section \<open>Encoding\<close>

definition offset_bytes :: "u64 \<Rightarrow> u64 \<Rightarrow> bytes \<Rightarrow> bytes coded" where
  "offset_bytes value base name =
     (case checked_sub value base of
        Some d \<Rightarrow> if 0 \<le> d \<and> d \<le> 2 ^ 32 - 1 then Inr (to_be_bytes (of_int d :: u32))
                  else Inl (CTypeMismatch name ''an Offset value inside [base, base + 2^32) (u32 wire)'')
      | None \<Rightarrow> Inl (CTypeMismatch name ''an Offset value inside [base, base + 2^32) (u32 wire)''))"

definition quant_bytes :: "float_ops \<Rightarrow> u64 \<Rightarrow> u32 \<Rightarrow> bytes coded" where
  "quant_bytes F x p = (case fo_quantize F x p of None \<Rightarrow> Inl CPanic | Some w \<Rightarrow> Inr (to_be_bytes w))"

text \<open>One field of a key or a hot segment.\<close>

definition encode_field :: "float_ops \<Rightarrow> field_schema \<Rightarrow> value_map \<Rightarrow> bytes \<Rightarrow> bytes coded" where
  "encode_field F f values buf =
     rbind (field_pair (sf_name f) (sf_ty f) values) (\<lambda>v.
       case sf_ty f of
         FQuant p \<Rightarrow>
           (case v of Val_F64 x \<Rightarrow> rbind (quant_bytes F x p) (\<lambda>b. Inr (buf @ b))
            | _ \<Rightarrow> Inl (CTypeMismatch (sf_name f) ''f64 (Quant's logical value)''))
       | FOffset base \<Rightarrow>
           (case v of Val_I64 x \<Rightarrow> rbind (offset_bytes x base (sf_name f)) (\<lambda>b. Inr (buf @ b))
            | _ \<Rightarrow> Inl (CTypeMismatch (sf_name f) ''i64 (Offset's logical value)''))
       | FVarInt \<Rightarrow> Inl (CTypeMismatch (sf_name f) ''cold TLV (VarInt has no static width)'')
       | _ \<Rightarrow>
           (case v of
              Val_U8 x \<Rightarrow> Inr (buf @ [x])
            | Val_U16 x \<Rightarrow> Inr (buf @ to_be_bytes x)
            | Val_U32 x \<Rightarrow> Inr (buf @ to_be_bytes x)
            | Val_U64 x \<Rightarrow> Inr (buf @ to_be_bytes x)
            | Val_Bytes b \<Rightarrow>
                if length b \<noteq> sf_width f then Inl (CTruncated (sf_name f) (sf_width f) (length b)) else Inr (buf @ b)
            | Val_Str _ \<Rightarrow> Inl (CTypeMismatch (sf_name f) ''fixed-width (Str is a cold TLV kind)'')
            | _ \<Rightarrow> Inl (CTypeMismatch (sf_name f)
                ''fixed-width numeric/bytes (signed/float/bool/null are dynamic-segment kinds)'')))"

fun encode_walk :: "float_ops \<Rightarrow> field_schema list \<Rightarrow> value_map \<Rightarrow> bytes \<Rightarrow> bytes coded" where
  "encode_walk F [] values buf = Inr buf"
| "encode_walk F (f # fs) values buf = rbind (encode_field F f values buf) (encode_walk F fs values)"

definition encode_key :: "float_ops \<Rightarrow> collection_schema \<Rightarrow> value_map \<Rightarrow> bytes coded" where
  "encode_key F S values = encode_walk F (cs_key_fields S) values []"

definition cold_frame_bytes :: "float_ops \<Rightarrow> field_schema \<Rightarrow> dval \<Rightarrow> bytes coded" where
  "cold_frame_bytes F f v =
     (case sf_ty f of
        FVarInt \<Rightarrow> (case v of Val_U64 x \<Rightarrow> Inr (VarInt_encode x)
          | _ \<Rightarrow> Inl (CTypeMismatch (sf_name f) ''u64 (VarInt's logical value)''))
      | FQuant p \<Rightarrow> (case v of Val_F64 x \<Rightarrow> quant_bytes F x p
          | _ \<Rightarrow> Inl (CTypeMismatch (sf_name f) ''f64 (Quant's logical value)''))
      | FOffset base \<Rightarrow> (case v of Val_I64 x \<Rightarrow> offset_bytes x base (sf_name f)
          | _ \<Rightarrow> Inl (CTypeMismatch (sf_name f) ''i64 (Offset's logical value)''))
      | FVocab _ \<Rightarrow> (case v of Val_U8 x \<Rightarrow> Inr [x]
          | Val_Bytes b \<Rightarrow> if length b = sf_width f then Inr b
              else Inl (CTypeMismatch (sf_name f) ''the vocabulary id (u8 / width bytes)'')
          | _ \<Rightarrow> Inl (CTypeMismatch (sf_name f) ''the vocabulary id (u8 / width bytes)''))
      | FBytes \<Rightarrow> (case v of Val_Bytes b \<Rightarrow> Inr b | Val_Str s \<Rightarrow> Inr s
          | _ \<Rightarrow> Inl (CTypeMismatch (sf_name f) ''raw bytes''))
      | FFixedBytes \<Rightarrow> (case v of Val_Bytes b \<Rightarrow> if length b = sf_width f then Inr b
              else Inl (CTypeMismatch (sf_name f) ''bytes of the declared width'')
          | _ \<Rightarrow> Inl (CTypeMismatch (sf_name f) ''bytes of the declared width''))
      | FUuid4 \<Rightarrow> (case v of Val_Bytes b \<Rightarrow> if length b = 16 then Inr b
              else Inl (CTypeMismatch (sf_name f) ''bytes of a 16-byte uuid'')
          | _ \<Rightarrow> Inl (CTypeMismatch (sf_name f) ''bytes of a 16-byte uuid''))
      | FUuid7 \<Rightarrow> (case v of Val_Bytes b \<Rightarrow> if length b = 16 then Inr b
              else Inl (CTypeMismatch (sf_name f) ''bytes of a 16-byte uuid'')
          | _ \<Rightarrow> Inl (CTypeMismatch (sf_name f) ''bytes of a 16-byte uuid''))
      | FU8 \<Rightarrow> (case v of Val_U8 x \<Rightarrow> Inr [x] | _ \<Rightarrow> Inl (CTypeMismatch (sf_name f) ''u8''))
      | FU16 \<Rightarrow> (case v of Val_U16 x \<Rightarrow> Inr (to_be_bytes x) | _ \<Rightarrow> Inl (CTypeMismatch (sf_name f) ''u16''))
      | FU32 \<Rightarrow> (case v of Val_U32 x \<Rightarrow> Inr (to_be_bytes x) | _ \<Rightarrow> Inl (CTypeMismatch (sf_name f) ''u32''))
      | FU64 \<Rightarrow> (case v of Val_U64 x \<Rightarrow> Inr (to_be_bytes x) | _ \<Rightarrow> Inl (CTypeMismatch (sf_name f) ''u64''))
      | FStr \<Rightarrow> Inl (CTypeMismatch (sf_name f) ''Str (framed as UTF-8)'')
      | FVector _ \<Rightarrow> Inl (CTypeMismatch (sf_name f) ''a Vector frame''))"

fun encode_cold :: "float_ops \<Rightarrow> field_schema list \<Rightarrow> value_map \<Rightarrow> bytes \<Rightarrow> bytes coded" where
  "encode_cold F [] values buf = Inr buf"
| "encode_cold F (f # fs) values buf =
     rbind (field_pair (sf_name f) (sf_ty f) values) (\<lambda>v.
       case sf_tag f of
         None \<Rightarrow> Inl (CColdFieldWithoutTag (sf_name f))
       | Some tag \<Rightarrow>
           rbind (case v of Val_Str s \<Rightarrow> Inr s | _ \<Rightarrow> cold_frame_bytes F f v) (\<lambda>b.
             encode_cold F fs values (buf @ tag # put_len (length b) @ b)))"

definition encode_payload :: "float_ops \<Rightarrow> collection_schema \<Rightarrow> value_map \<Rightarrow> bytes coded" where
  "encode_payload F S values =
     rbind (encode_walk F (cs_hot_fields S) values []) (\<lambda>hot.
       if length hot \<noteq> cs_hot_width S then Inl (CTruncated (ascii_bytes ''<hot segment>'') (cs_hot_width S) (length hot))
       else encode_cold F (cs_cold_fields S) values (cs_layout_version S # be_bytes 2 (length hot) @ hot))"

definition find_named :: "field_schema list \<Rightarrow> bytes \<Rightarrow> field_schema option" where
  "find_named fs name = find (\<lambda>f. sf_name f = name) fs"

text \<open>The probe of an index: the named fields one after another.\<close>

fun encode_probe :: "float_ops \<Rightarrow> collection_schema \<Rightarrow> bytes list \<Rightarrow> value_map \<Rightarrow> bytes \<Rightarrow> bytes coded" where
  "encode_probe F S [] values buf = Inr buf"
| "encode_probe F S (name # names) values buf =
     (case find_named (cs_key_fields S @ cs_hot_fields S @ cs_cold_fields S) name of
        None \<Rightarrow> Inl (CUnknownField name)
      | Some f \<Rightarrow>
          rbind (if sf_width f = 0
                 then rbind (field_pair (sf_name f) (sf_ty f) values) (\<lambda>v.
                   case v of Val_Str s \<Rightarrow> Inr (buf @ s) | _ \<Rightarrow> Inl (CTypeMismatch (sf_name f) ''variable-width (Str)''))
                 else encode_field F f values buf) (encode_probe F S names values))"

section \<open>Decoding\<close>

definition need :: "bytes \<Rightarrow> nat \<Rightarrow> bytes \<Rightarrow> 'a option \<Rightarrow> 'a coded" where
  "need name width raw r = (case r of Some x \<Rightarrow> Inr x | None \<Rightarrow> Inl (CTruncated name width (length raw)))"

definition decode_fixed :: "float_ops \<Rightarrow> bytes \<Rightarrow> field_type \<Rightarrow> nat \<Rightarrow> bytes \<Rightarrow> dval coded" where
  "decode_fixed F name ty width raw =
     (case ty of
        FU8 \<Rightarrow> rbind (need name width raw (case raw of [] \<Rightarrow> None | x # _ \<Rightarrow> Some x)) (\<lambda>x. Inr (Val_U8 x))
      | FU16 \<Rightarrow> rbind (need name width raw (from_be_bytes raw)) (\<lambda>x. Inr (Val_U16 x))
      | FU32 \<Rightarrow> rbind (need name width raw (from_be_bytes raw)) (\<lambda>x. Inr (Val_U32 x))
      | FU64 \<Rightarrow> rbind (need name width raw (from_be_bytes raw)) (\<lambda>x. Inr (Val_U64 x))
      | FFixedBytes \<Rightarrow> Inr (Val_Bytes raw)
      | FUuid4 \<Rightarrow> if length raw < 16 then Inl (CTruncated name width (length raw)) else Inr (Val_Bytes (take 16 raw))
      | FUuid7 \<Rightarrow> if length raw < 16 then Inl (CTruncated name width (length raw)) else Inr (Val_Bytes (take 16 raw))
      | FQuant p \<Rightarrow> rbind (need name width raw (from_be_bytes raw)) (\<lambda>w. Inr (Val_F64 (fo_dequantize F w p)))
      | FOffset base \<Rightarrow> rbind (need name width raw (from_be_bytes raw)) (\<lambda>x :: u32. Inr (Val_I64 (base + ucast x)))
      | FVocab _ \<Rightarrow> Inr (Val_Bytes raw)
      | FVector _ \<Rightarrow> Inr (Val_Bytes raw)
      | _ \<Rightarrow> Inl (CTypeMismatch name ''hot-capable fixed-width kind''))"

text \<open>The fields of a key at their offsets, into the map.\<close>

fun decode_key_fields :: "float_ops \<Rightarrow> field_schema list \<Rightarrow> bytes \<Rightarrow> value_map \<Rightarrow> value_map coded" where
  "decode_key_fields F [] b out = Inr out"
| "decode_key_fields F (f # fs) b out =
     (if length b < sf_offset f + sf_width f then Inl CPanic
      else rbind (decode_fixed F (sf_name f) (sf_ty f) (sf_width f) (take (sf_width f) (drop (sf_offset f) b))) (\<lambda>v.
        decode_key_fields F fs b (bt_insert (sf_name f) v out)))"

definition decode_key :: "float_ops \<Rightarrow> collection_schema \<Rightarrow> bytes \<Rightarrow> value_map coded" where
  "decode_key F S b =
     (if length b < cs_key_len S then Inl (CTruncated (ascii_bytes ''<key>'') (cs_key_len S) (length b))
      else decode_key_fields F (cs_key_fields S) b [])"

text \<open>A hot field behind the end of the stored segment was appended later: left to the defaults.\<close>

fun decode_hot :: "float_ops \<Rightarrow> field_schema list \<Rightarrow> bytes \<Rightarrow> value_map \<Rightarrow> value_map coded" where
  "decode_hot F [] hot out = Inr out"
| "decode_hot F (f # fs) hot out =
     (if length hot < sf_offset f + sf_width f then decode_hot F fs hot out
      else rbind (decode_fixed F (sf_name f) (sf_ty f) (sf_width f) (take (sf_width f) (drop (sf_offset f) hot))) (\<lambda>v.
        decode_hot F fs hot (bt_insert (sf_name f) v out)))"

definition by_tag :: "field_schema list \<Rightarrow> byte \<Rightarrow> field_schema option" where
  "by_tag fs = map_of (rev (List.map_filter (\<lambda>f. map_option (\<lambda>t. (t, f)) (sf_tag f)) fs))"

definition decode_frame :: "float_ops \<Rightarrow> field_schema \<Rightarrow> bytes \<Rightarrow> dval coded" where
  "decode_frame F f value =
     (case sf_ty f of
        FStr \<Rightarrow> (case from_utf8 value of None \<Rightarrow> Inl (CInvalidUtf8 (sf_name f)) | Some s \<Rightarrow> Inr (Val_Str s))
      | FVector _ \<Rightarrow>
          if length value < 4 then Inl (CTruncated (sf_name f) 4 (length value))
          else (case sf_expect_len f of
                  Some expect \<Rightarrow> if be_val (take 4 value) \<noteq> expect
                    then Inl (CTypeMismatch (sf_name f) ''element count matching expect_len'') else Inr (Val_Bytes value)
                | None \<Rightarrow> Inr (Val_Bytes value))
      | FVarInt \<Rightarrow>
          (case value of
             [] \<Rightarrow> Inl (CTruncated (sf_name f) 1 0)
           | first # _ \<Rightarrow>
               let w = prefix_width first in
               if length value \<noteq> w then Inl (CTruncated (sf_name f) w (length value))
               else (case VarInt_decode value of None \<Rightarrow> Inl CPanic | Some (x, _) \<Rightarrow> Inr (Val_U64 x)))
      | FQuant p \<Rightarrow> rbind (need (sf_name f) 8 value (from_be_bytes value)) (\<lambda>w. Inr (Val_F64 (fo_dequantize F w p)))
      | FOffset base \<Rightarrow> rbind (need (sf_name f) 4 value (from_be_bytes value)) (\<lambda>x :: u32. Inr (Val_I64 (base + ucast x)))
      | _ \<Rightarrow> Inl (CTypeMismatch (sf_name f) ''cold-capable kind (Str / wrapper)''))"

text \<open>The frames from the position on; one with an unknown tag is skipped.\<close>

function decode_cold :: "float_ops \<Rightarrow> field_schema list \<Rightarrow> bytes \<Rightarrow> value_map \<Rightarrow> value_map coded" where
  "decode_cold F fs b out =
     (case b of
        [] \<Rightarrow> Inr out
      | tag # rest \<Rightarrow>
          (case take_len rest of
             None \<Rightarrow> Inl (CTruncated (ascii_bytes ''<cold len>'') 4 (length rest))
           | Some (len, n) \<Rightarrow>
               if length (drop n rest) < len then Inl (CTruncated (ascii_bytes ''<cold value>'') len (length (drop n rest)))
               else (case by_tag fs tag of
                       None \<Rightarrow> decode_cold F fs (drop len (drop n rest)) out
                     | Some f \<Rightarrow> rbind (decode_frame F f (take len (drop n rest))) (\<lambda>v.
                         decode_cold F fs (drop len (drop n rest)) (bt_insert (sf_name f) v out)))))"
  by pat_completeness auto

termination
  by (relation "measure (\<lambda>(_, _, b, _). length b)") auto

declare decode_cold.simps [simp del]

definition default_of :: "field_schema \<Rightarrow> dval" where
  "default_of f =
     (case sf_default f of
        Some (Def_U64 x) \<Rightarrow> Val_U64 x | Some (Def_I64 x) \<Rightarrow> Val_I64 x | Some (Def_F64 x) \<Rightarrow> Val_F64 x
      | Some (Def_Bool x) \<Rightarrow> Val_Bool x | Some (Def_Str x) \<Rightarrow> Val_Str x | Some (Def_ZeroBytes n) \<Rightarrow> Val_Bytes (replicate n 0)
      | None \<Rightarrow>
          (case sf_ty f of
             FU8 \<Rightarrow> Val_U8 0 | FU16 \<Rightarrow> Val_U16 0 | FU32 \<Rightarrow> Val_U32 0 | FU64 \<Rightarrow> Val_U64 0
           | FOffset base \<Rightarrow> Val_I64 base | FQuant _ \<Rightarrow> Val_F64 0 | FVarInt \<Rightarrow> Val_U64 0 | FStr \<Rightarrow> Val_Str []
           | FBytes \<Rightarrow> Val_Bytes (replicate (sf_width f) 0) | FFixedBytes \<Rightarrow> Val_Bytes (replicate (sf_width f) 0)
           | FUuid4 \<Rightarrow> Val_Bytes (replicate 16 0) | FUuid7 \<Rightarrow> Val_Bytes (replicate 16 0)
           | FVocab _ \<Rightarrow> Val_Bytes (replicate (sf_width f) 0) | FVector _ \<Rightarrow> Val_Bytes [0, 0, 0, 0]))"

definition fill_schema_defaults :: "collection_schema \<Rightarrow> value_map \<Rightarrow> value_map" where
  "fill_schema_defaults S out =
     foldl (\<lambda>out f. if map_of out (sf_name f) \<noteq> None then out else bt_insert (sf_name f) (default_of f) out) out
       (cs_hot_fields S @ cs_cold_fields S)"

definition decode_row_payload :: "float_ops \<Rightarrow> collection_schema \<Rightarrow> bytes \<Rightarrow> value_map coded" where
  "decode_row_payload F S b =
     (let hdr = cs_header_len S in
      if length b < hdr then Inl (CTruncated (ascii_bytes ''<payload header>'') hdr (length b))
      else if length b < 3 then Inl CPanic
      else if cs_layout_version S < b ! 0 then Inl (CVersionMismatch (cs_layout_version S) (b ! 0))
      else
        let hot_len = be_val [b ! 1, b ! 2] in
        if length b < hdr + hot_len then Inl (CTruncated (ascii_bytes ''<hot segment>'') hot_len (length b - hdr))
        else rbind (decode_hot F (cs_hot_fields S) (take hot_len (drop hdr b)) []) (\<lambda>out.
          rbind (decode_cold F (cs_cold_fields S) (drop (hdr + hot_len) b) out) (\<lambda>out.
            Inr (fill_schema_defaults S out))))"

text \<open>
  The label of every hot vocabulary field whose id the table knows. \<open>from_id_slot\<close> has a face for every
  id slot, so its error branch is never taken.
\<close>

fun resolve_vocab_labels :: "'s storage \<Rightarrow> 's \<Rightarrow> bytes \<Rightarrow> field_schema list \<Rightarrow> value_map \<Rightarrow> value_map result" where
  "resolve_vocab_labels S s header [] values = Inr values"
| "resolve_vocab_labels S s header (f # fs) values =
     (case (sf_ty f, map_of values (sf_name f)) of
        (FVocab i, Some (Val_Bytes raw)) \<Rightarrow>
          (case from_id_slot i of
             None \<Rightarrow> Inl (Engine ''slot'')
           | Some faces \<Rightarrow>
               rbind (vocab_label S s header faces raw) (\<lambda>l.
                 resolve_vocab_labels S s header fs (case l of Some t \<Rightarrow> bt_insert (sf_name f) (Val_Str t) values | None \<Rightarrow> values)))
      | _ \<Rightarrow> resolve_vocab_labels S s header fs values)"


section \<open>Well-formed schemas and rows\<close>

text \<open>The widths of the fixed-width kinds, as \<open>CollectionSchema::of\<close> exports them.\<close>

definition hot_kind :: "field_schema \<Rightarrow> bool" where
  "hot_kind f \<longleftrightarrow> (case sf_ty f of
       FU8 \<Rightarrow> sf_width f = 1 | FU16 \<Rightarrow> sf_width f = 2 | FU32 \<Rightarrow> sf_width f = 4 | FU64 \<Rightarrow> sf_width f = 8
     | FFixedBytes \<Rightarrow> 0 < sf_width f | FQuant _ \<Rightarrow> sf_width f = 8 | FOffset _ \<Rightarrow> sf_width f = 4 | FVocab _ \<Rightarrow> sf_width f = 1
     | FUuid4 \<Rightarrow> sf_width f = 16 | FUuid7 \<Rightarrow> sf_width f = 16 | FVector _ \<Rightarrow> 0 < sf_width f | _ \<Rightarrow> False)"

definition cold_kind :: "field_schema \<Rightarrow> bool" where
  "cold_kind f \<longleftrightarrow> (case sf_ty f of FStr \<Rightarrow> True | FVarInt \<Rightarrow> True | FQuant _ \<Rightarrow> True | FOffset _ \<Rightarrow> True | FBytes \<Rightarrow> True | FVector _ \<Rightarrow> True | _ \<Rightarrow> False)"

text \<open>A value its kind can carry: in the window of an offset, exact under a quantisation, UTF-8 text.\<close>

definition value_fits :: "float_ops \<Rightarrow> field_schema \<Rightarrow> dval \<Rightarrow> bool" where
  "value_fits F f v \<longleftrightarrow> accepts (sf_ty f) v \<and> (case (sf_ty f, v) of
       (FQuant p, Val_F64 x) \<Rightarrow> (\<exists>w. fo_quantize F x p = Some w \<and> fo_dequantize F w p = x)
     | (FVarInt, Val_U64 x) \<Rightarrow> unat x < 2 ^ 49 \<or> 2 ^ 56 \<le> unat x
     | (FStr, Val_Str s) \<Rightarrow> utf8_valid s \<and> length s < 2 ^ 49
     | (FFixedBytes, Val_Bytes b) \<Rightarrow> length b = sf_width f
     | (FOffset base, Val_I64 x) \<Rightarrow> 0 \<le> sint x - sint base \<and> sint x - sint base < 2 ^ 32
     | _ \<Rightarrow> True)"

definition row_fits :: "float_ops \<Rightarrow> field_schema list \<Rightarrow> value_map \<Rightarrow> bool" where
  "row_fits F fs m \<longleftrightarrow> (\<forall>f \<in> set fs. \<exists>v. map_of m (sf_name f) = Some v \<and> value_fits F f v)"

text \<open>What a value reads back as: an id comes back as its byte.\<close>

definition read_form :: "dval \<Rightarrow> field_type \<Rightarrow> dval" where
  "read_form v ty = (case (ty, v) of (FVocab _, Val_U8 x) \<Rightarrow> Val_Bytes [x] | _ \<Rightarrow> v)"

fun laid_out :: "nat \<Rightarrow> field_schema list \<Rightarrow> bool" where
  "laid_out off [] = True"
| "laid_out off (f # fs) \<longleftrightarrow> sf_offset f = off \<and> hot_kind f \<and> sf_tag f = None \<and> laid_out (off + sf_width f) fs"

definition schema_ok :: "collection_schema \<Rightarrow> bool" where
  "schema_ok S \<longleftrightarrow> cs_header_len S = 3 \<and> laid_out 0 (cs_hot_fields S) \<and> cs_hot_width S = sum_list (map sf_width (cs_hot_fields S)) \<and>
     cs_hot_width S < 65536 \<and> (\<forall>f \<in> set (cs_cold_fields S). cold_kind f \<and> sf_tag f \<noteq> None) \<and>
     distinct (map sf_tag (cs_cold_fields S)) \<and> distinct (map sf_name (cs_hot_fields S @ cs_cold_fields S))"

lemma dyn_from_to_be_bytes: "from_be_bytes (to_be_bytes (v :: u16)) = Some v" "from_be_bytes (to_be_bytes (w :: u32)) = Some w"
    "from_be_bytes (to_be_bytes (x :: u64)) = Some x"
  using unsigned_less [of v, where ?'a = nat] unsigned_less [of w, where ?'a = nat] unsigned_less [of x, where ?'a = nat]
  by (simp_all add: from_be_bytes_def to_be_bytes_def)

lemma dyn_length_to_be_bytes: "length (to_be_bytes (v :: u16)) = 2" "length (to_be_bytes (w :: u32)) = 4" "length (to_be_bytes (x :: u64)) = 8"
  by (simp_all add: to_be_bytes_def)

lemma ucast_of_int_u32:
  assumes "0 \<le> d" "d < 2 ^ 32"
  shows "(ucast (word_of_int d :: u32) :: u64) = word_of_int d"
proof -
  have "uint (word_of_int d :: u32) = d" using assms by (simp add: uint_word_of_int)
  then show ?thesis by (metis ucast_eq)
qed

lemma offset_bytes_fits:
  assumes "0 \<le> sint x - sint base" "sint x - sint base < 2 ^ 32"
  shows "\<exists>u :: u32. offset_bytes x base n = Inr (to_be_bytes u) \<and> base + ucast u = x"
proof -
  let ?u = "word_of_int (sint x - sint base) :: u32"
  have "base + ucast ?u = base + word_of_int (sint x - sint base)" by (simp only: ucast_of_int_u32 [OF assms])
  also have "\<dots> = x" by simp
  finally have "base + ucast ?u = x" .
  moreover have "offset_bytes x base n = Inr (to_be_bytes ?u)" using assms by (simp add: offset_bytes_def checked_sub_def Let_def)
  ultimately show ?thesis by blast
qed

lemma encode_field_image:
  assumes "hot_kind f" "map_of m (sf_name f) = Some v" "value_fits F f v"
  shows "\<exists>x. (\<forall>buf. encode_field F f m buf = Inr (buf @ x)) \<and> length x = sf_width f \<and>
    decode_fixed F (sf_name f) (sf_ty f) (sf_width f) x = Inr (read_form v (sf_ty f))"
proof (cases "sf_ty f")
  case (FQuant p)
  then show ?thesis using assms
    by (auto simp: hot_kind_def value_fits_def accepts_def encode_field_def field_pair_def quant_bytes_def decode_fixed_def need_def
        read_form_def dyn_from_to_be_bytes dyn_length_to_be_bytes split: dval.splits)
next
  case (FOffset base)
  then obtain x where v: "v = Val_I64 x" using assms(3) by (auto simp: value_fits_def accepts_def split: dval.splits)
  then obtain u :: u32 where u: "offset_bytes x base (sf_name f) = Inr (to_be_bytes u)" "base + ucast u = x"
    using offset_bytes_fits [of x base "sf_name f"] assms(3) FOffset by (auto simp: value_fits_def)
  then show ?thesis using assms FOffset v
    by (auto simp: hot_kind_def value_fits_def encode_field_def field_pair_def decode_fixed_def need_def read_form_def
        dyn_from_to_be_bytes dyn_length_to_be_bytes)
qed (use assms in \<open>auto simp: hot_kind_def value_fits_def accepts_def encode_field_def field_pair_def decode_fixed_def need_def
      read_form_def dyn_from_to_be_bytes dyn_length_to_be_bytes split: dval.splits\<close>)

lemma encode_walk_image:
  assumes "laid_out off fs" "row_fits F fs m"
  shows "\<exists>xs. (\<forall>buf. encode_walk F fs m buf = Inr (buf @ concat xs)) \<and>
    list_all2 (\<lambda>f x. length x = sf_width f \<and> decode_fixed F (sf_name f) (sf_ty f) (sf_width f) x =
      Inr (read_form (the (map_of m (sf_name f))) (sf_ty f))) fs xs"
  using assms
proof (induction fs arbitrary: off)
  case (Cons f fs)
  obtain v where v: "map_of m (sf_name f) = Some v" "value_fits F f v" using Cons.prems(2) by (auto simp: row_fits_def)
  obtain x where x: "\<forall>buf. encode_field F f m buf = Inr (buf @ x)" "length x = sf_width f"
    "decode_fixed F (sf_name f) (sf_ty f) (sf_width f) x = Inr (read_form v (sf_ty f))"
    using encode_field_image [OF _ v] Cons.prems(1) by auto
  have "row_fits F fs m" using Cons.prems(2) by (simp add: row_fits_def)
  then obtain xs where "\<forall>buf. encode_walk F fs m buf = Inr (buf @ concat xs)"
    "list_all2 (\<lambda>f x. length x = sf_width f \<and> decode_fixed F (sf_name f) (sf_ty f) (sf_width f) x =
      Inr (read_form (the (map_of m (sf_name f))) (sf_ty f))) fs xs"
    using Cons.IH [of "off + sf_width f"] Cons.prems(1) by auto
  then show ?case using x v(1) by (intro exI [of _ "x # xs"]) auto
qed (simp add: exI [of _ "[]"])

lemma laid_out_slices:
  assumes "laid_out (length pre) fs" "list_all2 (\<lambda>f x. length x = sf_width f) fs xs" "(f, x) \<in> set (zip fs xs)"
  shows "take (sf_width f) (drop (sf_offset f) (pre @ concat xs)) = x \<and> sf_offset f + sf_width f \<le> length (pre @ concat xs)"
  using assms(2,1,3)
proof (induction fs xs arbitrary: pre rule: list_all2_induct)
  case (Cons g fs y ys)
  show ?case
  proof (cases "(f, x) = (g, y)")
    case False
    have "laid_out (length (pre @ y)) fs" using Cons.prems(1) Cons.hyps(1) by simp
    then show ?thesis using Cons.IH [of "pre @ y"] Cons.prems(2) False by auto
  qed (use Cons in auto)
qed simp

text \<open>Fields behind the end of a segment.\<close>

lemma laid_out_append: "laid_out off (fs @ gs) \<longleftrightarrow> laid_out off fs \<and> laid_out (off + sum_list (map sf_width fs)) gs"
  by (induction fs arbitrary: off) (auto simp: add.assoc)

lemma laid_out_offset: "laid_out off fs \<Longrightarrow> f \<in> set fs \<Longrightarrow> off \<le> sf_offset f \<and> 0 < sf_width f \<and> sf_tag f = None"
  by (induction fs arbitrary: off) (fastforce simp: hot_kind_def split: field_type.splits)+


section \<open>Reading back\<close>

text \<open>A run of insertions of the fields that satisfy a test.\<close>

definition put_where :: "(field_schema \<Rightarrow> bool) \<Rightarrow> (field_schema \<Rightarrow> dval) \<Rightarrow> field_schema list \<Rightarrow> value_map \<Rightarrow> value_map" where
  "put_where P g fs out = foldl (\<lambda>out f. if P f then bt_insert (sf_name f) (g f) out else out) out fs"

lemma put_where_simps [simp]:
  "put_where P g [] out = out"
  "put_where P g (f # fs) out = put_where P g fs (if P f then bt_insert (sf_name f) (g f) out else out)"
  by (simp_all add: put_where_def)

lemma find_named_simps [simp]:
  "find_named [] n = None"
  "find_named (f # fs) n = (if sf_name f = n then Some f else find_named fs n)"
  by (simp_all add: find_named_def)

lemma find_named_append: "find_named (fs @ gs) n = (case find_named fs n of Some f \<Rightarrow> Some f | None \<Rightarrow> find_named gs n)"
  by (induction fs) auto

lemma find_named_mem: "find_named fs n = Some f \<Longrightarrow> f \<in> set fs \<and> sf_name f = n"
  by (induction fs) (auto split: if_splits)

lemma find_named_None: "find_named fs n = None \<longleftrightarrow> n \<notin> sf_name ` set fs"
  by (induction fs) auto

lemma find_named_eq: "distinct (map sf_name fs) \<Longrightarrow> f \<in> set fs \<Longrightarrow> find_named fs (sf_name f) = Some f"
  by (induction fs) (auto simp: image_iff)

lemma put_where_spec:
  assumes "sorted_wrt (<) (map fst out)" "distinct (map sf_name fs)"
  shows "sorted_wrt (<) (map fst (put_where P g fs out)) \<and>
    map_of (put_where P g fs out) n = (case find_named fs n of Some f \<Rightarrow> if P f then Some (g f) else map_of out n | None \<Rightarrow> map_of out n)"
  using assms
proof (induction fs arbitrary: out)
  case (Cons f fs)
  let ?out = "if P f then bt_insert (sf_name f) (g f) out else out"
  have s: "sorted_wrt (<) (map fst ?out)" using Cons.prems(1) by (simp add: bt_insert_sorted)
  have "find_named fs (sf_name f) = None" using Cons.prems(2) by (simp add: find_named_None)
  then show ?case using Cons.IH [OF s] Cons.prems by (auto simp: bt_insert_map split: option.splits)
qed simp

lemma fill_spec:
  assumes "sorted_wrt (<) (map fst out)" "distinct (map sf_name (cs_hot_fields S @ cs_cold_fields S))"
  shows "map_of (fill_schema_defaults S out) n =
    (case map_of out n of Some v \<Rightarrow> Some v | None \<Rightarrow> map_option default_of (find_named (cs_hot_fields S @ cs_cold_fields S) n))"
proof -
  have fill: "sorted_wrt (<) (map fst out) \<Longrightarrow> distinct (map sf_name fs) \<Longrightarrow>
    map_of (foldl (\<lambda>out f. if map_of out (sf_name f) \<noteq> None then out else bt_insert (sf_name f) (default_of f) out) out fs) n =
      (case map_of out n of Some v \<Rightarrow> Some v | None \<Rightarrow> map_option default_of (find_named fs n))" for fs
  proof (induction fs arbitrary: out)
    case (Cons f fs)
    let ?out = "if map_of out (sf_name f) \<noteq> None then out else bt_insert (sf_name f) (default_of f) out"
    have s: "sorted_wrt (<) (map fst ?out)" using Cons.prems(1) by (simp add: bt_insert_sorted)
    have "find_named fs (sf_name f) = None" using Cons.prems(2) by (simp add: find_named_None)
    then show ?case using Cons.IH [OF s] Cons.prems by (auto simp: bt_insert_map split: option.splits)
  qed (simp split: option.split)
  show ?thesis unfolding fill_schema_defaults_def by (rule fill [OF assms])
qed

lemma decode_hot_put:
  assumes "\<And>f. f \<in> set fs \<Longrightarrow> sf_offset f + sf_width f \<le> length hot \<Longrightarrow>
    decode_fixed F (sf_name f) (sf_ty f) (sf_width f) (take (sf_width f) (drop (sf_offset f) hot)) = Inr (g f)"
  shows "decode_hot F fs hot out = Inr (put_where (\<lambda>f. sf_offset f + sf_width f \<le> length hot) g fs out)"
  using assms by (induction fs arbitrary: out) (auto simp: not_less)

text \<open>The frame of a cold field and its reading.\<close>

lemma cold_frame_image:
  assumes "cold_kind f" "value_fits F f v"
  shows "\<exists>b. (case v of Val_Str s \<Rightarrow> Inr s | _ \<Rightarrow> cold_frame_bytes F f v) = Inr b \<and> length b < 2 ^ 49 \<and> decode_frame F f b = Inr v"
proof (cases "sf_ty f")
  case FStr
  then show ?thesis using assms by (auto simp: value_fits_def accepts_def decode_frame_def from_utf8_def split: dval.splits)
next
  case FVarInt
  then obtain x where v: "v = Val_U64 x" using assms(2) by (auto simp: value_fits_def accepts_def split: dval.splits)
  then have d: "varint_decode (varint_encode x) = Some (x, width_of x)"
    using varint_decode_encode [of x "[]"] assms(2) FVarInt by (auto simp: value_fits_def)
  obtain b0 bs where e: "varint_encode x = b0 # bs" by (cases "varint_encode x") (use d in \<open>auto simp: varint_decode_def\<close>)
  have "prefix_width b0 = length (varint_encode x)" using d e length_varint_encode [of x]
    by (auto simp: varint_decode_def Let_def split: if_splits)
  moreover have "width_of x < 2 ^ 49" by (cases x rule: width_of_spec) auto
  ultimately show ?thesis using d e FVarInt v length_varint_encode [of x]
    by (auto simp: cold_frame_bytes_def decode_frame_def VarInt_encode_def VarInt_decode_def Let_def)
next
  case (FQuant p)
  then show ?thesis using assms(2)
    by (auto simp: value_fits_def accepts_def cold_frame_bytes_def quant_bytes_def decode_frame_def need_def dyn_from_to_be_bytes
        dyn_length_to_be_bytes split: dval.splits)
next
  case (FOffset base)
  then obtain x where v: "v = Val_I64 x" using assms(2) by (auto simp: value_fits_def accepts_def split: dval.splits)
  then obtain u :: u32 where "offset_bytes x base (sf_name f) = Inr (to_be_bytes u)" "base + ucast u = x"
    using offset_bytes_fits [of x base "sf_name f"] assms(2) FOffset by (auto simp: value_fits_def)
  then show ?thesis using FOffset v
    by (auto simp: cold_frame_bytes_def decode_frame_def need_def dyn_from_to_be_bytes dyn_length_to_be_bytes)
qed (use assms in \<open>auto simp: cold_kind_def value_fits_def accepts_def\<close>)

lemma decode_cold_frame:
  assumes "length b < 2 ^ 49"
  shows "decode_cold F fs (tag # put_len (length b) @ b @ rest) out =
    (case by_tag fs tag of None \<Rightarrow> decode_cold F fs rest out
     | Some f \<Rightarrow> rbind (decode_frame F f b) (\<lambda>v. decode_cold F fs rest (bt_insert (sf_name f) v out)))"
  using take_len_put [of "length b" "b @ rest"] assms by (subst decode_cold.simps) (simp split: option.split)

lemma encode_cold_image:
  assumes "\<And>f. f \<in> set fs \<Longrightarrow> cold_kind f \<and> sf_tag f \<noteq> None" "row_fits F fs m"
    and "\<And>f g. f \<in> set fs \<Longrightarrow> by_tag rs (the (sf_tag f)) = Some g \<Longrightarrow> g = f"
  shows "\<exists>b. (\<forall>buf. encode_cold F fs m buf = Inr (buf @ b)) \<and>
    (\<forall>out. decode_cold F rs b out =
      Inr (put_where (\<lambda>f. by_tag rs (the (sf_tag f)) = Some f) (\<lambda>f. the (map_of m (sf_name f))) fs out))"
  using assms
proof (induction fs)
  case Nil
  then show ?case by (simp add: decode_cold.simps)
next
  case (Cons f fs)
  obtain v where v: "map_of m (sf_name f) = Some v" "value_fits F f v" using Cons.prems(2) by (auto simp: row_fits_def)
  obtain t where t: "sf_tag f = Some t" using Cons.prems(1) [of f] by auto
  obtain x where x: "(case v of Val_Str s \<Rightarrow> Inr s | _ \<Rightarrow> cold_frame_bytes F f v) = Inr x" "length x < 2 ^ 49" "decode_frame F f x = Inr v"
    using cold_frame_image [OF _ v(2)] Cons.prems(1) [of f] by auto
  have "row_fits F fs m" using Cons.prems(2) by (simp add: row_fits_def)
  then obtain b where b: "\<forall>buf. encode_cold F fs m buf = Inr (buf @ b)"
    "\<forall>out. decode_cold F rs b out =
      Inr (put_where (\<lambda>f. by_tag rs (the (sf_tag f)) = Some f) (\<lambda>f. the (map_of m (sf_name f))) fs out)"
    using Cons.IH Cons.prems(1,3) by auto
  have pair: "field_pair (sf_name f) (sf_ty f) m = Inr v" using v by (simp add: field_pair_def value_fits_def)
  have step: "decode_cold F rs ((t # put_len (length x) @ x) @ b) out =
      Inr (put_where (\<lambda>f. by_tag rs (the (sf_tag f)) = Some f) (\<lambda>f. the (map_of m (sf_name f))) (f # fs) out)" for out
  proof (cases "by_tag rs t")
    case None
    then show ?thesis using b(2) t by (simp add: decode_cold_frame [OF x(2)])
  next
    case (Some g)
    then have "g = f" using Cons.prems(3) [of f g] t by simp
    then show ?thesis using Some b(2) t x(3) v(1) by (simp add: decode_cold_frame [OF x(2)])
  qed
  have "encode_cold F (f # fs) m buf = Inr (buf @ (t # put_len (length x) @ x) @ b)" for buf
    using pair t x(1) b(1) by simp
  then show ?case using step by (intro exI [of _ "(t # put_len (length x) @ x) @ b"]) blast
qed

lemma by_tag_mem: "distinct (map sf_tag fs) \<Longrightarrow> \<forall>f \<in> set fs. sf_tag f \<noteq> None \<Longrightarrow> by_tag fs t = Some f \<longleftrightarrow> f \<in> set fs \<and> sf_tag f = Some t"
proof -
  assume d: "distinct (map sf_tag fs)" and n: "\<forall>f \<in> set fs. sf_tag f \<noteq> None"
  have eq: "List.map_filter (\<lambda>f. map_option (\<lambda>t. (t, f)) (sf_tag f)) fs = map (\<lambda>f. (the (sf_tag f), f)) fs"
    using n by (induction fs) (auto simp: List.map_filter_simps)
  have "map sf_tag fs = map Some (map (\<lambda>f. the (sf_tag f)) fs)" using n by simp
  then have "distinct (map (\<lambda>f. the (sf_tag f)) fs)" using d distinct_map by metis
  then have "distinct (rev (map (\<lambda>f. the (sf_tag f)) fs))" by (simp only: distinct_rev)
  then have "distinct (map fst (rev (map (\<lambda>f. (the (sf_tag f), f)) fs)))" by (simp add: rev_map comp_def)
  then have "by_tag fs t = Some f \<longleftrightarrow> (t, f) \<in> set (map (\<lambda>f. (the (sf_tag f), f)) fs)"
    unfolding by_tag_def eq by (simp only: map_of_eq_Some_iff set_rev)
  then show ?thesis using n by force
qed


text \<open>
  Two layouts of one table: the shorter hot segment starts the longer one, equal tags are equal cold
  fields, and the reader is not older than the writer.
\<close>

definition reads_from :: "collection_schema \<Rightarrow> collection_schema \<Rightarrow> bool" where
  "reads_from R W \<longleftrightarrow> (prefix (cs_hot_fields W) (cs_hot_fields R) \<or> prefix (cs_hot_fields R) (cs_hot_fields W)) \<and>
     (\<forall>f \<in> set (cs_cold_fields W). \<forall>g \<in> set (cs_cold_fields R). sf_tag f = sf_tag g \<longrightarrow> f = g) \<and>
     cs_layout_version W \<le> cs_layout_version R"

definition expected :: "collection_schema \<Rightarrow> collection_schema \<Rightarrow> value_map \<Rightarrow> bytes \<Rightarrow> dval option" where
  "expected R W m n =
     map_option (\<lambda>f. if f \<in> set (cs_hot_fields W @ cs_cold_fields W) then read_form (the (map_of m n)) (sf_ty f) else default_of f)
       (find_named (cs_hot_fields R @ cs_cold_fields R) n)"

lemma hot_cases:
  assumes "laid_out 0 hr" "laid_out 0 hw" "prefix hw hr \<or> prefix hr hw" "f \<in> set hr"
  shows "f \<in> set hw \<or> sum_list (map sf_width hw) < sf_offset f + sf_width f"
  using assms(3)
proof
  assume "prefix hw hr"
  then obtain gs where hr: "hr = hw @ gs" by (auto elim: prefixE)
  show ?thesis
  proof (cases "f \<in> set hw")
    case False
    then have "f \<in> set gs" using assms(4) hr by simp
    then show ?thesis using laid_out_offset [of "sum_list (map sf_width hw)" gs f] assms(1) hr by (auto simp: laid_out_append)
  qed simp
next
  assume "prefix hr hw"
  then show ?thesis using assms(4) set_mono_prefix by blast
qed

lemma images_length: "list_all2 (\<lambda>f x. length x = sf_width f) fs xs \<Longrightarrow> length (concat xs) = sum_list (map sf_width fs)"
  by (induction fs xs rule: list_all2_induct) auto

lemma payload_spec:
  assumes "schema_ok W" "schema_ok R" "reads_from R W" "row_fits F (cs_hot_fields W @ cs_cold_fields W) m"
  shows "\<exists>b m'. encode_payload F W m = Inr b \<and> decode_row_payload F R b = Inr m' \<and> map_of m' = expected R W m"
proof -
  let ?hw = "cs_hot_fields W" and ?hr = "cs_hot_fields R" and ?cw = "cs_cold_fields W" and ?cr = "cs_cold_fields R"
  let ?g = "\<lambda>f. read_form (the (map_of m (sf_name f))) (sf_ty f)"
  have w: "laid_out 0 ?hw" "cs_hot_width W = sum_list (map sf_width ?hw)" "cs_hot_width W < 65536"
    and r: "laid_out 0 ?hr" "cs_header_len R = 3"
    using assms(1,2) by (simp_all add: schema_ok_def)
  have rows: "row_fits F ?hw m" "row_fits F ?cw m" using assms(4) by (simp_all add: row_fits_def)
  obtain xs where xs: "\<forall>buf. encode_walk F ?hw m buf = Inr (buf @ concat xs)"
    and all: "list_all2 (\<lambda>f x. length x = sf_width f \<and> decode_fixed F (sf_name f) (sf_ty f) (sf_width f) x = Inr (?g f)) ?hw xs"
    using encode_walk_image [OF w(1) rows(1)] by blast
  have lens: "list_all2 (\<lambda>f x. length x = sf_width f) ?hw xs" by (rule list_all2_mono [OF all]) simp
  have width: "length (concat xs) = cs_hot_width W"
    using images_length [OF lens] w(2) by simp
  have slice: "sf_offset f + sf_width f \<le> length (concat xs) \<and>
      decode_fixed F (sf_name f) (sf_ty f) (sf_width f) (take (sf_width f) (drop (sf_offset f) (concat xs))) = Inr (?g f)"
    if "f \<in> set ?hw" for f
  proof -
    have "f \<in> set (map fst (zip ?hw xs))" using that list_all2_lengthD [OF lens] by simp
    then obtain x where x: "(f, x) \<in> set (zip ?hw xs)" by auto
    then have "decode_fixed F (sf_name f) (sf_ty f) (sf_width f) x = Inr (?g f)" using all by (auto simp: list_all2_iff)
    then show ?thesis using laid_out_slices [of "[]" ?hw xs f x] w(1) lens x by simp
  qed
  have hot_iff: "sf_offset f + sf_width f \<le> length (concat xs) \<longleftrightarrow> f \<in> set ?hw" if "f \<in> set ?hr" for f
    using hot_cases [OF r(1) w(1) _ that] assms(3) slice [of f] width w(2) by (auto simp: reads_from_def)
  have tags: "by_tag ?cr t = Some f \<longleftrightarrow> f \<in> set ?cr \<and> sf_tag f = Some t" for t f
    using assms(2) by (intro by_tag_mem) (simp_all add: schema_ok_def)
  have cw: "cold_kind f \<and> sf_tag f \<noteq> None" if "f \<in> set ?cw" for f using that assms(1) by (simp add: schema_ok_def)
  have same: "g = f" if mem: "f \<in> set ?cw" and tg: "by_tag ?cr (the (sf_tag f)) = Some g" for f g
  proof -
    obtain t where t: "sf_tag f = Some t" using cw [OF mem] by auto
    have compat: "\<forall>f \<in> set ?cw. \<forall>g \<in> set ?cr. sf_tag f = sf_tag g \<longrightarrow> f = g" using assms(3) unfolding reads_from_def by blast
    have "by_tag ?cr t = Some g" using tg t by simp
    then have "g \<in> set ?cr" "sf_tag g = sf_tag f" unfolding tags t by simp_all
    then show ?thesis using compat mem by metis
  qed
  have "\<exists>b. (\<forall>buf. encode_cold F ?cw m buf = Inr (buf @ b)) \<and>
    (\<forall>out. decode_cold F ?cr b out =
      Inr (put_where (\<lambda>f. by_tag ?cr (the (sf_tag f)) = Some f) (\<lambda>f. the (map_of m (sf_name f))) ?cw out))"
    by (rule encode_cold_image) (fact cw, fact rows(2), fact same)
  then obtain b where b: "\<forall>buf. encode_cold F ?cw m buf = Inr (buf @ b)"
    "\<forall>out. decode_cold F ?cr b out = Inr (put_where (\<lambda>f. by_tag ?cr (the (sf_tag f)) = Some f) (\<lambda>f. the (map_of m (sf_name f))) ?cw out)"
    by (elim exE conjE)
  let ?payload = "cs_layout_version W # be_bytes 2 (length (concat xs)) @ concat xs @ b"
  have enc: "encode_payload F W m = Inr ?payload" using xs b(1) width by (simp add: encode_payload_def)
  let ?h = "put_where (\<lambda>f. sf_offset f + sf_width f \<le> length (concat xs)) ?g ?hr []"
  let ?c = "put_where (\<lambda>f. by_tag ?cr (the (sf_tag f)) = Some f) (\<lambda>f. the (map_of m (sf_name f))) ?cw ?h"
  have hot: "decode_hot F ?hr (concat xs) [] = Inr ?h" by (rule decode_hot_put) (use hot_iff slice in blast)
  have len: "be_val (be_bytes 2 (length (concat xs))) = length (concat xs)" by (rule be_val_be_bytes) (use width w(3) in simp)
  have dec: "decode_row_payload F R ?payload = Inr (fill_schema_defaults R ?c)"
  proof -
    obtain h l where hl: "be_bytes 2 (length (concat xs)) = [h, l]" by (simp only: be_bytes_2)
    have "cs_layout_version W \<le> cs_layout_version R" using assms(3) by (simp only: reads_from_def)
    then show ?thesis using len b(2) hot unfolding decode_row_payload_def Let_def r(2) hl
      by (simp add: not_less eval_nat_numeral del: be_val.simps concat_append)
  qed
  have dr: "distinct (map sf_name (?hr @ ?cr))" "distinct (map sf_name ?hr)" "distinct (map sf_name ?cw)" "distinct (map sf_name ?hw)"
    using assms(1,2) by (simp_all add: schema_ok_def)
  let ?P = "\<lambda>f. sf_offset f + sf_width f \<le> length (concat xs)" and ?Q = "\<lambda>f. by_tag ?cr (the (sf_tag f)) = Some f"
  note h = put_where_spec [OF _ dr(2), of "[]" ?P ?g, simplified]
  note c = put_where_spec [OF conjunct1 [OF h] dr(3), of ?Q "\<lambda>f. the (map_of m (sf_name f))"]
  have Q: "?Q f \<longleftrightarrow> f \<in> set ?cr" if "f \<in> set ?cw" for f
    using that assms(1) tags by (auto simp: schema_ok_def)
  have apart: "f \<notin> set ?cw \<and> f \<notin> set ?cr" if "f \<in> set ?hw \<or> f \<in> set ?hr" for f
    using that laid_out_offset [OF w(1)] laid_out_offset [OF r(1)] assms(1,2) unfolding schema_ok_def by metis
  have plain: "read_form v (sf_ty f) = v" if "f \<in> set ?cw" for f v
    using that assms(1) by (auto simp: schema_ok_def cold_kind_def read_form_def split: field_type.splits dval.splits)
  have inj: "inj_on sf_name (set (?hr @ ?cr))" using dr(1) by (simp only: distinct_map)
  have cr_one: "f = g" if "f \<in> set ?cr" "g \<in> set ?hr \<union> set ?cr" "sf_name f = sf_name g" for f g
    by (rule inj_onD [OF inj that(3)]) (use that(1,2) in auto)
  have at: "map_of (fill_schema_defaults R ?c) n = expected R W m n" for n
  proof -
    have fill: "map_of (fill_schema_defaults R ?c) n =
        (case map_of ?c n of Some v \<Rightarrow> Some v | None \<Rightarrow> map_option default_of (find_named (?hr @ ?cr) n))"
      by (rule fill_spec [OF conjunct1 [OF c] dr(1)])
    have cn: "map_of ?c n = (case find_named ?cw n of Some f \<Rightarrow> if f \<in> set ?cr then map_of m n else map_of ?h n | None \<Rightarrow> map_of ?h n)"
      using c [of n] Q rows(2) by (auto simp: row_fits_def dest!: find_named_mem split: option.split)
    have hn: "map_of ?h n = (case find_named ?hr n of Some f \<Rightarrow> if f \<in> set ?hw then Some (?g f) else None | None \<Rightarrow> None)"
      using h [of n] hot_iff by (auto dest!: find_named_mem split: option.split)
    consider (hot) f where "find_named ?hr n = Some f" | (cold) f where "find_named ?hr n = None" "find_named ?cr n = Some f"
      | (none) "find_named ?hr n = None" "find_named ?cr n = None" by fastforce
    then show ?thesis
    proof cases
      case (hot f)
      then have f: "f \<in> set ?hr" "sf_name f = n" using find_named_mem by auto
      have "f' \<notin> set ?cr" if "find_named ?cw n = Some f'" for f'
        using that find_named_mem [OF that] cr_one [of f' f] f apart by auto
      then have "map_of ?c n = map_of ?h n" unfolding cn by (auto split: option.split)
      then show ?thesis unfolding fill hn using hot f apart [of f] by (simp add: expected_def find_named_append)
    next
      case (cold f)
      then have f: "f \<in> set ?cr" "sf_name f = n" using find_named_mem by auto
      have hw: "f \<notin> set ?hw" using f apart by blast
      show ?thesis
      proof (cases "f \<in> set ?cw")
        case True
        then have "find_named ?cw n = Some f" using find_named_eq [OF dr(3), of f] f by simp
        moreover obtain v where "map_of m n = Some v" using rows(2) True f(2) by (auto simp: row_fits_def)
        ultimately show ?thesis unfolding fill cn using f cold True plain [OF True] by (simp add: expected_def find_named_append)
      next
        case False
        have "f' \<notin> set ?cr" if "find_named ?cw n = Some f'" for f'
          using that find_named_mem [OF that] cr_one [of f' f] f False by auto
        then have "map_of ?c n = map_of ?h n" unfolding cn by (auto split: option.split)
        then show ?thesis unfolding fill hn using cold False hw by (simp add: expected_def find_named_append)
      qed
    next
      case none
      have "f' \<notin> set ?cr" if "find_named ?cw n = Some f'" for f'
        using find_named_mem [OF that] none by (auto simp: find_named_None)
      then have "map_of ?c n = map_of ?h n" unfolding cn by (auto split: option.split)
      then show ?thesis unfolding fill hn using none by (simp add: expected_def find_named_append)
    qed
  qed
  show ?thesis using enc dec at by blast
qed


text \<open>A key, with anything behind it.\<close>

lemma decode_key_put:
  assumes "\<And>f. f \<in> set fs \<Longrightarrow> sf_offset f + sf_width f \<le> length b \<and>
    decode_fixed F (sf_name f) (sf_ty f) (sf_width f) (take (sf_width f) (drop (sf_offset f) b)) = Inr (g f)"
  shows "decode_key_fields F fs b out = Inr (put_where (\<lambda>_. True) g fs out)"
  using assms by (induction fs arbitrary: out) (auto simp: not_less)

definition key_ok :: "collection_schema \<Rightarrow> bool" where
  "key_ok S \<longleftrightarrow> laid_out 0 (cs_key_fields S) \<and> cs_key_len S = sum_list (map sf_width (cs_key_fields S)) \<and>
     distinct (map sf_name (cs_key_fields S))"

lemma key_spec:
  assumes "key_ok S" "row_fits F (cs_key_fields S) m"
  shows "\<exists>b m'. encode_key F S m = Inr b \<and> length b = cs_key_len S \<and> decode_key F S (b @ r) = Inr m' \<and>
    (\<forall>n. map_of m' n = map_option (\<lambda>f. read_form (the (map_of m n)) (sf_ty f)) (find_named (cs_key_fields S) n))"
proof -
  let ?fs = "cs_key_fields S" and ?g = "\<lambda>f. read_form (the (map_of m (sf_name f))) (sf_ty f)"
  have k: "laid_out 0 ?fs" "cs_key_len S = sum_list (map sf_width ?fs)" "distinct (map sf_name ?fs)" using assms(1) by (simp_all add: key_ok_def)
  obtain xs where xs: "\<forall>buf. encode_walk F ?fs m buf = Inr (buf @ concat xs)"
    and all: "list_all2 (\<lambda>f x. length x = sf_width f \<and> decode_fixed F (sf_name f) (sf_ty f) (sf_width f) x = Inr (?g f)) ?fs xs"
    using encode_walk_image [OF k(1) assms(2)] by blast
  have lens: "list_all2 (\<lambda>f x. length x = sf_width f) ?fs xs" by (rule list_all2_mono [OF all]) simp
  have slice: "sf_offset f + sf_width f \<le> length (concat xs @ r) \<and>
      decode_fixed F (sf_name f) (sf_ty f) (sf_width f) (take (sf_width f) (drop (sf_offset f) (concat xs @ r))) = Inr (?g f)"
    if "f \<in> set ?fs" for f
  proof -
    have "f \<in> set (map fst (zip ?fs xs))" using that list_all2_lengthD [OF lens] by simp
    then obtain x where x: "(f, x) \<in> set (zip ?fs xs)" by auto
    then have "decode_fixed F (sf_name f) (sf_ty f) (sf_width f) x = Inr (?g f)" using all by (auto simp: list_all2_iff)
    moreover have "take (sf_width f) (drop (sf_offset f) (concat xs)) = x" "sf_offset f + sf_width f \<le> length (concat xs)"
      using laid_out_slices [of "[]" ?fs xs f x] k(1) lens x by simp_all
    ultimately show ?thesis by simp
  qed
  let ?m = "put_where (\<lambda>_. True) ?g ?fs []"
  have "decode_key F S (concat xs @ r) = Inr ?m"
    using images_length [OF lens] k(2) decode_key_put [OF slice] by (simp add: decode_key_def)
  moreover have "map_of ?m n = map_option (\<lambda>f. read_form (the (map_of m n)) (sf_ty f)) (find_named ?fs n)" for n
    using put_where_spec [OF _ k(3), of "[]" "\<lambda>_. True" ?g n] by (auto dest!: find_named_mem split: option.split)
  ultimately show ?thesis using xs images_length [OF lens] k(2) by (intro exI [of _ "concat xs"] exI [of _ ?m]) (simp add: encode_key_def)
qed

text \<open>A row that misses a field, or holds a value its kind does not take, is refused.\<close>

lemma encode_walk_rejects:
  "f \<in> set fs \<Longrightarrow> \<nexists>v. map_of m (sf_name f) = Some v \<and> accepts (sf_ty f) v \<Longrightarrow> \<exists>e. encode_walk F fs m buf = Inl e"
proof (induction fs arbitrary: buf)
  case (Cons g fs)
  show ?case
  proof (cases "f = g")
    case True
    then have "\<exists>e. field_pair (sf_name g) (sf_ty g) m = Inl e" using Cons.prems(2) by (auto simp: field_pair_def split: option.split)
    then show ?thesis by (auto simp: encode_field_def)
  next
    case False
    then show ?thesis using Cons by (cases "encode_field F g m buf") auto
  qed
qed simp

lemma encode_cold_rejects:
  "f \<in> set fs \<Longrightarrow> \<nexists>v. map_of m (sf_name f) = Some v \<and> accepts (sf_ty f) v \<Longrightarrow> \<exists>e. encode_cold F fs m buf = Inl e"
proof (induction fs arbitrary: buf)
  case (Cons g fs)
  show ?case
  proof (cases "f = g")
    case True
    then have "\<exists>e. field_pair (sf_name g) (sf_ty g) m = Inl e" using Cons.prems(2) by (auto simp: field_pair_def split: option.split)
    then show ?thesis by auto
  next
    case False
    then have "\<exists>e. encode_cold F fs m b = Inl e" for b using Cons by auto
    then show ?thesis by (auto simp: rbind_def split: sum.split option.split)
  qed
qed simp

lemma encode_rejects:
  assumes "f \<in> set (cs_hot_fields S @ cs_cold_fields S)" "\<nexists>v. map_of m (sf_name f) = Some v \<and> accepts (sf_ty f) v"
  shows "\<exists>e. encode_payload F S m = Inl e"
proof (cases "f \<in> set (cs_hot_fields S)")
  case True
  then show ?thesis using encode_walk_rejects [OF True assms(2), of F "[]"] by (auto simp: encode_payload_def)
next
  case False
  then have "\<exists>e. encode_cold F (cs_cold_fields S) m buf = Inl e" for buf using assms encode_cold_rejects by auto
  then show ?thesis by (auto simp: encode_payload_def rbind_def split: sum.split)
qed

section \<open>Properties\<close>

text \<open>
  The payload codec across versions of a table: a row with a fitting value for every declared field
  is written, and a reader whose layout is the writer's, extends it, or knows less of it reads it: every
  field both know comes back with its value, every field only the reader knows has its default, and no
  other name appears.
\<close>

theorem payload_between_versions:
  assumes "schema_ok W" "schema_ok R" "reads_from R W" "row_fits F (cs_hot_fields W @ cs_cold_fields W) m"
  shows "\<exists>b m'. encode_payload F W m = Inr b \<and> decode_row_payload F R b = Inr m' \<and> map_of m' = expected R W m"
  by (rule payload_spec [OF assms])

definition demo_field :: "string \<Rightarrow> field_type \<Rightarrow> nat \<Rightarrow> nat \<Rightarrow> byte option \<Rightarrow> field_schema" where
  "demo_field n ty w off t = \<lparr> sf_name = ascii_bytes n, sf_ty = ty, sf_width = w, sf_offset = off, sf_tag = t, sf_default = None, sf_expect_len = None \<rparr>"

definition demo_old :: collection_schema where
  "demo_old = \<lparr> cs_key_len = 1, cs_key_fields = [demo_field ''k'' FU8 1 0 None], cs_ns_prefix = [0, 1], cs_layout_version = 1, cs_hot_width = 3,
     cs_header_len = 3, cs_hot_fields = [demo_field ''a'' FU16 2 0 None, demo_field ''g'' (FVocab 8193) 1 2 None],
     cs_cold_fields = [demo_field ''s'' FStr 0 0 (Some 2)] \<rparr>"

definition demo_new :: collection_schema where
  "demo_new = demo_old\<lparr> cs_layout_version := 2, cs_hot_width := 7, cs_hot_fields := cs_hot_fields demo_old @ [demo_field ''b'' FU32 4 3 None],
     cs_cold_fields := cs_cold_fields demo_old @ [demo_field ''v'' FVarInt 0 0 (Some 4)] \<rparr>"

definition demo_row :: value_map where
  "demo_row = [(ascii_bytes ''a'', Val_U16 300), (ascii_bytes ''g'', Val_U8 5), (ascii_bytes ''s'', Val_Str [104, 105])]"

definition no_floats :: float_ops where
  "no_floats = \<lparr> fo_quantize = (\<lambda>x p. Some x), fo_dequantize = (\<lambda>w p. w) \<rparr>"

lemmas demo_schema_defs = demo_old_def demo_new_def demo_field_def ascii_bytes_def schema_ok_def hot_kind_def cold_kind_def of_char_def

lemma demo_schemas: "schema_ok demo_old" "schema_ok demo_new" "reads_from demo_new demo_old"
    "row_fits no_floats (cs_hot_fields demo_old @ cs_cold_fields demo_old) demo_row"
  by (simp_all add: demo_schema_defs reads_from_def row_fits_def demo_row_def value_fits_def accepts_def)

theorem payload_between_versions_witness:
  "\<exists>b m'. encode_payload no_floats demo_old demo_row = Inr b \<and> decode_row_payload no_floats demo_new b = Inr m' \<and>
    map_of m' = expected demo_new demo_old demo_row"
  by (rule payload_between_versions [OF demo_schemas])


text \<open>
  A key built from fitting values has exactly the declared length, and whatever follows it, its
  fields decode to those values and nothing else.
\<close>

theorem dyn_key_roundtrip:
  assumes "key_ok S" "row_fits F (cs_key_fields S) m"
  shows "\<exists>b m'. encode_key F S m = Inr b \<and> length b = cs_key_len S \<and> decode_key F S (b @ r) = Inr m' \<and>
    (\<forall>n. map_of m' n = map_option (\<lambda>f. read_form (the (map_of m n)) (sf_ty f)) (find_named (cs_key_fields S) n))"
  by (rule key_spec [OF assms])

theorem dyn_key_roundtrip_witness:
  "\<exists>b m'. encode_key no_floats demo_old [(ascii_bytes ''k'', Val_U8 9)] = Inr b \<and> length b = 1 \<and> decode_key no_floats demo_old (b @ [7]) = Inr m' \<and>
    map_of m' (ascii_bytes ''k'') = Some (Val_U8 9)"
proof -
  have "key_ok demo_old" "row_fits no_floats (cs_key_fields demo_old) [(ascii_bytes ''k'', Val_U8 9)]"
    by (simp_all add: demo_schema_defs key_ok_def row_fits_def value_fits_def accepts_def)
  then obtain b m' where "encode_key no_floats demo_old [(ascii_bytes ''k'', Val_U8 9)] = Inr b" "length b = cs_key_len demo_old"
    "decode_key no_floats demo_old (b @ [7]) = Inr m'"
    "\<forall>n. map_of m' n = map_option (\<lambda>f. read_form (the (map_of [(ascii_bytes ''k'', Val_U8 9)] n)) (sf_ty f)) (find_named (cs_key_fields demo_old) n)"
    using dyn_key_roundtrip [of demo_old no_floats "[(ascii_bytes ''k'', Val_U8 9)]" "[7]"] by blast
  then show ?thesis by (intro exI [of _ b] exI [of _ m']) (simp add: demo_schema_defs read_form_def)
qed

text \<open>
  Byte strings and uuids have encoder arms behind a gate that lets no value of theirs through; a row that
  was read back, its ids as bytes or as labels, is not a row the encoder takes.
\<close>

theorem unwritable_kinds:
  "f \<in> set (cs_hot_fields S @ cs_cold_fields S) \<Longrightarrow> sf_ty f \<in> {FBytes, FUuid4, FUuid7, FVector t} \<Longrightarrow> \<exists>e. encode_payload F S m = Inl e"
  by (rule encode_rejects) (auto simp: accepts_def)

theorem decoded_row_rejected:
  assumes "schema_ok S" "row_fits F (cs_hot_fields S @ cs_cold_fields S) m" "f \<in> set (cs_hot_fields S)" "sf_ty f = FVocab i"
  shows "\<exists>b m' e. encode_payload F S m = Inr b \<and> decode_row_payload F S b = Inr m' \<and> encode_payload F S m' = Inl e"
proof -
  have "inj_on sf_tag (set (cs_cold_fields S))" using assms(1) by (simp add: schema_ok_def distinct_map)
  then have "reads_from S S" unfolding reads_from_def by (simp add: inj_on_def)
  then obtain b m' where b: "encode_payload F S m = Inr b" "decode_row_payload F S b = Inr m'" "map_of m' = expected S S m"
    using payload_spec [OF assms(1,1) _ assms(2)] by blast
  obtain v where v: "map_of m (sf_name f) = Some v" "value_fits F f v" using assms(2,3) by (auto simp: row_fits_def)
  then obtain x where "map_of m (sf_name f) = Some (Val_U8 x)"
    using assms(4) by (cases v) (simp_all add: value_fits_def accepts_def)
  moreover have "find_named (cs_hot_fields S @ cs_cold_fields S) (sf_name f) = Some f"
    using assms(1,3) by (intro find_named_eq) (auto simp: schema_ok_def)
  ultimately have "map_of m' (sf_name f) = Some (Val_Bytes [x])" using assms(3,4) b(3) by (simp add: expected_def read_form_def)
  then have "\<exists>e. encode_payload F S m' = Inl e" using assms(3,4) by (intro encode_rejects [of f]) (auto simp: accepts_def)
  then show ?thesis using b by blast
qed

theorem label_row_rejected:
  "f \<in> set (cs_hot_fields S) \<Longrightarrow> sf_ty f = FVocab i \<Longrightarrow> map_of m (sf_name f) = Some (Val_Str t) \<Longrightarrow> \<exists>e. encode_payload F S m = Inl e"
  by (rule encode_rejects [of f]) (auto simp: accepts_def)

text \<open>A cold byte string of a typed row stops the reader.\<close>

theorem cold_bytes_unreadable:
  assumes "by_tag fs t = Some f" "sf_ty f = FBytes" "length b < 2 ^ 49"
  shows "decode_cold F fs (t # put_len (length b) @ b @ rest) out = Inl (CTypeMismatch (sf_name f) ''cold-capable kind (Str / wrapper)'')"
  using assms(1,2) by (simp add: decode_cold_frame [OF assms(3)] decode_frame_def)

end
