(* ===== verification/Okm_Dyn_Path.thy ===== *)
theory Okm_Dyn_Path
  imports Okm_Dyn_Codec
begin

text \<open>
  Paths into a document: \<open>okm-dynamic/src/path.rs\<close>, the text form, the canonical bytes and the walk over a
  value tree. Texts are UTF-8 bytes (every delimiter is ASCII, so a cut between bytes is a cut between
  characters); every message of the code is a constructor of \<open>path_error\<close>. \<open>resolve_name\<close> of an encoding is
  the handle it answers for a name, \<open>name_of\<close> the lookup back.
\<close>

section \<open>Components\<close>

datatype component = Comp_Field bytes | Comp_Index u32 | Comp_Key bytes

datatype path_error =
    PEmptySegment | PBeforeQuote | PUnclosedKey | PUnclosedIndex | PBadIndex bytes | PAfterComponent
  | PTruncated | PUnknownHandle u16 | PUnknownTag byte

type_synonym path = "component list"

definition TAG_FIELD :: byte where "TAG_FIELD = 1"
definition TAG_INDEX :: byte where "TAG_INDEX = 2"
definition TAG_KEY :: byte where "TAG_KEY = 3"

lemmas path_tags = TAG_FIELD_def TAG_INDEX_def TAG_KEY_def

section \<open>The text form\<close>

text \<open>\<open>str::parse::<u32>\<close>: decimal digits, one leading plus sign, no overflow.\<close>

definition parse_u32 :: "bytes \<Rightarrow> u32 option" where
  "parse_u32 b =
     (let d = (case b of x # r \<Rightarrow> if x = 0x2B then r else b | [] \<Rightarrow> b) in
      if d = [] \<or> \<not> list_all (\<lambda>x. 0x30 \<le> x \<and> x \<le> 0x39) d then None
      else let n = foldl (\<lambda>n x. 10 * n + (unat x - 0x30)) 0 d in if n < 2 ^ 32 then Some (of_nat n) else None)"

lemma drop_delimiter: "dropWhile P xs = y # ys \<Longrightarrow> length ys < length xs"
  using length_dropWhile_le [of P xs] by simp

function parse_loop :: "bytes \<Rightarrow> bool \<Rightarrow> path \<Rightarrow> path_error + path" where
  "parse_loop text at_start comps =
     (case text of
        [] \<Rightarrow> if at_start then Inl PEmptySegment else Inr comps
      | c # rest \<Rightarrow>
          if c = 0x2E then (if at_start then Inl PEmptySegment else parse_loop rest True comps)
          else if c = 0x22 then
            (if \<not> at_start then Inl PBeforeQuote
             else (case dropWhile (\<lambda>x. x \<noteq> 0x22) rest of
                     [] \<Rightarrow> Inl PUnclosedKey
                   | _ # rest' \<Rightarrow> parse_loop rest' False (comps @ [Comp_Key (takeWhile (\<lambda>x. x \<noteq> 0x22) rest)])))
          else if c = 0x5B then
            (case dropWhile (\<lambda>x. x \<noteq> 0x5D) rest of
               [] \<Rightarrow> Inl PUnclosedIndex
             | _ # rest' \<Rightarrow>
                 (case parse_u32 (takeWhile (\<lambda>x. x \<noteq> 0x5D) rest) of
                    None \<Rightarrow> Inl (PBadIndex (takeWhile (\<lambda>x. x \<noteq> 0x5D) rest))
                  | Some i \<Rightarrow> parse_loop rest' False (comps @ [Comp_Index i])))
          else if \<not> at_start then Inl PAfterComponent
          else parse_loop (dropWhile (\<lambda>x. x \<noteq> 0x2E \<and> x \<noteq> 0x5B) (c # rest)) False
            (comps @ [Comp_Field (takeWhile (\<lambda>x. x \<noteq> 0x2E \<and> x \<noteq> 0x5B) (c # rest))]))"
  by pat_completeness auto

termination
proof (relation "measure (\<lambda>(t, _, _). length t)")
  show "\<And>t a cs x21 x22. \<lbrakk>t = x21 # x22; x21 \<noteq> 0x2E; x21 \<noteq> 0x22; x21 \<noteq> 0x5B; \<not> \<not> a\<rbrakk> \<Longrightarrow>
    ((dropWhile (\<lambda>x. x \<noteq> 0x2E \<and> x \<noteq> 0x5B) (x21 # x22), False, cs @ [Comp_Field (takeWhile (\<lambda>x. x \<noteq> 0x2E \<and> x \<noteq> 0x5B) (x21 # x22))]), t, a, cs)
      \<in> measure (\<lambda>(t, _, _). length t)"
    by (simp add: le_imp_less_Suc length_dropWhile_le)
qed (auto dest: drop_delimiter)

declare parse_loop.simps [simp del]

definition Path_parse :: "bytes \<Rightarrow> path_error + path" where
  "Path_parse text = (if text = [] then Inr [] else parse_loop text True [])"

section \<open>The canonical bytes\<close>

definition put_compact :: "u16 \<Rightarrow> bytes" where
  "put_compact v = (if v < 0xFF then [ucast v] else 0xFF # to_be_bytes v)"

definition take_compact :: "bytes \<Rightarrow> path_error + (u16 \<times> nat)" where
  "take_compact b =
     (case b of
        [] \<Rightarrow> Inl PTruncated
      | first # _ \<Rightarrow>
          if first < 0xFF then Inr (ucast first, 1)
          else if length b < 3 then Inl PTruncated
          else Inr (of_nat (be_val [b ! 1, b ! 2]), 3))"

fun encode_component :: "(bytes \<Rightarrow> u16) \<Rightarrow> component \<Rightarrow> bytes" where
  "encode_component resolve_name (Comp_Field name) = TAG_FIELD # put_compact (resolve_name name)"
| "encode_component resolve_name (Comp_Index i) = TAG_INDEX # to_be_bytes i"
| "encode_component resolve_name (Comp_Key k) =
     TAG_KEY # put_compact (if length k < 65536 then of_nat (length k) else 0xFFFF) @ take (min (length k) 65535) k"

definition Path_encode :: "(bytes \<Rightarrow> u16) \<Rightarrow> path \<Rightarrow> bytes" where
  "Path_encode resolve_name cs = concat (map (encode_component resolve_name) cs)"

function decode_components :: "(u16 \<Rightarrow> bytes option) \<Rightarrow> bytes \<Rightarrow> path \<Rightarrow> path_error + path" where
  "decode_components name_of b comps =
     (case b of
        [] \<Rightarrow> Inr comps
      | tag # rest \<Rightarrow>
          if tag = TAG_FIELD then
            (case take_compact rest of
               Inl e \<Rightarrow> Inl e
             | Inr (i, used) \<Rightarrow>
                 (case name_of i of
                    None \<Rightarrow> Inl (PUnknownHandle i)
                  | Some name \<Rightarrow> decode_components name_of (drop used rest) (comps @ [Comp_Field name])))
          else if tag = TAG_INDEX then
            (if length rest < 4 then Inl PTruncated
             else decode_components name_of (drop 4 rest) (comps @ [Comp_Index (of_nat (be_val (take 4 rest)))]))
          else if tag = TAG_KEY then
            (case take_compact rest of
               Inl e \<Rightarrow> Inl e
             | Inr (n, used) \<Rightarrow>
                 let len = unat n in
                 if length (drop used rest) < len then Inl PTruncated
                 else decode_components name_of (drop len (drop used rest)) (comps @ [Comp_Key (take len (drop used rest))]))
          else Inl (PUnknownTag tag))"
  by pat_completeness auto

termination
  by (relation "measure (\<lambda>(_, b, _). length b)") auto

declare decode_components.simps [simp del]

definition Path_decode :: "bytes \<Rightarrow> (u16 \<Rightarrow> bytes option) \<Rightarrow> path_error + path" where
  "Path_decode b name_of = decode_components name_of b []"

section \<open>The walk\<close>

fun flatten_scalars :: "dval \<Rightarrow> dval list" where
  "flatten_scalars (Val_Array items) = concat (map flatten_scalars items)"
| "flatten_scalars (Val_Obj _) = []"
| "flatten_scalars v = [v]"

definition component_name :: "component \<Rightarrow> bytes option" where
  "component_name c = (case c of Comp_Field n \<Rightarrow> Some n | Comp_Key k \<Rightarrow> from_utf8 k | Comp_Index _ \<Rightarrow> None)"

lemma size_map_of: "map_of m n = Some v \<Longrightarrow> size v < size_list (size_prod (\<lambda>_. 0) size) m"
  by (induction m) (auto split: if_splits)

lemma size_item: "x \<in> set items \<Longrightarrow> size x < Suc (size_list size items)"
  by (simp add: less_Suc_eq_le size_list_estimation')

lemma size_nth: "i < length items \<Longrightarrow> size (items ! i) < Suc (size_list size items)"
  by (rule size_item) simp

function (sequential) walk_map :: "value_map \<Rightarrow> path \<Rightarrow> dval list" and walk_value :: "dval \<Rightarrow> path \<Rightarrow> dval list" where
  "walk_map m [] = []"
| "walk_map m (c # cs) =
     (case component_name c of
        None \<Rightarrow> []
      | Some n \<Rightarrow> (case map_of m n of None \<Rightarrow> [] | Some v \<Rightarrow> walk_value v cs))"
| "walk_value (Val_Obj m) cs = walk_map m cs"
| "walk_value (Val_Array items) cs =
     (case cs of
        [] \<Rightarrow> flatten_scalars (Val_Array items)
      | c # rest \<Rightarrow>
          (case c of
             Comp_Index i \<Rightarrow> if unat i < length items then walk_value (items ! unat i) rest else []
           | _ \<Rightarrow> concat (map (\<lambda>x. walk_value x cs) items)))"
| "walk_value v cs = (if cs = [] then [v] else [])"
  by pat_completeness auto

termination
  by (relation "measure (\<lambda>x. case x of Inl (m, _) \<Rightarrow> 2 * size_list (size_prod (\<lambda>_. 0) size) m + 1 | Inr (v, _) \<Rightarrow> 2 * size v)")
    (auto dest: size_map_of size_item size_nth)

definition Path_resolve :: "path \<Rightarrow> value_map \<Rightarrow> dval list" where
  "Path_resolve p document = walk_map document p"


section \<open>The bytes of a path\<close>

definition path_ok :: "(bytes \<Rightarrow> u16) \<Rightarrow> (u16 \<Rightarrow> bytes option) \<Rightarrow> path \<Rightarrow> bool" where
  "path_ok R nm cs \<longleftrightarrow> (\<forall>n. Comp_Field n \<in> set cs \<longrightarrow> nm (R n) = Some n) \<and> (\<forall>k. Comp_Key k \<in> set cs \<longrightarrow> length k < 65536)"

lemma take_put_compact: "take_compact (put_compact v @ r) = Inr (v, length (put_compact v))"
proof (cases "v < 0xFF")
  case True
  then have "unat v < 255" by (simp add: word_less_nat_alt)
  then have "(ucast v :: byte) < 0xFF" "ucast (ucast v :: byte) = v"
    by (simp_all add: word_less_nat_alt unsigned_ucast_eq take_bit_eq_mod word_unat_eq_iff unat_mod)
  then show ?thesis using True by (simp add: put_compact_def take_compact_def)
next
  case False
  obtain h l where hl: "be_bytes 2 (unat v) = [h, l]" by (simp only: be_bytes_2)
  have "unat v < 256 ^ 2" using unsigned_less [of v, where ?'a = nat] by simp
  then have "be_val [h, l] = unat v" unfolding hl [symmetric] by (rule be_val_be_bytes)
  then have "of_nat (be_val [h, l]) = v" by simp
  then show ?thesis using False by (simp add: put_compact_def take_compact_def to_be_bytes_def hl del: be_val.simps)
qed

lemma decode_component:
  assumes "path_ok R nm [c]"
  shows "decode_components nm (encode_component R c @ b) comps = decode_components nm b (comps @ [c])"
proof (cases c)
  case (Comp_Field n)
  then have "nm (R n) = Some n" using assms by (simp add: path_ok_def)
  then show ?thesis using Comp_Field
    by (subst decode_components.simps) (simp add: path_tags take_put_compact)
next
  case (Comp_Index i)
  have "of_nat (be_val (to_be_bytes i)) = i" using dyn_from_to_be_bytes(2) [of i] by (simp add: from_be_bytes_def split: if_splits)
  then show ?thesis using Comp_Index dyn_length_to_be_bytes(2) [of i]
    by (subst decode_components.simps) (simp add: path_tags)
next
  case (Comp_Key k)
  then have "length k < 65536" using assms by (simp add: path_ok_def)
  then have "unat (of_nat (length k) :: u16) = length k" "min (length k) 65535 = length k" by (simp_all add: unat_of_nat)
  then show ?thesis using Comp_Key \<open>length k < 65536\<close>
    by (subst decode_components.simps) (simp add: path_tags take_put_compact Let_def)
qed

lemma path_ok_Cons: "path_ok R nm (c # cs) \<longleftrightarrow> path_ok R nm [c] \<and> path_ok R nm cs"
  by (auto simp: path_ok_def)

lemma decode_encoded:
  "path_ok R nm cs \<Longrightarrow> decode_components nm (Path_encode R cs @ b) comps = decode_components nm b (comps @ cs)"
proof (induction cs arbitrary: comps)
  case (Cons c cs)
  then have "path_ok R nm [c]" "path_ok R nm cs" by (simp_all add: path_ok_Cons [of R nm c cs])
  then show ?case using Cons.IH [of "comps @ [c]"] by (simp add: Path_encode_def decode_component)
qed (simp add: Path_encode_def)

lemma decode_extends: "decode_components nm b comps = Inr r \<Longrightarrow> prefix comps r"
proof (induction nm b comps rule: decode_components.induct)
  case (1 nm b comps)
  have ext: "prefix (comps @ [c]) r \<Longrightarrow> prefix comps r" for c by (rule append_prefixD)
  note run = "1.prems" [unfolded decode_components.simps [of nm b comps]]
  show ?case
    using run "1.IH" ext by (auto simp: Let_def split: list.splits if_splits sum.splits option.splits) blast+
qed

section \<open>The text of a path\<close>

definition component_text :: "component \<Rightarrow> bytes" where
  "component_text c = (case c of Comp_Field n \<Rightarrow> n | Comp_Index i \<Rightarrow> 0x5B # dec_digits (unat i) @ [0x5D] | Comp_Key k \<Rightarrow> 0x22 # k @ [0x22])"

definition joined_text :: "component \<Rightarrow> bytes" where
  "joined_text c = (case c of Comp_Index _ \<Rightarrow> component_text c | _ \<Rightarrow> 0x2E # component_text c)"

definition path_text :: "path \<Rightarrow> bytes" where
  "path_text cs = (case cs of [] \<Rightarrow> [] | c # cs \<Rightarrow> component_text c @ concat (map joined_text cs))"

definition text_ok :: "component \<Rightarrow> bool" where
  "text_ok c = (case c of
       Comp_Field n \<Rightarrow> n \<noteq> [] \<and> hd n \<noteq> 0x22 \<and> list_all (\<lambda>x. x \<noteq> 0x2E \<and> x \<noteq> 0x5B) n
     | Comp_Index _ \<Rightarrow> True
     | Comp_Key k \<Rightarrow> 0x22 \<notin> set k)"

declare dec_digits.simps [simp del]

lemma digit_byte: "d < 10 \<Longrightarrow> unat (of_nat (48 + d) :: byte) = 48 + d"
  by (rule unat_byte_small) simp

lemma dec_digits_value:
  "list_all (\<lambda>x. 0x30 \<le> x \<and> x \<le> 0x39) (dec_digits n) \<and> dec_digits n \<noteq> [] \<and> foldl (\<lambda>n x. 10 * n + (unat x - 0x30)) 0 (dec_digits n) = n"
proof (induction n rule: dec_digits.induct)
  case (1 n)
  show ?case
  proof (cases "n < 10")
    case True
    then show ?thesis using digit_byte [of n] by (subst (1 2 3) dec_digits.simps) (simp add: word_le_nat_alt)
  next
    case False
    then have IH: "list_all (\<lambda>x. 0x30 \<le> x \<and> x \<le> 0x39) (dec_digits (n div 10))"
      "foldl (\<lambda>n x. 10 * n + (unat x - 0x30)) 0 (dec_digits (n div 10)) = n div 10" using 1 by blast+
    have "n mod 10 < 10" by simp
    then have "unat (of_nat (48 + n mod 10) :: byte) = 48 + n mod 10" by (rule digit_byte)
    then show ?thesis using False IH by (subst (1 2 3) dec_digits.simps) (simp add: word_le_nat_alt)
  qed
qed

lemma parse_u32_digits: "parse_u32 (dec_digits (unat i)) = Some i"
proof -
  obtain x r where e: "dec_digits (unat i) = x # r" using dec_digits_value [of "unat i"] by (cases "dec_digits (unat i)") auto
  then have "0x30 \<le> x" using dec_digits_value [of "unat i"] by simp
  then have "x \<noteq> 0x2B" by auto
  moreover have "unat i < 2 ^ 32" using unsigned_less [of i, where ?'a = nat] by simp
  ultimately show ?thesis using dec_digits_value [of "unat i"] unfolding parse_u32_def e by (simp add: Let_def del: foldl_Cons)
qed

lemma digits_no_bracket: "\<forall>x \<in> set (dec_digits n). x \<noteq> 0x5D"
  using dec_digits_value [of n] by (auto simp: list_all_iff)


lemma parse_joined:
  "list_all text_ok cs \<Longrightarrow> parse_loop (concat (map joined_text cs)) False comps = Inr (comps @ cs)"
  "list_all text_ok (c # cs) \<Longrightarrow> parse_loop (component_text c @ concat (map joined_text cs)) True comps = Inr (comps @ c # cs)"
proof -
  have name: "parse_loop (n @ rest) True comps = parse_loop rest False (comps @ [Comp_Field n])"
    if ok: "text_ok (Comp_Field n)" and stop: "rest = [] \<or> hd rest = 0x2E \<or> hd rest = 0x5B" for n rest comps
  proof -
    obtain x xs where n: "n = x # xs" using ok by (cases n) (auto simp: text_ok_def)
    have all: "\<forall>y \<in> set n. y \<noteq> 0x2E \<and> y \<noteq> 0x5B" using ok by (auto simp: text_ok_def list_all_iff)
    have "takeWhile (\<lambda>x. x \<noteq> 0x2E \<and> x \<noteq> 0x5B) (n @ rest) = n" "dropWhile (\<lambda>x. x \<noteq> 0x2E \<and> x \<noteq> 0x5B) (n @ rest) = rest"
      using all stop by (cases rest; auto simp: takeWhile_append dropWhile_append)+
    moreover have "x \<noteq> 0x2E" "x \<noteq> 0x5B" "x \<noteq> 0x22" using ok n all by (auto simp: text_ok_def)
    ultimately show ?thesis by (subst parse_loop.simps) (simp add: n)
  qed
  have key: "parse_loop (0x22 # k @ 0x22 # rest) True comps = parse_loop rest False (comps @ [Comp_Key k])"
    if "0x22 \<notin> set k" for k rest comps
  proof -
    have "takeWhile (\<lambda>x. x \<noteq> 0x22) (k @ 0x22 # rest) = k" "dropWhile (\<lambda>x. x \<noteq> 0x22) (k @ 0x22 # rest) = 0x22 # rest"
      using that by (auto simp: takeWhile_append dropWhile_append)
    then show ?thesis by (subst parse_loop.simps) simp
  qed
  have index: "parse_loop (0x5B # dec_digits (unat i) @ 0x5D # rest) st comps = parse_loop rest False (comps @ [Comp_Index i])"
    for i rest st comps
  proof -
    have "takeWhile (\<lambda>x. x \<noteq> 0x5D) (dec_digits (unat i) @ 0x5D # rest) = dec_digits (unat i)"
      "dropWhile (\<lambda>x. x \<noteq> 0x5D) (dec_digits (unat i) @ 0x5D # rest) = 0x5D # rest"
      using digits_no_bracket [of "unat i"] by (auto simp: takeWhile_append dropWhile_append)
    then show ?thesis by (subst parse_loop.simps) (simp add: parse_u32_digits)
  qed
  have stop: "concat (map joined_text cs) = [] \<or> hd (concat (map joined_text cs)) = 0x2E \<or> hd (concat (map joined_text cs)) = 0x5B" for cs
    by (cases cs) (auto simp: joined_text_def component_text_def split: component.splits)
  have first: "parse_loop (component_text c @ concat (map joined_text cs)) True comps = parse_loop (concat (map joined_text cs)) False (comps @ [c])"
    if "text_ok c" for c cs comps
    using that name [OF _ stop] key index by (cases c) (auto simp: component_text_def text_ok_def)
  have dot: "parse_loop (0x2E # t) False comps = parse_loop t True comps" for t comps by (subst parse_loop.simps) simp
  have later: "parse_loop (joined_text c @ concat (map joined_text cs)) False comps = parse_loop (concat (map joined_text cs)) False (comps @ [c])"
    if "text_ok c" for c cs comps
    using first [OF that] index by (cases c) (auto simp: joined_text_def component_text_def dot)
  have all: "list_all text_ok cs \<Longrightarrow> parse_loop (concat (map joined_text cs)) False comps = Inr (comps @ cs)" for cs comps
  proof (induction cs arbitrary: comps)
    case (Cons c cs)
    then show ?case using later by simp
  qed (simp add: parse_loop.simps)
  show "list_all text_ok cs \<Longrightarrow> parse_loop (concat (map joined_text cs)) False comps = Inr (comps @ cs)" by (rule all)
  show "list_all text_ok (c # cs) \<Longrightarrow> parse_loop (component_text c @ concat (map joined_text cs)) True comps = Inr (comps @ c # cs)"
    using first all by simp
qed

section \<open>What a path addresses\<close>

definition scalar :: "dval \<Rightarrow> bool" where
  "scalar v = (case v of Val_Obj _ \<Rightarrow> False | Val_Array _ \<Rightarrow> False | _ \<Rightarrow> True)"

definition pins :: "path \<Rightarrow> bool" where
  "pins cs = (case cs of Comp_Index _ # _ \<Rightarrow> True | _ \<Rightarrow> False)"

text \<open>
  A path ends at a scalar; a name leads from an object to its field; a position pins an element; under any
  other path, the empty one too, an array stands for each of its elements.
\<close>

inductive addresses :: "dval \<Rightarrow> path \<Rightarrow> dval \<Rightarrow> bool" where
  leaf: "scalar v \<Longrightarrow> addresses v [] v"
| name: "component_name c = Some n \<Longrightarrow> map_of m n = Some v \<Longrightarrow> addresses v cs x \<Longrightarrow> addresses (Val_Obj m) (c # cs) x"
| pinned: "unat i < length items \<Longrightarrow> addresses (items ! unat i) cs x \<Longrightarrow> addresses (Val_Array items) (Comp_Index i # cs) x"
| each: "\<not> pins cs \<Longrightarrow> v \<in> set items \<Longrightarrow> addresses v cs x \<Longrightarrow> addresses (Val_Array items) cs x"

inductive_cases addresses_ObjE: "addresses (Val_Obj m) cs x"
inductive_cases addresses_ArrayE: "addresses (Val_Array items) cs x"

lemma flatten_walk: "flatten_scalars v = walk_value v []"
  by (cases v) simp_all

lemma flatten_sound: "x \<in> set (flatten_scalars v) \<Longrightarrow> addresses v [] x"
proof (induction v rule: flatten_scalars.induct)
  case (1 items)
  then obtain v where "v \<in> set items" "x \<in> set (flatten_scalars v)" by auto
  then show ?case using 1 by (intro each [of "[]" v]) (auto simp: pins_def)
qed (auto intro!: leaf simp: scalar_def)

lemma walk_sound:
  "x \<in> set (walk_map m cs) \<Longrightarrow> addresses (Val_Obj m) cs x"
  "x \<in> set (walk_value v cs) \<Longrightarrow> addresses v cs x"
proof (induction m cs and v cs rule: walk_map_walk_value.induct)
  case (2 m c cs)
  obtain n where n: "component_name c = Some n" using 2(2) by (cases "component_name c") auto
  obtain v where v: "map_of m n = Some v" using 2(2) n by (cases "map_of m n") auto
  show ?case using name [OF n v] 2(1) [OF n v] 2(2) n v by simp
next
  case (4 items cs)
  show ?case
  proof (cases cs)
    case Nil
    then show ?thesis using 4 flatten_sound [of x "Val_Array items"] by simp
  next
    case (Cons c rest)
    show ?thesis
    proof (cases "\<exists>i. c = Comp_Index i")
      case True
      then show ?thesis using 4 Cons by (auto split: if_splits intro: pinned)
    next
      case False
      then obtain v where "v \<in> set items" "x \<in> set (walk_value v cs)" "\<not> pins cs"
        using 4(4) Cons by (cases c) (auto simp: pins_def)
      moreover have "addresses v cs x"
        using 4 Cons False calculation by (cases c) auto
      ultimately show ?thesis by (intro each)
    qed
  qed
qed (auto split: option.splits if_splits intro: name leaf simp: scalar_def)

lemma walk_complete: "addresses v cs x \<Longrightarrow> x \<in> set (walk_value v cs)"
proof (induction rule: addresses.induct)
  case (leaf v)
  then show ?case by (cases v) (auto simp: scalar_def)
next
  case (each cs v items x)
  show ?case
  proof (cases cs)
    case Nil
    have "x \<in> set (flatten_scalars v)" using each.IH Nil by (simp only: flatten_walk)
    then show ?thesis using each.hyps(2) Nil by auto
  next
    case (Cons c rest)
    then show ?thesis using each by (cases c) (auto simp: pins_def)
  qed
qed auto

section \<open>Properties\<close>

text \<open>
  The canonical bytes of a path decode to it, and one path's bytes are a prefix of another's exactly
  when the path itself is: a scan under a path meets the paths below it and no other.
\<close>

theorem path_bytes_exact:
  assumes "path_ok R nm cs" "path_ok R nm ds"
  shows "Path_decode (Path_encode R cs) nm = Inr cs \<and> (prefix (Path_encode R cs) (Path_encode R ds) \<longleftrightarrow> prefix cs ds)"
proof
  have whole: "Path_decode (Path_encode R es) nm = Inr es" if "path_ok R nm es" for es
    using decode_encoded [OF that, of "[]" "[]"] by (simp add: Path_decode_def decode_components.simps)
  show "Path_decode (Path_encode R cs) nm = Inr cs" by (rule whole [OF assms(1)])
  show "prefix (Path_encode R cs) (Path_encode R ds) \<longleftrightarrow> prefix cs ds"
  proof
    assume "prefix (Path_encode R cs) (Path_encode R ds)"
    then obtain z where "Path_encode R ds = Path_encode R cs @ z" by (auto elim: prefixE)
    then have "decode_components nm z cs = Inr ds"
      using whole [OF assms(2)] decode_encoded [OF assms(1), of z "[]"] by (simp add: Path_decode_def)
    then show "prefix cs ds" by (rule decode_extends)
  qed (auto simp: prefix_def Path_encode_def)
qed

theorem path_bytes_exact_witness:
  "let R = (\<lambda>n. if n = [97] then 3 else 700); nm = (\<lambda>i. if i = 3 then Some [97] else if i = 700 then Some [98] else None) in
   Path_decode (Path_encode R [Comp_Field [97], Comp_Index 2]) nm = Inr [Comp_Field [97], Comp_Index 2] \<and>
   prefix (Path_encode R [Comp_Field [97], Comp_Index 2]) (Path_encode R [Comp_Field [97], Comp_Index 2, Comp_Field [98], Comp_Key [1, 2]])"
  using path_bytes_exact [of "\<lambda>n. if n = [97] then 3 else 700" "\<lambda>i. if i = 3 then Some [97] else if i = 700 then Some [98] else None"
      "[Comp_Field [97], Comp_Index 2]" "[Comp_Field [97], Comp_Index 2, Comp_Field [98], Comp_Key [1, 2]]"]
  by (simp add: path_ok_def Let_def)

text \<open>The text of a path, keys quoted and positions in brackets, parses back to the path.\<close>

theorem path_text_parses:
  assumes "list_all text_ok cs"
  shows "Path_parse (path_text cs) = Inr cs"
proof (cases cs)
  case (Cons c ds)
  have "component_text c \<noteq> []" using assms Cons by (auto simp: text_ok_def component_text_def split: component.splits)
  then show ?thesis using parse_joined(2) [of c ds "[]"] assms Cons by (simp add: Path_parse_def path_text_def)
qed (simp add: Path_parse_def path_text_def)

theorem path_text_parses_witness:
  "Path_parse (path_text [Comp_Field [97], Comp_Index 12, Comp_Key [46]]) = Inr [Comp_Field [97], Comp_Index 12, Comp_Key [46]]"
  by (rule path_text_parses) (simp add: text_ok_def)

text \<open>A path resolves to exactly the scalars it addresses in the document, none of them an object or an array.\<close>

theorem resolve_addresses:
  "set (Path_resolve p document) = {x. addresses (Val_Obj document) p x} \<and> (\<forall>x \<in> set (Path_resolve p document). scalar x)"
proof
  have eq: "x \<in> set (Path_resolve p document) \<longleftrightarrow> addresses (Val_Obj document) p x" for x
    using walk_sound(1) [of x document p] walk_complete [of "Val_Obj document" p x] by (auto simp: Path_resolve_def)
  show "set (Path_resolve p document) = {x. addresses (Val_Obj document) p x}" using eq by blast
  have "addresses v cs x \<Longrightarrow> scalar x" for v cs x by (induction rule: addresses.induct)
  then show "\<forall>x \<in> set (Path_resolve p document). scalar x" using eq by blast
qed

theorem resolve_addresses_witness:
  "Val_U8 7 \<in> {x. addresses (Val_Obj [([97], Val_Array [Val_U8 7, Val_Obj []])]) [Comp_Field [97]] x}"
proof -
  have "Val_U8 7 \<in> set (Path_resolve [Comp_Field [97]] [([97], Val_Array [Val_U8 7, Val_Obj []])])"
    by (simp add: Path_resolve_def component_name_def)
  then show ?thesis using resolve_addresses [of "[Comp_Field [97]]" "[([97], Val_Array [Val_U8 7, Val_Obj []])]"] by simp
qed

end
