(* ===== verification/Spec2Isabelle.thy ===== *)
theory Spec2Isabelle
  imports Okm_Prelude Okm_Varint Okm_Storage Okm_Fields Okm_Index Okm_Frame Okm_Nest Okm_Nest_Iter Okm_Vocab
    Okm_Dynamic Okm_Dynamic_Types Okm_LocalStorage Okm_Meta
    Okm_Collection Okm_Table Okm_History Okm_Scans Okm_Object Okm_Changelog
    Okm_Graph Okm_Graph_Faces Okm_Graph_Spec Okm_Graph_Repair Okm_Query
    Okm_Series_Format Okm_Series_Dict Okm_Series_Chain Okm_Series_Part Okm_Series_Recovery Okm_Series_Runs
    Okm_Series_Log Okm_Series_Names Okm_Series_Stream
    Okm_Dyn_Codec Okm_Dyn_Path
begin

text \<open>
  A verification development of okm, a typed object layer over ordered key-value engines, and of its
  append-only log.

  \<^bold>\<open>The program.\<close> Everything okm stores is a pair of byte strings in one ordered key space. A table has a
  two-byte header; behind it a slot names a face: the rows, the dynamic segments, the two directions of
  the name vocabularies, the meta row, and from 0x1000 on the declared indexes. A verb of a collection
  (\<open>okm-core/src/model/document.rs\<close>) stages all entries of a document in one batch, commits it to an engine
  behind the trait \<open>VirtualStorage\<close>, hands the same batch to the change log and announces removed rows to
  subscribers. A graph (\<open>model/graph.rs\<close>) is a collection of edges with four traversal faces. An engine may
  be local, the browser's storage, or remote: \<open>engine/nest.rs\<close> encodes operations as frames of \<open>okm-wire\<close> and
  a receiver executes them under a prefix. \<open>okm-series\<close> is a log of its own over plain files: parts of
  checksummed blocks, with a dictionary of repeated strings, one directory per time bucket and
  partition. \<open>okm-dynamic\<close> reads and writes the same payloads from a schema given as data.

  \<^bold>\<open>Theories, bottom up.\<close>

  \<^item> \<open>Okm_Prelude\<close>: byte strings, big-endian numbers, UTF-8, the result type (\<open>Inl\<close> an error) and the
    state-passing \<open>io\<close>; the locale \<open>framed\<close> of self-delimiting codecs.
  \<^item> \<open>Okm_Varint\<close> (\<open>wrappers/wire.rs\<close>, \<open>varint.rs\<close>), \<open>Okm_Fields\<close> (\<open>reverse.rs\<close>, \<open>offset.rs\<close>, \<open>optional.rs\<close>,
    \<open>vector.rs\<close>, \<open>uuid.rs\<close>, \<open>vocab.rs\<close>, \<open>key.rs\<close>): the field codecs; round trips and order.
  \<^item> \<open>Okm_Storage\<close> (\<open>error.rs\<close>, \<open>engine/storage.rs\<close>): the engine trait as a record of functions, its provided
    methods, the batch view. The locales \<open>kv_point\<close> and \<open>kv_scan\<close> say what every client relies on: point
    operations are those of a map \<open>\<alpha> s\<close>, a scan answers the keys of an interval in order. They are
    interpreted on an engine over an association list and, in \<open>Okm_LocalStorage\<close>, on the browser engine.
  \<^item> \<open>Okm_Index\<close> (\<open>model/index.rs\<close>): slots, entry keys, index scans. \<open>Okm_Vocab\<close> (\<open>obj_vocab.rs\<close>): interning of
    names. \<open>Okm_Meta\<close> (\<open>meta.rs\<close>, \<open>faces.rs\<close>): the meta row and the fingerprint of the faces.
  \<^item> \<open>Okm_Dynamic\<close>, \<open>Okm_Dynamic_Types\<close> (\<open>obj_dynamic.rs\<close>, \<open>wrappers/obj_value.rs\<close>): dynamic values, their
    frames, what any bytes can decode to, size bounds.
  \<^item> \<open>Okm_Frame\<close> (\<open>okm-wire/src/lib.rs\<close>), \<open>Okm_Nest\<close>, \<open>Okm_Nest_Iter\<close> (\<open>engine/nest.rs\<close>): frames, the receiver,
    the sender and the paged iterator.
  \<^item> \<open>Okm_Collection\<close>, \<open>Okm_Scans\<close>, \<open>Okm_Object\<close> (\<open>model/document.rs\<close>): the typed verbs, the scans and the
    whole-document verbs. A document type is a record of functions (its codec, hooks and derived entries);
    the locale \<open>face_document\<close> holds the laws of one, and \<open>Okm_Table\<close> proves them for a document whose entries
    are those of declared indexes (\<open>plain_document\<close>), as the derive macro emits them. \<open>Okm_History\<close> makes
    the verbs the steps of a state machine.
  \<^item> \<open>Okm_Changelog\<close> (\<open>changelog.rs\<close>): staging, writing, rotation, sealing and reading of the change log.
  \<^item> \<open>Okm_Graph\<close> (\<open>model/graph.rs\<close>), \<open>Okm_Graph_Faces\<close>, \<open>Okm_Graph_Spec\<close>, \<open>Okm_Graph_Repair\<close>: edges, the
    contract of faces derived from rows, the abstract graph of facts, traversals and the rebuild.
    \<open>Okm_Query\<close> (\<open>okm-query\<close>, \<open>okm-graph\<close>): merge join, group fold, walk, label propagation.
  \<^item> \<open>Okm_Series_Format\<close>, \<open>Okm_Series_Dict\<close>, \<open>Okm_Series_Part\<close>, \<open>Okm_Series_Log\<close> (\<open>okm-series/src/format.rs\<close>,
    \<open>dict.rs\<close> with \<open>body.rs\<close>, \<open>part.rs\<close>, \<open>lib.rs\<close>): the append-only log; \<open>Okm_Series_Chain\<close>, \<open>_Recovery\<close>, \<open>_Runs\<close>,
    \<open>_Stream\<close> and \<open>_Names\<close> hold what is proved of dictionaries, parts, runs, streams and names.
  \<^item> \<open>Okm_Dyn_Codec\<close>, \<open>Okm_Dyn_Path\<close> (\<open>okm-dynamic/src/lib.rs\<close>, \<open>encode.rs\<close>, \<open>decode.rs\<close>, \<open>path.rs\<close>): the
    schema-driven codec and the paths into a document.

  \<^bold>\<open>What the lemmas show.\<close> Refinement: a history of table verbs is a history of map updates
  (\<open>table_refines_map\<close>), one of links and unlinks a history on a map of facts (\<open>graph_history_refines\<close>), a
  read through a batch is a read behind its commit, frames of point operations mean their operations in
  order, a stream of the log reads as the list of its records. Invariants: the index entries are those of
  the rows. Repair: \<open>rebuild_faces\<close> and \<open>reindex\<close> reach exactly the consistent store. Crash safety: a cut
  segment or part reads as a prefix of what was written. Round trips of every codec, with their limits.
  Termination of every loop. Where the code does not do what it promises, a theorem shows the divergence
  (for instance \<open>new_bucket_restarts_offsets\<close>, \<open>remote_back_repeats\<close>, \<open>closed_log_grows\<close>, \<open>int_sign_lost\<close>).

  \<^bold>\<open>Conditions that recur.\<close> \<open>prefix_safe\<close>: no foreign key lies between a prefix and its \<open>prefix_end\<close>, whose
  carry leaves zero bytes behind. \<open>dyn_ok\<close>: no nonnegative signed integer with a shortest form from 0x80 on,
  names and strings in UTF-8, objects in name order. Lengths behind \<open>put_len\<close> stay below 2^49. \<open>fits_dict\<close>,
  \<open>dict_room\<close> and \<open>log_fits\<close>: the strings of a body find room in the open dictionary block, whose index is
  below 240; \<open>late_codes_misread\<close> shows what happens behind that. \<open>range_ok\<close>: a paged scan meets keys of
  one length only. A vocabulary has room for the names that are written.

  \<^bold>\<open>Modelling.\<close> Machine integers are words of their width, \<open>usize\<close> lengths of data in memory natural
  numbers; arithmetic is that of a release build, and a panic is the result \<open>None\<close> or an error constructor
  of its own. Files are byte strings whose reads and writes succeed, except in the change log, where
  each file call takes its outcome from a list. zstd, xxh64, floating-point quantisation, the clock, the
  process table and the browser's storage are parameters. An iterator over an engine is the list of its
  items at the time of the call; threads and channels of the remote engine are a synchronous round trip.
  Loops are structural or have a measure. The paged iterator alone runs on fuel: two rounds, since a refill
  fills the buffer or ends the walk (\<open>fill_loop_enough\<close>).

  \<^bold>\<open>Not modelled.\<close> The async mirror of the engine trait, the native engines (adapters of their libraries), the
  bridges to Arrow and Iceberg, the drain to parquet, vector and n-gram search, aggregates and
  subscriptions, the tables of \<open>okm-dynamic\<close> above its codec, the derive macros (generators; the order of
  the writes they emit is modelled) and the language bindings.
\<close>

end
